(* ===== verification/Prelude.thy ===== *)
theory Prelude
  imports Main "HOL-Library.Word" "HOL-Library.Multiset"
begin

text \<open>
  Shared vocabulary of the development: the machine integers, the result type that carries the
  program's reported errors and its undefined accesses, the loops over containers that can fail,
  and the lemmas on lists, banks of queues and multisets that the component theories share.
\<close>

named_theorems inv_intros \<open>preservation of a component's invariant by its operations\<close>
named_theorems keeps \<open>fields that an operation leaves unchanged\<close>

section \<open>Machine integers\<close>

text \<open>
  \<open>uint64_t\<close> values that are addresses, tags, time stamps or clock values are 64-bit words, so
  shifts drop bits and additions wrap. \<open>int\<close> values computed by the arithmetic unit are 32-bit
  words. Container sizes, positions in containers and event counters are natural numbers.
\<close>

type_synonym u64 = "64 word"
type_synonym i32 = "32 word"

section \<open>Results\<close>

text \<open>
  \<open>Throw msg\<close> is a call of \<open>Debug::throwError(msg, ...)\<close>: the run is followed up to the first
  reported error. \<open>OutOfBounds\<close> and \<open>EmptyFront\<close> are the undefined accesses of C++
  (an index past the end of a container, \<open>front()\<close> or \<open>pop_front()\<close> of an empty one),
  \<open>ModByZero\<close> a remainder or quotient by zero, \<open>Overflow\<close> a signed operation whose value the type does not hold
  (or a shift out of range), \<open>NullPointer\<close> a call through a null pointer. \<open>NoReturn\<close>
  stands for a call that does not return.
\<close>

datatype err =
    Throw string
  | OutOfBounds
  | EmptyFront
  | ModByZero
  | Overflow
  | NullPointer
  | NoReturn

type_synonym 'a res = "err + 'a"

fun rbind :: "'a res \<Rightarrow> ('a \<Rightarrow> 'b res) \<Rightarrow> 'b res" where
  "rbind (Inl e) f = Inl e"
| "rbind (Inr x) f = f x"

fun rfold :: "('x \<Rightarrow> 's \<Rightarrow> 's res) \<Rightarrow> 'x list \<Rightarrow> 's \<Rightarrow> 's res" where
  "rfold f [] s = Inr s"
| "rfold f (x # xs) s = rbind (f x s) (rfold f xs)"

fun rfront :: "'a list \<Rightarrow> 'a res" where
  "rfront [] = Inl EmptyFront"
| "rfront (x # xs) = Inr x"

definition rnth :: "'a list \<Rightarrow> nat \<Rightarrow> 'a res" where
  "rnth xs i = (if i < length xs then Inr (xs ! i) else Inl OutOfBounds)"

definition deref :: "'a list \<Rightarrow> nat \<Rightarrow> 'a res" where
  "deref heap p = (if p < length heap then Inr (heap ! p) else Inl NullPointer)"

lemma rnth_ok [simp]: "i < length xs \<Longrightarrow> rnth xs i = Inr (xs ! i)"
  by (simp add: rnth_def)

lemma deref_ok [simp]: "p < length heap \<Longrightarrow> deref heap p = Inr (heap ! p)"
  by (simp add: deref_def)

lemma rnth_Inr_iff: "rnth xs i = Inr x \<longleftrightarrow> i < length xs \<and> x = xs ! i"
  by (auto simp: rnth_def)

lemma deref_Inr_iff: "deref heap p = Inr x \<longleftrightarrow> p < length heap \<and> x = heap ! p"
  by (auto simp: deref_def)

lemma rbind_Inr_iff: "rbind m f = Inr y \<longleftrightarrow> (\<exists>x. m = Inr x \<and> f x = Inr y)"
  by (cases m) auto

lemma rbind_Inl_iff: "rbind m f = Inl e \<longleftrightarrow> m = Inl e \<or> (\<exists>x. m = Inr x \<and> f x = Inl e)"
  by (cases m) auto

lemma rbind_cong: "m = m' \<Longrightarrow> (\<And>x. m' = Inr x \<Longrightarrow> f x = g x) \<Longrightarrow> rbind m f = rbind m' g"
  by (cases m') auto

lemma rbind_assoc: "rbind (rbind m f) g = rbind m (\<lambda>x. rbind (f x) g)"
  by (cases m) auto

lemma rbind_Inr_right [simp]: "rbind m Inr = m"
  by (cases m) auto

lemma rfold_append: "rfold f (xs @ ys) s = rbind (rfold f xs s) (rfold f ys)"
proof (induction xs arbitrary: s)
  case Nil
  then show ?case by simp
next
  case (Cons x xs)
  then show ?case by (cases "f x s") auto
qed

text \<open>Total correctness of a loop: every iteration returns and keeps the invariant.\<close>

lemma rfold_total:
  assumes "P s" "\<And>x t. x \<in> set xs \<Longrightarrow> P t \<Longrightarrow> \<exists>t'. f x t = Inr t' \<and> P t'"
  shows "\<exists>s'. rfold f xs s = Inr s' \<and> P s'"
  using assms
proof (induction xs arbitrary: s)
  case Nil
  then show ?case by simp
next
  case (Cons x xs)
  from Cons.prems obtain t where t: "f x s = Inr t" "P t"
    by (meson list.set_intros(1))
  then have "\<exists>s'. rfold f xs t = Inr s' \<and> P s'"
    using Cons.prems(2) by (intro Cons.IH) auto
  with t show ?case by simp
qed

text \<open>Partial correctness: whatever the loop returns satisfies the invariant.\<close>

lemma rfold_partial:
  assumes "rfold f xs s = Inr s'" "P s"
    "\<And>x t t'. x \<in> set xs \<Longrightarrow> P t \<Longrightarrow> f x t = Inr t' \<Longrightarrow> P t'"
  shows "P s'"
  using assms
proof (induction xs arbitrary: s)
  case Nil
  then show ?case by simp
next
  case (Cons x xs)
  then obtain t where "f x s = Inr t" "rfold f xs t = Inr s'"
    by (auto simp: rbind_Inr_iff)
  with Cons show ?case by (meson list.set_intros)
qed

text \<open>A loop whose iterations only fail with errors of a set, under an invariant.\<close>

lemma rfold_errors:
  assumes "P s"
    "\<And>x t. x \<in> set xs \<Longrightarrow> P t \<Longrightarrow> (\<exists>t'. f x t = Inr t' \<and> P t') \<or> (\<exists>e\<in>E. f x t = Inl e)"
  shows "(\<exists>s'. rfold f xs s = Inr s' \<and> P s') \<or> (\<exists>e\<in>E. rfold f xs s = Inl e)"
  using assms
proof (induction xs arbitrary: s)
  case Nil
  then show ?case by simp
next
  case (Cons x xs)
  have "(\<exists>t'. f x s = Inr t' \<and> P t') \<or> (\<exists>e\<in>E. f x s = Inl e)"
    by (rule Cons.prems(2)) (use Cons.prems in simp_all)
  then show ?case
  proof (elim disjE exE bexE conjE)
    fix t assume t: "f x s = Inr t" "P t"
    then have "(\<exists>s'. rfold f xs t = Inr s' \<and> P s') \<or> (\<exists>e\<in>E. rfold f xs t = Inl e)"
      using Cons.prems(2) by (intro Cons.IH) auto
    with t show ?thesis by simp
  next
    fix e assume "e \<in> E" "f x s = Inl e"
    then show ?thesis by auto
  qed
qed

section \<open>Lists, banks of queues and multisets\<close>

text \<open>\<open>first_index p xs\<close> is the position at which a search loop with a \<open>break\<close> stops.\<close>

fun first_index :: "('a \<Rightarrow> bool) \<Rightarrow> 'a list \<Rightarrow> nat option" where
  "first_index p [] = None"
| "first_index p (x # xs) = (if p x then Some 0 else map_option Suc (first_index p xs))"

lemma first_index_None: "first_index p xs = None \<longleftrightarrow> (\<forall>x\<in>set xs. \<not> p x)"
  by (induction xs) auto

lemma first_index_Some:
  "first_index p xs = Some i \<longleftrightarrow> i < length xs \<and> p (xs ! i) \<and> (\<forall>j<i. \<not> p (xs ! j))"
proof (induction xs arbitrary: i)
  case Nil
  then show ?case by simp
next
  case (Cons x xs)
  show ?case
  proof (cases i)
    case 0
    then show ?thesis by (cases "p x") auto
  next
    case (Suc n)
    have "(\<forall>j<Suc n. \<not> p ((x # xs) ! j)) \<longleftrightarrow> \<not> p x \<and> (\<forall>j<n. \<not> p (xs ! j))"
      by (auto simp: less_Suc_eq_0_disj)
    then show ?thesis using Suc Cons.IH [of n] by auto
  qed
qed

lemma first_index_less: "first_index p xs = Some i \<Longrightarrow> i < length xs"
  by (simp add: first_index_Some)

lemma first_index_sat: "first_index p xs = Some i \<Longrightarrow> p (xs ! i)"
  by (simp add: first_index_Some)

lemma mset_concat_update:
  "i < length xss \<Longrightarrow> mset (concat (xss[i := ys])) + mset (xss ! i) = mset (concat xss) + mset ys"
proof (induction xss arbitrary: i)
  case Nil
  then show ?case by simp
next
  case (Cons x xss)
  show ?case
  proof (cases i)
    case 0
    then show ?thesis by simp
  next
    case (Suc n)
    with Cons have "mset (concat (xss[n := ys])) + mset (xss ! n) = mset (concat xss) + mset ys"
      by simp
    with Suc show ?thesis by (simp add: algebra_simps)
  qed
qed

lemma mset_update_add:
  "i < length xs \<Longrightarrow> mset (xs[i := y]) + {#xs ! i#} = mset xs + {#y#}"
  by (simp add: mset_update)

lemma list_all_update: "list_all P xs \<Longrightarrow> P y \<Longrightarrow> list_all P (xs[i := y])"
  by (auto simp: list_all_iff dest!: subsetD [OF set_update_subset_insert])

lemma sum_list_update_add:
  fixes f :: "'a \<Rightarrow> 'b::comm_monoid_add"
  assumes "i < length xs"
  shows "sum_list (map f (xs[i := y])) + f (xs ! i) = sum_list (map f xs) + f y"
  using assms
proof (induction xs arbitrary: i)
  case Nil
  then show ?case by simp
next
  case (Cons x xs)
  then show ?case by (cases i) (auto simp: algebra_simps)
qed

text \<open>Replacing one entry of a bank of queues at two indices.\<close>

definition upd2 :: "nat \<Rightarrow> nat \<Rightarrow> ('a \<Rightarrow> 'a) \<Rightarrow> 'a list list \<Rightarrow> 'a list list" where
  "upd2 i j f xss = xss[i := (xss ! i)[j := f (xss ! i ! j)]]"

lemma length_upd2 [simp]: "length (upd2 i j f xss) = length xss"
  by (simp add: upd2_def)

lemma upd2_nth_other [simp]: "k \<noteq> i \<Longrightarrow> upd2 i j f xss ! k = xss ! k"
  by (simp add: upd2_def)

lemma upd2_nth_same: "i < length xss \<Longrightarrow> upd2 i j f xss ! i = (xss ! i)[j := f (xss ! i ! j)]"
  by (simp add: upd2_def)

lemma length_upd2_nth [simp]: "length (upd2 i j f xss ! k) = length (xss ! k)"
  by (cases "k = i"; cases "i < length xss") (auto simp: upd2_def list_update_beyond)

lemma upd2_nth2:
  "upd2 i j f xss ! k ! l =
     (if k = i \<and> l = j \<and> i < length xss \<and> j < length (xss ! i) then f (xss ! i ! j) else xss ! k ! l)"
  by (cases "k = i"; cases "i < length xss"; cases "l = j"; cases "j < length (xss ! i)")
    (auto simp: upd2_def list_update_beyond)

section \<open>Integer logarithm\<close>

text \<open>
  \<open>(uint64_t) log2(n)\<close> for a positive \<open>n\<close>: the position of its highest bit. The shifts of the
  cache geometry are computed with it.
\<close>

fun ilog2 :: "nat \<Rightarrow> nat" where
  "ilog2 n = (if n < 2 then 0 else Suc (ilog2 (n div 2)))"

declare ilog2.simps [simp del]

lemma ilog2_le: "0 < n \<Longrightarrow> 2 ^ ilog2 n \<le> n"
proof (induction n rule: ilog2.induct)
  case (1 n)
  show ?case
  proof (cases "n < 2")
    case True
    with 1 show ?thesis by (simp add: ilog2.simps)
  next
    case False
    with 1 have "2 ^ ilog2 (n div 2) \<le> n div 2" by simp
    then have "2 * 2 ^ ilog2 (n div 2) \<le> n" by linarith
    with False show ?thesis by (simp add: ilog2.simps [of n])
  qed
qed

lemma ilog2_gt: "n < 2 ^ Suc (ilog2 n)"
proof (induction n rule: ilog2.induct)
  case (1 n)
  show ?case
  proof (cases "n < 2")
    case True
    then show ?thesis by (simp add: ilog2.simps)
  next
    case False
    with 1 have "n div 2 < 2 ^ Suc (ilog2 (n div 2))" by simp
    then have "n < 2 * 2 ^ Suc (ilog2 (n div 2))" by linarith
    with False show ?thesis by (simp add: ilog2.simps [of n])
  qed
qed

end
