(* ===== verification/DataTypes.thy ===== *)
theory DataTypes
  imports Prelude
begin

text \<open>
  The data that the simulator's modules exchange (\<open>module/DataType.h\<close>), the enumerations of
  \<open>module/EnumType.h\<close>, the static parameters of \<open>sim/global.h\<close> with their loader, and the global
  clock of \<open>module/ClkSys.cpp\<close>.
\<close>

section \<open>Enumerations (EnumType.h)\<close>

datatype app_name =
    SimpleFlowTest | MemoryTest | Gemm | Bfs | Aes | Lud | FFT | Viterbi | Cfd
  | Gesummv | Sort | Ge | Cholesky | HotSpot | GCN

fun app_name_toString :: "app_name \<Rightarrow> string" where
  "app_name_toString SimpleFlowTest = ''SimpleFlowTest''"
| "app_name_toString MemoryTest = ''MemoryTest''"
| "app_name_toString Gemm = ''gemm''"
| "app_name_toString Bfs = ''bfs''"
| "app_name_toString Aes = ''aes''"
| "app_name_toString Lud = ''lud''"
| "app_name_toString FFT = ''fft''"
| "app_name_toString Viterbi = ''viterbi''"
| "app_name_toString Cfd = ''cfd''"
| "app_name_toString Gesummv = ''gesummv''"
| "app_name_toString Sort = ''sort''"
| "app_name_toString Ge = ''ge''"
| "app_name_toString Cholesky = ''cholesky''"
| "app_name_toString HotSpot = ''hotspot''"
| "app_name_toString GCN = ''gcn''"

datatype archType = ArchBase | ArchDGSF | ArchSGMF | ArchTIA

datatype chanType = Chan_Base | Chan_DGSF | Chan_SGMF | Chan_Lse | Chan_PartialMux

datatype cache_swap_style = CACHE_SWAP_FIFO | CACHE_SWAP_LRU | CACHE_SWAP_RAND | CACHE_SWAP_MAX

datatype cache_operation = READ | WRITE | LOCK | UNLOCK | WRITEBACK_DIRTY_BLOCK

datatype cache_write_strategy = WRITE_BACK | WRITE_THROUGH

datatype cache_write_allocate = WRITE_ALLOCATE | WRITE_NON_ALLOCATE

datatype alu_op =
    Nop | Add | Sub | Mul | Div | Mod | Mac | Cmp | Sel | SelPartial | And | Or | Xor | Not
  | Shl | Shr | Load | Store | Func

section \<open>Data and requests (DataType.h)\<close>

record data =
  d_value :: i32
  d_valid :: bool
  d_cond :: bool
  d_last :: bool
  d_lastOuter :: bool
  d_cycle :: u64
  d_graphSwitch :: bool
  d_tag :: u64
  d_lseReqQueueIndex :: nat

definition data0 :: data where
  "data0 = \<lparr>d_value = 0, d_valid = False, d_cond = True, d_last = False, d_lastOuter = False,
     d_cycle = 0, d_graphSwitch = False, d_tag = 0, d_lseReqQueueIndex = 0\<rparr>"

definition data_reset :: "data \<Rightarrow> data" where
  "data_reset d = d\<lparr>d_value := 0, d_valid := False, d_cond := False, d_last := False, d_cycle := 0\<rparr>"

record memReq =
  m_valid :: bool
  m_addr :: u64
  m_cnt :: nat
  m_isWrite :: bool
  m_inflight :: bool
  m_ready :: bool
  m_hasPushChan :: bool
  m_lseId :: nat
  m_lseReqQueueIndex :: nat
  m_spmReqQueueIndex :: nat
  m_coalesced :: bool
  m_tag :: u64

definition memReq0 :: memReq where
  "memReq0 = \<lparr>m_valid = False, m_addr = 0, m_cnt = 0, m_isWrite = False, m_inflight = False,
     m_ready = False, m_hasPushChan = False, m_lseId = 0, m_lseReqQueueIndex = 0,
     m_spmReqQueueIndex = 0, m_coalesced = False, m_tag = 0\<rparr>"

text \<open>
  \<open>CacheReq::cacheOp\<close> has no initialiser; a value-initialised request (the elements that
  \<open>resize\<close> creates) has the enumeration's zero, which is \<open>READ\<close>.
\<close>

record cacheReq =
  c_valid :: bool
  c_addr :: u64
  c_cnt :: nat
  c_lseId :: nat
  c_lseReqQueueIndex :: nat
  c_inflight :: bool
  c_ready :: bool
  c_cacheOp :: cache_operation
  c_coalesced :: bool

definition cacheReq0 :: cacheReq where
  "cacheReq0 = \<lparr>c_valid = False, c_addr = 0, c_cnt = 0, c_lseId = 0, c_lseReqQueueIndex = 0,
     c_inflight = False, c_ready = False, c_cacheOp = READ, c_coalesced = False\<rparr>"

section \<open>Simulation parameters (global.h, global.cpp)\<close>

record config =
  freq :: nat
  array_size :: nat
  tia_array_size :: nat
  base_input_buffer_size :: nat
  bram_bank_depth :: nat
  DGSF_input_buffer_size :: nat
  bram_access_delay :: nat
  SGMF_input_buffer_size :: nat
  SGMF_tag_size :: nat
  lse_queue_size :: nat
  lse_O3 :: bool
  alu_ADD :: nat
  alu_SUB :: nat
  alu_MUL :: nat
  alu_MAC :: nat
  alu_DIV :: nat
  alu_RELU :: nat
  no_memory :: bool
  data_precision :: nat
  bus_delay :: nat
  bank_block_size :: nat
  memSystem_queue_bank_num :: nat
  memSystem_req_queue_size_per_bank :: nat
  memSystem_ack_queue_size_per_bank :: nat
  memSys_coalescing_enable :: bool
  memSys_coalescer_entry_num :: nat
  memSys_coalescer_size_per_entry :: nat
  spm_enable :: bool
  spm_access_latency :: nat
  spm_bank_num :: nat
  spm_bank_depth :: nat
  spm_req_queue_size :: nat
  cache_enable :: bool
  cache_all_hit :: bool
  req_queue_to_mem_size :: nat
  cache_max_level :: nat
  cache_size_L1 :: nat
  cache_size_L2 :: nat
  cache_line_size_L1 :: nat
  cache_line_size_L2 :: nat
  cache_mapping_way_L1 :: nat
  cache_mapping_way_L2 :: nat
  cache_access_latency_L1 :: nat
  cache_access_latency_L2 :: nat
  cache_bank_num_L1 :: nat
  cache_bank_num_L2 :: nat
  cache_req_queue_size_per_bank_L1 :: nat
  cache_req_queue_size_per_bank_L2 :: nat
  cache_ack_queue_size_per_bank_L1 :: nat
  cache_ack_queue_size_per_bank_L2 :: nat
  cache_mshr_enable_L1 :: bool
  cache_mshr_enable_L2 :: bool
  cache_mshr_entry_num_L1 :: nat
  cache_mshr_entry_num_L2 :: nat
  cache_mshr_size_per_entry_L1 :: nat
  cache_mshr_size_per_entry_L2 :: nat

text \<open>The parameters before a configuration is loaded: static storage, zero-initialised.\<close>

definition config_static :: config where
  "config_static = \<lparr>freq = 0, array_size = 0, tia_array_size = 0, base_input_buffer_size = 0,
     bram_bank_depth = 0, DGSF_input_buffer_size = 0, bram_access_delay = 0, SGMF_input_buffer_size = 0,
     SGMF_tag_size = 0, lse_queue_size = 0, lse_O3 = False, alu_ADD = 0,
     alu_SUB = 0, alu_MUL = 0, alu_MAC = 0, alu_DIV = 0,
     alu_RELU = 0, no_memory = False, data_precision = 0, bus_delay = 0,
     bank_block_size = 0, memSystem_queue_bank_num = 0, memSystem_req_queue_size_per_bank = 0, memSystem_ack_queue_size_per_bank = 0,
     memSys_coalescing_enable = False, memSys_coalescer_entry_num = 0, memSys_coalescer_size_per_entry = 0, spm_enable = False,
     spm_access_latency = 0, spm_bank_num = 0, spm_bank_depth = 0, spm_req_queue_size = 0,
     cache_enable = False, cache_all_hit = False, req_queue_to_mem_size = 0, cache_max_level = 0,
     cache_size_L1 = 0, cache_size_L2 = 0, cache_line_size_L1 = 0, cache_line_size_L2 = 0,
     cache_mapping_way_L1 = 0, cache_mapping_way_L2 = 0, cache_access_latency_L1 = 0, cache_access_latency_L2 = 0,
     cache_bank_num_L1 = 0, cache_bank_num_L2 = 0, cache_req_queue_size_per_bank_L1 = 0, cache_req_queue_size_per_bank_L2 = 0,
     cache_ack_queue_size_per_bank_L1 = 0, cache_ack_queue_size_per_bank_L2 = 0, cache_mshr_enable_L1 = False, cache_mshr_enable_L2 = False,
     cache_mshr_entry_num_L1 = 0, cache_mshr_entry_num_L2 = 0, cache_mshr_size_per_entry_L1 = 0, cache_mshr_size_per_entry_L2 = 0\<rparr>"

text \<open>A small configuration for the concrete instances of the theorems.\<close>

definition cfg_demo :: config where
  "cfg_demo = config_static\<lparr>base_input_buffer_size := 2, lse_queue_size := 2, data_precision := 4, bus_delay := 1, bank_block_size := 4,
     memSystem_queue_bank_num := 2, memSystem_req_queue_size_per_bank := 2,
     memSystem_ack_queue_size_per_bank := 2, memSys_coalescing_enable := True,
     memSys_coalescer_entry_num := 2, memSys_coalescer_size_per_entry := 2, spm_enable := False,
     cache_enable := True, req_queue_to_mem_size := 2, cache_max_level := 1, cache_size_L1 := 64,
     cache_line_size_L1 := 8, cache_mapping_way_L1 := 2, cache_bank_num_L1 := 2,
     cache_req_queue_size_per_bank_L1 := 2, cache_ack_queue_size_per_bank_L1 := 2,
     cache_mshr_entry_num_L1 := 2, cache_mshr_size_per_entry_L1 := 2\<rparr>"

definition cfg_demo2 :: config where
  "cfg_demo2 = cfg_demo\<lparr>cache_max_level := 2, cache_size_L2 := 128,
     cache_line_size_L2 := 16, cache_mapping_way_L2 := 2, cache_bank_num_L2 := 2,
     cache_req_queue_size_per_bank_L2 := 2, cache_ack_queue_size_per_bank_L2 := 2,
     cache_mshr_entry_num_L2 := 2, cache_mshr_size_per_entry_L2 := 2\<rparr>"

text \<open>
  The JSON library is not part of the repository's sources: a parsed document is the list of its
  members, and the three accessors that the loader calls are modelled by their documented
  behaviour on the values the loader reads (\<open>asUInt64\<close> and \<open>asBool\<close> of a missing member, which
  \<open>operator[]\<close> makes a null value, are 0 and false).
\<close>

type_synonym json = "(string \<times> nat) list"

definition asUInt64 :: "json \<Rightarrow> string \<Rightarrow> nat" where
  "asUInt64 root key = (case map_of root key of None \<Rightarrow> 0 | Some n \<Rightarrow> n)"

definition asBool :: "json \<Rightarrow> string \<Rightarrow> bool" where
  "asBool root key = (case map_of root key of None \<Rightarrow> False | Some n \<Rightarrow> n \<noteq> 0)"

definition isMember :: "json \<Rightarrow> string \<Rightarrow> bool" where
  "isMember root key = (map_of root key \<noteq> None)"

text \<open>
  \<open>Global::load_config\<close>: a file that cannot be opened is reported (\<open>None\<close>), a file that does
  not parse leaves every parameter as it is (\<open>Some None\<close>). The two cache sizes keep their previous value when
  neither of their members is present.
\<close>

definition load_size :: "json \<Rightarrow> string \<Rightarrow> string \<Rightarrow> nat \<Rightarrow> nat" where
  "load_size root kb mb old =
     (if isMember root kb then asUInt64 root kb * 1024
      else if isMember root mb then asUInt64 root mb * 1024 * 1024
      else old)"

definition load_config :: "json option option \<Rightarrow> config \<Rightarrow> config res" where
  "load_config doc g =
     (case doc of None \<Rightarrow> Inl (Throw ''Load config failed!'')
      | Some None \<Rightarrow> Inr g
      | Some (Some root) \<Rightarrow> Inr \<lparr>
        freq = asUInt64 root ''freq'',
        array_size = asUInt64 root ''array_size'',
        tia_array_size = asUInt64 root ''tia_array_size'',
        base_input_buffer_size = asUInt64 root ''base_input_buffer_size'',
        bram_bank_depth = asUInt64 root ''bram_bank_depth'',
        DGSF_input_buffer_size = asUInt64 root ''DGSF_input_buffer_size'',
        bram_access_delay = asUInt64 root ''bram_access_delay'',
        SGMF_input_buffer_size = asUInt64 root ''SGMF_input_buffer_size'',
        SGMF_tag_size = asUInt64 root ''SGMF_input_buffer_size'',
        lse_queue_size = asUInt64 root ''lse_queue_size'',
        lse_O3 = asBool root ''lse_O3'',
        alu_ADD = asUInt64 root ''ADD'',
        alu_SUB = asUInt64 root ''SUB'',
        alu_MUL = asUInt64 root ''MUL'',
        alu_MAC = asUInt64 root ''MAC'',
        alu_DIV = asUInt64 root ''DIV'',
        alu_RELU = asUInt64 root ''RELU'',
        no_memory = asBool root ''no_memory'',
        data_precision = asUInt64 root ''data_precision'',
        bus_delay = asUInt64 root ''bus_delay'',
        bank_block_size = asUInt64 root ''bank_block_size'',
        memSystem_queue_bank_num = asUInt64 root ''memSystem_queue_bank_num'',
        memSystem_req_queue_size_per_bank = asUInt64 root ''memSystem_req_queue_size_per_bank'',
        memSystem_ack_queue_size_per_bank = asUInt64 root ''memSystem_ack_queue_size_per_bank'',
        memSys_coalescing_enable = asBool root ''memSys_coalescing_enable'',
        memSys_coalescer_entry_num = asUInt64 root ''Global::memSys_coalescer_entry_num'',
        memSys_coalescer_size_per_entry = asUInt64 root ''memSys_coalescer_size_per_entry'',
        spm_enable = asBool root ''spm_enable'',
        spm_access_latency = asUInt64 root ''spm_access_latency'',
        spm_bank_num = asUInt64 root ''spm_bank_num'',
        spm_bank_depth = asUInt64 root ''spm_bank_depth'',
        spm_req_queue_size = asUInt64 root ''spm_req_queue_size'',
        cache_enable = asBool root ''cache_enable'',
        cache_all_hit = asBool root ''cache_all_hit'',
        req_queue_to_mem_size = asUInt64 root ''req_queue_to_mem_size'',
        cache_max_level = asUInt64 root ''cache_max_level'',
        cache_size_L1 = load_size root ''cache_size_L1_KB'' ''cache_size_L1_MB'' (cache_size_L1 g),
        cache_size_L2 = load_size root ''cache_size_L2_KB'' ''cache_size_L2_MB'' (cache_size_L2 g),
        cache_line_size_L1 = asUInt64 root ''cache_line_size_L1'',
        cache_line_size_L2 = asUInt64 root ''cache_line_size_L2'',
        cache_mapping_way_L1 = asUInt64 root ''cache_mapping_way_L1'',
        cache_mapping_way_L2 = asUInt64 root ''cache_mapping_way_L2'',
        cache_access_latency_L1 = asUInt64 root ''cache_access_latency_L1'',
        cache_access_latency_L2 = asUInt64 root ''cache_access_latency_L2'',
        cache_bank_num_L1 = asUInt64 root ''cache_bank_num_L1'',
        cache_bank_num_L2 = asUInt64 root ''cache_bank_num_L2'',
        cache_req_queue_size_per_bank_L1 = asUInt64 root ''cache_req_queue_size_per_bank_L1'',
        cache_req_queue_size_per_bank_L2 = asUInt64 root ''cache_req_queue_size_per_bank_L2'',
        cache_ack_queue_size_per_bank_L1 = asUInt64 root ''cache_ack_queue_size_per_bank_L1'',
        cache_ack_queue_size_per_bank_L2 = asUInt64 root ''cache_ack_queue_size_per_bank_L2'',
        cache_mshr_enable_L1 = asBool root ''cache_mshr_enable_L1'',
        cache_mshr_enable_L2 = asBool root ''cache_mshr_enable_L2'',
        cache_mshr_entry_num_L1 = asUInt64 root ''cache_mshr_entry_num_L1'',
        cache_mshr_entry_num_L2 = asUInt64 root ''cache_mshr_entry_num_L2'',
        cache_mshr_size_per_entry_L1 = asUInt64 root ''cache_mshr_size_per_entry_L1'',
        cache_mshr_size_per_entry_L2 = asUInt64 root ''cache_mshr_size_per_entry_L2''\<rparr>)"

section \<open>The global clock (ClkSys.cpp)\<close>

record clkDomain =
  clk :: u64
  clkAdd :: bool
  clkStall :: "bool list"

definition clk_static_init :: clkDomain where
  "clk_static_init = \<lparr>clk = 0, clkAdd = False, clkStall = []\<rparr>"

definition selfAdd :: "clkDomain \<Rightarrow> clkDomain" where
  "selfAdd k = k\<lparr>clk := clk k + 1\<rparr>"

definition setClk :: "u64 \<Rightarrow> clkDomain \<Rightarrow> clkDomain" where
  "setClk c k = k\<lparr>clk := c\<rparr>"

definition initClk :: "clkDomain \<Rightarrow> clkDomain" where
  "initClk k = setClk 0 k"

definition addClkStall :: "clkDomain \<Rightarrow> clkDomain" where
  "addClkStall k = k\<lparr>clkStall := clkStall k @ [True]\<rparr>"

definition resetClkStall :: "clkDomain \<Rightarrow> clkDomain" where
  "resetClkStall k = k\<lparr>clkStall := []\<rparr>"

definition clkUpdate :: "clkDomain \<Rightarrow> clkDomain" where
  "clkUpdate k =
     resetClkStall (if clkStall k = [] then (selfAdd k)\<lparr>clkAdd := True\<rparr> else k\<lparr>clkAdd := False\<rparr>)"

definition checkClkAdd :: "clkDomain \<Rightarrow> bool" where
  "checkClkAdd k = clkAdd k"

text \<open>A simulation loop: each iteration raises some stalls and then updates the clock.\<close>

fun clk_iterations :: "nat list \<Rightarrow> clkDomain \<Rightarrow> clkDomain" where
  "clk_iterations [] k = k"
| "clk_iterations (n # ns) k = clk_iterations ns (clkUpdate ((addClkStall ^^ n) k))"

lemma clkStall_addClkStall_pow [simp]:
  "clkStall ((addClkStall ^^ n) k) = clkStall k @ replicate n True"
  by (induction n) (auto simp: addClkStall_def replicate_append_same)

lemma clk_addClkStall_pow [simp]: "clk ((addClkStall ^^ n) k) = clk k"
  by (induction n) (auto simp: addClkStall_def)

lemma clk_clkUpdate: "clk (clkUpdate k) = (if clkStall k = [] then clk k + 1 else clk k)"
  by (simp add: clkUpdate_def resetClkStall_def selfAdd_def)

lemma clkStall_clkUpdate [simp]: "clkStall (clkUpdate k) = []"
  by (simp add: clkUpdate_def resetClkStall_def)

lemma clkAdd_clkUpdate: "clkAdd (clkUpdate k) \<longleftrightarrow> clkStall k = []"
  by (simp add: clkUpdate_def resetClkStall_def)

text \<open>C15: the clock advances by one, modulo the width of the counter, in exactly the iterations of
  the simulation loop in which no component raised a stall; the flag that tells the components
  whether the clock has advanced is that of the last iteration.\<close>

theorem clock_counts_stall_free_iterations:
  assumes "clkStall k = []"
  shows "clk (clk_iterations ns k) = clk k + of_nat (count_list ns 0)
    \<and> clkStall (clk_iterations ns k) = []
    \<and> (ns \<noteq> [] \<longrightarrow> checkClkAdd (clk_iterations ns k) = (last ns = 0))"
  using assms
proof (induction ns arbitrary: k)
  case Nil
  then show ?case by simp
next
  case (Cons n ns)
  then have IH: "clk (clk_iterations ns (clkUpdate ((addClkStall ^^ n) k)))
      = clk (clkUpdate ((addClkStall ^^ n) k)) + of_nat (count_list ns 0)"
    "clkStall (clk_iterations ns (clkUpdate ((addClkStall ^^ n) k))) = []"
    "ns \<noteq> [] \<longrightarrow> checkClkAdd (clk_iterations ns (clkUpdate ((addClkStall ^^ n) k))) = (last ns = 0)"
    by (metis clkStall_clkUpdate)+
  have "clk (clkUpdate ((addClkStall ^^ n) k)) = clk k + (if n = 0 then 1 else 0)"
    using Cons.prems by (simp add: clk_clkUpdate)
  moreover have "ns = [] \<longrightarrow> checkClkAdd (clk_iterations (n # ns) k) = (n = 0)"
    using Cons.prems by (simp add: checkClkAdd_def clkAdd_clkUpdate)
  ultimately show ?case using IH by (auto simp: algebra_simps)
qed

theorem clock_counts_stall_free_iterations_witness:
  "clk (clk_iterations [0, 2, 0, 1] clk_static_init) = 2"
  using clock_counts_stall_free_iterations [of clk_static_init "[0, 2, 0, 1]"]
  by (simp add: clk_static_init_def)

text \<open>Loading a configuration document sets the entry number of the coalescer from a member
  named \<open>Global::memSys_coalescer_entry_num\<close>, so a document that gives only the documented member
  \<open>memSys_coalescer_entry_num\<close> (as \<open>config.json\<close> does) configures a coalescer with no entries; the
  tag size of the SGMF architecture is that of its input buffer whatever the document says; the
  cache sizes are kept when neither of their members is given.\<close>

theorem load_config_pitfalls:
  assumes "load_config (Some (Some root)) g = Inr g'"
  shows "(\<not> isMember root ''Global::memSys_coalescer_entry_num'' \<longrightarrow> memSys_coalescer_entry_num g' = 0)
    \<and> SGMF_tag_size g' = SGMF_input_buffer_size g'
    \<and> (\<not> isMember root ''cache_size_L1_KB'' \<and> \<not> isMember root ''cache_size_L1_MB''
          \<longrightarrow> cache_size_L1 g' = cache_size_L1 g)
    \<and> (isMember root ''cache_size_L1_KB'' \<longrightarrow> cache_size_L1 g' = asUInt64 root ''cache_size_L1_KB'' * 1024)"
proof -
  have "memSys_coalescer_entry_num g' = asUInt64 root ''Global::memSys_coalescer_entry_num''"
    "SGMF_tag_size g' = asUInt64 root ''SGMF_input_buffer_size''"
    "SGMF_input_buffer_size g' = asUInt64 root ''SGMF_input_buffer_size''"
    "cache_size_L1 g' = load_size root ''cache_size_L1_KB'' ''cache_size_L1_MB'' (cache_size_L1 g)"
    using assms by (auto simp: load_config_def)
  then show ?thesis by (simp add: asUInt64_def isMember_def load_size_def)
qed

theorem load_config_pitfalls_witness:
  "memSys_coalescer_entry_num (projr (load_config (Some (Some [(''memSys_coalescer_entry_num'', 32)])) config_static)) = 0"
proof -
  obtain g' where g': "load_config (Some (Some [(''memSys_coalescer_entry_num'', 32)])) config_static = Inr g'"
    by (simp add: load_config_def)
  show ?thesis
    using load_config_pitfalls [OF g'] by (simp add: g' isMember_def)
qed

end
