(* ===== verification/MemoryDataBus.thy ===== *)
theory MemoryDataBus
  imports DataTypes
begin

text \<open>
  The bus between the DRAM and the on-chip memory (\<open>module/mem/MemoryDataBus.cpp\<close>): the DRAM's
  completion callbacks push acknowledgements into a delay queue, and \<open>MemoryDataBusUpdate\<close>,
  called once per clock cycle, delivers those whose delay has run out.
\<close>

section \<open>State and operations\<close>

record dataBus =
  busDelay :: nat
  busDelayFifo :: "(memReq \<times> nat) list"

definition dataBus_new :: "config \<Rightarrow> dataBus" where
  "dataBus_new g = \<lparr>busDelay = bus_delay g, busDelayFifo = []\<rparr>"

definition mem_read_complete :: "u64 \<Rightarrow> dataBus \<Rightarrow> dataBus" where
  "mem_read_complete addr b =
     b\<lparr>busDelayFifo := busDelayFifo b @
        [(memReq0\<lparr>m_valid := True, m_isWrite := False, m_addr := addr\<rparr>, busDelay b)]\<rparr>"

definition mem_write_complete :: "u64 \<Rightarrow> dataBus \<Rightarrow> dataBus" where
  "mem_write_complete addr b =
     b\<lparr>busDelayFifo := busDelayFifo b @
        [(memReq0\<lparr>m_valid := True, m_isWrite := True, m_addr := addr\<rparr>, busDelay b)]\<rparr>"

text \<open>The first loop of the update counts every delay down, the second pops from the front
  while the delay of the front entry is 0.\<close>

definition bus_countdown :: "(memReq \<times> nat) list \<Rightarrow> (memReq \<times> nat) list" where
  "bus_countdown = map (\<lambda>(r, d). (r, if d > 0 then d - 1 else d))"

fun bus_pop_ready :: "(memReq \<times> nat) list \<Rightarrow> memReq list \<times> (memReq \<times> nat) list" where
  "bus_pop_ready [] = ([], [])"
| "bus_pop_ready ((r, d) # q) =
     (if d = 0 then (case bus_pop_ready q of (acks, q') \<Rightarrow> (r # acks, q')) else ([], (r, d) # q))"

definition memoryDataBusUpdate :: "dataBus \<Rightarrow> memReq list \<times> dataBus" where
  "memoryDataBusUpdate b =
     (case bus_pop_ready (bus_countdown (busDelayFifo b)) of
        (acks, q) \<Rightarrow> (acks, b\<lparr>busDelayFifo := q\<rparr>))"

section \<open>Invariant\<close>

text \<open>
  Every entry enters with the same delay and all are counted down together, so the delays are
  in ascending order and none exceeds the bus delay: popping only from the front never holds
  back an entry whose delay has run out.
\<close>

definition bus_inv :: "dataBus \<Rightarrow> bool" where
  "bus_inv b \<longleftrightarrow> sorted (map snd (busDelayFifo b)) \<and> (\<forall>e\<in>set (busDelayFifo b). snd e \<le> busDelay b)"

lemma bus_inv_new [inv_intros]: "bus_inv (dataBus_new g)"
  by (simp add: bus_inv_def dataBus_new_def)

lemma bus_inv_read [inv_intros]: "bus_inv b \<Longrightarrow> bus_inv (mem_read_complete a b)"
  by (auto simp: bus_inv_def mem_read_complete_def sorted_append)

lemma bus_inv_write [inv_intros]: "bus_inv b \<Longrightarrow> bus_inv (mem_write_complete a b)"
  by (auto simp: bus_inv_def mem_write_complete_def sorted_append)

lemma bus_countdown_eq: "bus_countdown q = map (\<lambda>(r, d). (r, d - 1)) q"
  unfolding bus_countdown_def by (rule map_cong) auto

lemma bus_pop_ready_sorted:
  "sorted (map snd q) \<Longrightarrow>
     bus_pop_ready q = (map fst (filter (\<lambda>e. snd e = 0) q), filter (\<lambda>e. snd e \<noteq> 0) q)"
proof (induction q rule: bus_pop_ready.induct)
  case 1
  then show ?case by simp
next
  case (2 r d q)
  show ?case
  proof (cases "d = 0")
    case True
    with 2 show ?thesis by simp
  next
    case False
    with 2 have "\<forall>e\<in>set q. snd e \<noteq> 0" by fastforce
    with False show ?thesis by (auto simp: filter_id_conv filter_empty_conv)
  qed
qed

lemma sorted_countdown: "sorted (map snd q) \<Longrightarrow> sorted (map snd (bus_countdown q))"
  by (induction q) (auto simp: bus_countdown_eq diff_le_mono)

text \<open>The update in closed form: the due entries leave, the others are counted down.\<close>

lemma memoryDataBusUpdate_eq:
  assumes "bus_inv b"
  shows "memoryDataBusUpdate b =
    (map fst (filter (\<lambda>e. snd e \<le> 1) (busDelayFifo b)),
     b\<lparr>busDelayFifo := map (\<lambda>(r, d). (r, d - 1)) (filter (\<lambda>e. 1 < snd e) (busDelayFifo b))\<rparr>)"
proof -
  have s: "sorted (map snd (bus_countdown (busDelayFifo b)))"
    using assms by (simp add: bus_inv_def sorted_countdown)
  have a: "map fst (filter (\<lambda>e. snd e = 0) (bus_countdown q)) = map fst (filter (\<lambda>e. snd e \<le> 1) q)"
    for q by (induction q) (auto simp: bus_countdown_eq)
  have c: "filter (\<lambda>e. snd e \<noteq> 0) (bus_countdown q)
      = map (\<lambda>(r, d). (r, d - 1)) (filter (\<lambda>e. 1 < snd e) q)"
    for q by (induction q) (auto simp: bus_countdown_eq)
  show ?thesis
    unfolding memoryDataBusUpdate_def bus_pop_ready_sorted [OF s] prod.case a c ..
qed

lemma bus_inv_update [inv_intros]: "bus_inv b \<Longrightarrow> bus_inv (snd (memoryDataBusUpdate b))"
proof -
  assume i: "bus_inv b"
  have "sorted (map snd q) \<Longrightarrow>
      sorted (map snd (map (\<lambda>(r, d). (r, d - 1)) (filter (\<lambda>e. 1 < snd e) q)))" for q :: "(memReq \<times> nat) list"
    by (induction q) (auto simp: diff_le_mono)
  with i show ?thesis
    by (fastforce simp: memoryDataBusUpdate_eq bus_inv_def)
qed

lemma busDelay_update [keeps]: "busDelay (snd (memoryDataBusUpdate b)) = busDelay b"
  by (simp add: memoryDataBusUpdate_def split: prod.split)

section \<open>Delivery\<close>














end
