(* ===== verification/Mshr.thy ===== *)
theory Mshr
  imports DataTypes
begin

text \<open>
  The miss status holding registers of a cache level (\<open>module/mem/Mshr.cpp\<close>): a table of entries,
  each with the queue of the requests that wait for one memory block. The interface that the cache
  relies on is the locale \<open>miss_table\<close>; its laws are proved here for the code's table.
\<close>

section \<open>State and operations\<close>

record mshrEntry =
  e_blockAddr :: u64
  e_mshrQueue :: "cacheReq list"
  e_valid :: bool
  e_ready :: bool
  e_outstanding :: bool

definition mshrEntry0 :: mshrEntry where
  "mshrEntry0 = \<lparr>e_blockAddr = 0, e_mshrQueue = [], e_valid = False, e_ready = False,
     e_outstanding = False\<rparr>"

record mshr =
  entryNum :: nat
  entrySize :: nat
  mshrTable :: "mshrEntry list"
  mshrRdPtr :: nat

definition mshrInit :: "nat \<Rightarrow> nat \<Rightarrow> mshr" where
  "mshrInit n sz = \<lparr>entryNum = n, entrySize = sz, mshrTable = replicate n mshrEntry0, mshrRdPtr = 0\<rparr>"

abbreviation upd_entry :: "nat \<Rightarrow> mshrEntry \<Rightarrow> mshr \<Rightarrow> mshr" where
  "upd_entry i e m \<equiv> m\<lparr>mshrTable := (mshrTable m)[i := e]\<rparr>"

definition send2Mshr :: "u64 \<Rightarrow> cacheReq \<Rightarrow> mshr \<Rightarrow> bool \<times> mshr" where
  "send2Mshr blk req m =
     (case first_index (\<lambda>e. e_valid e \<and> e_blockAddr e = blk \<and> length (e_mshrQueue e) < entrySize m)
             (mshrTable m) of
        Some i \<Rightarrow>
          (let e = mshrTable m ! i
           in (True, upd_entry i (e\<lparr>e_mshrQueue := e_mshrQueue e @ [req]\<rparr>) m))
      | None \<Rightarrow>
          (case first_index (\<lambda>e. \<not> e_valid e) (mshrTable m) of
             Some i \<Rightarrow>
               (let e = mshrTable m ! i
                in (True, upd_entry i
                     (e\<lparr>e_valid := True, e_outstanding := True, e_blockAddr := blk,
                        e_mshrQueue := e_mshrQueue e @ [req]\<rparr>) m))
           | None \<Rightarrow> (False, m)))"

definition setMshrEntryReady :: "u64 \<Rightarrow> mshr \<Rightarrow> mshr" where
  "setMshrEntryReady blk m =
     m\<lparr>mshrTable := map (\<lambda>e. if e_valid e \<and> e_blockAddr e = blk then e\<lparr>e_ready := True\<rparr> else e)
        (mshrTable m)\<rparr>"

definition peekMshrReadyEntry :: "mshr \<Rightarrow> ((nat \<times> cacheReq) list \<times> mshr) res" where
  "peekMshrReadyEntry m =
     (let n = length (mshrTable m) in
      rbind (rfold (\<lambda>i reqVec.
               let entryId = (mshrRdPtr m + i) mod n; e = mshrTable m ! entryId in
               if e_valid e \<and> e_ready e
               then rbind (rfront (e_mshrQueue e)) (\<lambda>r. Inr (reqVec @ [(entryId, r)]))
               else Inr reqVec) [0..<n] [])
        (\<lambda>reqVec. if n = 0 then Inl ModByZero
           else Inr (reqVec, m\<lparr>mshrRdPtr := (mshrRdPtr m + 1) mod n\<rparr>)))"

definition clearMshrEntry :: "nat list \<Rightarrow> mshr \<Rightarrow> mshr res" where
  "clearMshrEntry entryIdVec =
     rfold (\<lambda>entryId m.
       if entryId < length (mshrTable m)
       then (let e = mshrTable m ! entryId in
             case e_mshrQueue e of
               [] \<Rightarrow> Inl EmptyFront
             | _ # q \<Rightarrow>
                 Inr (upd_entry entryId
                   (if q = [] then e\<lparr>e_mshrQueue := q, e_valid := False, e_ready := False\<rparr>
                    else e\<lparr>e_mshrQueue := q\<rparr>) m))
       else Inl OutOfBounds) entryIdVec"

definition seekMshrFreeEntry :: "mshr \<Rightarrow> bool" where
  "seekMshrFreeEntry m = list_ex (\<lambda>e. \<not> e_valid e) (mshrTable m)"

definition getOutstandingReq :: "mshr \<Rightarrow> (nat \<times> cacheReq) list res" where
  "getOutstandingReq m =
     rfold (\<lambda>entryId reqVec.
        let e = mshrTable m ! entryId in
        if e_valid e \<and> e_outstanding e
        then rbind (rfront (e_mshrQueue e)) (\<lambda>r. Inr (reqVec @ [(entryId, r)]))
        else Inr reqVec) [0..<length (mshrTable m)] []"

definition clearOutstandingFlag :: "nat list \<Rightarrow> mshr \<Rightarrow> mshr res" where
  "clearOutstandingFlag entryIdVec =
     rfold (\<lambda>entryId m.
       if entryId < length (mshrTable m)
       then (let e = mshrTable m ! entryId in
             if e_outstanding e then Inr (upd_entry entryId (e\<lparr>e_outstanding := False\<rparr>) m)
             else Inl (Throw ''This entry is not an outstanding req''))
       else Inl OutOfBounds) entryIdVec"

section \<open>Invariant\<close>

text \<open>
  An entry is valid exactly when requests wait in it, only valid entries are ready, and a queue
  holds at most \<open>entrySize\<close> requests (one in any case).
\<close>

definition entry_ok :: "nat \<Rightarrow> mshrEntry \<Rightarrow> bool" where
  "entry_ok n e \<longleftrightarrow> (e_valid e \<longleftrightarrow> e_mshrQueue e \<noteq> []) \<and> (e_ready e \<longrightarrow> e_valid e)
     \<and> length (e_mshrQueue e) \<le> max 1 n"

definition mshr_inv :: "mshr \<Rightarrow> bool" where
  "mshr_inv m \<longleftrightarrow> mshrTable m \<noteq> [] \<and> list_all (entry_ok (entrySize m)) (mshrTable m)"

definition mshr_contents :: "mshr \<Rightarrow> cacheReq multiset" where
  "mshr_contents m = mset (concat (map e_mshrQueue (mshrTable m)))"

lemma mshr_inv_nth: "mshr_inv m \<Longrightarrow> i < length (mshrTable m) \<Longrightarrow> entry_ok (entrySize m) (mshrTable m ! i)"
  by (simp add: mshr_inv_def list_all_length)

lemma mshr_inv_upd:
  "mshr_inv m \<Longrightarrow> entry_ok (entrySize m) e \<Longrightarrow> mshr_inv (upd_entry i e m)"
  by (simp add: mshr_inv_def list_all_update)

lemma mshr_contents_upd:
  "i < length (mshrTable m) \<Longrightarrow>
   mshr_contents (upd_entry i e m) + mset (e_mshrQueue (mshrTable m ! i))
     = mshr_contents m + mset (e_mshrQueue e)"
  unfolding mshr_contents_def
  using mset_concat_update [of i "map e_mshrQueue (mshrTable m)" "e_mshrQueue e"]
  by (simp add: map_update)

lemma mshr_inv_init [inv_intros]: "0 < n \<Longrightarrow> mshr_inv (mshrInit n sz)"
  by (simp add: mshr_inv_def mshrInit_def mshrEntry0_def entry_ok_def list_all_iff)

lemma mshr_contents_init [simp]: "mshr_contents (mshrInit n sz) = {#}"
  by (simp add: mshr_contents_def mshrInit_def mshrEntry0_def)

section \<open>Sending a miss\<close>

text \<open>The entries that a miss of a block joins: those of its block that have room.\<close>

definition joins :: "mshr \<Rightarrow> u64 \<Rightarrow> mshrEntry \<Rightarrow> bool" where
  "joins m blk e \<longleftrightarrow> e_valid e \<and> e_blockAddr e = blk \<and> length (e_mshrQueue e) < entrySize m"

text \<open>An entry after it has taken a miss: one that was free is for the block of the miss, and outstanding.\<close>

definition with_miss :: "u64 \<Rightarrow> cacheReq \<Rightarrow> mshrEntry \<Rightarrow> mshrEntry" where
  "with_miss blk req e = e\<lparr>e_valid := True, e_blockAddr := blk, e_outstanding := (e_valid e \<longrightarrow> e_outstanding e),
     e_mshrQueue := e_mshrQueue e @ [req]\<rparr>"

lemma send2Mshr_place:
  "(\<exists>e\<in>set (mshrTable m). joins m blk e) \<Longrightarrow>
     \<exists>i<length (mshrTable m). joins m blk (mshrTable m ! i) \<and> send2Mshr blk req m = (True, upd_entry i (with_miss blk req (mshrTable m ! i)) m)"
  "\<forall>e\<in>set (mshrTable m). \<not> joins m blk e \<Longrightarrow> seekMshrFreeEntry m \<Longrightarrow>
     \<exists>i<length (mshrTable m). \<not> e_valid (mshrTable m ! i) \<and> send2Mshr blk req m = (True, upd_entry i (with_miss blk req (mshrTable m ! i)) m)"
  "\<forall>e\<in>set (mshrTable m). \<not> joins m blk e \<Longrightarrow> \<not> seekMshrFreeEntry m \<Longrightarrow> send2Mshr blk req m = (False, m)"
proof -
  let ?P = "\<lambda>e. e_valid e \<and> e_blockAddr e = blk \<and> length (e_mshrQueue e) < entrySize m"
  have P: "?P = joins m blk" by (simp add: joins_def fun_eq_iff)
  show "\<exists>i<length (mshrTable m). joins m blk (mshrTable m ! i) \<and> send2Mshr blk req m = (True, upd_entry i (with_miss blk req (mshrTable m ! i)) m)"
    if some: "\<exists>e\<in>set (mshrTable m). joins m blk e"
  proof -
    obtain i where i: "first_index ?P (mshrTable m) = Some i" using some unfolding P by (cases "first_index (joins m blk) (mshrTable m)") (auto simp: first_index_None)
    note sat = first_index_sat [OF i] and less = first_index_less [OF i]
    have "with_miss blk req (mshrTable m ! i) = (mshrTable m ! i)\<lparr>e_mshrQueue := e_mshrQueue (mshrTable m ! i) @ [req]\<rparr>"
      using sat by (intro mshrEntry.equality) (simp_all add: with_miss_def)
    with i sat less show ?thesis by (intro exI [of _ i]) (simp add: send2Mshr_def joins_def Let_def)
  qed
  assume "\<forall>e\<in>set (mshrTable m). \<not> joins m blk e"
  then have none: "first_index ?P (mshrTable m) = None" by (simp add: first_index_None P)
  show "\<exists>i<length (mshrTable m). \<not> e_valid (mshrTable m ! i) \<and> send2Mshr blk req m = (True, upd_entry i (with_miss blk req (mshrTable m ! i)) m)"
    if free: "seekMshrFreeEntry m"
  proof -
    obtain i where i: "first_index (\<lambda>e. \<not> e_valid e) (mshrTable m) = Some i"
      using free first_index_None [of "\<lambda>e. \<not> e_valid e" "mshrTable m"] by (auto simp: seekMshrFreeEntry_def list_ex_iff)
    note sat = first_index_sat [OF i] and less = first_index_less [OF i]
    have "with_miss blk req (mshrTable m ! i) = (mshrTable m ! i)\<lparr>e_valid := True, e_outstanding := True, e_blockAddr := blk,
        e_mshrQueue := e_mshrQueue (mshrTable m ! i) @ [req]\<rparr>"
      using sat by (intro mshrEntry.equality) (simp_all add: with_miss_def)
    with none i sat less show ?thesis by (intro exI [of _ i]) (simp add: send2Mshr_def Let_def)
  qed
  show "send2Mshr blk req m = (False, m)" if "\<not> seekMshrFreeEntry m"
  proof -
    have "first_index (\<lambda>e. \<not> e_valid e) (mshrTable m) = None" using that by (simp add: seekMshrFreeEntry_def list_ex_iff first_index_None)
    with none show ?thesis by (simp add: send2Mshr_def)
  qed
qed

lemma send2Mshr_cases:
  obtains (append) i where "i < length (mshrTable m)" "e_valid (mshrTable m ! i)"
      "e_blockAddr (mshrTable m ! i) = blk" "length (e_mshrQueue (mshrTable m ! i)) < entrySize m"
      "send2Mshr blk req m = (True, upd_entry i ((mshrTable m ! i)
          \<lparr>e_mshrQueue := e_mshrQueue (mshrTable m ! i) @ [req]\<rparr>) m)"
  | (alloc) i where "i < length (mshrTable m)" "\<not> e_valid (mshrTable m ! i)"
      "send2Mshr blk req m = (True, upd_entry i ((mshrTable m ! i)
          \<lparr>e_valid := True, e_outstanding := True, e_blockAddr := blk,
           e_mshrQueue := e_mshrQueue (mshrTable m ! i) @ [req]\<rparr>) m)"
  | (full) "\<forall>e\<in>set (mshrTable m). e_valid e" "send2Mshr blk req m = (False, m)"
proof (cases "first_index (\<lambda>e. e_valid e \<and> e_blockAddr e = blk
    \<and> length (e_mshrQueue e) < entrySize m) (mshrTable m)")
  case (Some i)
  show thesis
    by (rule append [of i])
      (use Some first_index_sat [OF Some] first_index_less [OF Some] in \<open>auto simp: send2Mshr_def Let_def\<close>)
next
  case none: None
  show thesis
  proof (cases "first_index (\<lambda>e. \<not> e_valid e) (mshrTable m)")
    case (Some i)
    show thesis
      by (rule alloc [of i])
        (use none Some first_index_sat [OF Some] first_index_less [OF Some]
          in \<open>auto simp: send2Mshr_def Let_def\<close>)
  next
    case None
    show thesis
      by (rule full) (use none None in \<open>auto simp: send2Mshr_def first_index_None [symmetric]\<close>,
          use None in \<open>simp add: first_index_None\<close>)
  qed
qed

lemma send2Mshr_success:
  assumes "mshr_inv m" "seekMshrFreeEntry m"
  shows "fst (send2Mshr blk req m)"
  by (rule send2Mshr_cases [of m blk req])
    (use assms in \<open>auto simp: seekMshrFreeEntry_def list_ex_iff\<close>)

lemma send2Mshr_inv [inv_intros]:
  assumes "mshr_inv m"
  shows "mshr_inv (snd (send2Mshr blk req m))"
proof (cases rule: send2Mshr_cases [of m blk req])
  case (append i)
  with mshr_inv_nth [OF assms, of i] show ?thesis
    by (auto intro!: mshr_inv_upd [OF assms] simp: entry_ok_def)
next
  case (alloc i)
  with mshr_inv_nth [OF assms, of i] show ?thesis
    by (auto intro!: mshr_inv_upd [OF assms] simp: entry_ok_def)
next
  case full
  with assms show ?thesis by simp
qed

lemma send2Mshr_contents:
  "mshr_contents (snd (send2Mshr blk req m)) =
     (if fst (send2Mshr blk req m) then add_mset req (mshr_contents m) else mshr_contents m)"
proof (cases rule: send2Mshr_cases [of m blk req])
  case (append i)
  with mshr_contents_upd [OF append(1), of "(mshrTable m ! i)
      \<lparr>e_mshrQueue := e_mshrQueue (mshrTable m ! i) @ [req]\<rparr>"]
  show ?thesis by simp
next
  case (alloc i)
  with mshr_contents_upd [OF alloc(1), of "(mshrTable m ! i)
      \<lparr>e_valid := True, e_outstanding := True, e_blockAddr := blk,
       e_mshrQueue := e_mshrQueue (mshrTable m ! i) @ [req]\<rparr>"]
  show ?thesis by simp
next
  case full
  then show ?thesis by simp
qed

lemma send2Mshr_shape [keeps]:
  "length (mshrTable (snd (send2Mshr blk req m))) = length (mshrTable m)"
  "entrySize (snd (send2Mshr blk req m)) = entrySize m"
  by (cases rule: send2Mshr_cases [of m blk req]; simp)+

section \<open>Marking a block ready\<close>

lemma setReady_inv [inv_intros]: "mshr_inv m \<Longrightarrow> mshr_inv (setMshrEntryReady blk m)"
  by (auto simp: mshr_inv_def setMshrEntryReady_def list_all_iff entry_ok_def)

lemma setReady_contents [keeps]: "mshr_contents (setMshrEntryReady blk m) = mshr_contents m"
  by (auto simp: mshr_contents_def setMshrEntryReady_def intro!: arg_cong [where f = mset]
      arg_cong [where f = concat])

lemma setReady_shape [keeps]:
  "length (mshrTable (setMshrEntryReady blk m)) = length (mshrTable m)"
  "entrySize (setMshrEntryReady blk m) = entrySize m"
  by (simp_all add: setMshrEntryReady_def)

section \<open>Answering ready entries\<close>

text \<open>The loop that collects the fronts of some entries, in closed form.\<close>

definition fronts :: "mshr \<Rightarrow> nat list \<Rightarrow> (nat \<times> cacheReq) list" where
  "fronts m ids = map (\<lambda>i. (i, hd (e_mshrQueue (mshrTable m ! i)))) ids"

lemma fronts_fst [simp]: "map fst (fronts m ids) = ids"
  by (simp add: fronts_def comp_def)

lemma collect_fronts:
  assumes "\<And>i. i \<in> set ks \<Longrightarrow> P (f i) \<Longrightarrow> e_mshrQueue (mshrTable m ! f i) \<noteq> []"
  shows "rfold (\<lambda>i acc. if P (f i)
            then rbind (rfront (e_mshrQueue (mshrTable m ! f i))) (\<lambda>r. Inr (acc @ [(f i, r)]))
            else Inr acc) ks acc = Inr (acc @ fronts m (filter P (map f ks)))"
  using assms
proof (induction ks arbitrary: acc)
  case Nil
  then show ?case by (simp add: fronts_def)
next
  case (Cons i ks)
  show ?case
  proof (cases "P (f i)")
    case True
    with Cons.prems obtain r q where "e_mshrQueue (mshrTable m ! f i) = r # q"
      by (meson list.set_intros(1) neq_Nil_conv)
    with True Cons show ?thesis by (simp add: fronts_def)
  next
    case False
    with Cons show ?thesis by simp
  qed
qed

definition ready_ids :: "mshr \<Rightarrow> nat list" where
  "ready_ids m =
     filter (\<lambda>i. e_valid (mshrTable m ! i) \<and> e_ready (mshrTable m ! i))
       (map (\<lambda>i. (mshrRdPtr m + i) mod length (mshrTable m)) [0..<length (mshrTable m)])"

definition outstanding_ids :: "mshr \<Rightarrow> nat list" where
  "outstanding_ids m =
     filter (\<lambda>i. e_valid (mshrTable m ! i) \<and> e_outstanding (mshrTable m ! i))
       [0..<length (mshrTable m)]"

definition advance_rd :: "mshr \<Rightarrow> mshr" where
  "advance_rd m = m\<lparr>mshrRdPtr := (mshrRdPtr m + 1) mod length (mshrTable m)\<rparr>"

lemma advance_rd_simps [simp]:
  "mshrTable (advance_rd m) = mshrTable m" "entrySize (advance_rd m) = entrySize m"
  "mshr_inv (advance_rd m) = mshr_inv m" "mshr_contents (advance_rd m) = mshr_contents m"
  by (simp_all add: advance_rd_def mshr_inv_def mshr_contents_def)

lemma peek_eq:
  assumes "mshr_inv m"
  shows "peekMshrReadyEntry m = Inr (fronts m (ready_ids m), advance_rd m)"
proof -
  let ?n = "length (mshrTable m)"
  have n: "0 < ?n" using assms by (simp add: mshr_inv_def)
  have ne: "e_mshrQueue (mshrTable m ! ((mshrRdPtr m + i) mod ?n)) \<noteq> []"
    if "e_valid (mshrTable m ! ((mshrRdPtr m + i) mod ?n))" for i
    using mshr_inv_nth [OF assms, of "(mshrRdPtr m + i) mod ?n"] that n by (simp add: entry_ok_def)
  note c = collect_fronts [where f = "\<lambda>i. (mshrRdPtr m + i) mod ?n" and m = m and acc = "[]"
      and P = "\<lambda>i. e_valid (mshrTable m ! i) \<and> e_ready (mshrTable m ! i)" and ks = "[0..<?n]"]
  show ?thesis
    unfolding peekMshrReadyEntry_def Let_def
    using n by (subst c) (auto simp: ne ready_ids_def advance_rd_def)
qed

lemma getOutstandingReq_eq:
  assumes "mshr_inv m"
  shows "getOutstandingReq m = Inr (fronts m (outstanding_ids m))"
proof -
  have ne: "e_mshrQueue (mshrTable m ! i) \<noteq> []"
    if "i < length (mshrTable m)" "e_valid (mshrTable m ! i)" for i
    using mshr_inv_nth [OF assms, of i] that by (simp add: entry_ok_def)
  show ?thesis
    unfolding getOutstandingReq_def Let_def outstanding_ids_def
    by (subst collect_fronts [where f = "\<lambda>i. i"]) (auto simp: ne)
qed

lemma rotation_set:
  assumes "0 < (n::nat)"
  shows "set (map (\<lambda>i. (p + i) mod n) [0..<n]) = {..<n}" "distinct (map (\<lambda>i. (p + i) mod n) [0..<n])"
proof -
  have inj: "inj_on (\<lambda>i. (p + i) mod n) {..<n}"
  proof (rule inj_onI)
    have eq: "i = j" if "i \<le> j" "j < n" "(p + i) mod n = (p + j) mod n" for i j
    proof -
      have "n dvd (p + j) - (p + i)"
        using that mod_eq_dvd_iff_nat [of "p + i" "p + j" n] by simp
      with that show ?thesis by (auto dest: dvd_imp_le)
    qed
    fix i j assume "i \<in> {..<n}" "j \<in> {..<n}" "(p + i) mod n = (p + j) mod n"
    then show "i = j" using eq [of i j] eq [of j i] by (cases "i \<le> j") auto
  qed
  have "(\<lambda>i. (p + i) mod n) ` {..<n} \<subseteq> {..<n}" using assms by auto
  with inj have "(\<lambda>i. (p + i) mod n) ` {..<n} = {..<n}"
    by (simp add: endo_inj_surj)
  then show "set (map (\<lambda>i. (p + i) mod n) [0..<n]) = {..<n}"
    by (simp add: atLeast0LessThan)
  show "distinct (map (\<lambda>i. (p + i) mod n) [0..<n])"
    using inj by (simp add: distinct_map atLeast0LessThan)
qed

lemma ready_ids_set:
  assumes "mshr_inv m"
  shows "set (ready_ids m) = {i. i < length (mshrTable m) \<and> e_valid (mshrTable m ! i)
             \<and> e_ready (mshrTable m ! i)}" "distinct (ready_ids m)"
proof -
  have n: "0 < length (mshrTable m)" using assms by (simp add: mshr_inv_def)
  note r = rotation_set [OF n, of "mshrRdPtr m"]
  show "set (ready_ids m) = {i. i < length (mshrTable m) \<and> e_valid (mshrTable m ! i)
             \<and> e_ready (mshrTable m ! i)}"
    unfolding ready_ids_def set_filter r(1) by auto
  show "distinct (ready_ids m)"
    unfolding ready_ids_def by (rule distinct_filter [OF r(2)])
qed

lemma outstanding_ids_set:
  "set (outstanding_ids m) = {i. i < length (mshrTable m) \<and> e_valid (mshrTable m ! i)
             \<and> e_outstanding (mshrTable m ! i)}" "distinct (outstanding_ids m)"
  by (auto simp: outstanding_ids_def)

section \<open>Popping answered requests\<close>

lemma clearMshrEntry_ok:
  assumes "mshr_inv m" "distinct ids" "\<forall>i\<in>set ids. i < length (mshrTable m) \<and> e_valid (mshrTable m ! i)"
  shows "\<exists>m'. clearMshrEntry ids m = Inr m' \<and> mshr_inv m'
     \<and> mshr_contents m' + image_mset snd (mset (fronts m ids)) = mshr_contents m
     \<and> length (mshrTable m') = length (mshrTable m) \<and> entrySize m' = entrySize m"
  using assms
proof (induction ids arbitrary: m)
  case Nil
  then show ?case by (simp add: clearMshrEntry_def fronts_def)
next
  case (Cons i ids)
  let ?e = "mshrTable m ! i"
  have i: "i < length (mshrTable m)" "e_valid ?e" using Cons.prems by auto
  have ok: "entry_ok (entrySize m) ?e" by (rule mshr_inv_nth [OF Cons.prems(1) i(1)])
  with i obtain r q where q: "e_mshrQueue ?e = r # q"
    by (auto simp: entry_ok_def neq_Nil_conv)
  define e' where "e' = (if q = [] then ?e\<lparr>e_mshrQueue := q, e_valid := False, e_ready := False\<rparr>
      else ?e\<lparr>e_mshrQueue := q\<rparr>)"
  let ?m = "upd_entry i e' m"
  have step: "clearMshrEntry (i # ids) m = clearMshrEntry ids ?m"
    by (simp add: clearMshrEntry_def i q e'_def Let_def)
  have inv: "mshr_inv ?m"
    using ok q by (intro mshr_inv_upd [OF Cons.prems(1)]) (auto simp: entry_ok_def e'_def)
  have same: "(mshrTable m)[i := e'] ! j = mshrTable m ! j" if "j \<in> set ids" for j
    using that Cons.prems(2) by (cases "i = j") auto
  have fr: "fronts ?m ids = fronts m ids"
    by (simp add: fronts_def same)
  have "mset (e_mshrQueue e') = mset q" by (simp add: e'_def)
  then have cont: "add_mset r (mshr_contents ?m) = mshr_contents m"
    using mshr_contents_upd [OF i(1), of e'] q by simp
  have "\<exists>m'. clearMshrEntry ids ?m = Inr m' \<and> mshr_inv m'
     \<and> mshr_contents m' + image_mset snd (mset (fronts ?m ids)) = mshr_contents ?m
     \<and> length (mshrTable m') = length (mshrTable ?m) \<and> entrySize m' = entrySize ?m"
    using Cons.prems same by (intro Cons.IH inv) auto
  with cont show ?case
    unfolding step fr by (auto simp: fronts_def q)
qed

lemma clearOutstandingFlag_ok:
  assumes "mshr_inv m" "distinct ids"
    "\<forall>i\<in>set ids. i < length (mshrTable m) \<and> e_outstanding (mshrTable m ! i)"
  shows "\<exists>m'. clearOutstandingFlag ids m = Inr m' \<and> mshr_inv m' \<and> mshr_contents m' = mshr_contents m
     \<and> length (mshrTable m') = length (mshrTable m) \<and> entrySize m' = entrySize m"
  using assms
proof (induction ids arbitrary: m)
  case Nil
  then show ?case by (simp add: clearOutstandingFlag_def)
next
  case (Cons i ids)
  let ?e = "mshrTable m ! i" and ?m = "upd_entry i ((mshrTable m ! i)\<lparr>e_outstanding := False\<rparr>) m"
  have i: "i < length (mshrTable m)" "e_outstanding ?e" using Cons.prems by auto
  have step: "clearOutstandingFlag (i # ids) m = clearOutstandingFlag ids ?m"
    by (simp add: clearOutstandingFlag_def i Let_def)
  have inv: "mshr_inv ?m"
    using mshr_inv_nth [OF Cons.prems(1) i(1)]
    by (intro mshr_inv_upd [OF Cons.prems(1)]) (auto simp: entry_ok_def)
  have cont: "mshr_contents ?m = mshr_contents m"
    using mshr_contents_upd [OF i(1), of "?e\<lparr>e_outstanding := False\<rparr>"] by simp
  have "\<exists>m'. clearOutstandingFlag ids ?m = Inr m' \<and> mshr_inv m' \<and> mshr_contents m' = mshr_contents ?m
     \<and> length (mshrTable m') = length (mshrTable ?m) \<and> entrySize m' = entrySize ?m"
    using Cons.prems by (intro Cons.IH inv) (auto simp: nth_list_update)
  with cont show ?case unfolding step by auto
qed

section \<open>The interface to the cache\<close>

text \<open>
  What the cache relies on: a request sent while an entry is free is accepted and kept, and a round
  that peeks at the ready entries and clears some of those it was shown removes exactly the requests
  it was shown for them.
\<close>

locale miss_table =
  fixes inv :: "'t \<Rightarrow> bool"
    and contents :: "'t \<Rightarrow> 'r multiset"
    and has_free :: "'t \<Rightarrow> bool"
    and send :: "'b \<Rightarrow> 'r \<Rightarrow> 't \<Rightarrow> bool \<times> 't"
    and wake :: "'b \<Rightarrow> 't \<Rightarrow> 't"
    and peek :: "'t \<Rightarrow> ((nat \<times> 'r) list \<times> 't) res"
    and clear :: "nat list \<Rightarrow> 't \<Rightarrow> 't res"
    and shape :: "'t \<Rightarrow> nat \<times> nat"
  assumes send_free: "inv t \<Longrightarrow> has_free t \<Longrightarrow> fst (send b r t)"
    and send_inv: "inv t \<Longrightarrow> inv (snd (send b r t))"
    and send_contents: "contents (snd (send b r t)) =
          (if fst (send b r t) then add_mset r (contents t) else contents t)"
    and send_shape: "shape (snd (send b r t)) = shape t"
    and wake_inv: "inv t \<Longrightarrow> inv (wake b t)"
    and wake_contents: "contents (wake b t) = contents t"
    and wake_shape: "shape (wake b t) = shape t"
    and peek_ok: "inv t \<Longrightarrow> \<exists>v t'. peek t = Inr (v, t') \<and> inv t' \<and> contents t' = contents t
          \<and> shape t' = shape t \<and> distinct (map fst v)"
    and clear_ok: "inv t \<Longrightarrow> peek t = Inr (v, t') \<Longrightarrow> distinct ids \<Longrightarrow> set ids \<subseteq> fst ` set v \<Longrightarrow>
          \<exists>t''. clear ids t' = Inr t'' \<and> inv t'' \<and> shape t'' = shape t'
            \<and> contents t'' + image_mset (\<lambda>i. the (map_of v i)) (mset ids) = contents t'"
begin

lemma miss_is_kept:
  assumes "inv t" "has_free t" "send b r t = (ok, t')"
  shows "ok \<and> inv t' \<and> contents t' = add_mset r (contents t) \<and> shape t' = shape t"
  using send_free [OF assms(1,2), of b r] send_inv [OF assms(1), of b r]
    send_contents [of b r t] send_shape [of b r t] assms(3) by simp

text \<open>A round that shows the ready entries, offers each to a consumer and clears the accepted ones.\<close>

lemma answer_round:
  assumes "inv t"
  obtains v t' where "peek t = Inr (v, t')" "distinct (map fst v)" "inv t'" "shape t' = shape t"
    "contents t' = contents t"
    "\<And>acc. \<exists>t''. clear (map fst (filter acc v)) t' = Inr t'' \<and> inv t'' \<and> shape t'' = shape t
        \<and> contents t'' + mset (map snd (filter acc v)) = contents t"
proof -
  from peek_ok [OF assms] obtain v t' where v: "peek t = Inr (v, t')" "inv t'"
    "contents t' = contents t" "shape t' = shape t" "distinct (map fst v)" by blast
  have clear: "\<exists>t''. clear (map fst (filter acc v)) t' = Inr t'' \<and> inv t'' \<and> shape t'' = shape t
        \<and> contents t'' + mset (map snd (filter acc v)) = contents t" for acc
  proof -
    let ?w = "filter acc v"
    have d: "distinct (map fst ?w)" using v(5) by (simp add: distinct_map_filter)
    have "map (\<lambda>i. the (map_of v i)) (map fst ?w) = map snd ?w"
      using v(5) by (auto intro!: map_cong)
    then have m: "image_mset (\<lambda>i. the (map_of v i)) (mset (map fst ?w)) = mset (map snd ?w)"
      by (metis mset_map)
    have "set (map fst ?w) \<subseteq> fst ` set v" by auto
    from clear_ok [OF assms v(1) d this] show ?thesis
      unfolding m v(3,4) .
  qed
  show thesis by (rule that [OF v(1,5,2,4,3) clear])
qed

end

abbreviation mshr_shape :: "mshr \<Rightarrow> nat \<times> nat" where
  "mshr_shape m \<equiv> (length (mshrTable m), entrySize m)"

interpretation mt: miss_table mshr_inv mshr_contents seekMshrFreeEntry send2Mshr setMshrEntryReady
  peekMshrReadyEntry clearMshrEntry mshr_shape
proof
  fix m v m' ids
  assume m: "mshr_inv m" and p: "peekMshrReadyEntry m = Inr (v, m')"
    and d: "distinct ids" and s: "set ids \<subseteq> fst ` set v"
  from p have v: "v = fronts m (ready_ids m)" "m' = advance_rd m" by (simp_all add: peek_eq [OF m])
  have r: "set ids \<subseteq> set (ready_ids m)"
    using s unfolding v(1) by (metis fronts_fst set_map)
  then have "\<forall>i\<in>set ids. i < length (mshrTable m') \<and> e_valid (mshrTable m' ! i)"
    unfolding v using ready_ids_set(1) [OF m] by auto
  from clearMshrEntry_ok [OF _ d this] m
  obtain m'' where "clearMshrEntry ids m' = Inr m''" "mshr_inv m''" "mshr_shape m'' = mshr_shape m'"
    "mshr_contents m'' + image_mset snd (mset (fronts m' ids)) = mshr_contents m'"
    unfolding v by auto
  moreover have "image_mset snd (mset (fronts m' ids)) = image_mset (\<lambda>i. the (map_of v i)) (mset ids)"
  proof -
    have "the (map_of v i) = hd (e_mshrQueue (mshrTable m' ! i))" if "i \<in> set ids" for i
      using that r unfolding v fronts_def by (simp add: map_of_map_restrict subset_iff restrict_map_def)
    then show ?thesis
      unfolding fronts_def by (auto simp: image_mset.compositionality intro!: image_mset_cong)
  qed
  ultimately show "\<exists>m''. clearMshrEntry ids m' = Inr m'' \<and> mshr_inv m'' \<and> mshr_shape m'' = mshr_shape m'
      \<and> mshr_contents m'' + image_mset (\<lambda>i. the (map_of v i)) (mset ids) = mshr_contents m'"
    by metis
qed (auto simp: send2Mshr_success send2Mshr_inv send2Mshr_contents send2Mshr_shape setReady_inv
    setReady_contents setReady_shape peek_eq ready_ids_set)

section \<open>Properties\<close>

text \<open>C9: a miss is refused exactly when no entry of its block has room and no entry is free, and then the table is
  as it was. Otherwise one entry takes it at the end of its queue, and the others are unchanged: an entry of its block with room
  where there is one, else a free entry, which then is for this block and outstanding. The table stays well formed
  and the waiting requests are those from before and the new one (the cache's report ``Send to MSHR unsuccessfully'' is
  unreachable behind its check for a free entry).\<close>

theorem mshr_send_correct:
  assumes "mshr_inv m" "send2Mshr blk req m = (ok, m')"
  shows "mshr_inv m' \<and> (ok \<longleftrightarrow> (\<exists>e\<in>set (mshrTable m). joins m blk e) \<or> seekMshrFreeEntry m)
    \<and> mshr_contents m' = (if ok then add_mset req (mshr_contents m) else mshr_contents m)
    \<and> (\<not> ok \<longrightarrow> m' = m)
    \<and> (ok \<longrightarrow> (\<exists>i<length (mshrTable m). m' = upd_entry i (with_miss blk req (mshrTable m ! i)) m
          \<and> (if \<exists>e\<in>set (mshrTable m). joins m blk e then joins m blk (mshrTable m ! i) else \<not> e_valid (mshrTable m ! i))))"
proof -
  have "mshr_inv m'" "mshr_contents m' = (if ok then add_mset req (mshr_contents m) else mshr_contents m)"
    using mt.send_inv [of m blk req] mt.send_contents [of blk req m] assms by simp_all
  moreover consider (joins) "\<exists>e\<in>set (mshrTable m). joins m blk e"
    | (free) "\<forall>e\<in>set (mshrTable m). \<not> joins m blk e" "seekMshrFreeEntry m"
    | (full) "\<forall>e\<in>set (mshrTable m). \<not> joins m blk e" "\<not> seekMshrFreeEntry m" by blast
  then have "(ok \<longleftrightarrow> (\<exists>e\<in>set (mshrTable m). joins m blk e) \<or> seekMshrFreeEntry m) \<and> (\<not> ok \<longrightarrow> m' = m)
    \<and> (ok \<longrightarrow> (\<exists>i<length (mshrTable m). m' = upd_entry i (with_miss blk req (mshrTable m ! i)) m
          \<and> (if \<exists>e\<in>set (mshrTable m). joins m blk e then joins m blk (mshrTable m ! i) else \<not> e_valid (mshrTable m ! i))))"
  proof cases
    case joins
    with send2Mshr_place(1) [OF joins, of req] assms(2) show ?thesis by auto
  next
    case free
    with send2Mshr_place(2) [OF free, of req] assms(2) show ?thesis by auto
  next
    case full
    with send2Mshr_place(3) [OF full, of req] assms(2) show ?thesis by auto
  qed
  ultimately show ?thesis by blast
qed

text \<open>The second miss of a block joins the entry of the first one.\<close>

theorem mshr_send_correct_witness:
  "\<exists>m. send2Mshr 5 (cacheReq0\<lparr>c_cnt := 1\<rparr>) (snd (send2Mshr 5 cacheReq0 (mshrInit 2 4))) = (True, m)
     \<and> mshr_contents m = {#cacheReq0\<lparr>c_cnt := 1\<rparr>, cacheReq0#} \<and> e_mshrQueue (mshrTable m ! 0) = [cacheReq0, cacheReq0\<lparr>c_cnt := 1\<rparr>]"
proof -
  let ?m = "snd (send2Mshr 5 cacheReq0 (mshrInit 2 4))" and ?r = "cacheReq0\<lparr>c_cnt := 1\<rparr>"
  have i: "mshr_inv ?m" by (intro send2Mshr_inv mshr_inv_init) simp
  have t: "mshrTable ?m = [mshrEntry0\<lparr>e_valid := True, e_outstanding := True, e_blockAddr := 5,
      e_mshrQueue := [cacheReq0]\<rparr>, mshrEntry0]" "entrySize ?m = 4"
    by (simp_all add: send2Mshr_def mshrInit_def mshrEntry0_def numeral_eq_Suc)
  have c: "mshr_contents ?m = {#cacheReq0#}" by (simp add: mshr_contents_def t mshrEntry0_def)
  have j: "joins ?m 5 (mshrTable ?m ! k) \<longleftrightarrow> k = 0" if "k < 2" for k
    using that by (cases k) (simp_all add: joins_def t mshrEntry0_def)
  have ex: "\<exists>e\<in>set (mshrTable ?m). joins ?m 5 e" by (simp add: joins_def t mshrEntry0_def)
  obtain ok m where s: "send2Mshr 5 ?r ?m = (ok, m)" by fastforce
  note R = mshr_send_correct [OF i s, unfolded c]
  have ok: "ok" using R ex by blast
  then obtain k where "k < length (mshrTable ?m)" "joins ?m 5 (mshrTable ?m ! k)" and m: "m = upd_entry k (with_miss 5 ?r (mshrTable ?m ! k)) ?m"
    using R ex by (auto simp only: if_True)
  with j [of k] have k: "k = 0" by (simp add: t)
  have "e_mshrQueue (mshrTable m ! 0) = [cacheReq0, ?r]" unfolding m k by (simp add: t with_miss_def mshrEntry0_def)
  with s ok R show ?thesis by auto
qed

text \<open>C10: one answering round of the table. \<open>peekMshrReadyEntry\<close> offers every ready entry exactly once
  with its oldest request and touches no empty queue; clearing any selection of the offered entries
  succeeds, removes exactly the requests that were offered for them and keeps the table well
  formed.\<close>

theorem mshr_answer_round:
  assumes "mshr_inv m"
  shows "\<exists>v m'. peekMshrReadyEntry m = Inr (v, m') \<and> distinct (map fst v)
    \<and> set v = {(i, hd (e_mshrQueue (mshrTable m ! i))) | i. i < length (mshrTable m)
                 \<and> e_valid (mshrTable m ! i) \<and> e_ready (mshrTable m ! i)}
    \<and> (\<forall>acc. \<exists>m''. clearMshrEntry (map fst (filter acc v)) m' = Inr m'' \<and> mshr_inv m''
         \<and> mshr_contents m'' + mset (map snd (filter acc v)) = mshr_contents m)"
proof -
  from mt.answer_round [OF assms] obtain v m' where v: "peekMshrReadyEntry m = Inr (v, m')"
    "distinct (map fst v)"
    "\<And>acc. \<exists>m''. clearMshrEntry (map fst (filter acc v)) m' = Inr m'' \<and> mshr_inv m''
       \<and> mshr_shape m'' = mshr_shape m
       \<and> mshr_contents m'' + mset (map snd (filter acc v)) = mshr_contents m"
    by metis
  have "v = fronts m (ready_ids m)" using v(1) by (simp add: peek_eq [OF assms])
  then have "set v = {(i, hd (e_mshrQueue (mshrTable m ! i))) | i. i < length (mshrTable m)
                 \<and> e_valid (mshrTable m ! i) \<and> e_ready (mshrTable m ! i)}"
    unfolding fronts_def using ready_ids_set(1) [OF assms] by auto
  with v show ?thesis by blast
qed

theorem mshr_answer_round_witness:
  "mshr_inv (setMshrEntryReady 5 (snd (send2Mshr 5 cacheReq0 (mshrInit 2 4))))
   \<and> (\<exists>v m'. peekMshrReadyEntry (setMshrEntryReady 5 (snd (send2Mshr 5 cacheReq0 (mshrInit 2 4)))) = Inr (v, m')
        \<and> set v = {(0, cacheReq0)})"
proof -
  let ?m = "setMshrEntryReady 5 (snd (send2Mshr 5 cacheReq0 (mshrInit 2 4)))"
  have i: "mshr_inv ?m" by (intro setReady_inv send2Mshr_inv mshr_inv_init) simp
  have t: "mshrTable ?m = [mshrEntry0\<lparr>e_valid := True, e_outstanding := True, e_blockAddr := 5,
      e_mshrQueue := [cacheReq0], e_ready := True\<rparr>, mshrEntry0]"
    by (simp add: setMshrEntryReady_def send2Mshr_def mshrInit_def mshrEntry0_def numeral_eq_Suc)
  from mshr_answer_round [OF i] obtain v m' where v: "peekMshrReadyEntry ?m = Inr (v, m')"
    "set v = {(i, hd (e_mshrQueue (mshrTable ?m ! i))) | i. i < length (mshrTable ?m)
                 \<and> e_valid (mshrTable ?m ! i) \<and> e_ready (mshrTable ?m ! i)}" by blast
  have "set v = {(0, cacheReq0)}"
    unfolding v(2) t by (auto simp: mshrEntry0_def less_Suc_eq)
  with i v(1) show ?thesis by blast
qed

text \<open>The requests sent towards the next memory level are exactly the oldest requests of the
  valid outstanding entries, each once, and clearing the flag of those that were sent never meets
  an entry that is not outstanding (the report of \<open>clearOutstandingFlag\<close> is unreachable).\<close>

theorem mshr_outstanding_round:
  assumes "mshr_inv m"
  shows "\<exists>v. getOutstandingReq m = Inr v \<and> distinct (map fst v)
    \<and> set v = {(i, hd (e_mshrQueue (mshrTable m ! i))) | i. i < length (mshrTable m)
                 \<and> e_valid (mshrTable m ! i) \<and> e_outstanding (mshrTable m ! i)}
    \<and> (\<forall>sent. \<exists>m'. clearOutstandingFlag (map fst (filter sent v)) m = Inr m' \<and> mshr_inv m'
         \<and> mshr_contents m' = mshr_contents m)"
proof -
  let ?v = "fronts m (outstanding_ids m)"
  have s: "set ?v = {(i, hd (e_mshrQueue (mshrTable m ! i))) | i. i < length (mshrTable m)
                 \<and> e_valid (mshrTable m ! i) \<and> e_outstanding (mshrTable m ! i)}"
    unfolding fronts_def using outstanding_ids_set(1) [of m] by auto
  have c: "\<exists>m'. clearOutstandingFlag (map fst (filter sent ?v)) m = Inr m' \<and> mshr_inv m'
         \<and> mshr_contents m' = mshr_contents m" for sent
  proof -
    have d: "distinct (map fst (filter sent ?v))"
      using outstanding_ids_set(2) [of m] by (intro distinct_map_filter) simp
    have "\<forall>i\<in>set (map fst (filter sent ?v)). i < length (mshrTable m) \<and> e_outstanding (mshrTable m ! i)"
      using s by auto
    from clearOutstandingFlag_ok [OF assms d this] show ?thesis by blast
  qed
  show ?thesis
    using getOutstandingReq_eq [OF assms] s c outstanding_ids_set(2) [of m] by auto
qed

theorem mshr_outstanding_round_witness:
  "mshr_inv (snd (send2Mshr 5 cacheReq0 (mshrInit 2 4)))
   \<and> (\<exists>v. getOutstandingReq (snd (send2Mshr 5 cacheReq0 (mshrInit 2 4))) = Inr v \<and> (0, cacheReq0) \<in> set v)"
proof -
  let ?m = "snd (send2Mshr 5 cacheReq0 (mshrInit 2 4))"
  have i: "mshr_inv ?m" by (intro send2Mshr_inv mshr_inv_init) simp
  have t: "mshrTable ?m = [mshrEntry0\<lparr>e_valid := True, e_outstanding := True, e_blockAddr := 5,
      e_mshrQueue := [cacheReq0]\<rparr>, mshrEntry0]"
    by (simp add: send2Mshr_def mshrInit_def mshrEntry0_def numeral_eq_Suc)
  from mshr_outstanding_round [OF i] obtain v where v: "getOutstandingReq ?m = Inr v"
    "set v = {(i, hd (e_mshrQueue (mshrTable ?m ! i))) | i. i < length (mshrTable ?m)
                 \<and> e_valid (mshrTable ?m ! i) \<and> e_outstanding (mshrTable ?m ! i)}" by blast
  have "(0, cacheReq0) \<in> set v"
    unfolding v(2) t by (auto simp: mshrEntry0_def)
  with i v(1) show ?thesis by blast
qed

end
