(* ===== verification/CacheState.thy ===== *)
theory CacheState
  imports Mshr
begin

text \<open>
  State, construction and address arithmetic of the cache (\<open>module/mem/Cache.h\<close>, the first part of
  \<open>module/mem/Cache.cpp\<close>). The vectors that \<open>Cache::init\<close> fills once and nothing changes afterwards
  form the record \<open>geometry\<close>; \<open>cache\<close> is what the operations change. Level 0 is L1.
\<close>

unbundle bit_operations_syntax

section \<open>State (Cache.h)\<close>

record cacheLine =
  l_tag :: u64
  l_count :: u64
  l_flag :: "8 word"

definition CACHE_FLAG_VALID :: "8 word" where "CACHE_FLAG_VALID = 1"
definition CACHE_FLAG_DIRTY :: "8 word" where "CACHE_FLAG_DIRTY = 2"
definition CACHE_FLAG_LOCK :: "8 word" where "CACHE_FLAG_LOCK = 4"
definition CACHE_FLAG_MASK :: "8 word" where "CACHE_FLAG_MASK = 255"

definition flagged :: "8 word \<Rightarrow> cacheLine \<Rightarrow> bool" where
  "flagged f l \<longleftrightarrow> l_flag l AND f \<noteq> 0"

definition cacheLine0 :: cacheLine where
  "cacheLine0 = \<lparr>l_tag = 0, l_count = 0, l_flag = 0\<rparr>"

record geometry =
  cache_line_size :: "nat list"
  cache_line_num :: "nat list"
  cache_line_shifts :: "nat list"
  cache_mapping_ways :: "nat list"
  cache_set_size :: "nat list"
  cache_set_shifts :: "nat list"
  cache_bank_num :: "nat list"
  cache_access_latency :: "nat list"
  reqQueueSizePerBank :: "nat list"
  ackQueueSizePerBank :: "nat list"
  swap_style :: "cache_swap_style list"
  write_strategy :: "cache_write_strategy list"
  write_allocate :: "cache_write_allocate list"

text \<open>\<open>rands\<close> are the values that the C library's \<open>rand()\<close> is going to return.\<close>

record cache =
  geo :: geometry
  caches :: "cacheLine list list"
  tick_count :: u64
  cache_w_memory_count :: nat
  cache_hit_count :: "nat list"
  cache_miss_count :: "nat list"
  cacheAccessCnt :: nat
  memAccessCnt :: nat
  mshrs :: "mshr list"
  reqQueue :: "(cacheReq \<times> nat) list list list"
  ackQueue :: "cacheReq list list list"
  reqBankConflict :: "bool list list"
  ackBankConflict :: "bool list list"
  reqQueue2Mem :: "memReq list"
  reqQueueBankPtr :: "nat list"
  ackQueueBankPtr :: "nat list"
  rands :: "nat list"

section \<open>Address arithmetic\<close>

definition getCacheTag :: "geometry \<Rightarrow> u64 \<Rightarrow> nat \<Rightarrow> u64" where
  "getCacheTag g addr level = drop_bit (cache_set_shifts g ! level + cache_line_shifts g ! level) addr"

definition getCacheSetIndex :: "geometry \<Rightarrow> u64 \<Rightarrow> nat \<Rightarrow> nat" where
  "getCacheSetIndex g addr level =
     unat (drop_bit (cache_line_shifts g ! level) addr) mod (cache_set_size g ! level)"

definition getCacheBank :: "geometry \<Rightarrow> u64 \<Rightarrow> nat \<Rightarrow> nat" where
  "getCacheBank g addr level =
     unat (drop_bit (cache_line_shifts g ! level) addr) mod (cache_bank_num g ! level)"

definition getCacheBlockOffset :: "geometry \<Rightarrow> u64 \<Rightarrow> nat \<Rightarrow> nat" where
  "getCacheBlockOffset g addr level = unat addr mod (cache_line_size g ! level)"

definition getCacheBlockId :: "geometry \<Rightarrow> u64 \<Rightarrow> nat \<Rightarrow> u64" where
  "getCacheBlockId g addr level = drop_bit (cache_line_shifts g ! level) addr"

section \<open>Construction (Cache::init, Cache::config\_check)\<close>

text \<open>
  The parameters of a level in the order of the vectors of \<open>Cache.h\<close>; \<open>a_level g\<close> is the part of
  \<open>init\<close> that copies them from \<open>Global\<close>, for one or two levels (any other number leaves the
  vectors empty).
\<close>

record level_params =
  a_cache_size :: nat
  a_cache_line_size :: nat
  a_mapping_ways :: nat
  a_access_latency :: nat
  a_reqQueueSizePerBank :: nat
  a_ackQueueSizePerBank :: nat
  a_bankNum :: nat
  a_mshrPara :: "nat \<times> nat"

definition level_L1 :: "config \<Rightarrow> level_params" where
  "level_L1 g = \<lparr>a_cache_size = cache_size_L1 g, a_cache_line_size = cache_line_size_L1 g,
     a_mapping_ways = cache_mapping_way_L1 g, a_access_latency = cache_access_latency_L1 g,
     a_reqQueueSizePerBank = cache_req_queue_size_per_bank_L1 g,
     a_ackQueueSizePerBank = cache_ack_queue_size_per_bank_L1 g, a_bankNum = cache_bank_num_L1 g,
     a_mshrPara = (cache_mshr_entry_num_L1 g, cache_mshr_size_per_entry_L1 g)\<rparr>"

definition level_L2 :: "config \<Rightarrow> level_params" where
  "level_L2 g = \<lparr>a_cache_size = cache_size_L2 g, a_cache_line_size = cache_line_size_L2 g,
     a_mapping_ways = cache_mapping_way_L2 g, a_access_latency = cache_access_latency_L2 g,
     a_reqQueueSizePerBank = cache_req_queue_size_per_bank_L2 g,
     a_ackQueueSizePerBank = cache_ack_queue_size_per_bank_L2 g, a_bankNum = cache_bank_num_L2 g,
     a_mshrPara = (cache_mshr_entry_num_L2 g, cache_mshr_size_per_entry_L2 g)\<rparr>"

definition a_levels :: "config \<Rightarrow> level_params list" where
  "a_levels g = (if cache_max_level g = 1 then [level_L1 g]
                 else if cache_max_level g = 2 then [level_L1 g, level_L2 g]
                 else [])"

text \<open>Each of the vectors is checked against the number of levels; they have one common length here,
  so the first of the checks decides.\<close>

definition config_check :: "config \<Rightarrow> unit res" where
  "config_check g =
     (if cache_max_level g < 1 then Inl (Throw ''Parameter Global::cache_max_level can not be less than 1'')
      else if length (a_levels g) \<noteq> cache_max_level g
      then Inl (Throw ''Parameter Cache_size demension not consistent with Global::cache_max_level'')
      else Inr ())"

definition init_geometry :: "level_params list \<Rightarrow> geometry" where
  "init_geometry ls =
     (let num = map (\<lambda>p. a_cache_size p div a_cache_line_size p) ls;
          sets = map (\<lambda>p. a_cache_size p div a_cache_line_size p div a_mapping_ways p) ls
      in \<lparr>cache_line_size = map a_cache_line_size ls,
          cache_line_num = num,
          cache_line_shifts = map (\<lambda>p. ilog2 (a_cache_line_size p)) ls,
          cache_mapping_ways = map a_mapping_ways ls,
          cache_set_size = sets,
          cache_set_shifts = map ilog2 sets,
          cache_bank_num = map a_bankNum ls,
          cache_access_latency = map a_access_latency ls,
          reqQueueSizePerBank = map a_reqQueueSizePerBank ls,
          ackQueueSizePerBank = map a_ackQueueSizePerBank ls,
          swap_style = map (\<lambda>_. CACHE_SWAP_LRU) ls,
          write_strategy = map (\<lambda>_. WRITE_BACK) ls,
          write_allocate = map (\<lambda>_. WRITE_ALLOCATE) ls\<rparr>)"

text \<open>
  \<open>resize\<close> fills the acknowledgement queues and the queue to the memory with value-initialised
  requests; the divisions by the line size and by the number of ways are undefined when these are
  0, and so is the logarithm of 0.
\<close>

definition cache_init :: "config \<Rightarrow> nat list \<Rightarrow> cache res" where
  "cache_init g rs =
     rbind (config_check g) (\<lambda>_.
       let ls = a_levels g in
       if list_ex (\<lambda>p. a_cache_line_size p = 0 \<or> a_mapping_ways p = 0
                       \<or> a_cache_size p div a_cache_line_size p div a_mapping_ways p = 0) ls
       then Inl ModByZero
       else Inr \<lparr>
         geo = init_geometry ls,
         caches = map (\<lambda>p. replicate (a_cache_size p div a_cache_line_size p) cacheLine0) ls,
         tick_count = 0,
         cache_w_memory_count = 0,
         cache_hit_count = map (\<lambda>_. 0) ls,
         cache_miss_count = map (\<lambda>_. 0) ls,
         cacheAccessCnt = 0,
         memAccessCnt = 0,
         mshrs = map (\<lambda>p. mshrInit (fst (a_mshrPara p)) (snd (a_mshrPara p))) ls,
         reqQueue = map (\<lambda>p. replicate (a_bankNum p) []) ls,
         ackQueue = map (\<lambda>p. replicate (a_bankNum p) (replicate (a_ackQueueSizePerBank p) cacheReq0)) ls,
         reqBankConflict = map (\<lambda>p. replicate (a_bankNum p) False) ls,
         ackBankConflict = map (\<lambda>p. replicate (a_bankNum p) False) ls,
         reqQueue2Mem = replicate (a_bankNum (last ls)) memReq0,
         reqQueueBankPtr = map (\<lambda>_. 0) ls,
         ackQueueBankPtr = map (\<lambda>_. 0) ls,
         rands = rs\<rparr>)"

section \<open>Conversions between memory and cache requests\<close>

definition transMemReq2CacheReq :: "memReq \<Rightarrow> cacheReq" where
  "transMemReq2CacheReq r = cacheReq0\<lparr>
     c_valid := m_valid r, c_addr := m_addr r, c_inflight := m_inflight r, c_ready := m_ready r,
     c_cnt := m_cnt r, c_coalesced := m_coalesced r, c_lseId := m_lseId r,
     c_lseReqQueueIndex := m_lseReqQueueIndex r,
     c_cacheOp := (if m_isWrite r then WRITE else READ)\<rparr>"

definition transCacheReq2MemReq :: "cacheReq \<Rightarrow> memReq" where
  "transCacheReq2MemReq r = memReq0\<lparr>
     m_valid := c_valid r, m_addr := c_addr r, m_inflight := c_inflight r, m_ready := c_ready r,
     m_coalesced := c_coalesced r, m_lseId := c_lseId r,
     m_lseReqQueueIndex := c_lseReqQueueIndex r,
     m_isWrite := (c_cacheOp r = WRITE)\<rparr>"

section \<open>Well-formed geometries\<close>

text \<open>
  What \<open>init\<close> establishes for \<open>L\<close> levels, as far as the operations need it. The shifts are the
  integer logarithms of the line size and of the number of sets, so \<open>2 ^ shift\<close> is at most the
  number of sets, which need not be a power of two.
\<close>

definition geo_wf :: "nat \<Rightarrow> geometry \<Rightarrow> bool" where
  "geo_wf L g \<longleftrightarrow>
     length (cache_line_shifts g) = L \<and> length (cache_mapping_ways g) = L \<and> length (cache_set_size g) = L
   \<and> length (cache_set_shifts g) = L \<and> length (cache_bank_num g) = L
   \<and> (\<forall>l<L. 0 < cache_mapping_ways g ! l \<and> 0 < cache_set_size g ! l \<and> 0 < cache_bank_num g ! l
          \<and> 2 ^ (cache_set_shifts g ! l) \<le> cache_set_size g ! l)"

lemma geo_wfD:
  assumes "geo_wf L g" "l < L"
  shows "0 < cache_mapping_ways g ! l" "0 < cache_set_size g ! l" "0 < cache_bank_num g ! l"
    "2 ^ (cache_set_shifts g ! l) \<le> cache_set_size g ! l"
  using assms by (simp_all add: geo_wf_def)

lemma getCacheBank_less: "geo_wf L g \<Longrightarrow> l < L \<Longrightarrow> getCacheBank g a l < cache_bank_num g ! l"
  by (simp add: getCacheBank_def geo_wfD)

lemma getCacheSetIndex_less: "geo_wf L g \<Longrightarrow> l < L \<Longrightarrow> getCacheSetIndex g a l < cache_set_size g ! l"
  by (simp add: getCacheSetIndex_def geo_wfD)

lemma block_bank: "getCacheBlockId g a l = getCacheBlockId g b l \<Longrightarrow> getCacheBank g a l = getCacheBank g b l"
  by (simp add: getCacheBlockId_def getCacheBank_def)

lemma block_set: "getCacheBlockId g a l = getCacheBlockId g b l \<Longrightarrow> getCacheSetIndex g a l = getCacheSetIndex g b l"
  by (simp add: getCacheBlockId_def getCacheSetIndex_def)

lemma tag_of_block: "getCacheTag g a l = drop_bit (cache_set_shifts g ! l) (getCacheBlockId g a l)"
  by (simp add: getCacheTag_def getCacheBlockId_def)

lemma block_tag: "getCacheBlockId g a l = getCacheBlockId g b l \<Longrightarrow> getCacheTag g a l = getCacheTag g b l"
  by (simp add: tag_of_block)

lemma mod_div_unique:
  fixes x y k n :: nat
  assumes "k \<le> n" "x div k = y div k" "x mod n = y mod n" "0 < k"
  shows "x = y"
proof -
  have "u = v" if "u \<le> v" "u div k = v div k" "u mod n = v mod n" for u v
  proof -
    have "n dvd v - u"
      using that mod_eq_dvd_iff_nat [of u v n] by simp
    moreover have "v - u < k"
    proof -
      have "v = k * (v div k) + v mod k" "u = k * (u div k) + u mod k" by simp_all
      with that have "v - u \<le> v mod k" by (metis diff_add_inverse diff_le_mono2 le_add1)
      with assms show ?thesis by (meson le_less_trans mod_less_divisor)
    qed
    ultimately have "v - u = 0" using assms(1) by (meson dvd_imp_le le_trans linorder_not_le neq0_conv)
    with that show ?thesis by simp
  qed
  with assms show ?thesis by (metis nat_le_linear)
qed

lemma tag_set_block:
  assumes "geo_wf L g" "l < L"
    "getCacheTag g a l = getCacheTag g b l" "getCacheSetIndex g a l = getCacheSetIndex g b l"
  shows "getCacheBlockId g a l = getCacheBlockId g b l"
proof -
  let ?s = "cache_set_shifts g ! l"
  have "unat (drop_bit ?s (getCacheBlockId g x l)) = unat (getCacheBlockId g x l) div 2 ^ ?s" for x
    by (simp only: unat_drop_bit_eq) (simp only: drop_bit_eq_div)
  then have d: "unat (getCacheBlockId g a l) div 2 ^ ?s = unat (getCacheBlockId g b l) div 2 ^ ?s"
    using assms(3) by (metis tag_of_block)
  have m: "unat (getCacheBlockId g a l) mod (cache_set_size g ! l)
      = unat (getCacheBlockId g b l) mod (cache_set_size g ! l)"
    using assms(4) by (simp add: getCacheSetIndex_def getCacheBlockId_def)
  have "unat (getCacheBlockId g a l) = unat (getCacheBlockId g b l)"
    by (rule mod_div_unique [OF geo_wfD(4) [OF assms(1,2)] d m]) (rule zero_less_power [OF zero_less_numeral])
  then show ?thesis by (simp only: word_unat_eq_iff)
qed

text \<open>C11: the tag and the set index of an address determine its memory block, also when the number of
  sets is not a power of two (the configuration's 16 MB of 5732-byte lines in 16 ways give 182 sets):
  the cache never takes one block for another.\<close>

theorem tag_set_identify_block:
  assumes "geo_wf L g" "l < L"
    "getCacheTag g a l = getCacheTag g b l" "getCacheSetIndex g a l = getCacheSetIndex g b l"
  shows "getCacheBlockId g a l = getCacheBlockId g b l"
  using assms by (rule tag_set_block)

definition geo_config :: geometry where
  "geo_config = init_geometry [\<lparr>a_cache_size = 16777216, a_cache_line_size = 5732, a_mapping_ways = 16,
     a_access_latency = 1, a_reqQueueSizePerBank = 16, a_ackQueueSizePerBank = 16, a_bankNum = 32,
     a_mshrPara = (32, 8)\<rparr>]"

lemma ilog2_numerals: "ilog2 5732 = 12" "ilog2 182 = 7"
  by (simp_all add: ilog2.simps)

lemma geo_config_wf: "geo_wf 1 geo_config"
  by (simp add: geo_wf_def geo_config_def init_geometry_def Let_def ilog2_numerals)

theorem tag_set_identify_block_witness:
  "getCacheTag geo_config 4096 0 = getCacheTag geo_config 4100 0
   \<and> getCacheBlockId geo_config 4096 0 = getCacheBlockId geo_config 4100 0"
proof -
  have s: "cache_line_shifts geo_config ! 0 = 12" "cache_set_shifts geo_config ! 0 = 7"
    "cache_set_size geo_config ! 0 = 182"
    by (simp_all add: geo_config_def init_geometry_def Let_def ilog2_numerals)
  have t: "getCacheTag geo_config 4096 0 = getCacheTag geo_config 4100 0"
    by (simp add: getCacheTag_def s)
  have i: "getCacheSetIndex geo_config 4096 0 = getCacheSetIndex geo_config 4100 0"
    by (simp add: getCacheSetIndex_def s)
  show ?thesis
    using tag_set_identify_block [OF geo_config_wf _ t i] t by simp
qed

end
