(* ===== verification/Cache.thy ===== *)
theory Cache
  imports CacheState
begin

text \<open>
  The operations of the cache (\<open>module/mem/Cache.cpp\<close>): the request banks with their one-access-per-round
  rule, the look-up, replacement and write-back of cache lines, and the phases of \<open>cacheUpdate\<close>.
  An \<open>int\<close> that is \<open>-1\<close> when there is no line is a \<open>nat option\<close>.
\<close>

section \<open>Request banks and the queue to the memory\<close>

definition sendReq2CacheBank :: "cacheReq \<Rightarrow> nat \<Rightarrow> cache \<Rightarrow> bool \<times> cache" where
  "sendReq2CacheBank req level c =
     (let bankId = getCacheBank (geo c) (c_addr req) level in
      if length (reqQueue c ! level ! bankId) < reqQueueSizePerBank (geo c) ! level
         \<and> \<not> reqBankConflict c ! level ! bankId
      then (True, c\<lparr>reqQueue := upd2 level bankId (\<lambda>q. q @ [(req, cache_access_latency (geo c) ! level)])
                                  (reqQueue c),
                   reqBankConflict := upd2 level bankId (\<lambda>_. True) (reqBankConflict c)\<rparr>)
      else (False, c))"

definition sendReq2reqQueue2Mem :: "config \<Rightarrow> cacheReq \<Rightarrow> cache \<Rightarrow> bool \<times> cache" where
  "sendReq2reqQueue2Mem g req c =
     (if length (reqQueue2Mem c) < req_queue_to_mem_size g
      then (True, c\<lparr>reqQueue2Mem := reqQueue2Mem c @ [transCacheReq2MemReq req]\<rparr>)
      else (False, c))"

definition cache_addTransaction :: "memReq \<Rightarrow> cache \<Rightarrow> (bool \<times> cache) res" where
  "cache_addTransaction req c =
     (if length (reqQueue c) > 0 then Inr (sendReq2CacheBank (transMemReq2CacheReq req) 0 c)
      else Inl (Throw ''Not configure L1 cache!''))"

definition cache_callBack :: "nat \<Rightarrow> cache \<Rightarrow> (memReq \<times> cache) res" where
  "cache_callBack ackQueueId c =
     (if ackQueueId < length (ackQueue c ! 0)
      then Inr (case ackQueue c ! 0 ! ackQueueId of
              [] \<Rightarrow> (memReq0, c)
            | r # q \<Rightarrow> (transCacheReq2MemReq r, c\<lparr>ackQueue := upd2 0 ackQueueId (\<lambda>_. q) (ackQueue c)\<rparr>))
      else Inl OutOfBounds)"

section \<open>Cache lines\<close>

abbreviation upd_line :: "nat \<Rightarrow> nat \<Rightarrow> (cacheLine \<Rightarrow> cacheLine) \<Rightarrow> cache \<Rightarrow> cache" where
  "upd_line level idx f c \<equiv> c\<lparr>caches := upd2 level idx f (caches c)\<rparr>"

definition check_cache_hit :: "cache \<Rightarrow> nat \<Rightarrow> u64 \<Rightarrow> nat \<Rightarrow> nat option" where
  "check_cache_hit c set_base addr level =
     map_option (\<lambda>i. set_base + i)
       (first_index (\<lambda>i. flagged CACHE_FLAG_VALID (caches c ! level ! (set_base + i))
                       \<and> l_tag (caches c ! level ! (set_base + i)) = getCacheTag (geo c) addr level)
         [0..<cache_mapping_ways (geo c) ! level])"

definition writeBack_addr :: "geometry \<Rightarrow> u64 \<Rightarrow> nat \<Rightarrow> nat \<Rightarrow> u64" where
  "writeBack_addr g tag setIndex level =
     push_bit (cache_set_shifts g ! level + cache_line_shifts g ! level) tag
       OR push_bit (cache_line_shifts g ! level) (of_nat setIndex)"

definition writeBackDirtyCacheline :: "config \<Rightarrow> u64 \<Rightarrow> nat \<Rightarrow> nat \<Rightarrow> cache \<Rightarrow> bool \<times> cache" where
  "writeBackDirtyCacheline g tag setIndex level c =
     (let req = cacheReq0\<lparr>c_valid := True, c_addr := writeBack_addr (geo c) tag setIndex level,
                  c_cacheOp := WRITEBACK_DIRTY_BLOCK\<rparr>
      in if level < cache_max_level g - 1 then sendReq2CacheBank req (level + 1) c
         else sendReq2reqQueue2Mem g req c)"

text \<open>
  The scan for the line with the smallest count among those that \<open>ok\<close> admits: the running minimum
  starts at \<open>ULONG_LONG_MAX\<close> and is replaced by a strictly smaller count.
\<close>

definition min_count_line :: "(cacheLine \<Rightarrow> bool) \<Rightarrow> cacheLine list \<Rightarrow> nat \<Rightarrow> nat \<Rightarrow> nat option" where
  "min_count_line ok lines set_base ways =
     snd (fold (\<lambda>j (min_count, free_index).
            if l_count (lines ! (set_base + j)) < min_count \<and> ok (lines ! (set_base + j))
            then (l_count (lines ! (set_base + j)), Some j) else (min_count, free_index))
          [0..<ways] (- 1, None))"

definition get_cache_free_line :: "config \<Rightarrow> nat \<Rightarrow> nat \<Rightarrow> cache \<Rightarrow> nat option \<times> cache" where
  "get_cache_free_line g set_base level c =
     (let ways = cache_mapping_ways (geo c) ! level; lines = caches c ! level in
      case first_index (\<lambda>i. \<not> flagged CACHE_FLAG_VALID (lines ! (set_base + i))) [0..<ways] of
        Some i \<Rightarrow> (Some (set_base + i), c)
      | None \<Rightarrow>
        (let (free_index, c) =
               (case swap_style (geo c) ! level of
                  CACHE_SWAP_RAND \<Rightarrow>
                    (case rands c of [] \<Rightarrow> (Some 0, c) | r # rs \<Rightarrow> (Some (r mod ways), c\<lparr>rands := rs\<rparr>))
                | CACHE_SWAP_LRU \<Rightarrow> (min_count_line (\<lambda>l. \<not> flagged CACHE_FLAG_LOCK l) lines set_base ways, c)
                | CACHE_SWAP_FIFO \<Rightarrow> (min_count_line (\<lambda>l. \<not> flagged CACHE_FLAG_LOCK l) lines set_base ways, c)
                | CACHE_SWAP_MAX \<Rightarrow> (None, c));
             free_index = (case free_index of Some j \<Rightarrow> Some j
                           | None \<Rightarrow> min_count_line (\<lambda>_. True) lines set_base ways)
         in case free_index of
              None \<Rightarrow> (None, c)
            | Some j \<Rightarrow>
              (let idx = j + set_base in
               if write_strategy (geo c) ! level = WRITE_BACK \<and> flagged CACHE_FLAG_DIRTY (lines ! idx)
               then (case writeBackDirtyCacheline g (l_tag (lines ! idx)) idx level c of
                       (True, c) \<Rightarrow>
                         (Some idx, upd_line level idx (\<lambda>l. l\<lparr>l_flag := l_flag l AND NOT CACHE_FLAG_DIRTY\<rparr>)
                            (c\<lparr>cache_w_memory_count := cache_w_memory_count c + 1\<rparr>))
                     | (False, c) \<Rightarrow> (None, c))
               else (Some idx, c))))"

definition set_cache_line :: "nat \<Rightarrow> u64 \<Rightarrow> nat \<Rightarrow> cache \<Rightarrow> cache" where
  "set_cache_line index addr level c =
     (upd_line level index (\<lambda>l. l\<lparr>l_tag := getCacheTag (geo c) addr level,
        l_flag := NOT CACHE_FLAG_MASK OR CACHE_FLAG_VALID, l_count := tick_count c\<rparr>) c)
       \<lparr>tick_count := tick_count c + 1\<rparr>"

definition set_base_of :: "geometry \<Rightarrow> u64 \<Rightarrow> nat \<Rightarrow> nat" where
  "set_base_of g addr level = getCacheSetIndex g addr level * cache_mapping_ways g ! level"

definition setCacheBlock :: "config \<Rightarrow> u64 \<Rightarrow> nat \<Rightarrow> cache \<Rightarrow> bool \<times> cache" where
  "setCacheBlock g addr level c =
     (let set_base = set_base_of (geo c) addr level in
      if check_cache_hit c set_base addr level = None
      then (case get_cache_free_line g set_base level c of
              (Some i, c) \<Rightarrow> (True, set_cache_line i addr level c)
            | (None, c) \<Rightarrow> (False, c))
      else (True, c))"

definition lock_cache_line :: "nat \<Rightarrow> nat \<Rightarrow> cache \<Rightarrow> cache" where
  "lock_cache_line idx level c = upd_line level idx (\<lambda>l. l\<lparr>l_flag := l_flag l OR CACHE_FLAG_LOCK\<rparr>) c"

definition unlock_cache_line :: "nat \<Rightarrow> nat \<Rightarrow> cache \<Rightarrow> cache" where
  "unlock_cache_line idx level c =
     upd_line level idx (\<lambda>l. l\<lparr>l_flag := l_flag l AND NOT CACHE_FLAG_LOCK\<rparr>) c"

section \<open>Traffic with the memory\<close>

text \<open>
  The memory is a parameter: \<open>willAccept\<close> and \<open>add\<close> are the two calls of \<open>dramsim3::MemorySystem\<close>.
  The loop pops the front of the queue while the memory accepts it.
\<close>

fun send_all :: "('m \<Rightarrow> u64 \<Rightarrow> bool \<Rightarrow> bool) \<Rightarrow> ('m \<Rightarrow> u64 \<Rightarrow> bool \<Rightarrow> 'm) \<Rightarrow> memReq list \<Rightarrow> nat \<Rightarrow> 'm
      \<Rightarrow> memReq list \<times> nat \<times> 'm" where
  "send_all willAccept add [] n mem = ([], n, mem)"
| "send_all willAccept add (r # q) n mem =
     (if willAccept mem (m_addr r) (m_isWrite r)
      then send_all willAccept add q (n + 1) (add mem (m_addr r) (m_isWrite r))
      else (r # q, n, mem))"

definition cache_sendReq2Mem :: "('m \<Rightarrow> u64 \<Rightarrow> bool \<Rightarrow> bool) \<Rightarrow> ('m \<Rightarrow> u64 \<Rightarrow> bool \<Rightarrow> 'm)
      \<Rightarrow> cache \<Rightarrow> 'm \<Rightarrow> cache \<times> 'm" where
  "cache_sendReq2Mem willAccept add c mem =
     (case send_all willAccept add (reqQueue2Mem c) (memAccessCnt c) mem of
        (q, n, mem) \<Rightarrow> (c\<lparr>reqQueue2Mem := q, memAccessCnt := n\<rparr>, mem))"

text \<open>The line that \<open>get_cache_free_line\<close> did not find (\<open>-1\<close>) is used as an index, unchecked.\<close>

definition cache_mem_req_complete :: "config \<Rightarrow> memReq \<Rightarrow> cache \<Rightarrow> cache res" where
  "cache_mem_req_complete g req c =
     (let llc = cache_max_level g - 1; addr = m_addr req; setBase = set_base_of (geo c) addr llc in
      rbind (if check_cache_hit c setBase addr llc = None
             then (case get_cache_free_line g setBase llc c of
                     (Some i, c) \<Rightarrow> Inr (set_cache_line i addr llc c)
                   | (None, c) \<Rightarrow> Inl OutOfBounds)
             else Inr c)
        (\<lambda>c. Inr (c\<lparr>mshrs := (mshrs c)[llc := setMshrEntryReady (getCacheBlockId (geo c) addr llc)
                                              (mshrs c ! llc)]\<rparr>)))"

section \<open>The phases of an update\<close>

definition updateReqQueueLatency :: "bool \<Rightarrow> cache \<Rightarrow> cache" where
  "updateReqQueueLatency clkAdded c =
     (if clkAdded
      then c\<lparr>reqQueue := map (map (map (\<lambda>(r, lat). (r, if lat \<noteq> 0 then lat - 1 else lat)))) (reqQueue c)\<rparr>
      else c)"

definition resetBankConflictRecorder :: "cache \<Rightarrow> cache" where
  "resetBankConflictRecorder c =
     c\<lparr>reqBankConflict := map (map (\<lambda>_. False)) (reqBankConflict c),
       ackBankConflict := map (map (\<lambda>_. False)) (ackBankConflict c)\<rparr>"

text \<open>The front request of one bank against the cache lines.\<close>

definition send_miss :: "nat \<Rightarrow> cacheReq \<Rightarrow> cache \<Rightarrow> cache res" where
  "send_miss level req c =
     (case send2Mshr (getCacheBlockId (geo c) (c_addr req) level) req (mshrs c ! level) of
        (True, m) \<Rightarrow> Inr (c\<lparr>mshrs := (mshrs c)[level := m]\<rparr>)
      | (False, m) \<Rightarrow> Inl (Throw ''Send to MSHR unsuccessfully!''))"

definition set_front_ready :: "nat \<Rightarrow> nat \<Rightarrow> cache \<Rightarrow> cache" where
  "set_front_ready level bankId c =
     c\<lparr>reqQueue := upd2 level bankId
         (\<lambda>q. case q of [] \<Rightarrow> [] | (r, lat) # q \<Rightarrow> (r\<lparr>c_ready := True\<rparr>, lat) # q) (reqQueue c)\<rparr>"

definition pop_reqQueue :: "nat \<Rightarrow> nat \<Rightarrow> cache \<Rightarrow> cache" where
  "pop_reqQueue level bankId c = c\<lparr>reqQueue := upd2 level bankId tl (reqQueue c)\<rparr>"

definition process_front :: "nat \<Rightarrow> nat \<Rightarrow> cache \<Rightarrow> cache res" where
  "process_front level bankId c =
     (case reqQueue c ! level ! bankId of
        [] \<Rightarrow> Inr c
      | (req, lat) # _ \<Rightarrow>
          if lat = 0 \<and> \<not> c_ready req
          then (case check_cache_hit c (set_base_of (geo c) (c_addr req) level) (c_addr req) level of
                  Some idx \<Rightarrow>
                    rbind
                     (if c_cacheOp req = WRITE \<or> c_cacheOp req = WRITEBACK_DIRTY_BLOCK
                      then (case write_strategy (geo c) ! level of
                              WRITE_BACK \<Rightarrow>
                                Inr (set_front_ready level bankId
                                  (upd_line level idx (\<lambda>l. l\<lparr>l_flag := l_flag l OR CACHE_FLAG_DIRTY\<rparr>) c))
                            | WRITE_THROUGH \<Rightarrow>
                                rbind (send_miss level req c) (\<lambda>c. Inr (set_front_ready level bankId c)))
                      else Inr (set_front_ready level bankId c))
                     (\<lambda>c. Inr (c\<lparr>cache_hit_count := (cache_hit_count c)[level := cache_hit_count c ! level + 1]\<rparr>))
                | None \<Rightarrow>
                    rbind (send_miss level req c) (\<lambda>c.
                      Inr ((pop_reqQueue level bankId c)
                        \<lparr>cache_miss_count := (cache_miss_count c)[level := cache_miss_count c ! level + 1]\<rparr>)))
          else Inr c)"

text \<open>The banks of a level in round-robin order; the \<open>break\<close> when no table entry is free leaves
  the cache unchanged, so the remaining banks are skipped.\<close>

fun process_banks :: "nat \<Rightarrow> nat list \<Rightarrow> cache \<Rightarrow> cache res" where
  "process_banks level [] c = Inr c"
| "process_banks level (b # bs) c =
     (if seekMshrFreeEntry (mshrs c ! level)
      then rbind (process_front level b c) (process_banks level bs)
      else Inr c)"

definition bank_order :: "nat \<Rightarrow> nat \<Rightarrow> nat \<Rightarrow> nat list" where
  "bank_order ptr n num = map (\<lambda>i. (ptr + i) mod num) [0..<n]"

definition updateReqQueue :: "config \<Rightarrow> cache \<Rightarrow> cache res" where
  "updateReqQueue g =
     rfold (\<lambda>level c.
       rbind (process_banks level
                (bank_order (reqQueueBankPtr c ! level) (length (reqQueue c ! level))
                   (cache_bank_num (geo c) ! level)) c)
         (\<lambda>c. Inr (c\<lparr>reqQueueBankPtr := (reqQueueBankPtr c)
               [level := (reqQueueBankPtr c ! level + 1) mod (cache_bank_num (geo c) ! level)]\<rparr>)))
       [0..<cache_max_level g]"

text \<open>
  Popping the acknowledgements of a lower level: each marks the waiting entries of the level above
  and brings its block into that level.
\<close>

fun pop_acks :: "nat list \<Rightarrow> cacheReq list list \<Rightarrow> cacheReq list \<times> cacheReq list list" where
  "pop_acks [] qs = ([], qs)"
| "pop_acks (b # bs) qs =
     (case qs ! b of
        [] \<Rightarrow> pop_acks bs qs
      | r # q \<Rightarrow> (case pop_acks bs (qs[b := q]) of (rs, qs') \<Rightarrow> (r # rs, qs')))"

definition return_to_upper :: "config \<Rightarrow> nat \<Rightarrow> cacheReq \<Rightarrow> cache \<Rightarrow> cache res" where
  "return_to_upper g upper req c =
     (let c = c\<lparr>mshrs := (mshrs c)[upper := setMshrEntryReady (getCacheBlockId (geo c) (c_addr req) upper)
                                            (mshrs c ! upper)]\<rparr>
      in if \<not> (c_cacheOp req = WRITE \<and> write_allocate (geo c) ! upper = WRITE_NON_ALLOCATE)
         then (case setCacheBlock g (c_addr req) upper c of
                 (True, c) \<Rightarrow> Inr c
               | (False, c) \<Rightarrow> Inl (Throw ''Not update cacheline successfully!''))
         else Inr c)"

definition pop_level :: "config \<Rightarrow> nat \<Rightarrow> cache \<Rightarrow> cache res" where
  "pop_level g level c =
     (case pop_acks (bank_order (ackQueueBankPtr c ! level) (length (ackQueue c ! level))
                       (cache_bank_num (geo c) ! level)) (ackQueue c ! level) of
        (reqs, qs) \<Rightarrow>
          rfold (return_to_upper g (level - 1)) reqs
            (c\<lparr>ackQueue := (ackQueue c)[level := qs],
               ackQueueBankPtr := (ackQueueBankPtr c)
                 [level := (ackQueueBankPtr c ! level + 1) mod (cache_bank_num (geo c) ! level)]\<rparr>))"

text \<open>Offering one ready request of the miss table to the acknowledgement queue of its bank; the
  result says whether the table's entry is to be cleared.\<close>

definition offer_ack :: "nat \<Rightarrow> cacheReq \<Rightarrow> cache \<Rightarrow> bool \<times> cache" where
  "offer_ack level req c =
     (let bankId = getCacheBank (geo c) (c_addr req) level in
      if c_cacheOp req \<noteq> WRITEBACK_DIRTY_BLOCK
      then if \<not> ackBankConflict c ! level ! bankId
              \<and> length (ackQueue c ! level ! bankId) < ackQueueSizePerBank (geo c) ! level
           then (True, c\<lparr>ackQueue := upd2 level bankId (\<lambda>q. q @ [req\<lparr>c_ready := True\<rparr>]) (ackQueue c),
                         ackBankConflict := upd2 level bankId (\<lambda>_. True) (ackBankConflict c)\<rparr>)
           else (False, c)
      else (True, c))"

fun offer_all :: "nat \<Rightarrow> (nat \<times> cacheReq) list \<Rightarrow> cache \<Rightarrow> nat list \<times> cache" where
  "offer_all level [] c = ([], c)"
| "offer_all level ((i, r) # v) c =
     (case offer_ack level r c of
        (True, c) \<Rightarrow> (case offer_all level v c of (ids, c) \<Rightarrow> (i # ids, c))
      | (False, c) \<Rightarrow> offer_all level v c)"

definition ack_from_mshr :: "nat \<Rightarrow> cache \<Rightarrow> cache res" where
  "ack_from_mshr level c =
     rbind (peekMshrReadyEntry (mshrs c ! level)) (\<lambda>(reqVec, m).
       case offer_all level reqVec (c\<lparr>mshrs := (mshrs c)[level := m]\<rparr>) of
         (ids, c) \<Rightarrow>
           if reqVec = [] then Inr c
           else rbind (clearMshrEntry ids (mshrs c ! level))
                  (\<lambda>m. Inr (c\<lparr>mshrs := (mshrs c)[level := m]\<rparr>)))"

definition ack_from_bank :: "nat \<Rightarrow> nat \<Rightarrow> cache \<Rightarrow> cache" where
  "ack_from_bank level bankId c =
     (case reqQueue c ! level ! bankId of
        [] \<Rightarrow> c
      | (r, lat) # q \<Rightarrow>
          if c_ready r \<and> \<not> ackBankConflict c ! level ! bankId
             \<and> length (ackQueue c ! level ! bankId) < ackQueueSizePerBank (geo c) ! level
          then c\<lparr>ackQueue := upd2 level bankId (\<lambda>a. a @ [r]) (ackQueue c),
                 reqQueue := upd2 level bankId (\<lambda>_. q) (reqQueue c)\<rparr>
          else c)"

definition ack_level :: "config \<Rightarrow> nat \<Rightarrow> cache \<Rightarrow> cache res" where
  "ack_level g level c =
     rbind (if level > 0 then pop_level g level c else Inr c) (\<lambda>c.
     rbind (ack_from_mshr level c) (\<lambda>c.
       Inr (fold (ack_from_bank level) [0..<length (reqQueue c ! level)] c)))"

definition updateAckQueue :: "config \<Rightarrow> cache \<Rightarrow> cache res" where
  "updateAckQueue g = rfold (ack_level g) (rev [0..<cache_max_level g])"

fun send_outstanding :: "config \<Rightarrow> nat \<Rightarrow> (nat \<times> cacheReq) list \<Rightarrow> cache \<Rightarrow> nat list \<times> cache" where
  "send_outstanding g level [] c = ([], c)"
| "send_outstanding g level ((i, r) # v) c =
     (case (if level < cache_max_level g - 1 then sendReq2CacheBank r (level + 1) c
            else sendReq2reqQueue2Mem g r c) of
        (True, c) \<Rightarrow> (case send_outstanding g level v c of (ids, c) \<Rightarrow> (i # ids, c))
      | (False, c) \<Rightarrow> send_outstanding g level v c)"

definition send_outstanding_level :: "config \<Rightarrow> nat \<Rightarrow> cache \<Rightarrow> cache res" where
  "send_outstanding_level g level c =
     rbind (getOutstandingReq (mshrs c ! level)) (\<lambda>reqVec.
       case send_outstanding g level reqVec c of
         (ids, c) \<Rightarrow> rbind (clearOutstandingFlag ids (mshrs c ! level))
                      (\<lambda>m. Inr (c\<lparr>mshrs := (mshrs c)[level := m]\<rparr>)))"

definition sendMshrOutstandingReq :: "config \<Rightarrow> cache \<Rightarrow> cache res" where
  "sendMshrOutstandingReq g = rfold (send_outstanding_level g) [0..<cache_max_level g]"

definition cacheUpdate :: "config \<Rightarrow> bool \<Rightarrow> cache \<Rightarrow> cache res" where
  "cacheUpdate g clkAdded c =
     rbind (updateAckQueue g (resetBankConflictRecorder c)) (\<lambda>c.
     rbind (sendMshrOutstandingReq g c) (\<lambda>c.
     rbind (updateReqQueue g c) (\<lambda>c.
       Inr (updateReqQueueLatency clkAdded c))))"

end
