(* ===== verification/CacheLines.thy ===== *)
theory CacheLines
  imports Cache
begin

text \<open>
  Look-up, replacement and write-back of cache lines: which blocks are resident, what bringing a
  block in changes, which line is evicted, and what the write-back of a dirty line sends.
\<close>

section \<open>Shape of the cache state\<close>

text \<open>The sizes that no operation changes; every operation keeps \<open>cache_dims\<close> as it is.\<close>

definition cache_dims :: "cache \<Rightarrow> geometry \<times> nat list list \<times> nat" where
  "cache_dims c = (geo c, [map length (caches c), map length (reqQueue c), map length (ackQueue c),
      map length (reqBankConflict c), map length (ackBankConflict c)], length (mshrs c))"

definition cache_wf :: "nat \<Rightarrow> cache \<Rightarrow> bool" where
  "cache_wf L c \<longleftrightarrow> geo_wf L (geo c)
     \<and> length (caches c) = L \<and> length (reqQueue c) = L \<and> length (ackQueue c) = L
     \<and> length (reqBankConflict c) = L \<and> length (ackBankConflict c) = L \<and> length (mshrs c) = L
     \<and> (\<forall>l<L. cache_set_size (geo c) ! l * cache_mapping_ways (geo c) ! l \<le> length (caches c ! l)
          \<and> length (reqQueue c ! l) = cache_bank_num (geo c) ! l
          \<and> length (ackQueue c ! l) = cache_bank_num (geo c) ! l
          \<and> length (reqBankConflict c ! l) = cache_bank_num (geo c) ! l
          \<and> length (ackBankConflict c ! l) = cache_bank_num (geo c) ! l)"

lemma map_length_nth: "map length xs = map length ys \<Longrightarrow> i < length xs \<Longrightarrow> length (xs ! i) = length (ys ! i)"
  by (metis length_map nth_map)

lemma cache_wf_cong:
  assumes "cache_dims c' = cache_dims c"
  shows "cache_wf L c' = cache_wf L c"
proof -
  have g: "geo c' = geo c" and m: "length (mshrs c') = length (mshrs c)"
    and eq: "map length (caches c') = map length (caches c)"
      "map length (reqQueue c') = map length (reqQueue c)"
      "map length (ackQueue c') = map length (ackQueue c)"
      "map length (reqBankConflict c') = map length (reqBankConflict c)"
      "map length (ackBankConflict c') = map length (ackBankConflict c)"
    using assms by (simp_all add: cache_dims_def)
  have len: "length (caches c') = length (caches c)" "length (reqQueue c') = length (reqQueue c)"
    "length (ackQueue c') = length (ackQueue c)"
    "length (reqBankConflict c') = length (reqBankConflict c)"
    "length (ackBankConflict c') = length (ackBankConflict c)"
    using eq by (metis length_map)+
  show ?thesis
    unfolding cache_wf_def g m len
    using map_length_nth [OF eq(1)] map_length_nth [OF eq(2)] map_length_nth [OF eq(3)]
      map_length_nth [OF eq(4)] map_length_nth [OF eq(5)] len
    by (intro conj_cong refl all_cong) auto
qed

lemma map_length_upd2 [simp]: "map length (upd2 i j f xss) = map length xss"
  by (rule nth_equalityI) (simp_all)

lemma upd_line_dims [keeps]: "cache_dims (upd_line level idx f c) = cache_dims c"
  by (simp add: cache_dims_def)

lemma set_line_index:
  assumes "cache_wf L c" "l < L" "i < cache_mapping_ways (geo c) ! l"
  shows "set_base_of (geo c) a l + i < length (caches c ! l)"
proof -
  let ?s = "getCacheSetIndex (geo c) a l" and ?w = "cache_mapping_ways (geo c) ! l"
  have "?s < cache_set_size (geo c) ! l"
    using assms by (auto simp: cache_wf_def intro: getCacheSetIndex_less)
  then have "Suc ?s * ?w \<le> cache_set_size (geo c) ! l * ?w" by (intro mult_le_mono1) simp
  moreover have "cache_set_size (geo c) ! l * ?w \<le> length (caches c ! l)"
    using assms by (simp add: cache_wf_def)
  ultimately show ?thesis using assms(3) by (simp add: set_base_of_def)
qed

section \<open>Residency\<close>

definition line_holds :: "cache \<Rightarrow> nat \<Rightarrow> nat \<Rightarrow> u64 \<Rightarrow> bool" where
  "line_holds c level idx addr \<longleftrightarrow> flagged CACHE_FLAG_VALID (caches c ! level ! idx)
     \<and> l_tag (caches c ! level ! idx) = getCacheTag (geo c) addr level"

definition resident :: "cache \<Rightarrow> nat \<Rightarrow> u64 \<Rightarrow> bool" where
  "resident c level addr \<longleftrightarrow> check_cache_hit c (set_base_of (geo c) addr level) addr level \<noteq> None"

lemma check_cache_hit_None:
  "check_cache_hit c base addr level = None
     \<longleftrightarrow> (\<forall>i < cache_mapping_ways (geo c) ! level. \<not> line_holds c level (base + i) addr)"
  by (auto simp: check_cache_hit_def first_index_None line_holds_def)

lemma check_cache_hit_Some:
  "check_cache_hit c base addr level = Some idx \<Longrightarrow>
     line_holds c level idx addr \<and> base \<le> idx \<and> idx < base + cache_mapping_ways (geo c) ! level"
  by (auto simp: check_cache_hit_def first_index_Some line_holds_def)

lemma resident_iff:
  "resident c level addr \<longleftrightarrow> (\<exists>i < cache_mapping_ways (geo c) ! level.
      line_holds c level (set_base_of (geo c) addr level + i) addr)"
  by (auto simp: resident_def check_cache_hit_None)

text \<open>Residency depends on the geometry and on the valid bits and tags of the lines only.\<close>

lemma resident_cong:
  assumes "geo c' = geo c" "\<And>i. line_holds c' level i addr = line_holds c level i addr"
  shows "resident c' level addr = resident c level addr"
  using assms by (simp add: resident_iff)

lemma resident_caches: "geo c' = geo c \<Longrightarrow> caches c' = caches c \<Longrightarrow> resident c' level addr = resident c level addr"
  by (rule resident_cong) (simp_all add: line_holds_def)

lemma flag_dirty_valid [simp]:
  "flagged CACHE_FLAG_VALID (l\<lparr>l_flag := l_flag l OR CACHE_FLAG_DIRTY\<rparr>) = flagged CACHE_FLAG_VALID l"
  "flagged CACHE_FLAG_VALID (l\<lparr>l_flag := l_flag l AND NOT CACHE_FLAG_DIRTY\<rparr>) = flagged CACHE_FLAG_VALID l"
proof -
  have "(x OR 2) AND 1 = x AND 1" for x :: "8 word"
    by (rule bit_word_eqI) (auto simp: bit_simps)
  moreover have "(x AND NOT 2) AND 1 = x AND 1" for x :: "8 word"
    by (rule bit_word_eqI) (auto simp: bit_simps)
  ultimately show
    "flagged CACHE_FLAG_VALID (l\<lparr>l_flag := l_flag l OR CACHE_FLAG_DIRTY\<rparr>) = flagged CACHE_FLAG_VALID l"
    "flagged CACHE_FLAG_VALID (l\<lparr>l_flag := l_flag l AND NOT CACHE_FLAG_DIRTY\<rparr>) = flagged CACHE_FLAG_VALID l"
    by (simp_all add: flagged_def CACHE_FLAG_VALID_def CACHE_FLAG_DIRTY_def)
qed

lemma fresh_flag: "NOT CACHE_FLAG_MASK OR CACHE_FLAG_VALID = 1"
  by (simp add: CACHE_FLAG_MASK_def CACHE_FLAG_VALID_def)

lemma set_cache_line_simps [simp]:
  "geo (set_cache_line i a l c) = geo c" "mshrs (set_cache_line i a l c) = mshrs c"
  "reqQueue (set_cache_line i a l c) = reqQueue c" "ackQueue (set_cache_line i a l c) = ackQueue c"
  "reqQueue2Mem (set_cache_line i a l c) = reqQueue2Mem c"
  "cache_dims (set_cache_line i a l c) = cache_dims c"
  by (simp_all add: set_cache_line_def cache_dims_def)

lemma caches_set_cache_line:
  assumes "level < length (caches c)" "idx < length (caches c ! level)"
  shows "caches (set_cache_line idx addr level c) ! l ! i =
    (if l = level \<and> i = idx
     then (caches c ! level ! idx)\<lparr>l_tag := getCacheTag (geo c) addr level, l_flag := 1, l_count := tick_count c\<rparr>
     else caches c ! l ! i)"
  using assms by (auto simp: set_cache_line_def upd2_nth2 fresh_flag)

lemma line_holds_set_cache_line:
  assumes "level < length (caches c)" "idx < length (caches c ! level)"
  shows "line_holds (set_cache_line idx addr level c) l i a =
    (if l = level \<and> i = idx then getCacheTag (geo c) addr level = getCacheTag (geo c) a level
     else line_holds c l i a)"
  unfolding line_holds_def caches_set_cache_line [OF assms]
  by (auto simp: flagged_def CACHE_FLAG_VALID_def)

section \<open>The choice of the line\<close>

lemma min_count_line_spec:
  "case min_count_line ok lines base ways of
     Some j \<Rightarrow> j < ways \<and> ok (lines ! (base + j)) \<and> l_count (lines ! (base + j)) \<noteq> - 1
        \<and> (\<forall>i<ways. ok (lines ! (base + i)) \<longrightarrow> l_count (lines ! (base + j)) \<le> l_count (lines ! (base + i)))
   | None \<Rightarrow> \<forall>i<ways. ok (lines ! (base + i)) \<longrightarrow> l_count (lines ! (base + i)) = - 1"
proof -
  let ?cnt = "\<lambda>i. l_count (lines ! (base + i))" and ?ok = "\<lambda>i. ok (lines ! (base + i))"
  let ?f = "\<lambda>j (m, fi). if ?cnt j < m \<and> ?ok j then (?cnt j, Some j) else (m, fi)"
  let ?P = "\<lambda>n m fi. (\<forall>i<n. ?ok i \<longrightarrow> m \<le> ?cnt i)
     \<and> (case fi of None \<Rightarrow> m = - 1 | Some j \<Rightarrow> j < n \<and> ?ok j \<and> ?cnt j \<noteq> - 1 \<and> m = ?cnt j)"
  have inv: "?P n (fst (fold ?f [0..<n] (- 1, None))) (snd (fold ?f [0..<n] (- 1, None)))" for n
  proof (induction n)
    case 0
    then show ?case by simp
  next
    case (Suc n)
    obtain m fi where s: "fold ?f [0..<n] (- 1, None) = (m, fi)" by fastforce
    have IH: "?P n m fi" using Suc unfolding s fst_conv snd_conv .
    have step: "fold ?f [0..<Suc n] (- 1, None) = ?f n (m, fi)" by (simp add: s)
    show ?case
    proof (cases "?cnt n < m \<and> ?ok n")
      case True
      have "?cnt n \<le> ?cnt i" if "i < Suc n" "?ok i" for i
      proof (cases "i = n")
        case False
        with that IH have "m \<le> ?cnt i" by simp
        with True show ?thesis by (meson less_le_trans less_imp_le)
      qed simp
      moreover have "?cnt n \<noteq> - 1" using True word_order.extremum_strict by auto
      ultimately show ?thesis using True unfolding step by simp
    next
      case False
      have "m \<le> ?cnt i" if "i < Suc n" "?ok i" for i
        using that IH False by (cases "i = n") (auto simp: not_less)
      moreover have "case fi of None \<Rightarrow> m = - 1 | Some j \<Rightarrow> j < Suc n \<and> ?ok j \<and> ?cnt j \<noteq> - 1 \<and> m = ?cnt j"
        using IH by (auto split: option.splits)
      moreover have e: "fold ?f [0..<Suc n] (- 1, None) = (m, fi)" using False step by auto
      ultimately show ?thesis unfolding e fst_conv snd_conv by blast
    qed
  qed
  obtain m fi where f: "fold ?f [0..<ways] (- 1, None) = (m, fi)" by fastforce
  have P: "?P ways m fi" using inv [of ways] unfolding f fst_conv snd_conv .
  have e: "min_count_line ok lines base ways = fi"
    unfolding min_count_line_def f snd_conv ..
  show ?thesis
  proof (cases fi)
    case None
    with P have m: "m = - 1" by simp
    from P have "\<forall>i<ways. ?ok i \<longrightarrow> - 1 \<le> ?cnt i" unfolding m by blast
    then have "?cnt i = - 1" if "i < ways" "?ok i" for i
      using that word_order.extremum_unique by blast
    then show ?thesis unfolding e using None by simp
  next
    case (Some j)
    with P have j: "j < ways" "?ok j" "?cnt j \<noteq> - 1" and m: "m = ?cnt j" by simp_all
    from P have "\<forall>i<ways. ?ok i \<longrightarrow> ?cnt j \<le> ?cnt i" unfolding m by blast
    with j show ?thesis unfolding e Some by simp
  qed
qed

lemma min_count_line_Some:
  "min_count_line ok lines base ways = Some j \<Longrightarrow> j < ways \<and> ok (lines ! (base + j)) \<and> l_count (lines ! (base + j)) \<noteq> - 1
     \<and> (\<forall>i<ways. ok (lines ! (base + i)) \<longrightarrow> l_count (lines ! (base + j)) \<le> l_count (lines ! (base + i)))"
  using min_count_line_spec [where ok = ok and lines = lines and base = base and ways = ways] by simp

lemma min_count_line_None:
  "min_count_line ok lines base ways = None \<Longrightarrow> i < ways \<Longrightarrow> ok (lines ! (base + i))
     \<Longrightarrow> l_count (lines ! (base + i)) = - 1"
  using min_count_line_spec [where ok = ok and lines = lines and base = base and ways = ways] by simp

text \<open>The states that the search for a line can leave: nothing but the write-back traffic and the
  dirty bit of the chosen line changes.\<close>

definition lines_same :: "cache \<Rightarrow> cache \<Rightarrow> bool" where
  "lines_same c c' \<longleftrightarrow> cache_dims c' = cache_dims c \<and> tick_count c' = tick_count c
     \<and> mshrs c' = mshrs c \<and> ackQueue c' = ackQueue c \<and> ackBankConflict c' = ackBankConflict c
     \<and> (\<forall>l i a. line_holds c' l i a = line_holds c l i a)
     \<and> (\<forall>l i. flagged CACHE_FLAG_VALID (caches c' ! l ! i) = flagged CACHE_FLAG_VALID (caches c ! l ! i))"

lemma lines_same_refl [simp]: "lines_same c c"
  by (simp add: lines_same_def)

lemma lines_same_trans: "lines_same a b \<Longrightarrow> lines_same b c \<Longrightarrow> lines_same a c"
  by (simp add: lines_same_def)

lemma sendReq2CacheBank_same: "lines_same c (snd (sendReq2CacheBank r l c))"
  by (auto simp: lines_same_def sendReq2CacheBank_def Let_def cache_dims_def line_holds_def)

lemma sendReq2reqQueue2Mem_same: "lines_same c (snd (sendReq2reqQueue2Mem g r c))"
  by (auto simp: lines_same_def sendReq2reqQueue2Mem_def cache_dims_def line_holds_def)

lemma writeBack_same: "lines_same c (snd (writeBackDirtyCacheline g t i l c))"
  by (simp add: writeBackDirtyCacheline_def Let_def sendReq2CacheBank_same sendReq2reqQueue2Mem_same)

lemma clear_dirty_same:
  "lines_same c (upd_line level idx (\<lambda>l. l\<lparr>l_flag := l_flag l AND NOT CACHE_FLAG_DIRTY\<rparr>)
     (c\<lparr>cache_w_memory_count := n\<rparr>))"
  by (auto simp: lines_same_def cache_dims_def line_holds_def upd2_nth2)

lemma set_dirty_same:
  "lines_same c (upd_line level idx (\<lambda>l. l\<lparr>l_flag := l_flag l OR CACHE_FLAG_DIRTY\<rparr>) c)"
  by (auto simp: lines_same_def cache_dims_def line_holds_def upd2_nth2)

text \<open>The line that is found lies in the set; it is a free line if there is one.\<close>

lemma get_cache_free_line_spec:
  assumes "get_cache_free_line g base level c = (r, c')"
    "0 < cache_mapping_ways (geo c) ! level"
  shows "lines_same c c' \<and> (case r of None \<Rightarrow>
            (\<forall>i < cache_mapping_ways (geo c) ! level. flagged CACHE_FLAG_VALID (caches c ! level ! (base + i)))
      | Some idx \<Rightarrow> base \<le> idx \<and> idx < base + cache_mapping_ways (geo c) ! level
          \<and> ((\<exists>i < cache_mapping_ways (geo c) ! level. \<not> flagged CACHE_FLAG_VALID (caches c ! level ! (base + i)))
               \<longrightarrow> \<not> flagged CACHE_FLAG_VALID (caches c ! level ! idx)))"
proof -
  let ?ways = "cache_mapping_ways (geo c) ! level" and ?lines = "caches c ! level"
  let ?free = "first_index (\<lambda>i. \<not> flagged CACHE_FLAG_VALID (?lines ! (base + i))) [0..<?ways]"
  show ?thesis
  proof (cases ?free)
    case (Some i)
    then have "r = Some (base + i)" "c' = c"
      using assms(1) by (simp_all add: get_cache_free_line_def Let_def)
    moreover have "i < ?ways" using first_index_less [OF Some] by simp
    moreover have "\<not> flagged CACHE_FLAG_VALID (?lines ! (base + i))"
      using first_index_sat [OF Some] \<open>i < ?ways\<close> by simp
    ultimately show ?thesis by simp
  next
    case None
    then have full: "\<forall>i<?ways. flagged CACHE_FLAG_VALID (?lines ! (base + i))"
      by (simp add: first_index_None)
    define pick where "pick = (case swap_style (geo c) ! level of
          CACHE_SWAP_RAND \<Rightarrow>
            (case rands c of [] \<Rightarrow> (Some 0, c) | r # rs \<Rightarrow> (Some (r mod ?ways), c\<lparr>rands := rs\<rparr>))
        | CACHE_SWAP_LRU \<Rightarrow> (min_count_line (\<lambda>l. \<not> flagged CACHE_FLAG_LOCK l) ?lines base ?ways, c)
        | CACHE_SWAP_FIFO \<Rightarrow> (min_count_line (\<lambda>l. \<not> flagged CACHE_FLAG_LOCK l) ?lines base ?ways, c)
        | CACHE_SWAP_MAX \<Rightarrow> (None, c))"
    obtain fi c1 where p: "pick = (fi, c1)" by fastforce
    have c1: "lines_same c c1" "\<And>j. fi = Some j \<Longrightarrow> j < ?ways"
      using p assms(2) unfolding pick_def
      by (auto split: cache_swap_style.splits list.splits dest!: min_count_line_Some
          simp: lines_same_def cache_dims_def line_holds_def)
    define fi' where "fi' = (case fi of Some j \<Rightarrow> Some j
                              | None \<Rightarrow> min_count_line (\<lambda>_. True) ?lines base ?ways)"
    have fi': "j < ?ways" if "fi' = Some j" for j
      using that c1(2) unfolding fi'_def by (auto split: option.splits dest!: min_count_line_Some)
    have "lines_same c c' \<and> (case r of None \<Rightarrow> True | Some idx \<Rightarrow> base \<le> idx \<and> idx < base + ?ways)"
    proof (cases fi')
      case None': None
      have "(r, c') = (None, c1)"
        using assms(1) None None' p unfolding get_cache_free_line_def Let_def pick_def [symmetric]
        by (simp add: fi'_def split: option.splits)
      with c1 show ?thesis by simp
    next
      case (Some j)
      let ?idx = "j + base"
      let ?wb = "writeBackDirtyCacheline g (l_tag (?lines ! ?idx)) ?idx level c1"
      have res: "(r, c') = (if write_strategy (geo c1) ! level = WRITE_BACK
            \<and> flagged CACHE_FLAG_DIRTY (?lines ! ?idx)
          then (case ?wb of
               (True, c) \<Rightarrow> (Some ?idx, upd_line level ?idx (\<lambda>l. l\<lparr>l_flag := l_flag l AND NOT CACHE_FLAG_DIRTY\<rparr>)
                    (c\<lparr>cache_w_memory_count := cache_w_memory_count c + 1\<rparr>))
             | (False, c) \<Rightarrow> (None, c))
          else (Some ?idx, c1))"
        using assms(1) None Some p unfolding get_cache_free_line_def Let_def pick_def [symmetric]
        by (simp add: fi'_def split: option.splits)
      obtain b c2 where wb: "?wb = (b, c2)" by fastforce
      have "lines_same c1 c2"
        using writeBack_same [of c1 g "l_tag (?lines ! ?idx)" ?idx level] wb by simp
      then have "lines_same c c2" using c1(1) lines_same_trans by blast
      then have "lines_same c c'" "r = None \<or> r = Some ?idx"
        using res c1(1) wb lines_same_trans [OF _ clear_dirty_same]
        by (auto split: if_splits bool.splits)
      with fi' [OF Some] show ?thesis by auto
    qed
    with full show ?thesis by (auto split: option.splits)
  qed
qed

section \<open>Bringing a block in\<close>

lemma same_set_line:
  assumes "set_base_of g a l + i = set_base_of g b l + j"
    "i < cache_mapping_ways g ! l" "j < cache_mapping_ways g ! l" "0 < cache_mapping_ways g ! l"
  shows "getCacheSetIndex g a l = getCacheSetIndex g b l"
proof -
  have "(set_base_of g a l + i) div (cache_mapping_ways g ! l) = getCacheSetIndex g a l"
    "(set_base_of g b l + j) div (cache_mapping_ways g ! l) = getCacheSetIndex g b l"
    using assms(2-) by (simp_all add: set_base_of_def)
  with assms(1) show ?thesis by simp
qed

lemma set_cache_line_resident:
  assumes "cache_wf L c" "level < L" "set_base_of (geo c) addr level \<le> idx"
    "idx < set_base_of (geo c) addr level + cache_mapping_ways (geo c) ! level"
  shows "level < length (caches c)" "idx < length (caches c ! level)"
    "resident (set_cache_line idx addr level c) level addr"
proof -
  obtain j where j: "idx = set_base_of (geo c) addr level + j" "j < cache_mapping_ways (geo c) ! level"
    using assms(3,4) by (metis add_less_cancel_left le_iff_add)
  show len: "level < length (caches c)" "idx < length (caches c ! level)"
    using assms(1,2) set_line_index [OF assms(1,2), of j addr] j by (simp_all add: cache_wf_def)
  show "resident (set_cache_line idx addr level c) level addr"
    unfolding resident_iff line_holds_set_cache_line [OF len] using j by auto
qed

lemma setCacheBlock_resident:
  assumes "cache_wf L c" "level < L" "setCacheBlock g addr level c = (True, c')"
  shows "resident c' level addr"
proof (cases "resident c level addr")
  case True
  with assms(3) show ?thesis by (auto simp: setCacheBlock_def Let_def resident_def)
next
  case False
  with assms(3) obtain idx c1 where
    f: "get_cache_free_line g (set_base_of (geo c) addr level) level c = (Some idx, c1)"
    and c': "c' = set_cache_line idx addr level c1"
    by (auto simp: setCacheBlock_def Let_def resident_def split: option.splits prod.splits)
  have "0 < cache_mapping_ways (geo c) ! level"
    using assms(1,2) by (auto simp: cache_wf_def intro: geo_wfD)
  note spec = get_cache_free_line_spec [OF f this]
  then have "cache_dims c1 = cache_dims c" "geo c1 = geo c" by (simp_all add: lines_same_def cache_dims_def)
  with spec assms(1,2) show ?thesis
    unfolding c' by (intro set_cache_line_resident(3) [of L]) (simp_all add: cache_wf_cong [of c1 c L])
qed

lemma setCacheBlock_mshrs:
  assumes "cache_wf L c" "level < L" "setCacheBlock g addr level c = (ok, c')"
  shows "mshrs c' = mshrs c"
proof -
  have ways: "0 < cache_mapping_ways (geo c) ! level"
    using assms(1,2) by (auto simp: cache_wf_def intro: geo_wfD)
  show ?thesis
    using assms(3) get_cache_free_line_spec [OF _ ways]
    by (auto simp: setCacheBlock_def Let_def lines_same_def split: option.splits prod.splits if_splits)
qed

text \<open>C12: bringing a block into a level. When \<open>setCacheBlock\<close> reports success, the block is resident
  afterwards; blocks that become resident are only this one; at most one block loses its place,
  it is a block of the same set, and none does while the set has a free line; the other levels
  keep what they hold. When it reports failure, residency is unchanged.\<close>

theorem setCacheBlock_residency:
  assumes "cache_wf L c" "level < L" "setCacheBlock g addr level c = (ok, c')"
  shows "(ok \<longrightarrow> resident c' level addr)
    \<and> (\<forall>a. resident c' level a \<longrightarrow> resident c level a
            \<or> (ok \<and> getCacheBlockId (geo c) a level = getCacheBlockId (geo c) addr level))
    \<and> (\<exists>v. \<forall>a. resident c level a \<and> \<not> resident c' level a \<longrightarrow>
            ok \<and> getCacheBlockId (geo c) a level = v
            \<and> getCacheSetIndex (geo c) a level = getCacheSetIndex (geo c) addr level
            \<and> (\<forall>i < cache_mapping_ways (geo c) ! level.
                  flagged CACHE_FLAG_VALID (caches c ! level ! (set_base_of (geo c) addr level + i))))
    \<and> (\<forall>l a. l \<noteq> level \<longrightarrow> resident c' l a = resident c l a)"
proof (cases "resident c level addr")
  case True
  then have "c' = c" "ok" using assms(3) by (auto simp: setCacheBlock_def Let_def resident_def)
  with True show ?thesis by blast
next
  case False
  let ?base = "set_base_of (geo c) addr level" and ?ways = "cache_mapping_ways (geo c) ! level"
  have wf: "geo_wf L (geo c)" using assms(1) by (simp add: cache_wf_def)
  note ways = geo_wfD(1) [OF wf assms(2)]
  obtain r c1 where f: "get_cache_free_line g ?base level c = (r, c1)" by fastforce
  note spec = get_cache_free_line_spec [OF f ways]
  then have same: "lines_same c c1" by simp
  then have g1: "geo c1 = geo c" and h1: "\<And>l i a. line_holds c1 l i a = line_holds c l i a"
    by (simp_all add: lines_same_def cache_dims_def)
  have r1: "resident c1 l a = resident c l a" for l a
    by (rule resident_cong [OF g1 h1])
  have eq: "(ok, c') = (case r of Some i \<Rightarrow> (True, set_cache_line i addr level c1) | None \<Rightarrow> (False, c1))"
    using assms(3) False f by (auto simp: setCacheBlock_def Let_def resident_def split: option.splits)
  show ?thesis
  proof (cases r)
    case None
    with eq r1 show ?thesis by auto
  next
    case (Some idx)
    with eq have ok: "ok" and c': "c' = set_cache_line idx addr level c1" by simp_all
    from spec Some have idx: "?base \<le> idx" "idx < ?base + ?ways"
      and free: "(\<exists>i<?ways. \<not> flagged CACHE_FLAG_VALID (caches c ! level ! (?base + i)))
               \<longrightarrow> \<not> flagged CACHE_FLAG_VALID (caches c ! level ! idx)" by simp_all
    then obtain j where j: "idx = ?base + j" "j < ?ways"
      by (metis add_less_cancel_left le_iff_add)
    have wf1: "cache_wf L c1"
      using same assms(1) cache_wf_cong [of c1 c L] by (simp add: lines_same_def)
    note fill = set_cache_line_resident [OF wf1 assms(2), of addr idx]
    have len: "level < length (caches c1)" "idx < length (caches c1 ! level)"
      using fill(1,2) idx g1 by simp_all
    have g': "geo c' = geo c" by (simp add: c' g1)
    have h': "line_holds c' l i a = (if l = level \<and> i = idx
        then getCacheTag (geo c) addr level = getCacheTag (geo c) a level else line_holds c l i a)" for l i a
      unfolding c' line_holds_set_cache_line [OF len] h1 g1 ..
    have in': "resident c' level addr" using fill(3) idx g1 c' by simp
    have new: "resident c level a \<or> getCacheBlockId (geo c) a level = getCacheBlockId (geo c) addr level"
      if "resident c' level a" for a
    proof -
      from that obtain i where i: "i < ?ways" "line_holds c' level (set_base_of (geo c) a level + i) a"
        by (auto simp: resident_iff g')
      show ?thesis
      proof (cases "set_base_of (geo c) a level + i = idx")
        case False
        with i show ?thesis by (auto simp: h' resident_iff)
      next
        case True
        with i(2) have tag: "getCacheTag (geo c) addr level = getCacheTag (geo c) a level"
          by (simp add: h')
        have "getCacheSetIndex (geo c) a level = getCacheSetIndex (geo c) addr level"
          using same_set_line [OF _ i(1) j(2) ways] True j(1) by simp
        with tag have "getCacheBlockId (geo c) a level = getCacheBlockId (geo c) addr level"
          using tag_set_block [OF wf assms(2), of a addr] by simp
        then show ?thesis by simp
      qed
    qed
    have line: "line_holds c level idx a" "getCacheSetIndex (geo c) a level = getCacheSetIndex (geo c) addr level"
      if "resident c level a" "\<not> resident c' level a" for a
    proof -
      from that(1) obtain i where i: "i < ?ways" "line_holds c level (set_base_of (geo c) a level + i) a"
        by (auto simp: resident_iff)
      with that(2) have e: "set_base_of (geo c) a level + i = idx"
        by (auto simp: resident_iff g' h' split: if_splits)
      with i show "line_holds c level idx a" by simp
      show "getCacheSetIndex (geo c) a level = getCacheSetIndex (geo c) addr level"
        using same_set_line [OF _ i(1) j(2) ways] e j(1) by simp
    qed
    have full: "\<forall>i<?ways. flagged CACHE_FLAG_VALID (caches c ! level ! (?base + i))"
      if "resident c level a" "\<not> resident c' level a" for a
      using free line(1) [OF that] by (auto simp: line_holds_def)
    have one: "getCacheBlockId (geo c) a level = getCacheBlockId (geo c) b level"
      if "resident c level a" "\<not> resident c' level a" "resident c level b" "\<not> resident c' level b" for a b
    proof (rule tag_set_block [OF wf assms(2)])
      show "getCacheTag (geo c) a level = getCacheTag (geo c) b level"
        using line(1) [OF that(1,2)] line(1) [OF that(3,4)] by (simp add: line_holds_def)
      show "getCacheSetIndex (geo c) a level = getCacheSetIndex (geo c) b level"
        using line(2) [OF that(1,2)] line(2) [OF that(3,4)] by simp
    qed
    then obtain v where v: "\<And>a. resident c level a \<Longrightarrow> \<not> resident c' level a
        \<Longrightarrow> getCacheBlockId (geo c) a level = v" by (metis (full_types))
    have other: "resident c' l a = resident c l a" if "l \<noteq> level" for l a
      using that by (intro resident_cong) (simp_all add: g' h')
    show ?thesis using ok in' new v line(2) full other by blast
  qed
qed

definition cache_demo :: cache where
  "cache_demo = (case cache_init cfg_demo [] of Inr c \<Rightarrow> c)"

definition cache_demo2 :: cache where
  "cache_demo2 = (case cache_init cfg_demo2 [] of Inr c \<Rightarrow> c)"

lemma cache_demo2_wf: "cache_wf 2 cache_demo2"
  by code_simp

lemma cache_demo_wf: "cache_wf 1 cache_demo"
  by code_simp

lemma cache_demo_fill: "fst (setCacheBlock cfg_demo 8 0 cache_demo)"
  by code_simp

theorem setCacheBlock_residency_witness: "resident (snd (setCacheBlock cfg_demo 8 0 cache_demo)) 0 8"
proof -
  obtain ok c' where s: "setCacheBlock cfg_demo 8 0 cache_demo = (ok, c')" by fastforce
  with cache_demo_fill have ok by simp
  then show ?thesis using setCacheBlock_residency [OF cache_demo_wf zero_less_one s] s by simp
qed

section \<open>The victim\<close>

text \<open>The line that is chosen for a new block. A line that holds nothing is taken if there is
  one. Otherwise, with least-recently-used or first-in-first-out replacement, the chosen line has the
  smallest count of the unlocked lines of the set; a locked line is evicted only when no unlocked
  line can be (they are all locked, or their counts are the largest value), and then it has the
  smallest count of all.\<close>

theorem victim_choice:
  assumes "get_cache_free_line g base level c = (Some idx, c')"
    "swap_style (geo c) ! level = CACHE_SWAP_LRU \<or> swap_style (geo c) ! level = CACHE_SWAP_FIFO"
  shows "let ways = cache_mapping_ways (geo c) ! level; line = (\<lambda>i. caches c ! level ! (base + i));
             free = (\<lambda>i. \<not> flagged CACHE_FLAG_VALID (line i));
             unlocked = (\<lambda>i. \<not> flagged CACHE_FLAG_LOCK (line i))
    in \<exists>k<ways. idx = base + k
        \<and> ((\<exists>i<ways. free i) \<longrightarrow> free k)
        \<and> ((\<forall>i<ways. \<not> free i) \<longrightarrow>
              (if \<exists>i<ways. unlocked i \<and> l_count (line i) \<noteq> - 1
               then unlocked k \<and> (\<forall>i<ways. unlocked i \<longrightarrow> l_count (line k) \<le> l_count (line i))
               else \<forall>i<ways. l_count (line k) \<le> l_count (line i)))"
proof -
  let ?ways = "cache_mapping_ways (geo c) ! level" and ?lines = "caches c ! level"
  let ?free = "first_index (\<lambda>i. \<not> flagged CACHE_FLAG_VALID (?lines ! (base + i))) [0..<?ways]"
  let ?min = "min_count_line (\<lambda>l. \<not> flagged CACHE_FLAG_LOCK l) ?lines base ?ways"
  let ?any = "min_count_line (\<lambda>_. True) ?lines base ?ways"
  show ?thesis
  proof (cases ?free)
    case (Some i)
    then have "idx = base + i" using assms(1) by (simp add: get_cache_free_line_def Let_def)
    moreover have "i < ?ways" using first_index_less [OF Some] by simp
    moreover have "\<not> flagged CACHE_FLAG_VALID (?lines ! (base + i))"
      using first_index_sat [OF Some] \<open>i < ?ways\<close> by simp
    ultimately show ?thesis unfolding Let_def by blast
  next
    case None
    then have full: "\<not> (\<exists>i<?ways. \<not> flagged CACHE_FLAG_VALID (?lines ! (base + i)))"
      by (simp add: first_index_None)
    from assms None have pick: "(case ?min of Some j \<Rightarrow> Some j | None \<Rightarrow> ?any) = Some (idx - base) \<and> base \<le> idx"
      by (auto simp: get_cache_free_line_def Let_def split: option.splits if_splits bool.splits prod.splits)
    show ?thesis
    proof (cases ?min)
      case (Some j)
      with pick have "idx = base + j" by auto
      with min_count_line_Some [OF Some] full show ?thesis
        unfolding Let_def by (intro exI [of _ j]) auto
    next
      case none: None
      with pick have any: "?any = Some (idx - base)" by simp
      have none': "\<not> (\<exists>i<?ways. \<not> flagged CACHE_FLAG_LOCK (?lines ! (base + i))
          \<and> l_count (?lines ! (base + i)) \<noteq> - 1)"
        using min_count_line_None [OF none] by blast
      from pick have "idx = base + (idx - base)" by simp
      with min_count_line_Some [OF any] full none' show ?thesis
        unfolding Let_def by (intro exI [of _ "idx - base"]) auto
    qed
  qed
qed

text \<open>One set of the small cache filled with two blocks.\<close>

definition cache_demo_full :: cache where
  "cache_demo_full = set_cache_line 1 32 0 (set_cache_line 0 0 0 cache_demo)"

theorem victim_choice_witness:
  "fst (get_cache_free_line cfg_demo 0 0 cache_demo_full) = Some 0
   \<and> l_count (caches cache_demo_full ! 0 ! 0) \<le> l_count (caches cache_demo_full ! 0 ! 1)"
proof -
  obtain r c' where g: "get_cache_free_line cfg_demo 0 0 cache_demo_full = (r, c')" by fastforce
  have r: "fst (get_cache_free_line cfg_demo 0 0 cache_demo_full) = Some 0" by code_simp
  with g have s: "get_cache_free_line cfg_demo 0 0 cache_demo_full = (Some 0, c')" by simp
  have lru: "swap_style (geo cache_demo_full) ! 0 = CACHE_SWAP_LRU" by code_simp
  have ways: "cache_mapping_ways (geo cache_demo_full) ! 0 = 2" by code_simp
  have full: "\<forall>i<2. flagged CACHE_FLAG_VALID (caches cache_demo_full ! 0 ! i)" by code_simp
  have un: "\<not> flagged CACHE_FLAG_LOCK (caches cache_demo_full ! 0 ! 0)
      \<and> l_count (caches cache_demo_full ! 0 ! 0) \<noteq> - 1
      \<and> (\<forall>i<2. \<not> flagged CACHE_FLAG_LOCK (caches cache_demo_full ! 0 ! i))" by code_simp
  have ex: "\<exists>i<2. \<not> flagged CACHE_FLAG_LOCK (caches cache_demo_full ! 0 ! i)
      \<and> l_count (caches cache_demo_full ! 0 ! i) \<noteq> - 1"
    using un by (intro exI [of _ 0]) simp
  obtain k where k: "0 = k" "\<forall>i<2. \<not> flagged CACHE_FLAG_LOCK (caches cache_demo_full ! 0 ! i)
      \<longrightarrow> l_count (caches cache_demo_full ! 0 ! k) \<le> l_count (caches cache_demo_full ! 0 ! i)"
    using victim_choice [OF s disjI1 [OF lru]] full ex
    unfolding Let_def ways add_0 by (simp only: if_True simp_thms) (elim exE conjE, simp)
  with r un show ?thesis by simp
qed

end
