(* ===== verification/CacheWriteBack.thy ===== *)
theory CacheWriteBack
  imports CacheLines
begin

text \<open>
  Fills and write-backs: the request that writing back a dirty line sends and its address, the
  completion of a memory access at the last level, the fill of an upper level by an acknowledgement,
  and what look-ups change of the replacement state.
\<close>

unbundle bit_operations_syntax

section \<open>The address of a write-back\<close>

lemma bit_u64: "bit (a :: u64) n \<Longrightarrow> n < 64"
  using bit_imp_le_length [of a n] by simp

lemma writeBack_set_bits:
  fixes t x :: u64
  assumes "ss + ls < 64"
  shows "take_bit ss (drop_bit ls (push_bit (ss + ls) t OR push_bit ls x)) = take_bit ss x"
  using assms by (intro bit_word_eqI) (auto simp: bit_simps)

lemma writeBack_block_bits:
  fixes a :: u64
  assumes "ss + ls < 64"
  shows "drop_bit ls (push_bit (ss + ls) (drop_bit (ss + ls) a) OR push_bit ls (take_bit ss (drop_bit ls a)))
    = drop_bit ls a"
  using assms by (intro bit_word_eqI) (auto simp: bit_simps add.commute dest: bit_u64)

lemma unat_take_bit_mod: "unat (take_bit n (x :: u64)) = unat x mod 2 ^ n"
  by (simp only: unsigned_take_bit_eq) (simp only: take_bit_eq_mod)

lemma take_bit_unat: "take_bit n (x :: u64) = of_nat (unat x mod 2 ^ n)"
  unfolding unat_take_bit_mod [symmetric] by simp

lemma word_eq_bits: "(v :: u64) = w \<longleftrightarrow> (\<forall>n. bit v n \<longleftrightarrow> bit w n)"
  by (auto intro: bit_eqI)

lemma writeBack_block:
  fixes a x :: u64
  assumes "ss + ls < 64" "take_bit (64 - ls) x = x"
  shows "drop_bit ls (push_bit (ss + ls) (drop_bit (ss + ls) a) OR push_bit ls x) = drop_bit ls a
    \<longleftrightarrow> take_bit ss x = take_bit ss (drop_bit ls a) \<and> drop_bit ss x OR drop_bit (ss + ls) a = drop_bit (ss + ls) a"
proof -
  let ?t = "drop_bit (ss + ls) a"
  have l: "bit (drop_bit ls (push_bit (ss + ls) ?t OR push_bit ls x)) n \<longleftrightarrow> (ss \<le> n \<and> bit ?t (n - ss)) \<or> bit x n" for n
  proof -
    have "bit x n \<Longrightarrow> n < 64 - ls" using assms(2) by (metis bit_take_bit_iff)
    then show ?thesis using assms(1) by (auto simp: bit_simps add.commute dest: bit_u64)
  qed
  have r: "bit (drop_bit ls a) n \<longleftrightarrow> (if ss \<le> n then bit ?t (n - ss) else bit (take_bit ss (drop_bit ls a)) n)" for n
    by (auto simp: bit_simps add.commute add.left_commute)
  have "drop_bit ls (push_bit (ss + ls) ?t OR push_bit ls x) = drop_bit ls a
      \<longleftrightarrow> (\<forall>n. (ss \<le> n \<and> bit ?t (n - ss)) \<or> bit x n \<longleftrightarrow> (if ss \<le> n then bit ?t (n - ss) else bit (take_bit ss (drop_bit ls a)) n))"
    unfolding l [symmetric] r [symmetric] by (auto intro: bit_eqI)
  also have "\<dots> \<longleftrightarrow> (\<forall>n. n < ss \<longrightarrow> (bit x n \<longleftrightarrow> bit (take_bit ss (drop_bit ls a)) n)) \<and> (\<forall>n. bit x (n + ss) \<longrightarrow> bit ?t n)"
  proof -
    have "(\<forall>n. (ss \<le> n \<and> T (n - ss)) \<or> X n \<longleftrightarrow> (if ss \<le> n then T (n - ss) else B n))
        \<longleftrightarrow> (\<forall>n. n < ss \<longrightarrow> (X n \<longleftrightarrow> B n)) \<and> (\<forall>n. ss \<le> n \<longrightarrow> X n \<longrightarrow> T (n - ss))" for T X B
    proof -
      have "((ss \<le> n \<and> T (n - ss)) \<or> X n \<longleftrightarrow> (if ss \<le> n then T (n - ss) else B n))
        \<longleftrightarrow> (n < ss \<longrightarrow> (X n \<longleftrightarrow> B n)) \<and> (ss \<le> n \<longrightarrow> X n \<longrightarrow> T (n - ss))" for n
        by (cases "ss \<le> n") auto
      then show ?thesis by blast
    qed
    moreover have "(\<forall>n. ss \<le> n \<longrightarrow> X n \<longrightarrow> T (n - ss)) \<longleftrightarrow> (\<forall>n. X (n + ss) \<longrightarrow> T n)" for T X
      by (metis add_diff_cancel_right' le_add2 le_add_diff_inverse2)
    ultimately show ?thesis by simp
  qed
  also have "(\<forall>n. n < ss \<longrightarrow> (bit x n \<longleftrightarrow> bit (take_bit ss (drop_bit ls a)) n)) \<longleftrightarrow> take_bit ss x = take_bit ss (drop_bit ls a)"
    unfolding word_eq_bits [of "take_bit ss x"] by (auto simp: bit_take_bit_iff)
  also have "(\<forall>n. bit x (n + ss) \<longrightarrow> bit ?t n) \<longleftrightarrow> drop_bit ss x OR ?t = ?t"
    unfolding word_eq_bits [of "drop_bit ss x OR ?t"] by (auto simp: bit_or_iff bit_drop_bit_eq add.commute)
  finally show ?thesis .
qed

section \<open>What reaches the memory\<close>

text \<open>The choice of the line that is given up in a full set; with the two policies that look at the counts it is the oldest
  one that is not locked, or the oldest one if all that have a count are locked.\<close>

definition victim :: "nat \<Rightarrow> nat \<Rightarrow> cache \<Rightarrow> nat option" where
  "victim base level c = (let lines = caches c ! level; ways = cache_mapping_ways (geo c) ! level in
     case min_count_line (\<lambda>l. \<not> flagged CACHE_FLAG_LOCK l) lines base ways of
       Some j \<Rightarrow> Some j | None \<Rightarrow> min_count_line (\<lambda>_. True) lines base ways)"

definition chosen :: "nat \<Rightarrow> nat \<Rightarrow> cache \<Rightarrow> nat option \<times> cache" where
  "chosen base level c = (let lines = caches c ! level; ways = cache_mapping_ways (geo c) ! level;
     (free_index, c) = (case swap_style (geo c) ! level of
          CACHE_SWAP_RAND \<Rightarrow> (case rands c of [] \<Rightarrow> (Some 0, c) | r # rs \<Rightarrow> (Some (r mod ways), c\<lparr>rands := rs\<rparr>))
        | CACHE_SWAP_LRU \<Rightarrow> (min_count_line (\<lambda>l. \<not> flagged CACHE_FLAG_LOCK l) lines base ways, c)
        | CACHE_SWAP_FIFO \<Rightarrow> (min_count_line (\<lambda>l. \<not> flagged CACHE_FLAG_LOCK l) lines base ways, c)
        | CACHE_SWAP_MAX \<Rightarrow> (None, c)) in
     (case free_index of Some j \<Rightarrow> Some j | None \<Rightarrow> min_count_line (\<lambda>_. True) lines base ways, c))"

definition give_up :: "config \<Rightarrow> nat \<Rightarrow> nat \<Rightarrow> cache \<Rightarrow> nat option \<times> cache" where
  "give_up g idx level c = (if write_strategy (geo c) ! level = WRITE_BACK \<and> flagged CACHE_FLAG_DIRTY (caches c ! level ! idx)
     then (case writeBackDirtyCacheline g (l_tag (caches c ! level ! idx)) idx level c of
             (True, c) \<Rightarrow> (Some idx, upd_line level idx (\<lambda>l. l\<lparr>l_flag := l_flag l AND NOT CACHE_FLAG_DIRTY\<rparr>)
                            (c\<lparr>cache_w_memory_count := cache_w_memory_count c + 1\<rparr>))
           | (False, c) \<Rightarrow> (None, c))
     else (Some idx, c))"

lemma chosen_same: "chosen base level c = (r, c1) \<Longrightarrow> caches c1 = caches c \<and> geo c1 = geo c \<and> reqQueue2Mem c1 = reqQueue2Mem c"
  by (auto simp: chosen_def Let_def split: cache_swap_style.splits list.splits)

lemma chosen_victim:
  "swap_style (geo c) ! level = CACHE_SWAP_LRU \<or> swap_style (geo c) ! level = CACHE_SWAP_FIFO \<Longrightarrow> chosen base level c = (victim base level c, c)"
  by (auto simp: chosen_def victim_def Let_def)

lemma get_cache_free_line_eq:
  "get_cache_free_line g base level c =
     (case first_index (\<lambda>i. \<not> flagged CACHE_FLAG_VALID (caches c ! level ! (base + i))) [0..<cache_mapping_ways (geo c) ! level] of
        Some i \<Rightarrow> (Some (base + i), c)
      | None \<Rightarrow> (case chosen base level c of (None, c) \<Rightarrow> (None, c) | (Some j, c) \<Rightarrow> give_up g (j + base) level c))"
proof (cases "first_index (\<lambda>i. \<not> flagged CACHE_FLAG_VALID (caches c ! level ! (base + i))) [0..<cache_mapping_ways (geo c) ! level]")
  case None
  obtain r c1 where ch: "chosen base level c = (r, c1)" by fastforce
  note same = chosen_same [OF ch]
  have "get_cache_free_line g base level c = (case chosen base level c of (None, c') \<Rightarrow> (None, c')
      | (Some j, c') \<Rightarrow> (let idx = j + base in
               if write_strategy (geo c') ! level = WRITE_BACK \<and> flagged CACHE_FLAG_DIRTY (caches c ! level ! idx)
               then (case writeBackDirtyCacheline g (l_tag (caches c ! level ! idx)) idx level c' of
                       (True, c) \<Rightarrow>
                         (Some idx, upd_line level idx (\<lambda>l. l\<lparr>l_flag := l_flag l AND NOT CACHE_FLAG_DIRTY\<rparr>)
                            (c\<lparr>cache_w_memory_count := cache_w_memory_count c + 1\<rparr>))
                     | (False, c) \<Rightarrow> (None, c))
               else (Some idx, c')))"
    unfolding get_cache_free_line_def chosen_def Let_def None option.case by (simp only: split_def fst_conv snd_conv)
  then show ?thesis using same by (simp add: None ch give_up_def Let_def split: option.split)
qed (simp add: get_cache_free_line_def)

lemma writeBack_llc:
  assumes "\<not> level < cache_max_level g - 1" "writeBackDirtyCacheline g tag idx level c = (ok, c')"
  shows "(ok \<longleftrightarrow> length (reqQueue2Mem c) < req_queue_to_mem_size g)
    \<and> (\<not> ok \<longrightarrow> c' = c)
    \<and> (ok \<longrightarrow> (\<exists>r. c' = c\<lparr>reqQueue2Mem := reqQueue2Mem c @ [r]\<rparr> \<and> m_valid r
          \<and> m_addr r = writeBack_addr (geo c) tag idx level \<and> \<not> m_isWrite r))"
  using assms
  by (auto simp: writeBackDirtyCacheline_def Let_def sendReq2reqQueue2Mem_def transCacheReq2MemReq_def
      memReq0_def cacheReq0_def split: if_splits)

text \<open>Writing back a line of the last level appends one request with the computed address to the
  queue to the memory when it has room, and reports failure with the cache unchanged when it has
  none. The request that is queued is not marked as a write: the memory sees a read.\<close>

theorem writeBack_last_level:
  assumes "\<not> level < cache_max_level g - 1" "writeBackDirtyCacheline g tag idx level c = (ok, c')"
  shows "(ok \<longleftrightarrow> length (reqQueue2Mem c) < req_queue_to_mem_size g)
    \<and> (\<not> ok \<longrightarrow> c' = c)
    \<and> (ok \<longrightarrow> (\<exists>r. c' = c\<lparr>reqQueue2Mem := reqQueue2Mem c @ [r]\<rparr> \<and> m_valid r
          \<and> m_addr r = writeBack_addr (geo c) tag idx level \<and> \<not> m_isWrite r))"
  using assms by (rule writeBack_llc)

theorem writeBack_last_level_witness:
  "\<exists>r. reqQueue2Mem (snd (writeBackDirtyCacheline (cfg_demo\<lparr>req_queue_to_mem_size := 3\<rparr>) 1 0 0 cache_demo))
     = reqQueue2Mem cache_demo @ [r] \<and> \<not> m_isWrite r"
proof -
  let ?g = "cfg_demo\<lparr>req_queue_to_mem_size := 3\<rparr>"
  obtain ok c' where w: "writeBackDirtyCacheline ?g 1 0 0 cache_demo = (ok, c')" by fastforce
  have l: "\<not> 0 < cache_max_level ?g - 1" by code_simp
  have "length (reqQueue2Mem cache_demo) < req_queue_to_mem_size ?g" by code_simp
  with writeBack_last_level [OF l w] obtain r where
    "c' = cache_demo\<lparr>reqQueue2Mem := reqQueue2Mem cache_demo @ [r]\<rparr>" "\<not> m_isWrite r" by blast
  with w show ?thesis by (intro exI [of _ r]) simp
qed

lemma get_cache_free_line_sends:
  assumes "get_cache_free_line g base level c = (Some i, c')" "reqQueue2Mem c' \<noteq> reqQueue2Mem c"
  shows "\<exists>c1 c2. reqQueue2Mem c1 = reqQueue2Mem c \<and> geo c1 = geo c
    \<and> writeBackDirtyCacheline g (l_tag (caches c ! level ! i)) i level c1 = (True, c2) \<and> reqQueue2Mem c' = reqQueue2Mem c2"
proof -
  obtain j c1 where c1: "chosen base level c = (Some j, c1)" "give_up g (j + base) level c1 = (Some i, c')"
    using assms by (auto simp: get_cache_free_line_eq split: option.splits prod.splits)
  note same = chosen_same [OF c1(1)]
  have "\<exists>c2. i = j + base \<and> writeBackDirtyCacheline g (l_tag (caches c1 ! level ! i)) i level c1 = (True, c2) \<and> reqQueue2Mem c' = reqQueue2Mem c2"
    using c1(2) assms(2) same by (auto simp: give_up_def split: if_splits prod.splits bool.splits)
  then obtain c2 where "writeBackDirtyCacheline g (l_tag (caches c ! level ! i)) i level c1 = (True, c2)" "reqQueue2Mem c' = reqQueue2Mem c2"
    using same by auto
  then show ?thesis using same by (intro exI [of _ c1] exI [of _ c2]) simp
qed

text \<open>C13: a dirty line of the last level that is given up for another block. The line with the number \<open>i\<close> holds the block of the
  address \<open>a\<close>. The request that is queued names the block with the tag of \<open>a\<close> and, where the index of the set is meant,
  the number of the line; this is the block of \<open>a\<close> exactly if the number of the line agrees with that of the block in the bits of
  a set index, and has above them only bits of the tag. In particular, with a power-of-two number
  of sets the request lies in the set \<open>i mod sets\<close>, and another block is written back whenever this is not the set of the line.\<close>

theorem writeBack_address:
  fixes c :: cache and level :: nat
  defines "ss \<equiv> cache_set_shifts (geo c) ! level" and "ls \<equiv> cache_line_shifts (geo c) ! level" and "sets \<equiv> cache_set_size (geo c) ! level"
  assumes "\<not> level < cache_max_level g - 1" "get_cache_free_line g base level c = (Some i, c')" "reqQueue2Mem c' \<noteq> reqQueue2Mem c"
    and "l_tag (caches c ! level ! i) = getCacheTag (geo c) a level" "ss + ls < 64" "i < 2 ^ (64 - ls)"
  shows "\<exists>r. reqQueue2Mem c' = reqQueue2Mem c @ [r] \<and> \<not> m_isWrite r
    \<and> m_addr r = writeBack_addr (geo c) (getCacheTag (geo c) a level) i level
    \<and> (getCacheBlockId (geo c) (m_addr r) level = getCacheBlockId (geo c) a level \<longleftrightarrow>
         take_bit ss (of_nat i) = take_bit ss (getCacheBlockId (geo c) a level)
         \<and> drop_bit ss (of_nat i) OR getCacheTag (geo c) a level = getCacheTag (geo c) a level)
    \<and> (sets = 2 ^ ss \<longrightarrow> getCacheSetIndex (geo c) (m_addr r) level = i mod sets
         \<and> (i mod sets \<noteq> getCacheSetIndex (geo c) a level \<longrightarrow> getCacheBlockId (geo c) (m_addr r) level \<noteq> getCacheBlockId (geo c) a level))"
proof -
  let ?adr = "writeBack_addr (geo c) (getCacheTag (geo c) a level) i level"
  obtain c1 c2 where c1: "reqQueue2Mem c1 = reqQueue2Mem c" "geo c1 = geo c" "reqQueue2Mem c' = reqQueue2Mem c2"
    "writeBackDirtyCacheline g (getCacheTag (geo c) a level) i level c1 = (True, c2)"
    using get_cache_free_line_sends [OF assms(5,6)] assms(7) by auto
  from writeBack_llc [OF assms(4) c1(4)] c1(1-3) obtain r where r: "reqQueue2Mem c' = reqQueue2Mem c @ [r]" "\<not> m_isWrite r" "m_addr r = ?adr"
    by auto
  have i64: "i < 2 ^ 64" using assms(9) by (meson diff_le_self less_le_trans one_le_numeral power_increasing)
  have ti: "take_bit (64 - ls) (of_nat i :: u64) = of_nat i"
  proof -
    have "unat (of_nat i :: u64) = i" using i64 by (simp add: unsigned_of_nat take_bit_nat_eq_self)
    then show ?thesis using assms(9) by (simp only: take_bit_unat mod_less)
  qed
  have b: "getCacheBlockId (geo c) ?adr level = getCacheBlockId (geo c) a level \<longleftrightarrow>
      take_bit ss (of_nat i) = take_bit ss (getCacheBlockId (geo c) a level)
      \<and> drop_bit ss (of_nat i) OR getCacheTag (geo c) a level = getCacheTag (geo c) a level"
    unfolding writeBack_addr_def getCacheBlockId_def getCacheTag_def
    using writeBack_block [OF assms(8) ti, of a] by (simp only: ss_def ls_def)
  have s: "getCacheSetIndex (geo c) ?adr level = i mod sets" if "sets = 2 ^ ss"
  proof -
    have "getCacheSetIndex (geo c) ?adr level = unat (take_bit ss (drop_bit ls ?adr))"
      by (simp only: getCacheSetIndex_def that [unfolded sets_def] unat_take_bit_mod flip: ls_def)
    also have "\<dots> = unat (take_bit ss (of_nat i :: u64))"
      unfolding writeBack_addr_def ss_def ls_def writeBack_set_bits [OF assms(8) [unfolded ss_def ls_def]] ..
    also have "\<dots> = i mod sets" using i64 by (simp add: unat_take_bit_mod that unsigned_of_nat take_bit_nat_eq_self)
    finally show ?thesis .
  qed
  have "getCacheBlockId (geo c) ?adr level \<noteq> getCacheBlockId (geo c) a level"
    if "sets = 2 ^ ss" "i mod sets \<noteq> getCacheSetIndex (geo c) a level"
    using s [OF that(1)] that(2) block_set by metis
  with r b s show ?thesis by (intro exI [of _ r]) simp
qed

text \<open>The second line of set 0 is dirty and the oldest one: its write-back names a block of set 1.\<close>

definition cache_demo_old :: cache where
  "cache_demo_old = upd_line 0 1 (\<lambda>l. l\<lparr>l_flag := 3\<rparr>) (upd_line 0 0 (\<lambda>l. l\<lparr>l_count := 5\<rparr>) cache_demo_full)"

theorem writeBack_address_witness:
  "\<exists>c' r. get_cache_free_line (cfg_demo\<lparr>req_queue_to_mem_size := 3\<rparr>) 0 0 cache_demo_old = (Some 1, c')
     \<and> reqQueue2Mem c' = reqQueue2Mem cache_demo_old @ [r] \<and> getCacheBlockId (geo cache_demo_old) (m_addr r) 0 \<noteq> getCacheBlockId (geo cache_demo_old) 32 0"
proof -
  let ?g = "cfg_demo\<lparr>req_queue_to_mem_size := 3\<rparr>" and ?c = "cache_demo_old"
  have l: "\<not> 0 < cache_max_level ?g - 1" by code_simp
  have f: "fst (get_cache_free_line ?g 0 0 ?c) = Some 1" by code_simp
  then obtain c' where g: "get_cache_free_line ?g 0 0 ?c = (Some 1, c')" by (cases "get_cache_free_line ?g 0 0 ?c") auto
  have "length (reqQueue2Mem (snd (get_cache_free_line ?g 0 0 ?c))) \<noteq> length (reqQueue2Mem ?c)" by code_simp
  then have q: "reqQueue2Mem c' \<noteq> reqQueue2Mem ?c" using g by auto
  have t: "l_tag (caches ?c ! 0 ! 1) = getCacheTag (geo ?c) 32 0" by code_simp
  have n: "cache_set_shifts (geo ?c) ! 0 + cache_line_shifts (geo ?c) ! 0 < 64"
    "cache_set_size (geo ?c) ! 0 = 2 ^ (cache_set_shifts (geo ?c) ! 0)" "1 mod (cache_set_size (geo ?c) ! 0) \<noteq> getCacheSetIndex (geo ?c) 32 0"
    by code_simp+
  from n(1) have p: "(1 :: nat) < 2 ^ (64 - cache_line_shifts (geo ?c) ! 0)" by (intro one_less_power) simp_all
  obtain r where "reqQueue2Mem c' = reqQueue2Mem ?c @ [r]" "getCacheBlockId (geo ?c) (m_addr r) 0 \<noteq> getCacheBlockId (geo ?c) 32 0"
    using writeBack_address [OF l g q t n(1) p] n(2,3) by (elim exE conjE) simp
  with g show ?thesis by (intro exI [of _ c'] exI [of _ r] conjI)
qed

text \<open>When no line of a set can be taken for a block of the last level.\<close>

definition no_line :: "config \<Rightarrow> nat \<Rightarrow> nat \<Rightarrow> cache \<Rightarrow> bool" where
  "no_line g base level c \<longleftrightarrow> (\<forall>i < cache_mapping_ways (geo c) ! level. flagged CACHE_FLAG_VALID (caches c ! level ! (base + i)))
     \<and> (case victim base level c of
          None \<Rightarrow> True
        | Some j \<Rightarrow> write_strategy (geo c) ! level = WRITE_BACK \<and> flagged CACHE_FLAG_DIRTY (caches c ! level ! (base + j))
            \<and> req_queue_to_mem_size g \<le> length (reqQueue2Mem c))"

lemma get_cache_free_line_None:
  assumes "\<not> level < cache_max_level g - 1"
    "swap_style (geo c) ! level = CACHE_SWAP_LRU \<or> swap_style (geo c) ! level = CACHE_SWAP_FIFO"
  shows "fst (get_cache_free_line g base level c) = None \<longleftrightarrow> no_line g base level c"
proof (cases "first_index (\<lambda>i. \<not> flagged CACHE_FLAG_VALID (caches c ! level ! (base + i))) [0..<cache_mapping_ways (geo c) ! level]")
  case (Some i)
  then have "\<not> flagged CACHE_FLAG_VALID (caches c ! level ! (base + i))" "i < cache_mapping_ways (geo c) ! level"
    using first_index_sat [OF Some] first_index_less [OF Some] by auto
  then show ?thesis by (auto simp: get_cache_free_line_eq Some no_line_def)
next
  case None
  have full: "\<forall>i < cache_mapping_ways (geo c) ! level. flagged CACHE_FLAG_VALID (caches c ! level ! (base + i))"
    using None by (simp add: first_index_None)
  have get: "get_cache_free_line g base level c = (case victim base level c of None \<Rightarrow> (None, c) | Some j \<Rightarrow> give_up g (j + base) level c)"
    by (simp add: get_cache_free_line_eq None chosen_victim [OF assms(2)] split: option.split)
  show ?thesis
  proof (cases "victim base level c")
    case None
    then show ?thesis using get full by (simp add: no_line_def)
  next
    case (Some j)
    obtain ok c1 where w: "writeBackDirtyCacheline g (l_tag (caches c ! level ! (j + base))) (j + base) level c = (ok, c1)" by fastforce
    have ok: "ok \<longleftrightarrow> length (reqQueue2Mem c) < req_queue_to_mem_size g" using writeBack_llc [OF assms(1) w] by blast
    have "fst (give_up g (j + base) level c) = None \<longleftrightarrow> write_strategy (geo c) ! level = WRITE_BACK
        \<and> flagged CACHE_FLAG_DIRTY (caches c ! level ! (j + base)) \<and> \<not> ok"
      by (cases ok) (auto simp: give_up_def w)
    then show ?thesis using get full ok Some by (auto simp: no_line_def add.commute)
  qed
qed

text \<open>The line given up has the smallest count: of those that are not locked and whose count is not the largest value,
  or of all whose count is not the largest value if there are none of the former.\<close>

lemma victim_oldest:
  "victim base level c = Some j \<Longrightarrow> j < cache_mapping_ways (geo c) ! level \<and> l_count (caches c ! level ! (base + j)) \<noteq> - 1
     \<and> (\<forall>i<cache_mapping_ways (geo c) ! level. \<not> flagged CACHE_FLAG_LOCK (caches c ! level ! (base + i)) \<longrightarrow>
          l_count (caches c ! level ! (base + j)) \<le> l_count (caches c ! level ! (base + i)))"
  "victim base level c = None \<Longrightarrow> i < cache_mapping_ways (geo c) ! level \<Longrightarrow> l_count (caches c ! level ! (base + i)) = - 1"
  by (auto simp: victim_def Let_def split: option.splits dest: min_count_line_Some min_count_line_None)

text \<open>C14: the completion of a memory access at the last level. Either the block is resident afterwards and
  every entry of the miss table that waits for it is ready; or the access is out of bounds. The latter happens exactly
  when the block is not resident, its set has no free line, and the line to give up is dirty while the queue to
  the memory has no room for its write-back (or there is no such line, since every count of the set has reached the largest
  value).\<close>

theorem mem_req_complete_outcome:
  assumes "cache_wf L c" "L = cache_max_level g" "0 < L" "level = L - 1"
    "swap_style (geo c) ! level = CACHE_SWAP_LRU \<or> swap_style (geo c) ! level = CACHE_SWAP_FIFO"
  shows "case cache_mem_req_complete g req c of
      Inr c' \<Rightarrow> (resident c level (m_addr req) \<or> \<not> no_line g (set_base_of (geo c) (m_addr req) level) level c)
        \<and> resident c' level (m_addr req)
        \<and> mshrs c' = (mshrs c)[level := setMshrEntryReady (getCacheBlockId (geo c) (m_addr req) level)
                                          (mshrs c ! level)]
    | Inl e \<Rightarrow> e = OutOfBounds \<and> \<not> resident c level (m_addr req) \<and> no_line g (set_base_of (geo c) (m_addr req) level) level c"
proof -
  let ?a = "m_addr req" and ?base = "set_base_of (geo c) (m_addr req) level"
  have lvl: "level < L" "\<not> level < cache_max_level g - 1" "cache_max_level g - 1 = level"
    using assms(2-4) by simp_all
  have ways: "0 < cache_mapping_ways (geo c) ! level"
    using assms(1) lvl(1) by (auto simp: cache_wf_def intro: geo_wfD)
  define fin :: "cache \<Rightarrow> cache" where "fin = (\<lambda>c. c\<lparr>mshrs := (mshrs c)[level :=
      setMshrEntryReady (getCacheBlockId (geo c) ?a level) (mshrs c ! level)]\<rparr>)"
  have fin: "resident (fin d) level ?a = resident d level ?a"
    "mshrs (fin d) = (mshrs d)[level := setMshrEntryReady (getCacheBlockId (geo d) ?a level) (mshrs d ! level)]" for d
    by (rule resident_caches; simp add: fin_def) (simp add: fin_def)
  show ?thesis
  proof (cases "check_cache_hit c ?base ?a level = None")
    case False
    then have "resident c level ?a" by (simp add: resident_def)
    moreover have "cache_mem_req_complete g req c = Inr (fin c)"
      using False unfolding cache_mem_req_complete_def Let_def lvl(3) fin_def by auto
    ultimately show ?thesis by (simp add: fin)
  next
    case True
    then have nr: "\<not> resident c level ?a" by (simp add: resident_def)
    obtain r c1 where f: "get_cache_free_line g ?base level c = (r, c1)" by fastforce
    note spec = get_cache_free_line_spec [OF f ways]
    have none: "r = None \<longleftrightarrow> no_line g ?base level c" using get_cache_free_line_None [OF lvl(2) assms(5), of ?base] f by simp
    have blk: "setCacheBlock g ?a level c = (case r of Some i \<Rightarrow> (True, set_cache_line i ?a level c1) | None \<Rightarrow> (False, c1))"
      using True f by (simp add: setCacheBlock_def Let_def split: option.split)
    have geo1: "geo c1 = geo c" "mshrs c1 = mshrs c"
      using spec by (simp_all add: lines_same_def cache_dims_def)
    show ?thesis
    proof (cases r)
      case None
      then have "cache_mem_req_complete g req c = Inl OutOfBounds"
        using True f unfolding None cache_mem_req_complete_def Let_def lvl(3) by simp
      then show ?thesis using none nr None by simp
    next
      case (Some i)
      with blk have s: "setCacheBlock g ?a level c = (True, set_cache_line i ?a level c1)" by simp
      have "resident (set_cache_line i ?a level c1) level ?a"
        using setCacheBlock_resident [OF assms(1) lvl(1) s] .
      moreover have "cache_mem_req_complete g req c = Inr (fin (set_cache_line i ?a level c1))"
        using True f unfolding Some cache_mem_req_complete_def Let_def lvl(3) fin_def by simp
      ultimately show ?thesis using geo1 none Some by (simp add: fin)
    qed
  qed
qed

text \<open>A full set of dirty lines and a full queue to the memory: \<open>init\<close> fills the queue.\<close>

definition cache_demo_dirty :: cache where
  "cache_demo_dirty = upd_line 0 0 (\<lambda>l. l\<lparr>l_flag := 3\<rparr>) cache_demo_full"

theorem mem_req_complete_outcome_witness:
  "cache_mem_req_complete cfg_demo (memReq0\<lparr>m_addr := 64\<rparr>) cache_demo_dirty = Inl OutOfBounds
   \<and> \<not> resident cache_demo_dirty 0 64"
proof -
  have w: "cache_wf 1 cache_demo_dirty" "1 = cache_max_level cfg_demo" "(0::nat) < 1" "(0::nat) = 1 - 1"
    "swap_style (geo cache_demo_dirty) ! 0 = CACHE_SWAP_LRU" by code_simp+
  have "isl (cache_mem_req_complete cfg_demo (memReq0\<lparr>m_addr := 64\<rparr>) cache_demo_dirty)" by code_simp
  then obtain e where e: "cache_mem_req_complete cfg_demo (memReq0\<lparr>m_addr := 64\<rparr>) cache_demo_dirty = Inl e"
    by (auto simp: isl_def)
  have a: "m_addr (memReq0\<lparr>m_addr := 64\<rparr>) = 64" by simp
  show ?thesis
    using mem_req_complete_outcome [OF w(1-4) disjI1 [OF w(5)], of "memReq0\<lparr>m_addr := 64\<rparr>"]
    unfolding e a by simp
qed

section \<open>Acknowledgements of the lower level\<close>

text \<open>An acknowledgement that a lower level returns brings its block into the upper level, whatever
  its operation, and makes the waiting entries of the upper level's miss table ready. This includes
  the acknowledgement of a write-back that hit in the lower level: the block that the upper level has
  just evicted is brought back.\<close>

theorem return_to_upper_fills:
  assumes "cache_wf L c" "upper < L" "write_allocate (geo c) ! upper = WRITE_ALLOCATE"
    "return_to_upper g upper req c = Inr c'"
  shows "resident c' upper (c_addr req)
    \<and> mshrs c' = (mshrs c)[upper := setMshrEntryReady (getCacheBlockId (geo c) (c_addr req) upper)
                                      (mshrs c ! upper)]"
proof -
  let ?c = "c\<lparr>mshrs := (mshrs c)[upper := setMshrEntryReady (getCacheBlockId (geo c) (c_addr req) upper)
                                      (mshrs c ! upper)]\<rparr>"
  have s: "setCacheBlock g (c_addr req) upper ?c = (True, c')"
    using assms(3,4) by (auto simp: return_to_upper_def Let_def split: prod.splits bool.splits)
  have wf: "cache_wf L ?c" using assms(1) cache_wf_cong [of ?c c L] by (simp add: cache_dims_def)
  have "mshrs c' = mshrs ?c" by (rule setCacheBlock_mshrs [OF wf assms(2) s])
  with setCacheBlock_resident [OF wf assms(2) s] show ?thesis by simp
qed

theorem return_to_upper_fills_witness:
  "resident (projr (return_to_upper cfg_demo2 0 (cacheReq0\<lparr>c_addr := 8, c_cacheOp := WRITEBACK_DIRTY_BLOCK\<rparr>) cache_demo2)) 0 8"
proof -
  let ?r = "cacheReq0\<lparr>c_addr := 8, c_cacheOp := WRITEBACK_DIRTY_BLOCK\<rparr>"
  have "\<not> isl (return_to_upper cfg_demo2 0 ?r cache_demo2)" by code_simp
  then obtain c' where r: "return_to_upper cfg_demo2 0 ?r cache_demo2 = Inr c'"
    by (cases "return_to_upper cfg_demo2 0 ?r cache_demo2") auto
  have wa: "write_allocate (geo cache_demo2) ! 0 = WRITE_ALLOCATE" by code_simp
  show ?thesis
    using return_to_upper_fills [OF cache_demo2_wf _ wa r] by (simp add: r)
qed

section \<open>Look-ups\<close>

lemma send_miss_lines [keeps]:
  "send_miss level req c = Inr c' \<Longrightarrow> caches c' = caches c \<and> tick_count c' = tick_count c"
  by (auto simp: send_miss_def split: prod.splits bool.splits)

lemma set_front_ready_lines [keeps]:
  "caches (set_front_ready level b c) = caches c \<and> tick_count (set_front_ready level b c) = tick_count c"
  by (simp add: set_front_ready_def)

definition same_counts :: "cache \<Rightarrow> cache \<Rightarrow> bool" where
  "same_counts c c' \<longleftrightarrow> tick_count c' = tick_count c
     \<and> (\<forall>l i. l_count (caches c' ! l ! i) = l_count (caches c ! l ! i) \<and> l_tag (caches c' ! l ! i) = l_tag (caches c ! l ! i))"

lemma same_counts_lines: "caches c' = caches c \<Longrightarrow> tick_count c' = tick_count c \<Longrightarrow> same_counts c c'"
  by (simp add: same_counts_def)

lemma same_counts_trans: "same_counts a b \<Longrightarrow> same_counts b c \<Longrightarrow> same_counts a c"
  by (simp add: same_counts_def)

lemma process_front_counts:
  assumes "process_front level b c = Inr c'"
  shows "same_counts c c'"
  using assms
  by (auto simp: process_front_def rbind_Inr_iff same_counts_def upd2_nth2 set_front_ready_def pop_reqQueue_def
      split: list.splits if_splits option.splits cache_write_strategy.splits dest!: send_miss_lines)

lemma process_banks_counts: "process_banks level bs c = Inr c' \<Longrightarrow> same_counts c c'"
proof (induction bs arbitrary: c)
  case Nil
  then show ?case by (simp add: same_counts_def)
next
  case (Cons b bs)
  then show ?case
    by (auto simp: rbind_Inr_iff same_counts_lines split: if_splits dest: process_front_counts intro: same_counts_trans)
qed

text \<open>A round of look-ups, hits included, changes no count, no tag and not the time stamp: the
  counts are set when a line is filled and at no other time, so that the replacement called
  least-recently-used evicts the line that was filled first.\<close>

theorem lookups_keep_counts:
  assumes "updateReqQueue g c = Inr c'"
  shows "same_counts c c'"
  using assms unfolding updateReqQueue_def
proof (rule rfold_partial)
  show "same_counts c c" by (simp add: same_counts_def)
next
  fix level t t'
  assume "same_counts c t" and "rbind (process_banks level
                (bank_order (reqQueueBankPtr t ! level) (length (reqQueue t ! level))
                   (cache_bank_num (geo t) ! level)) t)
         (\<lambda>c. Inr (c\<lparr>reqQueueBankPtr := (reqQueueBankPtr c)
               [level := (reqQueueBankPtr c ! level + 1) mod (cache_bank_num (geo c) ! level)]\<rparr>)) = Inr t'"
  then show "same_counts c t'"
    by (auto simp: rbind_Inr_iff same_counts_def dest!: process_banks_counts)
qed

theorem lookups_keep_counts_witness:
  "same_counts cache_demo_full (projr (updateReqQueue cfg_demo
     (snd (sendReq2CacheBank (cacheReq0\<lparr>c_valid := True, c_addr := 32\<rparr>) 0 cache_demo_full))))"
proof -
  let ?c = "snd (sendReq2CacheBank (cacheReq0\<lparr>c_valid := True, c_addr := 32\<rparr>) 0 cache_demo_full)"
  have "\<not> isl (updateReqQueue cfg_demo ?c)" by code_simp
  then obtain c' where u: "updateReqQueue cfg_demo ?c = Inr c'"
    by (cases "updateReqQueue cfg_demo ?c") auto
  have "same_counts cache_demo_full ?c"
    by (simp add: same_counts_def sendReq2CacheBank_def Let_def)
  with lookups_keep_counts [OF u] show ?thesis by (simp add: u same_counts_def)
qed

end
