(* ===== verification/CacheQueues.thy ===== *)
theory CacheQueues
  imports CacheWriteBack
begin

text \<open>
  The queues of the cache through an update: the invariant that every phase keeps, and the
  accounting of the requests that wait in a level. A request that the first level accepted is at any
  time in exactly one of three places: its request bank, the miss table, its acknowledgement bank.
\<close>

section \<open>Invariant and accounting\<close>

definition queues_ok :: "cache \<Rightarrow> nat \<Rightarrow> bool" where
  "queues_ok c l \<longleftrightarrow> (\<forall>b < cache_bank_num (geo c) ! l.
      length (reqQueue c ! l ! b) \<le> reqQueueSizePerBank (geo c) ! l
    \<and> length (ackQueue c ! l ! b) \<le> ackQueueSizePerBank (geo c) ! l)"

definition cache_inv :: "config \<Rightarrow> cache \<Rightarrow> bool" where
  "cache_inv g c \<longleftrightarrow> 0 < cache_max_level g \<and> cache_wf (cache_max_level g) c
     \<and> (\<forall>l < cache_max_level g. mshr_inv (mshrs c ! l) \<and> queues_ok c l
          \<and> write_strategy (geo c) ! l = WRITE_BACK)"

text \<open>Requests are compared without the \<open>ready\<close> mark that the cache sets on them.\<close>

definition live :: "cacheReq multiset \<Rightarrow> cacheReq multiset" where
  "live M = image_mset (\<lambda>r. r\<lparr>c_ready := False\<rparr>) M"

definition level_pending :: "cache \<Rightarrow> nat \<Rightarrow> cacheReq multiset" where
  "level_pending c l = live (mset (map fst (concat (reqQueue c ! l)))) + live (mshr_contents (mshrs c ! l))
     + live (mset (concat (ackQueue c ! l)))"

lemma live_simps [simp]:
  "live {#} = {#}" "live (A + B) = live A + live B"
  "live (add_mset r M) = add_mset (r\<lparr>c_ready := False\<rparr>) (live M)"
  by (simp_all add: live_def)

lemma live_ready [simp]: "live {#r\<lparr>c_ready := True\<rparr>#} = live {#r#}"
  by (simp add: live_def)

lemma cache_invD:
  assumes "cache_inv g c" "l < cache_max_level g"
  shows "mshr_inv (mshrs c ! l)" "queues_ok c l" "write_strategy (geo c) ! l = WRITE_BACK"
    "l < length (mshrs c)" "l < length (reqQueue c)" "l < length (ackQueue c)"
    "length (reqQueue c ! l) = cache_bank_num (geo c) ! l" "length (ackQueue c ! l) = cache_bank_num (geo c) ! l"
    "geo_wf (cache_max_level g) (geo c)" "cache_wf (cache_max_level g) c" "0 < cache_bank_num (geo c) ! l"
  using assms by (auto simp: cache_inv_def cache_wf_def intro: geo_wfD)

lemma cache_inv_cong:
  assumes "cache_dims c' = cache_dims c" "mshrs c' = mshrs c" "reqQueue c' = reqQueue c" "ackQueue c' = ackQueue c"
  shows "cache_inv g c' = cache_inv g c" "level_pending c' l = level_pending c l"
  using assms by (simp_all add: cache_inv_def cache_wf_cong [OF assms(1)] queues_ok_def level_pending_def cache_dims_def)

lemma cache_inv_dims:
  assumes "cache_inv g c" "cache_dims c' = cache_dims c"
    "\<And>l. l < cache_max_level g \<Longrightarrow> mshr_inv (mshrs c ! l) \<Longrightarrow> mshr_inv (mshrs c' ! l)"
    "\<And>l. l < cache_max_level g \<Longrightarrow> queues_ok c l \<Longrightarrow> queues_ok c' l"
  shows "cache_inv g c'"
proof -
  have "geo c' = geo c" using assms(2) by (simp add: cache_dims_def)
  with assms(1,3,4) show ?thesis unfolding cache_inv_def cache_wf_cong [OF assms(2)] by simp
qed

lemma nth_update_cases: "P y \<Longrightarrow> P (xs ! j) \<Longrightarrow> P (xs[i := y] ! j)"
  by (cases "i = j"; cases "i < length xs") (auto simp: list_update_beyond)

lemma cache_inv_mshr:
  assumes "cache_inv g c" "mshr_inv m"
  shows "cache_inv g (c\<lparr>mshrs := (mshrs c)[l := m]\<rparr>)"
  by (rule cache_inv_dims [OF assms(1)])
    (use assms(2) in \<open>auto simp: cache_dims_def queues_ok_def intro: nth_update_cases\<close>)

lemma cache_inv_reqQueue:
  assumes "cache_inv g c" "length (f (reqQueue c ! l ! b)) \<le> reqQueueSizePerBank (geo c) ! l"
  shows "cache_inv g (c\<lparr>reqQueue := upd2 l b f (reqQueue c)\<rparr>)"
  by (rule cache_inv_dims [OF assms(1)])
    (use assms(2) in \<open>simp_all add: cache_dims_def queues_ok_def upd2_nth2\<close>)

lemma cache_inv_ackQueue:
  assumes "cache_inv g c" "length (f (ackQueue c ! l ! b)) \<le> ackQueueSizePerBank (geo c) ! l"
  shows "cache_inv g (c\<lparr>ackQueue := upd2 l b f (ackQueue c)\<rparr>)"
  by (rule cache_inv_dims [OF assms(1)])
    (use assms(2) in \<open>simp_all add: cache_dims_def queues_ok_def upd2_nth2\<close>)

text \<open>What replacing one bank changes of the accounting.\<close>

lemma mset_bank:
  assumes "l < length qs" "b < length (qs ! l)"
  shows "mset (concat (upd2 l b f qs ! l)) + mset (qs ! l ! b) = mset (concat (qs ! l)) + mset (f (qs ! l ! b))"
  using assms by (simp add: upd2_nth_same mset_concat_update)

lemma pending_reqQueue:
  assumes "l < length (reqQueue c)" "b < length (reqQueue c ! l)"
  shows "level_pending (c\<lparr>reqQueue := upd2 l b f (reqQueue c)\<rparr>) k + (if k = l then live (mset (map fst (reqQueue c ! l ! b))) else {#})
    = level_pending c k + (if k = l then live (mset (map fst (f (reqQueue c ! l ! b)))) else {#})"
proof (cases "k = l")
  case True
  have "image_mset fst (mset (concat (upd2 l b f (reqQueue c) ! l))) + image_mset fst (mset (reqQueue c ! l ! b))
     = image_mset fst (mset (concat (reqQueue c ! l))) + image_mset fst (mset (f (reqQueue c ! l ! b)))"
    using arg_cong [OF mset_bank [OF assms, of f], of "image_mset fst"] by (simp only: image_mset_union)
  then have "live (image_mset fst (mset (concat (upd2 l b f (reqQueue c) ! l)))) + live (image_mset fst (mset (reqQueue c ! l ! b)))
     = live (image_mset fst (mset (concat (reqQueue c ! l)))) + live (image_mset fst (mset (f (reqQueue c ! l ! b))))"
    by (metis live_simps(2))
  with True show ?thesis by (simp add: level_pending_def algebra_simps)
qed (simp add: level_pending_def)

lemma pending_ackQueue:
  assumes "l < length (ackQueue c)" "b < length (ackQueue c ! l)"
  shows "level_pending (c\<lparr>ackQueue := upd2 l b f (ackQueue c)\<rparr>) k + (if k = l then live (mset (ackQueue c ! l ! b)) else {#})
    = level_pending c k + (if k = l then live (mset (f (ackQueue c ! l ! b))) else {#})"
proof (cases "k = l")
  case True
  have "live (mset (concat (upd2 l b f (ackQueue c) ! l))) + live (mset (ackQueue c ! l ! b))
     = live (mset (concat (ackQueue c ! l))) + live (mset (f (ackQueue c ! l ! b)))"
    using mset_bank [OF assms, of f] by (metis live_simps(2))
  with True show ?thesis by (simp add: level_pending_def algebra_simps)
qed (simp add: level_pending_def)

lemma pending_mshr:
  assumes "l < length (mshrs c)"
  shows "level_pending (c\<lparr>mshrs := (mshrs c)[l := m]\<rparr>) k + (if k = l then live (mshr_contents (mshrs c ! l)) else {#})
    = level_pending c k + (if k = l then live (mshr_contents m) else {#})"
  using assms by (simp add: level_pending_def nth_list_update algebra_simps)

section \<open>Look-ups\<close>

lemma set_front_ready_inv:
  assumes "cache_inv g c" "l < cache_max_level g" "b < cache_bank_num (geo c) ! l"
  shows "cache_inv g (set_front_ready l b c) \<and> level_pending (set_front_ready l b c) k = level_pending c k"
proof -
  let ?f = "\<lambda>q. case q of [] \<Rightarrow> [] | (r, lat) # q \<Rightarrow> (r\<lparr>c_ready := True\<rparr>, lat) # q"
  note D = cache_invD [OF assms(1,2)]
  have "length (?f q) = length q" for q :: "(cacheReq \<times> nat) list" by (simp split: list.splits)
  moreover have "live (mset (map fst (?f q))) = live (mset (map fst q))" for q :: "(cacheReq \<times> nat) list"
    by (simp split: list.splits)
  ultimately show ?thesis
    using pending_reqQueue [of l c b ?f k] D(2,5,7) assms(3)
      cache_inv_reqQueue [OF assms(1), where f = ?f and l = l and b = b]
    unfolding set_front_ready_def queues_ok_def by (simp split: if_splits)
qed

lemma send_miss_ok:
  assumes "cache_inv g c" "l < cache_max_level g" "seekMshrFreeEntry (mshrs c ! l)"
  obtains m where "send_miss l r c = Inr (c\<lparr>mshrs := (mshrs c)[l := m]\<rparr>)" "mshr_inv m"
    "mshr_contents m = add_mset r (mshr_contents (mshrs c ! l))"
proof -
  obtain ok m where s: "send2Mshr (getCacheBlockId (geo c) (c_addr r) l) r (mshrs c ! l) = (ok, m)" by fastforce
  from mt.miss_is_kept [OF cache_invD(1) [OF assms(1,2)] assms(3) s] s that show thesis
    by (simp add: send_miss_def)
qed

lemma pop_miss_inv:
  assumes "cache_inv g c" "l < cache_max_level g" "b < cache_bank_num (geo c) ! l"
    "reqQueue c ! l ! b = (r, lat) # q" "mshr_inv m" "mshr_contents m = add_mset r (mshr_contents (mshrs c ! l))"
  shows "let c' = pop_reqQueue l b (c\<lparr>mshrs := (mshrs c)[l := m]\<rparr>)
    in cache_inv g c' \<and> level_pending c' k = level_pending c k"
proof -
  note D = cache_invD [OF assms(1,2)]
  let ?c = "c\<lparr>mshrs := (mshrs c)[l := m]\<rparr>"
  have inv: "cache_inv g ?c" by (rule cache_inv_mshr [OF assms(1,5)])
  have len: "length (reqQueue ?c ! l ! b) \<le> reqQueueSizePerBank (geo ?c) ! l"
    using D(2) assms(3) by (simp add: queues_ok_def)
  have "cache_inv g (pop_reqQueue l b ?c)"
    unfolding pop_reqQueue_def by (rule cache_inv_reqQueue [OF inv]) (use len in simp)
  moreover have "level_pending (pop_reqQueue l b ?c) k = level_pending c k"
    using pending_reqQueue [of l ?c b tl k] pending_mshr [OF D(4), of m k] D(5,7) assms(3,4,6)
    unfolding pop_reqQueue_def by (simp split: if_splits)
  ultimately show ?thesis by (simp add: Let_def)
qed

lemma process_front_ok:
  assumes "cache_inv g c" "l < cache_max_level g" "b < cache_bank_num (geo c) ! l" "seekMshrFreeEntry (mshrs c ! l)"
  shows "\<exists>c'. process_front l b c = Inr c' \<and> cache_inv g c' \<and> level_pending c' k = level_pending c k \<and> geo c' = geo c"
proof (cases "reqQueue c ! l ! b")
  case Nil
  with assms(1) show ?thesis by (simp add: process_front_def)
next
  case (Cons p q)
  obtain r lat where p: "p = (r, lat)" by fastforce
  note D = cache_invD [OF assms(1,2)]
  show ?thesis
  proof (cases "lat = 0 \<and> \<not> c_ready r")
    case False
    with Cons p assms(1) show ?thesis by (auto simp: process_front_def)
  next
    case active: True
    show ?thesis
    proof (cases "check_cache_hit c (set_base_of (geo c) (c_addr r) l) (c_addr r) l")
      case None
      obtain m where m: "send_miss l r c = Inr (c\<lparr>mshrs := (mshrs c)[l := m]\<rparr>)" "mshr_inv m"
        "mshr_contents m = add_mset r (mshr_contents (mshrs c ! l))"
        by (rule send_miss_ok [OF assms(1,2,4)])
      let ?c = "pop_reqQueue l b (c\<lparr>mshrs := (mshrs c)[l := m]\<rparr>)"
      have "process_front l b c = Inr (?c\<lparr>cache_miss_count := (cache_miss_count ?c)[l := cache_miss_count ?c ! l + 1]\<rparr>)"
        using active None Cons p m(1) by (simp add: process_front_def pop_reqQueue_def)
      moreover have "cache_inv g ?c" "level_pending ?c k = level_pending c k"
        using pop_miss_inv [OF assms(1-3) Cons [unfolded p] m(2,3), of k] by (simp_all add: Let_def)
      moreover have "cache_inv g (d\<lparr>cache_miss_count := n\<rparr>) = cache_inv g d"
        "level_pending (d\<lparr>cache_miss_count := n\<rparr>) k = level_pending d k" for d n
        by (rule cache_inv_cong; simp add: cache_dims_def)+
      ultimately show ?thesis by (simp add: pop_reqQueue_def)
    next
      case (Some idx)
      define w where "w = (if c_cacheOp r = WRITE \<or> c_cacheOp r = WRITEBACK_DIRTY_BLOCK
        then upd_line l idx (\<lambda>l. l\<lparr>l_flag := or (l_flag l) CACHE_FLAG_DIRTY\<rparr>) c else c)"
      have w: "cache_inv g w" "level_pending w k = level_pending c k" "geo w = geo c"
        using cache_inv_cong(1) [of w c g] cache_inv_cong(2) [of w c k] assms(1) by (simp_all add: w_def cache_dims_def)
      have step: "process_front l b c = Inr ((set_front_ready l b w)\<lparr>cache_hit_count := (cache_hit_count c)[l := cache_hit_count c ! l + 1]\<rparr>)"
        using active Some Cons p D(3) by (auto simp: process_front_def w_def set_front_ready_def)
      have "cache_inv g (set_front_ready l b w)" "level_pending (set_front_ready l b w) k = level_pending c k"
        using set_front_ready_inv [OF w(1) assms(2), of b k] w assms(3) by simp_all
      moreover have "cache_inv g (d\<lparr>cache_hit_count := n\<rparr>) = cache_inv g d"
        "level_pending (d\<lparr>cache_hit_count := n\<rparr>) k = level_pending d k" for d n
        by (rule cache_inv_cong; simp add: cache_dims_def)+
      ultimately show ?thesis using step w(3) by (simp add: set_front_ready_def)
    qed
  qed
qed

text \<open>The state that the phases of an update keep: the invariant, and the requests of one level, none of
  which is a write-back (which the cache drops when the lower level has answered it).\<close>

abbreviation no_writeBack :: "cacheReq multiset \<Rightarrow> bool" where
  "no_writeBack M \<equiv> \<forall>r\<in>#M. c_cacheOp r \<noteq> WRITEBACK_DIRTY_BLOCK"

definition accounted :: "config \<Rightarrow> geometry \<Rightarrow> nat \<Rightarrow> cacheReq multiset \<Rightarrow> cache \<Rightarrow> bool" where
  "accounted g ge k P c \<longleftrightarrow> cache_inv g c \<and> geo c = ge \<and> level_pending c k = P \<and> no_writeBack P"

lemma accounted_cong:
  assumes "cache_dims c' = cache_dims c" "mshrs c' = mshrs c" "reqQueue c' = reqQueue c" "ackQueue c' = ackQueue c"
  shows "accounted g ge k P c' = accounted g ge k P c"
  using cache_inv_cong(1) [OF assms, of g] cache_inv_cong(2) [OF assms, of k] assms(1) by (simp add: accounted_def cache_dims_def)

lemma process_banks_ok:
  assumes "accounted g ge k P c" "l < cache_max_level g" "\<forall>b\<in>set bs. b < cache_bank_num ge ! l"
  shows "\<exists>c'. process_banks l bs c = Inr c' \<and> accounted g ge k P c'"
  using assms
proof (induction bs arbitrary: c)
  case Nil
  then show ?case by simp
next
  case (Cons b bs)
  show ?case
  proof (cases "seekMshrFreeEntry (mshrs c ! l)")
    case True
    obtain c1 where c1: "process_front l b c = Inr c1" "accounted g ge k P c1"
      using process_front_ok [OF _ Cons.prems(2) _ True, where b = b and k = k] Cons.prems by (auto simp: accounted_def)
    with Cons.IH [OF c1(2)] Cons.prems True show ?thesis by simp
  next
    case False
    with Cons.prems show ?thesis by simp
  qed
qed

lemma bank_order_less: "0 < num \<Longrightarrow> b \<in> set (bank_order ptr n num) \<Longrightarrow> b < num"
  by (auto simp: bank_order_def)

lemma accounted_bank_num: "accounted g ge k P c \<Longrightarrow> l < cache_max_level g \<Longrightarrow> 0 < cache_bank_num ge ! l"
  using cache_invD(11) by (auto simp: accounted_def)

lemma updateReqQueue_ok:
  assumes "accounted g ge k P c"
  shows "\<exists>c'. updateReqQueue g c = Inr c' \<and> accounted g ge k P c'"
  unfolding updateReqQueue_def using assms
proof (rule rfold_total)
  fix l t
  assume l: "l \<in> set [0..<cache_max_level g]" and t: "accounted g ge k P t"
  then have ge: "geo t = ge" by (simp add: accounted_def)
  have "\<forall>b\<in>set (bank_order (reqQueueBankPtr t ! l) (length (reqQueue t ! l)) (cache_bank_num (geo t) ! l)).
      b < cache_bank_num ge ! l"
    using bank_order_less accounted_bank_num [OF t] l unfolding ge by simp
  from process_banks_ok [OF t _ this] l obtain t' where
    t': "process_banks l (bank_order (reqQueueBankPtr t ! l) (length (reqQueue t ! l)) (cache_bank_num (geo t) ! l)) t
      = Inr t'" "accounted g ge k P t'" by auto
  moreover have "accounted g ge k P (t'\<lparr>reqQueueBankPtr := n\<rparr>)" for n
    using t'(2) accounted_cong [where c' = "t'\<lparr>reqQueueBankPtr := n\<rparr>" and c = t'] by (simp add: cache_dims_def)
  ultimately show "\<exists>t'. rbind (process_banks l (bank_order (reqQueueBankPtr t ! l) (length (reqQueue t ! l))
                   (cache_bank_num (geo t) ! l)) t)
         (\<lambda>c. Inr (c\<lparr>reqQueueBankPtr := (reqQueueBankPtr c)
               [l := (reqQueueBankPtr c ! l + 1) mod (cache_bank_num (geo c) ! l)]\<rparr>)) = Inr t'
      \<and> accounted g ge k P t'" by simp
qed

section \<open>Acknowledgements\<close>

lemma ack_from_bank_ok:
  assumes "accounted g ge k P c" "l < cache_max_level g" "b < cache_bank_num ge ! l"
  shows "accounted g ge k P (ack_from_bank l b c)"
proof (cases "reqQueue c ! l ! b")
  case Nil
  with assms show ?thesis by (simp add: ack_from_bank_def)
next
  case (Cons p q)
  obtain r lat where p: "p = (r, lat)" by fastforce
  have inv: "cache_inv g c" and ge: "geo c = ge" and P: "level_pending c k = P"
    using assms(1) by (simp_all add: accounted_def)
  note D = cache_invD [OF inv assms(2)]
  let ?c1 = "c\<lparr>ackQueue := upd2 l b (\<lambda>a. a @ [r]) (ackQueue c)\<rparr>"
  let ?c2 = "?c1\<lparr>reqQueue := upd2 l b (\<lambda>_. q) (reqQueue ?c1)\<rparr>"
  show ?thesis
  proof (cases "c_ready r \<and> \<not> ackBankConflict c ! l ! b
             \<and> length (ackQueue c ! l ! b) < ackQueueSizePerBank (geo c) ! l")
    case False
    with assms Cons p show ?thesis by (auto simp: ack_from_bank_def)
  next
    case True
    then have step: "ack_from_bank l b c = ?c2" using Cons p by (simp add: ack_from_bank_def)
    have "length (reqQueue c ! l ! b) \<le> reqQueueSizePerBank (geo c) ! l"
      using D(2) assms(3) ge by (simp add: queues_ok_def)
    then have "cache_inv g ?c2"
      using True Cons by (intro cache_inv_reqQueue cache_inv_ackQueue inv) simp_all
    moreover have "level_pending ?c2 k = level_pending c k"
      using pending_reqQueue [of l ?c1 b "\<lambda>_. q" k] pending_ackQueue [of l c b "\<lambda>a. a @ [r]" k] D(5-8) assms(3) Cons p ge
      by (simp split: if_splits)
    ultimately show ?thesis unfolding step using ge P assms(1) by (simp add: accounted_def)
  qed
qed

lemma offer_ack_ok:
  assumes "cache_inv g c" "l < cache_max_level g" "offer_ack l r c = (ok, c')"
    "k = l \<longrightarrow> c_cacheOp r \<noteq> WRITEBACK_DIRTY_BLOCK"
  shows "cache_inv g c' \<and> geo c' = geo c \<and> mshrs c' = mshrs c \<and>
    level_pending c' k = level_pending c k + (if k = l \<and> ok then live {#r#} else {#})"
proof -
  note D = cache_invD [OF assms(1,2)]
  let ?b = "getCacheBank (geo c) (c_addr r) l"
  have b: "?b < cache_bank_num (geo c) ! l" by (rule getCacheBank_less [OF D(9) assms(2)])
  show ?thesis
  proof (cases "c_cacheOp r \<noteq> WRITEBACK_DIRTY_BLOCK \<and> \<not> ackBankConflict c ! l ! ?b
              \<and> length (ackQueue c ! l ! ?b) < ackQueueSizePerBank (geo c) ! l")
    case True
    let ?f = "\<lambda>q. q @ [r\<lparr>c_ready := True\<rparr>]"
    let ?c = "c\<lparr>ackQueue := upd2 l ?b ?f (ackQueue c)\<rparr>"
    have step: "ok" "c' = ?c\<lparr>ackBankConflict := upd2 l ?b (\<lambda>_. True) (ackBankConflict c)\<rparr>"
      using True assms(3) by (auto simp: offer_ack_def Let_def)
    have inv: "cache_inv g ?c" using True by (intro cache_inv_ackQueue assms(1)) simp
    have "level_pending ?c k = level_pending c k + (if k = l then live {#r#} else {#})"
      using pending_ackQueue [of l c ?b ?f k] D(6,8) b by (simp split: if_splits)
    with step inv show ?thesis
      using cache_inv_cong(1) [of c' ?c g] cache_inv_cong(2) [of c' ?c k] by (simp add: cache_dims_def)
  next
    case False
    then have "c' = c" "ok \<longrightarrow> c_cacheOp r = WRITEBACK_DIRTY_BLOCK"
      using assms(3) by (auto simp: offer_ack_def Let_def split: if_splits)
    with assms(1,4) show ?thesis by auto
  qed
qed

lemma offer_all_ok:
  assumes "cache_inv g c" "l < cache_max_level g" "offer_all l v c = (ids, c')" "distinct (map fst v)"
    "k = l \<longrightarrow> no_writeBack (mset (map snd v))"
  shows "\<exists>w. w = filter (\<lambda>p. fst p \<in> set ids) v \<and> ids = map fst w \<and> cache_inv g c' \<and> geo c' = geo c \<and> mshrs c' = mshrs c
    \<and> level_pending c' k = level_pending c k + (if k = l then live (mset (map snd w)) else {#})"
  using assms
proof (induction v arbitrary: c ids c')
  case Nil
  then show ?case by simp
next
  case (Cons p v)
  obtain i r where p: "p = (i, r)" by fastforce
  obtain ok c1 where o: "offer_ack l r c = (ok, c1)" by fastforce
  obtain ids1 c2 where a: "offer_all l v c1 = (ids1, c2)" by fastforce
  have "k = l \<longrightarrow> c_cacheOp r \<noteq> WRITEBACK_DIRTY_BLOCK" using Cons.prems(5) p by simp
  note ok = offer_ack_ok [OF Cons.prems(1,2) o this]
  then have "cache_inv g c1" by simp
  from Cons.IH [OF this Cons.prems(2) a] Cons.prems(4,5)
  have IH: "ids1 = map fst (filter (\<lambda>p. fst p \<in> set ids1) v)" "cache_inv g c2" "geo c2 = geo c1" "mshrs c2 = mshrs c1"
    "level_pending c2 k = level_pending c1 k + (if k = l then live (mset (map snd (filter (\<lambda>p. fst p \<in> set ids1) v))) else {#})"
    by simp_all
  have sub: "set ids1 \<subseteq> fst ` set v" by (subst IH(1)) auto
  with Cons.prems(4) p have i: "i \<notin> set ids1" "\<forall>q\<in>set v. fst q \<noteq> i" by auto
  have res: "ids = (if ok then i # ids1 else ids1)" "c' = c2"
    using Cons.prems(3) p o a by (auto split: bool.splits)
  define w where "w = filter (\<lambda>p. fst p \<in> set ids1) v"
  have "filter (\<lambda>p. fst p \<in> set ids) v = w"
    unfolding w_def using i(2) res(1) by (intro filter_cong) auto
  then have f: "filter (\<lambda>p. fst p \<in> set ids) (p # v) = (if ok then p # w else w)"
    using i(1) res(1) by (cases ok) (simp_all add: p)
  show ?case
    unfolding f using ok IH(2-5) res IH(1) [folded w_def] unfolding w_def [symmetric]
    by (simp add: p algebra_simps)
qed

lemma ack_from_mshr_ok:
  assumes "accounted g ge k P c" "l < cache_max_level g"
  shows "\<exists>c'. ack_from_mshr l c = Inr c' \<and> accounted g ge k P c'"
proof -
  have inv: "cache_inv g c" and ge: "geo c = ge" and P: "level_pending c k = P"
    and wb: "no_writeBack P"
    using assms(1) by (simp_all add: accounted_def)
  note D = cache_invD [OF inv assms(2)]
  obtain v m where v: "peekMshrReadyEntry (mshrs c ! l) = Inr (v, m)" "distinct (map fst v)"
    "mshr_inv m" "mshr_contents m = mshr_contents (mshrs c ! l)"
    and clear: "\<And>acc. \<exists>m'. clearMshrEntry (map fst (filter acc v)) m = Inr m' \<and> mshr_inv m'
        \<and> mshr_shape m' = mshr_shape (mshrs c ! l)
        \<and> mshr_contents m' + mset (map snd (filter acc v)) = mshr_contents (mshrs c ! l)"
    by (rule mt.answer_round [OF D(1)]) (rule that, assumption+)
  let ?c = "c\<lparr>mshrs := (mshrs c)[l := m]\<rparr>"
  have inv1: "cache_inv g ?c" by (rule cache_inv_mshr [OF inv v(3)])
  have P1: "level_pending ?c k = level_pending c k"
    using pending_mshr [OF D(4), of m k] v(4) by (simp split: if_splits)
  obtain ids c1 where o: "offer_all l v ?c = (ids, c1)" by fastforce
  have vwb: "k = l \<longrightarrow> no_writeBack (mset (map snd v))"
  proof
    assume "k = l"
    obtain m' where "mshr_contents m' + mset (map snd v) = mshr_contents (mshrs c ! l)"
      using clear [of "\<lambda>_. True"] by auto
    then have sub: "mset (map snd v) \<subseteq># mshr_contents (mshrs c ! l)"
      by (metis mset_subset_eq_add_right)
    have "c_cacheOp r \<noteq> WRITEBACK_DIRTY_BLOCK" if "r \<in># mshr_contents (mshrs c ! l)" for r
    proof -
      have "r\<lparr>c_ready := False\<rparr> \<in># P"
        using that \<open>k = l\<close> unfolding P [symmetric] by (simp add: level_pending_def live_def)
      with wb show ?thesis by fastforce
    qed
    with sub show "no_writeBack (mset (map snd v))" by (meson mset_subset_eqD)
  qed
  obtain w where
    w: "w = filter (\<lambda>p. fst p \<in> set ids) v" "ids = map fst w" "cache_inv g c1" "geo c1 = geo ?c" "mshrs c1 = mshrs ?c"
    "level_pending c1 k = level_pending ?c k + (if k = l then live (mset (map snd w)) else {#})"
    using offer_all_ok [OF inv1 assms(2) o v(2) vwb] by (elim exE conjE) (rule that)
  from clear [of "\<lambda>p. fst p \<in> set ids"] obtain m' where
    m': "clearMshrEntry ids m = Inr m'" "mshr_inv m'" "mshr_contents m' + mset (map snd w) = mshr_contents (mshrs c ! l)"
    unfolding w(1) [symmetric] w(2) [symmetric] by blast
  have at: "mshrs c1 ! l = m" "l < length (mshrs c1)" using w(5) D(4) by simp_all
  show ?thesis
  proof (cases "v = []")
    case True
    then have "w = []" using w(1) by simp
    have "ack_from_mshr l c = Inr c1"
      using o True by (simp add: ack_from_mshr_def v(1))
    with \<open>w = []\<close> w(3,4,6) ge P P1 wb show ?thesis by (simp add: accounted_def)
  next
    case False
    let ?c2 = "c1\<lparr>mshrs := (mshrs c1)[l := m']\<rparr>"
    have "ack_from_mshr l c = Inr ?c2"
      using o False m'(1) at(1) by (simp add: ack_from_mshr_def v(1))
    moreover have "cache_inv g ?c2" by (rule cache_inv_mshr [OF w(3) m'(2)])
    moreover have "level_pending ?c2 k = level_pending c k"
    proof (cases "k = l")
      case True
      have "live (mshr_contents m') + live (mset (map snd w)) = live (mshr_contents m)" (is "?M' + ?W = ?M")
        unfolding v(4) m'(3) [symmetric] by simp
      moreover have "level_pending c1 k = level_pending c k + ?W"
        using w(6) P1 True by simp
      moreover have "level_pending ?c2 k + ?M = level_pending c1 k + ?M'"
        using pending_mshr [OF at(2), of m' k] True unfolding at(1) by simp
      ultimately have "level_pending ?c2 k + ?M = level_pending c k + ?W + ?M'" "?M' + ?W = ?M" by simp_all
      then have "level_pending ?c2 k + ?M = level_pending c k + ?M" by (simp only: ac_simps)
      then show ?thesis by (simp only: add_right_cancel)
    next
      case False
      with pending_mshr [OF at(2), of m' k] w(6) P1 show ?thesis by simp
    qed
    ultimately show ?thesis using ge P wb w(4) by (auto simp: accounted_def)
  qed
qed

section \<open>Fills and traffic between the levels\<close>

lemma sendReq2CacheBank_ok:
  assumes "accounted g ge k P c" "l < cache_max_level g" "k \<noteq> l"
  shows "accounted g ge k P (snd (sendReq2CacheBank r l c))"
proof -
  have inv: "cache_inv g c" using assms(1) by (simp add: accounted_def)
  note D = cache_invD [OF inv assms(2)]
  let ?b = "getCacheBank (geo c) (c_addr r) l"
  have b: "?b < cache_bank_num (geo c) ! l" by (rule getCacheBank_less [OF D(9) assms(2)])
  let ?f = "\<lambda>q. q @ [(r, cache_access_latency (geo c) ! l)]"
  let ?c = "c\<lparr>reqQueue := upd2 l ?b ?f (reqQueue c)\<rparr>"
  show ?thesis
  proof (cases "length (reqQueue c ! l ! ?b) < reqQueueSizePerBank (geo c) ! l \<and> \<not> reqBankConflict c ! l ! ?b")
    case True
    then have step: "snd (sendReq2CacheBank r l c) = ?c\<lparr>reqBankConflict := upd2 l ?b (\<lambda>_. True) (reqBankConflict c)\<rparr>"
      by (simp add: sendReq2CacheBank_def Let_def)
    have "cache_inv g ?c" using True by (intro cache_inv_reqQueue inv) simp
    moreover have "level_pending ?c k = level_pending c k"
      using pending_reqQueue [of l c ?b ?f k] D(5,7) b assms(3) by simp
    ultimately have "accounted g ge k P ?c" using assms(1) by (simp add: accounted_def)
    then show ?thesis
      unfolding step by (subst accounted_cong [of _ ?c]) (simp_all add: cache_dims_def)
  next
    case False
    then show ?thesis using assms(1) by (auto simp: sendReq2CacheBank_def Let_def)
  qed
qed

lemma sendReq2reqQueue2Mem_ok:
  "accounted g ge k P c \<Longrightarrow> accounted g ge k P (snd (sendReq2reqQueue2Mem g r c))"
  by (auto simp: sendReq2reqQueue2Mem_def cache_dims_def
      accounted_cong [where c' = "c\<lparr>reqQueue2Mem := reqQueue2Mem c @ [transCacheReq2MemReq r]\<rparr>" and c = c])

lemma writeBack_ok:
  assumes "accounted g ge k P c" "l < cache_max_level g" "k \<noteq> l + 1"
  shows "accounted g ge k P (snd (writeBackDirtyCacheline g t i l c))"
proof (cases "l < cache_max_level g - 1")
  case True
  then have "l + 1 < cache_max_level g" by simp
  from sendReq2CacheBank_ok [OF assms(1) this assms(3)] True show ?thesis
    by (simp add: writeBackDirtyCacheline_def Let_def)
next
  case False
  with sendReq2reqQueue2Mem_ok [OF assms(1)] show ?thesis
    by (simp add: writeBackDirtyCacheline_def Let_def)
qed

lemma accounted_rands: "accounted g ge k P (c\<lparr>rands := rs\<rparr>) = accounted g ge k P c"
  and accounted_lines: "accounted g ge k P (upd_line l i f c) = accounted g ge k P c"
  and accounted_wcount: "accounted g ge k P (c\<lparr>cache_w_memory_count := n, caches := upd2 l i f (caches c)\<rparr>) = accounted g ge k P c"
  and accounted_reqPtr: "accounted g ge k P (c\<lparr>reqQueueBankPtr := ptr\<rparr>) = accounted g ge k P c"
  and accounted_ackPtr: "accounted g ge k P (c\<lparr>ackQueueBankPtr := ptr\<rparr>) = accounted g ge k P c"
  by (rule accounted_cong; simp add: cache_dims_def)+

lemma accounted_set_cache_line: "accounted g ge k P (set_cache_line i a l c) = accounted g ge k P c"
  by (rule accounted_cong) simp_all

lemma get_cache_free_line_ok:
  assumes "accounted g ge k P c" "l < cache_max_level g" "k \<noteq> l + 1"
  shows "accounted g ge k P (snd (get_cache_free_line g base l c))"
proof -
  have wb: "accounted g ge k P d" if "accounted g ge k P c'" "writeBackDirtyCacheline g t i l c' = (b, d)" for b t i d c'
    using writeBack_ok [OF that(1) assms(2,3), of t i] that(2) by simp
  have wr: "accounted g ge k P d"
    if "accounted g ge k P c'" "writeBackDirtyCacheline g t i l (c'\<lparr>rands := rs\<rparr>) = (b, d)" for b t i d c' rs
    using that(1) by (intro wb [OF _ that(2)]) (simp add: accounted_rands)
  show ?thesis
    using assms(1)
    by (auto simp: get_cache_free_line_def Let_def accounted_wcount accounted_rands
        split: option.splits prod.splits bool.splits cache_swap_style.splits list.splits intro: wb wr)
qed

lemma setCacheBlock_ok:
  assumes "accounted g ge k P c" "l < cache_max_level g" "k \<noteq> l + 1"
  shows "accounted g ge k P (snd (setCacheBlock g a l c))"
  using assms(1) get_cache_free_line_ok [OF assms, of "set_base_of (geo c) a l"]
  by (auto simp: setCacheBlock_def Let_def accounted_set_cache_line split: option.splits prod.splits)

lemma accounted_mshr:
  assumes "accounted g ge k P c" "l < cache_max_level g" "mshr_inv m" "mshr_contents m = mshr_contents (mshrs c ! l)"
  shows "accounted g ge k P (c\<lparr>mshrs := (mshrs c)[l := m]\<rparr>)"
proof -
  have inv: "cache_inv g c" using assms(1) by (simp add: accounted_def)
  have "level_pending (c\<lparr>mshrs := (mshrs c)[l := m]\<rparr>) k = level_pending c k"
    using pending_mshr [OF cache_invD(4) [OF inv assms(2)], of m k] assms(4) by (simp split: if_splits)
  with cache_inv_mshr [OF inv assms(3)] assms(1) show ?thesis by (simp add: accounted_def)
qed

definition fill_error :: err where
  "fill_error = Throw ''Not update cacheline successfully!''"

lemma return_to_upper_ok:
  assumes "accounted g ge k P c" "u < cache_max_level g" "k \<noteq> u + 1"
  shows "(\<exists>c'. return_to_upper g u r c = Inr c' \<and> accounted g ge k P c') \<or> (\<exists>e\<in>{fill_error}. return_to_upper g u r c = Inl e)"
proof -
  let ?m = "setMshrEntryReady (getCacheBlockId (geo c) (c_addr r) u) (mshrs c ! u)"
  let ?c = "c\<lparr>mshrs := (mshrs c)[u := ?m]\<rparr>"
  have inv: "mshr_inv (mshrs c ! u)" using assms(1,2) cache_invD(1) by (auto simp: accounted_def)
  have a: "accounted g ge k P ?c"
    by (rule accounted_mshr [OF assms(1,2) setReady_inv [OF inv] setReady_contents])
  obtain ok c' where s: "setCacheBlock g (c_addr r) u ?c = (ok, c')" by fastforce
  with setCacheBlock_ok [OF a assms(2,3), of "c_addr r"] have "accounted g ge k P c'" by simp
  with a s show ?thesis by (auto simp: return_to_upper_def Let_def fill_error_def split: bool.splits)
qed

lemma pop_acks_length:
  "pop_acks bs qs = (rs, qs') \<Longrightarrow> length qs' = length qs \<and> (\<forall>b. length (qs' ! b) \<le> length (qs ! b))"
proof (induction bs arbitrary: qs rs)
  case Nil
  then show ?case by simp
next
  case (Cons b bs)
  show ?case
  proof (cases "qs ! b")
    case Nil
    with Cons show ?thesis by simp
  next
    case c: (Cons r q)
    obtain rs1 where p: "pop_acks bs (qs[b := q]) = (rs1, qs')"
      using Cons.prems c by (auto split: prod.splits)
    have "length (qs[b := q] ! i) \<le> length (qs ! i)" for i
      using c by (cases "i = b"; cases "b < length qs") (auto simp: list_update_beyond)
    with Cons.IH [OF p] show ?thesis by (metis length_list_update order_trans)
  qed
qed

lemma pop_level_ok:
  assumes "accounted g ge 0 P c" "l < cache_max_level g" "0 < l"
  shows "(\<exists>c'. pop_level g l c = Inr c' \<and> accounted g ge 0 P c') \<or> (\<exists>e\<in>{fill_error}. pop_level g l c = Inl e)"
proof -
  obtain rs qs where p: "pop_acks (bank_order (ackQueueBankPtr c ! l) (length (ackQueue c ! l))
                       (cache_bank_num (geo c) ! l)) (ackQueue c ! l) = (rs, qs)" by fastforce
  note len = pop_acks_length [OF p]
  let ?c = "c\<lparr>ackQueue := (ackQueue c)[l := qs]\<rparr>"
  have "accounted g ge 0 P ?c"
  proof -
    have inv: "cache_inv g c" using assms(1) by (simp add: accounted_def)
    note D = cache_invD [OF inv assms(2)]
    have dims: "cache_dims ?c = cache_dims c"
      using len D(6) by (simp add: cache_dims_def map_update list_update_same_conv)
    have "cache_inv g ?c"
    proof (rule cache_inv_dims [OF inv dims])
      fix i assume "queues_ok c i"
      then show "queues_ok ?c i"
        using len D(6) by (auto simp: queues_ok_def nth_list_update intro: order_trans)
    qed simp
    moreover have "level_pending ?c 0 = level_pending c 0"
      using assms(3) by (simp add: level_pending_def)
    ultimately show ?thesis using assms(1) by (simp add: accounted_def)
  qed
  then have "accounted g ge 0 P (?c\<lparr>ackQueueBankPtr := n\<rparr>)" for n
    using accounted_ackPtr by blast
  then show ?thesis
    unfolding pop_level_def p prod.case
    by (intro rfold_errors return_to_upper_ok) (use assms in simp_all)
qed

text \<open>From here on the accounting is that of the first level (\<open>k = 0\<close>).\<close>

lemma ack_from_bank_fold_ok:
  assumes "accounted g ge k P c" "l < cache_max_level g" "\<forall>b\<in>set bs. b < cache_bank_num ge ! l"
  shows "accounted g ge k P (fold (ack_from_bank l) bs c)"
  using assms by (induction bs arbitrary: c) (simp_all add: ack_from_bank_ok)

lemma ack_level_ok:
  assumes "accounted g ge 0 P c" "l < cache_max_level g"
  shows "(\<exists>c'. ack_level g l c = Inr c' \<and> accounted g ge 0 P c') \<or> (0 < l \<and> ack_level g l c = Inl fill_error)"
proof -
  have rest: "\<exists>c'. rbind (ack_from_mshr l d) (\<lambda>c. Inr (fold (ack_from_bank l) [0..<length (reqQueue c ! l)] c)) = Inr c'
      \<and> accounted g ge 0 P c'" if d: "accounted g ge 0 P d" for d
  proof -
    from ack_from_mshr_ok [OF d assms(2)] obtain d' where d': "ack_from_mshr l d = Inr d'" "accounted g ge 0 P d'" by blast
    have "length (reqQueue d' ! l) = cache_bank_num ge ! l"
      using d'(2) cache_invD(7) [OF _ assms(2)] by (auto simp: accounted_def)
    then have "accounted g ge 0 P (fold (ack_from_bank l) [0..<length (reqQueue d' ! l)] d')"
      by (intro ack_from_bank_fold_ok d'(2) assms(2)) simp
    with d'(1) show ?thesis by simp
  qed
  show ?thesis
  proof (cases "l = 0")
    case True
    with rest [OF assms(1)] show ?thesis by (simp add: ack_level_def)
  next
    case False
    with pop_level_ok [OF assms] consider d where "pop_level g l c = Inr d" "accounted g ge 0 P d"
      | "pop_level g l c = Inl fill_error" by blast
    then show ?thesis
      using rest False by cases (auto simp: ack_level_def)
  qed
qed

lemma updateAckQueue_ok:
  assumes "accounted g ge 0 P c"
  shows "(\<exists>c'. updateAckQueue g c = Inr c' \<and> accounted g ge 0 P c')
    \<or> (1 < cache_max_level g \<and> updateAckQueue g c = Inl fill_error)"
proof -
  let ?E = "if 1 < cache_max_level g then {fill_error} else {}"
  have "(\<exists>c'. updateAckQueue g c = Inr c' \<and> accounted g ge 0 P c') \<or> (\<exists>e\<in>?E. updateAckQueue g c = Inl e)"
    unfolding updateAckQueue_def using assms
  proof (rule rfold_errors)
    fix l t assume "l \<in> set (rev [0..<cache_max_level g])" "accounted g ge 0 P t"
    with ack_level_ok [of g ge P t l] show "(\<exists>t'. ack_level g l t = Inr t' \<and> accounted g ge 0 P t') \<or> (\<exists>e\<in>?E. ack_level g l t = Inl e)"
      by auto
  qed
  then show ?thesis by (auto split: if_splits)
qed

section \<open>Sending the outstanding misses\<close>

lemma send_outstanding_ok:
  assumes "accounted g ge 0 P c" "l < cache_max_level g" "send_outstanding g l v c = (ids, c')" "distinct (map fst v)"
  shows "accounted g ge 0 P c' \<and> mshrs c' = mshrs c \<and> distinct ids \<and> set ids \<subseteq> fst ` set v"
  using assms
proof (induction v arbitrary: c ids c')
  case Nil
  then show ?case by simp
next
  case (Cons p v)
  obtain i r where p: "p = (i, r)" by fastforce
  define s where "s = (if l < cache_max_level g - 1 then sendReq2CacheBank r (l + 1) c else sendReq2reqQueue2Mem g r c)"
  obtain ok c1 where o: "s = (ok, c1)" by fastforce
  obtain ids1 c2 where a: "send_outstanding g l v c1 = (ids1, c2)" by fastforce
  have "accounted g ge 0 P (snd s)"
    unfolding s_def using Cons.prems(1)
    by (auto intro: sendReq2CacheBank_ok sendReq2reqQueue2Mem_ok)
  moreover have "mshrs (snd s) = mshrs c"
    unfolding s_def using sendReq2CacheBank_same sendReq2reqQueue2Mem_same by (simp add: lines_same_def)
  ultimately have c1: "accounted g ge 0 P c1" "mshrs c1 = mshrs c" using o by simp_all
  from Cons.IH [OF c1(1) Cons.prems(2) a] Cons.prems(4)
  have IH: "accounted g ge 0 P c2" "mshrs c2 = mshrs c" "distinct ids1" "set ids1 \<subseteq> fst ` set v"
    using c1(2) by auto
  have "ids = (if ok then i # ids1 else ids1)" "c' = c2"
    using Cons.prems(3) p a unfolding p send_outstanding.simps s_def [symmetric] o by (auto split: bool.splits)
  with IH Cons.prems(4) p show ?case by auto
qed

lemma send_outstanding_level_ok:
  assumes "accounted g ge 0 P c" "l < cache_max_level g"
  shows "\<exists>c'. send_outstanding_level g l c = Inr c' \<and> accounted g ge 0 P c'"
proof -
  have inv: "mshr_inv (mshrs c ! l)" using assms cache_invD(1) by (auto simp: accounted_def)
  let ?v = "fronts (mshrs c ! l) (outstanding_ids (mshrs c ! l))"
  obtain ids c1 where s: "send_outstanding g l ?v c = (ids, c1)" by fastforce
  have "distinct (map fst ?v)" using outstanding_ids_set(2) by simp
  from send_outstanding_ok [OF assms s this]
  have c1: "accounted g ge 0 P c1" "mshrs c1 = mshrs c" "distinct ids" "set ids \<subseteq> set (outstanding_ids (mshrs c ! l))"
    by (simp_all add: fronts_def image_image)
  then have "\<forall>i\<in>set ids. i < length (mshrTable (mshrs c ! l)) \<and> e_outstanding (mshrTable (mshrs c ! l) ! i)"
    using outstanding_ids_set(1) [of "mshrs c ! l"] by auto
  from clearOutstandingFlag_ok [OF inv c1(3) this] obtain m where
    m: "clearOutstandingFlag ids (mshrs c ! l) = Inr m" "mshr_inv m" "mshr_contents m = mshr_contents (mshrs c ! l)"
    by blast
  have "accounted g ge 0 P (c1\<lparr>mshrs := (mshrs c1)[l := m]\<rparr>)"
    by (rule accounted_mshr [OF c1(1) assms(2) m(2)]) (simp add: c1(2) m(3))
  then show ?thesis
    by (simp add: send_outstanding_level_def getOutstandingReq_eq [OF inv] s c1(2) m(1))
qed

lemma sendMshrOutstandingReq_ok:
  assumes "accounted g ge 0 P c"
  shows "\<exists>c'. sendMshrOutstandingReq g c = Inr c' \<and> accounted g ge 0 P c'"
  unfolding sendMshrOutstandingReq_def using assms
  by (rule rfold_total) (simp add: send_outstanding_level_ok)

end
