(* ===== verification/CacheServer.thy ===== *)
theory CacheServer
  imports CacheQueues
begin

text \<open>
  The cache as a server of memory requests. The contract between the memory system and the cache is
  the locale \<open>request_server\<close>: what an accepted request, an internal step and a collected answer do
  to the requests that wait for an answer. The cache is an instance of it.
\<close>

section \<open>The contract\<close>

datatype ('q, 'e) server_event = Offer 'q | Step 'e | Collect nat

text \<open>A run returns the final state, the accepted requests and the collected answers.\<close>

fun server_run :: "('q \<Rightarrow> 's \<Rightarrow> (bool \<times> 's) res) \<Rightarrow> ('e \<Rightarrow> 's \<Rightarrow> 's res) \<Rightarrow> (nat \<Rightarrow> 's \<Rightarrow> ('a \<times> 's) res)
    \<Rightarrow> ('q, 'e) server_event list \<Rightarrow> 's \<Rightarrow> ('s \<times> 'q list \<times> 'a list) res" where
  "server_run add step collect [] s = Inr (s, [], [])"
| "server_run add step collect (Offer q # es) s =
     rbind (add q s) (\<lambda>(ok, s). rbind (server_run add step collect es s)
       (\<lambda>(s, qs, as). Inr (s, if ok then q # qs else qs, as)))"
| "server_run add step collect (Step e # es) s =
     rbind (step e s) (server_run add step collect es)"
| "server_run add step collect (Collect i # es) s =
     rbind (collect i s) (\<lambda>(a, s). rbind (server_run add step collect es s)
       (\<lambda>(s, qs, as). Inr (s, qs, a # as)))"

locale request_server =
  fixes inv :: "'s \<Rightarrow> bool"
    and pending :: "'s \<Rightarrow> 'r multiset"
    and asked :: "'q \<Rightarrow> 'r multiset"
    and answered :: "'a \<Rightarrow> 'r multiset"
    and add :: "'q \<Rightarrow> 's \<Rightarrow> (bool \<times> 's) res"
    and step :: "'e \<Rightarrow> 's \<Rightarrow> 's res"
    and collect :: "nat \<Rightarrow> 's \<Rightarrow> ('a \<times> 's) res"
  assumes add_law: "inv s \<Longrightarrow> add q s = Inr (ok, s') \<Longrightarrow>
        inv s' \<and> pending s' = (if ok then pending s + asked q else pending s)"
    and step_law: "inv s \<Longrightarrow> step e s = Inr s' \<Longrightarrow> inv s' \<and> pending s' = pending s"
    and collect_law: "inv s \<Longrightarrow> collect i s = Inr (a, s') \<Longrightarrow> inv s' \<and> pending s' + answered a = pending s"
begin

lemma run_conserves:
  "inv s \<Longrightarrow> server_run add step collect es s = Inr (s', qs, as) \<Longrightarrow>
     inv s' \<and> pending s' + sum_list (map answered as) = pending s + sum_list (map asked qs)"
proof (induction es arbitrary: s qs as)
  case Nil
  then show ?case by simp
next
  case (Cons e es)
  show ?case
  proof (cases e)
    case (Offer q)
    with Cons.prems(2) obtain ok t qs' where
      t: "add q s = Inr (ok, t)" "server_run add step collect es t = Inr (s', qs', as)"
      "qs = (if ok then q # qs' else qs')"
      by (auto simp: rbind_Inr_iff)
    from add_law [OF Cons.prems(1) t(1)] Cons.IH [OF _ t(2)] t(3) show ?thesis
      by (auto simp: ac_simps)
  next
    case (Step x)
    with Cons.prems(2) obtain t where t: "step x s = Inr t" "server_run add step collect es t = Inr (s', qs, as)"
      by (auto simp: rbind_Inr_iff)
    from step_law [OF Cons.prems(1) t(1)] Cons.IH [OF _ t(2)] show ?thesis by auto
  next
    case (Collect i)
    with Cons.prems(2) obtain a t as' where
      t: "collect i s = Inr (a, t)" "server_run add step collect es t = Inr (s', qs, as')" "as = a # as'"
      by (auto simp: rbind_Inr_iff)
    from collect_law [OF Cons.prems(1) t(1)] Cons.IH [OF _ t(2)] have
      "inv s'" "pending t + answered a = pending s"
      "pending s' + sum_list (map answered as') = pending t + sum_list (map asked qs)" by auto
    then show ?thesis unfolding t(3) by (simp add: ac_simps)
  qed
qed

text \<open>No answer without its request, and none twice.\<close>

lemma answers_are_asked:
  assumes "inv s" "server_run add step collect es s = Inr (s', qs, as)"
  shows "sum_list (map answered as) \<subseteq># pending s + sum_list (map asked qs)"
  using run_conserves [OF assms] by (metis mset_subset_eq_add_right)

end

section \<open>The cache as a server\<close>

text \<open>What the memory system sees of the cache: requests in the form in which they come back, without
  the mark \<open>ready\<close>; invalid requests (the answer of an empty bank) do not count.\<close>

definition client_pending :: "cache \<Rightarrow> memReq multiset" where
  "client_pending c = filter_mset m_valid (image_mset transCacheReq2MemReq (level_pending c 0))"

definition server_inv :: "config \<Rightarrow> cache \<Rightarrow> bool" where
  "server_inv g c \<longleftrightarrow> cache_inv g c \<and> no_writeBack (level_pending c 0)"

lemma server_inv_accounted: "server_inv g c \<longleftrightarrow> accounted g (geo c) 0 (level_pending c 0) c"
  by (simp add: server_inv_def accounted_def)

definition asked_of :: "memReq \<Rightarrow> memReq multiset" where
  "asked_of q = (if m_valid q
     then {#(transCacheReq2MemReq (transMemReq2CacheReq q))\<lparr>m_ready := False\<rparr>#} else {#})"

definition answered_by :: "memReq \<Rightarrow> memReq multiset" where
  "answered_by a = (if m_valid a then {#a\<lparr>m_ready := False\<rparr>#} else {#})"

text \<open>The steps of the cache and its memory between two calls of the memory system: an update, a
  completion from the memory, sending to the memory.\<close>

datatype cache_event = Update bool | MemDone memReq | SendMem

fun cache_step :: "config \<Rightarrow> ('m \<Rightarrow> u64 \<Rightarrow> bool \<Rightarrow> bool) \<Rightarrow> ('m \<Rightarrow> u64 \<Rightarrow> bool \<Rightarrow> 'm) \<Rightarrow> cache_event
    \<Rightarrow> cache \<times> 'm \<Rightarrow> (cache \<times> 'm) res" where
  "cache_step g acc snd_mem (Update b) (c, m) = rbind (cacheUpdate g b c) (\<lambda>c. Inr (c, m))"
| "cache_step g acc snd_mem (MemDone r) (c, m) = rbind (cache_mem_req_complete g r c) (\<lambda>c. Inr (c, m))"
| "cache_step g acc snd_mem SendMem (c, m) = Inr (cache_sendReq2Mem acc snd_mem c m)"

definition cache_add :: "memReq \<Rightarrow> cache \<times> 'm \<Rightarrow> (bool \<times> (cache \<times> 'm)) res" where
  "cache_add q = (\<lambda>(c, m). rbind (cache_addTransaction q c) (\<lambda>(ok, c). Inr (ok, (c, m))))"

definition cache_collect :: "nat \<Rightarrow> cache \<times> 'm \<Rightarrow> (memReq \<times> (cache \<times> 'm)) res" where
  "cache_collect i = (\<lambda>(c, m). rbind (cache_callBack i c) (\<lambda>(a, c). Inr (a, (c, m))))"

lemma updateReqQueueLatency_ok:
  assumes "accounted g ge k P c" "k < cache_max_level g"
  shows "accounted g ge k P (updateReqQueueLatency b c)"
proof (cases b)
  case True
  let ?f = "map (map (map (\<lambda>(r, lat). (r, if lat \<noteq> 0 then lat - 1 else lat)))) :: (cacheReq \<times> nat) list list list \<Rightarrow> _"
  have c': "updateReqQueueLatency b c = c\<lparr>reqQueue := ?f (reqQueue c)\<rparr>"
    using True by (simp add: updateReqQueueLatency_def)
  have inv: "cache_inv g c" using assms by (simp add: accounted_def)
  have "cache_inv g (c\<lparr>reqQueue := ?f (reqQueue c)\<rparr>)"
  proof (rule cache_inv_dims [OF inv])
    show "cache_dims (c\<lparr>reqQueue := ?f (reqQueue c)\<rparr>) = cache_dims c"
      by (simp add: cache_dims_def comp_def)
  next
    fix l assume "l < cache_max_level g" "queues_ok c l"
    then show "queues_ok (c\<lparr>reqQueue := ?f (reqQueue c)\<rparr>) l"
      using cache_invD(5,7) [OF inv] by (simp add: queues_ok_def)
  qed simp
  moreover have "level_pending (c\<lparr>reqQueue := ?f (reqQueue c)\<rparr>) k = level_pending c k"
  proof -
    have "map fst (concat (map (map (\<lambda>(r, lat). (r, if lat \<noteq> 0 then lat - 1 else lat))) q)) = map fst (concat q)"
      for q :: "(cacheReq \<times> nat) list list"
      by (induction q) auto
    with cache_invD(5) [OF inv assms(2)] show ?thesis by (simp add: level_pending_def)
  qed
  ultimately show ?thesis unfolding c' using assms(1) by (simp add: accounted_def)
next
  case False
  with assms show ?thesis by (simp add: updateReqQueueLatency_def)
qed

lemma reset_ok: "accounted g ge k P (resetBankConflictRecorder c) = accounted g ge k P c"
  by (rule accounted_cong) (simp_all add: resetBankConflictRecorder_def cache_dims_def comp_def)

lemma accounted_pos: "accounted g ge k P c \<Longrightarrow> 0 < cache_max_level g"
  by (simp add: accounted_def cache_inv_def)

lemma cacheUpdate_ok:
  assumes "accounted g ge 0 P c"
  shows "(\<exists>c'. cacheUpdate g b c = Inr c' \<and> accounted g ge 0 P c')
    \<or> (1 < cache_max_level g \<and> cacheUpdate g b c = Inl fill_error)"
proof -
  note pos = accounted_pos [OF assms]
  from assms have "accounted g ge 0 P (resetBankConflictRecorder c)" by (simp add: reset_ok)
  from updateAckQueue_ok [OF this] show ?thesis
  proof (elim disjE exE conjE)
    fix c1 assume c1: "updateAckQueue g (resetBankConflictRecorder c) = Inr c1" "accounted g ge 0 P c1"
    from sendMshrOutstandingReq_ok [OF c1(2)] obtain c2 where c2: "sendMshrOutstandingReq g c1 = Inr c2" "accounted g ge 0 P c2" by blast
    from updateReqQueue_ok [OF c2(2)] obtain c3 where c3: "updateReqQueue g c2 = Inr c3" "accounted g ge 0 P c3" by blast
    from updateReqQueueLatency_ok [OF c3(2) pos] c1 c2 c3 show ?thesis by (simp add: cacheUpdate_def)
  next
    assume "1 < cache_max_level g" "updateAckQueue g (resetBankConflictRecorder c) = Inl fill_error"
    then show ?thesis by (simp add: cacheUpdate_def)
  qed
qed

lemma mem_req_complete_ok:
  assumes "accounted g ge 0 P c" "cache_mem_req_complete g r c = Inr c'"
  shows "accounted g ge 0 P c'"
proof -
  define l where "l = cache_max_level g - 1"
  let ?l = l and ?a = "m_addr r"
  have l: "?l < cache_max_level g" "0 \<noteq> ?l + 1" using accounted_pos [OF assms(1)] by (simp_all add: l_def)
  have fin: "accounted g ge 0 P (d\<lparr>mshrs := (mshrs d)[?l := setMshrEntryReady b (mshrs d ! ?l)]\<rparr>)"
    if "accounted g ge 0 P d" for d b
    using that l(1) cache_invD(1)
    by (intro accounted_mshr [OF that l(1)] setReady_inv setReady_contents) (auto simp: accounted_def)
  have free: "accounted g ge 0 P (set_cache_line i ?a ?l d)"
    if "get_cache_free_line g base ?l c = (Some i, d)" for i d base
    using get_cache_free_line_ok [OF assms(1) l, of base] that by (simp add: accounted_set_cache_line)
  have "accounted g ge 0 P ((set_cache_line i ?a ?l d)\<lparr>mshrs := (mshrs d)[?l := setMshrEntryReady b (mshrs d ! ?l)]\<rparr>)"
    if "get_cache_free_line g base ?l c = (Some i, d)" for i d base b
    using fin [OF free [OF that]] by simp
  then show ?thesis
    using assms unfolding cache_mem_req_complete_def Let_def l_def [symmetric]
    by (auto simp: rbind_Inr_iff split: if_splits option.splits prod.splits intro!: fin)
qed

lemma sendReq2Mem_ok: "accounted g ge k P (fst (cache_sendReq2Mem a s c m)) = accounted g ge k P c"
  by (rule trans [OF _ accounted_cong [of "fst (cache_sendReq2Mem a s c m)"]])
    (simp_all add: cache_sendReq2Mem_def cache_dims_def split: prod.splits)

lemma cache_step_ok:
  assumes "accounted g ge 0 P (fst s)" "cache_step g a w e s = Inr s'"
  shows "accounted g ge 0 P (fst s')"
proof -
  obtain c m where s: "s = (c, m)" by fastforce
  show ?thesis
  proof (cases e)
    case (Update b)
    with assms s cacheUpdate_ok [of g ge P c b] show ?thesis by (auto simp: rbind_Inr_iff)
  next
    case (MemDone r)
    with assms s mem_req_complete_ok [of g ge P c r] show ?thesis by (auto simp: rbind_Inr_iff)
  next
    case SendMem
    with assms s sendReq2Mem_ok [of g ge 0 P a w c m] show ?thesis by auto
  qed
qed

lemma trans_ready [simp]: "transCacheReq2MemReq (r\<lparr>c_ready := b\<rparr>) = (transCacheReq2MemReq r)\<lparr>m_ready := b\<rparr>"
  by (simp add: transCacheReq2MemReq_def)

lemma cache_add_law:
  assumes "server_inv g (fst s)" "cache_add q s = Inr (ok, s')"
  shows "server_inv g (fst s') \<and> client_pending (fst s') =
    (if ok then client_pending (fst s) + asked_of q else client_pending (fst s))"
proof -
  obtain c m where s: "s = (c, m)" by fastforce
  have inv: "cache_inv g c" and wb: "no_writeBack (level_pending c 0)"
    using assms(1) s by (simp_all add: server_inv_def)
  have pos: "0 < cache_max_level g" using inv by (simp add: cache_inv_def)
  note D = cache_invD [OF inv pos]
  let ?r = "transMemReq2CacheReq q"
  let ?b = "getCacheBank (geo c) (c_addr ?r) 0"
  have b: "?b < cache_bank_num (geo c) ! 0" by (rule getCacheBank_less [OF D(9) pos])
  let ?f = "\<lambda>x. x @ [(?r, cache_access_latency (geo c) ! 0)]"
  let ?c = "c\<lparr>reqQueue := upd2 0 ?b ?f (reqQueue c)\<rparr>"
  obtain c' where c': "s' = (c', m)" "sendReq2CacheBank ?r 0 c = (ok, c')"
    using assms(2) D(5) by (auto simp: s cache_add_def cache_addTransaction_def split: prod.splits)
  have op: "c_cacheOp ?r \<noteq> WRITEBACK_DIRTY_BLOCK" and v: "m_valid (transCacheReq2MemReq ?r) = m_valid q"
    by (simp_all add: transMemReq2CacheReq_def transCacheReq2MemReq_def)
  show ?thesis
  proof (cases "length (reqQueue c ! 0 ! ?b) < reqQueueSizePerBank (geo c) ! 0 \<and> \<not> reqBankConflict c ! 0 ! ?b")
    case True
    then have ok: "ok" and e: "c' = ?c\<lparr>reqBankConflict := upd2 0 ?b (\<lambda>_. True) (reqBankConflict c)\<rparr>"
      using c'(2) by (auto simp: sendReq2CacheBank_def Let_def)
    have inv1: "cache_inv g ?c" using True by (intro cache_inv_reqQueue inv) simp
    have "level_pending ?c 0 = level_pending c 0 + {#?r\<lparr>c_ready := False\<rparr>#}"
      using pending_reqQueue [of 0 c ?b ?f 0] D(5,7) b op by simp
    moreover have "cache_inv g c'" "level_pending c' 0 = level_pending ?c 0"
      using cache_inv_cong(1) [of c' ?c g] cache_inv_cong(2) [of c' ?c 0] inv1 by (simp_all add: e cache_dims_def)
    ultimately show ?thesis
      using ok v wb op by (auto simp: c' s client_pending_def asked_of_def server_inv_def)
  next
    case False
    then have "\<not> ok" "c' = c" using c'(2) by (auto simp: sendReq2CacheBank_def Let_def)
    with inv wb show ?thesis by (simp add: c' s server_inv_def)
  qed
qed

lemma cache_collect_law:
  assumes "server_inv g (fst s)" "cache_collect i s = Inr (a, s')"
  shows "server_inv g (fst s') \<and> client_pending (fst s') + answered_by a = client_pending (fst s)"
proof -
  obtain c m where s: "s = (c, m)" by fastforce
  have inv: "cache_inv g c" and wb: "no_writeBack (level_pending c 0)"
    using assms(1) s by (simp_all add: server_inv_def)
  have pos: "0 < cache_max_level g" using inv by (simp add: cache_inv_def)
  note D = cache_invD [OF inv pos]
  have i: "i < length (ackQueue c ! 0)"
    using assms(2) by (auto simp: s cache_collect_def cache_callBack_def split: if_splits)
  show ?thesis
  proof (cases "ackQueue c ! 0 ! i")
    case Nil
    with assms(2) i inv wb show ?thesis
      by (auto simp: s server_inv_def cache_collect_def cache_callBack_def answered_by_def memReq0_def)
  next
    case (Cons r q)
    let ?c = "c\<lparr>ackQueue := upd2 0 i (\<lambda>_. q) (ackQueue c)\<rparr>"
    have a: "a = transCacheReq2MemReq r" "s' = (?c, m)"
      using assms(2) i Cons by (auto simp: s cache_collect_def cache_callBack_def)
    have "length (ackQueue c ! 0 ! i) \<le> ackQueueSizePerBank (geo c) ! 0"
      using D(2,8) i by (simp add: queues_ok_def)
    then have "cache_inv g ?c" using Cons by (intro cache_inv_ackQueue inv) simp
    moreover have "level_pending c 0 = level_pending ?c 0 + live {#r#}"
      using pending_ackQueue [of 0 c i "\<lambda>_. q" 0] D(6) i Cons by simp
    ultimately show ?thesis
      using wb by (auto simp: a s server_inv_def client_pending_def answered_by_def)
  qed
qed

lemma cache_step_law:
  assumes "server_inv g (fst s)" "cache_step g a w e s = Inr s'"
  shows "server_inv g (fst s') \<and> client_pending (fst s') = client_pending (fst s)"
  using cache_step_ok [OF assms(1) [unfolded server_inv_accounted] assms(2)]
  by (auto simp: server_inv_def accounted_def client_pending_def)

interpretation srv: request_server "\<lambda>s. server_inv g (fst s)" "\<lambda>s. client_pending (fst s)" asked_of
    answered_by cache_add "cache_step g acc snd_mem" cache_collect
  for g acc snd_mem
  by unfold_locales (rule cache_add_law cache_step_law cache_collect_law, assumption+)+

section \<open>The initial cache\<close>

lemma geo_wf_init:
  assumes "\<forall>p\<in>set ls. 0 < a_mapping_ways p \<and> 0 < a_bankNum p
      \<and> 0 < a_cache_size p div a_cache_line_size p div a_mapping_ways p"
  shows "geo_wf (length ls) (init_geometry ls)"
  using assms by (auto simp: geo_wf_def init_geometry_def Let_def intro!: ilog2_le)

lemma a_levels_length: "a_levels g \<noteq> [] \<Longrightarrow> length (a_levels g) = cache_max_level g"
  by (auto simp: a_levels_def)

lemma cache_init_ok:
  assumes "cache_init g rs = Inr c"
    "\<forall>p\<in>set (a_levels g). 0 < a_bankNum p \<and> 0 < fst (a_mshrPara p)"
  shows "server_inv g c \<and> client_pending c = {#}"
proof -
  let ?ls = "a_levels g"
  have chk: "0 < cache_max_level g" "length ?ls = cache_max_level g"
    and nz: "\<forall>p\<in>set ?ls. 0 < a_cache_line_size p \<and> 0 < a_mapping_ways p
        \<and> 0 < a_cache_size p div a_cache_line_size p div a_mapping_ways p"
    using assms(1) by (auto simp: cache_init_def config_check_def Let_def list_ex_iff split: if_splits)
  have c: "geo c = init_geometry ?ls"
    "caches c = map (\<lambda>p. replicate (a_cache_size p div a_cache_line_size p) cacheLine0) ?ls"
    "mshrs c = map (\<lambda>p. mshrInit (fst (a_mshrPara p)) (snd (a_mshrPara p))) ?ls"
    "reqQueue c = map (\<lambda>p. replicate (a_bankNum p) []) ?ls"
    "ackQueue c = map (\<lambda>p. replicate (a_bankNum p) (replicate (a_ackQueueSizePerBank p) cacheReq0)) ?ls"
    "reqBankConflict c = map (\<lambda>p. replicate (a_bankNum p) False) ?ls"
    "ackBankConflict c = map (\<lambda>p. replicate (a_bankNum p) False) ?ls"
    using assms(1) by (auto simp: cache_init_def rbind_Inr_iff Let_def split: if_splits)
  have "cache_wf (cache_max_level g) c"
    using geo_wf_init [of ?ls] nz assms(2) unfolding cache_wf_def c chk(2)
    by (simp add: chk(2) init_geometry_def Let_def)
  moreover have "queues_ok c l" if "l < cache_max_level g" for l
    using that chk(2) by (simp add: queues_ok_def c init_geometry_def Let_def)
  moreover have "mshr_inv (mshrs c ! l)" "write_strategy (geo c) ! l = WRITE_BACK" if "l < cache_max_level g" for l
    using that chk(2) assms(2) by (auto simp: c init_geometry_def Let_def intro!: mshr_inv_init)
  ultimately have inv: "cache_inv g c" using chk(1) by (simp add: cache_inv_def)
  have "level_pending c 0 = live (mset (concat (ackQueue c ! 0)))"
    using chk by (simp add: level_pending_def c)
  moreover have "set (concat (ackQueue c ! 0)) \<subseteq> {cacheReq0}"
    using chk by (auto simp: c)
  then have "\<forall>r\<in>#live (mset (concat (ackQueue c ! 0))). r = cacheReq0"
    by (auto simp: live_def cacheReq0_def)
  ultimately have all: "\<forall>r\<in>#level_pending c 0. r = cacheReq0" by simp
  have "c_cacheOp cacheReq0 \<noteq> WRITEBACK_DIRTY_BLOCK" by (simp add: cacheReq0_def)
  with all have "no_writeBack (level_pending c 0)" by metis
  moreover have inval: "\<not> m_valid (transCacheReq2MemReq cacheReq0)"
    by (simp add: transCacheReq2MemReq_def cacheReq0_def memReq0_def)
  have "client_pending c = {#}"
    unfolding client_pending_def filter_mset_eq_mempty_iff using all inval by auto
  ultimately show ?thesis using inv by (simp add: server_inv_def)
qed

text \<open>C7: a cache that \<open>init\<close> constructs with at least one bank and one miss-table entry per level
  satisfies the invariant that all operations keep, and has no pending request: the default requests
  with which \<open>resize\<close> fills the acknowledgement queues are invalid ones.\<close>

theorem cache_init_server:
  assumes "cache_init g rs = Inr c"
    "\<forall>p\<in>set (a_levels g). 0 < a_bankNum p \<and> 0 < fst (a_mshrPara p)"
  shows "server_inv g c \<and> client_pending c = {#}"
  using assms by (rule cache_init_ok)

theorem cache_init_server_witness: "server_inv cfg_demo cache_demo \<and> client_pending cache_demo = {#}"
proof -
  have "\<not> isl (cache_init cfg_demo [])" by code_simp
  then obtain c where c: "cache_init cfg_demo [] = Inr c"
    by (cases "cache_init cfg_demo []") auto
  have "\<forall>p\<in>set (a_levels cfg_demo). 0 < a_bankNum p \<and> 0 < fst (a_mshrPara p)" by code_simp
  from cache_init_server [OF c this] c show ?thesis by (simp add: cache_demo_def)
qed

lemma cache_demo_server: "server_inv cfg_demo cache_demo"
  unfolding server_inv_def cache_inv_def by code_simp

section \<open>Properties\<close>

text \<open>C6: an update of a cache in a state that its operations reach never accesses a queue, a table or
  a line out of bounds, never fails to find room in the miss table, and ends in such a state again,
  with the same requests of the memory system waiting. The one error it can report is that a block
  could not be brought into an upper level, and not with one level only.\<close>

theorem cacheUpdate_outcome:
  assumes "server_inv g c"
  shows "case cacheUpdate g clkAdded c of
      Inr c' \<Rightarrow> server_inv g c' \<and> level_pending c' 0 = level_pending c 0
    | Inl e \<Rightarrow> 1 < cache_max_level g \<and> e = Throw ''Not update cacheline successfully!''"
  using cacheUpdate_ok [OF assms [unfolded server_inv_accounted], of clkAdded]
  by (auto simp: server_inv_def accounted_def fill_error_def)

theorem cacheUpdate_outcome_witness:
  "\<exists>c'. cacheUpdate cfg_demo True cache_demo = Inr c' \<and> server_inv cfg_demo c'"
  using cacheUpdate_outcome [OF cache_demo_server, of True]
  by (cases "cacheUpdate cfg_demo True cache_demo") (simp_all add: cfg_demo_def)

text \<open>C1: every request that the cache accepts is answered at most once and is kept until it is
  answered. Over any sequence of calls of the memory system, updates of the cache, completions from
  the memory and sends to the memory, and for every memory: the valid answers that were collected and
  the requests that still wait are together exactly the valid requests that were accepted and those
  that waited at the start, with their address, direction and the slot they came from.\<close>

theorem cache_answers_once:
  assumes "server_inv g c"
    "server_run cache_add (cache_step g willAccept addTransaction) cache_collect es (c, mem)
       = Inr ((c', mem'), asks, answers)"
  shows "server_inv g c'
    \<and> client_pending c' + sum_list (map answered_by answers) = client_pending c + sum_list (map asked_of asks)
    \<and> sum_list (map answered_by answers) \<subseteq># client_pending c + sum_list (map asked_of asks)"
  using srv.run_conserves [OF _ assms(2)] srv.answers_are_asked [OF _ assms(2)] assms(1) by simp

text \<open>A run of the small cache: room is made in the acknowledgement bank, a read is offered, misses,
  goes to the memory, comes back and is collected.\<close>

definition demo_events :: "(memReq, cache_event) server_event list" where
  "demo_events = [Collect 1, Collect 1, Offer (memReq0\<lparr>m_valid := True, m_addr := 8, m_lseId := 3\<rparr>),
     Step SendMem, Step (Update True), Step (Update True), Step SendMem, Step (MemDone (memReq0\<lparr>m_addr := 8\<rparr>)),
     Step (Update True), Collect 1]"

abbreviation demo_run :: "((cache \<times> unit) \<times> memReq list \<times> memReq list) res" where
  "demo_run \<equiv> server_run cache_add (cache_step cfg_demo (\<lambda>_ _ _. True) (\<lambda>m _ _. m)) cache_collect
     demo_events (cache_demo, ())"

lemma demo_run_result:
  "\<not> isl demo_run \<and> map m_addr (filter m_valid (snd (snd (projr demo_run)))) = [8]"
  by code_simp

theorem cache_answers_once_witness:
  "\<exists>c' asks answers. demo_run = Inr ((c', ()), asks, answers) \<and> map m_addr (filter m_valid answers) = [8]
     \<and> client_pending c' + sum_list (map answered_by answers) = sum_list (map asked_of asks)"
proof -
  obtain c' asks answers where r: "demo_run = Inr ((c', ()), asks, answers)"
    using demo_run_result by (cases demo_run) (auto simp del: server_run.simps)
  have "client_pending cache_demo = {#}" by code_simp
  with cache_answers_once [OF cache_demo_server r] r demo_run_result show ?thesis by auto
qed

end
