(* ===== verification/Spm.thy ===== *)
theory Spm
  imports CacheServer
begin

text \<open>
  The scratchpad memory (\<open>module/mem/Spm.cpp\<close>): a table of request slots in front of the DRAM, the
  second instance of the contract \<open>request_server\<close>.
\<close>

section \<open>State and operations\<close>

record spm =
  sendPtr :: nat
  spm_reqQueue :: "(memReq \<times> nat) list"
  spm_memAccessCnt :: nat

definition spm_new :: "config \<Rightarrow> spm" where
  "spm_new g = \<lparr>sendPtr = 0, spm_reqQueue = replicate (spm_req_queue_size g) (memReq0, 0), spm_memAccessCnt = 0\<rparr>"

definition spm_addTransaction :: "config \<Rightarrow> memReq \<Rightarrow> spm \<Rightarrow> bool \<times> spm" where
  "spm_addTransaction g req s =
     (case first_index (\<lambda>e. \<not> m_valid (fst e)) (spm_reqQueue s) of
        Some i \<Rightarrow> (True, s\<lparr>spm_reqQueue := (spm_reqQueue s)
                     [i := (req\<lparr>m_spmReqQueueIndex := i\<rparr>, spm_access_latency g)]\<rparr>)
      | None \<Rightarrow> (False, s))"

definition spm_callBack :: "spm \<Rightarrow> memReq list \<times> spm" where
  "spm_callBack s =
     (map fst (filter (\<lambda>e. m_valid (fst e) \<and> m_ready (fst e)) (spm_reqQueue s)),
      s\<lparr>spm_reqQueue := map (\<lambda>(r, lat). if m_valid r \<and> m_ready r then (r\<lparr>m_valid := False\<rparr>, lat) else (r, lat))
           (spm_reqQueue s)\<rparr>)"

text \<open>\<open>spm_send n\<close> is the loop of \<open>sendReq2Mem\<close> with \<open>n\<close> iterations left: a round over the slots from
  \<open>sendPtr\<close>, which stays on the slot whose request the memory does not accept.\<close>

fun spm_send :: "('m \<Rightarrow> u64 \<Rightarrow> bool \<Rightarrow> bool) \<Rightarrow> ('m \<Rightarrow> u64 \<Rightarrow> bool \<Rightarrow> 'm) \<Rightarrow> nat \<Rightarrow> spm \<Rightarrow> 'm \<Rightarrow> (spm \<times> 'm) res" where
  "spm_send willAccept add 0 s mem = Inr (s, mem)"
| "spm_send willAccept add (Suc n) s mem =
     (if sendPtr s < length (spm_reqQueue s) then
        let (req, latency) = spm_reqQueue s ! sendPtr s;
            next_ptr = (sendPtr s + 1) mod length (spm_reqQueue s)
        in if m_valid req \<and> \<not> m_inflight req \<and> \<not> m_ready req \<and> latency = 0
           then if willAccept mem (m_addr req) (m_isWrite req)
                then spm_send willAccept add n
                       (s\<lparr>spm_reqQueue := (spm_reqQueue s)[sendPtr s := (req\<lparr>m_inflight := True\<rparr>, latency)],
                          spm_memAccessCnt := spm_memAccessCnt s + 1, sendPtr := next_ptr\<rparr>)
                       (add mem (m_addr req) (m_isWrite req))
                else Inr (s, mem)
           else spm_send willAccept add n (s\<lparr>sendPtr := next_ptr\<rparr>) mem
      else Inl OutOfBounds)"

definition spm_sendReq2Mem :: "('m \<Rightarrow> u64 \<Rightarrow> bool \<Rightarrow> bool) \<Rightarrow> ('m \<Rightarrow> u64 \<Rightarrow> bool \<Rightarrow> 'm) \<Rightarrow> spm \<Rightarrow> 'm \<Rightarrow> (spm \<times> 'm) res" where
  "spm_sendReq2Mem willAccept add s mem = spm_send willAccept add (length (spm_reqQueue s)) s mem"

definition spm_reqQueueUpdate :: "bool \<Rightarrow> spm \<Rightarrow> spm" where
  "spm_reqQueueUpdate clkAdded s =
     (if clkAdded then s\<lparr>spm_reqQueue := map (\<lambda>(r, lat). (r, if lat \<noteq> 0 then lat - 1 else lat)) (spm_reqQueue s)\<rparr>
      else s)"

definition spmUpdate :: "bool \<Rightarrow> spm \<Rightarrow> spm" where
  "spmUpdate clkAdded s = spm_reqQueueUpdate clkAdded s"

definition spm_mem_req_complete :: "memReq \<Rightarrow> spm \<Rightarrow> spm" where
  "spm_mem_req_complete req s =
     (case first_index (\<lambda>(r, lat). m_valid r \<and> \<not> m_ready r \<and> m_addr r = m_addr req \<and> m_isWrite r = m_isWrite req)
             (spm_reqQueue s) of
        Some i \<Rightarrow> s\<lparr>spm_reqQueue := (spm_reqQueue s)
            [i := (case spm_reqQueue s ! i of (r, lat) \<Rightarrow> (r\<lparr>m_ready := True, m_inflight := False\<rparr>, lat))]\<rparr>
      | None \<Rightarrow> s)"

section \<open>Accounting\<close>

text \<open>Requests are compared without the marks that the table sets on them.\<close>

definition spm_plain :: "memReq \<Rightarrow> memReq" where
  "spm_plain r = r\<lparr>m_ready := False, m_inflight := False, m_spmReqQueueIndex := 0\<rparr>"

definition spm_asked :: "memReq \<Rightarrow> memReq multiset" where
  "spm_asked r = (if m_valid r then {#spm_plain r#} else {#})"

definition slots_pending :: "(memReq \<times> nat) list \<Rightarrow> memReq multiset" where
  "slots_pending q = sum_list (map (\<lambda>e. spm_asked (fst e)) q)"

definition spm_pending :: "spm \<Rightarrow> memReq multiset" where
  "spm_pending s = slots_pending (spm_reqQueue s)"

definition spm_answered :: "memReq list \<Rightarrow> memReq multiset" where
  "spm_answered rs = mset (map spm_plain rs)"

definition spm_inv :: "spm \<Rightarrow> bool" where
  "spm_inv s \<longleftrightarrow> (spm_reqQueue s \<noteq> [] \<longrightarrow> sendPtr s < length (spm_reqQueue s))"

datatype spm_event = SpmUpdate bool | SpmDone memReq | SpmSend

fun spm_step :: "('m \<Rightarrow> u64 \<Rightarrow> bool \<Rightarrow> bool) \<Rightarrow> ('m \<Rightarrow> u64 \<Rightarrow> bool \<Rightarrow> 'm) \<Rightarrow> spm_event \<Rightarrow> spm \<times> 'm \<Rightarrow> (spm \<times> 'm) res" where
  "spm_step acc snd_mem (SpmUpdate b) (s, m) = Inr (spmUpdate b s, m)"
| "spm_step acc snd_mem (SpmDone r) (s, m) = Inr (spm_mem_req_complete r s, m)"
| "spm_step acc snd_mem SpmSend (s, m) = spm_sendReq2Mem acc snd_mem s m"

definition spm_add :: "config \<Rightarrow> memReq \<Rightarrow> spm \<times> 'm \<Rightarrow> (bool \<times> (spm \<times> 'm)) res" where
  "spm_add g q = (\<lambda>(s, m). case spm_addTransaction g q s of (ok, s) \<Rightarrow> Inr (ok, (s, m)))"

definition spm_collect :: "nat \<Rightarrow> spm \<times> 'm \<Rightarrow> (memReq list \<times> (spm \<times> 'm)) res" where
  "spm_collect i = (\<lambda>(s, m). case spm_callBack s of (rs, s) \<Rightarrow> Inr (rs, (s, m)))"

lemma spm_asked_marks [simp]:
  "spm_asked (r\<lparr>m_ready := b\<rparr>) = spm_asked r" "spm_asked (r\<lparr>m_inflight := b\<rparr>) = spm_asked r"
  "spm_asked (r\<lparr>m_spmReqQueueIndex := i\<rparr>) = spm_asked r" "spm_asked (r\<lparr>m_ready := b, m_inflight := d\<rparr>) = spm_asked r"
  by (simp_all add: spm_asked_def spm_plain_def)

lemma spm_pending_update:
  "i < length q \<Longrightarrow> slots_pending (q[i := x]) + spm_asked (fst (q ! i)) = slots_pending q + spm_asked (fst x)"
  unfolding slots_pending_def by (rule sum_list_update_add)

lemma spm_add_law:
  assumes "spm_inv (fst s)" "spm_add g q s = Inr (ok, s')"
  shows "spm_inv (fst s') \<and> spm_pending (fst s') = (if ok then spm_pending (fst s) + spm_asked q else spm_pending (fst s))"
proof -
  obtain p m where s: "s = (p, m)" by fastforce
  show ?thesis
  proof (cases "first_index (\<lambda>e. \<not> m_valid (fst e)) (spm_reqQueue p)")
    case None
    with assms show ?thesis by (auto simp: s spm_add_def spm_addTransaction_def)
  next
    case (Some i)
    note i = first_index_less [OF Some] first_index_sat [OF Some]
    then have "spm_asked (fst (spm_reqQueue p ! i)) = {#}" by (simp add: spm_asked_def)
    with spm_pending_update [OF i(1), of "(q\<lparr>m_spmReqQueueIndex := i\<rparr>, spm_access_latency g)"] assms Some
    show ?thesis by (auto simp: s spm_add_def spm_addTransaction_def spm_pending_def spm_inv_def)
  qed
qed

lemma spm_collect_law:
  assumes "spm_inv (fst s)" "spm_collect i s = Inr (rs, s')"
  shows "spm_inv (fst s') \<and> spm_pending (fst s') + spm_answered rs = spm_pending (fst s)"
proof -
  obtain p m where s: "s = (p, m)" by fastforce
  let ?clr = "\<lambda>(r, lat). if m_valid r \<and> m_ready r then (r\<lparr>m_valid := False\<rparr>, lat) else (r, lat)"
  let ?rdy = "\<lambda>e. m_valid (fst e) \<and> m_ready (fst e)"
  have "slots_pending (map ?clr q) + spm_answered (map fst (filter ?rdy q)) = slots_pending q" for q :: "(memReq \<times> nat) list"
  proof (induction q)
    case Nil
    then show ?case by (simp add: slots_pending_def spm_answered_def)
  next
    case (Cons e q)
    then show ?case by (cases e) (auto simp: slots_pending_def spm_answered_def spm_asked_def ac_simps)
  qed
  from this [of "spm_reqQueue p"] assms show ?thesis
    by (auto simp: s spm_collect_def spm_callBack_def spm_pending_def spm_inv_def)
qed

lemma spm_send_law:
  "spm_inv s \<Longrightarrow> n \<le> length (spm_reqQueue s) \<Longrightarrow>
     \<exists>s' mem'. spm_send acc add n s mem = Inr (s', mem') \<and> spm_inv s' \<and> spm_pending s' = spm_pending s"
proof (induction n arbitrary: s mem)
  case 0
  then show ?case by simp
next
  case (Suc n)
  let ?q = "spm_reqQueue s" and ?p = "sendPtr s"
  obtain r lat where e: "?q ! ?p = (r, lat)" by fastforce
  have p: "?p < length ?q" "?q \<noteq> []" using Suc.prems by (auto simp: spm_inv_def)
  have nxt: "(?p + 1) mod length ?q < length ?q" using p by simp
  let ?s1 = "s\<lparr>spm_reqQueue := ?q[?p := (r\<lparr>m_inflight := True\<rparr>, lat)],
                 spm_memAccessCnt := spm_memAccessCnt s + 1, sendPtr := (?p + 1) mod length ?q\<rparr>"
  have s1: "spm_inv ?s1" "spm_pending ?s1 = spm_pending s"
    using spm_pending_update [OF p(1), of "(r\<lparr>m_inflight := True\<rparr>, lat)"] nxt e by (simp_all add: spm_inv_def spm_pending_def)
  have s2: "spm_inv (s\<lparr>sendPtr := (?p + 1) mod length ?q\<rparr>)" "spm_pending (s\<lparr>sendPtr := (?p + 1) mod length ?q\<rparr>) = spm_pending s"
    using nxt by (simp_all add: spm_inv_def spm_pending_def)
  have n: "n \<le> length (spm_reqQueue ?s1)" "n \<le> length (spm_reqQueue (s\<lparr>sendPtr := (?p + 1) mod length ?q\<rparr>))"
    using Suc.prems(2) by simp_all
  show ?case
  proof (cases "m_valid r \<and> \<not> m_inflight r \<and> \<not> m_ready r \<and> lat = 0")
    case True
    show ?thesis
    proof (cases "acc mem (m_addr r) (m_isWrite r)")
      case acc: True
      have "spm_send acc add (Suc n) s mem = spm_send acc add n ?s1 (add mem (m_addr r) (m_isWrite r))"
        using True acc p(1) e by simp
      with Suc.IH [OF s1(1) n(1)] s1(2) show ?thesis by metis
    next
      case False
      with True p(1) e Suc.prems(1) show ?thesis by simp
    qed
  next
    case False
    then have "spm_send acc add (Suc n) s mem = spm_send acc add n (s\<lparr>sendPtr := (?p + 1) mod length ?q\<rparr>) mem"
      using p(1) e by auto
    with Suc.IH [OF s2(1) n(2)] s2(2) show ?thesis by metis
  qed
qed

lemma spm_step_law:
  assumes "spm_inv (fst s)" "spm_step acc add e s = Inr s'"
  shows "spm_inv (fst s') \<and> spm_pending (fst s') = spm_pending (fst s)"
proof -
  obtain p m where s: "s = (p, m)" by fastforce
  show ?thesis
  proof (cases e)
    case (SpmUpdate b)
    have "slots_pending (map (\<lambda>(r, lat). (r, if lat \<noteq> 0 then lat - 1 else lat)) q) = slots_pending q" for q
      by (induction q) (auto simp: slots_pending_def)
    with SpmUpdate assms show ?thesis
      by (cases b) (auto simp: s spmUpdate_def spm_reqQueueUpdate_def spm_pending_def spm_inv_def)
  next
    case (SpmDone r)
    show ?thesis
    proof (cases "first_index (\<lambda>(x, lat). m_valid x \<and> \<not> m_ready x \<and> m_addr x = m_addr r \<and> m_isWrite x = m_isWrite r)
             (spm_reqQueue p)")
      case None
      with SpmDone assms show ?thesis by (auto simp: s spm_mem_req_complete_def)
    next
      case (Some i)
      obtain x lat where e: "spm_reqQueue p ! i = (x, lat)" by fastforce
      from spm_pending_update [OF first_index_less [OF Some], of "(x\<lparr>m_ready := True, m_inflight := False\<rparr>, lat)"] e
        Some SpmDone assms
      show ?thesis by (auto simp: s spm_mem_req_complete_def spm_pending_def spm_inv_def)
    qed
  next
    case SpmSend
    with assms spm_send_law [of p "length (spm_reqQueue p)" acc add m] show ?thesis
      by (auto simp: s spm_sendReq2Mem_def)
  qed
qed

interpretation spms: request_server "\<lambda>s. spm_inv (fst s)" "\<lambda>s. spm_pending (fst s)" spm_asked spm_answered
    "spm_add g" "spm_step acc snd_mem" spm_collect
  for g acc snd_mem
  by unfold_locales (rule spm_add_law spm_step_law spm_collect_law, assumption+)+

lemma spm_new_inv [inv_intros]: "spm_inv (spm_new g)" and spm_new_pending [simp]: "spm_pending (spm_new g) = {#}"
proof -
  show "spm_inv (spm_new g)" by (auto simp: spm_inv_def spm_new_def)
  have "slots_pending (replicate n (memReq0, 0)) = {#}" for n
    by (induction n) (simp_all add: slots_pending_def spm_asked_def memReq0_def)
  then show "spm_pending (spm_new g) = {#}" by (simp add: spm_pending_def spm_new_def)
qed

section \<open>Property\<close>

text \<open>C16: the scratchpad answers every valid request it accepted at most once and keeps it until then:
  over any sequence of calls and for every memory, answers and waiting requests are together exactly
  the accepted requests.\<close>

theorem spm_answers_once:
  assumes "server_run (spm_add g) (spm_step willAccept addTransaction) spm_collect es (spm_new g, mem)
       = Inr ((s', mem'), asks, answers)"
  shows "spm_inv s' \<and> spm_pending s' + sum_list (map spm_answered answers) = sum_list (map spm_asked asks)"
  using spms.run_conserves [OF _ assms] spm_new_inv by simp

theorem spm_answers_once_witness:
  "\<exists>s' answers. server_run (spm_add (cfg_demo\<lparr>spm_req_queue_size := 1\<rparr>)) (spm_step (\<lambda>_ _ _. True) (\<lambda>m _ _. m)) spm_collect
      [Offer (memReq0\<lparr>m_valid := True, m_addr := 4\<rparr>), Step SpmSend, Step (SpmDone (memReq0\<lparr>m_addr := 4\<rparr>)), Collect 0]
      (spm_new (cfg_demo\<lparr>spm_req_queue_size := 1\<rparr>), ()) = Inr ((s', ()), [memReq0\<lparr>m_valid := True, m_addr := 4\<rparr>], answers)
    \<and> spm_pending s' + sum_list (map spm_answered answers) = {#memReq0\<lparr>m_valid := True, m_addr := 4\<rparr>#}
    \<and> map (map m_addr) answers = [[4]]"
proof -
  let ?q = "memReq0\<lparr>m_valid := True, m_addr := 4\<rparr>" and ?g = "cfg_demo\<lparr>spm_req_queue_size := 1\<rparr>"
  let ?run = "server_run (spm_add ?g) (spm_step (\<lambda>_ _ _. True) (\<lambda>m _ _. m)) spm_collect
      [Offer ?q, Step SpmSend, Step (SpmDone (memReq0\<lparr>m_addr := 4\<rparr>)), Collect 0] (spm_new ?g, ())"
  have r: "\<not> isl ?run \<and> fst (snd (projr ?run)) = [?q] \<and> map (map m_addr) (snd (snd (projr ?run))) = [[4]]"
    by code_simp
  obtain s' asks answers where run: "?run = Inr ((s', ()), asks, answers)"
    using r by (cases ?run) (auto simp del: server_run.simps)
  with r have a: "asks = [?q]" "map (map m_addr) answers = [[4]]" by simp_all
  have "spm_asked ?q = {#?q#}" by (simp add: spm_asked_def spm_plain_def memReq0_def)
  with spm_answers_once [OF run] run a show ?thesis by auto
qed

end
