(* ===== verification/Coalescer.thy ===== *)
theory Coalescer
  imports DataTypes
begin

text \<open>
  The table of coalesced requests of the memory system (\<open>module/mem/Coalescer.cpp\<close>): a queue of
  entries, each with the requests of the load/store units that share one memory block.
\<close>

record coalescerEntry =
  ce_blockAddr :: u64
  ce_coalescerQueue :: "memReq list"
  ce_valid :: bool
  ce_ready :: bool

record coalescer =
  co_entryNum :: nat
  co_entrySize :: nat
  coalescerTable :: "coalescerEntry list"

definition coalescerInit :: "nat \<Rightarrow> nat \<Rightarrow> coalescer" where
  "coalescerInit n sz = \<lparr>co_entryNum = n, co_entrySize = sz, coalescerTable = []\<rparr>"

definition send2Coalescer :: "config \<Rightarrow> u64 \<Rightarrow> memReq list \<Rightarrow> coalescer \<Rightarrow> coalescer res" where
  "send2Coalescer g blk q c =
     (if length (coalescerTable c) < memSys_coalescer_entry_num g
      then Inr (c\<lparr>coalescerTable := coalescerTable c @
             [\<lparr>ce_blockAddr = blk, ce_coalescerQueue = q, ce_valid = True, ce_ready = False\<rparr>]\<rparr>)
      else Inl (Throw ''Try write a full coalescer''))"

definition searchCoalescer :: "u64 \<Rightarrow> coalescer \<Rightarrow> nat res" where
  "searchCoalescer blk c =
     (case first_index (\<lambda>e. ce_blockAddr e = blk) (coalescerTable c) of
        Some i \<Rightarrow> Inr i
      | None \<Rightarrow> Inl (Throw ''Not find an entry, this req is not a coalesced one''))"

definition popCoalescerEntry :: "nat \<Rightarrow> coalescer \<Rightarrow> coalescer res" where
  "popCoalescerEntry i c =
     (if i < length (coalescerTable c)
      then Inr (c\<lparr>coalescerTable := take i (coalescerTable c) @ drop (Suc i) (coalescerTable c)\<rparr>)
      else Inl OutOfBounds)"

definition checkCoalescerReady :: "coalescer \<Rightarrow> bool" where
  "checkCoalescerReady c = list_ex (\<lambda>e. ce_valid e \<and> ce_ready e) (coalescerTable c)"

definition getCoalescerOccupiedEntryNum :: "coalescer \<Rightarrow> nat" where
  "getCoalescerOccupiedEntryNum c = length (coalescerTable c)"

section \<open>Accounting\<close>

text \<open>The blocks that have an entry (a block coalesced in several rounds has several), and the
  requests that wait in the entries.\<close>

definition coalesced_blocks :: "coalescer \<Rightarrow> u64 multiset" where
  "coalesced_blocks c = mset (map ce_blockAddr (coalescerTable c))"

definition coalesced_reqs :: "coalescer \<Rightarrow> memReq multiset" where
  "coalesced_reqs c = mset (concat (map ce_coalescerQueue (coalescerTable c)))"

lemma coalescerInit_empty [simp]:
  "coalesced_blocks (coalescerInit n sz) = {#}" "coalesced_reqs (coalescerInit n sz) = {#}"
  by (simp_all add: coalesced_blocks_def coalesced_reqs_def coalescerInit_def)

lemma send2Coalescer_ok:
  "length (coalescerTable c) < memSys_coalescer_entry_num g \<Longrightarrow>
     \<exists>c'. send2Coalescer g blk q c = Inr c' \<and> coalesced_blocks c' = add_mset blk (coalesced_blocks c)
        \<and> coalesced_reqs c' = coalesced_reqs c + mset q
        \<and> length (coalescerTable c') = Suc (length (coalescerTable c))"
  by (simp add: send2Coalescer_def coalesced_blocks_def coalesced_reqs_def)

lemma searchCoalescer_Inr:
  "searchCoalescer blk c = Inr i \<Longrightarrow> i < length (coalescerTable c) \<and> ce_blockAddr (coalescerTable c ! i) = blk"
  by (auto simp: searchCoalescer_def split: option.splits dest: first_index_less first_index_sat)

lemma searchCoalescer_found: "blk \<in># coalesced_blocks c \<Longrightarrow> \<exists>i. searchCoalescer blk c = Inr i"
  by (auto simp: searchCoalescer_def coalesced_blocks_def first_index_None split: option.splits)

lemma popCoalescerEntry_ok:
  assumes "i < length (coalescerTable c)"
  shows "\<exists>c'. popCoalescerEntry i c = Inr c'
     \<and> add_mset (ce_blockAddr (coalescerTable c ! i)) (coalesced_blocks c') = coalesced_blocks c
     \<and> mset (ce_coalescerQueue (coalescerTable c ! i)) + coalesced_reqs c' = coalesced_reqs c
     \<and> Suc (length (coalescerTable c')) = length (coalescerTable c)"
proof -
  let ?t = "coalescerTable c"
  have t: "?t = take i ?t @ ?t ! i # drop (Suc i) ?t" using assms by (rule id_take_nth_drop)
  define t' where "t' = take i ?t @ drop (Suc i) ?t"
  have "mset (map ce_blockAddr ?t) = add_mset (ce_blockAddr (?t ! i)) (mset (map ce_blockAddr t'))"
    by (subst (1) t) (simp add: t'_def)
  moreover have "mset (concat (map ce_coalescerQueue ?t))
      = mset (ce_coalescerQueue (?t ! i)) + mset (concat (map ce_coalescerQueue t'))"
    by (subst (1) t) (simp add: t'_def ac_simps)
  moreover have "Suc (length t') = length ?t" using assms by (simp add: t'_def)
  ultimately show ?thesis
    using assms unfolding popCoalescerEntry_def t'_def [symmetric]
    by (simp add: coalesced_blocks_def coalesced_reqs_def)
qed

end
