(* ===== verification/Lse.thy ===== *)
theory Lse
  imports DataTypes
begin

text \<open>
  The load/store unit as the memory system sees it (\<open>module/execution/Lse.cpp\<close>): the fields that
  class \<open>Lse\<close> adds to its base class \<open>Channel\<close>, and the three functions through which the memory
  system takes requests and returns acknowledgements. \<open>currId\<close>, the number of the instance that a unit
  unrolled \<open>speedup\<close> times executes, is a field of the base class and an argument here.
\<close>

record lse =
  lse_reqQueue :: "(memReq \<times> data) list"
  suspendReqVec :: "(bool \<times> memReq) list"
  noLatencyMode :: bool
  baseAddr :: u64
  avgMemAccessLat :: u64
  lse_memAccessCnt :: u64
  latTotal :: u64
  memReqCnt :: nat
  memReqBlockCnt :: nat
  lseId :: nat
  lse_lastPopVal :: u64
  pushQueuePtr :: nat
  sendChanPtr :: nat
  sendMemPtr :: nat
  lse_isWrite :: bool
  orderId :: nat
  currReqId :: nat
  valueQueue :: "i32 list"

definition lse_new :: "nat \<Rightarrow> nat \<Rightarrow> bool \<Rightarrow> nat \<Rightarrow> lse" where
  "lse_new n spd w i = \<lparr>lse_reqQueue = replicate n (memReq0, data0),
     suspendReqVec = replicate spd (False, memReq0), noLatencyMode = False,
     baseAddr = 0, avgMemAccessLat = 0, lse_memAccessCnt = 0, latTotal = 0, memReqCnt = 0,
     memReqBlockCnt = 0, lseId = i, lse_lastPopVal = 0, pushQueuePtr = 0, sendChanPtr = 0,
     sendMemPtr = 0, lse_isWrite = w, orderId = 0, currReqId = 0, valueQueue = []\<rparr>"

definition updateMemAccessRecord :: "u64 \<Rightarrow> nat \<Rightarrow> lse \<Rightarrow> lse" where
  "updateMemAccessRecord now index l =
     (let latency = now - d_cycle (snd (lse_reqQueue l ! index));
          total = latTotal l + latency; cnt = lse_memAccessCnt l + 1
      in l\<lparr>latTotal := total, lse_memAccessCnt := cnt, avgMemAccessLat := total div cnt\<rparr>)"

abbreviation upd_req :: "nat \<Rightarrow> (memReq \<Rightarrow> memReq) \<Rightarrow> lse \<Rightarrow> lse" where
  "upd_req index f l \<equiv> l\<lparr>lse_reqQueue := (lse_reqQueue l)
      [index := (f (fst (lse_reqQueue l ! index)), snd (lse_reqQueue l ! index))]\<rparr>"

definition ackCallback :: "u64 \<Rightarrow> memReq \<Rightarrow> lse \<Rightarrow> lse res" where
  "ackCallback now req l =
     (let index = m_lseReqQueueIndex req in
      if index < length (lse_reqQueue l)
      then Inr (updateMemAccessRecord now index
             (upd_req index (\<lambda>r. r\<lparr>m_ready := True, m_inflight := False\<rparr>) l))
      else Inl OutOfBounds)"

definition peekReqQueue :: "nat \<Rightarrow> lse \<Rightarrow> (bool \<times> memReq) res" where
  "peekReqQueue currId l =
     (if 0 < currId \<and> currId - 1 < length (suspendReqVec l)
      then Inr (if fst (suspendReqVec l ! (currId - 1)) then (True, snd (suspendReqVec l ! (currId - 1)))
                else (False, memReq0))
      else Inl OutOfBounds)"

definition setInflight :: "nat \<Rightarrow> memReq \<Rightarrow> lse \<Rightarrow> lse res" where
  "setInflight currId req l =
     (if 0 < currId \<and> currId - 1 < length (suspendReqVec l)
      then if \<not> fst (suspendReqVec l ! (currId - 1))
           then Inl (Throw ''Try to send an invalid request from Lse to MemSys'')
           else if m_lseReqQueueIndex req < length (lse_reqQueue l)
           then Inr ((upd_req (m_lseReqQueueIndex req) (\<lambda>r. r\<lparr>m_inflight := True, m_coalesced := m_coalesced req\<rparr>) l)
                  \<lparr>memReqCnt := memReqCnt l + 1,
                   suspendReqVec := (suspendReqVec l)[currId - 1 := (False, snd (suspendReqVec l ! (currId - 1)))]\<rparr>)
           else Inl OutOfBounds
      else Inl OutOfBounds)"

section \<open>Invariant\<close>

text \<open>
  What the memory system relies on of a unit: every suspended request names a slot of the request
  queue and the unit itself.
\<close>

definition port_ok :: "nat \<Rightarrow> lse \<Rightarrow> bool" where
  "port_ok i l \<longleftrightarrow> list_all (\<lambda>(v, r). v \<longrightarrow> m_lseReqQueueIndex r < length (lse_reqQueue l) \<and> m_lseId r = i)
      (suspendReqVec l)"

lemma port_ok_nth:
  "port_ok i l \<Longrightarrow> j < length (suspendReqVec l) \<Longrightarrow> suspendReqVec l ! j = (True, r) \<Longrightarrow>
     m_lseReqQueueIndex r < length (lse_reqQueue l) \<and> m_lseId r = i"
  by (auto simp: port_ok_def list_all_length split: prod.splits)

lemma peekReqQueue_Inr:
  "peekReqQueue c l = Inr (v, r) \<Longrightarrow> v \<Longrightarrow>
     0 < c \<and> c - 1 < length (suspendReqVec l) \<and> suspendReqVec l ! (c - 1) = (True, r)"
  by (auto simp: peekReqQueue_def split: if_splits) (metis prod.collapse)

lemma ackCallback_ok:
  assumes "m_lseReqQueueIndex req < length (lse_reqQueue l)"
  shows "\<exists>l'. ackCallback now req l = Inr l' \<and> suspendReqVec l' = suspendReqVec l
    \<and> length (lse_reqQueue l') = length (lse_reqQueue l) \<and> port_ok i l' = port_ok i l"
  using assms by (simp add: ackCallback_def Let_def updateMemAccessRecord_def port_ok_def)

lemma setInflight_ok:
  assumes "port_ok i l" "peekReqQueue c l = Inr (True, r)" "m_lseReqQueueIndex r' = m_lseReqQueueIndex r"
  shows "\<exists>l'. setInflight c r' l = Inr l' \<and> port_ok i l' \<and> length (suspendReqVec l') = length (suspendReqVec l)
    \<and> length (lse_reqQueue l') = length (lse_reqQueue l)"
proof -
  note p = peekReqQueue_Inr [OF assms(2) TrueI]
  with port_ok_nth [OF assms(1)] have idx: "m_lseReqQueueIndex r < length (lse_reqQueue l)" by blast
  with assms(1,3) p show ?thesis
    by (simp add: setInflight_def port_ok_def list_all_update)
qed

section \<open>Property\<close>

text \<open>The accesses that a list of acknowledgements completes, with their latencies.\<close>

definition ack_latency :: "u64 \<Rightarrow> lse \<Rightarrow> memReq \<Rightarrow> u64" where
  "ack_latency now l r = now - d_cycle (snd (lse_reqQueue l ! m_lseReqQueueIndex r))"

lemma ackCallback_record:
  assumes "ackCallback now r l = Inr l'"
  shows "latTotal l' = latTotal l + ack_latency now l r" "lse_memAccessCnt l' = lse_memAccessCnt l + 1"
    "avgMemAccessLat l' = latTotal l' div lse_memAccessCnt l'"
    "map snd (lse_reqQueue l') = map snd (lse_reqQueue l)" "length (lse_reqQueue l') = length (lse_reqQueue l)"
    "m_lseReqQueueIndex r < length (lse_reqQueue l)"
  using assms
  by (auto simp: ackCallback_def Let_def updateMemAccessRecord_def ack_latency_def map_update list_update_same_conv
      split: if_splits)

text \<open>Over any sequence of acknowledgements, each with the clock value at which it arrives, the
  unit's profile adds up: the total latency grows by the sum of the latencies measured from the push of
  each request, the counter by their number, and after at least one acknowledgement the reported average
  is the quotient of the two.\<close>

theorem ack_profile:
  assumes "rfold (\<lambda>(now, r) l. ackCallback now r l) acks l = Inr l'"
  shows "latTotal l' = latTotal l + sum_list (map (\<lambda>(now, r). ack_latency now l r) acks)
    \<and> lse_memAccessCnt l' = lse_memAccessCnt l + of_nat (length acks)
    \<and> (acks \<noteq> [] \<longrightarrow> avgMemAccessLat l' = latTotal l' div lse_memAccessCnt l')"
  using assms
proof (induction acks arbitrary: l)
  case Nil
  then show ?case by simp
next
  case (Cons a acks)
  obtain now r where a: "a = (now, r)" by fastforce
  with Cons.prems obtain l1 where l1: "ackCallback now r l = Inr l1"
    "rfold (\<lambda>(now, r) l. ackCallback now r l) acks l1 = Inr l'" by (auto simp: rbind_Inr_iff)
  note rec = ackCallback_record [OF l1(1)]
  have idx: "\<forall>(c, r)\<in>set acks. m_lseReqQueueIndex r < length (lse_reqQueue l1)"
    using l1(2)
  proof (induction acks arbitrary: l1)
    case Nil
    then show ?case by simp
  next
    case (Cons b bs)
    obtain c x where b: "b = (c, x)" by fastforce
    with Cons.prems obtain l2 where l2: "ackCallback c x l1 = Inr l2"
      "rfold (\<lambda>(now, r) l. ackCallback now r l) bs l2 = Inr l'" by (auto simp: rbind_Inr_iff)
    with Cons.IH [OF l2(2)] ackCallback_record(5,6) [OF l2(1)] b show ?case by auto
  qed
  have m: "map (\<lambda>(now, r). ack_latency now l1 r) acks = map (\<lambda>(now, r). ack_latency now l r) acks"
  proof (rule map_cong)
    fix p assume "p \<in> set acks"
    then obtain c x where p: "p = (c, x)" "m_lseReqQueueIndex x < length (lse_reqQueue l1)" using idx by fastforce
    have "snd (lse_reqQueue l1 ! m_lseReqQueueIndex x) = snd (lse_reqQueue l ! m_lseReqQueueIndex x)"
      using rec(4,5) p(2) by (metis nth_map)
    then show "(case p of (now, r) \<Rightarrow> ack_latency now l1 r) = (case p of (now, r) \<Rightarrow> ack_latency now l r)"
      by (simp add: p ack_latency_def)
  qed simp
  from Cons.IH [OF l1(2)] have
    "latTotal l' = latTotal l + (ack_latency now l r + sum_list (map (\<lambda>(now, r). ack_latency now l r) acks))"
    "lse_memAccessCnt l' = lse_memAccessCnt l + (1 + of_nat (length acks))"
    unfolding m rec(1,2) by (simp_all only: add.assoc)
  moreover have "avgMemAccessLat l' = latTotal l' div lse_memAccessCnt l'"
    using Cons.IH [OF l1(2)] rec(3) l1(2) by (cases "acks = []") simp_all
  ultimately show ?case by (simp add: a)
qed

theorem ack_profile_witness:
  "latTotal (projr (rfold (\<lambda>(now, r) l. ackCallback now r l) [(7, memReq0), (9, memReq0\<lparr>m_lseReqQueueIndex := 1\<rparr>)]
     (lse_new 2 1 False 0))) = 16"
proof -
  let ?run = "rfold (\<lambda>(now, r) l. ackCallback now r l) [(7, memReq0), (9, memReq0\<lparr>m_lseReqQueueIndex := 1\<rparr>)]
     (lse_new 2 1 False 0)"
  have "\<not> isl ?run" by code_simp
  then obtain l' where r: "?run = Inr l'" by (cases ?run) auto
  show ?thesis
    using ack_profile [OF r] r by (simp add: lse_new_def ack_latency_def memReq0_def data0_def)
qed

end
