(* ===== verification/MemSystem.thy ===== *)
theory MemSystem
  imports MemoryDataBus Spm Coalescer Lse
begin

text \<open>
  The memory system (\<open>module/mem/MemSystem.cpp\<close>): it takes the requests of the load/store units into
  one queue per bank, coalescing reads of the same block, passes them to the cache, and returns the
  acknowledgements. The load/store units are given as a list of objects, each with the \<open>currId\<close> of its
  base class; pointers to them are positions in the list.
\<close>

section \<open>State (MemSystem.h)\<close>

record bankRecorderEntry =
  br_valid :: bool
  br_addrTag :: u64
  br_hasRegisteredCoalescer :: bool
  br_reqQueue :: "memReq list"

definition bankRecorderEntry0 :: bankRecorderEntry where
  "bankRecorderEntry0 = \<lparr>br_valid = False, br_addrTag = 0, br_hasRegisteredCoalescer = False, br_reqQueue = []\<rparr>"

record memSystem =
  ms_spm :: "spm option"
  ms_cache :: "cache option"
  memDataBus :: dataBus
  reqQueueWritePtr :: nat
  ackQueueReadPtr :: nat
  lseRegistry :: "nat list"
  lseReqTable :: "nat list"
  ms_reqQueue :: "memReq list list"
  ms_ackQueue :: "memReq list list"
  reqAckStack :: "memReq list"
  ms_coalescer :: coalescer
  bankRecorder :: "bankRecorderEntry list"
  coalescerFreeEntryNum :: nat
  hostCnt :: nat
  dramCnt :: nat
  hostClkFreqHz :: nat
  dramsimClkFreqHz :: nat

type_synonym ports = "(nat \<times> lse) list"

text \<open>
  The DRAM simulator is a parameter. \<open>ClockTick\<close> calls the two registered callbacks; \<open>d_tick\<close> gives the
  new state and the completions in their order, writes marked with \<open>True\<close>.
\<close>

record 'm dram =
  d_willAccept :: "'m \<Rightarrow> u64 \<Rightarrow> bool \<Rightarrow> bool"
  d_add :: "'m \<Rightarrow> u64 \<Rightarrow> bool \<Rightarrow> 'm"
  d_tick :: "'m \<Rightarrow> 'm \<times> (bool \<times> u64) list"

definition resize :: "nat \<Rightarrow> 'a \<Rightarrow> 'a list \<Rightarrow> 'a list" where
  "resize n x xs = take n xs @ replicate (n - length xs) x"

definition memSystem_new :: "config \<Rightarrow> nat \<Rightarrow> nat list \<Rightarrow> memSystem res" where
  "memSystem_new g dramHz rs =
     rbind (if cache_enable g then rbind (cache_init g rs) (\<lambda>c. Inr (Some c)) else Inr None) (\<lambda>c.
       Inr \<lparr>ms_spm = (if spm_enable g then Some (spm_new g) else None), ms_cache = c,
         memDataBus = dataBus_new g, reqQueueWritePtr = 0, ackQueueReadPtr = 0, lseRegistry = [],
         lseReqTable = [], ms_reqQueue = replicate (memSystem_queue_bank_num g) [],
         ms_ackQueue = replicate (memSystem_queue_bank_num g) [], reqAckStack = [],
         ms_coalescer = coalescerInit (memSys_coalescer_entry_num g) (memSys_coalescer_size_per_entry g),
         bankRecorder =
           (let b = (if spm_enable g then resize (spm_bank_num g) bankRecorderEntry0 [] else [])
            in if cache_enable g then resize (cache_bank_num_L1 g) bankRecorderEntry0 b else b),
         coalescerFreeEntryNum = 0, hostCnt = 0, dramCnt = 0, hostClkFreqHz = freq g,
         dramsimClkFreqHz = dramHz\<rparr>)"

definition registerLse :: "nat \<Rightarrow> memSystem \<Rightarrow> nat \<times> memSystem" where
  "registerLse p ms =
     (let registry = lseRegistry ms @ [p]
      in (length registry - 1, ms\<lparr>lseRegistry := registry, lseReqTable := lseReqTable ms @ [p]\<rparr>))"

definition addrBias :: "config \<Rightarrow> u64 \<Rightarrow> u64 res" where
  "addrBias g addr =
     (if data_precision g mod 8 \<noteq> 0 then Inl (Throw ''DATA_PRECISION is not in multiples of byte!'')
      else Inr (push_bit (ilog2 (data_precision g div 8)) addr))"

section \<open>Requests of the load/store units\<close>

definition getBankId :: "config \<Rightarrow> memSystem \<Rightarrow> u64 \<Rightarrow> nat res" where
  "getBankId g ms addr =
     (if cache_enable g then (case ms_cache ms of None \<Rightarrow> Inl NullPointer | Some c \<Rightarrow> Inr (getCacheBank (geo c) addr 0))
      else Inl (Throw ''Not define which bank''))"

definition getAddrTag :: "config \<Rightarrow> memSystem \<Rightarrow> u64 \<Rightarrow> u64 res" where
  "getAddrTag g ms addr =
     (if cache_enable g then (case ms_cache ms of None \<Rightarrow> Inl NullPointer | Some c \<Rightarrow> Inr (getCacheBlockId (geo c) addr 0))
      else Inl (Throw ''Not define address tag for coalescing''))"

definition memSys_addTransaction :: "config \<Rightarrow> memReq \<Rightarrow> memSystem \<Rightarrow> (bool \<times> memSystem) res" where
  "memSys_addTransaction g req ms =
     rbind (getBankId g ms (m_addr req)) (\<lambda>b. rbind (rnth (ms_reqQueue ms) b) (\<lambda>q.
       if length q < memSystem_req_queue_size_per_bank g
       then Inr (True, ms\<lparr>ms_reqQueue := (ms_reqQueue ms)[b := q @ [req]]\<rparr>)
       else Inl (Throw ''Try to push req into a full reqQueue'')))"

definition resetBankRecorder :: "nat \<Rightarrow> memSystem \<Rightarrow> memSystem" where
  "resetBankRecorder i ms = ms\<lparr>bankRecorder := (bankRecorder ms)
     [i := (bankRecorder ms ! i)\<lparr>br_valid := False, br_hasRegisteredCoalescer := False, br_reqQueue := []\<rparr>]\<rparr>"

text \<open>The order in which a loop with \<open>ptr = (ptr + i) % n\<close> visits the table: the step grows by one in
  every iteration.\<close>

fun probes :: "nat \<Rightarrow> nat list \<Rightarrow> nat \<Rightarrow> nat list" where
  "probes n [] ptr = []"
| "probes n (i # is) ptr = (let ptr = (ptr + i) mod n in ptr # probes n is ptr)"

text \<open>One valid request against the recorder of its bank: whether it is taken, the request with its
  \<open>coalesced\<close> mark, and the new state.\<close>

definition coalesce_req :: "config \<Rightarrow> memReq \<Rightarrow> nat \<Rightarrow> memSystem \<Rightarrow> (bool \<times> memReq \<times> memSystem) res" where
  "coalesce_req g req b ms =
     rbind (getAddrTag g ms (m_addr req)) (\<lambda>addrTag.
       let entry = bankRecorder ms ! b in
       if addrTag = br_addrTag entry
       then (let (entry, free) = (if \<not> br_hasRegisteredCoalescer entry
                   then (entry\<lparr>br_hasRegisteredCoalescer := True\<rparr>, coalescerFreeEntryNum ms - 1)
                   else (entry, coalescerFreeEntryNum ms))
             in if length (br_reqQueue entry) < memSys_coalescer_size_per_entry g
                then (let req = req\<lparr>m_coalesced := True\<rparr> in
                  Inr (True, req, ms\<lparr>coalescerFreeEntryNum := free, bankRecorder := (bankRecorder ms)
                         [b := entry\<lparr>br_reqQueue := br_reqQueue entry @ [req]\<rparr>]\<rparr>))
                else Inr (False, req, ms\<lparr>coalescerFreeEntryNum := free, bankRecorder := (bankRecorder ms)[b := entry]\<rparr>))
       else Inr (False, req, ms))"

definition take_req :: "config \<Rightarrow> memReq \<Rightarrow> memSystem \<Rightarrow> (bool \<times> memReq \<times> memSystem) res" where
  "take_req g req ms =
     rbind (getBankId g ms (m_addr req)) (\<lambda>b. rbind (rnth (ms_reqQueue ms) b) (\<lambda>q.
       if length q < memSystem_req_queue_size_per_bank g
       then rbind (rnth (bankRecorder ms) b) (\<lambda>entry.
         if \<not> br_valid entry
         then rbind (getAddrTag g ms (m_addr req)) (\<lambda>addrTag.
           Inr (True, req, ms\<lparr>bankRecorder := (bankRecorder ms)
             [b := entry\<lparr>br_valid := True, br_addrTag := addrTag, br_reqQueue := br_reqQueue entry @ [req]\<rparr>]\<rparr>))
         else if \<not> m_isWrite req
         then rbind (rfront (br_reqQueue entry)) (\<lambda>f.
           if \<not> m_isWrite f \<and> coalescerFreeEntryNum ms > 0 then coalesce_req g req b ms
           else Inr (False, req, ms))
         else Inr (False, req, ms))
       else Inr (False, req, ms)))"

definition visit_lse :: "config \<Rightarrow> nat \<Rightarrow> memSystem \<times> ports \<Rightarrow> (memSystem \<times> ports) res" where
  "visit_lse g p = (\<lambda>(ms, ps).
     rbind (deref ps p) (\<lambda>(cid, l). rbind (peekReqQueue cid l) (\<lambda>(v, req).
       if v
       then rbind (take_req g req ms) (\<lambda>(sendSuccess, req, ms).
         if sendSuccess
         then rbind (rnth (lseRegistry ms) (m_lseId req)) (\<lambda>q. rbind (deref ps q) (\<lambda>(cid', l').
                rbind (setInflight cid' req l') (\<lambda>l'. Inr (ms, ps[q := (cid', l')]))))
         else Inr (ms, ps[p := (cid, l\<lparr>memReqBlockCnt := memReqBlockCnt l + 1\<rparr>)]))
       else Inr (ms, ps))))"

definition send_coalesced :: "config \<Rightarrow> memSystem \<Rightarrow> memSystem res" where
  "send_coalesced g ms =
     rfold (\<lambda>entry ms.
       if br_valid entry \<and> br_hasRegisteredCoalescer entry
       then rbind (send2Coalescer g (br_addrTag entry) (br_reqQueue entry) (ms_coalescer ms))
              (\<lambda>co. Inr (ms\<lparr>ms_coalescer := co\<rparr>))
       else Inr ms) (bankRecorder ms) ms"

definition send_bank :: "config \<Rightarrow> nat \<Rightarrow> memSystem \<Rightarrow> memSystem res" where
  "send_bank g i ms =
     (let entry = bankRecorder ms ! i in
      if br_valid entry
      then rbind (rfront (br_reqQueue entry)) (\<lambda>req.
        rbind (memSys_addTransaction g (req\<lparr>m_coalesced := br_hasRegisteredCoalescer entry\<rparr>) ms)
          (\<lambda>(ok, ms). Inr (if ok then resetBankRecorder i ms else ms)))
      else Inr ms)"

definition getLseReq :: "config \<Rightarrow> bool \<Rightarrow> memSystem \<times> ports \<Rightarrow> (memSystem \<times> ports) res" where
  "getLseReq g clkAdded = (\<lambda>(ms, ps).
     let n = length (lseReqTable ms) in
     rbind (rfold (visit_lse g) (map (\<lambda>i. lseReqTable ms ! i) (probes n [0..<n] (reqQueueWritePtr ms))) (ms, ps))
       (\<lambda>(ms, ps). if n = 0 then Inl ModByZero else
          let ms = ms\<lparr>reqQueueWritePtr := (reqQueueWritePtr ms + 1) mod n\<rparr> in
          if clkAdded
          then rbind (send_coalesced g ms) (\<lambda>ms.
               rbind (rfold (send_bank g) [0..<length (bankRecorder ms)] ms) (\<lambda>ms.
                 Inr (ms\<lparr>coalescerFreeEntryNum := memSys_coalescer_entry_num g
                           - getCoalescerOccupiedEntryNum (ms_coalescer ms)\<rparr>, ps)))
          else Inr (ms, ps)))"

section \<open>Acknowledgements to the load/store units\<close>

definition ack_lse :: "u64 \<Rightarrow> memReq \<Rightarrow> memSystem \<Rightarrow> ports \<Rightarrow> ports res" where
  "ack_lse now req ms ps =
     rbind (rnth (lseRegistry ms) (m_lseId req)) (\<lambda>p. rbind (deref ps p) (\<lambda>(cid, l).
       rbind (ackCallback now req l) (\<lambda>l. Inr (ps[p := (cid, l)]))))"

text \<open>The pass over the requests of one coalescer entry: those whose unit has not been served in this
  cycle are acknowledged and erased, the others stay.\<close>

fun ack_coalesced :: "u64 \<Rightarrow> memSystem \<Rightarrow> memReq list \<Rightarrow> bool list \<times> ports \<Rightarrow> (memReq list \<times> bool list \<times> ports) res" where
  "ack_coalesced now ms [] (rec, ps) = Inr ([], rec, ps)"
| "ack_coalesced now ms (r # q) (rec, ps) =
     rbind (rnth rec (m_lseId r)) (\<lambda>served.
       if \<not> served
       then rbind (ack_lse now r ms ps) (\<lambda>ps. ack_coalesced now ms q (rec[m_lseId r := True], ps))
       else rbind (ack_coalesced now ms q (rec, ps)) (\<lambda>(rest, rec, ps). Inr (r # rest, rec, ps)))"

definition visit_ack :: "config \<Rightarrow> u64 \<Rightarrow> nat \<Rightarrow> memSystem \<times> bool list \<times> ports \<Rightarrow> (memSystem \<times> bool list \<times> ports) res" where
  "visit_ack g now ptr = (\<lambda>(ms, rec, ps).
     case ms_ackQueue ms ! ptr of
       [] \<Rightarrow> Inr (ms, rec, ps)
     | req # q \<Rightarrow>
         if m_coalesced req
         then rbind (getAddrTag g ms (m_addr req)) (\<lambda>addrTag.
              rbind (searchCoalescer addrTag (ms_coalescer ms)) (\<lambda>e.
              let entry = coalescerTable (ms_coalescer ms) ! e in
              rbind (ack_coalesced now ms (ce_coalescerQueue entry) (rec, ps)) (\<lambda>(rest, rec, ps).
                let co = (ms_coalescer ms)\<lparr>coalescerTable := (coalescerTable (ms_coalescer ms))
                            [e := entry\<lparr>ce_coalescerQueue := rest\<rparr>]\<rparr>
                in if rest = []
                   then rbind (popCoalescerEntry e co) (\<lambda>co.
                          Inr (ms\<lparr>ms_coalescer := co, ms_ackQueue := (ms_ackQueue ms)[ptr := q]\<rparr>, rec, ps))
                   else Inr (ms\<lparr>ms_coalescer := co\<rparr>, rec, ps))))
         else rbind (rnth rec (m_lseId req)) (\<lambda>served.
              if \<not> served
              then rbind (ack_lse now req ms ps) (\<lambda>ps.
                     Inr (ms\<lparr>ms_ackQueue := (ms_ackQueue ms)[ptr := q]\<rparr>, rec[m_lseId req := True], ps))
              else Inr (ms, rec, ps)))"

definition sendBack2Lse :: "config \<Rightarrow> u64 \<Rightarrow> memSystem \<times> ports \<Rightarrow> (memSystem \<times> ports) res" where
  "sendBack2Lse g now = (\<lambda>(ms, ps).
     let n = length (ms_ackQueue ms) in
     rbind (rfold (visit_ack g now) (probes n [0..<n] (ackQueueReadPtr ms))
              (ms, replicate (length (lseRegistry ms)) False, ps))
       (\<lambda>(ms, rec, ps). Inr (ms, ps)))"

definition getAckQueueEntry :: "memReq list \<Rightarrow> nat option" where
  "getAckQueueEntry queue = first_index (\<lambda>r. \<not> m_valid r) queue"

section \<open>The cache, the bus and the DRAM\<close>

definition send2Cache_bank :: "config \<Rightarrow> nat \<Rightarrow> memSystem \<Rightarrow> memSystem res" where
  "send2Cache_bank g i ms =
     (case ms_reqQueue ms ! i of
        [] \<Rightarrow> Inr ms
      | req # q \<Rightarrow>
          (case ms_cache ms of None \<Rightarrow> Inl NullPointer | Some c \<Rightarrow>
           if cache_all_hit g
           then rbind (rnth (ms_ackQueue ms) i) (\<lambda>a.
             if length a < memSystem_ack_queue_size_per_bank g
             then Inr (ms\<lparr>ms_ackQueue := (ms_ackQueue ms)[i := a @ [req]], ms_reqQueue := (ms_reqQueue ms)[i := q],
                          ms_cache := Some (c\<lparr>cacheAccessCnt := cacheAccessCnt c + 1\<rparr>)\<rparr>)
             else Inr ms)
           else rbind (cache_addTransaction req c) (\<lambda>(ok, c).
             if ok then Inr (ms\<lparr>ms_reqQueue := (ms_reqQueue ms)[i := q],
                                ms_cache := Some (c\<lparr>cacheAccessCnt := cacheAccessCnt c + 1\<rparr>)\<rparr>)
             else Inr (ms\<lparr>ms_cache := Some c\<rparr>))))"

definition send2Cache :: "config \<Rightarrow> memSystem \<Rightarrow> memSystem res" where
  "send2Cache g ms =
     (if ms_cache ms = None then Inl (Throw ''Not define Cache!'')
      else rfold (send2Cache_bank g) [0..<length (ms_reqQueue ms)] ms)"

definition getFromCache_bank :: "config \<Rightarrow> nat \<Rightarrow> memSystem \<Rightarrow> memSystem res" where
  "getFromCache_bank g i ms =
     (if length (ms_ackQueue ms ! i) < memSystem_ack_queue_size_per_bank g
      then (case ms_cache ms of None \<Rightarrow> Inl NullPointer | Some c \<Rightarrow>
        rbind (cache_callBack i c) (\<lambda>(ack, c).
          Inr ((if m_valid ack then ms\<lparr>ms_ackQueue := (ms_ackQueue ms)[i := ms_ackQueue ms ! i @ [ack]]\<rparr> else ms)
                 \<lparr>ms_cache := Some c\<rparr>)))
      else Inr ms)"

definition getFromCache :: "config \<Rightarrow> memSystem \<Rightarrow> memSystem res" where
  "getFromCache g ms =
     (if ms_cache ms = None then Inl (Throw ''Not define Cache!'')
      else rfold (getFromCache_bank g) [0..<length (ms_ackQueue ms)] ms)"

definition getReqAckFromMemoryDataBus :: "memReq list \<Rightarrow> memSystem \<Rightarrow> memSystem" where
  "getReqAckFromMemoryDataBus acks ms = ms\<lparr>reqAckStack := reqAckStack ms @ acks\<rparr>"

definition returnReqAck :: "config \<Rightarrow> memSystem \<Rightarrow> memSystem res" where
  "returnReqAck g ms =
     rbind (if spm_enable g then rfold (\<lambda>r ms. case ms_spm ms of None \<Rightarrow> Inl NullPointer
                | Some s \<Rightarrow> Inr (ms\<lparr>ms_spm := Some (spm_mem_req_complete r s)\<rparr>)) (reqAckStack ms) ms
            else Inr ms) (\<lambda>ms.
     rbind (if cache_enable g then rfold (\<lambda>r ms. case ms_cache ms of None \<Rightarrow> Inl NullPointer
                | Some c \<Rightarrow> rbind (cache_mem_req_complete g r c) (\<lambda>c. Inr (ms\<lparr>ms_cache := Some c\<rparr>))) (reqAckStack ms) ms
            else Inr ms) (\<lambda>ms.
     Inr (ms\<lparr>reqAckStack := []\<rparr>)))"

definition clock_tick :: "'m dram \<Rightarrow> 'm \<times> dataBus \<Rightarrow> 'm \<times> dataBus" where
  "clock_tick d = (\<lambda>(m, bus). case d_tick d m of (m, done) \<Rightarrow>
     (m, fold (\<lambda>(w, a). if w then mem_write_complete a else mem_read_complete a) done bus))"

text \<open>The loop of \<open>dramUpdate\<close> does not return when the frequency of the host is 0 (a configuration
  without \<open>freq\<close>).\<close>

partial_function (option) dram_loop :: "('s \<Rightarrow> 's) \<Rightarrow> nat \<Rightarrow> nat \<Rightarrow> nat \<Rightarrow> 's \<Rightarrow> (nat \<times> 's) option" where
  [code]: "dram_loop tick hz dram host s =
     (if host < dram then dram_loop tick hz dram (host + hz) (tick s) else Some (host, s))"

definition dramUpdate :: "'m dram \<Rightarrow> memSystem \<times> 'm \<Rightarrow> (memSystem \<times> 'm) res" where
  "dramUpdate d = (\<lambda>(ms, m).
     if hostClkFreqHz ms = dramsimClkFreqHz ms
     then (case clock_tick d (m, memDataBus ms) of (m, bus) \<Rightarrow> Inr (ms\<lparr>memDataBus := bus\<rparr>, m))
     else let dram = dramCnt ms + dramsimClkFreqHz ms in
       case dram_loop (clock_tick d) (hostClkFreqHz ms) dram (hostCnt ms) (m, memDataBus ms) of
         None \<Rightarrow> Inl NoReturn
       | Some (host, (m, bus)) \<Rightarrow>
           Inr (if host = dram then ms\<lparr>memDataBus := bus, hostCnt := 0, dramCnt := 0\<rparr>
                else ms\<lparr>memDataBus := bus, hostCnt := host, dramCnt := dram\<rparr>, m))"

definition memSys_onchip :: "config \<Rightarrow> bool \<Rightarrow> 'm dram \<Rightarrow> memSystem \<times> 'm \<Rightarrow> (memSystem \<times> 'm) res" where
  "memSys_onchip g clkAdded d = (\<lambda>(ms, m).
     rbind (if spm_enable g
            then (case ms_spm ms of None \<Rightarrow> Inl NullPointer | Some s \<Rightarrow>
              rbind (spm_sendReq2Mem (d_willAccept d) (d_add d) (spmUpdate clkAdded s) m)
                (\<lambda>(s, m). Inr (ms\<lparr>ms_spm := Some s\<rparr>, m)))
            else Inr (ms, m)) (\<lambda>(ms, m).
     if cache_enable g
     then rbind (send2Cache g ms) (\<lambda>ms. case ms_cache ms of None \<Rightarrow> Inl NullPointer | Some c \<Rightarrow>
            rbind (cacheUpdate g clkAdded c) (\<lambda>c.
              case cache_sendReq2Mem (d_willAccept d) (d_add d) c m of (c, m) \<Rightarrow> Inr (ms\<lparr>ms_cache := Some c\<rparr>, m)))
     else Inr (ms, m)))"

definition memSystemUpdate :: "config \<Rightarrow> clkDomain \<Rightarrow> 'm dram \<Rightarrow> memSystem \<times> ports \<times> 'm \<Rightarrow> (memSystem \<times> ports \<times> 'm) res" where
  "memSystemUpdate g k d = (\<lambda>(ms, ps, m).
     rbind (sendBack2Lse g (clk k) (ms, ps)) (\<lambda>(ms, ps).
     rbind (if checkClkAdd k
            then rbind (if cache_enable g then getFromCache g ms else Inr ms) (\<lambda>ms.
                 rbind (returnReqAck g ms) (\<lambda>ms.
                 case memoryDataBusUpdate (memDataBus ms) of (acks, bus) \<Rightarrow>
                 rbind (dramUpdate d (getReqAckFromMemoryDataBus acks (ms\<lparr>memDataBus := bus\<rparr>), m))
                   (memSys_onchip g (checkClkAdd k) d)))
            else Inr (ms, m)) (\<lambda>(ms, m).
     rbind (getLseReq g (checkClkAdd k) (ms, ps)) (\<lambda>(ms, ps). Inr (ms, ps, m)))))"

definition getMemAccessCnt :: "memSystem \<Rightarrow> nat" where
  "getMemAccessCnt ms =
     (case ms_cache ms of None \<Rightarrow> 0 | Some c \<Rightarrow> memAccessCnt c)
   + (case ms_spm ms of None \<Rightarrow> 0 | Some s \<Rightarrow> spm_memAccessCnt s)"

end
