(* ===== verification/MemSystemRounds.thy ===== *)
theory MemSystemRounds
  imports MemSystem
begin

text \<open>
  Two loops of the memory system on their own: the order in which a round visits the load/store units
  and the acknowledgement banks, and the number of DRAM cycles that a host cycle runs.
\<close>

section \<open>The visiting order\<close>

definition tri :: "nat \<Rightarrow> nat" where
  "tri i = i * (i + 1) div 2"

lemma tri_0 [simp]: "tri 0 = 0" and tri_Suc: "tri (Suc i) = tri i + Suc i"
proof -
  have "Suc i * (Suc i + 1) = i * (i + 1) + 2 * Suc i" by (simp add: algebra_simps)
  then show "tri (Suc i) = tri i + Suc i" by (simp add: tri_def)
qed (simp add: tri_def)

lemma double_tri: "2 * tri i = i * (i + 1)"
  by (induction i) (simp_all add: tri_Suc algebra_simps)

lemma probes_nth_gen:
  "k < m \<Longrightarrow>
     probes n [s..<s + m] p ! k = (p + (\<Sum>j\<in>{s..s + k}. j)) mod n"
proof (induction m arbitrary: s p k)
  case 0
  then show ?case by simp
next
  case (Suc m)
  have u: "[s..<s + Suc m] = s # [Suc s..<Suc s + m]" by (simp add: upt_conv_Cons)
  show ?case
  proof (cases k)
    case 0
    then show ?thesis unfolding u probes.simps Let_def by simp
  next
    case k: (Suc k')
    with Suc.prems have "k' < m" by simp
    then have "probes n [Suc s..<Suc s + m] ((p + s) mod n) ! k'
        = ((p + s) mod n + (\<Sum>j\<in>{Suc s..Suc s + k'}. j)) mod n"
      by (intro Suc.IH) simp_all
    also have "\<dots> = (p + (s + (\<Sum>j\<in>{Suc s..Suc s + k'}. j))) mod n" by (metis add.assoc mod_add_left_eq)
    also have "s + (\<Sum>j\<in>{Suc s..Suc s + k'}. j) = (\<Sum>j\<in>{s..s + k}. j)"
      by (simp add: k sum.atLeast_Suc_atMost)
    finally show ?thesis unfolding u probes.simps Let_def k by simp
  qed
qed

lemma sum_upto_tri: "(\<Sum>j\<in>{0..k}. j) = tri k"
  by (induction k) (simp_all add: tri_Suc)

lemma length_probes [simp]: "length (probes n is p) = length is"
  by (induction "is" arbitrary: p) (simp_all add: Let_def)

lemma probes_nth: "k < n \<Longrightarrow> probes n [0..<n] p ! k = (p + tri k) mod n"
  using probes_nth_gen [where k = k and m = n and p = p and n = n and s = 0] by (simp add: sum_upto_tri)

lemma set_probes: "set (probes n [0..<n] p) = (\<lambda>k. (p + tri k) mod n) ` {..<n}"
proof -
  have "set xs = (\<lambda>k. xs ! k) ` {..<length xs}" for xs :: "nat list"
    by (auto simp: set_conv_nth)
  from this [of "probes n [0..<n] p"] show ?thesis
    by (simp add: probes_nth cong: image_cong_simp)
qed

lemma tri_mod_inj:
  assumes "i < 2 ^ k" "j < 2 ^ k" "(p + tri i) mod 2 ^ k = (p + tri j) mod 2 ^ k" "j \<le> i"
  shows "i = j"
proof (rule ccontr)
  assume "i \<noteq> j"
  with assms(4) have "j < i" by simp
  have "tri j \<le> tri i" unfolding tri_def using assms(4) by (intro div_le_mono mult_le_mono) simp_all
  then have "2 ^ k dvd (p + tri i) - (p + tri j)"
    using assms(3) mod_eq_dvd_iff_nat [of "p + tri j" "p + tri i" "2 ^ k"] by simp
  then have "2 ^ k dvd tri i - tri j" by simp
  then have "2 ^ Suc k dvd 2 * tri i - 2 * tri j" by (metis diff_mult_distrib2 dvd_refl mult_dvd_mono power_Suc)
  moreover have "2 * tri i - 2 * tri j = (i - j) * (i + j + 1)"
    using \<open>j < i\<close> by (simp add: double_tri) (auto simp: algebra_simps diff_mult_distrib diff_mult_distrib2 dest!: less_imp_Suc_add)
  ultimately have d: "2 ^ Suc k dvd (i - j) * (i + j + 1)" by simp
  show False
  proof (cases "odd (i - j)")
    case True
    then have "coprime (2 ^ Suc k) (i - j)" by simp
    with d have "2 ^ Suc k dvd i + j + 1" by (metis coprime_dvd_mult_right_iff)
    then have "2 ^ Suc k \<le> i + j + 1" by (auto dest: dvd_imp_le)
    with assms(1,2) \<open>j < i\<close> show False by simp
  next
    case False
    with \<open>j < i\<close> have "odd (i + j + 1)" by auto
    then have "coprime (2 ^ Suc k) (i + j + 1)" by simp
    with d have "2 ^ Suc k dvd i - j" by (metis coprime_dvd_mult_left_iff)
    with \<open>j < i\<close> have "2 ^ Suc k \<le> i - j" by (auto dest: dvd_imp_le)
    with assms(1) show False by simp
  qed
qed

lemma probes_cover_power:
  assumes "n = 2 ^ k"
  shows "set (probes n [0..<n] p) = {..<n}"
proof -
  have inj: "inj_on (\<lambda>i. (p + tri i) mod n) {..<n}"
  proof (rule inj_onI)
    fix i j assume ij: "i \<in> {..<n}" "j \<in> {..<n}" "(p + tri i) mod n = (p + tri j) mod n"
    with assms tri_mod_inj [of i k j p] tri_mod_inj [of j k i p] show "i = j"
      by (cases "j \<le> i") auto
  qed
  have "(\<lambda>i. (p + tri i) mod n) ` {..<n} \<subseteq> {..<n}" using assms by auto
  with inj have "(\<lambda>i. (p + tri i) mod n) ` {..<n} = {..<n}"
    by (simp add: card_image card_subset_eq)
  then show ?thesis by (simp only: set_probes)
qed

lemma tri_mod_period:
  assumes "odd m"
  shows "tri (i + m * c) mod m = tri i mod m"
proof -
  have "tri (i + m) mod m = tri i mod m" for i
  proof -
    obtain h where h: "m + 1 = 2 * h" using assms by (metis even_Suc evenE Suc_eq_plus1)
    have "2 * tri (i + m) = 2 * (tri i + m * i + m * h)"
    proof -
      have "2 * tri (i + m) = i * (i + 1) + 2 * (m * i) + m * (m + 1)"
        unfolding double_tri by (simp add: algebra_simps)
      moreover have "m * (m + 1) = 2 * (m * h)" unfolding h by simp
      ultimately show ?thesis by (simp add: double_tri distrib_left)
    qed
    then have "tri (i + m) = tri i + m * (i + h)" by (simp add: algebra_simps)
    then show ?thesis by simp
  qed
  then show ?thesis by (induction c) (simp_all add: algebra_simps, metis add.commute add.left_commute)
qed

lemma probes_miss_odd:
  assumes "odd m" "1 < m" "m dvd n" "0 < n"
  shows "set (probes n [0..<n] p) \<noteq> {..<n}"
proof
  assume "set (probes n [0..<n] p) = {..<n}"
  then have cover: "(\<lambda>k. (p + tri k) mod n) ` {..<n} = {..<n}" by (simp only: set_probes)
  let ?f = "\<lambda>k. (p + tri k) mod m"
  have "{..<m} \<subseteq> ?f ` {..<m - 1}"
  proof
    fix r assume r: "r \<in> {..<m}"
    with assms(3,4) have "r < n" by (auto dest: dvd_imp_le)
    with cover obtain k where k: "(p + tri k) mod n = r" by (metis (no_types, lifting) image_iff lessThan_iff)
    then have "(p + tri k) mod m = r mod m" using assms(3) by (metis mod_mod_cancel)
    then have "?f k = r" using r by simp
    have km: "?f k = ?f (k mod m)"
    proof -
      have "k = k mod m + m * (k div m)" by simp
      then have "tri k mod m = tri (k mod m) mod m" using tri_mod_period [OF assms(1)] by metis
      then show ?thesis by (metis mod_add_right_eq)
    qed
    show "r \<in> ?f ` {..<m - 1}"
    proof (cases "k mod m < m - 1")
      case True
      with km \<open>?f k = r\<close> show ?thesis by (intro image_eqI [of _ _ "k mod m"]) simp_all
    next
      case False
      moreover have "k mod m < m" using assms(2) by simp
      ultimately have last: "k mod m = m - 1" by simp
      obtain h where h: "m = 2 * h + 1" using assms(1) by (rule oddE)
      have "2 * tri (m - 1) = 2 * (m * h)" unfolding double_tri by (simp add: h)
      then have "tri (m - 1) mod m = tri 0 mod m" by simp
      then have "?f (m - 1) = ?f 0" by (metis mod_add_right_eq)
      with km last \<open>?f k = r\<close> assms(2) show ?thesis by (intro image_eqI [of _ _ 0]) simp_all
    qed
  qed
  then have "card {..<m} \<le> card (?f ` {..<m - 1})" by (intro card_mono) simp_all
  also have "\<dots> \<le> m - 1" by (rule order_trans [OF card_image_le]) simp_all
  finally show False using assms(2) by simp
qed

lemma odd_part: "0 < n \<Longrightarrow> \<exists>k m. n = 2 ^ k * m \<and> odd (m::nat)"
proof (induction n rule: less_induct)
  case (less n)
  show ?case
  proof (cases "odd n")
    case True
    then show ?thesis by (intro exI [of _ 0] exI [of _ n]) simp
  next
    case False
    then obtain h where h: "n = 2 * h" by (auto elim: evenE)
    with less.prems have "h < n" "0 < h" by simp_all
    from less.IH [OF this] obtain k m where "h = 2 ^ k * m" "odd m" by blast
    with h show ?thesis by (intro exI [of _ "Suc k"] exI [of _ m]) simp
  qed
qed

text \<open>C17: a round over \<open>n\<close> load/store units or acknowledgement banks, whose step grows by one in each
  iteration, visits each of them exactly when \<open>n\<close> is a power of two. For any other number some are
  skipped in the round (and others are visited twice).\<close>

theorem round_visits_all_iff:
  assumes "0 < n"
  shows "set (probes n [0..<n] p) = {..<n} \<longleftrightarrow> (\<exists>k. n = 2 ^ k)"
proof
  assume cover: "set (probes n [0..<n] p) = {..<n}"
  obtain k m where km: "n = 2 ^ k * m" "odd m" using odd_part [OF assms] by blast
  have "m = 1"
  proof (rule ccontr)
    assume "m \<noteq> 1"
    with km(2) have "1 < m" by (cases m) auto
    with probes_miss_odd [OF km(2) this _ assms] km(1) cover show False by auto
  qed
  with km(1) show "\<exists>k. n = 2 ^ k" by auto
qed (auto simp: probes_cover_power)

theorem round_visits_all_iff_witness: "set (probes 3 [0..<3] 0) \<noteq> {..<3}"
proof -
  have "(3::nat) \<noteq> 2 ^ k" for k by (cases k) (simp_all, presburger)
  with round_visits_all_iff [of 3 0] show ?thesis by auto
qed

section \<open>DRAM cycles per host cycle\<close>

lemma dram_loop_eq:
  assumes "0 < hz"
  shows "\<exists>t. dram_loop tick hz dram host s = Some (host + t * hz, (tick ^^ t) s)
    \<and> dram \<le> host + t * hz \<and> (0 < t \<longrightarrow> host + (t - 1) * hz < dram)"
proof (induction "dram - host" arbitrary: host s rule: less_induct)
  case less
  show ?case
  proof (cases "host < dram")
    case False
    then show ?thesis by (intro exI [of _ 0]) (simp add: dram_loop.simps)
  next
    case True
    with assms have "dram - (host + hz) < dram - host" by simp
    from less [OF this] obtain t where
      t: "dram_loop tick hz dram (host + hz) (tick s) = Some (host + hz + t * hz, (tick ^^ t) (tick s))"
      "dram \<le> host + hz + t * hz" "0 < t \<longrightarrow> host + hz + (t - 1) * hz < dram" by blast
    have "dram_loop tick hz dram host s = Some (host + Suc t * hz, (tick ^^ Suc t) s)"
      using True t(1) by (simp add: dram_loop.simps [of tick hz dram host s] funpow_swap1 add.assoc)
    moreover have "host + (Suc t - 1) * hz < dram"
      using True t(3) by (cases t) (simp_all add: algebra_simps)
    ultimately show ?thesis using t(2) by (intro exI [of _ "Suc t"]) (simp add: algebra_simps)
  qed
qed

text \<open>The number of cycles of a DRAM that only counts them, over \<open>N\<close> host cycles.\<close>

definition counting_dram :: "nat dram" where
  "counting_dram = \<lparr>d_willAccept = \<lambda>_ _ _. True, d_add = \<lambda>m _ _. m, d_tick = \<lambda>m. (m + 1, [])\<rparr>"

lemma counting_ticks: "(clock_tick counting_dram ^^ t) (m, bus) = (m + t, bus)"
  by (induction t) (simp_all add: clock_tick_def counting_dram_def)

lemma dramUpdate_count:
  assumes "0 < hostClkFreqHz ms" "hostClkFreqHz ms \<noteq> dramsimClkFreqHz ms"
    "dramCnt ms \<le> hostCnt ms" "hostCnt ms < dramCnt ms + hostClkFreqHz ms"
  shows "\<exists>ms' t. dramUpdate counting_dram (ms, m) = Inr (ms', m + t)
     \<and> hostClkFreqHz ms' = hostClkFreqHz ms \<and> dramsimClkFreqHz ms' = dramsimClkFreqHz ms
     \<and> dramCnt ms' \<le> hostCnt ms' \<and> hostCnt ms' < dramCnt ms' + hostClkFreqHz ms
     \<and> hostCnt ms' + dramCnt ms + dramsimClkFreqHz ms = dramCnt ms' + hostCnt ms + t * hostClkFreqHz ms"
proof -
  let ?h = "hostClkFreqHz ms" and ?dram = "dramCnt ms + dramsimClkFreqHz ms"
  obtain t where t: "dram_loop (clock_tick counting_dram) ?h ?dram (hostCnt ms) (m, memDataBus ms)
      = Some (hostCnt ms + t * ?h, (m + t, memDataBus ms))"
    "?dram \<le> hostCnt ms + t * ?h" "0 < t \<longrightarrow> hostCnt ms + (t - 1) * ?h < ?dram"
    using dram_loop_eq [OF assms(1), of "clock_tick counting_dram" ?dram "hostCnt ms" "(m, memDataBus ms)"]
    by (auto simp: counting_ticks)
  have "hostCnt ms + t * ?h < ?dram + ?h"
  proof (cases t)
    case 0
    with assms(4) show ?thesis by simp
  next
    case (Suc t')
    with t(3) show ?thesis by simp
  qed
  with t assms(1,2) show ?thesis
    by (cases "hostCnt ms + t * ?h = ?dram") (simp_all add: dramUpdate_def Let_def)
qed

lemma dramUpdate_count_equal:
  assumes "hostClkFreqHz ms = dramsimClkFreqHz ms"
  shows "dramUpdate counting_dram (ms, m) = Inr (ms, m + 1)"
  using assms by (simp add: dramUpdate_def clock_tick_def counting_dram_def)

text \<open>C18: the DRAM runs at its own frequency: after \<open>N\<close> host cycles it has run the smallest number of
  cycles that is at least \<open>N\<close> times the ratio of the two frequencies, however the frequencies relate
  and however often the two counters were reset; no cycle is lost or run twice. Every call returns when
  the host has a frequency.\<close>

theorem dram_rate:
  assumes "0 < hostClkFreqHz ms" "hostCnt ms = 0" "dramCnt ms = 0"
  shows "\<exists>ms' t. rfold (\<lambda>_. dramUpdate counting_dram) (replicate n ()) (ms, 0) = Inr (ms', t)
     \<and> n * dramsimClkFreqHz ms \<le> t * hostClkFreqHz ms
     \<and> t * hostClkFreqHz ms < n * dramsimClkFreqHz ms + hostClkFreqHz ms"
proof -
  let ?h = "hostClkFreqHz ms" and ?d = "dramsimClkFreqHz ms"
  have "\<exists>ms' t. rfold (\<lambda>_. dramUpdate counting_dram) (replicate n ()) (ms, 0) = Inr (ms', t)
     \<and> hostClkFreqHz ms' = ?h \<and> dramsimClkFreqHz ms' = ?d
     \<and> dramCnt ms' \<le> hostCnt ms' \<and> hostCnt ms' < dramCnt ms' + ?h
     \<and> hostCnt ms' + n * ?d = dramCnt ms' + t * ?h"
  proof (induction n)
    case 0
    then show ?case using assms by simp
  next
    case (Suc n)
    then obtain ms1 t where r: "rfold (\<lambda>_. dramUpdate counting_dram) (replicate n ()) (ms, 0) = Inr (ms1, t)"
      "hostClkFreqHz ms1 = ?h" "dramsimClkFreqHz ms1 = ?d" "dramCnt ms1 \<le> hostCnt ms1" "hostCnt ms1 < dramCnt ms1 + ?h"
      "hostCnt ms1 + n * ?d = dramCnt ms1 + t * ?h" by blast
    have step: "rfold (\<lambda>_. dramUpdate counting_dram) (replicate (Suc n) ()) (ms, 0) = dramUpdate counting_dram (ms1, t)"
    proof -
      have "replicate (Suc n) () = replicate n () @ [()]" by (simp add: replicate_append_same)
      then show ?thesis by (simp only: rfold_append r(1) rbind.simps rfold.simps) (cases "dramUpdate counting_dram (ms1, t)"; simp)
    qed
    show ?case
    proof (cases "?h = ?d")
      case True
      with r dramUpdate_count_equal [of ms1 t] show ?thesis
        unfolding step by (intro exI [of _ ms1] exI [of _ "t + 1"]) simp
    next
      case False
      with r assms(1) dramUpdate_count [of ms1 t] obtain ms2 t2 where
        "dramUpdate counting_dram (ms1, t) = Inr (ms2, t + t2)" "hostClkFreqHz ms2 = ?h" "dramsimClkFreqHz ms2 = ?d"
        "dramCnt ms2 \<le> hostCnt ms2" "hostCnt ms2 < dramCnt ms2 + ?h"
        "hostCnt ms2 + dramCnt ms1 + ?d = dramCnt ms2 + hostCnt ms1 + t2 * ?h" by auto
      with r(6) show ?thesis
        unfolding step by (intro exI [of _ ms2] exI [of _ "t + t2"]) (simp add: algebra_simps)
    qed
  qed
  then show ?thesis by (elim exE conjE) (intro exI conjI, assumption, linarith+)
qed

theorem dram_rate_witness:
  "\<exists>ms' t. rfold (\<lambda>_. dramUpdate counting_dram) (replicate 3 ()) ((projr (memSystem_new (cfg_demo\<lparr>freq := 2\<rparr>) 3 [])), 0) = Inr (ms', t)
     \<and> t = 5"
proof -
  let ?ms = "projr (memSystem_new (cfg_demo\<lparr>freq := 2\<rparr>) 3 [])"
  have h: "hostClkFreqHz ?ms = 2" "dramsimClkFreqHz ?ms = 3" "hostCnt ?ms = 0" "dramCnt ?ms = 0"
    by code_simp+
  have "0 < hostClkFreqHz ?ms" by (simp only: h)
  from dram_rate [OF this h(3,4), of 3] h(1,2) obtain ms' t where
    t: "rfold (\<lambda>_. dramUpdate counting_dram) (replicate 3 ()) (?ms, 0) = Inr (ms', t)" "9 \<le> t * 2" "t * 2 < 11" by auto
  then have "t = 5" by presburger
  with t(1) show ?thesis by blast
qed

text \<open>Without a frequency of the host (a configuration that does not give \<open>freq\<close>) the first DRAM
  cycle of a slower or faster DRAM never ends: the loop of \<open>dramUpdate\<close> does not advance its counter.\<close>

theorem dram_without_frequency:
  assumes "hostClkFreqHz ms = 0" "0 < dramsimClkFreqHz ms" "hostCnt ms \<le> dramCnt ms"
  shows "dramUpdate d (ms, m) = Inl NoReturn"
proof -
  have diverge: False if "dram_loop tick 0 dram host s = Some r" "host < dram" for tick dram host r and s :: "'a \<times> dataBus"
  proof -
    have "0 = (0::nat) \<longrightarrow> dram \<le> host"
      using that(1) by (rule dram_loop.raw_induct [where P = "\<lambda>tick hz dram host s r. hz = (0::nat) \<longrightarrow> dram \<le> host", rotated])
        (metis add_0_right not_less)
    with that(2) show False by simp
  qed
  have "dram_loop (clock_tick d) 0 (dramCnt ms + dramsimClkFreqHz ms) (hostCnt ms) (m, memDataBus ms) = None"
  proof (rule ccontr)
    assume "dram_loop (clock_tick d) 0 (dramCnt ms + dramsimClkFreqHz ms) (hostCnt ms) (m, memDataBus ms) \<noteq> None"
    then obtain r where "dram_loop (clock_tick d) 0 (dramCnt ms + dramsimClkFreqHz ms) (hostCnt ms) (m, memDataBus ms) = Some r"
      by blast
    with diverge assms show False by fastforce
  qed
  with assms show ?thesis by (simp add: dramUpdate_def Let_def)
qed

theorem dram_without_frequency_witness:
  "dramUpdate counting_dram (projr (memSystem_new cfg_demo 3 []), 0) = Inl NoReturn"
proof (rule dram_without_frequency)
  show "hostClkFreqHz (projr (memSystem_new cfg_demo 3 [])) = 0" "0 < dramsimClkFreqHz (projr (memSystem_new cfg_demo 3 []))"
    "hostCnt (projr (memSystem_new cfg_demo 3 [])) \<le> dramCnt (projr (memSystem_new cfg_demo 3 []))" by code_simp+
qed

end
