(* ===== verification/Channel.thy ===== *)
theory Channel
  imports Lse
begin

text \<open>
  The execution channels (\<open>module/execution/Channel.cpp\<close>): the base class \<open>Channel\<close> and its classes
  \<open>ChanBase\<close>, \<open>ChanDGSF\<close>, \<open>ChanSGMF\<close> and \<open>ChanPartialMux\<close>, and class \<open>Lse\<close> where it overrides the base
  class. The channels of a graph point to each other, so the objects live in a list and pointers are
  positions in it; an operation takes the list and the position of \<open>this\<close>. Virtual calls dispatch on
  the part of the object that its class adds to \<open>Channel\<close>. The vectors that \<open>Registry::initChannel\<close> sizes
  by the number of upstreams (\<open>chanBuffer\<close>, \<open>chanBufferDataCnt\<close>, \<open>getTheLastData\<close>, \<open>bp\<close>, \<open>lastPopVal\<close>) have
  the same length; an index that is out of range is reported for \<open>chanBuffer\<close>. The arithmetic unit
  (\<open>aluUpdate\<close>, \<open>funcUpdate\<close>) is never called by the program and is left aside, as are the values that
  \<open>get\<close> returns for debugging.
\<close>

section \<open>Objects (Channel.h)\<close>

datatype subobject =
    ChanBase
  | ChanDGSF (pushBufferEnable: bool) (activeStream: "nat list")
  | ChanSGMF (matchQueue: "data list") (tagSize: nat) (tagUpdateMode: bool)
  | ChanPartialMux
  | ChanLse (lse_of: lse)

record chan =
  moduleName :: string
  masterName :: string
  moduleId :: nat
  chanBuffer :: "data list list"
  channel :: "data list"
  bp :: "bool list"
  lastTagQueue :: "(nat \<times> bool list) list"
  getTheLastData :: "bool list"
  ch_valid :: bool
  enable :: bool
  isCond :: bool
  branchMode :: bool
  channelCond :: bool
  isFeedback :: bool
  isLoopVar :: bool
  noUpstream :: bool
  noDownstream :: bool
  keepMode :: bool
  drainMode :: bool
  upstream :: "nat list"
  downstream :: "nat list"
  ch_size :: nat
  ch_cycle :: u64
  speedup :: nat
  ch_lastPopVal :: "i32 list"
  ch_value :: i32
  chanBufferDataCnt :: "nat list"
  chanDataCnt :: nat
  activeCnt :: nat
  activeClkCnt :: nat
  subgraphId :: nat
  ch_isPhysicalChan :: bool
  pushChannelSuccess :: bool
  currId :: nat
  sub :: subobject

type_synonym heap = "chan list"

definition chan_new :: "nat \<Rightarrow> nat \<Rightarrow> u64 \<Rightarrow> nat \<Rightarrow> subobject \<Rightarrow> chan" where
  "chan_new i sz cyc spd s = \<lparr>moduleName = [], masterName = ''None'', moduleId = i, chanBuffer = [], channel = [], bp = [], lastTagQueue = [],
     getTheLastData = [], ch_valid = False, enable = (case s of ChanDGSF _ _ \<Rightarrow> False | _ \<Rightarrow> True),
     isCond = False, branchMode = False, channelCond = True, isFeedback = False, isLoopVar = False, noUpstream = False,
     noDownstream = False, keepMode = False, drainMode = False, upstream = [], downstream = [],
     ch_size = sz, ch_cycle = cyc, speedup = spd, ch_lastPopVal = [], ch_value = 0,
     chanBufferDataCnt = [], chanDataCnt = 0, activeCnt = 0, activeClkCnt = 0, subgraphId = 0,
     ch_isPhysicalChan = True, pushChannelSuccess = False, currId = 1, sub = s\<rparr>"

definition addUpstream :: "nat option list \<Rightarrow> chan \<Rightarrow> chan" where
  "addUpstream ps c = c\<lparr>upstream := upstream c @ List.map_filter (\<lambda>p. p) ps\<rparr>"

definition addDownstream :: "nat option list \<Rightarrow> chan \<Rightarrow> chan" where
  "addDownstream ps c = c\<lparr>downstream := downstream c @ List.map_filter (\<lambda>p. p) ps\<rparr>"

section \<open>Operations of class Channel\<close>

definition modify :: "nat \<Rightarrow> (chan \<Rightarrow> chan res) \<Rightarrow> heap \<Rightarrow> heap res" where
  "modify p f h = rbind (deref h p) (\<lambda>c. rbind (f c) (\<lambda>c. Inr (h[p := c])))"

definition parallelize :: "chan \<Rightarrow> clkDomain \<Rightarrow> chan \<times> clkDomain" where
  "parallelize c k =
     (let c = (if checkClkAdd k then c\<lparr>currId := 1\<rparr>
               else if currId c \<le> speedup c then c\<lparr>currId := currId c + 1\<rparr> else c)
      in (c, if currId c < speedup c then addClkStall k else k))"

fun any_keepMode :: "heap \<Rightarrow> nat list \<Rightarrow> bool res" where
  "any_keepMode h [] = Inr False"
| "any_keepMode h (u # us) = rbind (deref h u) (\<lambda>c. if keepMode c then Inr True else any_keepMode h us)"

definition tag_last :: "nat \<Rightarrow> chan \<Rightarrow> chan" where
  "tag_last m uc = (if keepMode uc
     then uc\<lparr>lastTagQueue := map (\<lambda>(i, q). if i = m then (i, q @ [True]) else (i, q)) (lastTagQueue uc)\<rparr>
     else uc)"

definition sendLastTag :: "nat \<Rightarrow> heap \<Rightarrow> heap res" where
  "sendLastTag p h =
     rbind (deref h p) (\<lambda>c. rfold (\<lambda>u. modify u (\<lambda>uc. Inr (tag_last (moduleId c) uc))) (upstream c) h)"

definition getChanId :: "nat \<Rightarrow> chan \<Rightarrow> nat res" where
  "getChanId p c = (case first_index (\<lambda>u. u = p) (upstream c) of
     Some i \<Rightarrow> Inr i | None \<Rightarrow> Inl (Throw ''Not find this channel in upstream vector!''))"

definition checkUpstream :: "heap \<Rightarrow> chan \<Rightarrow> nat \<Rightarrow> bool res" where
  "checkUpstream h c b =
     (if \<not> noUpstream c
      then rbind (rnth (upstream c) b) (\<lambda>u. rbind (deref h u) (\<lambda>u.
             if \<not> ch_valid u then Inr False
             else if drainMode c then rbind (rfront (channel u)) (\<lambda>d. Inr (d_last d))
             else Inr True))
      else rbind (rnth (chanBuffer c) b) (\<lambda>q. Inr (length q \<noteq> ch_size c)))"

text \<open>What \<open>pushBuffer\<close> makes of the datum that the upstream \<open>u\<close> sends: \<open>!(channelCond ^ _data)\<close> compares
  the value with the branch's condition as integers.\<close>

definition received :: "u64 \<Rightarrow> chan \<Rightarrow> chan \<Rightarrow> i32 \<Rightarrow> data \<Rightarrow> data" where
  "received now c u v d =
     (let d = (if isCond u \<and> branchMode c
               then d\<lparr>d_cond := d_cond d \<and> v = (if channelCond c then 1 else 0)\<rparr> else d)
      in d\<lparr>d_value := v, d_cycle := (if keepMode u then now
             else if branchMode c then (if d_cond d then now + ch_cycle c else now)
             else now + ch_cycle c)\<rparr>)"

definition store :: "nat \<Rightarrow> data \<Rightarrow> chan \<Rightarrow> chan res" where
  "store b d c = rbind (rnth (chanBuffer c) b) (\<lambda>q. Inr
     (c\<lparr>chanBuffer := (chanBuffer c)[b := q @ [d]],
        chanBufferDataCnt := (chanBufferDataCnt c)[b := chanBufferDataCnt c ! b + 1]\<rparr>))"

definition pushBuffer :: "u64 \<Rightarrow> nat \<Rightarrow> i32 \<Rightarrow> nat \<Rightarrow> heap \<Rightarrow> heap res" where
  "pushBuffer now p v b h =
     rbind (deref h p) (\<lambda>c.
       if \<not> noUpstream c
       then rbind (rnth (upstream c) b) (\<lambda>up. rbind (deref h up) (\<lambda>u. rbind (rfront (channel u)) (\<lambda>f.
         rbind (any_keepMode h (upstream c)) (\<lambda>hasUpstreamInKeepMode.
         let d = received now c u v f in
         if \<not> hasUpstreamInKeepMode then modify p (store b d) h
         else if isLoopVar c
         then rbind (rnth (chanBuffer c) b) (\<lambda>q. if q = [] then modify p (store b d) h else Inr h)
         else if length (upstream c) \<noteq> 2
         then Inl (Throw ''[Config Error] The upstream channel number of a channel which has a upstream channel in keepMode must equal to 2 !'')
         else if \<not> keepMode u
         then rbind (modify p (store b d) h) (\<lambda>h. if d_last d then sendLastTag p h else Inr h)
         else let other = (b + 1) mod 2 in
           rbind (rnth (chanBuffer c) b) (\<lambda>q. rbind (rnth (chanBuffer c) other) (\<lambda>qo.
           rbind (deref h (upstream c ! other)) (\<lambda>uo.
             if length q < length qo \<or> ch_valid uo \<or> length q < 1 then modify p (store b d) h else Inr h)))))))
       else modify p (store b (data0\<lparr>d_valid := True, d_value := v, d_cycle := now + ch_cycle c\<rparr>)) h)"

definition checkGetLastData :: "nat \<Rightarrow> chan \<Rightarrow> bool" where
  "checkGetLastData b c = (chanBuffer c ! b \<noteq> [] \<and> d_lastOuter (last (chanBuffer c ! b)) \<and> d_last (last (chanBuffer c ! b)))"

definition setGetLast :: "nat \<Rightarrow> chan \<Rightarrow> chan res" where
  "setGetLast b c = Inr (c\<lparr>getTheLastData := (getTheLastData c)[b := checkGetLastData b c]\<rparr>)"

definition base_push :: "u64 \<Rightarrow> nat \<Rightarrow> i32 \<Rightarrow> nat \<Rightarrow> heap \<Rightarrow> heap res" where
  "base_push now p v b h = rbind (deref h p) (\<lambda>c. rbind (checkUpstream h c b) (\<lambda>r.
     if r then rbind (pushBuffer now p v b h) (modify p (setGetLast b)) else Inr h))"

definition dgsf_pushBuffer :: "u64 \<Rightarrow> nat \<Rightarrow> i32 \<Rightarrow> nat \<Rightarrow> heap \<Rightarrow> heap res" where
  "dgsf_pushBuffer now p v b h = rbind (deref h p) (\<lambda>c.
     if \<not> getTheLastData c ! b then rbind (pushBuffer now p v b h) (modify p (setGetLast b)) else Inr h)"

definition dgsf_push :: "u64 \<Rightarrow> nat \<Rightarrow> i32 \<Rightarrow> nat \<Rightarrow> heap \<Rightarrow> heap res" where
  "dgsf_push now p v b h = rbind (deref h p) (\<lambda>c.
     if pushBufferEnable (sub c)
     then rbind (checkUpstream h c b) (\<lambda>r. if r then dgsf_pushBuffer now p v b h else Inr h)
     else Inr h)"

definition push :: "u64 \<Rightarrow> nat \<Rightarrow> i32 \<Rightarrow> nat \<Rightarrow> heap \<Rightarrow> heap res" where
  "push now p v b h = rbind (deref h p) (\<lambda>c.
     case sub c of ChanDGSF _ _ \<Rightarrow> dgsf_push now p v b h | _ \<Rightarrow> base_push now p v b h)"

definition base_bpUpdate :: "chan \<Rightarrow> chan" where
  "base_bpUpdate c = c\<lparr>bp := map (\<lambda>q. \<not> length q < ch_size c) (chanBuffer c)\<rparr>"

definition dgsf_bpUpdate :: "chan \<Rightarrow> chan" where
  "dgsf_bpUpdate c =
     (if pushBufferEnable (sub c) then c\<lparr>bp := map (\<lambda>q. \<not> length q < ch_size c) (chanBuffer c)\<rparr>
      else c\<lparr>bp := map (\<lambda>q. True) (chanBuffer c)\<rparr>)"

definition bpUpdate :: "chan \<Rightarrow> chan" where
  "bpUpdate c = (case sub c of ChanDGSF _ _ \<Rightarrow> dgsf_bpUpdate c | _ \<Rightarrow> base_bpUpdate c)"

definition assign :: "nat \<Rightarrow> chan \<Rightarrow> i32 res" where
  "assign b c = rbind (rnth (chanBuffer c) b) (\<lambda>q.
     if q \<noteq> [] then Inr (d_value (hd q)) else rnth (ch_lastPopVal c) b)"

definition assign_chan :: "nat \<Rightarrow> chan \<Rightarrow> i32 res" where
  "assign_chan p c = rbind (getChanId p c) (\<lambda>b. assign b c)"

section \<open>Operations of class ChanBase and its classes\<close>

fun rpop :: "'a list \<Rightarrow> ('a \<times> 'a list) res" where
  "rpop [] = Inl EmptyFront"
| "rpop (x # xs) = Inr (x, xs)"

fun rmap :: "('a \<Rightarrow> 'b res) \<Rightarrow> 'a list \<Rightarrow> 'b list res" where
  "rmap f [] = Inr []"
| "rmap f (x # xs) = rbind (f x) (\<lambda>y. rbind (rmap f xs) (\<lambda>ys. Inr (y # ys)))"

definition front_of :: "chan \<Rightarrow> nat \<Rightarrow> data res" where
  "front_of c b = rbind (rnth (chanBuffer c) b) rfront"

definition up_of :: "heap \<Rightarrow> chan \<Rightarrow> nat \<Rightarrow> chan res" where
  "up_of h c b = rbind (rnth (upstream c) b) (deref h)"

text \<open>The inputs of a \<open>ChanPartialMux\<close> on the path that the condition selects.\<close>

definition on_path :: "bool \<Rightarrow> chan \<Rightarrow> bool" where
  "on_path cond u \<longleftrightarrow> branchMode u \<and> channelCond u = cond \<or> \<not> branchMode u"

fun match_path :: "u64 \<Rightarrow> heap \<Rightarrow> chan \<Rightarrow> bool \<Rightarrow> nat list \<Rightarrow> bool res" where
  "match_path now h c cond [] = Inr True"
| "match_path now h c cond (b # bs) = rbind (up_of h c b) (\<lambda>u. rbind (rnth (chanBuffer c) b) (\<lambda>q.
     if on_path cond u \<and> (q = [] \<or> now < d_cycle (hd q)) then Inr False else match_path now h c cond bs))"

definition base_checkDataMatch :: "u64 \<Rightarrow> chan \<Rightarrow> bool" where
  "base_checkDataMatch now c = list_all (\<lambda>q. q \<noteq> [] \<and> d_cycle (hd q) \<le> now) (chanBuffer c)"

definition mux_checkDataMatch :: "u64 \<Rightarrow> heap \<Rightarrow> chan \<Rightarrow> bool res" where
  "mux_checkDataMatch now h c = rbind (rnth (chanBuffer c) 0) (\<lambda>q0.
     if q0 \<noteq> [] then match_path now h c (d_cond (hd q0)) [0..<length (chanBuffer c)] else Inr False)"

definition checkDataMatch :: "u64 \<Rightarrow> heap \<Rightarrow> chan \<Rightarrow> bool res" where
  "checkDataMatch now h c =
     (case sub c of ChanPartialMux \<Rightarrow> mux_checkDataMatch now h c | _ \<Rightarrow> Inr (base_checkDataMatch now c))"

definition merge_flags :: "chan \<Rightarrow> chan \<Rightarrow> data \<Rightarrow> data \<Rightarrow> data" where
  "merge_flags c u f d =
     (if \<not> keepMode u \<and> \<not> drainMode c
      then d\<lparr>d_last := d_last d \<or> d_last f, d_lastOuter := d_lastOuter d \<or> d_lastOuter f\<rparr>
      else if d_last f \<and> d_lastOuter f \<and> isLoopVar c then d\<lparr>d_lastOuter := True\<rparr> else d)"

definition base_updateDataStatus :: "heap \<Rightarrow> chan \<Rightarrow> data \<Rightarrow> data res" where
  "base_updateDataStatus h c = rfold (\<lambda>b d. rbind (up_of h c b) (\<lambda>u. rbind (front_of c b) (\<lambda>f.
     let d = merge_flags c u f d in Inr (d\<lparr>d_graphSwitch := d_graphSwitch d \<or> d_graphSwitch f\<rparr>))))
     [0..<length (chanBuffer c)]"

definition mux_updateDataStatus :: "heap \<Rightarrow> chan \<Rightarrow> data \<Rightarrow> data res" where
  "mux_updateDataStatus h c d = rbind (front_of c 0) (\<lambda>f0. rfold (\<lambda>b d. rbind (up_of h c b) (\<lambda>u.
     if on_path (d_cond f0) u then rbind (front_of c b) (\<lambda>f. Inr (merge_flags c u f d)) else Inr d))
     [0..<length (chanBuffer c)] d)"

definition updateDataStatus :: "heap \<Rightarrow> chan \<Rightarrow> data \<Rightarrow> data res" where
  "updateDataStatus h c d =
     (case sub c of ChanPartialMux \<Rightarrow> mux_updateDataStatus h c d | _ \<Rightarrow> base_updateDataStatus h c d)"

text \<open>The condition that the inputs with \<open>isCond\<close> agree on (\<open>slot\<close> gives the datum of an input).\<close>

fun cond_of :: "heap \<Rightarrow> chan \<Rightarrow> (nat \<Rightarrow> data res) \<Rightarrow> nat list \<Rightarrow> bool option \<Rightarrow> bool option res" where
  "cond_of h c slot [] got = Inr got"
| "cond_of h c slot (b # bs) got = rbind (up_of h c b) (\<lambda>u.
     if isCond u
     then rbind (slot b) (\<lambda>s. case got of
            None \<Rightarrow> cond_of h c slot bs (Some (d_cond s))
          | Some k \<Rightarrow> if k \<noteq> d_cond s then Inl (Throw ''The cond flag of each iscond channel is not consistent!'')
                      else cond_of h c slot bs got)
     else cond_of h c slot bs got)"

definition base_pushChannel :: "u64 \<Rightarrow> heap \<Rightarrow> chan \<Rightarrow> chan res" where
  "base_pushChannel now h c =
     (if \<not> noUpstream c
      then rbind (front_of c 0) (\<lambda>f0.
        rbind (updateDataStatus h c (data0\<lparr>d_valid := True, d_tag := d_tag f0\<rparr>)) (\<lambda>d.
        rbind (if branchMode c then cond_of h c (front_of c) [0..<length (upstream c)] None else Inr None) (\<lambda>got.
          Inr (c\<lparr>channel := channel c @ [d\<lparr>d_cond := (case got of None \<Rightarrow> d_cond f0 | Some k \<Rightarrow> k)\<rparr>]\<rparr>))))
      else Inr (c\<lparr>channel := channel c @ [data0\<lparr>d_valid := True, d_cycle := now\<rparr>]\<rparr>))"

definition popLastCheck :: "chan \<Rightarrow> bool" where
  "popLastCheck c = (\<not> noDownstream c \<and> keepMode c \<longrightarrow> list_all (\<lambda>(i, q). q \<noteq> []) (lastTagQueue c))"

definition popLastTags :: "chan \<Rightarrow> chan res" where
  "popLastTags c =
     (if keepMode c
      then rbind (rmap (\<lambda>(i, q). rbind (rpop q) (\<lambda>(_, q). Inr (i, q))) (lastTagQueue c))
             (\<lambda>qs. Inr (c\<lparr>lastTagQueue := qs\<rparr>))
      else Inr c)"

definition popBuffer :: "nat \<Rightarrow> chan \<Rightarrow> chan res" where
  "popBuffer b c = rbind (rnth (chanBuffer c) b) (\<lambda>q. rbind (rpop q) (\<lambda>(f, q).
     Inr (c\<lparr>ch_lastPopVal := (ch_lastPopVal c)[b := d_value f], chanBuffer := (chanBuffer c)[b := q]\<rparr>)))"

definition sgmf_addr :: "chan \<Rightarrow> nat \<Rightarrow> nat \<Rightarrow> nat res" where
  "sgmf_addr c ts tag =
     (if ts = 0 then Inl ModByZero
      else if ch_size c div ts = 0 then Inl OutOfBounds
      else Inr ((ch_size c div ts - 1) * ts + tag))"

text \<open>The entry of an input's table that holds the datum of a tag: the first one for an input in
  keepMode, that of the last round otherwise.\<close>

definition sgmf_slot :: "heap \<Rightarrow> chan \<Rightarrow> nat \<Rightarrow> nat \<Rightarrow> nat \<Rightarrow> nat res" where
  "sgmf_slot h c ts tag b =
     (if noUpstream c then sgmf_addr c ts tag
      else rbind (up_of h c b) (\<lambda>u. if keepMode u then Inr 0 else sgmf_addr c ts tag))"

definition pop_now :: "bool \<Rightarrow> bool \<Rightarrow> chan \<Rightarrow> bool" where
  "pop_now popReady popLastReady c \<longleftrightarrow> popReady \<and> (\<not> keepMode c \<or> popLastReady)"

definition base_popChannel :: "bool \<Rightarrow> bool \<Rightarrow> chan \<Rightarrow> chan res" where
  "base_popChannel popReady popLastReady c =
     (if pop_now popReady popLastReady c
      then rbind (rpop (channel c)) (\<lambda>(f, ch).
        rbind (rfold popBuffer [0..<length (chanBuffer c)] (c\<lparr>channel := ch\<rparr>)) popLastTags)
      else Inr c)"

definition mux_popChannel :: "bool \<Rightarrow> bool \<Rightarrow> heap \<Rightarrow> chan \<Rightarrow> chan res" where
  "mux_popChannel popReady popLastReady h c =
     (if pop_now popReady popLastReady c
      then rbind (rpop (channel c)) (\<lambda>(f, ch).
        rbind (rfold (\<lambda>b c. rbind (up_of h c b) (\<lambda>u. if on_path (d_cond f) u then popBuffer b c else Inr c))
                 [0..<length (chanBuffer c)] (c\<lparr>channel := ch\<rparr>)) popLastTags)
      else Inr c)"

definition sgmf_popBuffer :: "heap \<Rightarrow> nat \<Rightarrow> nat \<Rightarrow> chan \<Rightarrow> chan res" where
  "sgmf_popBuffer h tag b c = rbind (sgmf_slot h c (tagSize (sub c)) tag b) (\<lambda>i.
     rbind (rnth (chanBuffer c) b) (\<lambda>q. rbind (rnth q i) (\<lambda>s.
       Inr (c\<lparr>chanBuffer := (chanBuffer c)[b := q[i := s\<lparr>d_valid := False\<rparr>]],
              ch_lastPopVal := (ch_lastPopVal c)[b := d_value s]\<rparr>))))"

definition sgmf_popChannel :: "bool \<Rightarrow> bool \<Rightarrow> heap \<Rightarrow> chan \<Rightarrow> chan res" where
  "sgmf_popChannel popReady popLastReady h c =
     (if pop_now popReady popLastReady c
      then rbind (rpop (channel c)) (\<lambda>(f, ch).
        rbind (rfold (sgmf_popBuffer h (unat (d_tag f))) [0..<length (chanBuffer c)] (c\<lparr>channel := ch\<rparr>)) (\<lambda>c.
          popLastTags (c\<lparr>sub := ChanSGMF [d\<leftarrow>matchQueue (sub c). d_tag d \<noteq> d_tag f] (tagSize (sub c)) (tagUpdateMode (sub c))\<rparr>)))
      else Inr c)"

definition popChannel :: "bool \<Rightarrow> bool \<Rightarrow> heap \<Rightarrow> chan \<Rightarrow> chan res" where
  "popChannel popReady popLastReady h c =
     (case sub c of
        ChanPartialMux \<Rightarrow> mux_popChannel popReady popLastReady h c
      | ChanSGMF _ _ _ \<Rightarrow> sgmf_popChannel popReady popLastReady h c
      | _ \<Rightarrow> base_popChannel popReady popLastReady c)"

definition base_pop :: "heap \<Rightarrow> chan \<Rightarrow> chan res" where
  "base_pop h c = popChannel (ch_valid c) (popLastCheck c) h c"

text \<open>Whether the downstream channel takes the datum \<open>d\<close> of channel \<open>p\<close>.\<close>

definition base_checkSend :: "nat \<Rightarrow> chan \<Rightarrow> bool res" where
  "base_checkSend p c = rbind (getChanId p c) (\<lambda>b. Inr (\<not> bp c ! b))"

definition sgmf_checkSend :: "data \<Rightarrow> nat \<Rightarrow> chan \<Rightarrow> bool res" where
  "sgmf_checkSend d p c = rbind (getChanId p c) (\<lambda>b.
     if \<not> bp c ! b
     then rbind (if tagUpdateMode (sub c)
                 then if tagSize (sub c) = 0 then Inl ModByZero else Inr ((d_tag d + 1) mod of_nat (tagSize (sub c)))
                 else Inr (d_tag d)) (\<lambda>tag.
          rbind (rnth (chanBuffer c) b) (\<lambda>tab. rbind (rnth tab (unat tag)) (\<lambda>s.
            if \<not> d_valid s then Inr True
            else if \<not> keepMode c \<and> ch_valid c then rbind (rfront (channel c)) (\<lambda>f. Inr (d_tag f = tag))
            else Inr False)))
     else Inr False)"

definition checkSend :: "heap \<Rightarrow> nat \<Rightarrow> data \<Rightarrow> nat \<Rightarrow> bool res" where
  "checkSend h q d p = rbind (deref h q) (\<lambda>c.
     case sub c of ChanSGMF _ _ _ \<Rightarrow> sgmf_checkSend d p c | _ \<Rightarrow> base_checkSend p c)"

fun sendable :: "heap \<Rightarrow> nat list \<Rightarrow> data \<Rightarrow> nat \<Rightarrow> bool res" where
  "sendable h [] d p = Inr True"
| "sendable h (q # qs) d p = rbind (checkSend h q d p) (\<lambda>s. if s then sendable h qs d p else Inr False)"

text \<open>The first half of the status update moves the matched data of the buffers to the channel, the second
  announces the datum of the channel when every consumer has room.\<close>

definition base_fill :: "u64 \<Rightarrow> heap \<Rightarrow> chan \<Rightarrow> chan res" where
  "base_fill now h c = rbind (checkDataMatch now h c) (\<lambda>match.
     if match \<and> channel c = []
     then rbind (base_pushChannel now h c) (\<lambda>c. Inr (c\<lparr>pushChannelSuccess := True\<rparr>))
     else Inr (c\<lparr>pushChannelSuccess := False\<rparr>))"

definition base_announce :: "u64 \<Rightarrow> nat \<Rightarrow> heap \<Rightarrow> chan \<Rightarrow> heap res" where
  "base_announce now p h c = (let c = c\<lparr>ch_valid := True\<rparr> in
     rbind (if channel c = [] \<or> \<not> enable c then Inr False
            else if \<not> noDownstream c \<and> \<not> keepMode c
            then sendable (h[p := c]) (downstream c) (hd (channel c)) p
            else Inr True) (\<lambda>v.
       Inr (h[p := (if v
              then c\<lparr>ch_valid := v, channel := (channel c)[0 := (hd (channel c))\<lparr>d_cycle := now\<rparr>],
                     chanDataCnt := chanDataCnt c + 1\<rparr>
              else c\<lparr>ch_valid := v\<rparr>)])))"

definition base_statusUpdate :: "u64 \<Rightarrow> nat \<Rightarrow> heap \<Rightarrow> heap res" where
  "base_statusUpdate now p h = rbind (deref h p) (\<lambda>c. rbind (base_fill now h c) (base_announce now p h))"

end
