(* ===== verification/ChannelClasses.thy ===== *)
theory ChannelClasses
  imports Channel
begin

text \<open>
  The channels with tags (class \<open>ChanSGMF\<close>, \<open>module/execution/Channel.cpp\<close>), the load/store unit as a
  channel (\<open>module/execution/Lse.cpp\<close>), and \<open>get\<close>, the cycle of every channel, which dispatches on the
  class of the object.
\<close>

section \<open>Class ChanSGMF\<close>

text \<open>The datum that is stored has only the value and the tag of the one received: the datum read from
  the upstream is bound to an inner variable of the same name.\<close>

definition sgmf_pushBuffer :: "u64 \<Rightarrow> i32 \<Rightarrow> nat \<Rightarrow> u64 \<Rightarrow> heap \<Rightarrow> chan \<Rightarrow> chan res" where
  "sgmf_pushBuffer now v b tag h c =
     rbind (if noUpstream c then Inr (tag, False)
            else rbind (up_of h c b) (\<lambda>u. rbind (rfront (channel u)) (\<lambda>f.
              Inr (if keepMode u then 0 else d_tag f, keepMode u)))) (\<lambda>(t, kept).
     let d = data0\<lparr>d_valid := True, d_value := v\<rparr>;
         d = d\<lparr>d_cycle := (if branchMode c then (if d_cond d then now + ch_cycle c else now) else now + ch_cycle c)\<rparr> in
     rbind (if tagUpdateMode (sub c)
            then if tagSize (sub c) = 0 then Inl ModByZero else Inr ((t + 1) mod of_nat (tagSize (sub c)))
            else Inr t) (\<lambda>t.
     rbind (rnth (chanBuffer c) b) (\<lambda>q. let i = (if kept then 0 else unat t) in
     rbind (rnth q i) (\<lambda>s.
       if kept \<and> d_valid s then Inr c
       else Inr (c\<lparr>chanBuffer := (chanBuffer c)[b := q[i := d\<lparr>d_tag := t\<rparr>]],
                   chanBufferDataCnt := (chanBufferDataCnt c)[b := chanBufferDataCnt c ! b + 1]\<rparr>)))))"

definition sgmf_checkUpstream :: "heap \<Rightarrow> chan \<Rightarrow> nat \<Rightarrow> u64 \<Rightarrow> bool res" where
  "sgmf_checkUpstream h c b tag =
     (if \<not> noUpstream c
      then rbind (up_of h c b) (\<lambda>u.
             if \<not> ch_valid u then Inr False
             else if drainMode c then rbind (rfront (channel u)) (\<lambda>d. Inr (d_last d))
             else Inr True)
      else rbind (rnth (chanBuffer c) b) (\<lambda>q. rbind (rnth q (unat tag)) (\<lambda>s. Inr (\<not> d_valid s))))"

definition sgmf_push :: "u64 \<Rightarrow> i32 \<Rightarrow> nat \<Rightarrow> u64 \<Rightarrow> heap \<Rightarrow> chan \<Rightarrow> chan res" where
  "sgmf_push now v b tag h c = rbind (sgmf_checkUpstream h c b tag) (\<lambda>r.
     if r then sgmf_pushBuffer now v b tag h c else Inr c)"

definition slot_of :: "chan \<Rightarrow> nat \<Rightarrow> nat \<Rightarrow> data res" where
  "slot_of c i b = rbind (rnth (chanBuffer c) b) (\<lambda>q. rnth q i)"

fun cond_all :: "chan \<Rightarrow> nat \<Rightarrow> nat list \<Rightarrow> bool option \<Rightarrow> bool option res" where
  "cond_all c tag [] got = Inr got"
| "cond_all c tag (b # bs) got = rbind (slot_of c tag b) (\<lambda>s. case got of
       None \<Rightarrow> cond_all c tag bs (Some (d_cond s))
     | Some k \<Rightarrow> if k \<noteq> d_cond s then Inl (Throw ''The cond flag of each upstream channel is not consistent!'')
                 else cond_all c tag bs got)"

definition sgmf_pushChannel :: "u64 \<Rightarrow> u64 \<Rightarrow> nat \<Rightarrow> heap \<Rightarrow> heap res" where
  "sgmf_pushChannel now t p h = rbind (deref h p) (\<lambda>c. let tag = unat t in
     if \<not> noUpstream c
     then rbind (rfold (\<lambda>b d. rbind (up_of h c b) (\<lambda>u.
              if \<not> keepMode u \<and> \<not> drainMode c
              then rbind (slot_of c tag b) (\<lambda>s. Inr (d\<lparr>d_last := d_last d \<or> d_last s, d_lastOuter := d_lastOuter d \<or> d_lastOuter s\<rparr>))
              else rbind (front_of c b) (\<lambda>f. Inr (if d_last f \<and> d_lastOuter f \<and> isLoopVar c then d\<lparr>d_lastOuter := True\<rparr> else d))))
            [0..<length (chanBuffer c)] (data0\<lparr>d_valid := True, d_tag := t\<rparr>)) (\<lambda>d.
          rbind (if d_last d then sendLastTag p h else Inr h) (\<lambda>h.
          rbind (if branchMode c then cond_of h c (slot_of c tag) [0..<length (upstream c)] None else Inr None) (\<lambda>got.
          rbind (case got of Some k \<Rightarrow> Inr k | None \<Rightarrow>
                   rbind (up_of h c 0) (\<lambda>u0.
                     if \<not> isCond u0
                     then rbind (cond_all c tag [0..<length (upstream c)] None) (\<lambda>k. Inr (case k of None \<Rightarrow> d_cond d | Some k \<Rightarrow> k))
                     else rbind (slot_of c tag 0) (\<lambda>s. Inr (d_cond s)))) (\<lambda>cond.
            modify p (\<lambda>c. Inr (c\<lparr>channel := channel c @ [d\<lparr>d_cond := cond\<rparr>]\<rparr>)) h))))
     else modify p (\<lambda>c. Inr (c\<lparr>channel := channel c @ [data0\<lparr>d_tag := t, d_valid := True, d_cycle := now\<rparr>]\<rparr>)) h)"

text \<open>The rounds of a table from the back to the front: a valid datum moves to the next round when its
  place there is free.\<close>

definition shift_tag :: "nat \<Rightarrow> nat \<Rightarrow> nat \<Rightarrow> data list \<Rightarrow> data list" where
  "shift_tag ts rounds tag q = fold (\<lambda>i q.
     let a = (rounds - 2 - i) * ts in
     if \<not> d_valid (q ! (a + ts + tag)) \<and> d_valid (q ! (a + tag))
     then q[a + ts + tag := q ! (a + tag), a + tag := (q ! (a + tag))\<lparr>d_valid := False\<rparr>]
     else q) [0..<rounds - 1] q"

definition shiftDataInChanBuffer :: "heap \<Rightarrow> chan \<Rightarrow> chan res" where
  "shiftDataInChanBuffer h c = (let ts = tagSize (sub c) in
     if ts = 0 then Inl ModByZero
     else let rounds = ch_size c div ts in
       rfold (\<lambda>b c. rbind (if noUpstream c then Inr False else rbind (up_of h c b) (\<lambda>u. Inr (keepMode u))) (\<lambda>kept.
         if kept then Inr c
         else if rounds = 0 \<or> length (chanBuffer c ! b) < rounds * ts then Inl OutOfBounds
         else Inr (c\<lparr>chanBuffer := (chanBuffer c)[b := fold (shift_tag ts rounds) [0..<ts] (chanBuffer c ! b)]\<rparr>)))
       [0..<length (chanBuffer c)] c)"

fun tag_match :: "heap \<Rightarrow> chan \<Rightarrow> nat \<Rightarrow> nat list \<Rightarrow> u64 \<Rightarrow> u64 option res" where
  "tag_match h c tag [] cyc = Inr (Some cyc)"
| "tag_match h c tag (b # bs) cyc = rbind (sgmf_slot h c (tagSize (sub c)) tag b) (\<lambda>i. rbind (slot_of c i b) (\<lambda>s.
     if \<not> d_valid s then Inr None else tag_match h c tag bs (max cyc (d_cycle s))))"

definition checkTagMatch :: "heap \<Rightarrow> chan \<Rightarrow> chan res" where
  "checkTagMatch h c = rfold (\<lambda>tag c.
     rbind (tag_match h c tag [0..<length (chanBuffer c)] 0) (\<lambda>m. case m of
       None \<Rightarrow> Inr c
     | Some cyc \<Rightarrow> (case sub c of
           ChanSGMF mq ts upd \<Rightarrow>
             if list_ex (\<lambda>d. d_tag d = of_nat tag) mq then Inr c
             else Inr (c\<lparr>sub := ChanSGMF (mq @ [data0\<lparr>d_valid := True, d_cycle := cyc, d_tag := of_nat tag\<rparr>]) ts upd\<rparr>)
         | _ \<Rightarrow> Inr c))) [0..<tagSize (sub c)] c"

fun sgmf_send :: "u64 \<Rightarrow> nat \<Rightarrow> data list \<Rightarrow> heap \<Rightarrow> heap res" where
  "sgmf_send now p [] h = Inr h"
| "sgmf_send now p (d # ds) h = rbind (deref h p) (\<lambda>c.
     if d_cycle d \<le> now
     then rbind (if keepMode c then Inr True else sendable h (downstream c) d p) (\<lambda>s.
            if s then sgmf_pushChannel now (d_tag d) p h else sgmf_send now p ds h)
     else sgmf_send now p ds h)"

definition sgmf_statusUpdate :: "u64 \<Rightarrow> nat \<Rightarrow> heap \<Rightarrow> heap res" where
  "sgmf_statusUpdate now p h = rbind (deref h p) (\<lambda>c. let c = c\<lparr>ch_valid := False\<rparr> in
     rbind (shiftDataInChanBuffer (h[p := c]) c) (\<lambda>c. rbind (checkTagMatch (h[p := c]) c) (\<lambda>c.
     let h = h[p := c] in
     rbind (if \<not> noDownstream c \<and> channel c = [] then sgmf_send now p (matchQueue (sub c)) h else Inr h) (\<lambda>h.
     modify p (\<lambda>c. Inr (if channel c \<noteq> []
       then c\<lparr>ch_valid := True, channel := (channel c)[0 := (hd (channel c))\<lparr>d_cycle := now\<rparr>],
              chanDataCnt := chanDataCnt c + 1\<rparr>
       else c)) h))))"

definition sgmf_assign :: "heap \<Rightarrow> nat \<Rightarrow> chan \<Rightarrow> i32 res" where
  "sgmf_assign h b c =
     (case channel c of
        f # _ \<Rightarrow> rbind (up_of h c b) (\<lambda>u.
          rbind (if keepMode u then Inr 0 else sgmf_addr c (tagSize (sub c)) (unat (d_tag f))) (\<lambda>i.
          rbind (slot_of c i b) (\<lambda>s. Inr (d_value s))))
      | [] \<Rightarrow> rnth (ch_lastPopVal c) b)"

section \<open>Class Lse as a channel\<close>

definition lse_pop :: "chan \<Rightarrow> lse \<Rightarrow> chan res" where
  "lse_pop c l =
     (if ch_valid c
      then rbind (rpop (channel c)) (\<lambda>(f, ch). let i = d_lseReqQueueIndex f in
        rbind (rnth (lse_reqQueue l) i) (\<lambda>(r, d).
        rbind (if lse_isWrite l then rbind (rpop (valueQueue l)) (\<lambda>(_, q). Inr q) else Inr (valueQueue l)) (\<lambda>vq.
          Inr (c\<lparr>channel := ch, sub := ChanLse (l\<lparr>lse_lastPopVal := m_addr r, valueQueue := vq,
                   lse_reqQueue := (lse_reqQueue l)[i := (r\<lparr>m_valid := False\<rparr>, d\<lparr>d_valid := False\<rparr>)]\<rparr>)\<rparr>))))
      else Inr c)"

definition popChanBuffer :: "chan \<Rightarrow> chan res" where
  "popChanBuffer c = rbind (rmap rpop (chanBuffer c)) (\<lambda>ps. Inr (c\<lparr>chanBuffer := map snd ps\<rparr>))"

definition enqueue :: "config \<Rightarrow> data \<Rightarrow> data \<Rightarrow> chan \<Rightarrow> chan res" where
  "enqueue g f0 d c = (let l = lse_of (sub c);
         req = memReq0\<lparr>m_valid := True, m_addr := scast (d_value f0) * of_nat (data_precision g div 8) + baseAddr l,
                       m_isWrite := lse_isWrite l, m_lseId := lseId l\<rparr> in
       rbind (rnth (lse_reqQueue l) (pushQueuePtr l)) (\<lambda>(r, _).
       if \<not> m_valid r
       then rbind (if lse_isWrite l then rbind (front_of c 1) (\<lambda>f1. Inr (valueQueue l @ [d_value f1])) else Inr (valueQueue l)) (\<lambda>vq.
            popChanBuffer (c\<lparr>sub := ChanLse (l\<lparr>orderId := orderId l + 1, valueQueue := vq,
              lse_reqQueue := (lse_reqQueue l)[pushQueuePtr l :=
                 (req\<lparr>m_lseReqQueueIndex := pushQueuePtr l, m_cnt := orderId l\<rparr>, d\<lparr>d_lseReqQueueIndex := pushQueuePtr l\<rparr>)],
              pushQueuePtr := (pushQueuePtr l + 1) mod length (lse_reqQueue l)\<rparr>)\<rparr>))
       else Inr c))"

definition request_data :: "u64 \<Rightarrow> data \<Rightarrow> data list \<Rightarrow> data" where
  "request_data now f0 fs = f0\<lparr>d_valid := True, d_cycle := now, d_last := list_ex d_last fs,
     d_lastOuter := d_lastOuter f0 \<or> list_ex d_lastOuter fs,
     d_graphSwitch := d_graphSwitch f0 \<or> list_ex d_graphSwitch fs\<rparr>"

definition pushReqQ :: "config \<Rightarrow> u64 \<Rightarrow> nat \<Rightarrow> heap \<Rightarrow> heap res" where
  "pushReqQ g now p h = rbind (deref h p) (\<lambda>c. rbind (front_of c 0) (\<lambda>f0. rbind (rmap rfront (chanBuffer c)) (\<lambda>fs.
     let d = request_data now f0 fs in
     rbind (if d_last d then sendLastTag p h else Inr h) (modify p (enqueue g f0 d)))))"

text \<open>The selection of the request that the current instance offers to the memory system.\<close>

definition lse_select :: "config \<Rightarrow> u64 \<Rightarrow> bool \<Rightarrow> nat \<Rightarrow> lse \<Rightarrow> lse res" where
  "lse_select g now branch cid l =
     (if 0 < cid \<and> cid - 1 < length (suspendReqVec l)
      then if fst (suspendReqVec l ! (cid - 1)) then Inr l
      else rbind (rnth (lse_reqQueue l) (sendMemPtr l)) (\<lambda>(r, d).
        if m_valid r \<and> \<not> m_inflight r \<and> \<not> m_ready r \<and> d_cycle d \<le> now
        then let i = sendMemPtr l; l = upd_req i (\<lambda>r. r\<lparr>m_lseReqQueueIndex := i\<rparr>) l in
          rbind (if no_memory g \<or> noLatencyMode l \<or> branch \<and> \<not> d_cond d
                 then ackCallback now (r\<lparr>m_lseReqQueueIndex := i\<rparr>) (upd_req i (\<lambda>r. r\<lparr>m_inflight := True\<rparr>) l)
                 else Inr (l\<lparr>suspendReqVec := (suspendReqVec l)[cid - 1 := (True, r\<lparr>m_lseReqQueueIndex := i\<rparr>)]\<rparr>))
            (\<lambda>l. Inr (l\<lparr>sendMemPtr := (i + 1) mod length (lse_reqQueue l)\<rparr>))
        else Inr l)
      else Inl OutOfBounds)"

definition lse_send :: "u64 \<Rightarrow> chan \<Rightarrow> lse \<Rightarrow> memReq \<Rightarrow> data \<Rightarrow> nat \<Rightarrow> chan" where
  "lse_send now c l r d cur = (let i = sendChanPtr l; d = d\<lparr>d_cycle := now\<rparr> in
     c\<lparr>channel := channel c @ [d], pushChannelSuccess := True,
       sub := ChanLse (l\<lparr>lse_reqQueue := (lse_reqQueue l)[i := (r\<lparr>m_hasPushChan := True\<rparr>, d)],
                         sendChanPtr := (i + 1) mod length (lse_reqQueue l), currReqId := cur\<rparr>)\<rparr>)"

definition lse_pushChannel :: "config \<Rightarrow> u64 \<Rightarrow> chan \<Rightarrow> chan res" where
  "lse_pushChannel g now c = (let c = c\<lparr>pushChannelSuccess := False\<rparr>; l = lse_of (sub c) in
     if length (channel c) < ch_size c
     then if lse_O3 g
       then Inr (if lse_reqQueue l = [] then c else case lse_reqQueue l ! sendChanPtr l of (r, d) \<Rightarrow>
              if m_valid r \<and> m_ready r \<and> \<not> m_hasPushChan r then lse_send now c l r d (currReqId l) else c)
       else rbind (rnth (lse_reqQueue l) (sendChanPtr l)) (\<lambda>(r, d).
              if m_valid r \<and> m_ready r \<and> \<not> m_hasPushChan r
              then if m_cnt r \<noteq> currReqId l then Inl (Throw ''Lse sendChanPtr not consist with currReqId!'')
                   else Inr (lse_send now c l r d (currReqId l + 1))
              else Inr c)
     else Inr c)"

definition lse_statusUpdate :: "config \<Rightarrow> u64 \<Rightarrow> nat \<Rightarrow> heap \<Rightarrow> heap res" where
  "lse_statusUpdate g now p h = rbind (deref h p) (\<lambda>c.
     rbind (if list_all (\<lambda>q. q \<noteq> [] \<and> d_cycle (hd q) \<le> now) (chanBuffer c) then pushReqQ g now p h else Inr h) (\<lambda>h.
     rbind (modify p (\<lambda>c. rbind (lse_select g now (branchMode c) (currId c) (lse_of (sub c))) (\<lambda>l.
              lse_pushChannel g now (c\<lparr>ch_valid := True, sub := ChanLse l\<rparr>))) h) (\<lambda>h.
     rbind (deref h p) (\<lambda>c.
     rbind (if channel c = [] then Inr False
            else if \<not> noDownstream c then sendable h (downstream c) (hd (channel c)) p else Inr True) (\<lambda>v.
       Inr (h[p := c\<lparr>ch_valid := v, chanDataCnt := (if v then chanDataCnt c + 1 else chanDataCnt c)\<rparr>]))))))"

definition lse_assign :: "config \<Rightarrow> chan \<Rightarrow> u64 res" where
  "lse_assign g c = (let l = lse_of (sub c); w = of_nat (data_precision g div 8) in
     if w = 0 then Inl ModByZero
     else case channel c of
       f # _ \<Rightarrow> rbind (rnth (lse_reqQueue l) (d_lseReqQueueIndex f)) (\<lambda>(r, _). Inr ((m_addr r - baseAddr l) div w))
     | [] \<Rightarrow> Inr (if baseAddr l \<le> lse_lastPopVal l then (lse_lastPopVal l - baseAddr l) div w else 0))"

section \<open>The cycle of a channel\<close>

definition pop :: "heap \<Rightarrow> chan \<Rightarrow> chan res" where
  "pop h c = (case sub c of ChanLse l \<Rightarrow> lse_pop c l | _ \<Rightarrow> base_pop h c)"

definition statusUpdate :: "config \<Rightarrow> u64 \<Rightarrow> nat \<Rightarrow> heap \<Rightarrow> heap res" where
  "statusUpdate g now p h = rbind (deref h p) (\<lambda>c. case sub c of
       ChanLse _ \<Rightarrow> lse_statusUpdate g now p h
     | ChanSGMF _ _ _ \<Rightarrow> sgmf_statusUpdate now p h
     | _ \<Rightarrow> base_statusUpdate now p h)"

definition push_all :: "u64 \<Rightarrow> nat \<Rightarrow> heap \<Rightarrow> heap res" where
  "push_all now p h = rbind (deref h p) (\<lambda>c. rfold (\<lambda>b h. rbind (up_of h c b) (\<lambda>u.
     case sub c of
       ChanSGMF _ _ _ \<Rightarrow> modify p (sgmf_push now (ch_value u) b 0 h) h
     | _ \<Rightarrow> push now p (ch_value u) b h)) [0..<length (upstream c)] h)"

definition refresh :: "config \<Rightarrow> bool \<Rightarrow> clkDomain \<Rightarrow> nat \<Rightarrow> heap \<Rightarrow> heap res" where
  "refresh g clkToo k p h = rbind (deref h p) (\<lambda>c.
     rbind (if currId c \<le> speedup c \<or> clkToo \<and> (checkClkAdd k \<or> (case sub c of ChanDGSF _ _ \<Rightarrow> True | _ \<Rightarrow> False))
            then statusUpdate g (clk k) p h
            else Inr (h[p := (if clkToo then c\<lparr>ch_valid := False, pushChannelSuccess := False\<rparr>
                              else c\<lparr>ch_valid := False\<rparr>)]))
       (modify p (\<lambda>c. Inr (bpUpdate c))))"

definition get :: "config \<Rightarrow> nat \<Rightarrow> clkDomain \<times> heap \<Rightarrow> (clkDomain \<times> heap) res" where
  "get g p = (\<lambda>(k, h). rbind (deref h p) (\<lambda>c. case sub c of
       ChanSGMF _ _ _ \<Rightarrow>
         rbind (modify p (pop h) h) (\<lambda>h. rbind (push_all (clk k) p h) (\<lambda>h.
         rbind (statusUpdate g (clk k) p h) (\<lambda>h. Inr (k, h))))
     | _ \<Rightarrow>
         let (c, k) = (if 1 < speedup c then parallelize c k else (c, k)); h = h[p := c] in
         rbind (modify p (pop h) h) (\<lambda>h. rbind (push_all (clk k) p h) (\<lambda>h.
         rbind (refresh g True k p h) (\<lambda>h. Inr (k, h))))))"

text \<open>The \<open>get\<close> that takes the values from the program, one per buffer.\<close>

definition get_data :: "config \<Rightarrow> i32 list \<Rightarrow> nat \<Rightarrow> clkDomain \<times> heap \<Rightarrow> (clkDomain \<times> heap) res" where
  "get_data g vs p = (\<lambda>(k, h). rbind (deref h p) (\<lambda>c.
     let (c, k) = (if 1 < speedup c then parallelize c k else (c, k)); h = h[p := c] in
     rbind (modify p (pop h) h) (\<lambda>h.
     rbind (rfold (\<lambda>(b, v). push (clk k) p v b) (zip [0..<length vs] vs) h) (\<lambda>h.
     rbind (refresh g False k p h) (\<lambda>h. Inr (k, h))))))"

text \<open>The \<open>get\<close> of a \<open>ChanSGMF\<close> without upstream, which gives the tag.\<close>

definition sgmf_get_data :: "config \<Rightarrow> i32 list \<Rightarrow> u64 \<Rightarrow> nat \<Rightarrow> clkDomain \<times> heap \<Rightarrow> (clkDomain \<times> heap) res" where
  "sgmf_get_data g vs tag p = (\<lambda>(k, h). rbind (deref h p) (\<lambda>c.
     if \<not> noUpstream c then Inl (Throw ''It is not a no upstream channel!'')
     else rbind (modify p (pop h) h) (\<lambda>h.
       rbind (rfold (\<lambda>b h. rbind (rnth vs b) (\<lambda>v. modify p (sgmf_push (clk k) v b tag h) h)) [0..<length (chanBuffer c)] h) (\<lambda>h.
       rbind (statusUpdate g (clk k) p h) (\<lambda>h. Inr (k, h))))))"

end
