(* ===== verification/LsePipe.thy ===== *)
theory LsePipe
  imports ChannelClasses
begin

text \<open>
  The order of a load/store unit (\<open>module/execution/Lse.cpp\<close>): the request queue is a ring that three
  pointers go round, and the memory may acknowledge its entries in any order. The theory relates the
  queue and the channel of the unit to the sequences of the data it has accepted and delivered.
\<close>

section \<open>The ring\<close>

text \<open>What the order depends on of a queue entry: whether it is in use, the number of its request,
  whether it has been sent to the channel, and its datum.\<close>

definition slots :: "lse \<Rightarrow> (bool \<times> nat \<times> bool \<times> data) list" where
  "slots l = map (\<lambda>(r, d). (m_valid r, m_cnt r, m_hasPushChan r, d)) (lse_reqQueue l)"

definition payload :: "data \<Rightarrow> i32 \<times> bool" where
  "payload d = (d_value d, d_cond d)"

text \<open>Requests \<open>length outs\<close> to \<open>r - 1\<close> are in the channel, requests \<open>r\<close> to \<open>length ins - 1\<close> wait; request
  \<open>k\<close> is in entry \<open>k mod n\<close>; the other entries are free.\<close>

definition ring :: "(bool \<times> nat \<times> bool \<times> data) list \<Rightarrow> data list \<Rightarrow> (i32 \<times> bool) list \<Rightarrow> (i32 \<times> bool) list \<Rightarrow> nat \<Rightarrow> bool" where
  "ring S ch ins outs r \<longleftrightarrow> 0 < length S \<and> length outs \<le> r \<and> r \<le> length ins \<and> length ins \<le> length outs + length S
     \<and> outs = take (length outs) ins
     \<and> (\<forall>k. length outs \<le> k \<and> k < length ins \<longrightarrow> (\<exists>d. S ! (k mod length S) = (True, k, k < r, d)
            \<and> payload d = ins ! k \<and> d_lseReqQueueIndex d = k mod length S))
     \<and> (\<forall>k. length ins \<le> k \<and> k < length outs + length S \<longrightarrow> \<not> fst (S ! (k mod length S)))
     \<and> ch = map (\<lambda>k. snd (snd (snd (S ! (k mod length S))))) [length outs..<r]"

lemma ringD:
  assumes "ring S ch ins outs r"
  shows "0 < length S" "length outs \<le> r" "r \<le> length ins" "length ins \<le> length outs + length S"
    "outs = take (length outs) ins" "ch = map (\<lambda>k. snd (snd (snd (S ! (k mod length S))))) [length outs..<r]"
  using assms unfolding ring_def by blast+

lemma ring_used:
  "ring S ch ins outs r \<Longrightarrow> length outs \<le> k \<Longrightarrow> k < length ins \<Longrightarrow>
     \<exists>d. S ! (k mod length S) = (True, k, k < r, d) \<and> payload d = ins ! k \<and> d_lseReqQueueIndex d = k mod length S"
  unfolding ring_def by blast

lemma ring_free:
  "ring S ch ins outs r \<Longrightarrow> length ins \<le> k \<Longrightarrow> k < length outs + length S \<Longrightarrow> \<not> fst (S ! (k mod length S))"
  unfolding ring_def by blast

lemma mod_window:
  assumes "k mod n = j mod n" "a \<le> k" "k < a + n" "a \<le> j" "j < a + (n::nat)"
  shows "k = j"
proof -
  have "x = y" if "x mod n = y mod n" "a \<le> x" "x \<le> y" "y < a + n" for x y
  proof -
    have "n dvd y - x" using that(1,3) by (metis mod_eq_dvd_iff_nat)
    moreover have "y - x < n" using that by arith
    ultimately show "x = y" using that(3) by (metis dvd_imp_le le_antisym linorder_not_less diff_is_0_eq neq0_conv)
  qed
  with assms show ?thesis by (metis linear)
qed

lemma ring_update_other:
  assumes "a \<le> k" "k < a + length S" "a \<le> j" "j < a + length S" "k \<noteq> j"
  shows "S[j mod length S := x] ! (k mod length S) = S ! (k mod length S)"
  using mod_window [of k "length S" j a] assms by (metis nth_list_update_neq)

lemma ring_push:
  assumes "ring S ch ins outs r" "\<not> fst (S ! (length ins mod length S))"
    "payload d = x" "d_lseReqQueueIndex d = length ins mod length S"
  shows "ring (S[length ins mod length S := (True, length ins, False, d)]) ch (ins @ [x]) outs r"
proof -
  let ?n = "length S" and ?o = "length ins" and ?p = "length outs"
  note R = ringD [OF assms(1)]
  have room: "?o < ?p + ?n"
  proof (rule ccontr)
    assume "\<not> ?thesis"
    then have o: "?o = ?p + ?n" using R(4) by simp
    then have "?o mod ?n = ?p mod ?n" by simp
    with ring_used [OF assms(1), of ?p] o R(1) assms(2) show False by auto
  qed
  have other: "S[?o mod ?n := y] ! (k mod ?n) = S ! (k mod ?n)" if "?p \<le> k" "k < ?p + ?n" "k \<noteq> ?o" for k y
    using ring_update_other [of ?p k S ?o] that room assms(1) by (auto simp: ring_def)
  have same: "S[?o mod ?n := y] ! (?o mod ?n) = y" for y
    using assms(1) by (simp add: ring_def)
  let ?S = "S[?o mod ?n := (True, ?o, False, d)]"
  show ?thesis
    unfolding ring_def
  proof (intro conjI allI impI)
    fix k assume k: "?p \<le> k \<and> k < length (ins @ [x])"
    show "\<exists>e. ?S ! (k mod length ?S) = (True, k, k < r, e) \<and> payload e = (ins @ [x]) ! k \<and> d_lseReqQueueIndex e = k mod length ?S"
    proof (cases "k = ?o")
      case True
      with same assms(3,4) R(3) show ?thesis by simp
    next
      case False
      then have "?p \<le> k" "k < ?o" using k by auto
      with ring_used [OF assms(1), of k] other [of k] R(4) show ?thesis by (simp add: nth_append)
    qed
  next
    fix k assume "length (ins @ [x]) \<le> k \<and> k < ?p + length ?S"
    then have "?o \<le> k" "k < ?p + ?n" "k \<noteq> ?o" by auto
    with ring_free [OF assms(1), of k] other [of k] R(2,3) show "\<not> fst (?S ! (k mod length ?S))" by simp
  next
    show "ch = map (\<lambda>k. snd (snd (snd (?S ! (k mod length ?S))))) [?p..<r]"
      unfolding R(6) using R(2,3,4) other by (intro map_cong) auto
  next
    show "outs = take ?p (ins @ [x])" using R(2,3,5) by simp
  qed (use R room in auto)
qed

lemma ring_send:
  assumes "ring S ch ins outs r" "S ! (r mod length S) = (True, k, False, d)"
  shows "k = r" "r < length ins"
    "ring (S[r mod length S := (True, k, True, d\<lparr>d_cycle := now\<rparr>)]) (ch @ [d\<lparr>d_cycle := now\<rparr>]) ins outs (r + 1)"
proof -
  let ?n = "length S" and ?o = "length ins" and ?p = "length outs"
  show lt: "r < ?o"
  proof (rule ccontr)
    assume "\<not> ?thesis"
    with assms(1) have r: "r = ?o" by (simp add: ring_def)
    show False
    proof (cases "?o < ?p + ?n")
      case True
      with assms r show False by (auto simp: ring_def)
    next
      case False
      with assms(1) have o: "?o = ?p + ?n" "?p < ?o" by (auto simp: ring_def)
      then have "r mod ?n = ?p mod ?n" using r by simp
      moreover obtain d' where "S ! (?p mod ?n) = (True, ?p, ?p < r, d')"
        using assms(1) o(2) by (auto simp: ring_def)
      ultimately show False using assms(2) r o(2) by simp
    qed
  qed
  with assms show k: "k = r" by (auto simp: ring_def)
  have other: "S[r mod ?n := y] ! (j mod ?n) = S ! (j mod ?n)" if "?p \<le> j" "j < ?p + ?n" "j \<noteq> r" for j y
    using ring_update_other [of ?p j S r] that lt assms(1) by (auto simp: ring_def)
  have same: "S[r mod ?n := y] ! (r mod ?n) = y" for y
    using assms(1) by (simp add: ring_def)
  have ch: "map (\<lambda>k. snd (snd (snd (S[r mod ?n := y] ! (k mod ?n))))) [?p..<r] = ch" for y
    using assms(1) lt other by (auto simp: ring_def)
  show "ring (S[r mod ?n := (True, k, True, d\<lparr>d_cycle := now\<rparr>)]) (ch @ [d\<lparr>d_cycle := now\<rparr>]) ins outs (r + 1)"
    unfolding ring_def
  proof (intro conjI allI impI)
    fix j assume j: "?p \<le> j \<and> j < ?o"
    then obtain e where e: "S ! (j mod ?n) = (True, j, j < r, e)" "payload e = ins ! j" "d_lseReqQueueIndex e = j mod ?n"
      using assms(1) by (auto simp: ring_def)
    show "\<exists>e. S[r mod ?n := (True, k, True, d\<lparr>d_cycle := now\<rparr>)] ! (j mod length (S[r mod ?n := (True, k, True, d\<lparr>d_cycle := now\<rparr>)]))
        = (True, j, j < r + 1, e) \<and> payload e = ins ! j
        \<and> d_lseReqQueueIndex e = j mod length (S[r mod ?n := (True, k, True, d\<lparr>d_cycle := now\<rparr>)])"
    proof (cases "j = r")
      case True
      with e assms(2) k same show ?thesis by (simp add: payload_def)
    next
      case False
      have "j < ?p + ?n" using j assms(1) by (auto simp: ring_def)
      with False j e other show ?thesis by auto
    qed
  next
    fix j assume "?o \<le> j \<and> j < ?p + length (S[r mod ?n := (True, k, True, d\<lparr>d_cycle := now\<rparr>)])"
    with lt other assms(1) show "\<not> fst (S[r mod ?n := (True, k, True, d\<lparr>d_cycle := now\<rparr>)] !
        (j mod length (S[r mod ?n := (True, k, True, d\<lparr>d_cycle := now\<rparr>)])))"
      by (auto simp: ring_def)
  qed (use assms(1) lt same ch in \<open>auto simp: ring_def\<close>)
qed

lemma ring_pop:
  assumes "ring S (f # ch) ins outs r"
  shows "d_lseReqQueueIndex f = length outs mod length S"
    "ring (S[length outs mod length S := (False, c, b, d)]) ch ins (outs @ [payload f]) r"
proof -
  let ?n = "length S" and ?o = "length ins" and ?p = "length outs"
  have lt: "?p < r" using assms by (cases "?p < r") (auto simp: ring_def)
  then have po: "?p < ?o" using assms by (auto simp: ring_def)
  obtain e where e: "S ! (?p mod ?n) = (True, ?p, True, e)" "payload e = ins ! ?p" "d_lseReqQueueIndex e = ?p mod ?n"
    using assms lt po by (auto simp: ring_def)
  have split: "[?p..<r] = ?p # [Suc ?p..<r]" using lt by (simp add: upt_conv_Cons)
  have f: "f = e" using assms e by (simp add: ring_def split)
  with e show "d_lseReqQueueIndex f = ?p mod ?n" by simp
  have other: "S[?p mod ?n := y] ! (j mod ?n) = S ! (j mod ?n)" if "?p < j" "j < ?p + ?n" for j y
    using ring_update_other [of ?p j S ?p] that assms by (auto simp: ring_def)
  have same: "S[?p mod ?n := y] ! (?p mod ?n) = y" for y using assms by (simp add: ring_def)
  have "outs @ [payload f] = take (Suc ?p) ins"
    using assms po f e by (simp add: ring_def take_Suc_conv_app_nth)
  moreover have "ch = map (\<lambda>k. snd (snd (snd (S[?p mod ?n := (False, c, b, d)] ! (k mod ?n))))) [Suc ?p..<r]"
  proof -
    have "ch = map (\<lambda>k. snd (snd (snd (S ! (k mod ?n))))) [Suc ?p..<r]"
      using assms by (simp add: ring_def split)
    also have "\<dots> = map (\<lambda>k. snd (snd (snd (S[?p mod ?n := (False, c, b, d)] ! (k mod ?n))))) [Suc ?p..<r]"
      using assms by (intro map_cong) (auto simp: other ring_def)
    finally show ?thesis .
  qed
  moreover have "\<not> fst (S[?p mod ?n := (False, c, b, d)] ! (k mod ?n))" if "?o \<le> k" "k < Suc ?p + ?n" for k
  proof (cases "k = ?p + ?n")
    case True
    then have "k mod ?n = ?p mod ?n" by simp
    then show ?thesis by (simp only: same) simp
  next
    case False
    with that po have "?p < k" "k < ?p + ?n" by auto
    with that assms show ?thesis by (simp add: other ring_def)
  qed
  ultimately show "ring (S[?p mod ?n := (False, c, b, d)]) ch ins (outs @ [payload f]) r"
    using assms lt other unfolding ring_def by auto
qed

section \<open>The unit\<close>

definition unit_ok :: "config \<Rightarrow> chan \<Rightarrow> (i32 \<times> bool) list \<Rightarrow> (i32 \<times> bool) list \<Rightarrow> bool" where
  "unit_ok g c ins outs \<longleftrightarrow> (\<exists>l r. sub c = ChanLse l \<and> ring (slots l) (channel c) ins outs r
     \<and> orderId l = length ins \<and> pushQueuePtr l = length ins mod length (slots l)
     \<and> sendChanPtr l = r mod length (slots l) \<and> (\<not> lse_O3 g \<longrightarrow> currReqId l = r)
     \<and> (lse_isWrite l \<longrightarrow> length (valueQueue l) = length ins - length outs))"

definition same_order :: "lse \<Rightarrow> lse \<Rightarrow> bool" where
  "same_order l l' \<longleftrightarrow> slots l' = slots l \<and> orderId l' = orderId l \<and> pushQueuePtr l' = pushQueuePtr l
     \<and> sendChanPtr l' = sendChanPtr l \<and> currReqId l' = currReqId l \<and> valueQueue l' = valueQueue l
     \<and> lse_isWrite l' = lse_isWrite l"

lemma length_slots [simp]: "length (slots l) = length (lse_reqQueue l)"
  by (simp add: slots_def)

lemma unit_ok_same_order:
  "unit_ok g c ins outs \<Longrightarrow> sub c = ChanLse l \<Longrightarrow> same_order l l' \<Longrightarrow> sub c' = ChanLse l' \<Longrightarrow>
     channel c' = channel c \<Longrightarrow> unit_ok g c' ins outs"
  unfolding unit_ok_def same_order_def by (metis length_slots subobject.inject(3))

lemma slots_upd_req:
  assumes "\<And>r. m_valid (f r) = m_valid r \<and> m_cnt (f r) = m_cnt r \<and> m_hasPushChan (f r) = m_hasPushChan r"
  shows "slots (upd_req i f l) = slots l"
proof (cases "i < length (lse_reqQueue l)")
  case True
  with assms show ?thesis
    by (auto simp: slots_def map_update list_update_same_conv split: prod.splits)
next
  case False
  then show ?thesis by (simp add: slots_def list_update_beyond)
qed

lemma same_order_trans: "same_order l l' \<Longrightarrow> same_order l' l'' \<Longrightarrow> same_order l l''"
  by (simp add: same_order_def)

lemma same_order_ack: "ackCallback now r l = Inr l' \<Longrightarrow> same_order l l'"
  using slots_upd_req [where f = "\<lambda>r. r\<lparr>m_ready := True, m_inflight := False\<rparr>" and i = "m_lseReqQueueIndex r" and l = l]
  by (auto simp: ackCallback_def Let_def updateMemAccessRecord_def same_order_def slots_def split: if_splits)

lemma same_order_flight: "setInflight cid r l = Inr l' \<Longrightarrow> same_order l l'"
  using slots_upd_req [where f = "\<lambda>q. q\<lparr>m_inflight := True, m_coalesced := m_coalesced r\<rparr>" and i = "m_lseReqQueueIndex r" and l = l]
  by (auto simp: setInflight_def same_order_def slots_def split: if_splits)

lemma same_order_upd: 
  assumes "\<And>r. m_valid (f r) = m_valid r \<and> m_cnt (f r) = m_cnt r \<and> m_hasPushChan (f r) = m_hasPushChan r"
  shows "same_order l (upd_req i f l)"
  using slots_upd_req [where f = f and i = i and l = l, OF assms] by (simp add: same_order_def)

lemma same_order_select:
  assumes "lse_select g now br cid l = Inr l'"
  shows "same_order l l'"
proof (cases "fst (suspendReqVec l ! (cid - 1))")
  case True
  with assms show ?thesis by (auto simp: lse_select_def same_order_def split: if_splits)
next
  case False
  define l1 where "l1 = upd_req (sendMemPtr l) (\<lambda>r. r\<lparr>m_lseReqQueueIndex := sendMemPtr l\<rparr>) l"
  have l1: "same_order l l1" unfolding l1_def by (rule same_order_upd) simp
  have flight: "same_order l1 (upd_req (sendMemPtr l) (\<lambda>r. r\<lparr>m_inflight := True\<rparr>) l1)" by (rule same_order_upd) simp
  from False assms consider "l' = l"
    | l2 r where "ackCallback now r (upd_req (sendMemPtr l) (\<lambda>r. r\<lparr>m_inflight := True\<rparr>) l1) = Inr l2" "same_order l2 l'"
    | "same_order l1 l'"
    by (auto simp: lse_select_def Let_def rbind_Inr_iff same_order_def slots_def simp flip: l1_def
        split: if_splits)
  then show ?thesis
  proof cases
    case 1
    then show ?thesis by (simp add: same_order_def)
  next
    case 2
    with l1 flight same_order_ack [OF 2(1)] show ?thesis by (blast intro: same_order_trans)
  next
    case 3
    with l1 show ?thesis by (rule same_order_trans)
  qed
qed

lemma slots_nth: "i < length (lse_reqQueue l) \<Longrightarrow> lse_reqQueue l ! i = (r, d) \<Longrightarrow>
   slots l ! i = (m_valid r, m_cnt r, m_hasPushChan r, d)"
  by (simp add: slots_def)

lemma unit_ok_lse_send:
  assumes "unit_ok g c ins outs" "sub c = ChanLse l" "lse_reqQueue l ! sendChanPtr l = (r, d)"
    "m_valid r" "\<not> m_hasPushChan r"
  shows "\<not> lse_O3 g \<Longrightarrow> m_cnt r = currReqId l"
    "unit_ok g (lse_send now c l r d (if lse_O3 g then currReqId l else currReqId l + 1)) ins outs"
proof -
  obtain q where q: "ring (slots l) (channel c) ins outs q" "orderId l = length ins"
    "pushQueuePtr l = length ins mod length (slots l)" "sendChanPtr l = q mod length (slots l)"
    "\<not> lse_O3 g \<longrightarrow> currReqId l = q" "lse_isWrite l \<longrightarrow> length (valueQueue l) = length ins - length outs"
    using assms(1,2) by (auto simp: unit_ok_def)
  have n: "0 < length (slots l)" using ringD(1) [OF q(1)] .
  then have i: "sendChanPtr l < length (lse_reqQueue l)" using q(4) by simp
  have "slots l ! (q mod length (slots l)) = (True, m_cnt r, False, d)"
    using slots_nth [OF i assms(3)] assms(4,5) by (simp add: q(4))
  note R = ring_send [OF q(1) this]
  show "m_cnt r = currReqId l" if "\<not> lse_O3 g" using R(1) q(5) that by simp
  have mod: "(q mod n + 1) mod n = (q + 1) mod n" for n :: nat by (simp add: mod_Suc_eq)
  show "unit_ok g (lse_send now c l r d (if lse_O3 g then currReqId l else currReqId l + 1)) ins outs"
    unfolding unit_ok_def lse_send_def Let_def
  proof (intro exI [of _ "q + 1"] exI conjI)
    show "ring (slots (l\<lparr>lse_reqQueue := (lse_reqQueue l)[sendChanPtr l := (r\<lparr>m_hasPushChan := True\<rparr>, d\<lparr>d_cycle := now\<rparr>)],
       sendChanPtr := (sendChanPtr l + 1) mod length (lse_reqQueue l),
       currReqId := if lse_O3 g then currReqId l else currReqId l + 1\<rparr>))
       (channel (c\<lparr>channel := channel c @ [d\<lparr>d_cycle := now\<rparr>], pushChannelSuccess := True,
          sub := ChanLse (l\<lparr>lse_reqQueue := (lse_reqQueue l)[sendChanPtr l := (r\<lparr>m_hasPushChan := True\<rparr>, d\<lparr>d_cycle := now\<rparr>)],
       sendChanPtr := (sendChanPtr l + 1) mod length (lse_reqQueue l),
       currReqId := if lse_O3 g then currReqId l else currReqId l + 1\<rparr>)\<rparr>)) ins outs (q + 1)"
      using R(3) [of now] q(4) assms(4) by (simp add: slots_def map_update)
  qed (use q mod in auto)
qed

lemma unit_ok_cong:
  "channel c' = channel c \<Longrightarrow> sub c' = sub c \<Longrightarrow> unit_ok g c' ins outs = unit_ok g c ins outs"
  by (simp add: unit_ok_def)

lemma lse_pushChannel_ok:
  assumes "unit_ok g c ins outs"
  shows "\<exists>c'. lse_pushChannel g now c = Inr c' \<and> unit_ok g c' ins outs
    \<and> orderId (lse_of (sub c')) = orderId (lse_of (sub c))"
proof -
  obtain l q where l: "sub c = ChanLse l" and q: "ring (slots l) (channel c) ins outs q" "sendChanPtr l = q mod length (slots l)"
    using assms by (auto simp: unit_ok_def)
  have n: "0 < length (lse_reqQueue l)" "sendChanPtr l < length (lse_reqQueue l)"
    using ringD(1) [OF q(1)] q(2) by simp_all
  obtain r d where rd: "lse_reqQueue l ! sendChanPtr l = (r, d)" by fastforce
  define c1 where "c1 = c\<lparr>pushChannelSuccess := False\<rparr>"
  have c1: "unit_ok g c1 ins outs" "sub c1 = ChanLse l"
    using assms l by (simp_all add: unit_ok_def c1_def)
  show ?thesis
    using unit_ok_lse_send(1) [OF c1 rd] unit_ok_lse_send(2) [OF c1 rd, of now] c1(1) n rd
    by (auto simp: lse_pushChannel_def Let_def l simp flip: c1_def, auto simp: lse_send_def Let_def c1_def l)
qed

lemma modify_Inr:
  "modify p f h = Inr h' \<longleftrightarrow> p < length h \<and> (\<exists>c. f (h ! p) = Inr c \<and> h' = h[p := c])"
  by (auto simp: modify_def rbind_Inr_iff deref_Inr_iff)

definition same_but_tags :: "heap \<Rightarrow> heap \<Rightarrow> bool" where
  "same_but_tags h h' \<longleftrightarrow> map (\<lambda>c. c\<lparr>lastTagQueue := []\<rparr>) h' = map (\<lambda>c. c\<lparr>lastTagQueue := []\<rparr>) h"

lemma sendLastTag_same:
  assumes "sendLastTag p h = Inr h'"
  shows "same_but_tags h h'"
proof -
  have "same_but_tags h h'" if "rfold (\<lambda>u. modify u (\<lambda>uc. Inr (tag_last m uc))) us h = Inr h'" for us m
    using that
  proof (induction us arbitrary: h)
    case Nil
    then show ?case by (simp add: same_but_tags_def)
  next
    case (Cons u us)
    then obtain h1 where m: "modify u (\<lambda>uc. Inr (tag_last m uc)) h = Inr h1"
      "rfold (\<lambda>u. modify u (\<lambda>uc. Inr (tag_last m uc))) us h1 = Inr h'" by (auto simp: rbind_Inr_iff)
    then have "same_but_tags h h1"
      by (auto simp: modify_Inr same_but_tags_def tag_last_def map_update list_update_same_conv)
    with Cons.IH [OF m(2)] show ?case by (simp add: same_but_tags_def)
  qed
  with assms show ?thesis by (auto simp: sendLastTag_def rbind_Inr_iff)
qed

lemma same_but_tags_nth:
  assumes "same_but_tags h h'" "p < length h"
  shows "p < length h'" "h' ! p = (h ! p)\<lparr>lastTagQueue := lastTagQueue (h' ! p)\<rparr>"
proof -
  show p: "p < length h'" using assms by (metis same_but_tags_def length_map)
  have "(h' ! p)\<lparr>lastTagQueue := []\<rparr> = (h ! p)\<lparr>lastTagQueue := []\<rparr>"
    using assms p unfolding same_but_tags_def by (metis nth_map)
  then have "(h' ! p)\<lparr>lastTagQueue := [], lastTagQueue := t\<rparr> = (h ! p)\<lparr>lastTagQueue := [], lastTagQueue := t\<rparr>" for t
    by (rule arg_cong)
  from this [of "lastTagQueue (h' ! p)"] show "h' ! p = (h ! p)\<lparr>lastTagQueue := lastTagQueue (h' ! p)\<rparr>" by simp
qed

definition accepted :: "chan \<Rightarrow> chan \<Rightarrow> (i32 \<times> bool) list" where
  "accepted c c' = (if orderId (lse_of (sub c')) = orderId (lse_of (sub c)) then []
     else [payload (hd (chanBuffer c ! 0))])"

definition delivered :: "chan \<Rightarrow> (i32 \<times> bool) list" where
  "delivered c = (if ch_valid c then [payload (hd (channel c))] else [])"

lemma front_of_Inr: "front_of c b = Inr d \<longleftrightarrow> b < length (chanBuffer c) \<and> chanBuffer c ! b \<noteq> [] \<and> d = hd (chanBuffer c ! b)"
  by (cases "chanBuffer c ! b") (auto simp: front_of_def rbind_Inr_iff rnth_Inr_iff)

lemma popChanBuffer_Inr:
  "popChanBuffer c = Inr c' \<Longrightarrow> \<exists>q. c' = c\<lparr>chanBuffer := q\<rparr>"
  by (auto simp: popChanBuffer_def rbind_Inr_iff)

lemma pushReqQ_ok:
  assumes "pushReqQ g now p h = Inr h'" "unit_ok g (h ! p) ins outs" "p < length h"
  shows "unit_ok g (h' ! p) (ins @ accepted (h ! p) (h' ! p)) outs" "p < length h'"
proof -
  let ?c = "h ! p"
  obtain l q where l: "sub ?c = ChanLse l" "ring (slots l) (channel ?c) ins outs q" "orderId l = length ins"
    "pushQueuePtr l = length ins mod length (slots l)" "sendChanPtr l = q mod length (slots l)"
    "\<not> lse_O3 g \<longrightarrow> currReqId l = q"
    "lse_isWrite l \<longrightarrow> length (valueQueue l) = length ins - length outs"
    using assms(2) by (auto simp: unit_ok_def)
  note R = ringD [OF l(2)]
  define f0 where "f0 = hd (chanBuffer ?c ! 0)"
  obtain d h1 where d: "payload d = payload f0" "same_but_tags h h1" and m: "modify p (enqueue g f0 d) h1 = Inr h'"
  proof -
    obtain fs h1 where fs: "(if d_last (request_data now f0 fs) then sendLastTag p h else Inr h) = Inr h1"
      "modify p (enqueue g f0 (request_data now f0 fs)) h1 = Inr h'"
      using assms(1,3) by (auto simp: pushReqQ_def rbind_Inr_iff deref_Inr_iff front_of_Inr Let_def f0_def)
    have "same_but_tags h h1"
      using fs(1) sendLastTag_same by (auto simp: same_but_tags_def split: if_splits)
    moreover have "payload (request_data now f0 fs) = payload f0" by (simp add: request_data_def payload_def)
    ultimately show ?thesis using fs(2) that by blast
  qed
  define t where "t = lastTagQueue (h1 ! p)"
  have t: "h1 ! p = ?c\<lparr>lastTagQueue := t\<rparr>" using same_but_tags_nth(2) [OF d(2) assms(3)] by (simp add: t_def)
  show "p < length h'" using m by (auto simp: modify_Inr)
  have i: "pushQueuePtr l < length (lse_reqQueue l)" using R(1) l(4) by simp
  obtain r e where re: "lse_reqQueue l ! pushQueuePtr l = (r, e)" by fastforce
  show "unit_ok g (h' ! p) (ins @ accepted ?c (h' ! p)) outs"
  proof (cases "m_valid r")
    case True
    then have "h' ! p = ?c\<lparr>lastTagQueue := t\<rparr>"
      using m t l(1) i re by (auto simp: modify_Inr Let_def enqueue_def)
    moreover have "accepted ?c (?c\<lparr>lastTagQueue := t\<rparr>) = []" by (simp add: accepted_def)
    ultimately show ?thesis using assms(2) by (simp add: unit_ok_def)
  next
    case False
    let ?d = "d\<lparr>d_lseReqQueueIndex := pushQueuePtr l\<rparr>"
    from False obtain l' where l': "sub (h' ! p) = ChanLse l'" "channel (h' ! p) = channel ?c" "ch_valid (h' ! p) = ch_valid ?c"
        "slots l' = (slots l)[pushQueuePtr l := (True, orderId l, False, ?d)]" "orderId l' = orderId l + 1"
        "pushQueuePtr l' = (pushQueuePtr l + 1) mod length (lse_reqQueue l)" "sendChanPtr l' = sendChanPtr l"
        "currReqId l' = currReqId l" "lse_isWrite l' = lse_isWrite l"
        "lse_isWrite l \<longrightarrow> length (valueQueue l') = Suc (length (valueQueue l))"
      using m t l(1) i re
      by (auto simp: modify_Inr Let_def enqueue_def rbind_Inr_iff memReq0_def slots_def map_update
          dest!: popChanBuffer_Inr split: if_splits)
    have acc: "accepted ?c (h' ! p) = [payload d]"
      using l'(5) by (simp add: accepted_def l'(1) l(1) d(1) f0_def)
    have "\<not> fst (slots l ! (length ins mod length (slots l)))"
      using slots_nth [OF i re] False l(4) by simp
    from ring_push [OF l(2) this, of ?d "payload d"]
    have "ring (slots l') (channel ?c) (ins @ [payload d]) outs q"
      using l(3,4) l'(4) by (simp add: payload_def)
    then show ?thesis
      unfolding unit_ok_def acc
      using l R l' by (intro exI [of _ l'] exI [of _ q] conjI) (auto simp: mod_Suc_eq Suc_diff_le)
  qed
qed

section \<open>The operations\<close>

abbreviation inconsistent :: err where
  "inconsistent \<equiv> Throw ''Lse sendChanPtr not consist with currReqId!''"

lemma modify_Inl: "modify p f h = Inl e \<Longrightarrow> e = NullPointer \<or> f (h ! p) = Inl e"
  by (auto simp: modify_def rbind_Inl_iff deref_def split: if_splits)

lemma rmap_Inl: "rmap f xs = Inl e \<Longrightarrow> \<exists>x. f x = Inl e"
  by (induction xs) (auto simp: rbind_Inl_iff)

lemma rpop_Inl: "rpop xs = Inl e \<Longrightarrow> e = EmptyFront"
  by (cases xs) auto

lemma rfront_Inl: "rfront xs = Inl e \<Longrightarrow> e = EmptyFront"
  by (cases xs) auto

lemma rnth_Inl: "rnth xs i = Inl e \<Longrightarrow> e = OutOfBounds"
  by (auto simp: rnth_def split: if_splits)

lemma deref_Inl: "deref xs i = Inl e \<Longrightarrow> e = NullPointer"
  by (auto simp: deref_def split: if_splits)

lemmas access_errors = rpop_Inl rfront_Inl rnth_Inl deref_Inl

lemma rfold_Inl:
  assumes "rfold f xs s = Inl e" "\<And>x t. f x t = Inl e \<Longrightarrow> P"
  shows P
  using assms(1)
proof (induction xs arbitrary: s)
  case Nil
  then show ?case by simp
next
  case (Cons x xs)
  then show ?case using assms(2) by (cases "f x s") auto
qed

lemma sendLastTag_Inl:
  assumes "sendLastTag p h = Inl e"
  shows "e = NullPointer"
proof (cases "deref h p")
  case (Inl e')
  with assms deref_Inl show ?thesis by (simp add: sendLastTag_def)
next
  case (Inr c)
  with assms have "rfold (\<lambda>u. modify u (\<lambda>uc. Inr (tag_last (moduleId c) uc))) (upstream c) h = Inl e"
    by (simp add: sendLastTag_def)
  then show ?thesis by (rule rfold_Inl) (auto dest!: modify_Inl)
qed

lemma front_of_Inl: "front_of c b = Inl e \<Longrightarrow> e \<noteq> inconsistent"
  by (auto simp: front_of_def rbind_Inl_iff dest!: access_errors)

lemma popChanBuffer_Inl: "popChanBuffer c = Inl e \<Longrightarrow> e = EmptyFront"
  by (auto simp: popChanBuffer_def rbind_Inl_iff dest!: rmap_Inl access_errors)

lemma enqueue_Inl: "enqueue g f d c = Inl e \<Longrightarrow> e \<noteq> inconsistent"
  by (auto simp: enqueue_def Let_def rbind_Inl_iff dest!: popChanBuffer_Inl access_errors split: if_splits prod.splits)
    (auto dest!: front_of_Inl)

lemma pushReqQ_Inl: "pushReqQ g now p h = Inl e \<Longrightarrow> e \<noteq> inconsistent"
  by (auto simp: pushReqQ_def Let_def rbind_Inl_iff dest!: sendLastTag_Inl rmap_Inl access_errors modify_Inl
      split: if_splits) (auto dest!: front_of_Inl enqueue_Inl)

lemma lse_select_Inl: "lse_select g now br cid l = Inl e \<Longrightarrow> e \<noteq> inconsistent"
  by (auto simp: lse_select_def Let_def rbind_Inl_iff ackCallback_def dest!: access_errors split: if_splits prod.splits)

lemma getChanId_Inl: "getChanId p c = Inl e \<Longrightarrow> e \<noteq> inconsistent"
  by (auto simp: getChanId_def split: option.splits)

lemma base_checkSend_Inl: "base_checkSend p c = Inl e \<Longrightarrow> e \<noteq> inconsistent"
  by (auto simp: base_checkSend_def rbind_Inl_iff dest: getChanId_Inl)

lemma sgmf_checkSend_Inl: "sgmf_checkSend d p c = Inl e \<Longrightarrow> e \<noteq> inconsistent"
  by (auto simp: sgmf_checkSend_def rbind_Inl_iff dest!: access_errors split: if_splits) (auto dest: getChanId_Inl)

lemma checkSend_Inl: "checkSend h q d p = Inl e \<Longrightarrow> e \<noteq> inconsistent"
  by (cases "deref h q"; cases "sub (projr (deref h q))")
    (auto simp: checkSend_def dest: deref_Inl base_checkSend_Inl sgmf_checkSend_Inl)

lemma sendable_Inl: "sendable h qs d p = Inl e \<Longrightarrow> e \<noteq> inconsistent"
  by (induction qs) (auto simp: rbind_Inl_iff dest: checkSend_Inl split: if_splits)

lemma lse_status_core:
  assumes "unit_ok g (h ! p) ins outs" "p < length h"
  shows "case modify p (\<lambda>c. rbind (lse_select g now (branchMode c) (currId c) (lse_of (sub c))) (\<lambda>l.
              lse_pushChannel g now (c\<lparr>ch_valid := True, sub := ChanLse l\<rparr>))) h of
      Inl e \<Rightarrow> e \<noteq> inconsistent
    | Inr h' \<Rightarrow> p < length h' \<and> unit_ok g (h' ! p) ins outs
        \<and> orderId (lse_of (sub (h' ! p))) = orderId (lse_of (sub (h ! p)))"
proof -
  let ?c = "h ! p"
  obtain l where l: "sub ?c = ChanLse l" using assms(1) by (auto simp: unit_ok_def)
  show ?thesis
  proof (cases "lse_select g now (branchMode ?c) (currId ?c) l")
    case (Inl e)
    with lse_select_Inl assms(2) l show ?thesis by (simp add: modify_def)
  next
    case (Inr l')
    note same = same_order_select [OF Inr]
    have "unit_ok g (?c\<lparr>ch_valid := True, sub := ChanLse l'\<rparr>) ins outs"
      by (rule unit_ok_same_order [OF assms(1) l same]) simp_all
    from lse_pushChannel_ok [OF this, of now] same assms(2) l Inr show ?thesis
      by (auto simp: modify_def same_order_def)
  qed
qed

lemma lse_statusUpdate_ok:
  assumes "unit_ok g (h ! p) ins outs" "p < length h"
  shows "case lse_statusUpdate g now p h of
      Inl e \<Rightarrow> e \<noteq> inconsistent
    | Inr h' \<Rightarrow> p < length h' \<and> unit_ok g (h' ! p) (ins @ accepted (h ! p) (h' ! p)) outs
        \<and> (ch_valid (h' ! p) \<longrightarrow> channel (h' ! p) \<noteq> [])"
proof (cases "if list_all (\<lambda>q. q \<noteq> [] \<and> d_cycle (hd q) \<le> now) (chanBuffer (h ! p)) then pushReqQ g now p h else Inr h")
  case (Inl e)
  with pushReqQ_Inl have "e \<noteq> inconsistent" by (auto split: if_splits)
  with Inl assms(2) show ?thesis by (simp add: lse_statusUpdate_def)
next
  case (Inr h1)
  have "unit_ok g (h1 ! p) (ins @ accepted (h ! p) (h1 ! p)) outs \<and> p < length h1"
  proof (cases "pushReqQ g now p h = Inr h1")
    case True
    with pushReqQ_ok assms show ?thesis by blast
  next
    case False
    with Inr have "h1 = h" by (auto split: if_splits)
    with assms show ?thesis by (simp add: accepted_def)
  qed
  then have h1: "unit_ok g (h1 ! p) (ins @ accepted (h ! p) (h1 ! p)) outs" "p < length h1" by blast+
  show ?thesis
  proof (cases "modify p (\<lambda>c. rbind (lse_select g now (branchMode c) (currId c) (lse_of (sub c))) (\<lambda>l.
              lse_pushChannel g now (c\<lparr>ch_valid := True, sub := ChanLse l\<rparr>))) h1")
    case (Inl e)
    with lse_status_core [OF h1, of now] Inr assms(2) show ?thesis by (simp add: lse_statusUpdate_def)
  next
    case (Inr h2)
    with lse_status_core [OF h1, of now] have h2: "p < length h2" "unit_ok g (h2 ! p) (ins @ accepted (h ! p) (h1 ! p)) outs"
      "orderId (lse_of (sub (h2 ! p))) = orderId (lse_of (sub (h1 ! p)))" by simp_all
    have acc: "accepted (h ! p) (h2 ! p) = accepted (h ! p) (h1 ! p)" by (simp add: accepted_def h2(3))
    let ?c = "h2 ! p"
    let ?v = "if channel ?c = [] then Inr False
            else if \<not> noDownstream ?c then sendable h2 (downstream ?c) (hd (channel ?c)) p else Inr True"
    have eq: "lse_statusUpdate g now p h = rbind ?v (\<lambda>v. Inr (h2[p := ?c\<lparr>ch_valid := v,
         chanDataCnt := (if v then chanDataCnt ?c + 1 else chanDataCnt ?c)\<rparr>]))"
      using assms(2) \<open>(if _ then pushReqQ g now p h else Inr h) = Inr h1\<close> Inr h2(1) by (simp add: lse_statusUpdate_def)
    show ?thesis
    proof (cases ?v)
      case (Inl e)
      then have "e \<noteq> inconsistent" using sendable_Inl by (auto split: if_splits)
      then show ?thesis unfolding eq Inl by simp
    next
      case (Inr v)
      then have v: "v \<longrightarrow> channel ?c \<noteq> []" by (auto split: if_splits)
      let ?c' = "?c\<lparr>ch_valid := v, chanDataCnt := (if v then chanDataCnt ?c + 1 else chanDataCnt ?c)\<rparr>"
      have "accepted (h ! p) ?c' = accepted (h ! p) (h1 ! p)" using acc by (simp add: accepted_def)
      moreover have "unit_ok g ?c' (ins @ accepted (h ! p) (h1 ! p)) outs"
        using h2(2) unit_ok_cong [of ?c' ?c] by simp
      ultimately show ?thesis unfolding eq Inr using h2(1) v by simp
    qed
  qed
qed

lemma lse_pop_ok:
  assumes "unit_ok g c ins outs" "sub c = ChanLse l" "ch_valid c \<longrightarrow> channel c \<noteq> []"
  shows "\<exists>c'. lse_pop c l = Inr c' \<and> unit_ok g c' ins (outs @ delivered c)"
proof (cases "ch_valid c")
  case False
  with assms show ?thesis by (simp add: lse_pop_def delivered_def)
next
  case True
  with assms(3) obtain f ch where ch: "channel c = f # ch" by (cases "channel c") auto
  obtain q where q: "ring (slots l) (channel c) ins outs q" "orderId l = length ins"
    "pushQueuePtr l = length ins mod length (slots l)" "sendChanPtr l = q mod length (slots l)"
    "\<not> lse_O3 g \<longrightarrow> currReqId l = q" "lse_isWrite l \<longrightarrow> length (valueQueue l) = length ins - length outs"
    using assms(1,2) by (auto simp: unit_ok_def)
  note R = ringD [OF q(1)]
  let ?i = "d_lseReqQueueIndex f"
  note P = ring_pop [OF q(1) [unfolded ch]]
  have i: "?i < length (lse_reqQueue l)" using P(1) R(1) by simp
  obtain r d where rd: "lse_reqQueue l ! ?i = (r, d)" by fastforce
  have "length (channel c) = q - length outs" using R(6) by (metis length_map length_upt)
  then have lt: "length outs < length ins" using ch R(2,3) by simp
  obtain vq where vq: "(if lse_isWrite l then rbind (rpop (valueQueue l)) (\<lambda>(_, q). Inr q) else Inr (valueQueue l)) = Inr vq"
    "lse_isWrite l \<longrightarrow> length vq = length ins - Suc (length outs)"
  proof (cases "lse_isWrite l")
    case True
    with q(6) lt obtain v vq where "valueQueue l = v # vq" by (cases "valueQueue l") auto
    with True q(6) that [of vq] show ?thesis by simp
  qed (use that in simp)
  let ?l = "l\<lparr>lse_lastPopVal := m_addr r, valueQueue := vq,
                   lse_reqQueue := (lse_reqQueue l)[?i := (r\<lparr>m_valid := False\<rparr>, d\<lparr>d_valid := False\<rparr>)]\<rparr>"
  have "lse_pop c l = Inr (c\<lparr>channel := ch, sub := ChanLse ?l\<rparr>)"
    using True ch i rd vq(1) by (simp add: lse_pop_def)
  moreover have "ring (slots ?l) ch ins (outs @ [payload f]) q"
    using P(2) [of "m_cnt r" "m_hasPushChan r" "d\<lparr>d_valid := False\<rparr>"] P(1)
    by (simp add: slots_def map_update)
  ultimately show ?thesis
    using True ch q vq(2) by (auto simp: unit_ok_def delivered_def)
qed

section \<open>Runs of a unit\<close>

text \<open>
  The runs of the unit \<open>p\<close> in a graph, with the data it has accepted and delivered. Between its own
  operations the rest of the graph may do anything (it fills the buffers of the unit, reads its status,
  and calls \<open>parallelize\<close> and \<open>bpUpdate\<close>), as long as it leaves the channel and the queue of the unit alone;
  the memory system may acknowledge any entry at any time.
\<close>

inductive lse_run :: "config \<Rightarrow> nat \<Rightarrow> heap \<Rightarrow> (i32 \<times> bool) list \<Rightarrow> (i32 \<times> bool) list \<Rightarrow> bool" for g p where
  start: "p < length h \<Longrightarrow> channel (h ! p) = [] \<Longrightarrow> 0 < n \<Longrightarrow> sub (h ! p) = ChanLse (lse_new n spd w i) \<Longrightarrow>
    lse_run g p h [] []"
| graph: "lse_run g p h ins outs \<Longrightarrow> p < length h' \<Longrightarrow> channel (h' ! p) = channel (h ! p) \<Longrightarrow>
    sub (h' ! p) = sub (h ! p) \<Longrightarrow> lse_run g p h' ins outs"
| status: "lse_run g p h ins outs \<Longrightarrow> lse_statusUpdate g now p h = Inr h' \<Longrightarrow>
    lse_run g p h' (ins @ accepted (h ! p) (h' ! p)) outs"
| pop: "lse_run g p h ins outs \<Longrightarrow> modify p (pop h) h = Inr h' \<Longrightarrow> lse_run g p h' ins (outs @ delivered (h ! p))"
| acknowledge: "lse_run g p h ins outs \<Longrightarrow> ackCallback now r (lse_of (sub (h ! p))) = Inr l \<Longrightarrow>
    lse_run g p (h[p := (h ! p)\<lparr>sub := ChanLse l\<rparr>]) ins outs"
| flight: "lse_run g p h ins outs \<Longrightarrow> setInflight (currId (h ! p)) r (lse_of (sub (h ! p))) = Inr l \<Longrightarrow>
    lse_run g p (h[p := (h ! p)\<lparr>sub := ChanLse l\<rparr>]) ins outs"

lemma lse_run_ok: "lse_run g p h ins outs \<Longrightarrow> p < length h \<and> unit_ok g (h ! p) ins outs"
proof (induction rule: lse_run.induct)
  case (start h n spd w i)
  then have "ring (slots (lse_new n spd w i)) [] [] [] 0"
    by (auto simp: ring_def slots_def lse_new_def memReq0_def)
  with start show ?case by (auto simp: unit_ok_def) (auto simp: lse_new_def)
next
  case (graph h ins outs h')
  then show ?case using unit_ok_cong by blast
next
  case (status h ins outs now h')
  with lse_statusUpdate_ok [of g h p ins outs now] show ?case by simp
next
  case (pop h ins outs h')
  then obtain l where l: "sub (h ! p) = ChanLse l" "unit_ok g (h ! p) ins outs" "p < length h" by (auto simp: unit_ok_def)
  with pop.hyps(2) obtain c' where c': "lse_pop (h ! p) l = Inr c'" "h' = h[p := c']"
    by (auto simp: modify_Inr pop_def)
  have "ch_valid (h ! p) \<longrightarrow> channel (h ! p) \<noteq> []"
    using c'(1) by (auto simp: lse_pop_def)
  from lse_pop_ok [OF l(2,1) this] c' l(3) show ?case by auto
next
  case (acknowledge h ins outs now r l)
  then obtain l0 where "sub (h ! p) = ChanLse l0" by (auto simp: unit_ok_def)
  with acknowledge same_order_ack [OF acknowledge.hyps(2)] show ?case
    using unit_ok_same_order [of g "h ! p" ins outs l0 l "(h ! p)\<lparr>sub := ChanLse l\<rparr>"] by simp
next
  case (flight h ins outs r l)
  then obtain l0 where "sub (h ! p) = ChanLse l0" by (auto simp: unit_ok_def)
  with flight same_order_flight [OF flight.hyps(2)] show ?case
    using unit_ok_same_order [of g "h ! p" ins outs l0 l "(h ! p)\<lparr>sub := ChanLse l\<rparr>"] by simp
qed

text \<open>C4: a load/store unit delivers its data in the order in which it accepted them, each once,
  whatever the order in which the memory acknowledges the requests, and it never holds more than its
  queue has entries. This is so in both modes: the unit configured to run out of order (\<open>lse_O3\<close>)
  delivers in order as well, since its search for a ready request never moves off the first entry. The
  consistency check of the in-order mode never fails, and the datum whose status is valid after a status
  update can be popped.\<close>

theorem lse_delivers_in_order:
  assumes "lse_run g p h ins outs"
  shows "(\<exists>waiting. ins = outs @ waiting \<and> length waiting \<le> length (lse_reqQueue (lse_of (sub (h ! p)))))
    \<and> lse_statusUpdate g now p h \<noteq> Inl inconsistent
    \<and> (lse_statusUpdate g now p h = Inr h' \<longrightarrow> (\<exists>h''. modify p (pop h') h' = Inr h''))"
proof -
  from lse_run_ok [OF assms] have p: "p < length h" "unit_ok g (h ! p) ins outs" by blast+
  then obtain l q where l: "sub (h ! p) = ChanLse l" "ring (slots l) (channel (h ! p)) ins outs q"
    by (auto simp: unit_ok_def)
  note R = ringD [OF l(2)]
  have "ins = outs @ drop (length outs) ins" using R(5) by (metis append_take_drop_id)
  moreover have "length (drop (length outs) ins) \<le> length (lse_reqQueue (lse_of (sub (h ! p))))"
    using R(4) l(1) by simp
  moreover have "\<exists>h''. modify p (pop h') h' = Inr h''" if st: "lse_statusUpdate g now p h = Inr h'"
  proof -
    from lse_statusUpdate_ok [OF p(2,1), of now] st have h': "p < length h'"
      "unit_ok g (h' ! p) (ins @ accepted (h ! p) (h' ! p)) outs" "ch_valid (h' ! p) \<longrightarrow> channel (h' ! p) \<noteq> []" by simp_all
    then obtain l' where "sub (h' ! p) = ChanLse l'" by (auto simp: unit_ok_def)
    with lse_pop_ok [OF h'(2) this h'(3)] h'(1) show ?thesis by (auto simp: modify_def pop_def)
  qed
  moreover have "lse_statusUpdate g now p h \<noteq> Inl inconsistent"
    using lse_statusUpdate_ok [OF p(2,1), of now] by (auto split: sum.splits)
  ultimately show ?thesis by blast
qed

text \<open>A unit with two requests that the memory acknowledges in the reverse order.\<close>

definition demo_unit :: "data list \<Rightarrow> heap" where
  "demo_unit ds = [(chan_new 0 2 0 1 (ChanLse (lse_new 2 1 False 0)))\<lparr>chanBuffer := [ds], noDownstream := True\<rparr>]"

definition demo_ack :: "nat \<Rightarrow> heap \<Rightarrow> heap" where
  "demo_ack i h = h[0 := (h ! 0)\<lparr>sub := ChanLse (projr (ackCallback 5 (memReq0\<lparr>m_lseReqQueueIndex := i\<rparr>) (lse_of (sub (h ! 0)))))\<rparr>]"

definition demo_inputs :: "data list" where
  "demo_inputs = [data0\<lparr>d_value := 40\<rparr>, data0\<lparr>d_value := 12\<rparr>]"

theorem lse_delivers_in_order_witness:
  "\<exists>h ins outs. lse_run cfg_demo 0 h ins outs \<and> ins = [(40, True), (12, True)] \<and> outs = [(40, True)]
     \<and> lse_statusUpdate cfg_demo 6 0 h \<noteq> Inl inconsistent"
proof -
  define h1 where "h1 = projr (lse_statusUpdate cfg_demo 1 0 (demo_unit demo_inputs))"
  define h2 where "h2 = projr (lse_statusUpdate cfg_demo 2 0 h1)"
  define h3 where "h3 = demo_ack 0 (demo_ack 1 h2)"
  define h4 where "h4 = projr (lse_statusUpdate cfg_demo 5 0 h3)"
  define h5 where "h5 = projr (modify 0 (pop h4) h4)"
  note h = h5_def h4_def h3_def h2_def h1_def
  have s: "lse_statusUpdate cfg_demo 1 0 (demo_unit demo_inputs) = Inr h1" "lse_statusUpdate cfg_demo 2 0 h1 = Inr h2"
    "lse_statusUpdate cfg_demo 5 0 h3 = Inr h4" "modify 0 (pop h4) h4 = Inr h5"
    unfolding h by code_simp+
  have a: "accepted (demo_unit demo_inputs ! 0) (h1 ! 0) = [(40, True)]" "accepted (h1 ! 0) (h2 ! 0) = [(12, True)]"
    "accepted (h3 ! 0) (h4 ! 0) = []" "delivered (h4 ! 0) = [(40, True)]"
    unfolding h by code_simp+
  have "lse_run cfg_demo 0 (demo_unit []) [] []"
    by (rule lse_run.start [of _ _ 2 1 False 0]) (simp_all add: demo_unit_def chan_new_def)
  then have "lse_run cfg_demo 0 (demo_unit demo_inputs) [] []"
    by (rule lse_run.graph) (simp_all add: demo_unit_def)
  from lse_run.status [OF lse_run.status [OF this s(1)] s(2)]
  have 2: "lse_run cfg_demo 0 h2 [(40, True), (12, True)] []" by (simp add: a)
  have "\<not> isl (ackCallback 5 (memReq0\<lparr>m_lseReqQueueIndex := 1\<rparr>) (lse_of (sub (h2 ! 0))))"
    "\<not> isl (ackCallback 5 (memReq0\<lparr>m_lseReqQueueIndex := 0\<rparr>) (lse_of (sub (demo_ack 1 h2 ! 0))))"
    unfolding h by code_simp+
  then have "lse_run cfg_demo 0 h3 [(40, True), (12, True)] []"
    unfolding h3_def by (metis 2 demo_ack_def lse_run.acknowledge sum.collapse(2))
  from lse_run.pop [OF lse_run.status [OF this s(3)] s(4)]
  have "lse_run cfg_demo 0 h5 [(40, True), (12, True)] [(40, True)]" by (simp add: a)
  with lse_delivers_in_order [OF this] show ?thesis by blast
qed

section \<open>A full queue\<close>

definition full_unit :: "nat \<Rightarrow> nat \<Rightarrow> bool list \<Rightarrow> heap \<Rightarrow> bool" where
  "full_unit p u q h \<longleftrightarrow> p < length h \<and> u < length h \<and> u \<noteq> p \<and> upstream (h ! p) = [u] \<and> keepMode (h ! u)
     \<and> lastTagQueue (h ! u) = [(moduleId (h ! p), q)]
     \<and> (case sub (h ! p) of ChanLse l \<Rightarrow> pushQueuePtr l < length (lse_reqQueue l)
          \<and> m_valid (fst (lse_reqQueue l ! pushQueuePtr l)) | _ \<Rightarrow> False)
     \<and> (case chanBuffer (h ! p) of [f # fs] \<Rightarrow> d_last f | _ \<Rightarrow> False)"

lemma full_unit_push:
  assumes "full_unit p u q h"
  shows "pushReqQ g now p h = Inr (h[u := (h ! u)\<lparr>lastTagQueue := [(moduleId (h ! p), q @ [True])]\<rparr>])"
proof -
  obtain l r d f fs where l: "sub (h ! p) = ChanLse l" "pushQueuePtr l < length (lse_reqQueue l)"
    "lse_reqQueue l ! pushQueuePtr l = (r, d)" "m_valid r" "chanBuffer (h ! p) = [f # fs]" "d_last f"
    using assms unfolding full_unit_def
    by (cases "sub (h ! p)"; cases "chanBuffer (h ! p)"; cases "chanBuffer (h ! p) ! 0";
        cases "tl (chanBuffer (h ! p))") (auto, metis prod.collapse)
  have "sendLastTag p h = Inr (h[u := (h ! u)\<lparr>lastTagQueue := [(moduleId (h ! p), q @ [True])]\<rparr>])"
    using assms by (simp add: full_unit_def sendLastTag_def modify_def tag_last_def)
  with assms l show ?thesis
    by (simp add: pushReqQ_def full_unit_def front_of_def request_data_def Let_def modify_def enqueue_def
        list_update_same_conv)
qed

lemma full_unit_next:
  "full_unit p u q h \<Longrightarrow> full_unit p u q' (h[u := (h ! u)\<lparr>lastTagQueue := [(moduleId (h ! p), q')]\<rparr>])"
  by (simp add: full_unit_def)

text \<open>A unit whose queue is full cannot take the datum at the head of its buffer, but every status
  update sends the datum's last tag to the upstream channel in keepMode again: after \<open>n\<close> cycles of
  waiting the upstream has \<open>n\<close> more tags for one end of the loop, each of which lets it pop a datum.\<close>

theorem full_unit_repeats_last_tag:
  assumes "full_unit p u q h"
  shows "rfold (\<lambda>_. pushReqQ g now p) (replicate n ()) h
    = Inr (h[u := (h ! u)\<lparr>lastTagQueue := [(moduleId (h ! p), q @ replicate n True)]\<rparr>])"
  using assms
proof (induction n arbitrary: h q)
  case 0
  then show ?case by (auto simp: full_unit_def list_update_same_conv intro!: list_update_same_conv [THEN iffD2, symmetric])
next
  case (Suc n)
  let ?h = "h[u := (h ! u)\<lparr>lastTagQueue := [(moduleId (h ! p), q @ [True])]\<rparr>]"
  from Suc.IH [OF full_unit_next [OF Suc.prems]] Suc.prems show ?case
    by (simp add: full_unit_push [OF Suc.prems] full_unit_def)
qed

definition demo_full :: heap where
  "demo_full = [(hd (demo_unit [data0\<lparr>d_last := True\<rparr>]))\<lparr>upstream := [1], sub := ChanLse
       ((lse_new 1 1 False 0)\<lparr>lse_reqQueue := [(memReq0\<lparr>m_valid := True\<rparr>, data0)]\<rparr>)\<rparr>,
     (chan_new 1 2 0 1 ChanBase)\<lparr>keepMode := True, lastTagQueue := [(0, [])]\<rparr>]"

theorem full_unit_repeats_last_tag_witness:
  "lastTagQueue (projr (rfold (\<lambda>_. pushReqQ cfg_demo 3 0) (replicate 4 ()) demo_full) ! 1) = [(0, [True, True, True, True])]"
proof -
  have "full_unit 0 1 [] demo_full"
    by (simp add: full_unit_def demo_full_def demo_unit_def chan_new_def lse_new_def)
  from full_unit_repeats_last_tag [OF this, of cfg_demo 3 4]
  show ?thesis by (simp only:) (simp add: demo_full_def demo_unit_def chan_new_def eval_nat_numeral)
qed

end
