(* ===== verification/MemSystemFlights.thy ===== *)
theory MemSystemFlights
  imports MemSystemRounds CacheServer
begin

text \<open>
  The requests in flight between the load/store units and the memory system as a whole: the units mark
  the slots whose requests are in flight, and the memory system holds exactly one request for each of them,
  in the recorders of the banks, its queues, the cache or the coalescer.
\<close>

section \<open>Requests in flight\<close>

definition slot :: "memReq \<Rightarrow> nat \<times> nat" where
  "slot r = (m_lseId r, m_lseReqQueueIndex r)"

text \<open>The slots that the units have marked, where \<open>reg\<close> lists the units by their numbers.\<close>

definition flights :: "nat list \<Rightarrow> ports \<Rightarrow> (nat \<times> nat) set" where
  "flights reg ps = {(i, j). i < length reg \<and> reg ! i < length ps \<and> j < length (lse_reqQueue (snd (ps ! (reg ! i))))
     \<and> m_inflight (fst (lse_reqQueue (snd (ps ! (reg ! i))) ! j))}"

text \<open>A coalesced request in a queue stands for those in the coalescer and is not counted itself.\<close>

definition singles :: "memReq multiset \<Rightarrow> (nat \<times> nat) multiset" where
  "singles M = image_mset slot (filter_mset (\<lambda>r. \<not> m_coalesced r) M)"

definition recorded :: "memSystem \<Rightarrow> memReq multiset" where
  "recorded ms = mset (concat (map br_reqQueue (bankRecorder ms)))"

definition in_cache :: "memSystem \<Rightarrow> memReq multiset" where
  "in_cache ms = (case ms_cache ms of None \<Rightarrow> {#} | Some c \<Rightarrow> client_pending c)"

definition queued :: "memSystem \<Rightarrow> memReq multiset" where
  "queued ms = mset (concat (ms_reqQueue ms)) + in_cache ms + mset (concat (ms_ackQueue ms))"

definition held :: "memSystem \<Rightarrow> (nat \<times> nat) multiset" where
  "held ms = image_mset slot (recorded ms) + singles (queued ms) + image_mset slot (coalesced_reqs (ms_coalescer ms))"

text \<open>The marks of a unit: a request in flight is not ready, one that has been handed on is; a unit suspends
  requests of distinct slots that wait, that is, are valid and neither in flight nor ready.\<close>

definition slot_ok :: "nat \<Rightarrow> memReq \<Rightarrow> bool" where
  "slot_ok i s \<longleftrightarrow> (m_inflight s \<longrightarrow> m_valid s \<and> \<not> m_ready s) \<and> (m_valid s \<longrightarrow> m_lseId s = i \<and> (m_hasPushChan s \<longrightarrow> m_ready s))"

definition waits :: "memReq \<Rightarrow> bool" where
  "waits s \<longleftrightarrow> m_valid s \<and> \<not> m_inflight s \<and> \<not> m_ready s"

definition marks_ok :: "nat \<Rightarrow> lse \<Rightarrow> bool" where
  "marks_ok i l \<longleftrightarrow> lseId l = i \<and> (\<forall>j<length (lse_reqQueue l). slot_ok i (fst (lse_reqQueue l ! j)))
   \<and> (\<forall>k<length (suspendReqVec l). fst (suspendReqVec l ! k) \<longrightarrow> (let r = snd (suspendReqVec l ! k) in
       m_valid r \<and> m_lseId r = i \<and> m_lseReqQueueIndex r < length (lse_reqQueue l) \<and> waits (fst (lse_reqQueue l ! m_lseReqQueueIndex r))))
   \<and> (\<forall>k<length (suspendReqVec l). \<forall>k'<length (suspendReqVec l). k \<noteq> k' \<and> fst (suspendReqVec l ! k) \<and> fst (suspendReqVec l ! k')
       \<longrightarrow> m_lseReqQueueIndex (snd (suspendReqVec l ! k)) \<noteq> m_lseReqQueueIndex (snd (suspendReqVec l ! k')))"

definition units_ok :: "nat list \<Rightarrow> ports \<Rightarrow> bool" where
  "units_ok reg ps \<longleftrightarrow> distinct reg \<and> (\<forall>i<length reg. reg ! i < length ps \<and> marks_ok i (snd (ps ! (reg ! i))))"

definition recorder_ok :: "bankRecorderEntry \<Rightarrow> bool" where
  "recorder_ok e \<longleftrightarrow> (if br_valid e then br_reqQueue e \<noteq> [] \<and> (\<not> br_hasRegisteredCoalescer e \<longrightarrow> length (br_reqQueue e) = 1)
       \<and> (\<forall>r\<in>set (br_reqQueue e). m_valid r)
     else br_reqQueue e = [])"

definition queues_valid :: "config \<Rightarrow> memSystem \<Rightarrow> bool" where
  "queues_valid g ms \<longleftrightarrow> (\<forall>c. ms_cache ms = Some c \<longrightarrow> server_inv g c) \<and> (\<forall>r\<in>set (concat (ms_reqQueue ms)). m_valid r)
     \<and> (\<forall>e\<in>set (bankRecorder ms). recorder_ok e) \<and> lseReqTable ms = lseRegistry ms"

definition flights_inv :: "config \<Rightarrow> memSystem \<Rightarrow> ports \<Rightarrow> bool" where
  "flights_inv g ms ps \<longleftrightarrow> queues_valid g ms \<and> units_ok (lseRegistry ms) ps \<and> held ms = mset_set (flights (lseRegistry ms) ps)"

lemma singles_simps [simp]: "singles {#} = {#}" "singles (A + B) = singles A + singles B"
  "singles (add_mset r M) = (if m_coalesced r then singles M else add_mset (slot r) (singles M))"
  by (simp_all add: singles_def)

lemma slot_simps [simp]: "slot (r\<lparr>m_ready := b\<rparr>) = slot r" "slot (r\<lparr>m_coalesced := b\<rparr>) = slot r"
  "slot (transCacheReq2MemReq (transMemReq2CacheReq r)) = slot r"
  by (simp_all add: slot_def transCacheReq2MemReq_def transMemReq2CacheReq_def)

lemma finite_flights [simp]: "finite (flights reg ps)"
proof (rule finite_subset)
  show "flights reg ps \<subseteq> (SIGMA i:{..<length reg}. {..<length (lse_reqQueue (snd (ps ! (reg ! i))))})"
    by (auto simp: flights_def)
qed simp

section \<open>The units\<close>

lemma flights_update:
  assumes "distinct reg" "i < length reg" "reg ! i < length ps" "length (lse_reqQueue l) = length (lse_reqQueue (snd (ps ! (reg ! i))))"
    and "\<And>j. j < length (lse_reqQueue l) \<Longrightarrow> j \<noteq> k \<Longrightarrow>
      m_inflight (fst (lse_reqQueue l ! j)) = m_inflight (fst (lse_reqQueue (snd (ps ! (reg ! i))) ! j))"
    and "k < length (lse_reqQueue l)"
  shows "flights reg (ps[reg ! i := (c, l)])
    = (if m_inflight (fst (lse_reqQueue l ! k)) then insert (i, k) (flights reg ps) else flights reg ps - {(i, k)})"
proof -
  have ne: "reg ! a \<noteq> reg ! i" if "a < length reg" "a \<noteq> i" for a
    using nth_eq_iff_index_eq [OF assms(1) that(1) assms(2)] that(2) by simp
  have "(a, b) \<in> flights reg (ps[reg ! i := (c, l)]) \<longleftrightarrow>
      (if a = i then b < length (lse_reqQueue l) \<and> m_inflight (fst (lse_reqQueue l ! b)) else (a, b) \<in> flights reg ps)" for a b
  proof (cases "a = i")
    case True
    then show ?thesis using assms(2,3) by (simp add: flights_def)
  next
    case False
    then show ?thesis using ne [of a] by (auto simp: flights_def)
  qed
  moreover have "(i, b) \<in> flights reg ps \<longleftrightarrow> b < length (lse_reqQueue l) \<and> m_inflight (fst (lse_reqQueue (snd (ps ! (reg ! i))) ! b))" for b
    using assms(2-4) by (auto simp: flights_def)
  ultimately have "(a, b) \<in> flights reg (ps[reg ! i := (c, l)]) \<longleftrightarrow>
      (a, b) \<in> (if m_inflight (fst (lse_reqQueue l ! k)) then insert (i, k) (flights reg ps) else flights reg ps - {(i, k)})" for a b
    using assms(5) [of b] assms(6) by (cases "a = i"; cases "b = k") auto
  then show ?thesis by (intro set_eqI) (metis surj_pair)
qed

lemma units_ok_update:
  assumes "units_ok reg ps" "i < length reg" "marks_ok i l"
  shows "units_ok reg (ps[reg ! i := (c, l)])"
  using assms by (auto simp: units_ok_def nth_list_update nth_eq_iff_index_eq)

text \<open>Changing a slot keeps the marks unless a suspended request stops waiting.\<close>

lemma marks_ok_slot:
  assumes "marks_ok i l" "slot_ok i s" "lse_reqQueue l' = (lse_reqQueue l)[k := (s, d)]" "suspendReqVec l' = suspendReqVec l" "lseId l' = lseId l"
    and "waits s \<or> k < length (lse_reqQueue l) \<and> \<not> waits (fst (lse_reqQueue l ! k)) 
      \<or> (\<forall>a<length (suspendReqVec l). fst (suspendReqVec l ! a) \<longrightarrow> m_lseReqQueueIndex (snd (suspendReqVec l ! a)) \<noteq> k)"
  shows "marks_ok i l'"
proof -
  have "slot_ok i (fst (lse_reqQueue l' ! j))" if "j < length (lse_reqQueue l)" for j
    using assms(1,2) that by (cases "j = k") (simp_all add: assms(3) marks_ok_def)
  moreover have "waits (fst (lse_reqQueue l' ! m_lseReqQueueIndex (snd (suspendReqVec l ! a))))"
    if "a < length (suspendReqVec l)" "fst (suspendReqVec l ! a)" for a
  proof -
    have old: "m_lseReqQueueIndex (snd (suspendReqVec l ! a)) < length (lse_reqQueue l)"
      "waits (fst (lse_reqQueue l ! m_lseReqQueueIndex (snd (suspendReqVec l ! a))))"
      using assms(1) that by (auto simp: marks_ok_def Let_def)
    from that assms(6) old show ?thesis by (cases "m_lseReqQueueIndex (snd (suspendReqVec l ! a)) = k") (auto simp: assms(3))
  qed
  ultimately show ?thesis using assms(1) unfolding marks_ok_def by (auto simp: assms(3-5) Let_def)
qed

lemma marks_ok_resume:
  assumes "marks_ok i l" "lse_reqQueue l' = lse_reqQueue l" "suspendReqVec l' = (suspendReqVec l)[k := (False, x)]" "lseId l' = lseId l"
  shows "marks_ok i l'"
proof -
  have same: "suspendReqVec l' ! a = suspendReqVec l ! a" if "a < length (suspendReqVec l)" "fst (suspendReqVec l' ! a)" for a
    using that by (cases "a = k") (simp_all add: assms(3))
  have n: "length (suspendReqVec l') = length (suspendReqVec l)" by (simp add: assms(3))
  have S: "(let r = snd (suspendReqVec l' ! a) in m_valid r \<and> m_lseId r = i \<and> m_lseReqQueueIndex r < length (lse_reqQueue l)
      \<and> waits (fst (lse_reqQueue l ! m_lseReqQueueIndex r)))" if "a < length (suspendReqVec l)" "fst (suspendReqVec l' ! a)" for a
    using assms(1) that same [OF that] by (auto simp: marks_ok_def)
  have D: "m_lseReqQueueIndex (snd (suspendReqVec l' ! a)) \<noteq> m_lseReqQueueIndex (snd (suspendReqVec l' ! b))"
    if "a < length (suspendReqVec l)" "b < length (suspendReqVec l)" "a \<noteq> b" "fst (suspendReqVec l' ! a)" "fst (suspendReqVec l' ! b)" for a b
    using assms(1) that same [of a] same [of b] unfolding marks_ok_def by auto
  show ?thesis unfolding marks_ok_def n assms(2,4) using assms(1) S D by (auto simp: marks_ok_def)
qed

lemma ack_lse_flights:
  assumes "units_ok reg ps" "lseRegistry ms = reg" "ack_lse now r ms ps = Inr ps'" "slot r \<in> flights reg ps"
  shows "units_ok reg ps'" "flights reg ps' = flights reg ps - {slot r}"
proof -
  let ?i = "m_lseId r" and ?k = "m_lseReqQueueIndex r"
  let ?l = "snd (ps ! (reg ! ?i))"
  let ?s = "(fst (lse_reqQueue ?l ! ?k))\<lparr>m_ready := True, m_inflight := False\<rparr>"
  obtain l' where i: "?i < length reg" "reg ! ?i < length ps" and l': "ackCallback now r ?l = Inr l'"
    and ps': "ps' = ps[reg ! ?i := (fst (ps ! (reg ! ?i)), l')]"
    using assms(2,3) by (auto simp: ack_lse_def rbind_Inr_iff rnth_Inr_iff deref_Inr_iff split: prod.splits)
  have k: "?k < length (lse_reqQueue ?l)" and q: "lse_reqQueue l' = (lse_reqQueue ?l)[?k := (?s, snd (lse_reqQueue ?l ! ?k))]"
    and s: "suspendReqVec l' = suspendReqVec ?l" "lseId l' = lseId ?l"
    using l' by (auto simp: ackCallback_def Let_def updateMemAccessRecord_def split: if_splits)
  have m: "marks_ok ?i ?l" using assms(1) i by (simp add: units_ok_def)
  have "m_inflight (fst (lse_reqQueue ?l ! ?k))" using assms(4) by (simp add: flights_def slot_def)
  then have "\<not> waits (fst (lse_reqQueue ?l ! ?k))" "slot_ok ?i ?s"
    using m k by (simp_all add: waits_def marks_ok_def slot_ok_def)
  with k have "marks_ok ?i l'" by (intro marks_ok_slot [OF m _ q s]) simp_all
  then show "units_ok reg ps'" unfolding ps' by (rule units_ok_update [OF assms(1) i(1)])
  have d: "distinct reg" using assms(1) by (simp add: units_ok_def)
  show "flights reg ps' = flights reg ps - {slot r}"
    unfolding ps' using k by (subst flights_update [OF d i, of l' ?k]) (auto simp: q slot_def)
qed

section \<open>Acknowledgements\<close>

lemma mset_set_remove:
  assumes "finite F" "mset_set F = add_mset x H"
  shows "mset_set (F - {x}) = H"
proof -
  have "x \<in># mset_set F" by (simp add: assms(2))
  then have "x \<in> F" using assms(1) by simp
  from mset_set.remove [OF assms(1) this] assms(2) show ?thesis by simp
qed

lemma ack_coalesced_flights:
  assumes "ack_coalesced now ms q (rec, ps) = Inr (rest, rec', ps')"
    and "units_ok (lseRegistry ms) ps" "mset_set (flights (lseRegistry ms) ps) = H + image_mset slot (mset q)"
  shows "units_ok (lseRegistry ms) ps' \<and> mset_set (flights (lseRegistry ms) ps') = H + image_mset slot (mset rest)"
  using assms
proof (induction q arbitrary: rec ps rest H)
  case (Cons r q)
  show ?case
  proof (cases "rec ! m_lseId r")
    case False
    with Cons.prems(1) obtain ps1 where 1: "ack_lse now r ms ps = Inr ps1"
      "ack_coalesced now ms q (rec[m_lseId r := True], ps1) = Inr (rest, rec', ps')"
      by (auto simp: rbind_Inr_iff rnth_Inr_iff)
    have "slot r \<in># mset_set (flights (lseRegistry ms) ps)" by (simp add: Cons.prems(3))
    then have "slot r \<in> flights (lseRegistry ms) ps" by simp
    note A = ack_lse_flights [OF Cons.prems(2) refl 1(1) this]
    have "mset_set (flights (lseRegistry ms) ps1) = H + image_mset slot (mset q)"
      unfolding A(2) by (rule mset_set_remove) (simp_all add: Cons.prems(3))
    from Cons.IH [OF 1(2) A(1) this] show ?thesis .
  next
    case True
    with Cons.prems(1) obtain rest1 where 1: "ack_coalesced now ms q (rec, ps) = Inr (rest1, rec', ps')" "rest = r # rest1"
      by (auto simp: rbind_Inr_iff rnth_Inr_iff split: prod.splits)
    from Cons.IH [OF 1(1) Cons.prems(2), of "add_mset (slot r) H"] Cons.prems(3) show ?thesis by (simp add: 1(2))
  qed
qed simp

text \<open>A step that moves requests only.\<close>

lemma flights_inv_keep:
  assumes "flights_inv g ms ps" "queues_valid g ms'" "held ms' = held ms" "lseRegistry ms' = lseRegistry ms"
  shows "flights_inv g ms' ps"
  using assms by (simp add: flights_inv_def)

lemma coalesced_reqs_update:
  assumes "e < length (coalescerTable co)"
  shows "coalesced_reqs (co\<lparr>coalescerTable := (coalescerTable co)[e := x]\<rparr>) + mset (ce_coalescerQueue (coalescerTable co ! e))
    = coalesced_reqs co + mset (ce_coalescerQueue x)"
  using mset_concat_update [of e "map ce_coalescerQueue (coalescerTable co)" "ce_coalescerQueue x"] assms
  by (simp add: coalesced_reqs_def map_update)

lemma concat_tail:
  assumes "i < length qs" "qs ! i = r # q"
  shows "mset (concat qs) = add_mset r (mset (concat (qs[i := q])))"
  using mset_concat_update [OF assms(1), of q] assms(2) by simp

lemma concat_add:
  assumes "i < length qs"
  shows "mset (concat (qs[i := qs ! i @ [r]])) = add_mset r (mset (concat qs))"
  using mset_concat_update [OF assms, of "qs ! i @ [r]"] by simp

lemma visit_ack_flights:
  assumes "flights_inv g ms ps" "ptr < length (ms_ackQueue ms)" "visit_ack g now ptr (ms, rec, ps) = Inr (ms', rec', ps')"
  shows "flights_inv g ms' ps' \<and> length (ms_ackQueue ms') = length (ms_ackQueue ms) \<and> lseRegistry ms' = lseRegistry ms"
proof (cases "ms_ackQueue ms ! ptr")
  case Nil
  with assms show ?thesis by (simp add: visit_ack_def)
next
  case (Cons r q)
  have I: "queues_valid g ms" "units_ok (lseRegistry ms) ps" "held ms = mset_set (flights (lseRegistry ms) ps)"
    using assms(1) by (simp_all add: flights_inv_def)
  note tail = concat_tail [OF assms(2) Cons]
  show ?thesis
  proof (cases "m_coalesced r")
    case False
    show ?thesis
    proof (cases "rec ! m_lseId r")
      case True
      with assms Cons False show ?thesis by (auto simp: visit_ack_def rbind_Inr_iff rnth_Inr_iff)
    next
      case new: False
      with assms(3) Cons False have 1: "ack_lse now r ms ps = Inr ps'" and ms': "ms' = ms\<lparr>ms_ackQueue := (ms_ackQueue ms)[ptr := q]\<rparr>"
        by (auto simp: visit_ack_def rbind_Inr_iff rnth_Inr_iff)
      have h: "held ms = add_mset (slot r) (held ms')"
        using False unfolding ms' by (simp add: held_def recorded_def queued_def in_cache_def tail)
      then have "slot r \<in># mset_set (flights (lseRegistry ms) ps)" unfolding I(3) [symmetric] by simp
      then have "slot r \<in> flights (lseRegistry ms) ps" by simp
      note A = ack_lse_flights [OF I(2) refl 1 this]
      have "mset_set (flights (lseRegistry ms) ps') = held ms'"
        unfolding A(2) using I(3) h by (intro mset_set_remove) simp_all
      moreover have "queues_valid g ms'" using I(1) by (simp add: ms' queues_valid_def)
      ultimately show ?thesis using A(1) by (simp add: flights_inv_def ms')
    qed
  next
    case True
    let ?co = "ms_coalescer ms"
    from assms(3) Cons True obtain e rest where e: "e < length (coalescerTable ?co)"
      and 1: "ack_coalesced now ms (ce_coalescerQueue (coalescerTable ?co ! e)) (rec, ps) = Inr (rest, rec', ps')"
      and ms': "if rest = [] then \<exists>co. popCoalescerEntry e (?co\<lparr>coalescerTable := (coalescerTable ?co)
            [e := (coalescerTable ?co ! e)\<lparr>ce_coalescerQueue := rest\<rparr>]\<rparr>) = Inr co
          \<and> ms' = ms\<lparr>ms_coalescer := co, ms_ackQueue := (ms_ackQueue ms)[ptr := q]\<rparr>
        else ms' = ms\<lparr>ms_coalescer := ?co\<lparr>coalescerTable := (coalescerTable ?co)[e := (coalescerTable ?co ! e)\<lparr>ce_coalescerQueue := rest\<rparr>]\<rparr>\<rparr>"
      by (auto simp: visit_ack_def rbind_Inr_iff Let_def dest: searchCoalescer_Inr split: if_splits prod.splits)
    let ?co' = "?co\<lparr>coalescerTable := (coalescerTable ?co)[e := (coalescerTable ?co ! e)\<lparr>ce_coalescerQueue := rest\<rparr>]\<rparr>"
    have co': "coalesced_reqs ?co' + mset (ce_coalescerQueue (coalescerTable ?co ! e)) = coalesced_reqs ?co + mset rest"
      using coalesced_reqs_update [OF e] by simp
    obtain D where D: "coalesced_reqs ?co = D + mset (ce_coalescerQueue (coalescerTable ?co ! e))"
      using mset_concat_update [of e "map ce_coalescerQueue (coalescerTable ?co)" "[]"] e by (simp add: coalesced_reqs_def) metis
    let ?H = "image_mset slot (recorded ms) + singles (queued ms) + image_mset slot D"
    have "mset_set (flights (lseRegistry ms) ps) = ?H + image_mset slot (mset (ce_coalescerQueue (coalescerTable ?co ! e)))"
      using I(3) by (simp add: held_def D ac_simps)
    from ack_coalesced_flights [OF 1 I(2) this] have A: "units_ok (lseRegistry ms) ps'"
      "mset_set (flights (lseRegistry ms) ps') = ?H + image_mset slot (mset rest)" by simp_all
    have C: "coalesced_reqs ?co' = D + mset rest" using co' unfolding D by (simp add: ac_simps)
    have "coalesced_reqs (ms_coalescer ms') = coalesced_reqs ?co' \<and> bankRecorder ms' = bankRecorder ms \<and> lseRegistry ms' = lseRegistry ms
      \<and> lseReqTable ms' = lseReqTable ms \<and> ms_cache ms' = ms_cache ms \<and> ms_reqQueue ms' = ms_reqQueue ms
      \<and> length (ms_ackQueue ms') = length (ms_ackQueue ms) \<and> singles (mset (concat (ms_ackQueue ms'))) = singles (mset (concat (ms_ackQueue ms)))"
    proof (cases "rest = []")
      case False
      then show ?thesis using ms' by simp
    next
      case rest: True
      with ms' obtain co where co: "popCoalescerEntry e ?co' = Inr co"
        "ms' = ms\<lparr>ms_coalescer := co, ms_ackQueue := (ms_ackQueue ms)[ptr := q]\<rparr>" by auto
      from popCoalescerEntry_ok [of e ?co'] e co(1) rest have "coalesced_reqs co = coalesced_reqs ?co'" by simp
      then show ?thesis using True by (simp add: co(2) tail)
    qed
    then have "held ms' = mset_set (flights (lseRegistry ms) ps')" "queues_valid g ms'" "lseRegistry ms' = lseRegistry ms"
      "length (ms_ackQueue ms') = length (ms_ackQueue ms)"
      using I(1) by (simp_all add: A(2) C held_def recorded_def queued_def in_cache_def queues_valid_def ac_simps)
    then show ?thesis using A(1) by (simp add: flights_inv_def)
  qed
qed

lemma sendBack2Lse_flights:
  assumes "flights_inv g ms ps" "sendBack2Lse g now (ms, ps) = Inr (ms', ps')"
  shows "flights_inv g ms' ps' \<and> lseRegistry ms' = lseRegistry ms"
proof -
  let ?n = "length (ms_ackQueue ms)"
  from assms(2) obtain rec where r: "rfold (visit_ack g now) (probes ?n [0..<?n] (ackQueueReadPtr ms))
      (ms, replicate (length (lseRegistry ms)) False, ps) = Inr (ms', rec, ps')"
    by (auto simp: sendBack2Lse_def Let_def rbind_Inr_iff split: prod.splits)
  have "(\<lambda>(ms', rec, ps'). flights_inv g ms' ps' \<and> length (ms_ackQueue ms') = ?n \<and> lseRegistry ms' = lseRegistry ms) (ms', rec, ps')"
  proof (rule rfold_partial [OF r])
    show "(\<lambda>(ms', rec, ps'). flights_inv g ms' ps' \<and> length (ms_ackQueue ms') = ?n \<and> lseRegistry ms' = lseRegistry ms) (ms, replicate (length (lseRegistry ms)) False, ps)"
      using assms(1) by simp
  next
    fix x t t'
    assume x: "x \<in> set (probes ?n [0..<?n] (ackQueueReadPtr ms))"
      and t: "case t of (ms', rec, ps') \<Rightarrow> flights_inv g ms' ps' \<and> length (ms_ackQueue ms') = ?n \<and> lseRegistry ms' = lseRegistry ms" "visit_ack g now x t = Inr t'"
    obtain k where "k < ?n" "x = (ackQueueReadPtr ms + tri k) mod ?n" using x unfolding set_probes by blast
    then have "x < ?n" by (cases ?n) simp_all
    obtain ms1 rec1 ps1 ms2 rec2 ps2 where tt: "t = (ms1, rec1, ps1)" "t' = (ms2, rec2, ps2)" by (metis prod_cases3)
    show "case t' of (ms', rec, ps') \<Rightarrow> flights_inv g ms' ps' \<and> length (ms_ackQueue ms') = ?n \<and> lseRegistry ms' = lseRegistry ms"
      using visit_ack_flights [of g ms1 ps1 x now rec1 ms2 rec2 ps2] t \<open>x < ?n\<close> by (simp add: tt)
  qed
  then show ?thesis by simp
qed

section \<open>The cache, the bus and the DRAM\<close>

lemma cache_count [simp]: "server_inv g (c\<lparr>cacheAccessCnt := n\<rparr>) = server_inv g c"
  "client_pending (c\<lparr>cacheAccessCnt := n\<rparr>) = client_pending c"
proof -
  have "cache_dims (c\<lparr>cacheAccessCnt := n\<rparr>) = cache_dims c" by (simp add: cache_dims_def)
  from cache_inv_cong [OF this] show "server_inv g (c\<lparr>cacheAccessCnt := n\<rparr>) = server_inv g c"
    "client_pending (c\<lparr>cacheAccessCnt := n\<rparr>) = client_pending c"
    by (simp_all add: server_inv_def client_pending_def)
qed

lemma singles_asked: "m_valid r \<Longrightarrow> singles (asked_of r) = singles {#r#}"
  by (simp add: asked_of_def) (simp add: transCacheReq2MemReq_def transMemReq2CacheReq_def)

lemma singles_answered: "m_valid r \<Longrightarrow> singles (answered_by r) = singles {#r#}"
  by (simp add: answered_by_def)

lemma cache_addTransaction_law:
  assumes "server_inv g c" "cache_addTransaction r c = Inr (ok, c')" "m_valid r"
  shows "server_inv g c' \<and> singles (client_pending c') = singles (client_pending c) + (if ok then singles {#r#} else {#})"
  using cache_add_law [of g "(c, ())" r ok "(c', ())"] assms by (simp add: cache_add_def singles_asked del: singles_simps(3))

text \<open>The parts of the invariant that concern the cache and the queues.\<close>

definition path_ok :: "config \<Rightarrow> memSystem \<Rightarrow> memSystem \<Rightarrow> bool" where
  "path_ok g ms ms' \<longleftrightarrow> queues_valid g ms' \<and> singles (queued ms') = singles (queued ms) \<and> bankRecorder ms' = bankRecorder ms
     \<and> ms_coalescer ms' = ms_coalescer ms \<and> lseRegistry ms' = lseRegistry ms \<and> length (ms_reqQueue ms') = length (ms_reqQueue ms)
     \<and> length (ms_ackQueue ms') = length (ms_ackQueue ms)"

lemma path_ok_refl: "queues_valid g ms \<Longrightarrow> path_ok g ms ms" and path_ok_valid: "path_ok g ms ms' \<Longrightarrow> queues_valid g ms'"
  and path_ok_trans: "path_ok g ms ms' \<Longrightarrow> path_ok g ms' ms'' \<Longrightarrow> path_ok g ms ms''"
  by (simp_all add: path_ok_def)

lemma path_ok_lengths: "path_ok g ms ms' \<Longrightarrow> length (ms_reqQueue ms') = length (ms_reqQueue ms)"
  "path_ok g ms ms' \<Longrightarrow> length (ms_ackQueue ms') = length (ms_ackQueue ms)"
  by (simp_all add: path_ok_def)

lemma path_ok_flights: "path_ok g ms ms' \<Longrightarrow> flights_inv g ms ps \<Longrightarrow> flights_inv g ms' ps"
  by (rule flights_inv_keep) (simp_all add: path_ok_def held_def recorded_def)

lemma path_ok_fold:
  assumes "rfold f xs ms = Inr ms'" "queues_valid g ms"
    and "\<And>x t t'. x \<in> set xs \<Longrightarrow> path_ok g ms t \<Longrightarrow> f x t = Inr t' \<Longrightarrow> path_ok g t t'"
  shows "path_ok g ms ms'"
  using assms(1) by (rule rfold_partial) (use assms(2,3) in \<open>blast intro: path_ok_refl path_ok_trans\<close>)+

lemma path_ok_cache:
  assumes "queues_valid g ms" "ms_cache ms = Some c" "server_inv g c'" "client_pending c' = client_pending c"
  shows "path_ok g ms (ms\<lparr>ms_cache := Some c'\<rparr>)"
  using assms by (simp add: path_ok_def queues_valid_def queued_def in_cache_def)

lemma send2Cache_bank_path:
  assumes "queues_valid g ms" "i < length (ms_reqQueue ms)" "send2Cache_bank g i ms = Inr ms'"
  shows "path_ok g ms ms'"
proof (cases "ms_reqQueue ms ! i")
  case Nil
  with assms show ?thesis by (simp add: send2Cache_bank_def path_ok_refl)
next
  case (Cons r q)
  note tail = concat_tail [OF assms(2) Cons]
  have r: "m_valid r" "\<forall>r\<in>set (concat ((ms_reqQueue ms)[i := q])). m_valid r"
    using assms(1) tail unfolding queues_valid_def set_mset_mset [symmetric] by simp_all
  from assms(3) Cons obtain c where c: "ms_cache ms = Some c" by (auto simp: send2Cache_bank_def split: option.splits)
  have S: "server_inv g c" using assms(1) c by (simp add: queues_valid_def)
  show ?thesis
  proof (cases "cache_all_hit g")
    case True
    then show ?thesis
    proof (cases "i < length (ms_ackQueue ms) \<and> length (ms_ackQueue ms ! i) < memSystem_ack_queue_size_per_bank g")
      case False
      with True assms Cons c show ?thesis by (auto simp: send2Cache_bank_def rbind_Inr_iff rnth_Inr_iff path_ok_refl split: if_splits)
    next
      case room: True
      with True assms(3) Cons c have "ms' = ms\<lparr>ms_ackQueue := (ms_ackQueue ms)[i := ms_ackQueue ms ! i @ [r]],
          ms_reqQueue := (ms_reqQueue ms)[i := q], ms_cache := Some (c\<lparr>cacheAccessCnt := cacheAccessCnt c + 1\<rparr>)\<rparr>"
        by (simp add: send2Cache_bank_def)
      then show ?thesis
        using assms(1) c S r(2) room by (simp add: path_ok_def queues_valid_def queued_def in_cache_def tail concat_add)
    qed
  next
    case False
    with assms(3) Cons c obtain ok c' where c': "cache_addTransaction r c = Inr (ok, c')"
      "ms' = (if ok then ms\<lparr>ms_reqQueue := (ms_reqQueue ms)[i := q], ms_cache := Some (c'\<lparr>cacheAccessCnt := cacheAccessCnt c' + 1\<rparr>)\<rparr>
        else ms\<lparr>ms_cache := Some c'\<rparr>)"
      by (auto simp: send2Cache_bank_def rbind_Inr_iff split: if_splits)
    from cache_addTransaction_law [OF S c'(1) r(1)] c'(2) assms(1) r(2) c show ?thesis
      by (cases ok) (simp_all add: path_ok_def queues_valid_def queued_def in_cache_def tail)
  qed
qed

lemma getFromCache_bank_path:
  assumes "queues_valid g ms" "i < length (ms_ackQueue ms)" "getFromCache_bank g i ms = Inr ms'"
  shows "path_ok g ms ms'"
proof (cases "length (ms_ackQueue ms ! i) < memSystem_ack_queue_size_per_bank g")
  case False
  with assms show ?thesis by (simp add: getFromCache_bank_def path_ok_refl)
next
  case True
  with assms(3) obtain c a c' where c: "ms_cache ms = Some c" "cache_callBack i c = Inr (a, c')"
    "ms' = (if m_valid a then ms\<lparr>ms_ackQueue := (ms_ackQueue ms)[i := ms_ackQueue ms ! i @ [a]]\<rparr> else ms)\<lparr>ms_cache := Some c'\<rparr>"
    by (auto simp: getFromCache_bank_def rbind_Inr_iff split: option.splits)
  have "server_inv g c" using assms(1) c(1) by (simp add: queues_valid_def)
  with cache_collect_law [of g "(c, ())" i a "(c', ())"] c(2)
  have L: "server_inv g c'" "client_pending c' + answered_by a = client_pending c" by (simp_all add: cache_collect_def)
  show ?thesis
  proof (cases "m_valid a")
    case True
    have "singles (client_pending c) = singles (client_pending c') + singles {#a#}"
      using singles_answered [OF True] L(2) singles_simps(2) by metis
    with True assms(1,2) c L(1) show ?thesis
      by (simp add: path_ok_def queues_valid_def queued_def in_cache_def concat_add)
  next
    case False
    with L(2) have "client_pending c' = client_pending c" by (simp add: answered_by_def)
    with False path_ok_cache [OF assms(1) c(1) L(1)] show ?thesis by (simp add: c(3))
  qed
qed

lemma path_ok_other:
  assumes "queues_valid g ms"
  shows "path_ok g ms (ms\<lparr>ms_spm := s\<rparr>)" "path_ok g ms (ms\<lparr>memDataBus := b\<rparr>)" "path_ok g ms (ms\<lparr>reqAckStack := a\<rparr>)"
    "path_ok g ms (ms\<lparr>memDataBus := b, hostCnt := h, dramCnt := d\<rparr>)" "path_ok g ms (ms\<lparr>memDataBus := b, reqAckStack := a\<rparr>)"
  using assms by (simp_all add: path_ok_def queues_valid_def queued_def in_cache_def)

lemma returnReqAck_path:
  assumes "queues_valid g ms" "returnReqAck g ms = Inr ms'"
  shows "path_ok g ms ms'"
proof -
  from assms(2) obtain ms1 ms2 where r:
    "(if spm_enable g then rfold (\<lambda>r ms. case ms_spm ms of None \<Rightarrow> Inl NullPointer
                | Some s \<Rightarrow> Inr (ms\<lparr>ms_spm := Some (spm_mem_req_complete r s)\<rparr>)) (reqAckStack ms) ms else Inr ms) = Inr ms1"
    "(if cache_enable g then rfold (\<lambda>r ms. case ms_cache ms of None \<Rightarrow> Inl NullPointer
                | Some c \<Rightarrow> rbind (cache_mem_req_complete g r c) (\<lambda>c. Inr (ms\<lparr>ms_cache := Some c\<rparr>))) (reqAckStack ms1) ms1 else Inr ms1) = Inr ms2"
    and ms': "ms2\<lparr>reqAckStack := []\<rparr> = ms'"
    unfolding returnReqAck_def rbind_Inr_iff sum.inject by blast
  have 1: "path_ok g ms ms1"
  proof (cases "spm_enable g")
    case True
    with r(1) show ?thesis
      by (auto elim!: path_ok_fold [OF _ assms(1)] split: option.splits intro: path_ok_other(1) [OF path_ok_valid])
  qed (use r(1) assms(1) in \<open>simp add: path_ok_refl\<close>)
  have 2: "path_ok g ms1 ms2"
  proof (cases "cache_enable g")
    case True
    with r(2) have f: "rfold (\<lambda>r ms. case ms_cache ms of None \<Rightarrow> Inl NullPointer
        | Some c \<Rightarrow> rbind (cache_mem_req_complete g r c) (\<lambda>c. Inr (ms\<lparr>ms_cache := Some c\<rparr>))) (reqAckStack ms1) ms1 = Inr ms2" by simp
    show ?thesis
    proof (rule path_ok_fold [OF f path_ok_valid [OF 1]])
      fix x t t'
      assume t: "path_ok g ms1 t" "(case ms_cache t of None \<Rightarrow> Inl NullPointer
        | Some c \<Rightarrow> rbind (cache_mem_req_complete g x c) (\<lambda>c. Inr (t\<lparr>ms_cache := Some c\<rparr>))) = Inr t'"
      then obtain c c' where c: "ms_cache t = Some c" "cache_mem_req_complete g x c = Inr c'" "t' = t\<lparr>ms_cache := Some c'\<rparr>"
        by (auto simp: rbind_Inr_iff split: option.splits)
      have "server_inv g c" using path_ok_valid [OF t(1)] c(1) by (simp add: queues_valid_def)
      with cache_step_law [of g "(c, ())" "\<lambda>_ _ _. True" "\<lambda>m _ _. m" "MemDone x" "(c', ())"] c(2)
      show "path_ok g t t'" unfolding c(3) by (intro path_ok_cache [OF path_ok_valid [OF t(1)] c(1)]) simp_all
    qed
  qed (use r(2) path_ok_valid [OF 1] in \<open>simp add: path_ok_refl\<close>)
  from path_ok_trans [OF 1 2] path_ok_valid [OF 2] show ?thesis
    unfolding ms' [symmetric] by (blast intro: path_ok_trans path_ok_other)
qed

lemma dramUpdate_path:
  assumes "queues_valid g ms" "dramUpdate d (ms, m) = Inr (ms', m')"
  shows "path_ok g ms ms'"
proof -
  have "\<exists>b. ms' = ms\<lparr>memDataBus := b\<rparr> \<or> (\<exists>h c. ms' = ms\<lparr>memDataBus := b, hostCnt := h, dramCnt := c\<rparr>)"
    using assms(2) by (auto simp: dramUpdate_def Let_def split: if_splits prod.splits option.splits)
  then show ?thesis using path_ok_other [OF assms(1)] by auto
qed

lemma memSys_onchip_path:
  assumes "queues_valid g ms" "memSys_onchip g b d (ms, m) = Inr (ms', m')"
  shows "path_ok g ms ms'"
proof -
  from assms(2) obtain ms1 m1 where r1: "(if spm_enable g
            then (case ms_spm ms of None \<Rightarrow> Inl NullPointer | Some s \<Rightarrow>
              rbind (spm_sendReq2Mem (d_willAccept d) (d_add d) (spmUpdate b s) m)
                (\<lambda>(s, m). Inr (ms\<lparr>ms_spm := Some s\<rparr>, m)))
            else Inr (ms, m)) = Inr (ms1, m1)"
    and r: "(if cache_enable g
     then rbind (send2Cache g ms1) (\<lambda>ms. case ms_cache ms of None \<Rightarrow> Inl NullPointer | Some c \<Rightarrow>
            rbind (cacheUpdate g b c) (\<lambda>c.
              case cache_sendReq2Mem (d_willAccept d) (d_add d) c m1 of (c, m) \<Rightarrow> Inr (ms\<lparr>ms_cache := Some c\<rparr>, m)))
     else Inr (ms1, m1)) = Inr (ms', m')"
    unfolding memSys_onchip_def prod.case rbind_Inr_iff by auto
  have 1: "path_ok g ms ms1"
    using r1 path_ok_other(1) [OF assms(1)] path_ok_refl [OF assms(1)]
    by (auto simp: rbind_Inr_iff split: if_splits option.splits prod.splits)
  show ?thesis
  proof (cases "cache_enable g")
    case True
    with r obtain ms2 c c2 where 2: "send2Cache g ms1 = Inr ms2" "ms_cache ms2 = Some c" "cacheUpdate g b c = Inr c2"
      "ms' = ms2\<lparr>ms_cache := Some (fst (cache_sendReq2Mem (d_willAccept d) (d_add d) c2 m1))\<rparr>"
      by (auto simp: rbind_Inr_iff case_prod_beta split: option.splits)
    have f: "rfold (send2Cache_bank g) [0..<length (ms_reqQueue ms1)] ms1 = Inr ms2" using 2(1) by (auto simp: send2Cache_def split: if_splits)
    have p: "path_ok g ms1 ms2"
      by (rule path_ok_fold [OF f path_ok_valid [OF 1]]) (auto intro!: send2Cache_bank_path simp: path_ok_valid path_ok_lengths)
    have "server_inv g c" using path_ok_valid [OF p] 2(2) by (simp add: queues_valid_def)
    with cache_step_law [of g "(c, m1)" "d_willAccept d" "d_add d" "Update b" "(c2, m1)"] 2(3)
    have "server_inv g c2" "client_pending c2 = client_pending c" by simp_all
    with cache_step_law [of g "(c2, m1)" "d_willAccept d" "d_add d" SendMem] 
    have "path_ok g ms2 ms'" unfolding 2(4) by (intro path_ok_cache [OF path_ok_valid [OF p] 2(2)]) simp_all
    with 1 p show ?thesis by (blast intro: path_ok_trans)
  qed (use r 1 in simp)
qed

lemma getFromCache_path:
  assumes "queues_valid g ms" "getFromCache g ms = Inr ms'"
  shows "path_ok g ms ms'"
proof -
  have f: "rfold (getFromCache_bank g) [0..<length (ms_ackQueue ms)] ms = Inr ms'"
    using assms(2) by (auto simp: getFromCache_def split: if_splits)
  show ?thesis
    by (rule path_ok_fold [OF f assms(1)]) (auto intro!: getFromCache_bank_path simp: path_ok_valid path_ok_lengths)
qed

section \<open>Requests of the units\<close>

lemma coalesce_req_eq:
  "coalesce_req g r b ms = rbind (getAddrTag g ms (m_addr r)) (\<lambda>t. let e = bankRecorder ms ! b;
       f = (if br_hasRegisteredCoalescer e then coalescerFreeEntryNum ms else coalescerFreeEntryNum ms - 1) in
     if t \<noteq> br_addrTag e then Inr (False, r, ms)
     else if length (br_reqQueue e) < memSys_coalescer_size_per_entry g
     then Inr (True, r\<lparr>m_coalesced := True\<rparr>, ms\<lparr>coalescerFreeEntryNum := f, bankRecorder := (bankRecorder ms)
       [b := e\<lparr>br_hasRegisteredCoalescer := True, br_reqQueue := br_reqQueue e @ [r\<lparr>m_coalesced := True\<rparr>]\<rparr>]\<rparr>)
     else Inr (False, r, ms\<lparr>coalescerFreeEntryNum := f, bankRecorder := (bankRecorder ms)[b := e\<lparr>br_hasRegisteredCoalescer := True\<rparr>]\<rparr>))"
  unfolding coalesce_req_def by (rule rbind_cong [OF refl]) (cases "bankRecorder ms ! b", simp add: Let_def)

text \<open>A request is taken into the recorder of its bank, or the state keeps its requests.\<close>

lemma take_req_cases:
  assumes "queues_valid g ms" "m_valid r" "take_req g r ms = Inr (ok, r', ms')"
  shows "slot r' = slot r \<and> (\<not> ok \<and> ms' = ms \<or> (\<exists>b<length (bankRecorder ms). \<exists>e f. recorder_ok e
    \<and> br_reqQueue e = br_reqQueue (bankRecorder ms ! b) @ (if ok then [r'] else [])
    \<and> ms' = ms\<lparr>coalescerFreeEntryNum := f, bankRecorder := (bankRecorder ms)[b := e]\<rparr>))"
proof -
  have R: "recorder_ok (bankRecorder ms ! b)" if "b < length (bankRecorder ms)" for b
    using assms(1) that by (simp add: queues_valid_def)
  show ?thesis
  proof (cases "\<not> ok \<and> ms' = ms \<and> r' = r")
    case True
    then show ?thesis by simp
  next
    case False
    with assms(3) obtain b where b: "b < length (bankRecorder ms)" and c:
      "\<not> br_valid (bankRecorder ms ! b) \<and> (\<exists>t. ok \<and> r' = r \<and> ms' = ms\<lparr>bankRecorder := (bankRecorder ms)
           [b := (bankRecorder ms ! b)\<lparr>br_valid := True, br_addrTag := t, br_reqQueue := br_reqQueue (bankRecorder ms ! b) @ [r]\<rparr>]\<rparr>)
       \<or> br_valid (bankRecorder ms ! b) \<and> coalesce_req g r b ms = Inr (ok, r', ms')"
      unfolding take_req_def by (auto simp: rbind_Inr_iff rnth_Inr_iff split: if_splits)
    note E = R [OF b]
    from c show ?thesis
    proof (elim disjE conjE exE)
      fix t assume n: "\<not> br_valid (bankRecorder ms ! b)" and x: "ok" "r' = r" "ms' = ms\<lparr>bankRecorder := (bankRecorder ms)
           [b := (bankRecorder ms ! b)\<lparr>br_valid := True, br_addrTag := t, br_reqQueue := br_reqQueue (bankRecorder ms ! b) @ [r]\<rparr>]\<rparr>"
      let ?e = "(bankRecorder ms ! b)\<lparr>br_valid := True, br_addrTag := t, br_reqQueue := br_reqQueue (bankRecorder ms ! b) @ [r]\<rparr>"
      have "recorder_ok ?e" using n E assms(2) by (simp add: recorder_ok_def)
      then show ?thesis
        using x b by (intro conjI disjI2 exI [of _ b] exI [of _ ?e] exI [of _ "coalescerFreeEntryNum ms"]) simp_all
    next
      assume v: "br_valid (bankRecorder ms ! b)" and x: "coalesce_req g r b ms = Inr (ok, r', ms')"
      let ?e = "bankRecorder ms ! b" and ?f = "if br_hasRegisteredCoalescer (bankRecorder ms ! b) then coalescerFreeEntryNum ms else coalescerFreeEntryNum ms - 1"
      let ?e1 = "?e\<lparr>br_hasRegisteredCoalescer := True, br_reqQueue := br_reqQueue ?e @ [r\<lparr>m_coalesced := True\<rparr>]\<rparr>"
      have ok1: "recorder_ok ?e1" "recorder_ok (?e\<lparr>br_hasRegisteredCoalescer := True\<rparr>)"
        using v E assms(2) by (simp_all add: recorder_ok_def)
      obtain t where t: "getAddrTag g ms (m_addr r) = Inr t" using x by (auto simp: coalesce_req_def rbind_Inr_iff)
      show ?thesis
      proof (cases "t \<noteq> br_addrTag ?e")
        case True
        with x t show ?thesis by (simp add: coalesce_req_eq)
      next
        case same: False
        show ?thesis
        proof (cases "length (br_reqQueue ?e) < memSys_coalescer_size_per_entry g")
          case True
          with x t same have "ok" "r' = r\<lparr>m_coalesced := True\<rparr>" "ms' = ms\<lparr>coalescerFreeEntryNum := ?f, bankRecorder := (bankRecorder ms)[b := ?e1]\<rparr>"
            by (auto simp: coalesce_req_eq Let_def)
          with ok1(1) b show ?thesis by (intro conjI disjI2 exI [of _ b] exI [of _ ?e1] exI [of _ ?f]) simp_all
        next
          case False
          with x t same have "\<not> ok" "r' = r" "ms' = ms\<lparr>coalescerFreeEntryNum := ?f, bankRecorder := (bankRecorder ms)[b := ?e\<lparr>br_hasRegisteredCoalescer := True\<rparr>]\<rparr>"
            by (auto simp: coalesce_req_eq Let_def)
          with ok1(2) b show ?thesis
            by (intro conjI disjI2 exI [of _ b] exI [of _ "?e\<lparr>br_hasRegisteredCoalescer := True\<rparr>"] exI [of _ ?f]) simp_all
        qed
      qed
    qed
  qed
qed

lemma take_req_held:
  assumes "queues_valid g ms" "m_valid r" "take_req g r ms = Inr (ok, r', ms')"
  shows "slot r' = slot r" "queues_valid g ms'" "lseRegistry ms' = lseRegistry ms"
    "held ms' = held ms + (if ok then {#slot r#} else {#})"
proof -
  note T = take_req_cases [OF assms]
  then show s: "slot r' = slot r" by simp
  from T have "queues_valid g ms' \<and> lseRegistry ms' = lseRegistry ms \<and> held ms' = held ms + (if ok then {#slot r#} else {#})"
  proof (elim conjE disjE exE)
    fix b e f
    assume e: "b < length (bankRecorder ms)" "recorder_ok e" "br_reqQueue e = br_reqQueue (bankRecorder ms ! b) @ (if ok then [r'] else [])"
      and ms': "ms' = ms\<lparr>coalescerFreeEntryNum := f, bankRecorder := (bankRecorder ms)[b := e]\<rparr>"
    have "recorded ms' + mset (br_reqQueue (bankRecorder ms ! b)) = recorded ms + mset (br_reqQueue e)"
      using mset_concat_update [of b "map br_reqQueue (bankRecorder ms)" "br_reqQueue e"] e(1)
      by (simp add: recorded_def ms' map_update)
    then have "recorded ms' = recorded ms + (if ok then {#r'#} else {#})" by (simp add: e(3))
    moreover have "queues_valid g ms'"
      using assms(1) e(2) set_update_subset_insert [of "bankRecorder ms" b e] by (auto simp: queues_valid_def ms')
    ultimately show ?thesis by (simp add: held_def ms' queued_def in_cache_def s)
  qed (use assms(1) in simp)
  then show "queues_valid g ms'" "lseRegistry ms' = lseRegistry ms" "held ms' = held ms + (if ok then {#slot r#} else {#})" by simp_all
qed

lemma marks_ok_nth:
  assumes "marks_ok i l" "k < length (suspendReqVec l)" "fst (suspendReqVec l ! k)"
  shows "m_valid (snd (suspendReqVec l ! k))" "m_lseId (snd (suspendReqVec l ! k)) = i"
    "m_lseReqQueueIndex (snd (suspendReqVec l ! k)) < length (lse_reqQueue l)"
    "waits (fst (lse_reqQueue l ! m_lseReqQueueIndex (snd (suspendReqVec l ! k))))"
  using assms by (simp_all add: marks_ok_def Let_def)

lemma setInflight_flights:
  assumes "units_ok reg ps" "i < length reg" "ps ! (reg ! i) = (cid, l)" "0 < cid" "cid - 1 < length (suspendReqVec l)"
    and "fst (suspendReqVec l ! (cid - 1))" "m_lseReqQueueIndex r = m_lseReqQueueIndex (snd (suspendReqVec l ! (cid - 1)))"
    and "setInflight cid r l = Inr l'"
  shows "units_ok reg (ps[reg ! i := (cid, l')])" "flights reg (ps[reg ! i := (cid, l')]) = insert (i, m_lseReqQueueIndex r) (flights reg ps)"
    "(i, m_lseReqQueueIndex r) \<notin> flights reg ps"
proof -
  let ?k = "m_lseReqQueueIndex r" and ?j = "cid - 1"
  have i: "reg ! i < length ps" "marks_ok i l" "distinct reg" using assms(1-3) by (auto simp: units_ok_def)
  note S = marks_ok_nth [OF i(2) assms(5,6), folded assms(7)]
  let ?s = "(fst (lse_reqQueue l ! ?k))\<lparr>m_inflight := True, m_coalesced := m_coalesced r\<rparr>"
  have l': "lse_reqQueue l' = (lse_reqQueue l)[?k := (?s, snd (lse_reqQueue l ! ?k))]"
    "suspendReqVec l' = (suspendReqVec l)[?j := (False, snd (suspendReqVec l ! ?j))]" "lseId l' = lseId l"
    using assms(4-8) S(3) by (auto simp: setInflight_def)
  define l0 where "l0 = l\<lparr>suspendReqVec := (suspendReqVec l)[?j := (False, snd (suspendReqVec l ! ?j))]\<rparr>"
  have m0: "marks_ok i l0" by (rule marks_ok_resume [OF i(2)]) (simp_all add: l0_def)
  have "slot_ok i (fst (lse_reqQueue l ! ?k))" using S(3) i(2) by (simp add: marks_ok_def)
  then have ok: "slot_ok i ?s" using S(4) by (auto simp: slot_ok_def waits_def)
  have ne: "m_lseReqQueueIndex (snd (suspendReqVec l0 ! a)) \<noteq> ?k" if "a < length (suspendReqVec l0)" "fst (suspendReqVec l0 ! a)" for a
    using i(2) that assms(5,6) unfolding assms(7) marks_ok_def l0_def by (cases "a = ?j") auto
  have "marks_ok i l'" by (rule marks_ok_slot [OF m0 ok]) (use ne l' in \<open>auto simp: l0_def\<close>)
  then show "units_ok reg (ps[reg ! i := (cid, l')])" by (rule units_ok_update [OF assms(1,2)])
  show "flights reg (ps[reg ! i := (cid, l')]) = insert (i, ?k) (flights reg ps)"
    using S(3) by (subst flights_update [OF i(3) assms(2) i(1), of l' ?k]) (auto simp: l' assms(3))
  show "(i, ?k) \<notin> flights reg ps" using S(4) by (simp add: flights_def assms(3) waits_def)
qed

lemma visit_lse_flights:
  assumes "flights_inv g ms ps" "p \<in> set (lseRegistry ms)" "visit_lse g p (ms, ps) = Inr (ms', ps')"
  shows "flights_inv g ms' ps' \<and> lseRegistry ms' = lseRegistry ms"
proof -
  have I: "queues_valid g ms" "units_ok (lseRegistry ms) ps" "held ms = mset_set (flights (lseRegistry ms) ps)"
    using assms(1) by (simp_all add: flights_inv_def)
  obtain i where i: "i < length (lseRegistry ms)" "lseRegistry ms ! i = p" using assms(2) by (metis in_set_conv_nth)
  have p: "p < length ps" "marks_ok i (snd (ps ! p))" "distinct (lseRegistry ms)" using I(2) i by (auto simp: units_ok_def)
  obtain cid l where l: "ps ! p = (cid, l)" by fastforce
  from assms(3) p(1) l obtain v r where pk: "peekReqQueue cid l = Inr (v, r)" by (auto simp: visit_lse_def rbind_Inr_iff)
  show ?thesis
  proof (cases v)
    case False
    with assms p(1) l pk show ?thesis by (simp add: visit_lse_def)
  next
    case True
    note P = peekReqQueue_Inr [OF pk True]
    note S = marks_ok_nth [OF p(2) [unfolded l snd_conv], of "cid - 1"]
    from assms(3) p(1) l pk True obtain ok r' ms1 where t: "take_req g r ms = Inr (ok, r', ms1)" by (auto simp: visit_lse_def rbind_Inr_iff)
    have r: "m_valid r" "m_lseId r = i" using S P by simp_all
    note T = take_req_held [OF I(1) r(1) t]
    have r': "m_lseId r' = i" "m_lseReqQueueIndex r' = m_lseReqQueueIndex r" using T(1) r(2) by (simp_all add: slot_def)
    show ?thesis
    proof (cases ok)
      case True
      with assms(3) p(1) l pk \<open>v\<close> t T(3) r' i obtain l' where l': "setInflight cid r' l = Inr l'" "ms' = ms1" "ps' = ps[p := (cid, l')]"
        by (auto simp: visit_lse_def rbind_Inr_iff)
      from setInflight_flights [OF I(2) i(1) l [folded i(2)] _ _ _ _ l'(1)] P r'(2)
      have "units_ok (lseRegistry ms) ps'" "flights (lseRegistry ms) ps' = insert (slot r) (flights (lseRegistry ms) ps)"
        "slot r \<notin> flights (lseRegistry ms) ps" by (simp_all add: l'(3) i(2) slot_def r(2))
      then show ?thesis using T True I(3) by (simp add: l'(2) flights_inv_def)
    next
      case False
      with assms(3) p(1) l pk \<open>v\<close> t have e: "ms' = ms1" "ps' = ps[p := (cid, l\<lparr>memReqBlockCnt := memReqBlockCnt l + 1\<rparr>)]"
        by (auto simp: visit_lse_def rbind_Inr_iff)
      have "marks_ok i (l\<lparr>memReqBlockCnt := memReqBlockCnt l + 1\<rparr>)" using p(2) l by (simp add: marks_ok_def)
      then have "units_ok (lseRegistry ms) ps'" using units_ok_update [OF I(2) i(1)] by (simp add: e(2) i(2))
      moreover have "flights (lseRegistry ms) ps' = flights (lseRegistry ms) ps"
        unfolding flights_def e(2) using p(1) l by (auto simp: nth_list_update split: if_splits)
      ultimately show ?thesis using T False I(3) by (simp add: e(1) flights_inv_def)
    qed
  qed
qed

section \<open>From the recorders to the queues\<close>

text \<open>The recorded requests that are not passed to the coalescer.\<close>

definition unshared :: "memSystem \<Rightarrow> memReq multiset" where
  "unshared ms = mset (concat (map (\<lambda>e. if br_valid e \<and> br_hasRegisteredCoalescer e then [] else br_reqQueue e) (bankRecorder ms)))"

definition sending :: "memSystem \<Rightarrow> (nat \<times> nat) multiset" where
  "sending ms = image_mset slot (unshared ms) + singles (queued ms) + image_mset slot (coalesced_reqs (ms_coalescer ms))"

lemma send_coalesced_sending:
  assumes "queues_valid g ms" "send_coalesced g ms = Inr ms'"
  shows "queues_valid g ms' \<and> lseRegistry ms' = lseRegistry ms \<and> bankRecorder ms' = bankRecorder ms \<and> sending ms' = held ms"
proof -
  let ?f = "\<lambda>entry ms. if br_valid entry \<and> br_hasRegisteredCoalescer entry
       then rbind (send2Coalescer g (br_addrTag entry) (br_reqQueue entry) (ms_coalescer ms)) (\<lambda>co. Inr (ms\<lparr>ms_coalescer := co\<rparr>)) else Inr ms"
  have "\<exists>co. t' = t\<lparr>ms_coalescer := co\<rparr> \<and> coalesced_reqs co = coalesced_reqs (ms_coalescer t)
      + mset (concat (map (\<lambda>e. if br_valid e \<and> br_hasRegisteredCoalescer e then br_reqQueue e else []) es))"
    if "rfold ?f es t = Inr t'" for es :: "bankRecorderEntry list" and t t' :: memSystem
    using that
  proof (induction es arbitrary: t)
    case Nil
    then show ?case by (intro exI [of _ "ms_coalescer t"]) simp
  next
    case (Cons e es)
    show ?case
    proof (cases "br_valid e \<and> br_hasRegisteredCoalescer e")
      case False
      have "rfold ?f es t = Inr t'" using Cons.prems unfolding rfold.simps if_not_P [OF False] rbind.simps .
      from Cons.IH [OF this] False show ?thesis by auto
    next
      case True
      with Cons.prems obtain co where co: "send2Coalescer g (br_addrTag e) (br_reqQueue e) (ms_coalescer t) = Inr co"
        "rfold ?f es (t\<lparr>ms_coalescer := co\<rparr>) = Inr t'" by (auto simp: rbind_Inr_iff)
      have "coalesced_reqs co = coalesced_reqs (ms_coalescer t) + mset (br_reqQueue e)"
        using co(1) by (auto simp: send2Coalescer_def coalesced_reqs_def split: if_splits)
      with Cons.IH [OF co(2)] True show ?thesis by (auto simp: ac_simps)
    qed
  qed
  from this [OF assms(2) [unfolded send_coalesced_def]] obtain co where co: "ms' = ms\<lparr>ms_coalescer := co\<rparr>"
    "coalesced_reqs co = coalesced_reqs (ms_coalescer ms)
      + mset (concat (map (\<lambda>e. if br_valid e \<and> br_hasRegisteredCoalescer e then br_reqQueue e else []) (bankRecorder ms)))" by blast
  have "mset (concat (map br_reqQueue es)) = mset (concat (map (\<lambda>e. if br_valid e \<and> br_hasRegisteredCoalescer e then [] else br_reqQueue e) es))
      + mset (concat (map (\<lambda>e. if br_valid e \<and> br_hasRegisteredCoalescer e then br_reqQueue e else []) es))" for es :: "bankRecorderEntry list"
    by (induction es) auto
  then have "recorded ms = unshared ms + mset (concat (map (\<lambda>e. if br_valid e \<and> br_hasRegisteredCoalescer e then br_reqQueue e else []) (bankRecorder ms)))"
    unfolding recorded_def unshared_def .
  then show ?thesis using assms(1)
    by (simp add: co sending_def held_def queues_valid_def queued_def in_cache_def unshared_def)
qed

lemma send_bank_sending:
  assumes "queues_valid g ms" "i < length (bankRecorder ms)" "send_bank g i ms = Inr ms'"
  shows "queues_valid g ms' \<and> lseRegistry ms' = lseRegistry ms \<and> sending ms' = sending ms
    \<and> (\<exists>e. bankRecorder ms' = (bankRecorder ms)[i := e] \<and> \<not> br_valid e)"
proof (cases "br_valid (bankRecorder ms ! i)")
  case False
  with assms show ?thesis by (auto simp: send_bank_def Let_def intro!: exI [of _ "bankRecorder ms ! i"])
next
  case True
  let ?e = "bankRecorder ms ! i"
  let ?e' = "?e\<lparr>br_valid := False, br_hasRegisteredCoalescer := False, br_reqQueue := []\<rparr>"
  have ok: "recorder_ok ?e" using assms(1,2) by (simp add: queues_valid_def)
  then obtain r q where r: "br_reqQueue ?e = r # q" "m_valid r" using True by (cases "br_reqQueue ?e") (auto simp: recorder_ok_def)
  let ?r = "r\<lparr>m_coalesced := br_hasRegisteredCoalescer ?e\<rparr>"
  from assms(3) True r(1) obtain ms1 where 1: "memSys_addTransaction g ?r ms = Inr (True, ms1)" "ms' = resetBankRecorder i ms1"
    by (auto simp: send_bank_def Let_def rbind_Inr_iff memSys_addTransaction_def split: if_splits)
  then obtain b where b: "b < length (ms_reqQueue ms)" "ms1 = ms\<lparr>ms_reqQueue := (ms_reqQueue ms)[b := ms_reqQueue ms ! b @ [?r]]\<rparr>"
    by (auto simp: memSys_addTransaction_def rbind_Inr_iff rnth_Inr_iff split: if_splits)
  have ms': "ms' = ms\<lparr>ms_reqQueue := (ms_reqQueue ms)[b := ms_reqQueue ms ! b @ [?r]], bankRecorder := (bankRecorder ms)[i := ?e']\<rparr>"
    by (simp add: 1(2) b(2) resetBankRecorder_def)
  let ?u = "\<lambda>e. if br_valid e \<and> br_hasRegisteredCoalescer e then [] else br_reqQueue e"
  have u: "unshared ms' + mset (?u ?e) = unshared ms"
    using mset_concat_update [of i "map ?u (bankRecorder ms)" "[]"] assms(2) by (simp add: unshared_def ms' map_update)
  have "queues_valid g ms'"
  proof -
    have "set (concat ((ms_reqQueue ms)[b := ms_reqQueue ms ! b @ [?r]])) = insert ?r (set (concat (ms_reqQueue ms)))"
      using concat_add [OF b(1), of ?r] by (metis set_mset_mset set_mset_add_mset_insert)
    moreover have "recorder_ok ?e'" by (simp add: recorder_ok_def)
    ultimately show ?thesis
      using assms(1) r(2) set_update_subset_insert [of "bankRecorder ms" i ?e'] unfolding queues_valid_def ms' by auto
  qed
  moreover have "image_mset slot (unshared ms') + singles (queued ms') = image_mset slot (unshared ms) + singles (queued ms)"
  proof (cases "br_hasRegisteredCoalescer ?e")
    case reg: True
    with u True have "unshared ms' = unshared ms" by simp
    then show ?thesis using reg by (simp add: ms' queued_def in_cache_def concat_add b(1))
  next
    case False
    then have "q = []" using ok True r(1) by (simp add: recorder_ok_def)
    with u False r(1) have "unshared ms = add_mset r (unshared ms')" by simp
    then show ?thesis using False by (simp add: ms' queued_def in_cache_def concat_add b(1))
  qed
  moreover have "bankRecorder ms' = (bankRecorder ms)[i := ?e'] \<and> \<not> br_valid ?e'" by (simp add: ms')
  ultimately show ?thesis by (auto simp: sending_def ms')
qed

lemma send_banks_sending:
  assumes "rfold (send_bank g) is ms = Inr ms'" "queues_valid g ms" "set is \<subseteq> {..<length (bankRecorder ms)}"
  shows "queues_valid g ms' \<and> lseRegistry ms' = lseRegistry ms \<and> sending ms' = sending ms \<and> length (bankRecorder ms') = length (bankRecorder ms)
    \<and> (\<forall>i<length (bankRecorder ms). br_valid (bankRecorder ms' ! i) \<longrightarrow> i \<notin> set is \<and> br_valid (bankRecorder ms ! i))"
  using assms
proof (induction "is" arbitrary: ms)
  case (Cons i "is")
  then obtain ms1 where 1: "send_bank g i ms = Inr ms1" "rfold (send_bank g) is ms1 = Inr ms'" by (auto simp: rbind_Inr_iff)
  obtain e where e: "queues_valid g ms1" "lseRegistry ms1 = lseRegistry ms" "sending ms1 = sending ms"
    "bankRecorder ms1 = (bankRecorder ms)[i := e]" "\<not> br_valid e"
    using send_bank_sending [OF Cons.prems(2) _ 1(1)] Cons.prems(3) by auto
  from Cons.IH [OF 1(2) e(1)] Cons.prems(3) have IH: "queues_valid g ms' \<and> lseRegistry ms' = lseRegistry ms1 \<and> sending ms' = sending ms1
    \<and> length (bankRecorder ms') = length (bankRecorder ms1)
    \<and> (\<forall>i<length (bankRecorder ms1). br_valid (bankRecorder ms' ! i) \<longrightarrow> i \<notin> set is \<and> br_valid (bankRecorder ms1 ! i))"
    by (simp add: e(4))
  have "j \<noteq> i \<and> br_valid (bankRecorder ms ! j)" if "j < length (bankRecorder ms)" "br_valid ((bankRecorder ms)[i := e] ! j)" for j
    using that e(5) by (cases "j = i") simp_all
  with IH show ?case using e(2,3) by (auto simp: e(4))
qed simp

lemma sending_done:
  assumes "queues_valid g ms" "\<forall>i<length (bankRecorder ms). \<not> br_valid (bankRecorder ms ! i)"
  shows "held ms = sending ms"
proof -
  have "\<forall>e\<in>set (bankRecorder ms). \<not> br_valid e" using assms(2) by (metis in_set_conv_nth)
  then have "map (\<lambda>e. if br_valid e \<and> br_hasRegisteredCoalescer e then [] else br_reqQueue e) (bankRecorder ms) = map br_reqQueue (bankRecorder ms)"
    by simp
  then have "unshared ms = recorded ms" unfolding unshared_def recorded_def by (simp only:)
  then show ?thesis by (simp add: held_def sending_def)
qed

lemma getLseReq_flights:
  assumes "flights_inv g ms ps" "getLseReq g b (ms, ps) = Inr (ms', ps')"
  shows "flights_inv g ms' ps' \<and> lseRegistry ms' = lseRegistry ms"
proof -
  let ?n = "length (lseReqTable ms)"
  have tab: "lseReqTable ms = lseRegistry ms" using assms(1) by (simp add: flights_inv_def queues_valid_def)
  from assms(2) obtain ms1 where r: "rfold (visit_lse g) (map (\<lambda>i. lseReqTable ms ! i) (probes ?n [0..<?n] (reqQueueWritePtr ms))) (ms, ps) = Inr (ms1, ps')"
    and k: "if b then \<exists>ms2 ms3. send_coalesced g (ms1\<lparr>reqQueueWritePtr := (reqQueueWritePtr ms1 + 1) mod ?n\<rparr>) = Inr ms2
        \<and> rfold (send_bank g) [0..<length (bankRecorder ms2)] ms2 = Inr ms3
        \<and> ms' = ms3\<lparr>coalescerFreeEntryNum := memSys_coalescer_entry_num g - getCoalescerOccupiedEntryNum (ms_coalescer ms3)\<rparr>
      else ms' = ms1\<lparr>reqQueueWritePtr := (reqQueueWritePtr ms1 + 1) mod ?n\<rparr>"
    by (auto simp: getLseReq_def Let_def rbind_Inr_iff split: if_splits prod.splits)
  have "(\<lambda>(ms', ps'). flights_inv g ms' ps' \<and> lseRegistry ms' = lseRegistry ms) (ms1, ps')"
  proof (rule rfold_partial [OF r])
    fix x t t'
    assume x: "x \<in> set (map (\<lambda>i. lseReqTable ms ! i) (probes ?n [0..<?n] (reqQueueWritePtr ms)))"
      and t: "case t of (ms', ps') \<Rightarrow> flights_inv g ms' ps' \<and> lseRegistry ms' = lseRegistry ms" "visit_lse g x t = Inr t'"
    obtain k where "k < ?n" "x = lseReqTable ms ! ((reqQueueWritePtr ms + tri k) mod ?n)" using x by (auto simp: set_probes)
    then have "x \<in> set (lseReqTable ms)" by (cases ?n) simp_all
    moreover obtain ms1 ps1 ms2 ps2 where tt: "t = (ms1, ps1)" "t' = (ms2, ps2)" by (metis surj_pair)
    ultimately show "case t' of (ms', ps') \<Rightarrow> flights_inv g ms' ps' \<and> lseRegistry ms' = lseRegistry ms"
      using visit_lse_flights [of g ms1 ps1 x ms2 ps2] t by (simp add: tt tab)
  qed (use assms(1) in simp)
  then have 1: "flights_inv g ms1 ps'" "lseRegistry ms1 = lseRegistry ms" by simp_all
  define ms2 where "ms2 = ms1\<lparr>reqQueueWritePtr := (reqQueueWritePtr ms1 + 1) mod ?n\<rparr>"
  have 2: "flights_inv g ms2 ps'"
    using 1 by (simp add: ms2_def flights_inv_def queues_valid_def held_def recorded_def queued_def in_cache_def)
  show ?thesis
  proof (cases b)
    case False
    then show ?thesis using k 2 1(2) by (simp add: ms2_def)
  next
    case True
    with k obtain ms3 ms4 where s: "send_coalesced g ms2 = Inr ms3" "rfold (send_bank g) [0..<length (bankRecorder ms3)] ms3 = Inr ms4"
      "ms' = ms4\<lparr>coalescerFreeEntryNum := memSys_coalescer_entry_num g - getCoalescerOccupiedEntryNum (ms_coalescer ms4)\<rparr>"
      by (auto simp: ms2_def)
    have q: "queues_valid g ms2" using 2 by (simp add: flights_inv_def)
    note C = send_coalesced_sending [OF q s(1)]
    then have C': "queues_valid g ms3" by simp
    have "set [0..<length (bankRecorder ms3)] \<subseteq> {..<length (bankRecorder ms3)}" by auto
    note B = send_banks_sending [OF s(2) C' this]
    then have "held ms4 = sending ms4" by (intro sending_done) auto
    with B C have "held ms' = held ms2" "queues_valid g ms'" "lseRegistry ms' = lseRegistry ms2"
      by (auto simp: s(3) held_def recorded_def queued_def in_cache_def queues_valid_def)
    then show ?thesis using 2 1(2) by (simp add: flights_inv_def ms2_def)
  qed
qed

section \<open>The memory system\<close>

lemma memSystemUpdate_flights:
  assumes "flights_inv g ms ps" "memSystemUpdate g k d (ms, ps, m) = Inr (ms', ps', m')"
  shows "flights_inv g ms' ps' \<and> lseRegistry ms' = lseRegistry ms"
proof -
  from assms(2) obtain ms1 ps1 where 1: "sendBack2Lse g (clk k) (ms, ps) = Inr (ms1, ps1)"
    by (cases "sendBack2Lse g (clk k) (ms, ps)") (auto simp: memSystemUpdate_def)
  define X where "X = (if checkClkAdd k
            then rbind (if cache_enable g then getFromCache g ms1 else Inr ms1) (\<lambda>ms.
                 rbind (returnReqAck g ms) (\<lambda>ms.
                 case memoryDataBusUpdate (memDataBus ms) of (acks, bus) \<Rightarrow>
                 rbind (dramUpdate d (getReqAckFromMemoryDataBus acks (ms\<lparr>memDataBus := bus\<rparr>), m))
                   (memSys_onchip g (checkClkAdd k) d)))
            else Inr (ms1, m))"
  from assms(2) obtain ms4 where 2: "X = Inr (ms4, m')" and 3: "getLseReq g (checkClkAdd k) (ms4, ps1) = Inr (ms', ps')"
    unfolding memSystemUpdate_def prod.case 1 rbind.simps X_def [symmetric] by (cases X) (auto simp: rbind_Inr_iff)
  note B = sendBack2Lse_flights [OF assms(1) 1]
  then have q: "queues_valid g ms1" by (simp add: flights_inv_def)
  have P: "path_ok g ms1 ms4"
  proof (cases "checkClkAdd k")
    case False
    with 2 q show ?thesis by (simp add: X_def path_ok_refl)
  next
    case True
    let ?acks = "\<lambda>ms. fst (memoryDataBusUpdate (memDataBus ms))" and ?bus = "\<lambda>ms. snd (memoryDataBusUpdate (memDataBus ms))"
    from 2 True obtain ms2 ms3 ms5 m5 where s: "(if cache_enable g then getFromCache g ms1 else Inr ms1) = Inr ms2"
      "returnReqAck g ms2 = Inr ms3"
      "dramUpdate d (ms3\<lparr>memDataBus := ?bus ms3, reqAckStack := reqAckStack ms3 @ ?acks ms3\<rparr>, m) = Inr (ms5, m5)"
      "memSys_onchip g (checkClkAdd k) d (ms5, m5) = Inr (ms4, m')"
      by (auto simp: X_def rbind_Inr_iff case_prod_beta getReqAckFromMemoryDataBus_def)
    have p2: "path_ok g ms1 ms2"
      using s(1) getFromCache_path [OF q] path_ok_refl [OF q] by (cases "cache_enable g") auto
    note p3 = returnReqAck_path [OF path_ok_valid [OF p2] s(2)]
    note p4 = path_ok_other(5) [OF path_ok_valid [OF p3]]
    note p5 = dramUpdate_path [OF path_ok_valid [OF p4] s(3)]
    note p6 = memSys_onchip_path [OF path_ok_valid [OF p5] s(4)]
    show ?thesis using p2 p3 p4 p5 p6 by (meson path_ok_trans)
  qed
  have "flights_inv g ms4 ps1" using path_ok_flights [OF P] B by blast
  from getLseReq_flights [OF this 3] P B show ?thesis by (simp add: path_ok_def)
qed

text \<open>The units register one after the other.\<close>

definition registered :: "nat list \<Rightarrow> memSystem \<Rightarrow> memSystem" where
  "registered = fold (\<lambda>p ms. snd (registerLse p ms))"

lemma registered_fields: "registered reg ms = ms\<lparr>lseRegistry := lseRegistry ms @ reg, lseReqTable := lseReqTable ms @ reg\<rparr>"
  unfolding registered_def by (induction reg arbitrary: ms) (simp_all add: registerLse_def Let_def)

lemma new_flights:
  assumes "memSystem_new g hz rs = Inr ms" "\<forall>p\<in>set (a_levels g). 0 < a_bankNum p \<and> 0 < fst (a_mshrPara p)"
    and "units_ok reg ps" "flights reg ps = {}"
  shows "flights_inv g (registered reg ms) ps"
proof -
  have rep: "concat (replicate n []) = []" "\<forall>e\<in>set (resize n bankRecorderEntry0 (if b then resize n' bankRecorderEntry0 [] else [])). e = bankRecorderEntry0"
    for n n' b by (auto simp: resize_def dest: in_set_takeD)
  from assms(1) have f: "lseRegistry ms = []" "lseReqTable ms = []" "ms_reqQueue ms = replicate (memSystem_queue_bank_num g) []"
    "ms_ackQueue ms = replicate (memSystem_queue_bank_num g) []" "coalesced_reqs (ms_coalescer ms) = {#}"
    by (auto simp: memSystem_new_def rbind_Inr_iff)
  have r: "\<forall>e\<in>set (bankRecorder ms). e = bankRecorderEntry0"
    using assms(1) by (auto simp: memSystem_new_def rbind_Inr_iff resize_def Let_def split: if_splits dest: in_set_takeD)
  then have rq: "\<forall>e\<in>set (bankRecorder ms). br_reqQueue e = [] \<and> recorder_ok e" by (auto simp: bankRecorderEntry0_def recorder_ok_def)
  have c: "server_inv g c \<and> client_pending c = {#}" if "ms_cache ms = Some c" for c
    using assms(1,2) that by (auto simp: memSystem_new_def rbind_Inr_iff split: if_splits dest: cache_init_ok)
  from rq have "concat (map br_reqQueue (bankRecorder ms)) = []" by simp
  then have "held (registered reg ms) = {#}" using c
    by (cases "ms_cache ms") (simp_all add: registered_fields held_def recorded_def queued_def in_cache_def f rep)
  then show ?thesis
    using c rq assms(3,4) by (simp add: flights_inv_def queues_valid_def registered_fields f rep)
qed

end
