(* ===== verification/UnitMarks.thy ===== *)
theory UnitMarks
  imports LsePipe MemSystemFlights
begin

text \<open>
  What the operations of a load/store unit (\<open>module/execution/Lse.cpp\<close>) do to the marks on which the memory
  system relies: a unit keeps them unless one of its instances takes up the request that another one still offers, which is
  then sent twice.
\<close>

section \<open>One call of a unit\<close>

definition in_flight :: "lse \<Rightarrow> bool list" where
  "in_flight l = map (m_inflight \<circ> fst) (lse_reqQueue l)"

text \<open>The request that the instance \<open>cid\<close> may take up next is not still offered by another instance.\<close>

definition clash_free :: "nat \<Rightarrow> lse \<Rightarrow> bool" where
  "clash_free cid l \<longleftrightarrow> (\<forall>a<length (suspendReqVec l). a \<noteq> cid - 1 \<and> fst (suspendReqVec l ! a)
     \<longrightarrow> m_lseReqQueueIndex (snd (suspendReqVec l ! a)) \<noteq> sendMemPtr l)"

lemma one_instance_clash_free: "length (suspendReqVec l) = 1 \<Longrightarrow> cid = 1 \<Longrightarrow> clash_free cid l"
  by (simp add: clash_free_def)

lemma clash_free_cong: "suspendReqVec l' = suspendReqVec l \<Longrightarrow> sendMemPtr l' = sendMemPtr l \<Longrightarrow> clash_free cid l' = clash_free cid l"
  by (simp add: clash_free_def)

definition unit_keeps :: "nat \<Rightarrow> chan \<Rightarrow> chan \<Rightarrow> bool" where
  "unit_keeps i c c' \<longleftrightarrow> (\<exists>l l'. sub c = ChanLse l \<and> sub c' = ChanLse l' \<and> (marks_ok i l \<longrightarrow> marks_ok i l' \<and> in_flight l' = in_flight l))"

lemma unit_keeps_refl: "sub c = ChanLse l \<Longrightarrow> sub c' = ChanLse l \<Longrightarrow> unit_keeps i c c'"
  by (simp add: unit_keeps_def)

lemma unit_keeps_trans: "unit_keeps i c c' \<Longrightarrow> unit_keeps i c' c'' \<Longrightarrow> unit_keeps i c c''"
  by (auto simp: unit_keeps_def)

lemma slot_marks: "marks_ok i l \<Longrightarrow> k < length (lse_reqQueue l) \<Longrightarrow> lse_reqQueue l ! k = (s, d) \<Longrightarrow> slot_ok i s"
  by (auto simp: marks_ok_def)

lemma in_flight_update: "k < length (lse_reqQueue l) \<Longrightarrow> lse_reqQueue l ! k = (s, d) \<Longrightarrow> m_inflight s' = m_inflight s
    \<Longrightarrow> lse_reqQueue l' = (lse_reqQueue l)[k := (s', d')] \<Longrightarrow> in_flight l' = in_flight l"
  by (simp add: in_flight_def map_update list_update_same_conv)

text \<open>One slot is written, and no request that may be suspended stops waiting.\<close>

text \<open>An instance takes up the request of a slot that waits and is not suspended.\<close>

lemma marks_ok_suspend:
  assumes "marks_ok i l" "lse_reqQueue l' = lse_reqQueue l" "suspendReqVec l' = (suspendReqVec l)[b := (True, r)]" "lseId l' = lseId l"
    and "m_valid r" "m_lseId r = i" "m_lseReqQueueIndex r < length (lse_reqQueue l)" "waits (fst (lse_reqQueue l ! m_lseReqQueueIndex r))"
    and "\<forall>a<length (suspendReqVec l). fst (suspendReqVec l ! a) \<longrightarrow> m_lseReqQueueIndex (snd (suspendReqVec l ! a)) \<noteq> m_lseReqQueueIndex r"
    and "b < length (suspendReqVec l)"
  shows "marks_ok i l'"
  using assms unfolding marks_ok_def by (auto simp: nth_list_update Let_def)

lemma marks_slot:
  assumes "marks_ok i l" "k < length (lse_reqQueue l)" "lse_reqQueue l ! k = (s, d)" "slot_ok i s'" "m_inflight s' = m_inflight s"
    and "lse_reqQueue l' = (lse_reqQueue l)[k := (s', d')]" "suspendReqVec l' = suspendReqVec l" "lseId l' = lseId l"
    and "waits s' \<or> \<not> waits s \<or> (\<forall>a<length (suspendReqVec l). fst (suspendReqVec l ! a) \<longrightarrow> m_lseReqQueueIndex (snd (suspendReqVec l ! a)) \<noteq> k)"
  shows "marks_ok i l' \<and> in_flight l' = in_flight l"
proof -
  have "marks_ok i l'" by (rule marks_ok_slot [OF assms(1,4,6,7,8)]) (use assms(2,3,9) in auto)
  then show ?thesis using in_flight_update [OF assms(2,3,5,6)] by simp
qed

lemma select_keeps:
  assumes "lse_select g now br cid l = Inr l'" "marks_ok i l" "clash_free cid l"
  shows "marks_ok i l' \<and> in_flight l' = in_flight l"
proof (cases "fst (suspendReqVec l ! (cid - 1))")
  case True
  with assms show ?thesis by (auto simp: lse_select_def split: if_splits)
next
  case False
  let ?k = "sendMemPtr l"
  have cid: "0 < cid" "cid - 1 < length (suspendReqVec l)" using assms(1) by (auto simp: lse_select_def split: if_splits)
  have free: "\<forall>a<length (suspendReqVec l). fst (suspendReqVec l ! a) \<longrightarrow> m_lseReqQueueIndex (snd (suspendReqVec l ! a)) \<noteq> ?k"
    using assms(3) False by (auto simp: clash_free_def)
  show ?thesis
  proof (cases "l' = l")
    case True
    then show ?thesis using assms(2) by simp
  next
    case ne: False
    with assms(1) False cid obtain r d where k: "?k < length (lse_reqQueue l)" "lse_reqQueue l ! ?k = (r, d)" "waits r"
      by (auto simp: lse_select_def rbind_Inr_iff rnth_Inr_iff waits_def split: if_splits prod.splits)
    have ok: "slot_ok i r" by (rule slot_marks [OF assms(2) k(1,2)])
    let ?r = "r\<lparr>m_lseReqQueueIndex := ?k\<rparr>"
    show ?thesis
    proof (cases "no_memory g \<or> noLatencyMode l \<or> br \<and> \<not> d_cond d")
      case True
      have q: "lse_reqQueue l' = (lse_reqQueue l)[?k := (?r\<lparr>m_ready := True, m_inflight := False\<rparr>, d)]"
        "suspendReqVec l' = suspendReqVec l" "lseId l' = lseId l"
        using assms(1) False cid k True ne
        by (auto simp: lse_select_def rbind_Inr_iff waits_def Let_def ackCallback_def updateMemAccessRecord_def split: if_splits)
      show ?thesis
        by (rule marks_slot [OF assms(2) k(1,2) _ _ q]) (use ok k(3) free in \<open>auto simp: slot_ok_def waits_def\<close>)
    next
      case mem: False
      have q: "lse_reqQueue l' = (lse_reqQueue l)[?k := (?r, d)]"
        "suspendReqVec l' = (suspendReqVec l)[cid - 1 := (True, ?r)]" "lseId l' = lseId l"
        using assms(1) False cid k mem ne
        by (auto simp: lse_select_def rbind_Inr_iff waits_def Let_def split: if_splits)
      define l1 where "l1 = l\<lparr>lse_reqQueue := (lse_reqQueue l)[?k := (?r, d)]\<rparr>"
      have 1: "marks_ok i l1 \<and> in_flight l1 = in_flight l"
        by (rule marks_slot [OF assms(2) k(1,2), of ?r]) (use ok k(3) in \<open>auto simp: slot_ok_def waits_def l1_def\<close>)
      have r: "waits ?r" "m_valid ?r" "m_lseId ?r = i" using k(3) ok by (auto simp: waits_def slot_ok_def)
      have "marks_ok i l'"
      proof (rule marks_ok_suspend [of i l1 l' "cid - 1" ?r])
        show "marks_ok i l1" using 1 by blast
      qed (use q r k(1) cid free in \<open>simp_all add: l1_def\<close>)
      then show ?thesis using 1 by (simp add: q l1_def in_flight_def)
    qed
  qed
qed

lemma pushChannel_keeps:
  assumes "lse_pushChannel g now c = Inr c'" "sub c = ChanLse l" "sendChanPtr l < length (lse_reqQueue l)"
  shows "unit_keeps i c c'"
proof -
  obtain r d where k: "lse_reqQueue l ! sendChanPtr l = (r, d)" by fastforce
  have "sub c' = ChanLse l \<or> (\<exists>l'. m_valid r \<and> m_ready r \<and> sub c' = ChanLse l'
     \<and> lse_reqQueue l' = (lse_reqQueue l)[sendChanPtr l := (r\<lparr>m_hasPushChan := True\<rparr>, d\<lparr>d_cycle := now\<rparr>)]
     \<and> suspendReqVec l' = suspendReqVec l \<and> lseId l' = lseId l)"
    using assms k by (auto simp: lse_pushChannel_def Let_def lse_send_def split: if_splits)
  then show ?thesis
  proof (elim disjE exE conjE)
    fix l' assume v: "m_valid r" "m_ready r" and l': "sub c' = ChanLse l'"
      "lse_reqQueue l' = (lse_reqQueue l)[sendChanPtr l := (r\<lparr>m_hasPushChan := True\<rparr>, d\<lparr>d_cycle := now\<rparr>)]"
      "suspendReqVec l' = suspendReqVec l" "lseId l' = lseId l"
    have "marks_ok i l' \<and> in_flight l' = in_flight l" if one: "marks_ok i l"
    proof -
      have "slot_ok i r" by (rule slot_marks [OF one assms(3) k])
      then show ?thesis
        by (intro marks_slot [OF one assms(3) k _ _ l'(2-4)]) (use v in \<open>auto simp: slot_ok_def waits_def\<close>)
    qed
    then show ?thesis using assms(2) l'(1) by (simp add: unit_keeps_def)
  qed (use assms(2) in \<open>simp add: unit_keeps_def\<close>)
qed

lemma enqueue_keeps:
  assumes "enqueue g f d c = Inr c'" "sub c = ChanLse l"
  shows "unit_keeps i c c'"
proof -
  from assms obtain r e where k: "pushQueuePtr l < length (lse_reqQueue l)" "lse_reqQueue l ! pushQueuePtr l = (r, e)"
    by (auto simp: enqueue_def Let_def rbind_Inr_iff rnth_Inr_iff split: prod.splits)
  show ?thesis
  proof (cases "m_valid r")
    case True
    with assms k show ?thesis by (auto simp: enqueue_def Let_def unit_keeps_def)
  next
    case False
    with assms k obtain l' s d' where l': "sub c' = ChanLse l'" "lse_reqQueue l' = (lse_reqQueue l)[pushQueuePtr l := (s, d')]"
      "suspendReqVec l' = suspendReqVec l" "lseId l' = lseId l" "m_valid s" "\<not> m_inflight s" "\<not> m_ready s" "\<not> m_hasPushChan s" "m_lseId s = lseId l"
      by (auto simp: enqueue_def Let_def rbind_Inr_iff memReq0_def dest!: popChanBuffer_Inr split: if_splits)
    have "marks_ok i l' \<and> in_flight l' = in_flight l" if one: "marks_ok i l"
    proof -
      have "slot_ok i r" "lseId l = i" using slot_marks [OF one k] one by (simp_all add: marks_ok_def)
      then show ?thesis
        by (intro marks_slot [OF one k _ _ l'(2-4)]) (use l' False in \<open>auto simp: slot_ok_def waits_def\<close>)
    qed
    then show ?thesis using assms(2) l'(1) by (simp add: unit_keeps_def)
  qed
qed

text \<open>Taking a request into the queue suspends none.\<close>

lemma enqueue_suspends:
  assumes "enqueue g f d c = Inr c'" "sub c = ChanLse l"
  shows "\<exists>l'. sub c' = ChanLse l' \<and> suspendReqVec l' = suspendReqVec l \<and> sendMemPtr l' = sendMemPtr l \<and> currId c' = currId c"
  using assms by (auto simp: enqueue_def Let_def rbind_Inr_iff dest!: popChanBuffer_Inr split: if_splits prod.splits)

lemma pop_keeps:
  assumes "lse_pop c l = Inr c'" "sub c = ChanLse l" "unit_ok g c ins outs"
  shows "unit_keeps i c c'"
proof (cases "ch_valid c")
  case False
  with assms show ?thesis by (simp add: lse_pop_def unit_keeps_def)
next
  case True
  from assms(2,3) obtain r where ring: "ring (slots l) (channel c) ins outs r" by (auto simp: unit_ok_def)
  from assms(1) True obtain f ch where ch: "channel c = f # ch" by (cases "channel c") (auto simp: lse_pop_def)
  let ?k = "d_lseReqQueueIndex f"
  from assms(1) True ch obtain s d where k: "?k < length (lse_reqQueue l)" "lse_reqQueue l ! ?k = (s, d)"
    by (auto simp: lse_pop_def Let_def rbind_Inr_iff rnth_Inr_iff split: prod.splits)
  with assms(1) True ch obtain l' where l': "sub c' = ChanLse l'" "lse_reqQueue l' = (lse_reqQueue l)[?k := (s\<lparr>m_valid := False\<rparr>, d\<lparr>d_valid := False\<rparr>)]"
    "suspendReqVec l' = suspendReqVec l" "lseId l' = lseId l"
    by (auto simp: lse_pop_def Let_def rbind_Inr_iff split: if_splits prod.splits)
  have "length outs < r" using ringD(2,6) [OF ring] ch by (cases "length outs < r") auto
  then have "fst (slots l ! ?k) \<and> fst (snd (snd (slots l ! ?k)))"
    using ring_used [OF ring, of "length outs"] ring_pop(1) [OF ring [unfolded ch]] ringD(3) [OF ring] by auto
  then have s: "m_valid s" "m_hasPushChan s" using slots_nth [OF k] by simp_all
  have "marks_ok i l' \<and> in_flight l' = in_flight l" if one: "marks_ok i l"
  proof -
    have "slot_ok i s" by (rule slot_marks [OF one k])
    then show ?thesis
      by (intro marks_slot [OF one k _ _ l'(2-4)]) (use s in \<open>auto simp: slot_ok_def waits_def\<close>)
  qed
  then show ?thesis using assms(2) l'(1) by (simp add: unit_keeps_def)
qed

lemma pushReqQ_keeps:
  assumes "pushReqQ g now p h = Inr h'" "p < length h" "sub (h ! p) = ChanLse l"
  shows "unit_keeps i (h ! p) (h' ! p)" "p < length h'"
    "\<exists>l'. sub (h' ! p) = ChanLse l' \<and> suspendReqVec l' = suspendReqVec l \<and> sendMemPtr l' = sendMemPtr l \<and> currId (h' ! p) = currId (h ! p)"
proof -
  from assms(1,2) obtain f fs h1 where fs: "(if d_last (request_data now f fs) then sendLastTag p h else Inr h) = Inr h1"
      "modify p (enqueue g f (request_data now f fs)) h1 = Inr h'"
    by (auto simp: pushReqQ_def rbind_Inr_iff deref_Inr_iff Let_def)
  have t: "same_but_tags h h1" using fs(1) sendLastTag_same by (auto simp: same_but_tags_def split: if_splits)
  obtain t where tags: "h1 ! p = (h ! p)\<lparr>lastTagQueue := t\<rparr>" using same_but_tags_nth(2) [OF t assms(2)] by blast
  then have s: "sub (h1 ! p) = ChanLse l" using assms(3) by simp
  from fs(2) obtain c where c: "p < length h1" "enqueue g f (request_data now f fs) (h1 ! p) = Inr c" "h' = h1[p := c]" by (auto simp: modify_Inr)
  then show "p < length h'" by simp
  have "unit_keeps i (h ! p) (h1 ! p)" using assms(3) s by (rule unit_keeps_refl)
  moreover have "unit_keeps i (h1 ! p) (h' ! p)" using enqueue_keeps [OF c(2) s] c by simp
  ultimately show "unit_keeps i (h ! p) (h' ! p)" by (rule unit_keeps_trans)
  show "\<exists>l'. sub (h' ! p) = ChanLse l' \<and> suspendReqVec l' = suspendReqVec l \<and> sendMemPtr l' = sendMemPtr l \<and> currId (h' ! p) = currId (h ! p)"
    using enqueue_suspends [OF c(2) s] c tags by simp
qed

lemma statusUpdate_keeps:
  assumes "lse_statusUpdate g now p h = Inr h'" "p < length h" "sub (h ! p) = ChanLse l" "unit_ok g (h ! p) ins outs"
    and "clash_free (currId (h ! p)) l"
  shows "unit_keeps i (h ! p) (h' ! p)"
proof -
  let ?all = "list_all (\<lambda>q. q \<noteq> [] \<and> d_cycle (hd q) \<le> now) (chanBuffer (h ! p))"
  from assms(1,2) obtain h1 where 1: "(if ?all then pushReqQ g now p h else Inr h) = Inr h1"
    and r: "rbind (modify p (\<lambda>c. rbind (lse_select g now (branchMode c) (currId c) (lse_of (sub c))) (\<lambda>l.
              lse_pushChannel g now (c\<lparr>ch_valid := True, sub := ChanLse l\<rparr>))) h1) (\<lambda>h.
     rbind (deref h p) (\<lambda>c. rbind (if channel c = [] then Inr False
            else if \<not> noDownstream c then sendable h (downstream c) (hd (channel c)) p else Inr True) (\<lambda>v.
       Inr (h[p := c\<lparr>ch_valid := v, chanDataCnt := (if v then chanDataCnt c + 1 else chanDataCnt c)\<rparr>])))) = Inr h'"
    by (auto simp: lse_statusUpdate_def rbind_Inr_iff)
  have k1: "unit_keeps i (h ! p) (h1 ! p)" "p < length h1"
    using 1 pushReqQ_keeps [OF _ assms(2,3)] assms(2,3) unit_keeps_refl by (auto split: if_splits)
  have "\<exists>l1. sub (h1 ! p) = ChanLse l1 \<and> suspendReqVec l1 = suspendReqVec l \<and> sendMemPtr l1 = sendMemPtr l \<and> currId (h1 ! p) = currId (h ! p)"
    using 1 pushReqQ_keeps(3) [OF _ assms(2,3)] assms(3) by (auto split: if_splits)
  then obtain l1 where l1: "sub (h1 ! p) = ChanLse l1" and free: "clash_free (currId (h1 ! p)) l1"
    using assms(5) clash_free_cong by metis
  from r k1(2) obtain l2 c2 where 2: "lse_select g now (branchMode (h1 ! p)) (currId (h1 ! p)) l1 = Inr l2"
    "lse_pushChannel g now ((h1 ! p)\<lparr>ch_valid := True, sub := ChanLse l2\<rparr>) = Inr c2" "sub (h' ! p) = sub c2"
    by (auto simp: rbind_Inr_iff modify_Inr deref_Inr_iff l1)
  have "unit_keeps i (h1 ! p) ((h1 ! p)\<lparr>ch_valid := True, sub := ChanLse l2\<rparr>)"
    using select_keeps [OF 2(1) _ free] l1 by (simp add: unit_keeps_def)
  moreover have "unit_keeps i ((h1 ! p)\<lparr>ch_valid := True, sub := ChanLse l2\<rparr>) c2"
  proof (rule pushChannel_keeps [OF 2(2)])
    have "\<exists>ins'. unit_ok g (h1 ! p) ins' outs"
    proof (cases ?all)
      case True
      then show ?thesis using 1 pushReqQ_ok(1) [OF _ assms(4,2)] by auto
    qed (use 1 assms(4) in auto)
    then obtain ins' where "unit_ok g (h1 ! p) ins' outs" by blast
    then have "unit_ok g ((h1 ! p)\<lparr>ch_valid := True, sub := ChanLse l2\<rparr>) ins' outs"
      by (rule unit_ok_same_order [OF _ l1 same_order_select [OF 2(1)]]) simp_all
    then obtain n where "0 < length (slots l2)" "sendChanPtr l2 = n mod length (slots l2)" by (auto simp: unit_ok_def ring_def)
    then show "sendChanPtr l2 < length (lse_reqQueue l2)" by simp
  qed simp
  ultimately have "unit_keeps i (h ! p) c2" using k1(1) by (blast intro: unit_keeps_trans)
  then show ?thesis by (simp add: unit_keeps_def 2(3))
qed

lemma unit_cycle_keeps:
  assumes "unit_ok g (h ! p) ins outs" "p < length h" "sub (h ! p) = ChanLse l"
    and "clash_free (currId (h ! p)) l \<and> statusUpdate g now p h = Inr h' \<and> c' = h' ! p \<or> pop h (h ! p) = Inr c'"
  shows "unit_keeps i (h ! p) c'"
  using assms(4)
proof
  assume "clash_free (currId (h ! p)) l \<and> statusUpdate g now p h = Inr h' \<and> c' = h' ! p"
  then have "lse_statusUpdate g now p h = Inr h'" "c' = h' ! p" "clash_free (currId (h ! p)) l" using assms(2,3) by (simp_all add: statusUpdate_def)
  then show ?thesis using statusUpdate_keeps [OF _ assms(2,3,1)] by simp
next
  assume "pop h (h ! p) = Inr c'"
  then show ?thesis using pop_keeps [OF _ assms(3,1)] assms(3) by (simp add: pop_def)
qed

section \<open>A unit with two instances\<close>

text \<open>The condition is needed. Both slots hold a request. The first instance offers that of slot 0, the second that of slot 1, which the
  memory system takes; the pointer is at slot 0 again, whose request is valid and not in flight.\<close>

definition twoDemo :: lse where
  "twoDemo = (lse_new 2 2 False 0)\<lparr>lse_reqQueue := [(memReq0\<lparr>m_valid := True, m_addr := 8\<rparr>, data0), (memReq0\<lparr>m_valid := True, m_addr := 12\<rparr>, data0)]\<rparr>"

lemma slot_offered_twice:
  "map_sum id (\<lambda>l. map (\<lambda>(v, r). (v, m_lseReqQueueIndex r)) (suspendReqVec l))
     (rbind (lse_select cfg_demo 1 False 1 twoDemo) (\<lambda>l. rbind (lse_select cfg_demo 1 False 2 l) (\<lambda>l.
      rbind (peekReqQueue 2 l) (\<lambda>(_, r). rbind (setInflight 2 r l) (lse_select cfg_demo 1 False 2)))))
   = Inr [(True, 0), (True, 0)]"
  by code_simp

section \<open>Units and memory system together\<close>

text \<open>A cycle of a unit, in any state of the channels around it in which the unit is in order (\<open>unit_ok\<close>, the invariant of
  \<open>LsePipe\<close>). The instance that is active does not take up a request that another one still offers; a unit with
  one instance cannot do so (\<open>one_instance_clash_free\<close>).\<close>

definition unit_step :: "config \<Rightarrow> lse \<Rightarrow> lse \<Rightarrow> bool" where
  "unit_step g l l' \<longleftrightarrow> (\<exists>h p ins outs now h' c'. p < length h \<and> sub (h ! p) = ChanLse l
     \<and> unit_ok g (h ! p) ins outs \<and> sub c' = ChanLse l'
     \<and> (clash_free (currId (h ! p)) l \<and> statusUpdate g now p h = Inr h' \<and> c' = h' ! p \<or> pop h (h ! p) = Inr c'))"

text \<open>The states that can be reached from a new memory system with any interleaving of the cycles of the units,
  which may change the number of their instance, and the updates of the memory system.\<close>

inductive mem_run :: "config \<Rightarrow> nat list \<Rightarrow> 'm dram \<Rightarrow> memSystem \<Rightarrow> ports \<Rightarrow> 'm \<Rightarrow> bool" for g reg d where
  start: "memSystem_new g hz rs = Inr ms \<Longrightarrow> \<forall>p\<in>set (a_levels g). 0 < a_bankNum p \<and> 0 < fst (a_mshrPara p)
     \<Longrightarrow> units_ok reg ps \<Longrightarrow> flights reg ps = {} \<Longrightarrow> mem_run g reg d (registered reg ms) ps m"
| unit: "mem_run g reg d ms ps m \<Longrightarrow> i < length reg \<Longrightarrow> unit_step g (snd (ps ! (reg ! i))) l
     \<Longrightarrow> mem_run g reg d ms (ps[reg ! i := (cid, l)]) m"
| memory: "mem_run g reg d ms ps m \<Longrightarrow> memSystemUpdate g k d (ms, ps, m) = Inr (ms', ps', m') \<Longrightarrow> mem_run g reg d ms' ps' m'"

lemma unit_step_keeps:
  assumes "unit_step g l l'" "marks_ok i l"
  shows "marks_ok i l' \<and> in_flight l' = in_flight l"
proof -
  obtain h p ins outs now h' c' where u: "p < length h" "sub (h ! p) = ChanLse l" "unit_ok g (h ! p) ins outs" "sub c' = ChanLse l'"
     "clash_free (currId (h ! p)) l \<and> statusUpdate g now p h = Inr h' \<and> c' = h' ! p \<or> pop h (h ! p) = Inr c'"
    using assms(1) unfolding unit_step_def by blast
  then show ?thesis using unit_cycle_keeps [OF u(3,1,2,5), of i] u(2,4) assms(2) by (auto simp: unit_keeps_def)
qed

lemma flights_unit:
  assumes "distinct reg" "i < length reg" "reg ! i < length ps" "in_flight l = in_flight (snd (ps ! (reg ! i)))"
  shows "flights reg (ps[reg ! i := (cid, l)]) = flights reg ps"
proof -
  have n: "length (lse_reqQueue l) = length (lse_reqQueue (snd (ps ! (reg ! i))))"
    using arg_cong [OF assms(4), of length] by (simp add: in_flight_def)
  have f: "m_inflight (fst (lse_reqQueue l ! j)) = m_inflight (fst (lse_reqQueue (snd (ps ! (reg ! i))) ! j))" if "j < length (lse_reqQueue l)" for j
    using arg_cong [OF assms(4), of "\<lambda>v. v ! j"] that n by (simp add: in_flight_def)
  show ?thesis
    unfolding flights_def using assms(1-3) n f by (auto simp: nth_list_update nth_eq_iff_index_eq split: if_splits)
qed

lemma mem_run_inv:
  assumes "mem_run g reg d ms ps m"
  shows "flights_inv g ms ps \<and> lseRegistry ms = reg"
  using assms
proof (induction rule: mem_run.induct)
  case (start hz rs ms ps m)
  have "lseRegistry (registered reg ms) = reg"
    using start(1) by (auto simp: registered_fields memSystem_new_def rbind_Inr_iff)
  with new_flights [OF start] show ?case by simp
next
  case (unit ms ps m i l cid)
  have u: "units_ok reg ps" using unit.IH by (auto simp: flights_inv_def)
  then have i: "distinct reg" "reg ! i < length ps" "marks_ok i (snd (ps ! (reg ! i)))"
    using unit.hyps(2) by (simp_all add: units_ok_def)
  note K = unit_step_keeps [OF unit.hyps(3) i(3)]
  with units_ok_update [OF u unit.hyps(2)] flights_unit [OF i(1) unit.hyps(2) i(2)] unit.IH show ?case by (simp add: flights_inv_def)
next
  case (memory ms ps m k ms' ps' m')
  then show ?case using memSystemUpdate_flights [OF _ memory.hyps(2)] by simp
qed

text \<open>C5: no request is lost or duplicated on its way through the memory system: in any interleaving of the units,
  of any numbers of instances, and the memory system, the recorders, the queues, the cache and the coalescer
  together hold exactly one request for each slot that a unit has marked in flight, and no other, as long as no instance of
  a unit takes up the request of a slot that another instance is still offering; this cannot happen with one
  instance, and with two it does (\<open>slot_offered_twice\<close>).\<close>

theorem requests_conserved:
  assumes "mem_run g reg d ms ps m"
  shows "held ms = mset_set (flights reg ps)"
  using mem_run_inv [OF assms] by (simp add: flights_inv_def)

text \<open>A unit with one request: after three updates it waits in the memory behind the cache.\<close>

definition flightDemo :: lse where
  "flightDemo = (lse_new 2 1 False 0)\<lparr>lse_reqQueue := [(memReq0\<lparr>m_valid := True, m_addr := 8\<rparr>, data0), (memReq0, data0)],
     suspendReqVec := [(True, memReq0\<lparr>m_valid := True, m_addr := 8\<rparr>)]\<rparr>"

definition flightDram :: "(bool \<times> u64) list dram" where
  "flightDram = \<lparr>d_willAccept = \<lambda>_ _ _. True, d_add = \<lambda>m a w. m @ [(w, a)], d_tick = \<lambda>m. ([], m)\<rparr>"

definition flightSteps :: "clkDomain list" where
  "flightSteps = replicate 3 \<lparr>clk = 1, clkAdd = True, clkStall = []\<rparr>"

lemma mem_run_updates:
  "rfold (\<lambda>k. memSystemUpdate g k d) ks (ms, ps, m) = Inr (ms', ps', m') \<Longrightarrow> mem_run g reg d ms ps m \<Longrightarrow> mem_run g reg d ms' ps' m'"
proof (induction ks arbitrary: ms ps m)
  case (Cons k ks)
  then obtain ms1 ps1 m1 where 1: "memSystemUpdate g k d (ms, ps, m) = Inr (ms1, ps1, m1)"
    "rfold (\<lambda>k. memSystemUpdate g k d) ks (ms1, ps1, m1) = Inr (ms', ps', m')" by (auto simp: rbind_Inr_iff)
  show ?case by (rule Cons.IH [OF 1(2) mem_run.memory [OF Cons.prems(2) 1(1)]])
qed simp

lemma requests_conserved_witness:
  "\<exists>ms ps m. rfold (\<lambda>k. memSystemUpdate (cfg_demo\<lparr>freq := 2\<rparr>) k flightDram) flightSteps
       (registered [0] (projr (memSystem_new (cfg_demo\<lparr>freq := 2\<rparr>) 2 [])), [(1, flightDemo)], []) = Inr (ms, ps, m)
     \<and> held ms = {#(0, 0)#}"
proof -
  let ?g = "cfg_demo\<lparr>freq := 2\<rparr>"
  let ?run = "rbind (memSystem_new ?g 2 []) (\<lambda>ms. rfold (\<lambda>k. memSystemUpdate ?g k flightDram) flightSteps (registered [0] ms, [(1, flightDemo)], []))"
  have e: "map_sum id (\<lambda>(ms, ps, m). (length ps, in_flight (snd (hd ps)))) ?run = Inr (1, [True, False])" by code_simp
  then obtain ms0 ms ps m where r: "memSystem_new ?g 2 [] = Inr ms0"
    "rfold (\<lambda>k. memSystemUpdate ?g k flightDram) flightSteps (registered [0] ms0, [(1, flightDemo)], []) = Inr (ms, ps, m)"
    "length ps = 1" "in_flight (snd (hd ps)) = [True, False]"
    by (cases ?run) (auto simp: rbind_Inr_iff)
  have b: "\<forall>p\<in>set (a_levels ?g). 0 < a_bankNum p \<and> 0 < fst (a_mshrPara p)" by code_simp
  have u: "units_ok [0] [(1, flightDemo)]"
    by (auto simp: units_ok_def marks_ok_def flightDemo_def lse_new_def memReq0_def slot_ok_def waits_def less_Suc_eq Let_def)
  have n: "flights [0] [(1, flightDemo)] = {}"
    by (auto simp: flights_def flightDemo_def lse_new_def memReq0_def less_Suc_eq)
  have f: "flights [0] ps = {(0, 0)}"
    using r(3,4) by (cases ps) (auto simp: flights_def in_flight_def less_Suc_eq nth_Cons split: nat.splits)
  have "mem_run ?g [0] flightDram ms ps m" by (rule mem_run_updates [OF r(2)]) (rule mem_run.start [OF r(1) b u n])
  from requests_conserved [OF this] f r(1,2) show ?thesis by (intro exI [of _ ms] exI [of _ ps] exI [of _ m]) simp
qed

end
