(* ===== verification/Unrolling.thy ===== *)
theory Unrolling
  imports Channel MemSystem
begin

text \<open>
  Unrolled execution: a channel with \<open>speedup\<close> greater than 1 executes its instances one after the other
  in the iterations of the simulation loop and stalls the clock (\<open>Channel::parallelize\<close> in
  \<open>module/execution/Channel.cpp\<close>, \<open>ClkDomain\<close> in \<open>module/ClkSys.cpp\<close>). The theory gives the number of
  iterations of a clock cycle and the instance that each channel executes in each of them.
\<close>

text \<open>The calls of \<open>parallelize\<close> in one iteration (at the head of \<open>get\<close>, in the order of the list), and
  the update of the clock that ends it.\<close>

definition step_instance :: "chan \<Rightarrow> clkDomain \<Rightarrow> chan \<times> clkDomain" where
  "step_instance c k = (if 1 < speedup c then parallelize c k else (c, k))"

fun step_instances :: "chan list \<Rightarrow> clkDomain \<Rightarrow> chan list \<times> clkDomain" where
  "step_instances [] k = ([], k)"
| "step_instances (c # cs) k = (case step_instance c k of (c, k) \<Rightarrow>
     case step_instances cs k of (cs, k) \<Rightarrow> (c # cs, k))"

definition iteration :: "chan list \<times> clkDomain \<Rightarrow> chan list \<times> clkDomain" where
  "iteration = (\<lambda>(cs, k). case step_instances cs k of (cs, k) \<Rightarrow> (cs, clkUpdate k))"

definition next_id :: "bool \<Rightarrow> chan \<Rightarrow> nat" where
  "next_id add c = (if \<not> 1 < speedup c then currId c else if add then 1
     else if currId c \<le> speedup c then currId c + 1 else currId c)"

definition unroll_max :: "chan list \<Rightarrow> nat" where
  "unroll_max cs = fold max (map speedup cs) 1"

lemma fold_max_less: "n < fold max xs (m::nat) \<longleftrightarrow> n < m \<or> (\<exists>x\<in>set xs. n < x)"
  by (induction xs arbitrary: m) (auto simp: less_max_iff_disj)

lemma unroll_max_less: "n < unroll_max cs \<longleftrightarrow> n < 1 \<or> (\<exists>c\<in>set cs. n < speedup c)"
  by (auto simp: unroll_max_def fold_max_less)

lemma step_instances_eq:
  "step_instances cs k = (cs', k') \<Longrightarrow>
     map currId cs' = map (next_id (clkAdd k)) cs \<and> map speedup cs' = map speedup cs
   \<and> clk k' = clk k \<and> clkAdd k' = clkAdd k
   \<and> (clkStall k' = [] \<longleftrightarrow> clkStall k = [] \<and> (\<forall>c\<in>set cs. \<not> (1 < speedup c \<and> next_id (clkAdd k) c < speedup c)))"
proof (induction cs arbitrary: k cs' k')
  case Nil
  then show ?case by simp
next
  case (Cons c cs)
  obtain c1 k1 where 1: "step_instance c k = (c1, k1)" by fastforce
  obtain cs2 k2 where 2: "step_instances cs k1 = (cs2, k2)" by fastforce
  have c1: "currId c1 = next_id (clkAdd k) c" "speedup c1 = speedup c" "clk k1 = clk k" "clkAdd k1 = clkAdd k"
    "clkStall k1 = [] \<longleftrightarrow> clkStall k = [] \<and> \<not> (1 < speedup c \<and> next_id (clkAdd k) c < speedup c)"
    using 1 by (auto simp: step_instance_def parallelize_def Let_def next_id_def checkClkAdd_def addClkStall_def
        split: if_splits)
  from Cons.prems 1 2 have "cs' = c1 # cs2" "k' = k2" by simp_all
  with Cons.IH [OF 2] c1 show ?case by auto
qed

lemma iteration_eq:
  assumes "iteration (cs, k) = (cs', k')" "clkStall k = []"
  shows "map currId cs' = map (next_id (clkAdd k)) cs" "map speedup cs' = map speedup cs" "clkStall k' = []"
    "clkAdd k' \<longleftrightarrow> (\<forall>c\<in>set cs. \<not> (1 < speedup c \<and> next_id (clkAdd k) c < speedup c))"
    "clk k' = (if clkAdd k' then clk k + 1 else clk k)"
proof -
  obtain cs1 k1 where s: "step_instances cs k = (cs1, k1)" by fastforce
  with assms(1) have e: "cs' = cs1" "k' = clkUpdate k1" by (simp_all add: iteration_def)
  note facts = step_instances_eq [OF s]
  show "map currId cs' = map (next_id (clkAdd k)) cs" "map speedup cs' = map speedup cs" "clkStall k' = []"
    "clkAdd k' \<longleftrightarrow> (\<forall>c\<in>set cs. \<not> (1 < speedup c \<and> next_id (clkAdd k) c < speedup c))"
    using facts assms(2) by (auto simp: e clkAdd_clkUpdate)
  show "clk k' = (if clkAdd k' then clk k + 1 else clk k)"
    using facts assms(2) by (simp add: e clk_clkUpdate clkAdd_clkUpdate)
qed

lemma map_nth_eq: "map f xs = map g ys \<Longrightarrow> i < length xs \<Longrightarrow> f (xs ! i) = g (ys ! i)"
  by (metis length_map nth_map)

lemma map_currId_next:
  assumes "map currId ds = map f cs" "map speedup ds = map speedup cs"
    "\<And>c d. c \<in> set cs \<Longrightarrow> currId d = f c \<Longrightarrow> speedup d = speedup c \<Longrightarrow> next_id b d = g c"
  shows "map (next_id b) ds = map g cs"
proof (rule nth_equalityI)
  show len: "length (map (next_id b) ds) = length (map g cs)" using assms(1) by (metis length_map)
  fix i assume "i < length (map (next_id b) ds)"
  with len have i: "i < length ds" "i < length cs" by simp_all
  have "currId (ds ! i) = f (cs ! i)" "speedup (ds ! i) = speedup (cs ! i)"
    using assms(1,2) i by (metis nth_map)+
  with assms(3) [of "cs ! i" "ds ! i"] i show "map (next_id b) ds ! i = map g cs ! i" by simp
qed

text \<open>The first iterations of a clock cycle.\<close>

definition instance_at :: "nat \<Rightarrow> chan \<Rightarrow> nat" where
  "instance_at n c = (if 1 < speedup c then min (n + 1) (speedup c + 1) else currId c)"

lemma map_ball: "map f xs = map f ys \<Longrightarrow> (\<forall>x\<in>set xs. P (f x)) \<longleftrightarrow> (\<forall>y\<in>set ys. P (f y))"
proof -
  assume "map f xs = map f ys"
  then have "f ` set xs = f ` set ys" by (metis image_set)
  then show ?thesis by (metis (no_types, lifting) image_iff)
qed

lemma one_cycle:
  assumes "clkAdd k" "clkStall k = []" "n < unroll_max cs" "(iteration ^^ Suc n) (cs, k) = (cs', k')"
  shows "map currId cs' = map (instance_at n) cs \<and> map speedup cs' = map speedup cs \<and> clkStall k' = []
    \<and> (clkAdd k' \<longleftrightarrow> Suc n = unroll_max cs) \<and> clk k' = (if Suc n = unroll_max cs then clk k + 1 else clk k)"
  using assms(3,4)
proof (induction n arbitrary: cs' k')
  case 0
  then have it: "iteration (cs, k) = (cs', k')" by simp
  note e = iteration_eq [OF it assms(2)]
  have "map (next_id (clkAdd k)) cs = map (instance_at 0) cs"
    using assms(1) by (auto simp: next_id_def instance_at_def)
  moreover have "(\<forall>c\<in>set cs. \<not> (1 < speedup c \<and> next_id (clkAdd k) c < speedup c)) \<longleftrightarrow> \<not> 1 < unroll_max cs"
    using assms(1) unroll_max_less [of 1 cs] by (auto simp: next_id_def)
  moreover have "\<not> 1 < unroll_max cs \<longleftrightarrow> Suc 0 = unroll_max cs" using 0 by arith
  ultimately show ?case using e by simp
next
  case (Suc n)
  obtain ds j where d: "(iteration ^^ Suc n) (cs, k) = (ds, j)" by fastforce
  with Suc.prems have it: "iteration (ds, j) = (cs', k')" by simp
  from Suc.IH [OF _ d] Suc.prems have IH: "map currId ds = map (instance_at n) cs" "map speedup ds = map speedup cs"
    "clkStall j = []" "\<not> clkAdd j" "clk j = clk k" by simp_all
  note e = iteration_eq [OF it IH(3)]
  have ids: "map (next_id (clkAdd j)) ds = map (instance_at (Suc n)) cs"
    using IH(4) by (intro map_currId_next [OF IH(1,2)]) (auto simp: next_id_def instance_at_def)
  have "(\<forall>d\<in>set ds. \<not> (1 < speedup d \<and> next_id (clkAdd j) d < speedup d))
      \<longleftrightarrow> (\<forall>d\<in>set ds. \<not> Suc (Suc n) < speedup d)"
  proof -
    have "next_id (clkAdd j) d = (if 1 < speedup d then min (Suc (Suc n)) (speedup d + 1) else currId d)" if "d \<in> set ds" for d
    proof -
      from that obtain i where i: "i < length ds" "d = ds ! i" by (metis in_set_conv_nth)
      then have "i < length cs" using IH(2) by (metis length_map)
      with i ids IH(1,2) have "next_id (clkAdd j) d = instance_at (Suc n) (cs ! i)" "speedup d = speedup (cs ! i)"
        "currId d = instance_at n (cs ! i)" by (metis nth_map)+
      then show ?thesis by (simp add: instance_at_def next_id_def)
    qed
    then show ?thesis by (auto simp: min_def) 
  qed
  also have "\<dots> \<longleftrightarrow> (\<forall>c\<in>set cs. \<not> Suc (Suc n) < speedup c)" by (rule map_ball [OF IH(2)])
  also have "\<dots> \<longleftrightarrow> \<not> Suc (Suc n) < unroll_max cs" by (simp add: unroll_max_less)
  also have "\<dots> \<longleftrightarrow> Suc (Suc n) = unroll_max cs" using Suc.prems(1) by arith
  finally have "clkAdd k' \<longleftrightarrow> Suc (Suc n) = unroll_max cs" using e(4) by simp
  with e ids IH(2,5) show ?case by simp
qed

lemma unroll_max_cong: "map speedup cs' = map speedup cs \<Longrightarrow> unroll_max cs' = unroll_max cs"
  by (simp add: unroll_max_def)

lemma unroll_max_pos: "0 < unroll_max cs"
  by (simp add: unroll_max_less)

lemma whole_cycles:
  assumes "clkAdd k" "clkStall k = []"
  shows "\<exists>cs' k'. (iteration ^^ (m * unroll_max cs)) (cs, k) = (cs', k') \<and> clkAdd k' \<and> clkStall k' = []
    \<and> clk k' = clk k + of_nat m \<and> map speedup cs' = map speedup cs
    \<and> map (\<lambda>c. if 1 < speedup c then 0 else currId c) cs' = map (\<lambda>c. if 1 < speedup c then 0 else currId c) cs"
proof (induction m)
  case 0
  then show ?case using assms by simp
next
  case (Suc m)
  then obtain ds j where d: "(iteration ^^ (m * unroll_max cs)) (cs, k) = (ds, j)" "clkAdd j" "clkStall j = []"
    "clk j = clk k + of_nat m" "map speedup ds = map speedup cs"
    "map (\<lambda>c. if 1 < speedup c then 0 else currId c) ds = map (\<lambda>c. if 1 < speedup c then 0 else currId c) cs" by blast
  obtain n where n: "unroll_max ds = Suc n" using unroll_max_pos [of ds] gr0_implies_Suc by blast
  obtain cs' k' where c: "(iteration ^^ Suc n) (ds, j) = (cs', k')" by fastforce
  from one_cycle [OF d(2,3) _ c] n have o: "map currId cs' = map (instance_at n) ds" "map speedup cs' = map speedup ds"
    "clkStall k' = []" "clkAdd k'" "clk k' = clk j + 1" by simp_all
  have "Suc m * unroll_max cs = Suc n + m * unroll_max cs"
    using n unroll_max_cong [OF d(5)] by simp
  then have "(iteration ^^ (Suc m * unroll_max cs)) (cs, k) = (cs', k')"
    by (simp only: funpow_add comp_def d(1) c)
  moreover have "map (\<lambda>c. if 1 < speedup c then 0 else currId c) cs' = map (\<lambda>c. if 1 < speedup c then 0 else currId c) ds"
  proof (rule nth_equalityI)
    show len: "length (map (\<lambda>c. if 1 < speedup c then 0 else currId c) cs') = length (map (\<lambda>c. if 1 < speedup c then 0 else currId c) ds)"
      using o(2) by (metis length_map)
    fix i assume "i < length (map (\<lambda>c. if 1 < speedup c then 0 else currId c) cs')"
    then have i: "i < length cs'" "i < length ds" using len by simp_all
    with o(1,2) have "currId (cs' ! i) = instance_at n (ds ! i)" "speedup (cs' ! i) = speedup (ds ! i)"
      by (metis nth_map)+
    with i show "map (\<lambda>c. if 1 < speedup c then 0 else currId c) cs' ! i = map (\<lambda>c. if 1 < speedup c then 0 else currId c) ds ! i"
      by (simp add: instance_at_def)
  qed
  ultimately show ?case using o d by (auto simp: add.assoc)
qed

text \<open>C19: the clock cycle of a graph lasts as many iterations of the simulation loop as the greatest
  speedup of its channels. In the iteration \<open>n + 1\<close> of a cycle a channel with speedup \<open>s > 1\<close> executes
  its instance \<open>n + 1\<close> while \<open>n < s\<close>, and then waits with the instance number \<open>s + 1\<close> until the clock
  advances; a channel without unrolling keeps its instance number.\<close>

theorem unrolled_cycle:
  assumes "clkAdd k" "clkStall k = []" "n < unroll_max cs"
    "(iteration ^^ (m * unroll_max cs + Suc n)) (cs, k) = (cs', k')"
  shows "map currId cs' = map (\<lambda>c. if 1 < speedup c then min (n + 1) (speedup c + 1) else currId c) cs
    \<and> clk k' = clk k + of_nat (if Suc n = unroll_max cs then m + 1 else m)
    \<and> (checkClkAdd k' \<longleftrightarrow> Suc n = unroll_max cs)"
proof -
  obtain ds j where d: "(iteration ^^ (m * unroll_max cs)) (cs, k) = (ds, j)" "clkAdd j" "clkStall j = []"
    "clk j = clk k + of_nat m" "map speedup ds = map speedup cs"
    "map (\<lambda>c. if 1 < speedup c then 0 else currId c) ds = map (\<lambda>c. if 1 < speedup c then 0 else currId c) cs"
    using whole_cycles [OF assms(1,2)] by blast
  have "(iteration ^^ (Suc n + m * unroll_max cs)) (cs, k) = (cs', k')"
    using assms(4) by (simp only: add.commute)
  then have it: "(iteration ^^ Suc n) (ds, j) = (cs', k')" by (simp only: funpow_add comp_def d(1))
  have u: "unroll_max ds = unroll_max cs" by (rule unroll_max_cong [OF d(5)])
  have o: "map currId cs' = map (instance_at n) ds" "checkClkAdd k' \<longleftrightarrow> Suc n = unroll_max cs"
    "clk k' = (if Suc n = unroll_max cs then clk j + 1 else clk j)"
    using one_cycle [OF d(2,3) _ it] assms(3) by (simp_all add: u checkClkAdd_def)
  have "map (instance_at n) ds = map (\<lambda>c. if 1 < speedup c then min (n + 1) (speedup c + 1) else currId c) cs"
  proof (rule nth_equalityI)
    show len: "length (map (instance_at n) ds) = length (map (\<lambda>c. if 1 < speedup c then min (n + 1) (speedup c + 1) else currId c) cs)"
      using d(5) by (metis length_map)
    fix i assume "i < length (map (instance_at n) ds)"
    then have i: "i < length ds" "i < length cs" using len by simp_all
    with d(5,6) have "speedup (ds ! i) = speedup (cs ! i)"
      "(if 1 < speedup (ds ! i) then 0 else currId (ds ! i)) = (if 1 < speedup (cs ! i) then 0 else currId (cs ! i))"
      using map_nth_eq [OF d(5) i(1)] map_nth_eq [OF d(6) i(1)] by simp_all
    with i show "map (instance_at n) ds ! i = map (\<lambda>c. if 1 < speedup c then min (n + 1) (speedup c + 1) else currId c) cs ! i"
      by (auto simp: instance_at_def split: if_splits)
  qed
  with o d(4) show ?thesis by (simp add: add.assoc)
qed

definition demo_chans :: "chan list" where
  "demo_chans = [chan_new 0 4 1 2 ChanBase, chan_new 1 4 1 1 ChanBase, chan_new 2 4 1 3 ChanBase]"

definition demo_clk :: clkDomain where
  "demo_clk = \<lparr>clk = 5, clkAdd = True, clkStall = []\<rparr>"

theorem unrolled_cycle_witness:
  "map currId (fst ((iteration ^^ 6) (demo_chans, demo_clk))) = [3, 1, 3]"
proof -
  have u: "unroll_max demo_chans = 3" by (simp add: unroll_max_def demo_chans_def chan_new_def)
  have six: "1 * unroll_max demo_chans + Suc 2 = 6" by (simp add: u)
  obtain cs' k' where it: "(iteration ^^ 6) (demo_chans, demo_clk) = (cs', k')" by (rule prod.exhaust)
  have "map currId cs' = map (\<lambda>c. if 1 < speedup c then min (2 + 1) (speedup c + 1) else currId c) demo_chans"
    by (rule unrolled_cycle [of demo_clk 2 demo_chans 1 cs' k', THEN conjunct1])
      (simp_all only: six it, simp_all add: u demo_clk_def)
  then show ?thesis by (simp only: it fst_conv) (simp add: demo_chans_def chan_new_def)
qed

text \<open>The memory system reads the suspended request of every unit in every iteration, also while the
  unit waits with the instance number \<open>s + 1\<close>: then it reads past the end of the \<open>s\<close> suspended
  requests. So in a graph whose greatest speedup exceeds that of a load/store unit with speedup
  \<open>s > 1\<close>, the read is out of bounds in the iterations \<open>s + 1\<close> to the last of every clock cycle, and
  only there.\<close>

theorem waiting_unit_out_of_bounds:
  assumes "clkAdd k" "clkStall k = []" "n < unroll_max cs"
    "(iteration ^^ (m * unroll_max cs + Suc n)) (cs, k) = (cs', k')"
    "i < length cs" "1 < speedup (cs ! i)" "length (suspendReqVec l) = speedup (cs ! i)"
  shows "peekReqQueue (currId (cs' ! i)) l = Inl OutOfBounds \<longleftrightarrow> speedup (cs ! i) \<le> n"
proof -
  obtain ds j where d: "(iteration ^^ (m * unroll_max cs)) (cs, k) = (ds, j)" "clkAdd j" "clkStall j = []"
    "map speedup ds = map speedup cs"
    using whole_cycles [OF assms(1,2)] by blast
  have "(iteration ^^ (Suc n + m * unroll_max cs)) (cs, k) = (cs', k')"
    using assms(4) by (simp only: add.commute)
  then have it: "(iteration ^^ Suc n) (ds, j) = (cs', k')" by (simp only: funpow_add comp_def d(1))
  have "map currId cs' = map (instance_at n) ds"
    using one_cycle [OF d(2,3) _ it] assms(3) by (simp add: unroll_max_cong [OF d(4)])
  moreover have i: "i < length ds" using assms(5) d(4) by (metis length_map)
  ultimately have "currId (cs' ! i) = instance_at n (ds ! i)" by (metis nth_map length_map)
  moreover have "speedup (ds ! i) = speedup (cs ! i)" using d(4) i assms(5) by (metis nth_map)
  ultimately have "currId (cs' ! i) = min (n + 1) (speedup (cs ! i) + 1)"
    using assms(6) by (simp add: instance_at_def)
  with assms(7) show ?thesis by (auto simp: peekReqQueue_def)
qed

theorem waiting_unit_out_of_bounds_witness:
  "peekReqQueue (currId (fst ((iteration ^^ 3) (demo_chans, demo_clk)) ! 0)) (lse_new 4 2 False 0) = Inl OutOfBounds"
proof -
  have u: "unroll_max demo_chans = 3" by (simp add: unroll_max_def demo_chans_def chan_new_def)
  have three: "0 * unroll_max demo_chans + Suc 2 = 3" by (simp add: u)
  obtain cs' k' where it: "(iteration ^^ 3) (demo_chans, demo_clk) = (cs', k')" by (rule prod.exhaust)
  have "peekReqQueue (currId (cs' ! 0)) (lse_new 4 2 False 0) = Inl OutOfBounds \<longleftrightarrow> speedup (demo_chans ! 0) \<le> 2"
    by (rule waiting_unit_out_of_bounds [of demo_clk 2 demo_chans 0 cs' k'])
      (simp_all only: three it, simp_all add: u, simp_all add: demo_clk_def demo_chans_def chan_new_def lse_new_def)
  then show ?thesis by (simp only: it fst_conv) (simp add: demo_chans_def chan_new_def)
qed

end
