(* ===== verification/ControlTree.thy ===== *)
theory ControlTree
  imports Prelude "HOL-Library.Char_ord" "HOL-Library.List_Lexorder"
begin

text \<open>
  The tree of control regions (\<open>sim/control_tree.cpp\<close>): the loops and branches of the application, their
  nesting, its traversal, and the clusters that \<open>Graph::printDotControlRegion\<close> (\<open>sim/graph.cpp\<close>) prints
  from it. Regions are named by strings; a name is looked up in the index of the table. The set of
  strings that the completion of the hierarchy builds is ordered as \<open>std::string\<close> is.
\<close>

section \<open>Regions\<close>

record controlRegion =
  controlRegionName :: string
  upperControlRegion :: string
  lowerControlRegion :: "string list"
  region_nodes :: "string list"
  controlType :: string
  branchPath :: bool
  theTailNode :: string

record controlTree =
  controlRegionTable :: "controlRegion list"
  controlRegionIndexDict :: "string \<rightharpoonup> nat"

definition region_new :: "string \<Rightarrow> string \<Rightarrow> bool \<Rightarrow> controlRegion" where
  "region_new n ty path = \<lparr>controlRegionName = n, upperControlRegion = [], lowerControlRegion = [],
     region_nodes = [], controlType = ty, branchPath = path, theTailNode = []\<rparr>"

definition tree_empty :: controlTree where
  "tree_empty = \<lparr>controlRegionTable = [], controlRegionIndexDict = (\<lambda>_. None)\<rparr>"

definition findControlRegionIndex :: "controlTree \<Rightarrow> string \<Rightarrow> nat res" where
  "findControlRegionIndex t n = (case controlRegionIndexDict t n of
     None \<Rightarrow> Inl (Throw ''Not find this controlRegion in controlRegionIndexDict!'') | Some i \<Rightarrow> Inr i)"

definition getCtrlRegion :: "controlTree \<Rightarrow> string \<Rightarrow> controlRegion res" where
  "getCtrlRegion t n = rbind (findControlRegionIndex t n) (rnth (controlRegionTable t))"

definition on_region :: "string \<Rightarrow> (controlRegion \<Rightarrow> controlRegion) \<Rightarrow> controlTree \<Rightarrow> controlTree res" where
  "on_region n f t = rbind (findControlRegionIndex t n) (\<lambda>i. rbind (rnth (controlRegionTable t) i) (\<lambda>r.
     Inr (t\<lparr>controlRegionTable := (controlRegionTable t)[i := f r]\<rparr>)))"

definition addControlRegion :: "(string \<times> string \<times> string) list \<Rightarrow> controlTree \<Rightarrow> controlTree res" where
  "addControlRegion = rfold (\<lambda>(n, ty, path) t.
     if controlRegionIndexDict t n \<noteq> None
     then Inl (Throw ''There already has a same name control region!'')
     else let t = t\<lparr>controlRegionIndexDict := (controlRegionIndexDict t)(n \<mapsto> length (controlRegionTable t))\<rparr>;
              add = (\<lambda>r. Inr (t\<lparr>controlRegionTable := controlRegionTable t @ [r]\<rparr>)) in
       if ty = ''Loop'' then add (region_new n ty True)
       else if ty = ''Branch''
       then if path = ''truePath'' then add (region_new n ty True)
            else if path = ''falsePath'' then add (region_new n ty False)
            else Inl (Throw ''Illegal branchPath!'')
       else Inl (Throw ''Illegal control region!''))"

definition addUpperControlRegion :: "string \<Rightarrow> string \<Rightarrow> controlTree \<Rightarrow> controlTree res" where
  "addUpperControlRegion target r t =
     (if target \<noteq> [] then on_region target (\<lambda>x. x\<lparr>upperControlRegion := r\<rparr>) t else Inr t)"

definition addLowerControlRegion :: "string \<Rightarrow> string list \<Rightarrow> controlTree \<Rightarrow> controlTree res" where
  "addLowerControlRegion target rs t =
     (if target \<noteq> [] then on_region target (\<lambda>x. x\<lparr>lowerControlRegion := lowerControlRegion x @ rs\<rparr>) t else Inr t)"

definition complete_region :: "nat \<Rightarrow> controlTree \<Rightarrow> controlTree res" where
  "complete_region i t = rbind (rnth (controlRegionTable t) i) (\<lambda>r.
     rbind (rfold (\<lambda>l. addUpperControlRegion l (controlRegionName r)) (lowerControlRegion r) t) (\<lambda>t.
     rbind (rnth (controlRegionTable t) i) (\<lambda>r.
       addLowerControlRegion (upperControlRegion r) [controlRegionName r] t)))"

definition completeControlRegionHierarchy :: "controlTree \<Rightarrow> controlTree res" where
  "completeControlRegionHierarchy t =
     rbind (rfold complete_region [0..<length (controlRegionTable t)] t) (\<lambda>t.
       Inr (t\<lparr>controlRegionTable :=
         map (\<lambda>r. r\<lparr>lowerControlRegion := sort (remdups (lowerControlRegion r))\<rparr>) (controlRegionTable t)\<rparr>))"

text \<open>The traversal inserts the lower regions of a region behind it. On a cyclic hierarchy it does not
  return.\<close>

partial_function (option) dfs_loop ::
  "controlTree \<Rightarrow> (string \<times> nat) list \<Rightarrow> nat \<Rightarrow> (string \<times> nat) list res option" where
  [code]: "dfs_loop t v ptr =
     (if ptr < length v
      then (case getCtrlRegion t (fst (v ! ptr)) of
          Inl e \<Rightarrow> Some (Inl e)
        | Inr r \<Rightarrow> dfs_loop t (take (ptr + 1) v @ map (\<lambda>n. (n, snd (v ! ptr) + 1)) (lowerControlRegion r)
                               @ drop (ptr + 1) v) (ptr + 1))
      else Some (Inr v))"

definition traverseControlRegionsDfs :: "controlTree \<Rightarrow> (string \<times> nat) list res option" where
  "traverseControlRegionsDfs t = (case controlRegionTable t of
     [] \<Rightarrow> Some (Inl OutOfBounds) | r # _ \<Rightarrow> dfs_loop t [(controlRegionName r, 0)] 0)"

text \<open>Printing: the pieces of text in the order in which they are written.\<close>

definition endl :: string where
  "endl = [CHR 0x0A]"

fun node_list :: "string list \<Rightarrow> string" where
  "node_list [] = []"
| "node_list [n] = n @ endl"
| "node_list (n # m # ns) = n @ '', '' @ node_list (m # ns)"

definition printSubgraphDot :: "controlTree \<Rightarrow> string \<Rightarrow> string res" where
  "printSubgraphDot t n = rbind (getCtrlRegion t n) (\<lambda>r.
     Inr (endl @ ''subgraph cluster_'' @ n @ '' {'' @ endl @ node_list (region_nodes r)
          @ (if controlType r = ''Loop'' then ''color=darkorange'' @ endl
             else if controlType r = ''Branch'' then ''color=dodgerblue2'' @ endl else [])
          @ ''label='' @ [CHR 0x22] @ n @ [CHR 0x22] @ endl))"

text \<open>The number of braces that are written between two regions: the condition negates the level before
  it compares, and the difference of the levels wraps.\<close>

definition closing :: "nat \<Rightarrow> nat \<Rightarrow> string list" where
  "closing lv next =
     (if (if lv = 0 then 1 else 0) < next
      then replicate (unat (of_nat lv - of_nat next + (1 :: u64))) ''}'' @ [endl] else [])"

fun printDotControlRegion :: "controlTree \<Rightarrow> (string \<times> nat) list \<Rightarrow> string list res" where
  "printDotControlRegion t [] = Inr []"
| "printDotControlRegion t [(n, lv)] = rbind (printSubgraphDot t n) (\<lambda>s. Inr (s # replicate (lv + 1) ''}'' @ [endl]))"
| "printDotControlRegion t ((n, lv) # (m, lw) # rs) = rbind (printSubgraphDot t n) (\<lambda>s.
     rbind (printDotControlRegion t ((m, lw) # rs)) (\<lambda>out. Inr (s # closing lv lw @ out)))"

section \<open>Completing the hierarchy\<close>

definition tree_ok :: "controlTree \<Rightarrow> bool" where
  "tree_ok t \<longleftrightarrow> distinct (map controlRegionName (controlRegionTable t))
     \<and> [] \<notin> controlRegionName ` set (controlRegionTable t)
     \<and> (\<forall>i<length (controlRegionTable t). controlRegionIndexDict t (controlRegionName (controlRegionTable t ! i)) = Some i)
     \<and> dom (controlRegionIndexDict t) = controlRegionName ` set (controlRegionTable t)"

text \<open>Which regions are declared to lie in which: by the lower region, by the upper region, or by both.\<close>

definition declares :: "controlRegion \<Rightarrow> string \<Rightarrow> string \<Rightarrow> bool" where
  "declares r p c \<longleftrightarrow> controlRegionName r = p \<and> c \<in> set (lowerControlRegion r)
     \<or> controlRegionName r = c \<and> upperControlRegion r = p \<and> p \<noteq> []"

definition declared :: "controlTree \<Rightarrow> string \<Rightarrow> string \<Rightarrow> bool" where
  "declared t p c \<longleftrightarrow> (\<exists>r\<in>set (controlRegionTable t). declares r p c)"

definition region_names :: "controlTree \<Rightarrow> string set" where
  "region_names t = controlRegionName ` set (controlRegionTable t)"

definition ix :: "controlTree \<Rightarrow> string \<Rightarrow> nat" where
  "ix t n = the (controlRegionIndexDict t n)"

lemma tree_ok_ix:
  assumes "tree_ok t" "n \<in> region_names t"
  shows "ix t n < length (controlRegionTable t)" "controlRegionName (controlRegionTable t ! ix t n) = n"
    "findControlRegionIndex t n = Inr (ix t n)"
proof -
  obtain i where "i < length (controlRegionTable t)" "controlRegionName (controlRegionTable t ! i) = n"
    using assms(2) by (auto simp: region_names_def in_set_conv_nth)
  moreover from this have "controlRegionIndexDict t n = Some i" using assms(1) by (auto simp: tree_ok_def)
  ultimately show "ix t n < length (controlRegionTable t)" "controlRegionName (controlRegionTable t ! ix t n) = n"
    "findControlRegionIndex t n = Inr (ix t n)"
    by (simp_all add: ix_def findControlRegionIndex_def)
qed

lemma ix_name:
  assumes "tree_ok t" "i < length (controlRegionTable t)"
  shows "ix t (controlRegionName (controlRegionTable t ! i)) = i" "controlRegionName (controlRegionTable t ! i) \<in> region_names t"
    "controlRegionName (controlRegionTable t ! i) \<noteq> []"
  using assms by (auto simp: tree_ok_def ix_def region_names_def) (metis image_eqI nth_mem)

text \<open>The states that completing goes through: only the hierarchy changes, and only by declared facts.\<close>

definition same_regions :: "controlTree \<Rightarrow> controlTree \<Rightarrow> bool" where
  "same_regions t t' \<longleftrightarrow> controlRegionIndexDict t' = controlRegionIndexDict t
     \<and> map (\<lambda>r. r\<lparr>upperControlRegion := [], lowerControlRegion := []\<rparr>) (controlRegionTable t')
       = map (\<lambda>r. r\<lparr>upperControlRegion := [], lowerControlRegion := []\<rparr>) (controlRegionTable t)"

definition completing :: "controlTree \<Rightarrow> controlTree \<Rightarrow> bool" where
  "completing t t' \<longleftrightarrow> same_regions t t' \<and> (\<forall>p c. declared t' p c \<longrightarrow> declared t p c)"

definition later :: "controlTree \<Rightarrow> controlTree \<Rightarrow> bool" where
  "later t t' \<longleftrightarrow> (\<forall>i<length (controlRegionTable t).
     set (lowerControlRegion (controlRegionTable t ! i)) \<subseteq> set (lowerControlRegion (controlRegionTable t' ! i))
     \<and> (upperControlRegion (controlRegionTable t ! i) \<noteq> []
        \<longrightarrow> upperControlRegion (controlRegionTable t' ! i) = upperControlRegion (controlRegionTable t ! i)))"

text \<open>Every region is declared to lie in at most one other, and the names that are used are regions.\<close>

definition hierarchy_ok :: "controlTree \<Rightarrow> bool" where
  "hierarchy_ok t \<longleftrightarrow> tree_ok t \<and> (\<forall>p c. declared t p c \<longrightarrow> p \<in> region_names t \<and> c \<in> region_names t)
     \<and> (\<forall>p q c. declared t p c \<longrightarrow> declared t q c \<longrightarrow> p = q)"

lemma same_regions_nth:
  assumes "same_regions t t'"
  shows "length (controlRegionTable t') = length (controlRegionTable t)"
    "i < length (controlRegionTable t) \<Longrightarrow> controlRegionName (controlRegionTable t' ! i) = controlRegionName (controlRegionTable t ! i)"
proof -
  have m: "map (\<lambda>r. r\<lparr>upperControlRegion := [], lowerControlRegion := []\<rparr>) (controlRegionTable t')
       = map (\<lambda>r. r\<lparr>upperControlRegion := [], lowerControlRegion := []\<rparr>) (controlRegionTable t)"
    using assms by (simp add: same_regions_def)
  from arg_cong [OF m, of length] show len: "length (controlRegionTable t') = length (controlRegionTable t)" by simp
  assume i: "i < length (controlRegionTable t)"
  have "map (\<lambda>r. r\<lparr>upperControlRegion := [], lowerControlRegion := []\<rparr>) (controlRegionTable t') ! i
      = map (\<lambda>r. r\<lparr>upperControlRegion := [], lowerControlRegion := []\<rparr>) (controlRegionTable t) ! i"
    by (simp only: m)
  with i len have "(controlRegionTable t' ! i)\<lparr>upperControlRegion := [], lowerControlRegion := []\<rparr>
      = (controlRegionTable t ! i)\<lparr>upperControlRegion := [], lowerControlRegion := []\<rparr>" by simp
  from arg_cong [OF this, of controlRegionName]
  show "controlRegionName (controlRegionTable t' ! i) = controlRegionName (controlRegionTable t ! i)" by simp
qed

lemma same_regions_names:
  assumes "same_regions t t'"
  shows "map controlRegionName (controlRegionTable t') = map controlRegionName (controlRegionTable t)"
    "region_names t' = region_names t" "ix t' = ix t" "tree_ok t' = tree_ok t"
proof -
  show m: "map controlRegionName (controlRegionTable t') = map controlRegionName (controlRegionTable t)"
    using same_regions_nth [OF assms] by (intro nth_equalityI) simp_all
  have d: "controlRegionIndexDict t' = controlRegionIndexDict t" using assms by (simp add: same_regions_def)
  show n: "region_names t' = region_names t" using arg_cong [OF m, of set] by (simp add: region_names_def)
  show "ix t' = ix t" by (simp add: ix_def fun_eq_iff d)
  show "tree_ok t' = tree_ok t"
    using n same_regions_nth [OF assms] by (simp add: tree_ok_def m d region_names_def)
qed

lemma later_refl: "later t t"
  by (simp add: later_def)

lemma later_trans:
  assumes "later t t'" "later t' t''" "length (controlRegionTable t') = length (controlRegionTable t)"
  shows "later t t''"
  using assms unfolding later_def by (metis (no_types, lifting) subset_trans)

text \<open>An update of one region by a declared fact.\<close>

lemma completing_update:
  assumes "completing t t'" "i < length (controlRegionTable t')" "r = controlRegionTable t' ! i"
    "r' = r\<lparr>upperControlRegion := u, lowerControlRegion := lowerControlRegion r @ cs\<rparr>"
    "u \<noteq> upperControlRegion r \<Longrightarrow> u \<noteq> [] \<Longrightarrow> declared t u (controlRegionName r)"
    "\<And>c. c \<in> set cs \<Longrightarrow> declared t (controlRegionName r) c"
    "upperControlRegion r \<noteq> [] \<Longrightarrow> u = upperControlRegion r"
  shows "completing t (t'\<lparr>controlRegionTable := (controlRegionTable t')[i := r']\<rparr>)"
    "later t' (t'\<lparr>controlRegionTable := (controlRegionTable t')[i := r']\<rparr>)"
proof -
  let ?t = "t'\<lparr>controlRegionTable := (controlRegionTable t')[i := r']\<rparr>"
  have "same_regions t' ?t"
    using assms(2-4) by (simp add: same_regions_def map_update list_update_same_conv)
  then have "same_regions t ?t" using assms(1) by (simp add: completing_def same_regions_def)
  moreover have "declared t p c" if d: "declared ?t p c" for p c
  proof -
    obtain x where x: "x \<in> set ((controlRegionTable t')[i := r'])" "declares x p c"
      using d by (auto simp: declared_def)
    have old: "declared t q d" if "y \<in> set (controlRegionTable t')" "declares y q d" for y q d
      using that assms(1) by (auto simp: completing_def declared_def)
    show ?thesis
    proof (cases "x = r'")
      case False
      with x(1) have "x \<in> set (controlRegionTable t')" using set_update_subset_insert by fastforce
      with x(2) show ?thesis by (rule old [rotated])
    next
      case True
      have r: "r \<in> set (controlRegionTable t')" using assms(2,3) by simp
      have "declares r p c \<or> p = controlRegionName r \<and> c \<in> set cs
          \<or> c = controlRegionName r \<and> p = u \<and> u \<noteq> [] \<and> u \<noteq> upperControlRegion r"
        using x(2) True assms(4) by (auto simp: declares_def)
      then show ?thesis using old [OF r] assms(5,6) by blast
    qed
  qed
  ultimately show "completing t ?t" by (simp add: completing_def)
  show "later t' ?t"
    unfolding later_def
  proof (intro allI impI)
    fix j assume "j < length (controlRegionTable t')"
    with assms(2-4,7) show "set (lowerControlRegion (controlRegionTable t' ! j)) \<subseteq> set (lowerControlRegion (controlRegionTable ?t ! j))
     \<and> (upperControlRegion (controlRegionTable t' ! j) \<noteq> []
        \<longrightarrow> upperControlRegion (controlRegionTable ?t ! j) = upperControlRegion (controlRegionTable t' ! j))"
      by (cases "j = i") auto
  qed
qed

lemma hierarchy_okD:
  assumes "hierarchy_ok t" "completing t t'" "declared t p c"
  shows "tree_ok t'" "ix t p < length (controlRegionTable t')" "controlRegionName (controlRegionTable t' ! ix t p) = p"
    "findControlRegionIndex t' p = Inr (ix t p)" "p \<noteq> []"
    "ix t c < length (controlRegionTable t')" "controlRegionName (controlRegionTable t' ! ix t c) = c"
    "findControlRegionIndex t' c = Inr (ix t c)" "c \<noteq> []"
proof -
  have s: "same_regions t t'" using assms(2) by (simp add: completing_def)
  have p: "p \<in> region_names t'" "c \<in> region_names t'" and t: "tree_ok t'"
    using assms(1,3) same_regions_names [OF s] by (auto simp: hierarchy_ok_def)
  note [simp] = same_regions_names(3) [OF s, symmetric]
  show "tree_ok t'" by (rule t)
  show "ix t p < length (controlRegionTable t')" "controlRegionName (controlRegionTable t' ! ix t p) = p"
    "findControlRegionIndex t' p = Inr (ix t p)" using tree_ok_ix [OF t p(1)] by simp_all
  show "ix t c < length (controlRegionTable t')" "controlRegionName (controlRegionTable t' ! ix t c) = c"
    "findControlRegionIndex t' c = Inr (ix t c)" using tree_ok_ix [OF t p(2)] by simp_all
  have "[] \<notin> region_names t'" using t by (simp add: tree_ok_def region_names_def)
  with p show "p \<noteq> []" "c \<noteq> []" by metis+
qed

lemma declared_upper:
  "i < length (controlRegionTable t) \<Longrightarrow> upperControlRegion (controlRegionTable t ! i) \<noteq> [] \<Longrightarrow>
     declared t (upperControlRegion (controlRegionTable t ! i)) (controlRegionName (controlRegionTable t ! i))"
  by (auto simp: declared_def declares_def)

lemma declared_lower:
  "i < length (controlRegionTable t) \<Longrightarrow> c \<in> set (lowerControlRegion (controlRegionTable t ! i)) \<Longrightarrow>
     declared t (controlRegionName (controlRegionTable t ! i)) c"
  by (auto simp: declared_def declares_def)

lemma addUpper_ok:
  assumes "hierarchy_ok t" "completing t t'" "declared t p l"
  shows "\<exists>t''. addUpperControlRegion l p t' = Inr t'' \<and> completing t t'' \<and> later t' t''
    \<and> upperControlRegion (controlRegionTable t'' ! ix t l) = p"
proof -
  note D = hierarchy_okD [OF assms]
  let ?r = "controlRegionTable t' ! ix t l"
  let ?t = "t'\<lparr>controlRegionTable := (controlRegionTable t')[ix t l := ?r\<lparr>upperControlRegion := p\<rparr>]\<rparr>"
  have keep: "upperControlRegion ?r = p" if "upperControlRegion ?r \<noteq> []"
  proof -
    have "declared t (upperControlRegion ?r) l"
      using declared_upper [OF D(6) that] D(7) assms(2) by (simp add: completing_def)
    then show ?thesis using assms(1,3) by (auto simp: hierarchy_ok_def)
  qed
  have "completing t ?t" "later t' ?t"
    using completing_update [OF assms(2) D(6) refl, of _ "[]" p] keep assms(3) D(7) by auto
  moreover have "addUpperControlRegion l p t' = Inr ?t"
    using D(6,8,9) by (simp add: addUpperControlRegion_def on_region_def)
  moreover have "upperControlRegion (controlRegionTable ?t ! ix t l) = p" using D(6) by simp
  ultimately show ?thesis by blast
qed

lemma addLower_ok:
  assumes "hierarchy_ok t" "completing t t'" "declared t p c"
  shows "\<exists>t''. addLowerControlRegion p [c] t' = Inr t'' \<and> completing t t'' \<and> later t' t''
    \<and> c \<in> set (lowerControlRegion (controlRegionTable t'' ! ix t p))"
proof -
  note D = hierarchy_okD [OF assms]
  let ?r = "controlRegionTable t' ! ix t p"
  let ?t = "t'\<lparr>controlRegionTable := (controlRegionTable t')[ix t p := ?r\<lparr>lowerControlRegion := lowerControlRegion ?r @ [c]\<rparr>]\<rparr>"
  have "completing t ?t" "later t' ?t"
    using completing_update [OF assms(2) D(2) refl, of _ "[c]" "upperControlRegion ?r"] assms(3) D(3) by auto
  moreover have "addLowerControlRegion p [c] t' = Inr ?t"
    using D(2,4,5) by (simp add: addLowerControlRegion_def on_region_def)
  moreover have "c \<in> set (lowerControlRegion (controlRegionTable ?t ! ix t p))" using D(2) by simp
  ultimately show ?thesis by blast
qed

lemma completing_length:
  "completing t t' \<Longrightarrow> length (controlRegionTable t') = length (controlRegionTable t)"
  by (simp add: completing_def same_regions_nth)

lemma later_upper:
  "later t t' \<Longrightarrow> i < length (controlRegionTable t) \<Longrightarrow> upperControlRegion (controlRegionTable t ! i) = p \<Longrightarrow> p \<noteq> [] \<Longrightarrow>
     upperControlRegion (controlRegionTable t' ! i) = p"
  by (auto simp: later_def)

lemma later_lower:
  "later t t' \<Longrightarrow> i < length (controlRegionTable t) \<Longrightarrow> c \<in> set (lowerControlRegion (controlRegionTable t ! i)) \<Longrightarrow>
     c \<in> set (lowerControlRegion (controlRegionTable t' ! i))"
  by (auto simp: later_def)

lemma addUppers_ok:
  assumes "hierarchy_ok t" "completing t t'" "\<forall>l\<in>set ls. declared t p l"
  shows "\<exists>t''. rfold (\<lambda>l. addUpperControlRegion l p) ls t' = Inr t'' \<and> completing t t'' \<and> later t' t''
    \<and> (\<forall>l\<in>set ls. upperControlRegion (controlRegionTable t'' ! ix t l) = p)"
  using assms(2,3)
proof (induction ls arbitrary: t')
  case Nil
  then show ?case by (simp add: later_refl)
next
  case (Cons l ls)
  have d: "declared t p l" using Cons.prems by simp
  obtain t1 where 1: "addUpperControlRegion l p t' = Inr t1" "completing t t1" "later t' t1"
    "upperControlRegion (controlRegionTable t1 ! ix t l) = p"
    using addUpper_ok [OF assms(1) Cons.prems(1) d] by blast
  obtain t2 where 2: "rfold (\<lambda>l. addUpperControlRegion l p) ls t1 = Inr t2" "completing t t2" "later t1 t2"
    "\<forall>l\<in>set ls. upperControlRegion (controlRegionTable t2 ! ix t l) = p"
    using Cons.IH [OF 1(2)] Cons.prems by auto
  have "length (controlRegionTable t1) = length (controlRegionTable t')"
    using completing_length [OF 1(2)] completing_length [OF Cons.prems(1)] by simp
  then have "later t' t2" by (rule later_trans [OF 1(3) 2(3)])
  moreover have "upperControlRegion (controlRegionTable t2 ! ix t l) = p"
    using later_upper [OF 2(3) hierarchy_okD(6) [OF assms(1) 1(2) d] 1(4) hierarchy_okD(5) [OF assms(1) 1(2) d]] .
  ultimately show ?case using 1 2 by auto
qed

definition completed_at :: "controlTree \<Rightarrow> nat \<Rightarrow> controlTree \<Rightarrow> bool" where
  "completed_at t i t' \<longleftrightarrow> (let r = controlRegionTable t ! i in
     (\<forall>c\<in>set (lowerControlRegion r). upperControlRegion (controlRegionTable t' ! ix t c) = controlRegionName r)
     \<and> (upperControlRegion r \<noteq> [] \<longrightarrow> controlRegionName r \<in> set (lowerControlRegion (controlRegionTable t' ! ix t (upperControlRegion r)))))"

lemma completed_at_later:
  assumes "hierarchy_ok t" "completing t t'" "completed_at t i t'" "later t' t''" "i < length (controlRegionTable t)"
  shows "completed_at t i t''"
proof -
  let ?r = "controlRegionTable t ! i"
  have "upperControlRegion (controlRegionTable t'' ! ix t c) = controlRegionName ?r"
    if c: "c \<in> set (lowerControlRegion ?r)" for c
  proof -
    note D = hierarchy_okD [OF assms(1,2) declared_lower [OF assms(5) c]]
    show ?thesis using later_upper [OF assms(4) D(6) _ D(5)] assms(3) c by (simp add: completed_at_def Let_def)
  qed
  moreover have "controlRegionName ?r \<in> set (lowerControlRegion (controlRegionTable t'' ! ix t (upperControlRegion ?r)))"
    if u: "upperControlRegion ?r \<noteq> []"
  proof -
    note D = hierarchy_okD [OF assms(1,2) declared_upper [OF assms(5) u]]
    show ?thesis using later_lower [OF assms(4) D(2)] assms(3) u by (simp add: completed_at_def Let_def)
  qed
  ultimately show ?thesis by (simp add: completed_at_def Let_def)
qed

lemma complete_region_ok:
  assumes "hierarchy_ok t" "completing t t'" "later t t'" "i < length (controlRegionTable t)"
  shows "\<exists>t''. complete_region i t' = Inr t'' \<and> completing t t'' \<and> later t' t'' \<and> completed_at t i t''"
proof -
  let ?r = "controlRegionTable t ! i"
  let ?r' = "controlRegionTable t' ! i"
  have len: "length (controlRegionTable t') = length (controlRegionTable t)" by (rule completing_length [OF assms(2)])
  have name: "controlRegionName ?r' = controlRegionName ?r"
    using assms(2,4) by (simp add: completing_def same_regions_nth)
  have i: "i < length (controlRegionTable t')" using assms(4) len by simp
  have "\<forall>l\<in>set (lowerControlRegion ?r'). declared t (controlRegionName ?r) l"
    using declared_lower [OF i] assms(2) name by (auto simp: completing_def)
  then obtain t1 where 1: "rfold (\<lambda>l. addUpperControlRegion l (controlRegionName ?r)) (lowerControlRegion ?r') t' = Inr t1"
    "completing t t1" "later t' t1"
    "\<forall>l\<in>set (lowerControlRegion ?r'). upperControlRegion (controlRegionTable t1 ! ix t l) = controlRegionName ?r"
    using addUppers_ok [OF assms(1,2)] by blast
  let ?r1 = "controlRegionTable t1 ! i"
  have len1: "length (controlRegionTable t1) = length (controlRegionTable t)" by (rule completing_length [OF 1(2)])
  have name1: "controlRegionName ?r1 = controlRegionName ?r"
    using 1(2) assms(4) by (simp add: completing_def same_regions_nth)
  have low: "upperControlRegion (controlRegionTable t1 ! ix t c) = controlRegionName ?r" if "c \<in> set (lowerControlRegion ?r)" for c
    using 1(4) later_lower [OF assms(3,4) that] by blast
  have run: "complete_region i t' = addLowerControlRegion (upperControlRegion ?r1) [controlRegionName ?r] t1"
    using i 1(1) len1 assms(4) by (simp add: complete_region_def name name1)
  have up: "upperControlRegion ?r1 = upperControlRegion ?r" if "upperControlRegion ?r \<noteq> []"
    using later_upper [OF assms(3,4) refl that] later_upper [OF 1(3) i _ that] by blast
  show ?thesis
  proof (cases "upperControlRegion ?r1 = []")
    case True
    with up low have "completed_at t i t1" by (auto simp: completed_at_def Let_def)
    moreover have "complete_region i t' = Inr t1" using run True by (simp add: addLowerControlRegion_def)
    ultimately show ?thesis using 1 by blast
  next
    case False
    then have "declared t (upperControlRegion ?r1) (controlRegionName ?r)"
      using declared_upper [of i t1] 1(2) assms(4) len1 name1 by (simp add: completing_def)
    then obtain t2 where 2: "addLowerControlRegion (upperControlRegion ?r1) [controlRegionName ?r] t1 = Inr t2" "completing t t2"
      "later t1 t2" "controlRegionName ?r \<in> set (lowerControlRegion (controlRegionTable t2 ! ix t (upperControlRegion ?r1)))"
      using addLower_ok [OF assms(1) 1(2)] by blast
    have "upperControlRegion (controlRegionTable t2 ! ix t c) = controlRegionName ?r" if c: "c \<in> set (lowerControlRegion ?r)" for c
    proof -
      note D = hierarchy_okD [OF assms(1) 1(2) declared_lower [OF assms(4) c]]
      show ?thesis using later_upper [OF 2(3) D(6) low [OF c] D(5)] .
    qed
    with 2(4) up have "completed_at t i t2" by (auto simp: completed_at_def Let_def)
    moreover have "later t' t2" using later_trans [OF 1(3) 2(3)] len len1 by simp
    ultimately show ?thesis using run 2 by simp
  qed
qed

lemma complete_regions_ok:
  assumes "hierarchy_ok t" "n \<le> length (controlRegionTable t)"
  shows "\<exists>t'. rfold complete_region [0..<n] t = Inr t' \<and> completing t t' \<and> later t t' \<and> (\<forall>i<n. completed_at t i t')"
  using assms(2)
proof (induction n)
  case 0
  show ?case by (simp add: completing_def same_regions_def later_refl)
next
  case (Suc n)
  then obtain t1 where 1: "rfold complete_region [0..<n] t = Inr t1" "completing t t1" "later t t1" "\<forall>i<n. completed_at t i t1"
    by auto
  obtain t2 where 2: "complete_region n t1 = Inr t2" "completing t t2" "later t1 t2" "completed_at t n t2"
    using complete_region_ok [OF assms(1) 1(2,3) Suc_le_lessD [OF Suc.prems]] by blast
  have "completed_at t i t2" if "i < Suc n" for i
    using completed_at_later [OF assms(1) 1(2) _ 2(3), of i] 1(4) 2(4) Suc.prems that by (cases "i = n") auto
  moreover have "later t t2" by (rule later_trans [OF 1(3) 2(3) completing_length [OF 1(2)]])
  ultimately show ?case using 1(1) 2 by (simp add: rfold_append)
qed

text \<open>C20: completing the hierarchy makes the two directions agree: when every region is declared to lie
  in at most one other and all names are known, afterwards the upper region of a region is the one it
  was declared in, by either side, its lower regions are exactly those declared in it, sorted and
  without repetition, and neither the regions nor their order change.\<close>

theorem hierarchy_completed:
  assumes "hierarchy_ok t"
  shows "\<exists>t'. completeControlRegionHierarchy t = Inr t'
    \<and> map controlRegionName (controlRegionTable t') = map controlRegionName (controlRegionTable t)
    \<and> (\<forall>r\<in>set (controlRegionTable t').
         (\<forall>p. upperControlRegion r = p \<and> p \<noteq> [] \<longleftrightarrow> declared t p (controlRegionName r))
         \<and> (\<forall>c. c \<in> set (lowerControlRegion r) \<longleftrightarrow> declared t (controlRegionName r) c)
         \<and> sorted (lowerControlRegion r) \<and> distinct (lowerControlRegion r))"
proof -
  obtain t' where t': "rfold complete_region [0..<length (controlRegionTable t)] t = Inr t'" "completing t t'"
    "\<forall>i<length (controlRegionTable t). completed_at t i t'"
    using complete_regions_ok [OF assms order_refl] by blast
  let ?f = "\<lambda>r. r\<lparr>lowerControlRegion := sort (remdups (lowerControlRegion r))\<rparr>"
  have same: "same_regions t t'" using t'(2) by (simp add: completing_def)
  have len: "length (controlRegionTable t') = length (controlRegionTable t)" by (rule completing_length [OF t'(2)])
  have both: "upperControlRegion (controlRegionTable t' ! ix t c) = p \<and> c \<in> set (lowerControlRegion (controlRegionTable t' ! ix t p))"
    if d: "declared t p c" for p c
  proof -
    obtain i where i: "i < length (controlRegionTable t)" "declares (controlRegionTable t ! i) p c"
      using d by (auto simp: declared_def in_set_conv_nth)
    note D = hierarchy_okD [OF assms t'(2) d]
    have ch: "completed_at t (ix t c) t'" "completed_at t (ix t p) t'" using t'(3) D(2,6) len by simp_all
    have n: "controlRegionName (controlRegionTable t ! ix t c) = c" "controlRegionName (controlRegionTable t ! ix t p) = p"
      using same_regions_nth [OF same] D(2,3,6,7) len by simp_all
    have ok: "tree_ok t" using assms by (simp add: hierarchy_ok_def)
    have up: "upperControlRegion (controlRegionTable t' ! ix t c) = p"
    proof (cases "controlRegionName (controlRegionTable t ! i) = p \<and> c \<in> set (lowerControlRegion (controlRegionTable t ! i))")
      case True
      then show ?thesis using t'(3) i(1) by (auto simp: completed_at_def Let_def)
    next
      case False
      then have "ix t c = i" "upperControlRegion (controlRegionTable t ! i) = p" "p \<noteq> []"
        using i ix_name(1) [OF ok i(1)] by (auto simp: declares_def)
      moreover have "later t t'" using complete_regions_ok [OF assms order_refl] t'(1) by auto
      ultimately show ?thesis using later_upper i(1) by blast
    qed
    have low: "c \<in> set (lowerControlRegion (controlRegionTable t' ! ix t p))"
    proof (cases "controlRegionName (controlRegionTable t ! i) = p \<and> c \<in> set (lowerControlRegion (controlRegionTable t ! i))")
      case True
      then have "ix t p = i" using ix_name(1) [OF ok i(1)] by simp
      moreover have "later t t'" using complete_regions_ok [OF assms order_refl] t'(1) by auto
      ultimately show ?thesis using later_lower i(1) True by blast
    next
      case False
      then have "ix t c = i" "upperControlRegion (controlRegionTable t ! i) = p" "p \<noteq> []"
        using i ix_name(1) [OF ok i(1)] by (auto simp: declares_def)
      then show ?thesis using ch(1) n(1) by (auto simp: completed_at_def Let_def)
    qed
    from up low show ?thesis by simp
  qed
  have "(\<forall>p. upperControlRegion r = p \<and> p \<noteq> [] \<longleftrightarrow> declared t p (controlRegionName r))
      \<and> (\<forall>c. c \<in> set (lowerControlRegion r) \<longleftrightarrow> declared t (controlRegionName r) c)"
    if r: "r \<in> set (controlRegionTable t')" for r
  proof -
    obtain i where i: "i < length (controlRegionTable t')" "r = controlRegionTable t' ! i" using r by (auto simp: in_set_conv_nth)
    have "ix t (controlRegionName r) = i"
      using ix_name(1) [of t' i] i same_regions_names(3,4) [OF same] assms by (simp add: hierarchy_ok_def)
    then show ?thesis
      using both declared_upper [OF i(1)] declared_lower [OF i(1)] i hierarchy_okD(5) [OF assms t'(2)] t'(2)
      unfolding completing_def by metis
  qed
  moreover have "completeControlRegionHierarchy t = Inr (t'\<lparr>controlRegionTable := map ?f (controlRegionTable t')\<rparr>)"
    using t'(1) by (simp add: completeControlRegionHierarchy_def)
  moreover have "map controlRegionName (map ?f (controlRegionTable t')) = map controlRegionName (controlRegionTable t)"
    using same_regions_names(1) [OF same] by (simp add: comp_def)
  ultimately show ?thesis by (intro exI [of _ "t'\<lparr>controlRegionTable := map ?f (controlRegionTable t')\<rparr>"]) auto
qed

section \<open>The traversal\<close>

datatype region_tree = Region (root: string) "region_tree list"

text \<open>The regions below a region form a tree.\<close>

fun represents :: "controlTree \<Rightarrow> region_tree \<Rightarrow> bool" where
  "represents t (Region n rs) \<longleftrightarrow>
     (case getCtrlRegion t n of Inl _ \<Rightarrow> False | Inr r \<Rightarrow> lowerControlRegion r = map root rs) \<and> list_all (represents t) rs"

fun preorder :: "nat \<Rightarrow> region_tree \<Rightarrow> (string \<times> nat) list" where
  "preorder lv (Region n rs) = (n, lv) # concat (map (preorder (lv + 1)) rs)"

fun regions :: "region_tree \<Rightarrow> nat" where
  "regions (Region n rs) = 1 + sum_list (map regions rs)"

abbreviation heads :: "(region_tree \<times> nat) list \<Rightarrow> (string \<times> nat) list" where
  "heads fs \<equiv> map (\<lambda>(x, l). (root x, l)) fs"

abbreviation listing :: "(region_tree \<times> nat) list \<Rightarrow> (string \<times> nat) list" where
  "listing fs \<equiv> concat (map (\<lambda>(x, l). preorder l x) fs)"

lemma dfs_loop_done: "ptr \<ge> length v \<Longrightarrow> dfs_loop t v ptr = Some (Inr v)"
  by (simp add: dfs_loop.simps)

lemma dfs_loop_step:
  assumes "getCtrlRegion t n = Inr r"
  shows "dfs_loop t (pre @ (n, l) # vs) (length pre)
    = dfs_loop t ((pre @ [(n, l)]) @ map (\<lambda>m. (m, l + 1)) (lowerControlRegion r) @ vs) (length (pre @ [(n, l)]))"
  using assms by (subst dfs_loop.simps) simp

lemma dfs_forest:
  assumes "list_all (represents t \<circ> fst) fs"
  shows "dfs_loop t (pre @ heads fs) (length pre) = Some (Inr (pre @ listing fs))"
  using assms
proof (induction fs arbitrary: pre rule: measure_induct_rule [of "\<lambda>fs. sum_list (map (regions \<circ> fst) fs)"])
  case (less fs)
  show ?case
  proof (cases fs)
    case Nil
    then show ?thesis by (simp add: dfs_loop_done)
  next
    case (Cons f gs)
    obtain n rs l where f: "f = (Region n rs, l)" by (cases f) (metis region_tree.exhaust)
    obtain r where r: "getCtrlRegion t n = Inr r" "lowerControlRegion r = map root rs" "list_all (represents t) rs"
      using less.prems Cons f by (auto split: sum.splits)
    let ?gs = "map (\<lambda>x. (x, l + 1)) rs @ gs"
    have "sum_list (map (regions \<circ> fst) ?gs) < sum_list (map (regions \<circ> fst) fs)"
      using Cons f by (simp add: comp_def)
    moreover have "list_all (represents t \<circ> fst) ?gs"
      using less.prems Cons r(3) by (auto simp: list_all_iff)
    ultimately have "dfs_loop t ((pre @ [(n, l)]) @ heads ?gs) (length (pre @ [(n, l)])) = Some (Inr ((pre @ [(n, l)]) @ listing ?gs))"
      by (rule less.IH)
    then show ?thesis
      using dfs_loop_step [OF r(1), of pre l "heads gs"] r(2) Cons f by (simp add: comp_def)
  qed
qed

text \<open>What the traversal returns is the listing of a forest.\<close>

lemma map_splits: "map f xs = ys @ zs \<Longrightarrow> \<exists>us vs. xs = us @ vs \<and> map f us = ys \<and> map f vs = zs"
  by (auto simp: map_eq_append_conv)

lemma dfs_loop_Inr:
  assumes "dfs_loop t v ptr = Some res" "res = Inr out" "ptr \<le> length v"
  shows "\<exists>fs. list_all (represents t \<circ> fst) fs \<and> heads fs = drop ptr v \<and> out = take ptr v @ listing fs"
  using assms(2,3)
proof (induction arbitrary: out rule: dfs_loop.raw_induct [OF _ assms(1)])
  case (1 f t v ptr res)
  show ?case
  proof (cases "ptr < length v")
    case False
    then have "length v \<le> ptr" by simp
    with 1(2,3) False have "drop ptr v = []" "out = take ptr v" by simp_all
    then show ?thesis by (intro exI [of _ "[]"]) simp
  next
    case True
    obtain n l where nl: "v ! ptr = (n, l)" by (rule prod.exhaust)
    with 1(2,3) True obtain r where r: "getCtrlRegion t n = Inr r" by (auto split: sum.splits)
    let ?v = "take (ptr + 1) v @ map (\<lambda>m. (m, l + 1)) (lowerControlRegion r) @ drop (ptr + 1) v"
    have "f t ?v (ptr + 1) = Some res" using 1(2) True nl r by simp
    moreover have "ptr + 1 \<le> length ?v" using True by simp
    ultimately have "\<exists>fs. list_all (represents t \<circ> fst) fs \<and> heads fs = drop (ptr + 1) ?v \<and> out = take (ptr + 1) ?v @ listing fs"
      by (rule 1(1) [OF _ 1(3)])
    then obtain fs where fs: "list_all (represents t \<circ> fst) fs" "heads fs = drop (ptr + 1) ?v"
      "out = take (ptr + 1) ?v @ listing fs" by (elim exE conjE)
    have d: "drop (ptr + 1) ?v = map (\<lambda>m. (m, l + 1)) (lowerControlRegion r) @ drop (ptr + 1) v"
      "take (ptr + 1) ?v = take ptr v @ [(n, l)]"
      using True nl by (simp_all add: take_Suc_conv_app_nth)
    obtain ks gs where kg: "fs = ks @ gs" "heads ks = map (\<lambda>m. (m, l + 1)) (lowerControlRegion r)" "heads gs = drop (ptr + 1) v"
      using fs(2) [unfolded d(1), THEN map_splits] by (elim exE conjE)
    have ks: "ks = map (\<lambda>x. (x, l + 1)) (map fst ks)" "map root (map fst ks) = lowerControlRegion r"
    proof -
      have "map snd (heads ks) = map snd (map (\<lambda>m. (m, l + 1)) (lowerControlRegion r))"
        "map fst (heads ks) = map fst (map (\<lambda>m. (m, l + 1)) (lowerControlRegion r))" using kg(2) by simp_all
      then have "map snd ks = map (\<lambda>_. l + 1) (lowerControlRegion r)" and m: "map (root \<circ> fst) ks = lowerControlRegion r"
        by (simp_all add: comp_def case_prod_beta)
      then have "\<forall>k\<in>set ks. snd k = l + 1" by (metis (no_types, lifting) imageE image_eqI image_set)
      then show "ks = map (\<lambda>x. (x, l + 1)) (map fst ks)" by (induction ks) auto
      from m show "map root (map fst ks) = lowerControlRegion r" by simp
    qed
    let ?x = "Region n (map fst ks)"
    have "represents t ?x" using r ks(2) fs(1) kg(1) by (simp add: list_all_iff)
    moreover have "preorder l ?x = (n, l) # listing ks"
      by (subst (2) ks(1)) (simp add: comp_def)
    moreover have "drop ptr v = (n, l) # drop (ptr + 1) v" using True nl by (metis Cons_nth_drop_Suc Suc_eq_plus1)
    moreover have "list_all (represents t \<circ> fst) gs" using fs(1) kg(1) by simp
    moreover have "out = take ptr v @ (n, l) # listing ks @ listing gs"
      by (simp only: fs(3) d(2) kg(1) map_append concat_append append_assoc append_Cons append_Nil)
    ultimately show ?thesis
      by (intro exI [of _ "(?x, l) # gs"]) (simp del: represents.simps preorder.simps add: kg(3) comp_def)
  qed
qed

text \<open>C21: the traversal is the depth-first listing of the control regions with their nesting levels. It
  returns exactly when the regions below the first one form a finite tree, in particular not on a
  cyclic hierarchy.\<close>

theorem traversal_is_preorder:
  "traverseControlRegionsDfs t = Some (Inr out) \<longleftrightarrow>
     (\<exists>x. represents t x \<and> out = preorder 0 x \<and> map controlRegionName (take 1 (controlRegionTable t)) = [root x])"
proof (cases "controlRegionTable t")
  case Nil
  then show ?thesis by (simp add: traverseControlRegionsDfs_def)
next
  case (Cons r rs)
  let ?n = "controlRegionName r"
  have run: "traverseControlRegionsDfs t = dfs_loop t [(?n, 0)] 0" using Cons by (simp add: traverseControlRegionsDfs_def)
  show ?thesis
  proof
    assume "traverseControlRegionsDfs t = Some (Inr out)"
    then have "dfs_loop t [(?n, 0)] 0 = Some (Inr out)" using run by simp
    from dfs_loop_Inr [OF this refl le0] obtain fs
      where fs: "list_all (represents t \<circ> fst) fs" "heads fs = [(?n, 0)]" "out = listing fs"
      by (simp only: drop_0 take_0 append_Nil) (elim exE conjE)
    obtain x where x: "fs = [(x, 0)]" "root x = ?n"
    proof (cases fs)
      case (Cons g gs)
      with fs(2) that [of "fst g"] show ?thesis by (cases g) simp
    qed (use fs(2) in simp)
    with fs(1,3) Cons show "\<exists>x. represents t x \<and> out = preorder 0 x \<and> map controlRegionName (take 1 (controlRegionTable t)) = [root x]"
      by (intro exI [of _ x]) simp
  next
    assume "\<exists>x. represents t x \<and> out = preorder 0 x \<and> map controlRegionName (take 1 (controlRegionTable t)) = [root x]"
    then obtain x where "represents t x" "out = preorder 0 x" "root x = ?n" using Cons by auto
    with dfs_forest [of t "[(x, 0)]" "[]"] run show "traverseControlRegionsDfs t = Some (Inr out)" by simp
  qed
qed

section \<open>The printed clusters\<close>

fun clusters :: "controlTree \<Rightarrow> region_tree \<Rightarrow> string list" where
  "clusters t (Region n rs) = projr (printSubgraphDot t n) # concat (map (clusters t) rs) @ [''}'']"

abbreviation visible :: "string list \<Rightarrow> string list" where
  "visible \<equiv> filter (\<lambda>s. s \<noteq> endl)"

lemma printSubgraphDot_text: "printSubgraphDot t n = Inr s \<Longrightarrow> s \<noteq> endl"
  by (auto simp: printSubgraphDot_def rbind_Inr_iff endl_def)

lemma visible_closing:
  assumes "next \<le> lv + 1" "0 < next" "lv + 1 < 2 ^ 64"
  shows "visible (closing lv next) = replicate (lv + 1 - next) ''}''"
proof -
  have "of_nat lv - of_nat next + 1 = (of_nat (lv + 1 - next) :: u64)" using assms(1) by simp
  moreover have "unat (of_nat (lv + 1 - next) :: u64) = lv + 1 - next"
    using assms(3) by (simp add: unsigned_of_nat take_bit_nat_eq_self_iff)
  ultimately have u: "unat (of_nat lv - of_nat next + (1 :: u64)) = lv + 1 - next" by simp
  show ?thesis using assms by (cases "lv = 0") (auto simp: closing_def u endl_def)
qed

text \<open>The level of the next region that is printed, and 0 at the end.\<close>

definition next_level :: "(string \<times> nat) list \<Rightarrow> nat" where
  "next_level rest = (case rest of [] \<Rightarrow> 0 | (_, m) # _ \<Rightarrow> m)"

lemma represents_region: "represents t (Region n rs) \<Longrightarrow> \<exists>s. printSubgraphDot t n = Inr s"
  by (auto simp: printSubgraphDot_def split: sum.splits)

lemma print_step:
  assumes "printSubgraphDot t n = Inr s" "printDotControlRegion t rest = Inr out"
    "next_level rest \<le> lv + 1" "rest \<noteq> [] \<longrightarrow> 0 < next_level rest" "lv + 1 < 2 ^ 64"
  shows "\<exists>out'. printDotControlRegion t ((n, lv) # rest) = Inr out'
    \<and> visible out' = s # replicate (lv + 1 - next_level rest) ''}'' @ visible out"
proof (cases rest)
  case Nil
  with assms(1,2) show ?thesis using printSubgraphDot_text [OF assms(1)] by (simp add: next_level_def endl_def)
next
  case (Cons m rs)
  then obtain m' lw where m: "rest = (m', lw) # rs" by (cases m) auto
  with assms visible_closing [of lw lv] show ?thesis
    using printSubgraphDot_text [OF assms(1)] by (simp add: next_level_def)
qed

lemma print_forest:
  assumes "\<And>x lv rest out. x \<in> set xs \<Longrightarrow> represents t x \<Longrightarrow> lv + regions x < 2 ^ 64 \<Longrightarrow> 0 < lv \<Longrightarrow>
      printDotControlRegion t rest = Inr out \<Longrightarrow> next_level rest \<le> lv \<Longrightarrow> (rest \<noteq> [] \<longrightarrow> 0 < next_level rest) \<Longrightarrow>
      \<exists>out'. printDotControlRegion t (preorder lv x @ rest) = Inr out'
        \<and> visible out' = clusters t x @ replicate (lv - next_level rest) ''}'' @ visible out"
    "list_all (represents t) xs" "lv + sum_list (map regions xs) < 2 ^ 64" "0 < lv" "xs \<noteq> []"
    "printDotControlRegion t rest = Inr out" "next_level rest \<le> lv" "rest \<noteq> [] \<longrightarrow> 0 < next_level rest"
  shows "\<exists>out'. printDotControlRegion t (concat (map (preorder lv) xs) @ rest) = Inr out'
    \<and> visible out' = concat (map (clusters t) xs) @ replicate (lv - next_level rest) ''}'' @ visible out"
  using assms
proof (induction xs)
  case Nil
  then show ?case by simp
next
  case (Cons x xs)
  show ?case
  proof (cases xs)
    case Nil
    with Cons.prems(1) [of x lv rest out] Cons.prems(2-) show ?thesis by simp
  next
    case more: (Cons y ys)
    have "\<exists>out'. printDotControlRegion t (concat (map (preorder lv) xs) @ rest) = Inr out'
      \<and> visible out' = concat (map (clusters t) xs) @ replicate (lv - next_level rest) ''}'' @ visible out"
      by (rule Cons.IH [OF Cons.prems(1)]) (use Cons.prems(2-) more in auto)
    then obtain o1 where o1: "printDotControlRegion t (concat (map (preorder lv) xs) @ rest) = Inr o1"
      "visible o1 = concat (map (clusters t) xs) @ replicate (lv - next_level rest) ''}'' @ visible out" by blast
    have nx: "next_level (concat (map (preorder lv) xs) @ rest) = lv" "concat (map (preorder lv) xs) @ rest \<noteq> []"
      using more by (cases y; simp add: next_level_def)+
    from Cons.prems(1) [of x lv "concat (map (preorder lv) xs) @ rest" o1] Cons.prems(2-4) o1(1) nx
    obtain o2 where "printDotControlRegion t (preorder lv x @ concat (map (preorder lv) xs) @ rest) = Inr o2"
      "visible o2 = clusters t x @ visible o1" by auto
    with o1(2) show ?thesis by simp
  qed
qed

lemma print_tree:
  assumes "represents t x" "lv + regions x < 2 ^ 64" "printDotControlRegion t rest = Inr out"
    "next_level rest \<le> lv" "rest \<noteq> [] \<longrightarrow> 0 < next_level rest"
  shows "\<exists>out'. printDotControlRegion t (preorder lv x @ rest) = Inr out'
    \<and> visible out' = clusters t x @ replicate (lv - next_level rest) ''}'' @ visible out"
  using assms
proof (induction x arbitrary: lv rest out)
  case (Region n xs)
  obtain s where s: "printSubgraphDot t n = Inr s" using represents_region [OF Region.prems(1)] by blast
  show ?case
  proof (cases "xs = []")
    case True
    obtain out' where "printDotControlRegion t ((n, lv) # rest) = Inr out'"
      "visible out' = s # replicate (lv + 1 - next_level rest) ''}'' @ visible out"
      using print_step [OF s Region.prems(3), of lv] Region.prems(2,4,5) by auto
    with True s Region.prems(4) show ?thesis by (simp add: Suc_diff_le)
  next
    case False
    have sum: "(lv + 1) + sum_list (map regions xs) < 2 ^ 64" "list_all (represents t) xs"
      using Region.prems(1,2) by simp_all
    obtain o1 where o1: "printDotControlRegion t (concat (map (preorder (lv + 1)) xs) @ rest) = Inr o1"
      "visible o1 = concat (map (clusters t) xs) @ replicate (lv + 1 - next_level rest) ''}'' @ visible out"
    proof -
      have "0 < lv + 1" "next_level rest \<le> lv + 1" using Region.prems(4) by simp_all
      from print_forest [OF Region.IH sum(2,1) this(1) False Region.prems(3) this(2) Region.prems(5)] that
      show ?thesis by blast
    qed
    have nx: "next_level (concat (map (preorder (lv + 1)) xs) @ rest) = lv + 1"
      using False by (cases xs; cases "hd xs"; simp add: next_level_def)
    have "lv + 1 < 2 ^ 64" using Region.prems(2) by simp
    then obtain out' where "printDotControlRegion t ((n, lv) # concat (map (preorder (lv + 1)) xs) @ rest) = Inr out'"
      "visible out' = s # visible o1"
      using print_step [OF s o1(1), of lv] nx by auto
    with o1(2) s Region.prems(4) show ?thesis by (simp add: Suc_diff_le)
  qed
qed

text \<open>The clusters are printed properly nested: each region's text is followed by the clusters of its
  lower regions and by its own closing brace, line ends apart. So the condition of the printing loop,
  which negates a level before comparing it, and the difference of levels, which wraps when the next
  region lies deeper, still give the right number of braces.\<close>

theorem clusters_nested:
  assumes "represents t x" "regions x < 2 ^ 64"
  shows "\<exists>out. printDotControlRegion t (preorder 0 x) = Inr out \<and> visible out = clusters t x"
  using print_tree [OF assms(1), of 0 "[]" "[]"] assms(2) by (simp add: next_level_def)

text \<open>Two nested loops, the inner one with a branch, and a second loop: as declared, and completed.\<close>

definition demo_declared :: controlTree where
  "demo_declared = \<lparr>controlRegionTable =
     [(region_new ''a'' ''Loop'' True)\<lparr>lowerControlRegion := [''d'', ''b'']\<rparr>, region_new ''b'' ''Loop'' True,
      (region_new ''c'' ''Branch'' True)\<lparr>upperControlRegion := ''b''\<rparr>, (region_new ''d'' ''Loop'' True)\<lparr>upperControlRegion := ''a''\<rparr>],
     controlRegionIndexDict = [''a'' \<mapsto> 0, ''b'' \<mapsto> 1, ''c'' \<mapsto> 2, ''d'' \<mapsto> 3]\<rparr>"

definition demo_completed :: controlTree where
  "demo_completed = projr (completeControlRegionHierarchy demo_declared)"

definition demo_region_tree :: region_tree where
  "demo_region_tree = Region ''a'' [Region ''b'' [Region ''c'' []], Region ''d'' []]"

lemma demo_declared_iff:
  "declared demo_declared p c \<longleftrightarrow> (p, c) \<in> {(''a'', ''d''), (''a'', ''b''), (''b'', ''c'')}"
  by (auto simp: declared_def demo_declared_def declares_def region_new_def)

lemma demo_hierarchy_ok: "hierarchy_ok demo_declared"
proof -
  have "tree_ok demo_declared"
    by (simp add: tree_ok_def demo_declared_def region_new_def less_Suc_eq all_conj_distrib insert_commute)
  moreover have "region_names demo_declared = {''a'', ''b'', ''c'', ''d''}"
    by (simp add: region_names_def demo_declared_def region_new_def)
  ultimately show ?thesis unfolding hierarchy_ok_def demo_declared_iff by auto
qed

theorem hierarchy_completed_witness:
  "\<exists>t'. completeControlRegionHierarchy demo_declared = Inr t' \<and> length (controlRegionTable t') = 4
     \<and> upperControlRegion (controlRegionTable t' ! 1) = ''a'' \<and> set (lowerControlRegion (controlRegionTable t' ! 0)) = {''b'', ''d''}"
proof -
  obtain t' where t': "completeControlRegionHierarchy demo_declared = Inr t'"
    and n: "map controlRegionName (controlRegionTable t') = map controlRegionName (controlRegionTable demo_declared)"
    and all: "\<forall>r\<in>set (controlRegionTable t').
         (\<forall>p. upperControlRegion r = p \<and> p \<noteq> [] \<longleftrightarrow> declared demo_declared p (controlRegionName r))
         \<and> (\<forall>c. c \<in> set (lowerControlRegion r) \<longleftrightarrow> declared demo_declared (controlRegionName r) c)
         \<and> sorted (lowerControlRegion r) \<and> distinct (lowerControlRegion r)"
    using hierarchy_completed [OF demo_hierarchy_ok] by blast
  have names: "map controlRegionName (controlRegionTable t') = [''a'', ''b'', ''c'', ''d'']"
    using n by (simp add: demo_declared_def region_new_def)
  have len: "length (controlRegionTable t') = 4" using arg_cong [OF names, of length] by simp
  have nm: "controlRegionName (controlRegionTable t' ! 0) = ''a''" "controlRegionName (controlRegionTable t' ! 1) = ''b''"
    using nth_map [of 0 "controlRegionTable t'" controlRegionName] nth_map [of 1 "controlRegionTable t'" controlRegionName]
    by (simp_all add: names len)
  have mem: "controlRegionTable t' ! 0 \<in> set (controlRegionTable t')" "controlRegionTable t' ! 1 \<in> set (controlRegionTable t')"
    using len by simp_all
  have up: "upperControlRegion (controlRegionTable t' ! 1) = ''a'' \<and> ''a'' \<noteq> [] \<longleftrightarrow> declared demo_declared ''a'' ''b''"
    using bspec [OF all mem(2)] nm(2) by (elim conjE) (simp only:)
  have low: "\<forall>c. c \<in> set (lowerControlRegion (controlRegionTable t' ! 0)) \<longleftrightarrow> declared demo_declared ''a'' c"
    using bspec [OF all mem(1)] nm(1) by (elim conjE) (simp only: simp_thms)
  have "upperControlRegion (controlRegionTable t' ! 1) = ''a''" using up by (simp add: demo_declared_iff)
  moreover have "set (lowerControlRegion (controlRegionTable t' ! 0)) = {''b'', ''d''}"
    using low by (auto simp: demo_declared_iff)
  ultimately show ?thesis using t' len by blast
qed

theorem clusters_nested_witness:
  "\<exists>out. printDotControlRegion demo_completed (preorder 0 demo_region_tree) = Inr out
     \<and> visible out = clusters demo_completed demo_region_tree \<and> length out = 11"
proof -
  have "represents demo_completed demo_region_tree" by code_simp
  moreover have "regions demo_region_tree < 2 ^ 64" by (simp add: demo_region_tree_def)
  ultimately obtain out where "printDotControlRegion demo_completed (preorder 0 demo_region_tree) = Inr out"
    "visible out = clusters demo_completed demo_region_tree" using clusters_nested by blast
  moreover have "length (projr (printDotControlRegion demo_completed (preorder 0 demo_region_tree))) = 11" by code_simp
  ultimately show ?thesis by auto
qed

end
