(* ===== verification/Graph.thy ===== *)
theory Graph
  imports ControlTree DataTypes
begin

text \<open>
  The dataflow graph of an application and the graph of channels made of it (\<open>sim/graph.cpp\<close>): nodes that
  refer to each other by name, in two kinds of connections (data and active). A pointer to a node is its position in
  the list of nodes, the index of names a list of pairs. The pointers to the memory of a load or store
  node are left aside.
\<close>

section \<open>Nodes and graphs (graph.h)\<close>

record node =
  node_name :: string
  node_region :: string
  pre_nodes_data :: "string list"
  next_nodes_data :: "string list"
  pre_nodes_active :: "string list"
  next_nodes_active :: "string list"
  node_subgraphId :: nat

record dfg_node = node +
  dfg_type :: string
  dfg_op :: string
  dfg_constVal :: i32
  dfg_baseAddr :: u64

record chan_node = node +
  cn_type :: string
  cn_op :: string
  chan_mode :: string
  isPhysicalChan :: bool
  cn_size :: nat
  cn_speedup :: nat
  cn_cycle :: nat
  cn_constVal :: "i32 list"
  constLocation :: nat
  cn_baseAddr :: u64

record 'n graph =
  nodes :: "'n list"
  nodeIndexDict :: "(string \<times> nat) list"
  ctrl_tree :: controlTree

definition graph_empty :: "'n graph" where
  "graph_empty = \<lparr>nodes = [], nodeIndexDict = [], ctrl_tree = tree_empty\<rparr>"

definition dfg_node_new :: "string \<Rightarrow> string \<Rightarrow> dfg_node" where
  "dfg_node_new n opr = \<lparr>node_name = n, node_region = [], pre_nodes_data = [], next_nodes_data = [],
     pre_nodes_active = [], next_nodes_active = [], node_subgraphId = 0, dfg_type = ''Normal'', dfg_op = opr,
     dfg_constVal = 0, dfg_baseAddr = 0\<rparr>"

definition chan_node_new :: "string \<Rightarrow> chan_node" where
  "chan_node_new n = \<lparr>node_name = n, node_region = [], pre_nodes_data = [], next_nodes_data = [],
     pre_nodes_active = [], next_nodes_active = [], node_subgraphId = 0, cn_type = ''ChanBase'', cn_op = [],
     chan_mode = ''Normal'', isPhysicalChan = True, cn_size = 2, cn_speedup = 1, cn_cycle = 0, cn_constVal = [],
     constLocation = 0, cn_baseAddr = 0\<rparr>"

section \<open>Operations of class Graph\<close>

definition findNodeIndex :: "'n graph \<Rightarrow> string \<Rightarrow> nat res" where
  "findNodeIndex g n = (case map_of (nodeIndexDict g) n of None \<Rightarrow> Inl (Throw ''Not find this node!'') | Some i \<Rightarrow> Inr i)"

definition findNode :: "'n graph \<Rightarrow> string \<Rightarrow> bool" where
  "findNode g n \<longleftrightarrow> map_of (nodeIndexDict g) n \<noteq> None"

definition getNode :: "'n graph \<Rightarrow> string \<Rightarrow> 'n res" where
  "getNode g n = rbind (findNodeIndex g n) (rnth (nodes g))"

definition on_node :: "string \<Rightarrow> ('n \<Rightarrow> 'n) \<Rightarrow> 'n graph \<Rightarrow> 'n graph res" where
  "on_node n f g = rbind (findNodeIndex g n) (\<lambda>i. rbind (rnth (nodes g) i) (\<lambda>x. Inr (g\<lparr>nodes := (nodes g)[i := f x]\<rparr>)))"

definition app_pre_data :: "string list \<Rightarrow> 'a node_scheme \<Rightarrow> 'a node_scheme" where
  "app_pre_data ms x = x\<lparr>pre_nodes_data := pre_nodes_data x @ ms\<rparr>"

definition app_next_data :: "string list \<Rightarrow> 'a node_scheme \<Rightarrow> 'a node_scheme" where
  "app_next_data ms x = x\<lparr>next_nodes_data := next_nodes_data x @ ms\<rparr>"

definition app_pre_active :: "string list \<Rightarrow> 'a node_scheme \<Rightarrow> 'a node_scheme" where
  "app_pre_active ms x = x\<lparr>pre_nodes_active := pre_nodes_active x @ ms\<rparr>"

definition app_next_active :: "string list \<Rightarrow> 'a node_scheme \<Rightarrow> 'a node_scheme" where
  "app_next_active ms x = x\<lparr>next_nodes_active := next_nodes_active x @ ms\<rparr>"

definition addPreNodesData :: "string \<Rightarrow> string list \<Rightarrow> 'a node_scheme graph \<Rightarrow> 'a node_scheme graph res" where
  "addPreNodesData n ms = on_node n (app_pre_data ms)"

definition addNextNodesData :: "string \<Rightarrow> string list \<Rightarrow> 'a node_scheme graph \<Rightarrow> 'a node_scheme graph res" where
  "addNextNodesData n ms = on_node n (app_next_data ms)"

definition addPreNodesActive :: "string \<Rightarrow> string list \<Rightarrow> 'a node_scheme graph \<Rightarrow> 'a node_scheme graph res" where
  "addPreNodesActive n ms = on_node n (app_pre_active ms)"

definition addNextNodesActive :: "string \<Rightarrow> string list \<Rightarrow> 'a node_scheme graph \<Rightarrow> 'a node_scheme graph res" where
  "addNextNodesActive n ms = on_node n (app_next_active ms)"

text \<open>One of the four loops of \<open>completeConnect\<close>: for every name that a node refers to by \<open>fld\<close>, the node
  with that name is extended by the node's own name.\<close>

definition link :: "('a node_scheme \<Rightarrow> string list) \<Rightarrow> (string list \<Rightarrow> 'a node_scheme \<Rightarrow> 'a node_scheme)
    \<Rightarrow> 'a node_scheme graph \<Rightarrow> 'a node_scheme graph res" where
  "link fld app g = rfold (\<lambda>j g. rbind (rnth (nodes g) j) (\<lambda>x.
     rfold (\<lambda>m. on_node m (app [node_name x])) (fld x) g)) [0..<length (nodes g)] g"

definition completeConnect :: "'a node_scheme graph \<Rightarrow> 'a node_scheme graph res" where
  "completeConnect g =
     rbind (link pre_nodes_data app_next_data g) (\<lambda>g. rbind (link next_nodes_data app_pre_data g) (\<lambda>g.
     rbind (link pre_nodes_active app_next_active g) (link next_nodes_active app_pre_active)))"

definition removeDuplicatesKeepSequence :: "'x list \<Rightarrow> 'x list" where
  "removeDuplicatesKeepSequence v = foldl (\<lambda>t x. if x \<in> set t then t else t @ [x]) [] v"

definition removeRedundantConnect :: "'a node_scheme graph \<Rightarrow> 'a node_scheme graph" where
  "removeRedundantConnect g = g\<lparr>nodes := map (\<lambda>x. x\<lparr>
     pre_nodes_data := removeDuplicatesKeepSequence (pre_nodes_data x),
     next_nodes_data := removeDuplicatesKeepSequence (next_nodes_data x),
     pre_nodes_active := removeDuplicatesKeepSequence (pre_nodes_active x),
     next_nodes_active := removeDuplicatesKeepSequence (next_nodes_active x)\<rparr>) (nodes g)\<rparr>"

definition addNodes2CtrlTree :: "string \<Rightarrow> string list \<Rightarrow> 'a node_scheme graph \<Rightarrow> 'a node_scheme graph res" where
  "addNodes2CtrlTree r ns g =
     rbind (on_region r (\<lambda>x. x\<lparr>region_nodes := region_nodes x @ ns\<rparr>) (ctrl_tree g)) (\<lambda>t.
       rfold (\<lambda>n. on_node n (\<lambda>x. x\<lparr>node_region := r\<rparr>)) ns (g\<lparr>ctrl_tree := t\<rparr>))"

text \<open>The breadth-first traversal of the nodes in a list, from those without a predecessor in the list.\<close>

definition preds :: "'a node_scheme \<Rightarrow> string list" where
  "preds x = pre_nodes_data x @ pre_nodes_active x"

definition succs :: "'a node_scheme \<Rightarrow> string list" where
  "succs x = next_nodes_data x @ next_nodes_active x"

definition root_nodes :: "'a node_scheme graph \<Rightarrow> string list \<Rightarrow> string list res" where
  "root_nodes g ns = rfold (\<lambda>n q. rbind (getNode g n) (\<lambda>x.
     Inr (if list_ex (\<lambda>m. m \<in> set ns) (preds x) then q else q @ [n]))) ns []"

definition visit_succs :: "string list \<Rightarrow> string list \<Rightarrow> string list \<times> string list \<Rightarrow> string list \<times> string list" where
  "visit_succs ns ms s = foldl (\<lambda>(q, vis) m. if m \<in> set ns \<and> m \<notin> set vis then (q @ [m], vis @ [m]) else (q, vis)) s ms"

partial_function (option) bfs_loop ::
  "'a node_scheme graph \<Rightarrow> string list \<Rightarrow> string list \<Rightarrow> string list \<Rightarrow> string list \<Rightarrow> string list res option" where
  [code]: "bfs_loop g ns q vis out =
     (case q of
        [] \<Rightarrow> Some (Inr out)
      | n # _ \<Rightarrow> (case getNode g n of
            Inl e \<Rightarrow> Some (Inl e)
          | Inr x \<Rightarrow> (let s = visit_succs ns (succs x) (q, vis) in bfs_loop g ns (tl (fst s)) (snd s) (out @ [n]))))"

definition bfsTraverseNodes_of :: "'a node_scheme graph \<Rightarrow> string list \<Rightarrow> string list res option" where
  "bfsTraverseNodes_of g ns = (case root_nodes g ns of Inl e \<Rightarrow> Some (Inl e) | Inr q \<Rightarrow> bfs_loop g ns q q [])"

definition bfsTraverseNodes :: "'a node_scheme graph \<Rightarrow> string list res option" where
  "bfsTraverseNodes g = bfsTraverseNodes_of g (map node_name (nodes g))"

partial_function (option) bfs_regions :: "controlTree \<Rightarrow> string list \<Rightarrow> string list \<Rightarrow> string list res option" where
  [code]: "bfs_regions t q out =
     (case q of
        [] \<Rightarrow> Some (Inr out)
      | n # qs \<Rightarrow> (case getCtrlRegion t n of
            Inl e \<Rightarrow> Some (Inl e)
          | Inr r \<Rightarrow> bfs_regions t (qs @ lowerControlRegion r) (out @ [n])))"

definition bfsTraverseControlTree :: "controlTree \<Rightarrow> string list res option" where
  "bfsTraverseControlTree t = (case controlRegionTable t of
     [] \<Rightarrow> Some (Inr []) | r # _ \<Rightarrow> bfs_regions t [controlRegionName r] [])"

end
