(* ===== verification/GraphConnect.thy ===== *)
theory GraphConnect
  imports Graph
begin

text \<open>
  The connections of a graph (\<open>Graph::completeConnect\<close> and \<open>Graph::removeRedundantConnect\<close>,
  \<open>sim/graph.cpp\<close>): completing them makes the two directions agree and keeps the order of the operands.
\<close>

section \<open>Graphs whose index is right\<close>

definition graph_ok :: "'a node_scheme graph \<Rightarrow> bool" where
  "graph_ok g \<longleftrightarrow> distinct (map node_name (nodes g))
     \<and> nodeIndexDict g = zip (map node_name (nodes g)) [0..<length (nodes g)]"

definition node_names :: "'a node_scheme graph \<Rightarrow> string set" where
  "node_names g = node_name ` set (nodes g)"

lemma graph_ok_nth:
  assumes "graph_ok g" "i < length (nodes g)"
  shows "findNodeIndex g (node_name (nodes g ! i)) = Inr i" "getNode g (node_name (nodes g ! i)) = Inr (nodes g ! i)"
proof -
  have "map_of (zip (map node_name (nodes g)) [0..<length (nodes g)]) (map node_name (nodes g) ! i) = Some ([0..<length (nodes g)] ! i)"
    using assms by (intro map_of_zip_nth) (auto simp: graph_ok_def)
  with assms show "findNodeIndex g (node_name (nodes g ! i)) = Inr i" "getNode g (node_name (nodes g ! i)) = Inr (nodes g ! i)"
    by (simp_all add: graph_ok_def findNodeIndex_def getNode_def)
qed

lemma graph_ok_name:
  assumes "graph_ok g" "m \<in> node_names g"
  obtains i where "i < length (nodes g)" "node_name (nodes g ! i) = m" "findNodeIndex g m = Inr i"
proof -
  from assms(2) obtain i where "i < length (nodes g)" "node_name (nodes g ! i) = m"
    by (auto simp: node_names_def in_set_conv_nth)
  with that graph_ok_nth(1) [OF assms(1)] show ?thesis by blast
qed

lemma on_node_map:
  assumes "graph_ok g" "m \<in> node_names g"
  shows "on_node m f g = Inr (g\<lparr>nodes := map (\<lambda>x. if node_name x = m then f x else x) (nodes g)\<rparr>)"
proof -
  obtain i where i: "i < length (nodes g)" "node_name (nodes g ! i) = m" "findNodeIndex g m = Inr i"
    using graph_ok_name [OF assms] .
  have "(nodes g)[i := f (nodes g ! i)] = map (\<lambda>x. if node_name x = m then f x else x) (nodes g)"
  proof (rule nth_equalityI)
    fix j assume "j < length ((nodes g)[i := f (nodes g ! i)])"
    then have j: "j < length (nodes g)" by simp
    have "node_name (nodes g ! j) = m \<longleftrightarrow> j = i"
      using assms(1) i j by (auto simp: graph_ok_def distinct_conv_nth)
    with i j show "(nodes g)[i := f (nodes g ! i)] ! j = map (\<lambda>x. if node_name x = m then f x else x) (nodes g) ! j"
      by (simp add: nth_list_update)
  qed simp
  with i show ?thesis by (simp add: on_node_def)
qed

lemma graph_ok_map:
  assumes "graph_ok g" "\<And>x. x \<in> set (nodes g) \<Longrightarrow> node_name (f x) = node_name x"
  shows "graph_ok (g\<lparr>nodes := map f (nodes g)\<rparr>)" "node_names (g\<lparr>nodes := map f (nodes g)\<rparr>) = node_names g"
proof -
  have m: "map (node_name \<circ> f) (nodes g) = map node_name (nodes g)" using assms(2) by simp
  then have "map node_name (map f (nodes g)) = map node_name (nodes g)" by simp
  with assms(1) show "graph_ok (g\<lparr>nodes := map f (nodes g)\<rparr>)" by (simp add: graph_ok_def del: map_map)
  have "node_name ` set (map f (nodes g)) = node_name ` set (nodes g)"
    using arg_cong [OF m, of set] by (simp add: image_comp)
  then show "node_names (g\<lparr>nodes := map f (nodes g)\<rparr>) = node_names g" by (simp add: node_names_def)
qed

section \<open>One loop of the completion\<close>

text \<open>A list of names and an operation that extends another one of the same node.\<close>

locale connection =
  fixes fld :: "'a node_scheme \<Rightarrow> string list"
    and app :: "string list \<Rightarrow> 'a node_scheme \<Rightarrow> 'a node_scheme"
  assumes app_name: "node_name (app ms x) = node_name x"
    and app_fld: "fld (app ms x) = fld x"
    and app_Nil: "app [] x = x"
    and app_app: "app ns (app ms x) = app (ms @ ns) x"
begin

text \<open>The names that the loop adds to a node.\<close>

definition extra :: "'a node_scheme list \<Rightarrow> 'a node_scheme \<Rightarrow> string list" where
  "extra ys x = concat (map (\<lambda>y. map (\<lambda>_. node_name y) (filter (\<lambda>m. m = node_name x) (fld y))) ys)"

lemma extra_set: "n \<in> set (extra ys x) \<longleftrightarrow> (\<exists>y\<in>set ys. node_name y = n \<and> node_name x \<in> set (fld y))"
  by (auto simp: extra_def)

lemma extra_cong: "node_name x' = node_name x \<Longrightarrow> extra ys x' = extra ys x"
  by (simp add: extra_def)

lemma inner_loop:
  assumes "graph_ok g" "set ms \<subseteq> node_names g"
  shows "rfold (\<lambda>m. on_node m (app [n])) ms g
    = Inr (g\<lparr>nodes := map (\<lambda>x. app (map (\<lambda>_. n) (filter (\<lambda>m. m = node_name x) ms)) x) (nodes g)\<rparr>)"
  using assms
proof (induction ms arbitrary: g)
  case Nil
  then show ?case by (simp add: app_Nil)
next
  case (Cons m ms)
  let ?f = "\<lambda>x. if node_name x = m then app [n] x else x"
  let ?g = "g\<lparr>nodes := map ?f (nodes g)\<rparr>"
  have f: "node_name (?f x) = node_name x" for x by (simp add: app_name)
  have ok: "graph_ok ?g" "node_names ?g = node_names g" using graph_ok_map [OF Cons.prems(1), of ?f] f by blast+
  have "rfold (\<lambda>m. on_node m (app [n])) (m # ms) g = rfold (\<lambda>m. on_node m (app [n])) ms ?g"
    using on_node_map [OF Cons.prems(1), of m "app [n]"] Cons.prems(2) by simp
  also have "\<dots> = Inr (?g\<lparr>nodes := map (\<lambda>x. app (map (\<lambda>_. n) (filter (\<lambda>m. m = node_name x) ms)) x) (nodes ?g)\<rparr>)"
    using Cons.prems(2) ok by (intro Cons.IH) simp_all
  also have "\<dots> = Inr (g\<lparr>nodes := map (\<lambda>x. app (map (\<lambda>_. n) (filter (\<lambda>k. k = node_name x) (m # ms))) x) (nodes g)\<rparr>)"
    by (simp add: comp_def app_name app_app)
  finally show ?case .
qed

lemma link_prefix:
  assumes "graph_ok g" "\<And>x. x \<in> set (nodes g) \<Longrightarrow> set (fld x) \<subseteq> node_names g" "k \<le> length (nodes g)"
  shows "rfold (\<lambda>j g. rbind (rnth (nodes g) j) (\<lambda>x. rfold (\<lambda>m. on_node m (app [node_name x])) (fld x) g)) [0..<k] g
    = Inr (g\<lparr>nodes := map (\<lambda>x. app (extra (take k (nodes g)) x) x) (nodes g)\<rparr>)"
  using assms(3)
proof (induction k)
  case 0
  then show ?case by (simp add: extra_def app_Nil)
next
  case (Suc k)
  let ?f = "\<lambda>x. app (extra (take k (nodes g)) x) x"
  let ?g = "g\<lparr>nodes := map ?f (nodes g)\<rparr>"
  let ?y = "nodes g ! k"
  have k: "k < length (nodes g)" using Suc.prems by simp
  have ok: "graph_ok ?g" "node_names ?g = node_names g" using graph_ok_map [OF assms(1), of ?f] by (simp_all add: app_name)
  have "set (fld ?y) \<subseteq> node_names ?g" using assms(2) [of ?y] k ok(2) by simp
  from inner_loop [OF ok(1) this, of "node_name ?y"]
  have step: "rfold (\<lambda>m. on_node m (app [node_name ?y])) (fld ?y) ?g
    = Inr (g\<lparr>nodes := map (\<lambda>x. app (extra (take (Suc k) (nodes g)) x) x) (nodes g)\<rparr>)"
    using k by (simp add: comp_def app_name app_app take_Suc_conv_app_nth extra_def)
  with Suc.IH k show ?case by (simp add: rfold_append app_name app_fld)
qed

lemma link_eq:
  assumes "graph_ok g" "\<And>x. x \<in> set (nodes g) \<Longrightarrow> set (fld x) \<subseteq> node_names g"
  shows "link fld app g = Inr (g\<lparr>nodes := map (\<lambda>x. app (extra (nodes g) x) x) (nodes g)\<rparr>)"
  using link_prefix [OF assms order_refl] by (simp add: link_def)

end

interpretation pre_data: connection pre_nodes_data app_next_data
  by unfold_locales (simp_all add: app_next_data_def)

interpretation next_data: connection next_nodes_data app_pre_data
  by unfold_locales (simp_all add: app_pre_data_def)

interpretation pre_active: connection pre_nodes_active app_next_active
  by unfold_locales (simp_all add: app_next_active_def)

interpretation next_active: connection next_nodes_active app_pre_active
  by unfold_locales (simp_all add: app_pre_active_def)

section \<open>Removing duplicates\<close>

lemma dedup_set: "set (removeDuplicatesKeepSequence v) = set v"
  unfolding removeDuplicatesKeepSequence_def by (induction v rule: rev_induct) auto

lemma dedup_distinct: "distinct (removeDuplicatesKeepSequence v)"
  unfolding removeDuplicatesKeepSequence_def by (induction v rule: rev_induct) auto

lemma dedup_append: "\<exists>zs. removeDuplicatesKeepSequence (v @ w) = removeDuplicatesKeepSequence v @ zs"
proof (induction w rule: rev_induct)
  case Nil
  show ?case by simp
next
  case (snoc x w)
  then obtain zs where "removeDuplicatesKeepSequence (v @ w) = removeDuplicatesKeepSequence v @ zs" by blast
  then show ?case
    unfolding removeDuplicatesKeepSequence_def by (simp flip: append_assoc) (metis append_assoc)
qed

lemma dedup_id: "distinct v \<Longrightarrow> removeDuplicatesKeepSequence v = v"
  unfolding removeDuplicatesKeepSequence_def by (induction v rule: rev_induct) auto

section \<open>The completed connections\<close>

definition data_edge :: "'a node_scheme graph \<Rightarrow> string \<Rightarrow> string \<Rightarrow> bool" where
  "data_edge g u v \<longleftrightarrow> (\<exists>x\<in>set (nodes g). node_name x = u \<and> v \<in> set (next_nodes_data x) \<or> node_name x = v \<and> u \<in> set (pre_nodes_data x))"

definition active_edge :: "'a node_scheme graph \<Rightarrow> string \<Rightarrow> string \<Rightarrow> bool" where
  "active_edge g u v \<longleftrightarrow> (\<exists>x\<in>set (nodes g). node_name x = u \<and> v \<in> set (next_nodes_active x) \<or> node_name x = v \<and> u \<in> set (pre_nodes_active x))"

definition known_names :: "'a node_scheme graph \<Rightarrow> bool" where
  "known_names g \<longleftrightarrow> (\<forall>x\<in>set (nodes g). set (pre_nodes_data x) \<union> set (next_nodes_data x)
     \<union> set (pre_nodes_active x) \<union> set (next_nodes_active x) \<subseteq> node_names g)"

lemma node_name_inj: "graph_ok g \<Longrightarrow> x \<in> set (nodes g) \<Longrightarrow> y \<in> set (nodes g) \<Longrightarrow> node_name x = node_name y \<Longrightarrow> x = y"
  by (auto simp: graph_ok_def distinct_map inj_on_def)

text \<open>The state of a node after the four loops.\<close>

definition connected :: "'a node_scheme list \<Rightarrow> 'a node_scheme \<Rightarrow> 'a node_scheme" where
  "connected xs x = (let ys = map (\<lambda>x. app_next_data (pre_data.extra xs x) x) xs;
       zs = map (\<lambda>x. app_next_active (pre_active.extra xs x) x) xs in
     x\<lparr>pre_nodes_data := pre_nodes_data x @ next_data.extra ys x, next_nodes_data := next_nodes_data x @ pre_data.extra xs x,
       pre_nodes_active := pre_nodes_active x @ next_active.extra zs x, next_nodes_active := next_nodes_active x @ pre_active.extra xs x\<rparr>)"

lemma extra_fld_cong:
  assumes "connection fld app" "map (\<lambda>y. (node_name y, fld y)) ys = map (\<lambda>y. (node_name y, fld y)) xs"
  shows "connection.extra fld ys x = connection.extra fld xs x"
proof -
  have e: "connection.extra fld zs x = concat (map ((\<lambda>(n, ms). map (\<lambda>_. n) (filter (\<lambda>m. m = node_name x) ms)) \<circ> (\<lambda>y. (node_name y, fld y))) zs)" for zs
    by (simp add: connection.extra_def [OF assms(1)] comp_def)
  show ?thesis unfolding e map_map [symmetric] assms(2) ..
qed

lemma completeConnect_eq:
  assumes "graph_ok g" "known_names g"
  shows "completeConnect g = Inr (g\<lparr>nodes := map (connected (nodes g)) (nodes g)\<rparr>)"
proof -
  let ?e1 = "pre_data.extra (nodes g)"
  let ?f1 = "\<lambda>x. app_next_data (?e1 x) x"
  let ?ys = "map ?f1 (nodes g)"
  let ?f2 = "\<lambda>x. app_pre_data (next_data.extra ?ys x) (?f1 x)"
  let ?e3 = "pre_active.extra (nodes g)"
  let ?f3 = "\<lambda>x. app_next_active (?e3 x) (?f2 x)"
  let ?zs = "map (\<lambda>x. app_next_active (?e3 x) x) (nodes g)"
  have known: "set (pre_nodes_data x) \<subseteq> node_names g" "set (next_nodes_data x) \<subseteq> node_names g"
    "set (pre_nodes_active x) \<subseteq> node_names g" "set (next_nodes_active x) \<subseteq> node_names g" if "x \<in> set (nodes g)" for x
    using assms(2) that by (auto simp: known_names_def)
  have name: "node_name (?f1 x) = node_name x" "node_name (?f2 x) = node_name x" "node_name (?f3 x) = node_name x" for x
    by (simp_all add: app_next_data_def app_pre_data_def app_next_active_def)
  note ok1 = graph_ok_map [OF assms(1), of ?f1, OF name(1)]
  note ok2 = graph_ok_map [OF assms(1), of ?f2, OF name(2)]
  note ok3 = graph_ok_map [OF assms(1), of ?f3, OF name(3)]
  have 1: "link pre_nodes_data app_next_data g = Inr (g\<lparr>nodes := ?ys\<rparr>)"
    using known(1) by (intro pre_data.link_eq [OF assms(1)]) simp
  have "set (next_nodes_data y) \<subseteq> node_names (g\<lparr>nodes := ?ys\<rparr>)" if "y \<in> set ?ys" for y
    unfolding ok1(2) using that
    by (auto simp: app_next_data_def pre_data.extra_set node_names_def dest: known(2) [unfolded node_names_def, THEN subsetD])
  with next_data.link_eq [OF ok1(1)]
  have 2: "link next_nodes_data app_pre_data (g\<lparr>nodes := ?ys\<rparr>) = Inr (g\<lparr>nodes := map ?f2 (nodes g)\<rparr>)"
    by (simp add: comp_def next_data.extra_cong [OF name(1)])
  have e3: "pre_active.extra (map ?f2 (nodes g)) x = ?e3 x" for x
    by (rule extra_fld_cong [OF pre_active.connection_axioms]) (simp add: app_next_data_def app_pre_data_def)
  have "set (pre_nodes_active y) \<subseteq> node_names (g\<lparr>nodes := map ?f2 (nodes g)\<rparr>)" if "y \<in> set (map ?f2 (nodes g))" for y
    unfolding ok2(2) using that
    by (auto simp: app_next_data_def app_pre_data_def node_names_def dest: known(3) [unfolded node_names_def, THEN subsetD])
  with pre_active.link_eq [OF ok2(1)]
  have 3: "link pre_nodes_active app_next_active (g\<lparr>nodes := map ?f2 (nodes g)\<rparr>) = Inr (g\<lparr>nodes := map ?f3 (nodes g)\<rparr>)"
    by (simp add: comp_def e3 pre_active.extra_cong [OF name(2)])
  have e4: "next_active.extra (map ?f3 (nodes g)) x = next_active.extra ?zs x" for x
    by (rule extra_fld_cong [OF next_active.connection_axioms]) (simp add: app_next_data_def app_pre_data_def app_next_active_def)
  have "set (next_nodes_active y) \<subseteq> node_names (g\<lparr>nodes := map ?f3 (nodes g)\<rparr>)" if "y \<in> set (map ?f3 (nodes g))" for y
    unfolding ok3(2) using that
    by (auto simp: app_next_data_def app_pre_data_def app_next_active_def pre_active.extra_set node_names_def
        dest: known(4) [unfolded node_names_def, THEN subsetD])
  with next_active.link_eq [OF ok3(1)]
  have 4: "link next_nodes_active app_pre_active (g\<lparr>nodes := map ?f3 (nodes g)\<rparr>)
      = Inr (g\<lparr>nodes := map (\<lambda>x. app_pre_active (next_active.extra ?zs x) (?f3 x)) (nodes g)\<rparr>)"
    by (simp add: comp_def e4 next_active.extra_cong [OF name(3)])
  have "app_pre_active (next_active.extra ?zs x) (?f3 x) = connected (nodes g) x" for x
    by (simp add: connected_def app_next_data_def app_pre_data_def app_next_active_def app_pre_active_def)
  with 1 2 3 4 show ?thesis by (simp add: completeConnect_def)
qed

lemma connected_sets:
  assumes "graph_ok g" "known_names g" "x \<in> set (nodes g)"
  shows "n \<in> set (next_nodes_data (connected (nodes g) x)) \<longleftrightarrow> data_edge g (node_name x) n"
    "n \<in> set (pre_nodes_data (connected (nodes g) x)) \<longleftrightarrow> data_edge g n (node_name x)"
    "n \<in> set (next_nodes_active (connected (nodes g) x)) \<longleftrightarrow> active_edge g (node_name x) n"
    "n \<in> set (pre_nodes_active (connected (nodes g) x)) \<longleftrightarrow> active_edge g n (node_name x)"
proof -
  note inj = node_name_inj [OF assms(1)]
  have known: "m \<in> set (pre_nodes_data y) \<union> set (next_nodes_data y) \<union> set (pre_nodes_active y) \<union> set (next_nodes_active y)
      \<Longrightarrow> \<exists>z\<in>set (nodes g). node_name z = m" if "y \<in> set (nodes g)" for m y
    using assms(2) that unfolding known_names_def node_names_def by (auto dest!: bspec [of _ _ y])
  show nd: "n \<in> set (next_nodes_data (connected (nodes g) x)) \<longleftrightarrow> data_edge g (node_name x) n"
    using inj assms(3) by (auto simp: connected_def data_edge_def pre_data.extra_set)
  show na: "n \<in> set (next_nodes_active (connected (nodes g) x)) \<longleftrightarrow> active_edge g (node_name x) n"
    using inj assms(3) by (auto simp: connected_def active_edge_def pre_active.extra_set)
  have "n \<in> set (pre_nodes_data (connected (nodes g) x)) \<longleftrightarrow> n \<in> set (pre_nodes_data x)
      \<or> (\<exists>y\<in>set (nodes g). node_name y = n \<and> (node_name x \<in> set (next_nodes_data y)
          \<or> (\<exists>z\<in>set (nodes g). node_name z = node_name x \<and> n \<in> set (pre_nodes_data z))))"
    by (auto simp: connected_def next_data.extra_set pre_data.extra_set app_next_data_def)
  also have "\<dots> \<longleftrightarrow> data_edge g n (node_name x)"
    using inj assms(3) known [OF assms(3)] unfolding data_edge_def by blast
  finally show "n \<in> set (pre_nodes_data (connected (nodes g) x)) \<longleftrightarrow> data_edge g n (node_name x)" .
  have "n \<in> set (pre_nodes_active (connected (nodes g) x)) \<longleftrightarrow> n \<in> set (pre_nodes_active x)
      \<or> (\<exists>y\<in>set (nodes g). node_name y = n \<and> (node_name x \<in> set (next_nodes_active y)
          \<or> (\<exists>z\<in>set (nodes g). node_name z = node_name x \<and> n \<in> set (pre_nodes_active z))))"
    by (auto simp: connected_def next_active.extra_set pre_active.extra_set app_next_active_def)
  also have "\<dots> \<longleftrightarrow> active_edge g n (node_name x)"
    using inj assms(3) known [OF assms(3)] unfolding active_edge_def by blast
  finally show "n \<in> set (pre_nodes_active (connected (nodes g) x)) \<longleftrightarrow> active_edge g n (node_name x)" .
qed

text \<open>C22: completing the connections of a graph and removing the repetitions makes its two directions
  agree: afterwards a node names exactly the nodes to which it is connected by its own declaration or
  by theirs, on both sides of every connection and without repetition, and its operands keep their
  declared order, in front of the connections that only the other side declares.\<close>

theorem connections_completed:
  assumes "graph_ok g" "known_names g"
  shows "\<exists>g'. rbind (completeConnect g) (\<lambda>g. Inr (removeRedundantConnect g)) = Inr g'
    \<and> map node_name (nodes g') = map node_name (nodes g)
    \<and> (\<forall>i<length (nodes g). let x = nodes g ! i; y = nodes g' ! i in
         (\<forall>n. n \<in> set (next_nodes_data y) \<longleftrightarrow> data_edge g (node_name x) n)
       \<and> (\<forall>n. n \<in> set (pre_nodes_data y) \<longleftrightarrow> data_edge g n (node_name x))
       \<and> (\<forall>n. n \<in> set (next_nodes_active y) \<longleftrightarrow> active_edge g (node_name x) n)
       \<and> (\<forall>n. n \<in> set (pre_nodes_active y) \<longleftrightarrow> active_edge g n (node_name x))
       \<and> distinct (next_nodes_data y) \<and> distinct (pre_nodes_data y)
       \<and> distinct (next_nodes_active y) \<and> distinct (pre_nodes_active y)
       \<and> (\<exists>ms. pre_nodes_data y = removeDuplicatesKeepSequence (pre_nodes_data x) @ ms))"
proof -
  define g' where "g' = removeRedundantConnect (g\<lparr>nodes := map (connected (nodes g)) (nodes g)\<rparr>)"
  have run: "rbind (completeConnect g) (\<lambda>g. Inr (removeRedundantConnect g)) = Inr g'"
    using completeConnect_eq [OF assms] by (simp add: g'_def)
  have "map node_name (nodes g') = map node_name (nodes g)"
    by (simp add: g'_def removeRedundantConnect_def connected_def Let_def)
  moreover have "let x = nodes g ! i; y = nodes g' ! i in
         (\<forall>n. n \<in> set (next_nodes_data y) \<longleftrightarrow> data_edge g (node_name x) n)
       \<and> (\<forall>n. n \<in> set (pre_nodes_data y) \<longleftrightarrow> data_edge g n (node_name x))
       \<and> (\<forall>n. n \<in> set (next_nodes_active y) \<longleftrightarrow> active_edge g (node_name x) n)
       \<and> (\<forall>n. n \<in> set (pre_nodes_active y) \<longleftrightarrow> active_edge g n (node_name x))
       \<and> distinct (next_nodes_data y) \<and> distinct (pre_nodes_data y)
       \<and> distinct (next_nodes_active y) \<and> distinct (pre_nodes_active y)
       \<and> (\<exists>ms. pre_nodes_data y = removeDuplicatesKeepSequence (pre_nodes_data x) @ ms)" if i: "i < length (nodes g)" for i
  proof -
    let ?x = "nodes g ! i"
    let ?y = "connected (nodes g) ?x"
    have x: "?x \<in> set (nodes g)" using i by simp
    have y: "nodes g' ! i = ?y\<lparr>
       pre_nodes_data := removeDuplicatesKeepSequence (pre_nodes_data ?y),
       next_nodes_data := removeDuplicatesKeepSequence (next_nodes_data ?y),
       pre_nodes_active := removeDuplicatesKeepSequence (pre_nodes_active ?y),
       next_nodes_active := removeDuplicatesKeepSequence (next_nodes_active ?y)\<rparr>"
      using i by (simp add: g'_def removeRedundantConnect_def)
    obtain ms where "pre_nodes_data ?y = pre_nodes_data ?x @ ms" by (simp add: connected_def Let_def)
    then obtain zs where "removeDuplicatesKeepSequence (pre_nodes_data ?y) = removeDuplicatesKeepSequence (pre_nodes_data ?x) @ zs"
      using dedup_append by metis
    then have last: "pre_nodes_data (nodes g' ! i) = removeDuplicatesKeepSequence (pre_nodes_data ?x) @ zs" by (simp add: y)
    show ?thesis
      unfolding Let_def by (intro conjI allI exI [of _ zs] last) (simp_all add: y dedup_set dedup_distinct connected_sets [OF assms x])
  qed
  ultimately show ?thesis using run by blast
qed

text \<open>An addition of a constant and a loaded value, whose store names the addition only.\<close>

definition demo_dfg :: "dfg_node graph" where
  "demo_dfg = \<lparr>nodes = [(dfg_node_new ''ld'' ''Load'')\<lparr>next_nodes_data := [''sum'']\<rparr>,
      (dfg_node_new ''sum'' ''Add'')\<lparr>pre_nodes_data := [''k'', ''ld'', ''k'']\<rparr>,
      (dfg_node_new ''k'' ''Const'')\<lparr>dfg_type := ''Const''\<rparr>,
      (dfg_node_new ''st'' ''Store'')\<lparr>pre_nodes_data := [''sum'']\<rparr>],
     nodeIndexDict = [(''ld'', 0), (''sum'', 1), (''k'', 2), (''st'', 3)], ctrl_tree = tree_empty\<rparr>"

theorem connections_completed_witness:
  "\<exists>g'. rbind (completeConnect demo_dfg) (\<lambda>g. Inr (removeRedundantConnect g)) = Inr g'
    \<and> distinct (pre_nodes_data (nodes g' ! 1)) \<and> (''st'' \<in> set (next_nodes_data (nodes g' ! 1)))
    \<and> pre_nodes_data (nodes g' ! 1) = [''k'', ''ld'']"
proof -
  have "graph_ok demo_dfg" "known_names demo_dfg" by code_simp+
  from connections_completed [OF this] obtain g' where r: "rbind (completeConnect demo_dfg) (\<lambda>g. Inr (removeRedundantConnect g)) = Inr g'"
    and all: "\<forall>i<length (nodes demo_dfg). let x = nodes demo_dfg ! i; y = nodes g' ! i in
         (\<forall>n. n \<in> set (next_nodes_data y) \<longleftrightarrow> data_edge demo_dfg (node_name x) n)
       \<and> (\<forall>n. n \<in> set (pre_nodes_data y) \<longleftrightarrow> data_edge demo_dfg n (node_name x))
       \<and> (\<forall>n. n \<in> set (next_nodes_active y) \<longleftrightarrow> active_edge demo_dfg (node_name x) n)
       \<and> (\<forall>n. n \<in> set (pre_nodes_active y) \<longleftrightarrow> active_edge demo_dfg n (node_name x))
       \<and> distinct (next_nodes_data y) \<and> distinct (pre_nodes_data y)
       \<and> distinct (next_nodes_active y) \<and> distinct (pre_nodes_active y)
       \<and> (\<exists>ms. pre_nodes_data y = removeDuplicatesKeepSequence (pre_nodes_data x) @ ms)" by (elim exE conjE)
  have one: "1 < length (nodes demo_dfg)" by (simp add: demo_dfg_def)
  note all1 = mp [OF spec [OF all] one, unfolded Let_def]
  have "data_edge demo_dfg (node_name (nodes demo_dfg ! 1)) ''st''" by code_simp
  then have "''st'' \<in> set (next_nodes_data (nodes g' ! 1))" "distinct (pre_nodes_data (nodes g' ! 1))" using all1 by blast+
  moreover have "pre_nodes_data (nodes (projr (rbind (completeConnect demo_dfg) (\<lambda>g. Inr (removeRedundantConnect g)))) ! 1) = [''k'', ''ld'']"
    by code_simp
  ultimately show ?thesis using r by auto
qed

end
