(* ===== verification/GraphTraverse.thy ===== *)
theory GraphTraverse
  imports GraphConnect
begin

text \<open>
  The breadth-first traversals of \<open>sim/graph.cpp\<close>, in which the simulation and configuration sequences
  are generated: they return, list nothing twice, and list exactly what can be reached.
\<close>

section \<open>Nodes\<close>

definition the_node :: "'a node_scheme graph \<Rightarrow> string \<Rightarrow> 'a node_scheme" where
  "the_node g n = projr (getNode g n)"

lemma getNode_known: "graph_ok g \<Longrightarrow> n \<in> node_names g \<Longrightarrow> getNode g n = Inr (the_node g n) \<and> node_name (the_node g n) = n"
  by (metis graph_ok_name graph_ok_nth(2) the_node_def sum.sel(2))

lemma the_node_nth: "graph_ok g \<Longrightarrow> i < length (nodes g) \<Longrightarrow> the_node g (node_name (nodes g ! i)) = nodes g ! i"
  by (simp add: the_node_def graph_ok_nth)

text \<open>The nodes of a list without a predecessor in the list, and the steps to a successor in the list.\<close>

definition is_root :: "'a node_scheme graph \<Rightarrow> string list \<Rightarrow> string \<Rightarrow> bool" where
  "is_root g ns n \<longleftrightarrow> n \<in> set ns \<and> set (preds (the_node g n)) \<inter> set ns = {}"

definition succ_rel :: "'a node_scheme graph \<Rightarrow> string list \<Rightarrow> (string \<times> string) set" where
  "succ_rel g ns = {(u, v). u \<in> set ns \<and> v \<in> set (succs (the_node g u)) \<and> v \<in> set ns}"

lemma root_nodes_eq:
  assumes "graph_ok g" "set ns \<subseteq> node_names g"
  shows "root_nodes g ns = Inr (filter (is_root g ns) ns)"
proof -
  have "rfold (\<lambda>n q. rbind (getNode g n) (\<lambda>x. Inr (if list_ex (\<lambda>m. m \<in> set ns) (preds x) then q else q @ [n]))) ms q
      = Inr (q @ filter (is_root g ns) ms)" if "set ms \<subseteq> set ns" for ms q
    using that
  proof (induction ms arbitrary: q)
    case Nil
    then show ?case by simp
  next
    case (Cons n ms)
    then have "getNode g n = Inr (the_node g n)" using getNode_known [OF assms(1)] assms(2) by auto
    moreover have "list_ex (\<lambda>m. m \<in> set ns) (preds (the_node g n)) \<longleftrightarrow> \<not> is_root g ns n"
      using Cons.prems by (auto simp: is_root_def list_ex_iff)
    ultimately show ?case using Cons by simp
  qed
  from this [of ns "[]"] show ?thesis by (simp add: root_nodes_def)
qed

lemma visit_succs_eq:
  assumes "distinct vis" "set vis \<subseteq> set ns"
  shows "\<exists>new. visit_succs ns ms (q, vis) = (q @ new, vis @ new) \<and> distinct (vis @ new) \<and> set (vis @ new) \<subseteq> set ns
    \<and> set new \<subseteq> set ms \<and> (\<forall>m\<in>set ms. m \<in> set ns \<longrightarrow> m \<in> set (vis @ new))"
  using assms
proof (induction ms arbitrary: q vis)
  case Nil
  then show ?case by (simp add: visit_succs_def)
next
  case (Cons m ms)
  show ?case
  proof (cases "m \<in> set ns \<and> m \<notin> set vis")
    case True
    with Cons.IH [of "vis @ [m]" "q @ [m]"] Cons.prems obtain new where
      "visit_succs ns ms (q @ [m], vis @ [m]) = ((q @ [m]) @ new, (vis @ [m]) @ new)" "distinct ((vis @ [m]) @ new)"
      "set ((vis @ [m]) @ new) \<subseteq> set ns" "set new \<subseteq> set ms" "\<forall>k\<in>set ms. k \<in> set ns \<longrightarrow> k \<in> set ((vis @ [m]) @ new)" by auto
    with True show ?thesis by (intro exI [of _ "m # new"]) (auto simp: visit_succs_def)
  next
    case False
    with Cons.IH [of vis q] Cons.prems obtain new where
      "visit_succs ns ms (q, vis) = (q @ new, vis @ new)" "distinct (vis @ new)"
      "set (vis @ new) \<subseteq> set ns" "set new \<subseteq> set ms" "\<forall>k\<in>set ms. k \<in> set ns \<longrightarrow> k \<in> set (vis @ new)" by blast
    with False show ?thesis by (intro exI [of _ new]) (auto simp: visit_succs_def)
  qed
qed

lemma bfs_loop_total:
  assumes "graph_ok g" "set ns \<subseteq> node_names g" "distinct (out @ q)" "set (out @ q) \<subseteq> set ns"
    "succ_rel g ns `` set out \<subseteq> set (out @ q)"
  shows "\<exists>res. bfs_loop g ns q (out @ q) out = Some (Inr res) \<and> distinct res
    \<and> set (out @ q) \<subseteq> set res \<and> set res \<subseteq> (succ_rel g ns)\<^sup>* `` set (out @ q) \<and> succ_rel g ns `` set res \<subseteq> set res"
  using assms(3-5)
proof (induction "card (set ns) - length out" arbitrary: out q rule: less_induct)
  case less
  show ?case
  proof (cases q)
    case Nil
    with less.prems show ?thesis by (simp add: bfs_loop.simps) blast
  next
    case (Cons n qs)
    have n: "n \<in> set ns" "getNode g n = Inr (the_node g n)"
      using less.prems(2) Cons getNode_known [OF assms(1), of n] assms(2) by auto
    obtain new where new: "visit_succs ns (succs (the_node g n)) (q, out @ q) = (q @ new, (out @ q) @ new)"
      "distinct ((out @ q) @ new)" "set ((out @ q) @ new) \<subseteq> set ns" "set new \<subseteq> set (succs (the_node g n))"
      "\<forall>m\<in>set (succs (the_node g n)). m \<in> set ns \<longrightarrow> m \<in> set ((out @ q) @ new)"
      using visit_succs_eq [OF less.prems(1,2)] by blast
    let ?out = "out @ [n]" and ?q = "qs @ new"
    have eq: "(out @ q) @ new = ?out @ ?q" using Cons by simp
    have step: "bfs_loop g ns q (out @ q) out = bfs_loop g ns ?q (?out @ ?q) ?out"
      using Cons n(2) new(1) by (subst bfs_loop.simps) (simp add: Let_def)
    have "length (out @ q) \<le> card (set ns)"
      using less.prems(1,2) by (metis List.finite_set card_mono distinct_card)
    then have dec: "card (set ns) - length ?out < card (set ns) - length out" using Cons by simp
    have closed: "succ_rel g ns `` set ?out \<subseteq> set (?out @ ?q)"
    proof
      fix v assume "v \<in> succ_rel g ns `` set ?out"
      then obtain u where u: "(u, v) \<in> succ_rel g ns" "u \<in> set out \<or> u = n" by auto
      then show "v \<in> set (?out @ ?q)"
        using less.prems(3) new(5) Cons unfolding eq [symmetric] succ_rel_def by auto
    qed
    from less.hyps [OF dec new(2) [unfolded eq] new(3) [unfolded eq] closed] obtain res where
      res: "bfs_loop g ns ?q (?out @ ?q) ?out = Some (Inr res)" "distinct res" "set (?out @ ?q) \<subseteq> set res"
      "set res \<subseteq> (succ_rel g ns)\<^sup>* `` set (?out @ ?q)" "succ_rel g ns `` set res \<subseteq> set res" by blast
    have "set new \<subseteq> succ_rel g ns `` {n}" using new(3,4) n(1) by (auto simp: succ_rel_def)
    then have "set (?out @ ?q) \<subseteq> (succ_rel g ns)\<^sup>* `` set (out @ q)" unfolding eq [symmetric] using Cons by fastforce
    then have "(succ_rel g ns)\<^sup>* `` set (?out @ ?q) \<subseteq> (succ_rel g ns)\<^sup>* `` set (out @ q)"
      by (metis Image_mono relcomp_Image rtrancl_idemp_self_comp subset_refl)
    with res step show ?thesis unfolding eq [symmetric] by auto
  qed
qed

lemma bfs_total:
  assumes "graph_ok g" "distinct ns" "set ns \<subseteq> node_names g"
  shows "\<exists>out. bfsTraverseNodes_of g ns = Some (Inr out) \<and> distinct out
    \<and> set out = (succ_rel g ns)\<^sup>* `` {n. is_root g ns n}"
proof -
  let ?q = "filter (is_root g ns) ns"
  obtain out where out: "bfs_loop g ns ?q ([] @ ?q) [] = Some (Inr out)" "distinct out" "set ([] @ ?q) \<subseteq> set out"
    "set out \<subseteq> (succ_rel g ns)\<^sup>* `` set ([] @ ?q)" "succ_rel g ns `` set out \<subseteq> set out"
    using bfs_loop_total [OF assms(1,3), of "[]" ?q] assms(2) by auto
  have roots: "set ?q = {n. is_root g ns n}" by (auto simp: is_root_def)
  have "(succ_rel g ns)\<^sup>* `` set ?q \<subseteq> set out"
    using Image_closed_trancl [OF out(5)] out(3) by (metis Image_mono append_Nil subset_refl)
  with out roots have "set out = (succ_rel g ns)\<^sup>* `` {n. is_root g ns n}" by auto
  moreover have "bfsTraverseNodes_of g ns = Some (Inr out)"
    using out(1) root_nodes_eq [OF assms(1,3)] by (simp add: bfsTraverseNodes_of_def)
  ultimately show ?thesis using out(2) by blast
qed

text \<open>C23: the traversal of a list of nodes returns; it lists each node at most once, starting from the
  nodes without a predecessor in the list, and lists exactly the nodes of the list that can be reached
  from those within the list. So a node on a cycle of the list is only visited when the cycle can be
  entered.\<close>

theorem bfs_visits_reachable:
  assumes "graph_ok g" "distinct ns" "set ns \<subseteq> node_names g"
  shows "\<exists>out. bfsTraverseNodes_of g ns = Some (Inr out) \<and> distinct out
    \<and> set out = (succ_rel g ns)\<^sup>* `` {n. is_root g ns n}"
  using assms by (rule bfs_total)

text \<open>A path and a cycle beside it.\<close>

definition demo_nodes :: "node graph" where
  "demo_nodes = \<lparr>nodes = map (\<lambda>(n, p, s). \<lparr>node_name = n, node_region = [], pre_nodes_data = p, next_nodes_data = s,
       pre_nodes_active = [], next_nodes_active = [], node_subgraphId = 0\<rparr>)
     [(''a'', [], [''b'']), (''b'', [''a''], []), (''c'', [''d''], [''d'']), (''d'', [''c''], [''c''])],
     nodeIndexDict = [(''a'', 0), (''b'', 1), (''c'', 2), (''d'', 3)], ctrl_tree = tree_empty\<rparr>"

theorem bfs_visits_reachable_witness:
  "\<exists>out. bfsTraverseNodes demo_nodes = Some (Inr out) \<and> distinct out \<and> ''a'' \<in> set out \<and> out = [''a'', ''b'']"
proof -
  have "graph_ok demo_nodes" "distinct [''a'', ''b'', ''c'', ''d'']" "set [''a'', ''b'', ''c'', ''d''] \<subseteq> node_names demo_nodes"
    by code_simp+
  from bfs_visits_reachable [OF this] obtain out where o: "bfsTraverseNodes_of demo_nodes [''a'', ''b'', ''c'', ''d''] = Some (Inr out)"
    "distinct out" "set out = (succ_rel demo_nodes [''a'', ''b'', ''c'', ''d''])\<^sup>* `` {n. is_root demo_nodes [''a'', ''b'', ''c'', ''d''] n}"
    by blast
  have "is_root demo_nodes [''a'', ''b'', ''c'', ''d''] ''a''" by code_simp
  then have "''a'' \<in> set out" using o(3) by blast
  moreover have "map node_name (nodes demo_nodes) = [''a'', ''b'', ''c'', ''d'']" by (simp add: demo_nodes_def)
  moreover have "bfsTraverseNodes_of demo_nodes [''a'', ''b'', ''c'', ''d''] = Some (Inr [''a'', ''b''])" by code_simp
  ultimately show ?thesis using o(1,2) by (simp add: bfsTraverseNodes_def)
qed

end
