(* ===== verification/GraphOrder.thy ===== *)
theory GraphOrder
  imports GraphTraverse
begin

text \<open>
  The order in which \<open>Registry\<close> generates and prints the modules of a graph of channels
  (\<open>bfsTraverseNodesWithCtrlRegionSequence\<close> of \<open>sim/graph.cpp\<close>): the nodes are grouped by their control
  regions and then every node is moved behind the last of its predecessors.
\<close>

section \<open>The code\<close>

text \<open>The groups are held in a hash table: the order of its iteration, a list of the names of the
  regions, is an argument.\<close>

definition by_regions :: "'a node_scheme graph \<Rightarrow> string list \<Rightarrow> string list \<Rightarrow> string list res" where
  "by_regions g ord sim = rbind (rfold (\<lambda>n tab. rbind (getNode g n) (\<lambda>x.
       if node_region x \<in> set (map controlRegionName (controlRegionTable (ctrl_tree g)))
       then Inr (tab(node_region x := tab (node_region x) @ [n]))
       else Inl (Throw ''Error: Not find this ctrlRegion!''))) sim (\<lambda>_. []))
     (\<lambda>tab. Inr (concat (map tab ord)))"

definition last_pred :: "string list \<Rightarrow> string list \<Rightarrow> nat" where
  "last_pred ps ns = foldl (\<lambda>m p. max m (case first_index (\<lambda>n. n = p) ns of None \<Rightarrow> length ns | Some i \<Rightarrow> i)) 0 ps"

definition move_behind :: "nat \<Rightarrow> nat \<Rightarrow> 'x list \<Rightarrow> 'x list" where
  "move_behind k m ns = (let ns' = take (Suc m) ns @ [ns ! k] @ drop (Suc m) ns in take k ns' @ drop (Suc k) ns')"

text \<open>A predecessor that is not in the list is found at its end, behind which nothing can be inserted.\<close>

partial_function (option) settle :: "'a node_scheme graph \<Rightarrow> nat \<Rightarrow> string list \<Rightarrow> string list res option" where
  [code]: "settle g k ns =
     (if length ns \<le> k then Some (Inr ns)
      else case getNode g (ns ! k) of
          Inl e \<Rightarrow> Some (Inl e)
        | Inr x \<Rightarrow> (let m = last_pred (preds x) ns in
            if k < m then if m = length ns then Some (Inl OutOfBounds) else settle g k (move_behind k m ns)
            else settle g (Suc k) ns))"

definition bfsTraverseNodesWithCtrlRegionSequence :: "'a node_scheme graph \<Rightarrow> string list \<Rightarrow> string list res option" where
  "bfsTraverseNodesWithCtrlRegionSequence g ord = (case bfsTraverseNodes g of
       None \<Rightarrow> None
     | Some (Inl e) \<Rightarrow> Some (Inl e)
     | Some (Inr sim) \<Rightarrow> (case by_regions g ord sim of Inl e \<Rightarrow> Some (Inl e) | Inr ns \<Rightarrow> settle g 0 ns))"

section \<open>Moving a node\<close>

lemma move_behind_split:
  "move_behind (length as) (length as + length bs) (as @ x # bs @ cs) = as @ bs @ x # cs"
  by (simp add: move_behind_def Let_def nth_append)

lemma split_at:
  assumes "k < m" "m < length ns"
  obtains as bs cs x where "ns = as @ x # bs @ cs" "length as = k" "m = k + length bs" "bs \<noteq> []" "last bs = ns ! m" "x = ns ! k"
proof
  let ?as = "take k ns" and ?bs = "take (m - k) (drop (Suc k) ns)" and ?cs = "drop (Suc m) ns"
  have "drop (m - k) (drop (Suc k) ns) = ?cs" using assms by (simp add: Suc_diff_le)
  then show "ns = ?as @ ns ! k # ?bs @ ?cs"
    using assms by (metis append_take_drop_id id_take_nth_drop order_less_trans)
  show "length ?as = k" "m = k + length ?bs" "?bs \<noteq> []" using assms by auto
  then show "last ?bs = ns ! m" using assms by (simp add: last_conv_nth)
qed simp

text \<open>The potential: the positions of the elements, weighted so that an element weighs more than all
  that is moved past it.\<close>

fun potential :: "('x \<Rightarrow> nat) \<Rightarrow> nat \<Rightarrow> 'x list \<Rightarrow> nat" where
  "potential w i [] = 0"
| "potential w i (x # xs) = i * w x + potential w (Suc i) xs"

lemma potential_append: "potential w i (xs @ ys) = potential w i xs + potential w (i + length xs) ys"
  by (induction xs arbitrary: i) auto

lemma potential_Suc: "potential w (Suc i) xs = potential w i xs + sum_list (map w xs)"
  by (induction xs arbitrary: i) auto

lemma potential_move:
  assumes "length bs * w x < sum_list (map w bs)"
  shows "potential w 0 (as @ bs @ x # cs) < potential w 0 (as @ x # bs @ cs)"
  using assms by (simp add: potential_append potential_Suc add_mult_distrib)


section \<open>Termination and order\<close>

lemma foldl_max:
  fixes f :: "'x \<Rightarrow> nat"
  shows "foldl (\<lambda>m p. max m (f p)) a ps = Max (insert a (f ` set ps))"
proof (induction ps arbitrary: a)
  case (Cons p ps)
  show ?case by (cases "ps = []") (simp_all add: Cons.IH max.assoc)
qed simp

lemma last_pred_ge: "p \<in> set ps \<Longrightarrow> (case first_index (\<lambda>n. n = p) ns of None \<Rightarrow> length ns | Some i \<Rightarrow> i) \<le> last_pred ps ns"
  and last_pred_cases: "last_pred ps ns = 0 \<or> (\<exists>p\<in>set ps. last_pred ps ns = (case first_index (\<lambda>n. n = p) ns of None \<Rightarrow> length ns | Some i \<Rightarrow> i))"
proof -
  let ?f = "\<lambda>p. case first_index (\<lambda>n. n = p) ns of None \<Rightarrow> length ns | Some i \<Rightarrow> i"
  show "?f p \<le> last_pred ps ns" if "p \<in> set ps" using that by (simp add: last_pred_def foldl_max)
  have "last_pred ps ns \<in> insert 0 (?f ` set ps)" unfolding last_pred_def foldl_max by (rule Max_in) auto
  then show "last_pred ps ns = 0 \<or> (\<exists>p\<in>set ps. last_pred ps ns = ?f p)" by auto
qed

lemma last_pred_le:
  assumes "set ps \<subseteq> set ns" "p \<in> set ps" "last_pred ps ns \<le> k"
  shows "p \<in> set (take (Suc k) ns)"
proof -
  obtain i where i: "first_index (\<lambda>n. n = p) ns = Some i"
    using assms(1,2) by (cases "first_index (\<lambda>n. n = p) ns") (auto simp: first_index_None)
  then have "i \<le> k" using last_pred_ge [OF assms(2), of ns] assms(3) by simp
  moreover have "i < length ns" "ns ! i = p" using first_index_less [OF i] first_index_sat [OF i] by auto
  ultimately show ?thesis by (auto simp: in_set_conv_nth intro!: exI [of _ i])
qed

lemma last_pred_less:
  assumes "set ps \<subseteq> set ns" "0 < last_pred ps ns"
  shows "last_pred ps ns < length ns" "ns ! last_pred ps ns \<in> set ps"
proof -
  obtain p where p: "p \<in> set ps" "last_pred ps ns = (case first_index (\<lambda>n. n = p) ns of None \<Rightarrow> length ns | Some i \<Rightarrow> i)"
    using last_pred_cases [of ps ns] assms(2) by auto
  obtain i where i: "first_index (\<lambda>n. n = p) ns = Some i"
    using assms(1) p(1) by (cases "first_index (\<lambda>n. n = p) ns") (auto simp: first_index_None)
  then show "last_pred ps ns < length ns" "ns ! last_pred ps ns \<in> set ps"
    using p first_index_less [OF i] first_index_sat [OF i] by auto
qed

text \<open>Two nodes of which the first is a predecessor of the second; a prefix of a list in which every
  predecessor of a node stands in front of it, unless it is the node itself.\<close>

definition prec :: "'a node_scheme graph \<Rightarrow> (string \<times> string) set" where
  "prec g = {(p, x). x \<in> node_names g \<and> p \<in> set (preds (the_node g x)) \<and> p \<noteq> x}"

definition settled :: "'a node_scheme graph \<Rightarrow> nat \<Rightarrow> string list \<Rightarrow> bool" where
  "settled g k ns \<longleftrightarrow> (\<forall>i<k. set (preds (the_node g (ns ! i))) \<subseteq> set (take (Suc i) ns))"

lemma known_preds:
  assumes "graph_ok g" "known_names g" "n \<in> node_names g"
  shows "set (preds (the_node g n)) \<subseteq> node_names g"
proof -
  obtain i where i: "i < length (nodes g)" "n = node_name (nodes g ! i)"
    using assms(3) by (auto simp: node_names_def in_set_conv_nth)
  with assms(1,2) show ?thesis by (auto simp: known_names_def preds_def the_node_nth)
qed

lemma finite_names: "finite (node_names g)"
  by (simp add: node_names_def)

text \<open>One step of the loop on a list of all nodes: it moves a node behind a predecessor, or goes on; the
  list stays a list of all nodes with a settled prefix.\<close>

definition arranged :: "'a node_scheme graph \<Rightarrow> nat \<Rightarrow> string list \<Rightarrow> bool" where
  "arranged g k ns \<longleftrightarrow> distinct ns \<and> set ns = node_names g \<and> settled g k ns"

definition settle_next :: "'a node_scheme graph \<Rightarrow> nat \<Rightarrow> string list \<Rightarrow> nat \<times> string list" where
  "settle_next g k ns = (let m = last_pred (preds (the_node g (ns ! k))) ns in
     if k < m then (k, move_behind k m ns) else (Suc k, ns))"

lemma arranged_node:
  assumes "graph_ok g" "known_names g" "arranged g k ns" "j < length ns"
  shows "getNode g (ns ! j) = Inr (the_node g (ns ! j))" "ns ! j \<in> node_names g" "set (preds (the_node g (ns ! j))) \<subseteq> set ns"
proof -
  have s: "set ns = node_names g" using assms(3) by (simp add: arranged_def)
  show n: "ns ! j \<in> node_names g" using nth_mem [OF assms(4)] unfolding s .
  show "getNode g (ns ! j) = Inr (the_node g (ns ! j))" using getNode_known [OF assms(1) n] by simp
  show "set (preds (the_node g (ns ! j))) \<subseteq> set ns" using known_preds [OF assms(1,2) n] s by simp
qed

lemma settle_body:
  assumes "graph_ok g" "known_names g" "arranged g k ns" "k < length ns"
  shows "(case getNode g (ns ! k) of Inl e \<Rightarrow> Some (Inl e)
        | Inr x \<Rightarrow> (let m = last_pred (preds x) ns in
            if k < m then if m = length ns then Some (Inl OutOfBounds) else f g k (move_behind k m ns)
            else f g (Suc k) ns)) = f g (fst (settle_next g k ns)) (snd (settle_next g k ns))"
proof -
  let ?m = "last_pred (preds (the_node g (ns ! k))) ns"
  have "?m \<noteq> length ns" if "k < ?m" using last_pred_less(1) [OF arranged_node(3) [OF assms]] that by linarith
  then show ?thesis using arranged_node(1) [OF assms] by (simp add: settle_next_def Let_def)
qed

lemma settle_step:
  assumes "graph_ok g" "known_names g" "arranged g k ns" "k < length ns"
  obtains (move) as bs cs x where "ns = as @ x # bs @ cs" "length as = k" "bs \<noteq> []" "(last bs, x) \<in> prec g"
      "settle_next g k ns = (k, as @ bs @ x # cs)"
  | (advance) "set (preds (the_node g (ns ! k))) \<subseteq> set (take (Suc k) ns)" "settle_next g k ns = (Suc k, ns)"
proof -
  let ?m = "last_pred (preds (the_node g (ns ! k))) ns"
  note n = arranged_node(2,3) [OF assms]
  show ?thesis
  proof (cases "k < ?m")
    case True
    then have m: "?m < length ns" "ns ! ?m \<in> set (preds (the_node g (ns ! k)))" using last_pred_less [OF n(2)] by auto
    from True m(1) obtain as bs cs x where p: "ns = as @ x # bs @ cs" "length as = k" "?m = k + length bs" "bs \<noteq> []"
      "last bs = ns ! ?m" "x = ns ! k" by (rule split_at)
    have "last bs \<noteq> x" using assms(3) last_in_set [OF p(4)] unfolding p(1) arranged_def by auto
    then have "(last bs, x) \<in> prec g" using m(2) n p(5,6) by (simp add: prec_def)
    moreover have "move_behind k ?m ns = as @ bs @ x # cs" using move_behind_split [of as bs x cs] p(1-3) by simp
    then have "settle_next g k ns = (k, as @ bs @ x # cs)" using True by (simp add: settle_next_def Let_def)
    ultimately show ?thesis by (rule move [OF p(1,2,4)])
  next
    case False
    then have "settle_next g k ns = (Suc k, ns)" by (simp add: settle_next_def Let_def)
    moreover have "set (preds (the_node g (ns ! k))) \<subseteq> set (take (Suc k) ns)" using last_pred_le [OF n(2)] False by auto
    ultimately show ?thesis by (intro advance)
  qed
qed

lemma settle_next_arranged:
  assumes "graph_ok g" "known_names g" "arranged g k ns" "k < length ns"
  shows "arranged g (fst (settle_next g k ns)) (snd (settle_next g k ns))"
  using assms
proof (cases rule: settle_step)
  case (move as bs cs x)
  with assms(3) have "distinct (as @ bs @ x # cs)" "set (as @ bs @ x # cs) = node_names g" by (auto simp: arranged_def)
  moreover have "settled g k (as @ bs @ x # cs)" using assms(3) move(1,2) by (auto simp: arranged_def settled_def nth_append)
  ultimately show ?thesis by (simp add: move(5) arranged_def)
next
  case advance
  with assms(3) show ?thesis by (auto simp: arranged_def settled_def less_Suc_eq)
qed

lemma settle_sound:
  assumes "settle g k ns = Some res" "graph_ok g" "known_names g" "arranged g k ns"
  shows "\<exists>out. res = Inr out \<and> arranged g (length out) out"
  using assms(2-4)
proof (induction rule: settle.raw_induct [OF _ assms(1)])
  case (1 f g k ns res)
  show ?case
  proof (cases "k < length ns")
    case False
    with 1(2,5) show ?thesis by (auto simp: arranged_def settled_def split: if_splits)
  next
    case True
    with 1(2) have "f g (fst (settle_next g k ns)) (snd (settle_next g k ns)) = Some res"
      by (simp add: settle_body [OF 1(3-5)])
    then show ?thesis using 1(1,3,4) settle_next_arranged [OF 1(3-5) True] by metis
  qed
qed

lemma arranged_acyclic:
  assumes "arranged g (length ns) ns"
  shows "acyclic (prec g)"
proof -
  let ?i = "\<lambda>n. the (first_index (\<lambda>m. m = n) ns)"
  have dist: "distinct ns" and s: "set ns = node_names g" and ord: "settled g (length ns) ns"
    using assms by (auto simp: arranged_def)
  have at: "?i (ns ! j) = j" if "j < length ns" for j
  proof -
    have "first_index (\<lambda>m. m = ns ! j) ns = Some j"
      using that dist by (auto simp: first_index_Some nth_eq_iff_index_eq)
    then show ?thesis by simp
  qed
  have "prec g \<subseteq> measure ?i"
  proof clarify
    fix p x assume "(p, x) \<in> prec g"
    then have x: "x \<in> set ns" "p \<in> set (preds (the_node g x))" "p \<noteq> x" using s by (auto simp: prec_def)
    then obtain j where j: "j < length ns" "x = ns ! j" by (auto simp: in_set_conv_nth)
    with x(2) ord have "p \<in> set (take (Suc j) ns)" by (auto simp: settled_def)
    then obtain i where "i < Suc j" "p = ns ! i" using j(1) by (auto simp: in_set_conv_nth)
    with j x(3) have "i < j" "p = ns ! i" by (auto simp: less_Suc_eq)
    then show "(p, x) \<in> measure ?i" using at j by simp
  qed
  then show ?thesis by (metis wf_acyclic wf_measure wf_subset)
qed

text \<open>The weight of a node falls with the number of nodes before it.\<close>

definition ancestors :: "'a node_scheme graph \<Rightarrow> string \<Rightarrow> nat" where
  "ancestors g x = card {y. (y, x) \<in> (prec g)\<^sup>+}"

definition weight :: "'a node_scheme graph \<Rightarrow> string \<Rightarrow> nat" where
  "weight g x = (let c = card (node_names g) in Suc c ^ (c - ancestors g x))"

lemma ancestors_less:
  assumes "graph_ok g" "known_names g" "acyclic (prec g)" "(p, x) \<in> prec g"
  shows "ancestors g p < ancestors g x" "ancestors g x \<le> card (node_names g)"
proof -
  have "(prec g)\<^sup>+ \<subseteq> node_names g \<times> node_names g"
    using known_preds [OF assms(1,2)] by (intro trancl_subset_Sigma) (auto simp: prec_def)
  then have sub: "{y. (y, x) \<in> (prec g)\<^sup>+} \<subseteq> node_names g" for x by auto
  have "{y. (y, p) \<in> (prec g)\<^sup>+} \<subset> {y. (y, x) \<in> (prec g)\<^sup>+}"
    using assms(3,4) by (force simp: acyclic_def intro: trancl_into_trancl)
  then show "ancestors g p < ancestors g x"
    unfolding ancestors_def by (intro psubset_card_mono) (auto intro: finite_subset [OF sub finite_names])
  show "ancestors g x \<le> card (node_names g)"
    unfolding ancestors_def by (rule card_mono [OF finite_names sub])
qed

lemma move_lighter:
  assumes "graph_ok g" "known_names g" "acyclic (prec g)" "(last bs, x) \<in> prec g" "bs \<noteq> []" "length bs \<le> card (node_names g)"
  shows "length bs * weight g x < sum_list (map (weight g) bs)"
proof -
  let ?c = "card (node_names g)"
  have "?c - ancestors g (last bs) \<ge> Suc (?c - ancestors g x)" using ancestors_less [OF assms(1-4)] by simp
  then have "weight g (last bs) \<ge> Suc ?c * weight g x"
    unfolding weight_def Let_def power_Suc [symmetric] by (rule power_increasing) simp
  moreover have "0 < weight g x" by (simp add: weight_def Let_def)
  then have "length bs * weight g x < Suc ?c * weight g x" using assms(6) by (intro mult_less_mono1) auto
  ultimately have "length bs * weight g x < weight g (last bs)" by linarith
  also have "weight g (last bs) \<le> sum_list (map (weight g) bs)"
    using assms(5) by (simp add: member_le_sum_list)
  finally show ?thesis .
qed

lemma settle_total:
  assumes "graph_ok g" "known_names g" "acyclic (prec g)" "arranged g k ns"
  shows "settle g k ns \<noteq> None"
  using assms(4)
proof (induction "potential (weight g) 0 ns * Suc (card (node_names g)) + (card (node_names g) - k)" arbitrary: ns k rule: less_induct)
  case less
  let ?c = "card (node_names g)" and ?P = "potential (weight g) 0"
  have len: "length ns = ?c" using less.prems distinct_card by (force simp: arranged_def)
  show ?case
  proof (cases "k < length ns")
    case False
    then show ?thesis by (subst settle.simps) simp
  next
    case True
    have step: "settle g k ns = settle g (fst (settle_next g k ns)) (snd (settle_next g k ns))"
      using True settle_body [OF assms(1,2) less.prems, of settle] by (subst settle.simps) simp
    note arr = settle_next_arranged [OF assms(1,2) less.prems True]
    from assms(1,2) less.prems True show ?thesis
    proof (cases rule: settle_step)
      case (move as bs cs x)
      have "length bs \<le> ?c" using len move(1) by simp
      then have "?P (as @ bs @ x # cs) < ?P ns"
        unfolding move(1) using move_lighter [OF assms(1-3) move(4,3)] by (intro potential_move)
      then have "?P (as @ bs @ x # cs) * Suc ?c + (?c - k) < ?P ns * Suc ?c + (?c - k)"
        by (intro add_strict_right_mono mult_strict_right_mono) simp_all
      with less.hyps show ?thesis using arr step move(5) by simp
    next
      case advance
      have "?P ns * Suc ?c + (?c - Suc k) < ?P ns * Suc ?c + (?c - k)" using True len by simp
      with less.hyps show ?thesis using arr step advance(2) by simp
    qed
  qed
qed

section \<open>The grouping\<close>

lemma by_regions_eq:
  assumes "graph_ok g" "set sim \<subseteq> node_names g" "node_region ` set (nodes g) \<subseteq> region_names (ctrl_tree g)"
  shows "by_regions g ord sim = Inr (concat (map (\<lambda>r. filter (\<lambda>n. node_region (the_node g n) = r) sim) ord))"
proof -
  have "rfold (\<lambda>n tab. rbind (getNode g n) (\<lambda>x.
       if node_region x \<in> set (map controlRegionName (controlRegionTable (ctrl_tree g)))
       then Inr (tab(node_region x := tab (node_region x) @ [n]))
       else Inl (Throw ''Error: Not find this ctrlRegion!''))) ms tab
     = Inr (\<lambda>r. tab r @ filter (\<lambda>n. node_region (the_node g n) = r) ms)" if "set ms \<subseteq> node_names g" for ms tab
    using that
  proof (induction ms arbitrary: tab)
    case Nil
    then show ?case by simp
  next
    case (Cons n ms)
    then obtain i where i: "i < length (nodes g)" "n = node_name (nodes g ! i)"
      by (auto simp: node_names_def in_set_conv_nth)
    then have "node_region (the_node g n) \<in> set (map controlRegionName (controlRegionTable (ctrl_tree g)))"
      using assms(3) by (auto simp: the_node_nth [OF assms(1)] region_names_def)
    moreover have "getNode g n = Inr (the_node g n)" using getNode_known [OF assms(1), of n] Cons.prems by simp
    ultimately show ?case using Cons by (auto simp: fun_eq_iff)
  qed
  from this [OF assms(2)] show ?thesis by (simp add: by_regions_def)
qed

lemma grouped_set:
  assumes "distinct sim" "distinct ord" "f ` set sim \<subseteq> set ord"
  shows "distinct (concat (map (\<lambda>r. filter (\<lambda>n. f n = r) sim) ord))" "set (concat (map (\<lambda>r. filter (\<lambda>n. f n = r) sim) ord)) = set sim"
proof -
  show "set (concat (map (\<lambda>r. filter (\<lambda>n. f n = r) sim) ord)) = set sim" using assms(3) by auto
  have "distinct (concat (map (\<lambda>r. filter (\<lambda>n. f n = r) sim) rs))" if "distinct rs" for rs
    using that assms(1) by (induction rs) auto
  then show "distinct (concat (map (\<lambda>r. filter (\<lambda>n. f n = r) sim) ord))" using assms(2) .
qed

text \<open>C26: on a graph all of whose nodes can be reached from those without predecessors, the function
  returns exactly when the graph has no cycle but for nodes that are their own predecessors, whatever
  the order of the hash table; and then every node is listed once, behind all its predecessors.\<close>

theorem module_order_returns_iff_acyclic:
  fixes g :: "'a node_scheme graph"
  defines "ns \<equiv> map node_name (nodes g)"
  assumes "graph_ok g" "known_names g" "(succ_rel g ns)\<^sup>* `` {n. is_root g ns n} = node_names g"
    and "node_region ` set (nodes g) \<subseteq> region_names (ctrl_tree g)" "distinct ord" "set ord = region_names (ctrl_tree g)"
  shows "(if acyclic {(p, x). x \<in> node_names g \<and> p \<in> set (preds (the_node g x)) \<and> p \<noteq> x}
    then \<exists>out. bfsTraverseNodesWithCtrlRegionSequence g ord = Some (Inr out) \<and> distinct out \<and> set out = node_names g
           \<and> (\<forall>i<length out. set (preds (the_node g (out ! i))) \<subseteq> set (take (Suc i) out))
    else bfsTraverseNodesWithCtrlRegionSequence g ord = None)"
proof -
  have ns: "distinct ns" "set ns \<subseteq> node_names g" using assms(2) by (auto simp: ns_def graph_ok_def node_names_def)
  obtain sim where sim: "bfsTraverseNodes_of g ns = Some (Inr sim)" "distinct sim" "set sim = node_names g"
    using bfs_total [OF assms(2) ns] assms(4) by auto
  let ?start = "concat (map (\<lambda>r. filter (\<lambda>n. node_region (the_node g n) = r) sim) ord)"
  have "(\<lambda>n. node_region (the_node g n)) ` set sim \<subseteq> set ord"
    using assms(5) unfolding sim(3) assms(7) by (force simp: node_names_def in_set_conv_nth the_node_nth [OF assms(2)])
  from grouped_set [OF sim(2) assms(6) this] have start: "arranged g 0 ?start"
    by (simp add: arranged_def settled_def sim(3))
  have run: "bfsTraverseNodesWithCtrlRegionSequence g ord = settle g 0 ?start"
    using sim(1,3) by_regions_eq [OF assms(2) _ assms(5)]
    by (simp add: bfsTraverseNodesWithCtrlRegionSequence_def bfsTraverseNodes_def flip: ns_def)
  have "settle g 0 ?start = None" if "\<not> acyclic (prec g)"
    using settle_sound [OF _ assms(2,3) start] arranged_acyclic that by (metis option.exhaust)
  moreover have "\<exists>out. settle g 0 ?start = Some (Inr out) \<and> arranged g (length out) out" if "acyclic (prec g)"
    using settle_total [OF assms(2,3) that start] settle_sound [OF _ assms(2,3) start] by blast
  ultimately show ?thesis
    unfolding run prec_def [symmetric] by (auto simp: arranged_def settled_def)
qed

text \<open>A chain of three nodes in two regions, and the same with an edge back.\<close>

definition demo_chain :: "string list \<Rightarrow> node graph" where
  "demo_chain back = \<lparr>nodes = map (\<lambda>(n, r, p, s). \<lparr>node_name = n, node_region = r, pre_nodes_data = p, next_nodes_data = s,
       pre_nodes_active = [], next_nodes_active = [], node_subgraphId = 0\<rparr>)
     [(''s'', ''inner'', [], [''a'']), (''a'', ''outer'', ''s'' # back, [''b'']), (''b'', ''inner'', [''a''], map (\<lambda>_. ''a'') back)],
     nodeIndexDict = [(''s'', 0), (''a'', 1), (''b'', 2)],
     ctrl_tree = tree_empty\<lparr>controlRegionTable := [region_new ''outer'' ''Loop'' True, region_new ''inner'' ''Loop'' True]\<rparr>\<rparr>"

lemma demo_chain_hyps:
  assumes "b = [] \<or> b = [''b'']"
  shows "graph_ok (demo_chain b)" "known_names (demo_chain b)"
    "node_region ` set (nodes (demo_chain b)) \<subseteq> region_names (ctrl_tree (demo_chain b))"
    "set [''inner'', ''outer''] = region_names (ctrl_tree (demo_chain b))"
    "(succ_rel (demo_chain b) (map node_name (nodes (demo_chain b))))\<^sup>* `` {n. is_root (demo_chain b) (map node_name (nodes (demo_chain b))) n}
       = node_names (demo_chain b)"
proof -
  let ?g = "demo_chain b" and ?ns = "[''s'', ''a'', ''b'']"
  show ok: "graph_ok ?g" using assms by (elim disjE; hypsubst; code_simp)
  show "known_names ?g" using assms by (elim disjE; hypsubst; code_simp)
  show "node_region ` set (nodes ?g) \<subseteq> region_names (ctrl_tree ?g)" "set [''inner'', ''outer''] = region_names (ctrl_tree ?g)"
    by (auto simp: demo_chain_def region_names_def region_new_def)
  have ns: "map node_name (nodes ?g) = ?ns" by (simp add: demo_chain_def)
  have sub: "is_root ?g ?ns ''s''" "(''s'', ''a'') \<in> succ_rel ?g ?ns" "(''a'', ''b'') \<in> succ_rel ?g ?ns"
    unfolding succ_rel_def mem_Collect_eq prod.case using assms by (elim disjE; hypsubst; code_simp)+
  then have "(''s'', ''b'') \<in> (succ_rel ?g ?ns)\<^sup>*" by (meson r_into_rtrancl rtrancl_trans)
  with sub have "node_names ?g \<subseteq> (succ_rel ?g ?ns)\<^sup>* `` {n. is_root ?g ?ns n}"
    unfolding node_names_def by (auto simp: demo_chain_def)
  moreover have "(succ_rel ?g ?ns)\<^sup>* `` {n. is_root ?g ?ns n} \<subseteq> set ?ns"
    by (auto simp: is_root_def succ_rel_def elim: rtranclE)
  moreover have "set ?ns = node_names ?g" by (simp add: node_names_def demo_chain_def)
  ultimately show "(succ_rel ?g (map node_name (nodes ?g)))\<^sup>* `` {n. is_root ?g (map node_name (nodes ?g)) n} = node_names ?g"
    unfolding ns by blast
qed

theorem module_order_returns_iff_acyclic_witness:
  "bfsTraverseNodesWithCtrlRegionSequence (demo_chain []) [''inner'', ''outer''] = Some (Inr [''s'', ''a'', ''b''])
   \<and> bfsTraverseNodesWithCtrlRegionSequence (demo_chain [''b'']) [''inner'', ''outer''] = None"
proof
  show "bfsTraverseNodesWithCtrlRegionSequence (demo_chain []) [''inner'', ''outer''] = Some (Inr [''s'', ''a'', ''b''])"
    by code_simp
  let ?g = "demo_chain [''b'']"
  have "(''b'', ''a'') \<in> {(p, x). x \<in> node_names ?g \<and> p \<in> set (preds (the_node ?g x)) \<and> p \<noteq> x}"
    "(''a'', ''b'') \<in> {(p, x). x \<in> node_names ?g \<and> p \<in> set (preds (the_node ?g x)) \<and> p \<noteq> x}"
    unfolding mem_Collect_eq prod.case by code_simp+
  then have "\<not> acyclic {(p, x). x \<in> node_names ?g \<and> p \<in> set (preds (the_node ?g x)) \<and> p \<noteq> x}"
    by (meson acyclic_def r_into_trancl' trancl_trans)
  then show "bfsTraverseNodesWithCtrlRegionSequence ?g [''inner'', ''outer''] = None"
    using module_order_returns_iff_acyclic [of ?g "[''inner'', ''outer'']"] demo_chain_hyps [of "[''b'']"] by simp
qed

end
