(* ===== verification/ChanGraph.thy ===== *)
theory ChanGraph
  imports GraphConnect
begin

text \<open>
  Classes \<open>Dfg\<close> and \<open>ChanGraph\<close> (\<open>sim/graph.cpp\<close>): the construction of a dataflow graph, the graph of
  channels that is generated from it, and the passes that configure that graph. Reports that are only
  printed are left aside, as are the insertion of relay and scatter channels and the partition into
  subgraphs.
\<close>

section \<open>Class Dfg\<close>

definition dfg_addNode :: "string \<Rightarrow> string \<Rightarrow> dfg_node graph \<Rightarrow> dfg_node graph res" where
  "dfg_addNode n opr g =
     (if map_of (nodeIndexDict g) n \<noteq> None then Inl (Throw ''There already has a same name node!'')
      else let x = dfg_node_new n opr;
               x = (if opr = ''Loop_head'' then x\<lparr>dfg_type := ''Lc''\<rparr>
                    else if opr = ''Const'' then x\<lparr>dfg_type := ''Const''\<rparr>
                    else if opr = ''Sel'' then x\<lparr>dfg_type := ''Mux''\<rparr>
                    else if opr = ''SelPartial'' then x\<lparr>dfg_type := ''MuxPartial''\<rparr> else x)
        in Inr (g\<lparr>nodeIndexDict := nodeIndexDict g @ [(n, length (nodeIndexDict g))], nodes := nodes g @ [x]\<rparr>))"

definition dfg_addNode_const :: "string \<Rightarrow> string \<Rightarrow> i32 \<Rightarrow> dfg_node graph \<Rightarrow> dfg_node graph res" where
  "dfg_addNode_const n opr v g = rbind (dfg_addNode n opr g) (on_node n (\<lambda>x. x\<lparr>dfg_constVal := v\<rparr>))"

definition dfg_addNode_pre :: "string \<Rightarrow> string \<Rightarrow> string list \<Rightarrow> dfg_node graph \<Rightarrow> dfg_node graph res" where
  "dfg_addNode_pre n opr ms g = rbind (dfg_addNode n opr g) (on_node n (app_pre_data ms))"

definition dfg_addNode_active :: "string \<Rightarrow> string \<Rightarrow> string list \<Rightarrow> string list \<Rightarrow> dfg_node graph \<Rightarrow> dfg_node graph res" where
  "dfg_addNode_active n opr ms as g = rbind (dfg_addNode_pre n opr ms g) (on_node n (app_pre_active as))"

definition dfg_addNode_mem :: "string \<Rightarrow> string \<Rightarrow> string list \<Rightarrow> u64 \<Rightarrow> dfg_node graph \<Rightarrow> dfg_node graph res" where
  "dfg_addNode_mem n opr ms base g =
     (if opr = ''Load'' \<or> opr = ''Store''
      then rbind (dfg_addNode_pre n opr ms g) (on_node n (\<lambda>x. x\<lparr>dfg_baseAddr := base\<rparr>))
      else Inl (Throw ''This node is not a Load/Store node!''))"

definition setTheTailNode :: "string \<Rightarrow> string \<Rightarrow> dfg_node graph \<Rightarrow> dfg_node graph res" where
  "setTheTailNode r n g = rbind (getNode g n) (\<lambda>x.
     let n = (if dfg_type x = ''Normal''
              then if dfg_op x = ''Load'' \<or> dfg_op x = ''Store'' then ''Lse_'' @ n else ''Chan_'' @ n
              else if dfg_type x = ''Lc'' then ''Lc_'' @ n
              else if dfg_type x = ''Mux'' then ''Mux_'' @ n else n)
     in rbind (on_region r (\<lambda>x. x\<lparr>theTailNode := n\<rparr>) (ctrl_tree g)) (\<lambda>t. Inr (g\<lparr>ctrl_tree := t\<rparr>)))"

section \<open>Class ChanGraph\<close>

definition chan_addNode :: "string \<Rightarrow> string \<Rightarrow> string \<Rightarrow> string \<Rightarrow> string \<Rightarrow> chan_node graph \<Rightarrow> chan_node graph res" where
  "chan_addNode n ty opr md r g =
     (if map_of (nodeIndexDict g) n \<noteq> None then Inl (Throw ''There already has a same name node!'')
      else Inr (g\<lparr>nodeIndexDict := nodeIndexDict g @ [(n, length (nodeIndexDict g))],
                  nodes := nodes g @ [(chan_node_new n)\<lparr>node_region := r, cn_type := ty, cn_op := opr, chan_mode := md\<rparr>]\<rparr>))"

text \<open>The kind and the name of the channel of a node; a constant has none.\<close>

definition chan_kind :: "dfg_node \<Rightarrow> (string \<times> string) option res" where
  "chan_kind d = (let n = node_name d in
     if dfg_type d = ''Normal''
     then Inr (Some (if dfg_op d = ''Load'' then (''Lse_ld'', ''Lse_'' @ n)
                     else if dfg_op d = ''Store'' then (''Lse_st'', ''Lse_'' @ n)
                     else (''ChanBase'', ''Chan_'' @ n)))
     else if dfg_type d = ''Lc'' then Inr (Some (''Lc'', ''Lc_'' @ n))
     else if dfg_type d = ''Mux'' then Inr (Some (''Mux'', ''Mux_'' @ n))
     else if dfg_type d = ''MuxPartial'' then Inr (Some (''ChanPartialMux'', ''MuxPartial_'' @ n))
     else if dfg_type d = ''Const'' then Inr None
     else Inl (Throw ''Undefined node type!''))"

text \<open>The variable that holds the name is declared outside of the loop, so at a constant it still has the
  name of the channel before it.\<close>

definition gen_node :: "dfg_node \<Rightarrow> chan_node graph \<times> string \<times> string list \<Rightarrow> (chan_node graph \<times> string \<times> string list) res" where
  "gen_node d = (\<lambda>(g, nodeName, names). rbind (chan_kind d) (\<lambda>k. case k of
       None \<Rightarrow> Inr (g, nodeName, names @ [nodeName])
     | Some (ty, n) \<Rightarrow> rbind (chan_addNode n ty (dfg_op d) ''Normal'' (node_region d) g) (\<lambda>g.
         rbind (if dfg_type d = ''Normal'' then on_node n (\<lambda>x. x\<lparr>cn_baseAddr := dfg_baseAddr d\<rparr>) g else Inr g) (\<lambda>g.
           Inr (g, n, names @ [n])))))"

definition gen_refs :: "dfg_node graph \<Rightarrow> string list \<Rightarrow> (string list \<Rightarrow> chan_node \<Rightarrow> chan_node) \<Rightarrow> string
    \<Rightarrow> string list \<Rightarrow> chan_node graph \<Rightarrow> chan_node graph res" where
  "gen_refs dfg names app cn = rfold (\<lambda>m g. rbind (findNodeIndex dfg m) (\<lambda>j. rbind (rnth names j) (\<lambda>s.
     if s \<noteq> [] then on_node cn (app [s]) g else Inr g)))"

definition gen_links :: "dfg_node graph \<Rightarrow> string list \<Rightarrow> string \<Rightarrow> string \<Rightarrow> chan_node graph \<Rightarrow> chan_node graph res" where
  "gen_links dfg names r dn g = rbind (findNodeIndex dfg dn) (\<lambda>i. rbind (rnth names i) (\<lambda>cn. rbind (getNode dfg dn) (\<lambda>d.
     if dfg_type d \<noteq> ''Const''
     then rbind (addNodes2CtrlTree r [cn] g) (\<lambda>g. rbind (gen_refs dfg names app_pre_data cn (pre_nodes_data d) g) (\<lambda>g.
          rbind (gen_refs dfg names app_next_data cn (next_nodes_data d) g) (\<lambda>g.
          rbind (gen_refs dfg names app_pre_active cn (pre_nodes_active d) g)
            (gen_refs dfg names app_next_active cn (next_nodes_active d)))))
     else rfold (\<lambda>m g. rbind (findNodeIndex dfg m) (\<lambda>j. rbind (rnth names j) (\<lambda>s. on_node s (\<lambda>x.
            x\<lparr>cn_constVal := cn_constVal x @ [dfg_constVal d],
              constLocation := (case first_index (\<lambda>k. k = dn) (pre_nodes_data x) of None \<Rightarrow> length (pre_nodes_data x) | Some k \<Rightarrow> k)\<rparr>) g)))
          (next_nodes_data d) g)))"

definition genChanGraphFromDfg :: "dfg_node graph \<Rightarrow> chan_node graph res" where
  "genChanGraphFromDfg dfg = (let t = ctrl_tree dfg;
       g = graph_empty\<lparr>ctrl_tree := t\<lparr>controlRegionTable := map (\<lambda>r. r\<lparr>region_nodes := []\<rparr>) (controlRegionTable t)\<rparr>\<rparr> in
     rbind (rfold gen_node (nodes dfg) (g, [], [])) (\<lambda>(g, _, names).
     rbind (rfold (\<lambda>r. rfold (gen_links dfg names (controlRegionName r)) (region_nodes r)) (controlRegionTable t) g) (\<lambda>g.
     rbind (completeConnect g) (\<lambda>g. Inr (removeRedundantConnect g)))))"

definition node_delay :: "config \<Rightarrow> chan_node \<Rightarrow> nat" where
  "node_delay c x =
     (if cn_type x = ''ChanDGSF'' then bram_access_delay c
      else if cn_op x = ''Nop'' then 0
      else if cn_op x = ''Mul'' then alu_MUL c
      else if cn_op x = ''Add'' then alu_ADD c
      else if cn_op x = ''Sub'' then alu_SUB c
      else if cn_op x = ''Div'' then alu_DIV c
      else if cn_op x = ''Mac'' then alu_MAC c
      else if cn_op x = ''Relu'' then alu_RELU c else 1)"

definition addNodeDelay :: "config \<Rightarrow> chan_node graph \<Rightarrow> chan_node graph" where
  "addNodeDelay c g = g\<lparr>nodes := map (\<lambda>x. x\<lparr>cn_cycle := node_delay c x\<rparr>) (nodes g)\<rparr>"

text \<open>The connections of a node that leave its subgraph are moved to the channel that is inserted behind
  it; \<open>pre\<close> and \<open>upd_pre\<close> read and write the names of the predecessors, \<open>app\<close> adds a successor.\<close>

definition move_edges :: "(chan_node \<Rightarrow> string list) \<Rightarrow> (string list \<Rightarrow> chan_node \<Rightarrow> chan_node)
    \<Rightarrow> (string list \<Rightarrow> chan_node \<Rightarrow> chan_node) \<Rightarrow> string \<Rightarrow> string \<Rightarrow> nat \<Rightarrow> string list
    \<Rightarrow> chan_node graph \<Rightarrow> (string list \<times> chan_node graph) res" where
  "move_edges pre upd_pre app nm dn s ms g = rfold (\<lambda>m (kept, g). rbind (getNode g m) (\<lambda>y.
     if node_subgraphId y \<noteq> s
     then (case first_index (\<lambda>k. k = nm) (pre y) of
         Some k \<Rightarrow> rbind (on_node m (upd_pre ((pre y)[k := dn])) g) (\<lambda>g.
           rbind (on_node dn (app [m]) g) (\<lambda>g. Inr (kept, g)))
       | None \<Rightarrow> Inr (kept @ [m], g))
     else Inr (kept @ [m], g))) ms ([], g)"

fun leaves_subgraph :: "chan_node graph \<Rightarrow> nat \<Rightarrow> string list \<Rightarrow> bool res" where
  "leaves_subgraph g s [] = Inr False"
| "leaves_subgraph g s (m # ms) = rbind (getNode g m) (\<lambda>y. if node_subgraphId y \<noteq> s then Inr True else leaves_subgraph g s ms)"

definition insert_DGSF :: "config \<Rightarrow> nat \<Rightarrow> chan_node graph \<Rightarrow> chan_node graph res" where
  "insert_DGSF c i g = rbind (rnth (nodes g) i) (\<lambda>x. let s = node_subgraphId x; nm = node_name x; dn = nm @ ''_DGSF'' in
     rbind (leaves_subgraph g s (next_nodes_data x @ next_nodes_active x)) (\<lambda>ins.
     if ins
     then rbind (chan_addNode dn ''ChanDGSF'' ''Nop'' ''Normal'' (node_region x) g) (\<lambda>g.
       rbind (on_node dn (\<lambda>d. d\<lparr>isPhysicalChan := False, cn_size := DGSF_input_buffer_size c\<rparr>) g) (\<lambda>g.
       rbind (addNodes2CtrlTree (node_region x) [dn] g) (\<lambda>g.
       rbind (on_node dn (\<lambda>d. d\<lparr>node_subgraphId := s\<rparr>) g) (\<lambda>g.
       rbind (move_edges pre_nodes_data (\<lambda>l y. y\<lparr>pre_nodes_data := l\<rparr>) app_next_data nm dn s (next_nodes_data x) g) (\<lambda>(kd, g).
       rbind (move_edges pre_nodes_active (\<lambda>l y. y\<lparr>pre_nodes_active := l\<rparr>) app_next_active nm dn s (next_nodes_active x) g) (\<lambda>(ka, g).
       rbind (on_node nm (\<lambda>x. x\<lparr>next_nodes_data := kd @ [dn], next_nodes_active := ka\<rparr>) g) (\<lambda>g.
       rbind (on_node dn (\<lambda>d. d\<lparr>pre_nodes_data := pre_nodes_data d @ [nm]\<rparr>) g) (\<lambda>g.
         if chan_mode x = ''Keep_mode''
         then rbind (on_node nm (\<lambda>x. x\<lparr>chan_mode := ''Normal''\<rparr>) g) (on_node dn (\<lambda>d. d\<lparr>chan_mode := ''Keep_mode''\<rparr>))
         else Inr g))))))))
     else Inr g))"

text \<open>The subgraphs are visited in the order of a hash table, which is an argument; the nodes of a
  subgraph in the order of the graph, without the inserted ones.\<close>

definition addChanDGSF :: "config \<Rightarrow> nat list \<Rightarrow> chan_node graph \<Rightarrow> chan_node graph res" where
  "addChanDGSF c ids g = rfold (\<lambda>s. rfold (insert_DGSF c)
     (filter (\<lambda>i. node_subgraphId (nodes g ! i) = s) [0..<length (nodes g)])) ids g"

definition physical_count :: "chan_node list \<Rightarrow> nat \<Rightarrow> nat" where
  "physical_count xs s = length (filter (\<lambda>x. isPhysicalChan x \<and> node_subgraphId x = s) xs)"

text \<open>The subgraphs that have a physical channel, each once.\<close>

definition physical_ids :: "chan_node list \<Rightarrow> nat list" where
  "physical_ids xs = removeDuplicatesKeepSequence (map node_subgraphId (filter isPhysicalChan xs))"

definition setSpeedup :: "config \<Rightarrow> chan_node graph \<Rightarrow> chan_node graph res" where
  "setSpeedup c g =
     rbind (rfold (\<lambda>s tab. let v = array_size c div physical_count (nodes g) s in
         if length tab \<le> s then Inl OutOfBounds
         else if v < 1 then Inl (Throw ''[Config Error] Current subgraph size is larger than array size'')
         else Inr (tab[s := v])) (physical_ids (nodes g)) (replicate (length (physical_ids (nodes g))) 0)) (\<lambda>tab.
     rbind (rfold (\<lambda>x xs.
         if node_name x \<noteq> ''Chan_begin'' \<and> node_name x \<noteq> ''Chan_end''
         then rbind (rnth tab (node_subgraphId x)) (\<lambda>v. Inr (xs @ [x\<lparr>cn_speedup := v\<rparr>]))
         else Inr (xs @ [x])) (nodes g) []) (\<lambda>xs. Inr (g\<lparr>nodes := xs\<rparr>)))"

section \<open>The speedup of the subgraphs\<close>

lemma fill_table:
  fixes v :: "nat \<Rightarrow> nat"
  shows "rfold (\<lambda>s tab. if length tab \<le> s then Inl OutOfBounds else if v s < 1 then Inl e else Inr (tab[s := v s])) ss tab = Inr tab'
     \<longleftrightarrow> (\<forall>s\<in>set ss. s < length tab \<and> 1 \<le> v s) \<and> tab' = map (\<lambda>i. if i \<in> set ss then v i else tab ! i) [0..<length tab]"
proof (induction ss arbitrary: tab)
  case Nil
  show ?case by (simp add: map_nth) metis
next
  case (Cons s ss)
  have "map (\<lambda>i. if i \<in> set ss then v i else tab[s := v s] ! i) [0..<length tab]
      = map (\<lambda>i. if i \<in> set (s # ss) then v i else tab ! i) [0..<length tab]"
    by (rule map_cong) (auto simp: nth_list_update)
  with Cons.IH [of "tab[s := v s]"] show ?case by auto
qed

lemma set_speedups:
  "rfold (\<lambda>x xs. if P x then rbind (rnth tab (node_subgraphId x)) (\<lambda>v. Inr (xs @ [x\<lparr>cn_speedup := v\<rparr>])) else Inr (xs @ [x])) xs ys = Inr zs
     \<longleftrightarrow> (\<forall>x\<in>set xs. P x \<longrightarrow> node_subgraphId x < length tab)
       \<and> zs = ys @ map (\<lambda>x. if P x then x\<lparr>cn_speedup := tab ! node_subgraphId x\<rparr> else x) xs"
proof (induction xs arbitrary: ys)
  case Nil
  show ?case by auto
next
  case (Cons x xs)
  show ?case by (auto simp: Cons.IH rnth_def)
qed

lemma physical_ids_set: "set (physical_ids xs) = {s. 0 < physical_count xs s}"
  by (auto simp: physical_ids_def dedup_set physical_count_def filter_empty_conv)

lemma all_below_card: "finite P \<Longrightarrow> \<forall>s\<in>P. s < card P \<Longrightarrow> P = {..<card P}"
  by (metis card_lessThan card_subset_eq finite_lessThan lessThan_iff subsetI)

text \<open>C24: the pass succeeds exactly when the numbers of the subgraphs that hold physical channels have
  no gap from 0 on, none of them is larger than the array, and every node but the begin and end nodes
  lies in one of them; then every such node gets the number of copies of its subgraph that the array
  holds, and nothing else changes.\<close>

theorem speedup_fills_array:
  "setSpeedup c g = Inr g' \<longleftrightarrow>
     (let n = physical_count (nodes g); end_node = (\<lambda>x. node_name x = ''Chan_begin'' \<or> node_name x = ''Chan_end'') in
        (\<forall>s. 0 < n s \<longrightarrow> s < card {s. 0 < n s} \<and> n s \<le> array_size c)
      \<and> (\<forall>x\<in>set (nodes g). \<not> end_node x \<longrightarrow> 0 < n (node_subgraphId x))
      \<and> g' = g\<lparr>nodes := map (\<lambda>x. if end_node x then x else x\<lparr>cn_speedup := array_size c div n (node_subgraphId x)\<rparr>) (nodes g)\<rparr>)"
proof -
  define n where "n = physical_count (nodes g)"
  define k where "k = length (physical_ids (nodes g))"
  define P where "P = (\<lambda>x. node_name (x :: chan_node) \<noteq> ''Chan_begin'' \<and> node_name x \<noteq> ''Chan_end'')"
  have ids: "set (physical_ids (nodes g)) = {s. 0 < n s}" unfolding n_def by (rule physical_ids_set)
  have k: "k = card {s. 0 < n s}" "finite {s. 0 < n s}"
    unfolding k_def by (simp_all add: distinct_card physical_ids_def dedup_distinct flip: ids)
  define tab where "tab = map (\<lambda>i. if 0 < n i then array_size c div n i else 0) [0..<k]"
  have fill: "rfold (\<lambda>s tab. let v = array_size c div n s in
         if length tab \<le> s then Inl OutOfBounds
         else if v < 1 then Inl (Throw ''[Config Error] Current subgraph size is larger than array size'')
         else Inr (tab[s := v])) (physical_ids (nodes g)) (replicate k 0) = Inr t
     \<longleftrightarrow> (\<forall>s. 0 < n s \<longrightarrow> s < k \<and> n s \<le> array_size c) \<and> t = tab" for t
  proof -
    have "1 \<le> array_size c div n s \<longleftrightarrow> n s \<le> array_size c" if "0 < n s" for s
      using that by (metis One_nat_def Suc_le_eq div_greater_zero_iff)
    moreover have "map (\<lambda>i. if i \<in> {s. 0 < n s} then array_size c div n i else replicate k 0 ! i) [0..<k] = tab"
      unfolding tab_def by (rule map_cong) auto
    ultimately show ?thesis
      using fill_table [of "\<lambda>s. array_size c div n s" "Throw ''[Config Error] Current subgraph size is larger than array size''"
          "physical_ids (nodes g)" "replicate k 0" t]
      unfolding ids Let_def length_replicate by auto
  qed
  define ok where "ok \<longleftrightarrow> (\<forall>s. 0 < n s \<longrightarrow> s < k \<and> n s \<le> array_size c)"
  define M where "M = map (\<lambda>x. if P x then x\<lparr>cn_speedup := tab ! node_subgraphId x\<rparr> else x) (nodes g)"
  define N where "N = map (\<lambda>x. if P x then x\<lparr>cn_speedup := array_size c div n (node_subgraphId x)\<rparr> else x) (nodes g)"
  have len: "length tab = k" by (simp add: tab_def)
  have run: "setSpeedup c g = Inr g' \<longleftrightarrow> ok \<and> (\<forall>x\<in>set (nodes g). P x \<longrightarrow> node_subgraphId x < k) \<and> g' = g\<lparr>nodes := M\<rparr>"
    unfolding setSpeedup_def rbind_Inr_iff n_def [symmetric] k_def [symmetric] fill
      P_def [symmetric, THEN fun_cong] set_speedups ok_def M_def
    by (auto simp: len)
  have "(\<forall>x\<in>set (nodes g). P x \<longrightarrow> node_subgraphId x < k) \<longleftrightarrow> (\<forall>x\<in>set (nodes g). P x \<longrightarrow> 0 < n (node_subgraphId x))"
    and "(\<forall>x\<in>set (nodes g). P x \<longrightarrow> node_subgraphId x < k) \<Longrightarrow> M = N" if ok
  proof -
    have "{s. 0 < n s} = {..<k}" using all_below_card [OF k(2)] that k(1) unfolding ok_def by blast
    then have e: "0 < n s \<longleftrightarrow> s < k" for s by auto
    then show "(\<forall>x\<in>set (nodes g). P x \<longrightarrow> node_subgraphId x < k) \<longleftrightarrow> (\<forall>x\<in>set (nodes g). P x \<longrightarrow> 0 < n (node_subgraphId x))" by simp
    show "M = N" if "\<forall>x\<in>set (nodes g). P x \<longrightarrow> node_subgraphId x < k"
      unfolding M_def N_def using that e by (intro map_cong) (auto simp: tab_def)
  qed
  with run have run': "setSpeedup c g = Inr g' \<longleftrightarrow> ok \<and> (\<forall>x\<in>set (nodes g). P x \<longrightarrow> 0 < n (node_subgraphId x)) \<and> g' = g\<lparr>nodes := N\<rparr>"
    by (cases ok) auto
  have N: "N = map (\<lambda>x. if node_name x = ''Chan_begin'' \<or> node_name x = ''Chan_end'' then x
      else x\<lparr>cn_speedup := array_size c div n (node_subgraphId x)\<rparr>) (nodes g)"
    unfolding N_def by (rule map_cong) (auto simp: P_def)
  show ?thesis
    unfolding run' n_def [symmetric] Let_def ok_def k(1) N P_def by simp
qed

text \<open>Two subgraphs of two and one channels, and the begin node, on an array of five cells.\<close>

definition demo_chan_graph :: "chan_node graph" where
  "demo_chan_graph = graph_empty\<lparr>nodes := [(chan_node_new ''Chan_begin'')\<lparr>isPhysicalChan := False\<rparr>, chan_node_new ''Lse_a'',
     (chan_node_new ''Chan_b'')\<lparr>node_subgraphId := 1\<rparr>, chan_node_new ''Chan_c'']\<rparr>"

theorem speedup_fills_array_witness:
  "map cn_speedup (nodes (case setSpeedup (config_static\<lparr>array_size := 5\<rparr>) demo_chan_graph of Inr g \<Rightarrow> g | Inl _ \<Rightarrow> graph_empty)) = [1, 2, 5, 2]"
proof -
  let ?c = "config_static\<lparr>array_size := 5\<rparr>" and ?g = "demo_chan_graph"
  let ?n = "\<lambda>s. if s = 0 then 2 else if s = 1 then 1 else (0 :: nat)"
  have n: "physical_count (nodes ?g) = ?n"
    by (rule ext) (simp add: physical_count_def demo_chan_graph_def chan_node_new_def)
  have s: "{s. 0 < ?n s} = {0, 1}" by auto
  have "setSpeedup ?c ?g = Inr (?g\<lparr>nodes := map (\<lambda>x. if node_name x = ''Chan_begin'' \<or> node_name x = ''Chan_end'' then x
      else x\<lparr>cn_speedup := 5 div ?n (node_subgraphId x)\<rparr>) (nodes ?g)\<rparr>)"
    unfolding speedup_fills_array n Let_def s by (simp add: demo_chan_graph_def chan_node_new_def)
  then show ?thesis by (simp add: demo_chan_graph_def chan_node_new_def)
qed

end
