(* ===== verification/ChanGraphGen.thy ===== *)
theory ChanGraphGen
  imports ChanGraph
begin

text \<open>
  The generation of the graph of channels from the dataflow graph (\<open>ChanGraph::genChanGraphFromDfg\<close>,
  \<open>sim/graph.cpp\<close>): what becomes of the constants.
\<close>

section \<open>Graphs that grow\<close>

definition grows :: "'a node_scheme graph \<Rightarrow> 'a node_scheme graph \<Rightarrow> bool" where
  "grows g h \<longleftrightarrow> (\<exists>ms. nodeIndexDict h = nodeIndexDict g @ ms) \<and> length (nodes g) \<le> length (nodes h)
     \<and> (\<forall>i<length (nodes g). set (pre_nodes_data (nodes g ! i)) \<subseteq> set (pre_nodes_data (nodes h ! i)))"

lemma grows_refl: "grows g g"
  by (simp add: grows_def)

lemma grows_trans: "grows g h \<Longrightarrow> grows h k \<Longrightarrow> grows g k"
  unfolding grows_def by (elim conjE exE) (intro conjI, auto, meson less_le_trans subsetD)

lemma grows_on_node:
  assumes "on_node n f g = Inr h" "\<And>x. set (pre_nodes_data x) \<subseteq> set (pre_nodes_data (f x))"
  shows "grows g h"
proof -
  obtain i where "h = g\<lparr>nodes := (nodes g)[i := f (nodes g ! i)]\<rparr>" "i < length (nodes g)"
    using assms(1) by (auto simp: on_node_def rbind_Inr_iff rnth_Inr_iff)
  with assms(2) show ?thesis by (simp add: grows_def nth_list_update)
qed

lemma grows_rfold:
  assumes "rfold f xs g = Inr h" "\<And>x g h. x \<in> set xs \<Longrightarrow> f x g = Inr h \<Longrightarrow> grows g h"
  shows "grows g h"
  using rfold_partial [of f xs g h "grows g"] assms grows_refl grows_trans by blast

text \<open>The names: of a node's channel, and of the channel before a constant.\<close>

fun chan_names :: "string \<Rightarrow> dfg_node list \<Rightarrow> string list" where
  "chan_names l [] = []"
| "chan_names l (d # ds) = (case chan_kind d of
     Inr (Some (ty, n)) \<Rightarrow> n # chan_names n ds | _ \<Rightarrow> l # chan_names l ds)"

lemma gen_node_const: "chan_kind d = Inr None \<Longrightarrow> gen_node d (g, l, ns) = Inr (g, l, ns @ [l])"
  by (simp add: gen_node_def)

lemma gen_node_chan:
  "chan_kind d = Inr (Some (ty, n)) \<Longrightarrow> gen_node d (g, l, ns) = Inr s \<Longrightarrow> \<exists>g'. s = (g', n, ns @ [n])"
  by (auto simp: gen_node_def rbind_Inr_iff)

lemma gen_nodes_names:
  "rfold gen_node ds (g, l, ns) = Inr (g', l', ns') \<Longrightarrow> ns' = ns @ chan_names l ds"
proof (induction ds arbitrary: g l ns)
  case Nil
  then show ?case by simp
next
  case (Cons d ds)
  show ?case
  proof (cases "chan_kind d")
    case (Inl e)
    with Cons.prems show ?thesis by (simp add: gen_node_def)
  next
    case (Inr k)
    show ?thesis
    proof (cases k)
      case None
      with Cons.prems Inr have "rfold gen_node ds (g, l, ns @ [l]) = Inr (g', l', ns')" by (simp add: gen_node_const None)
      from Cons.IH [OF this] Inr None show ?thesis by simp
    next
      case (Some tn)
      obtain ty n where tn: "tn = (ty, n)" by (rule prod.exhaust)
      from Cons.prems Inr Some tn obtain g2 where "rfold gen_node ds (g2, n, ns @ [n]) = Inr (g', l', ns')"
        by (auto simp: rbind_Inr_iff dest: gen_node_chan)
      from Cons.IH [OF this] Inr Some tn show ?thesis by simp
    qed
  qed
qed

lemma length_chan_names [simp]: "length (chan_names l ds) = length ds"
  by (induction ds arbitrary: l) (auto split: sum.splits option.splits)

lemma chan_names_own: "i < length ds \<Longrightarrow> chan_kind (ds ! i) = Inr (Some (ty, n)) \<Longrightarrow> chan_names l ds ! i = n"
  by (induction ds arbitrary: l i) (auto simp: nth_Cons split: nat.splits sum.splits option.splits)

lemma chan_names_const:
  "Suc i < length ds \<Longrightarrow> dfg_type (ds ! Suc i) = ''Const'' \<Longrightarrow> chan_names l ds ! Suc i = chan_names l ds ! i"
proof (induction ds arbitrary: l i)
  case Nil
  then show ?case by simp
next
  case (Cons d ds)
  have first: "chan_names m ds ! 0 = m" if "ds \<noteq> []" "dfg_type (ds ! 0) = ''Const''" for m
    using that by (cases ds) (auto simp: chan_kind_def)
  show ?case
  proof (cases i)
    case 0
    with Cons.prems first show ?thesis by (auto split: sum.splits option.splits)
  next
    case (Suc j)
    with Cons show ?thesis by (auto split: sum.splits option.splits)
  qed
qed

section \<open>The constants\<close>

lemma gen_refs_grows: "gen_refs dfg names app cn ms g = Inr h \<Longrightarrow>
    (\<And>ns x. set (pre_nodes_data x) \<subseteq> set (pre_nodes_data (app ns x))) \<Longrightarrow> grows g h"
  unfolding gen_refs_def by (erule grows_rfold) (auto simp: rbind_Inr_iff grows_refl split: if_splits elim!: grows_on_node)

lemma gen_refs_adds:
  assumes "gen_refs dfg names app_pre_data cn ms g = Inr h" "m \<in> set ms" "findNodeIndex dfg m = Inr j"
    "j < length names" "names ! j \<noteq> []"
  shows "\<exists>x. getNode h cn = Inr x \<and> names ! j \<in> set (pre_nodes_data x)"
proof -
  let ?f = "\<lambda>m g. rbind (findNodeIndex dfg m) (\<lambda>j. rbind (rnth names j) (\<lambda>s. if s \<noteq> [] then on_node cn (app_pre_data [s]) g else Inr g))"
  have fg: "grows g h" if "?f m g = Inr h" for m and g h :: "chan_node graph"
    using that by (auto simp: rbind_Inr_iff grows_refl app_pre_data_def split: if_splits dest: grows_on_node)
  obtain as bs where ms: "ms = as @ m # bs" using assms(2) by (meson split_list)
  obtain g1 g2 where g: "?f m g1 = Inr g2" "rfold ?f bs g2 = Inr h"
    using assms(1) unfolding gen_refs_def ms by (auto simp: rfold_append rbind_Inr_iff)
  have on: "on_node cn (app_pre_data [names ! j]) g1 = Inr g2" using g(1) assms(3-5) by simp
  then obtain i where i: "map_of (nodeIndexDict g1) cn = Some i" "i < length (nodes g1)"
    "g2 = g1\<lparr>nodes := (nodes g1)[i := app_pre_data [names ! j] (nodes g1 ! i)]\<rparr>"
    by (auto simp: on_node_def findNodeIndex_def rbind_Inr_iff rnth_Inr_iff split: option.splits)
  have gr: "grows g2 h" by (rule grows_rfold [OF g(2) fg])
  obtain ns where ns: "nodeIndexDict h = nodeIndexDict g2 @ ns" using gr by (auto simp: grows_def)
  have "i < length (nodes g2)" using i(2,3) by simp
  with gr have "set (pre_nodes_data (nodes g2 ! i)) \<subseteq> set (pre_nodes_data (nodes h ! i))" "i < length (nodes h)"
    unfolding grows_def by (blast, linarith)
  moreover have "names ! j \<in> set (pre_nodes_data (nodes g2 ! i))" using i(2,3) by (simp add: app_pre_data_def)
  ultimately show ?thesis using i(1,3) ns by (auto simp: getNode_def findNodeIndex_def)
qed

lemma grows_getNode:
  assumes "grows g h" "getNode g cn = Inr x" "n \<in> set (pre_nodes_data x)"
  shows "\<exists>y. getNode h cn = Inr y \<and> n \<in> set (pre_nodes_data y)"
proof -
  obtain i where i: "map_of (nodeIndexDict g) cn = Some i" "i < length (nodes g)" "x = nodes g ! i"
    using assms(2) by (auto simp: getNode_def findNodeIndex_def rbind_Inr_iff rnth_Inr_iff split: option.splits)
  obtain ns where "nodeIndexDict h = nodeIndexDict g @ ns" using assms(1) by (auto simp: grows_def)
  moreover have "set (pre_nodes_data (nodes g ! i)) \<subseteq> set (pre_nodes_data (nodes h ! i))" "i < length (nodes h)"
    using assms(1) i(2) by (auto simp: grows_def)
  ultimately show ?thesis using i assms(3) by (auto simp: getNode_def findNodeIndex_def)
qed

lemma addNodes2CtrlTree_grows: "addNodes2CtrlTree r ns g = Inr h \<Longrightarrow> grows g h"
proof -
  assume "addNodes2CtrlTree r ns g = Inr h"
  then obtain t where "rfold (\<lambda>n. on_node n (\<lambda>x. x\<lparr>node_region := r\<rparr>)) ns (g\<lparr>ctrl_tree := t\<rparr>) = Inr h"
    by (auto simp: addNodes2CtrlTree_def rbind_Inr_iff)
  then have "grows (g\<lparr>ctrl_tree := t\<rparr>) h" by (rule grows_rfold) (auto dest: grows_on_node)
  then show "grows g h" by (simp add: grows_def)
qed

lemma apps_grow:
  "set (pre_nodes_data x) \<subseteq> set (pre_nodes_data (app_pre_data ns x))" "set (pre_nodes_data x) \<subseteq> set (pre_nodes_data (app_next_data ns x))"
  "set (pre_nodes_data x) \<subseteq> set (pre_nodes_data (app_pre_active ns x))" "set (pre_nodes_data x) \<subseteq> set (pre_nodes_data (app_next_active ns x))"
  by (auto simp: app_pre_data_def app_next_data_def app_pre_active_def app_next_active_def)

lemma link_grows: "link fld app g = Inr h \<Longrightarrow> (\<And>ns x. set (pre_nodes_data x) \<subseteq> set (pre_nodes_data (app ns x))) \<Longrightarrow> grows g h"
  unfolding link_def by (erule grows_rfold) (auto simp: rbind_Inr_iff elim!: grows_rfold grows_on_node)

lemma completeConnect_grows: "completeConnect g = Inr h \<Longrightarrow> grows g h"
  unfolding completeConnect_def rbind_Inr_iff by (auto dest!: link_grows [OF _ apps_grow(2)] link_grows [OF _ apps_grow(1)]
      link_grows [OF _ apps_grow(4)] link_grows [OF _ apps_grow(3)] intro: grows_trans)

lemma removeRedundant_getNode:
  "getNode g cn = Inr x \<Longrightarrow> n \<in> set (pre_nodes_data x) \<Longrightarrow>
     \<exists>y. getNode (removeRedundantConnect g) cn = Inr y \<and> n \<in> set (pre_nodes_data y)"
  by (auto simp: getNode_def findNodeIndex_def removeRedundantConnect_def rbind_Inr_iff rnth_Inr_iff dedup_set split: option.splits)

lemma gen_links_grows: "gen_links dfg names r dn g = Inr h \<Longrightarrow> grows g h"
proof -
  assume run: "gen_links dfg names r dn g = Inr h"
  then obtain i cn d where d: "findNodeIndex dfg dn = Inr i" "rnth names i = Inr cn" "getNode dfg dn = Inr d"
    by (auto simp: gen_links_def rbind_Inr_iff)
  show "grows g h"
  proof (cases "dfg_type d = ''Const''")
    case True
    from run have "rfold (\<lambda>m g. rbind (findNodeIndex dfg m) (\<lambda>j. rbind (rnth names j) (\<lambda>s. on_node s (\<lambda>x.
            x\<lparr>cn_constVal := cn_constVal x @ [dfg_constVal d],
              constLocation := (case first_index (\<lambda>k. k = dn) (pre_nodes_data x) of None \<Rightarrow> length (pre_nodes_data x) | Some k \<Rightarrow> k)\<rparr>) g)))
          (next_nodes_data d) g = Inr h"
      using d True by (simp add: gen_links_def)
    then show ?thesis by (rule grows_rfold) (auto simp: rbind_Inr_iff dest: grows_on_node)
  next
    case False
    with run d obtain g1 g2 g3 g4 where "addNodes2CtrlTree r [cn] g = Inr g1"
      "gen_refs dfg names app_pre_data cn (pre_nodes_data d) g1 = Inr g2" "gen_refs dfg names app_next_data cn (next_nodes_data d) g2 = Inr g3"
      "gen_refs dfg names app_pre_active cn (pre_nodes_active d) g3 = Inr g4" "gen_refs dfg names app_next_active cn (next_nodes_active d) g4 = Inr h"
      by (auto simp: gen_links_def rbind_Inr_iff)
    then show ?thesis
      by (meson addNodes2CtrlTree_grows gen_refs_grows apps_grow grows_trans)
  qed
qed

text \<open>A constant operand becomes a connection from an unrelated channel: when a node of the dataflow
  graph has as operand a constant that was added right after another node, the channel generated for
  the node lists the channel of that other node as an operand, whatever that node is. (The name of the
  channel is kept from one node to the next, and the constants, which have no channel, get it too.)\<close>

theorem constant_operand_connects_previous:
  assumes "genChanGraphFromDfg dfg = Inr g" "graph_ok dfg" "Suc j < length (nodes dfg)"
    "chan_kind (nodes dfg ! j) = Inr (Some (ty, prev))" "prev \<noteq> []" "dfg_type (nodes dfg ! Suc j) = ''Const''"
    "d \<in> set (nodes dfg)" "chan_kind d = Inr (Some (ty', cn))" "dfg_type d \<noteq> ''Const''"
    "node_name (nodes dfg ! Suc j) \<in> set (pre_nodes_data d)"
    "r \<in> set (controlRegionTable (ctrl_tree dfg))" "node_name d \<in> set (region_nodes r)"
  shows "\<exists>x. getNode g cn = Inr x \<and> prev \<in> set (pre_nodes_data x)"
proof -
  let ?names = "chan_names [] (nodes dfg)"
  let ?link = "\<lambda>r. rfold (gen_links dfg ?names (controlRegionName r)) (region_nodes r)"
  let ?g0 = "graph_empty\<lparr>ctrl_tree := (ctrl_tree dfg)\<lparr>controlRegionTable :=
        map (\<lambda>r. r\<lparr>region_nodes := []\<rparr>) (controlRegionTable (ctrl_tree dfg))\<rparr>\<rparr>"
  obtain g1 l ns g2 g3 where gen: "rfold gen_node (nodes dfg) (?g0, [], []) = Inr (g1, l, ns)"
    and run0: "rfold (\<lambda>r. rfold (gen_links dfg ns (controlRegionName r)) (region_nodes r)) (controlRegionTable (ctrl_tree dfg)) g1 = Inr g2"
      "completeConnect g2 = Inr g3" "g = removeRedundantConnect g3"
    using assms(1) by (auto simp: genChanGraphFromDfg_def Let_def rbind_Inr_iff)
  have "ns = ?names" using gen_nodes_names [OF gen] by simp
  with run0 have run: "rfold ?link (controlRegionTable (ctrl_tree dfg)) g1 = Inr g2" "completeConnect g2 = Inr g3"
    "g = removeRedundantConnect g3" by simp_all
  obtain as bs where ab: "controlRegionTable (ctrl_tree dfg) = as @ r # bs" using assms(11) by (meson split_list)
  obtain cs es where ce: "region_nodes r = cs @ node_name d # es" using assms(12) by (meson split_list)
  from run(1) obtain h1 h2 h3 where h: "gen_links dfg ?names (controlRegionName r) (node_name d) h1 = Inr h2"
    "rfold (gen_links dfg ?names (controlRegionName r)) es h2 = Inr h3" "rfold ?link bs h3 = Inr g2"
    unfolding ab by (auto simp: rfold_append rbind_Inr_iff ce)
  obtain i where i: "i < length (nodes dfg)" "d = nodes dfg ! i" using assms(7) by (auto simp: in_set_conv_nth)
  have fd: "findNodeIndex dfg (node_name d) = Inr i" "getNode dfg (node_name d) = Inr d" "?names ! i = cn"
    using graph_ok_nth [OF assms(2) i(1)] i chan_names_own [OF i(1)] assms(8) by simp_all
  have fk: "findNodeIndex dfg (node_name (nodes dfg ! Suc j)) = Inr (Suc j)" by (rule graph_ok_nth(1) [OF assms(2,3)])
  have nk: "?names ! Suc j = prev" "Suc j < length ?names"
    using chan_names_const [OF assms(3,6)] chan_names_own [OF _ assms(4)] assms(3) by simp_all
  obtain k1 k2 where k: "gen_refs dfg ?names app_pre_data cn (pre_nodes_data d) k1 = Inr k2" "grows k2 h2"
  proof -
    from h(1) fd i assms(9) obtain k1 k2 k3 k4 where
      "gen_refs dfg ?names app_pre_data cn (pre_nodes_data d) k1 = Inr k2" "gen_refs dfg ?names app_next_data cn (next_nodes_data d) k2 = Inr k3"
      "gen_refs dfg ?names app_pre_active cn (pre_nodes_active d) k3 = Inr k4" "gen_refs dfg ?names app_next_active cn (next_nodes_active d) k4 = Inr h2"
      by (auto simp: gen_links_def rbind_Inr_iff)
    with that show ?thesis by (meson gen_refs_grows apps_grow grows_trans)
  qed
  have "grows h2 h3" by (rule grows_rfold [OF h(2) gen_links_grows])
  moreover have "grows h3 g2" using h(3) by (rule grows_rfold) (erule grows_rfold, erule gen_links_grows)
  ultimately have "grows k2 g3" using k(2) completeConnect_grows [OF run(2)] grows_trans by blast
  moreover obtain x where "getNode k2 cn = Inr x" "prev \<in> set (pre_nodes_data x)"
    using gen_refs_adds [OF k(1) assms(10) fk nk(2)] nk(1) assms(5) by auto
  ultimately show ?thesis unfolding run(3) using grows_getNode removeRedundant_getNode by metis
qed

text \<open>Two loads, a constant and an addition of the first load and the constant.\<close>

definition demo_const_dfg :: "dfg_node graph" where
  "demo_const_dfg = \<lparr>nodes = [(dfg_node_new ''a'' ''Load''), (dfg_node_new ''b'' ''Load''),
      (dfg_node_new ''k'' ''Const'')\<lparr>dfg_type := ''Const'', next_nodes_data := [''sum'']\<rparr>,
      (dfg_node_new ''sum'' ''Add'')\<lparr>pre_nodes_data := [''a'', ''k'']\<rparr>],
     nodeIndexDict = [(''a'', 0), (''b'', 1), (''k'', 2), (''sum'', 3)],
     ctrl_tree = \<lparr>controlRegionTable = [(region_new ''top'' ''Loop'' True)\<lparr>region_nodes := [''a'', ''b'', ''k'', ''sum'']\<rparr>],
       controlRegionIndexDict = [''top'' \<mapsto> 0]\<rparr>\<rparr>"

theorem constant_operand_connects_previous_witness:
  "\<exists>g x. genChanGraphFromDfg demo_const_dfg = Inr g \<and> getNode g ''Chan_sum'' = Inr x \<and> ''Lse_b'' \<in> set (pre_nodes_data x)"
proof -
  have "case genChanGraphFromDfg demo_const_dfg of Inr g \<Rightarrow> True | Inl _ \<Rightarrow> False" by code_simp
  then obtain g where g: "genChanGraphFromDfg demo_const_dfg = Inr g" by (auto split: sum.splits)
  have "\<exists>x. getNode g ''Chan_sum'' = Inr x \<and> ''Lse_b'' \<in> set (pre_nodes_data x)"
    by (rule constant_operand_connects_previous [OF g, where j = 1 and d = "nodes demo_const_dfg ! 3" and ty = "''Lse_ld''" and ty' = "''ChanBase''"
          and r = "controlRegionTable (ctrl_tree demo_const_dfg) ! 0"]) code_simp+
  with g show ?thesis by blast
qed

end
