(* ===== verification/LoopHierarchy.thy ===== *)
theory LoopHierarchy
  imports ChanGraph
begin

text \<open>
  The hierarchy of the loops of a graph of channels (\<open>genLoopHierarchy\<close> and the functions that read it,
  \<open>sim/graph.cpp\<close>): the control regions without the branches, whose nodes belong to the loop around
  them, and the path of loops from one node to another, along which relay channels are inserted.
\<close>

section \<open>The code\<close>

definition merge_branch :: "controlTree \<Rightarrow> string \<Rightarrow> controlRegion list \<Rightarrow> controlRegion list res" where
  "merge_branch t n h = rbind (findControlRegionIndex t n) (\<lambda>i. rbind (rnth h i) (\<lambda>r.
     if controlType r \<noteq> ''Loop''
     then rbind (findControlRegionIndex t (upperControlRegion r)) (\<lambda>j. rbind (rnth h j) (\<lambda>u.
       Inr (h[j := u\<lparr>region_nodes := region_nodes u @ region_nodes r,
                     lowerControlRegion := lowerControlRegion u @ lowerControlRegion r\<rparr>])))
     else Inr h))"

definition set_uppers :: "controlTree \<Rightarrow> nat \<Rightarrow> controlRegion list \<Rightarrow> controlRegion list res" where
  "set_uppers t k h = rbind (rnth h k) (\<lambda>r.
     if controlType r = ''Loop''
     then rfold (\<lambda>l h. rbind (findControlRegionIndex t l) (\<lambda>i. rbind (rnth h i) (\<lambda>x.
            Inr (h[i := x\<lparr>upperControlRegion := controlRegionName r\<rparr>])))) (lowerControlRegion r) h
     else Inr h)"

definition genLoopHierarchy :: "controlTree \<Rightarrow> controlRegion list res option" where
  "genLoopHierarchy t = map_option (\<lambda>bfs. rbind bfs (\<lambda>ns.
     rbind (rfold (merge_branch t) (rev ns) (controlRegionTable t)) (\<lambda>h.
     rbind (rfold (set_uppers t) [0..<length h] h) (\<lambda>h.
       Inr (filter (\<lambda>r. controlType r = ''Loop'') h))))) (bfsTraverseControlTree t)"

definition findNodeCtrlRegionInLoopHierarchy :: "string \<Rightarrow> controlRegion list \<Rightarrow> string" where
  "findNodeCtrlRegionInLoopHierarchy n h = (case find (\<lambda>r. n \<in> set (region_nodes r)) h of
     None \<Rightarrow> [] | Some r \<Rightarrow> controlRegionName r)"

text \<open>The queue of \<open>backTrackPath\<close> holds at most one name; the path ends behind the first name that no
  loop has.\<close>

partial_function (option) back_loop :: "controlRegion list \<Rightarrow> string \<Rightarrow> string list \<Rightarrow> string list option" where
  [code]: "back_loop h n out = (case find (\<lambda>r. controlRegionName r = n) h of
       None \<Rightarrow> Some out
     | Some r \<Rightarrow> back_loop h (upperControlRegion r) (out @ [upperControlRegion r]))"

definition backTrackPath :: "string \<Rightarrow> controlRegion list \<Rightarrow> string list option" where
  "backTrackPath n h = (case find (\<lambda>r. n \<in> set (region_nodes r)) h of
     None \<Rightarrow> Some []
   | Some r \<Rightarrow> back_loop h (controlRegionName r) [controlRegionName r])"

text \<open>The walk along both paths at once; reading behind the end of a path is undefined.\<close>

fun common_walk :: "string list \<Rightarrow> string list \<Rightarrow> (string list \<times> string list \<times> string) res" where
  "common_walk (a # s) (b # s') = (if a = b then Inr ([], [], a)
     else rbind (common_walk s s') (\<lambda>(p, q, x). Inr (a # p, b # q, x)))"
| "common_walk _ _ = Inl OutOfBounds"

definition findShortestCtrlRegionPath :: "string list \<Rightarrow> string list \<Rightarrow> string list res" where
  "findShortestCtrlRegionPath s s' =
     (if s' = [] then Inr s else if s = [] then Inr s'
      else case first_index (\<lambda>x. x = hd s') s of
        Some i \<Rightarrow> Inr (take (Suc i) s)
      | None \<Rightarrow> (case first_index (\<lambda>x. x = hd s) s' of
          Some i \<Rightarrow> Inr (rev (take (Suc i) s'))
        | None \<Rightarrow> rbind (common_walk s s') (\<lambda>(p, q, x). Inr ((p @ [x]) @ rev q))))"

section \<open>Paths to the outermost loop\<close>

fun up_path :: "controlRegion list \<Rightarrow> string \<Rightarrow> string list \<Rightarrow> bool" where
  "up_path h n [] \<longleftrightarrow> find (\<lambda>r. controlRegionName r = n) h = None"
| "up_path h n (u # p) \<longleftrightarrow> (\<exists>r. find (\<lambda>r. controlRegionName r = n) h = Some r \<and> u = upperControlRegion r \<and> up_path h u p)"

lemma back_loop_path:
  assumes "back_loop h n out = Some res"
  shows "\<exists>p. res = out @ p \<and> up_path h n p"
proof (induction rule: back_loop.raw_induct [OF _ assms])
  case (1 f h n out res)
  show ?case
  proof (cases "find (\<lambda>r. controlRegionName r = n) h")
    case None
    with 1(2) show ?thesis by (intro exI [of _ "[]"]) simp
  next
    case (Some r)
    with 1(2) have "f h (upperControlRegion r) (out @ [upperControlRegion r]) = Some res" by simp
    from 1(1) [OF this] Some show ?thesis by (force intro: exI [of _ "upperControlRegion r # _"])
  qed
qed

lemma up_path_unique: "up_path h n p \<Longrightarrow> up_path h n q \<Longrightarrow> p = q"
proof (induction p arbitrary: n q)
  case Nil
  then show ?case by (cases q) auto
next
  case (Cons u p)
  then show ?case by (cases q) auto
qed

lemma up_path_suffix: "up_path h n p \<Longrightarrow> n # p = a @ x # b \<Longrightarrow> up_path h x b"
proof (induction p arbitrary: n a)
  case Nil
  then show ?case by (cases a) auto
next
  case (Cons u p)
  then show ?case by (cases a) auto
qed

lemma up_path_distinct:
  assumes "up_path h n p"
  shows "distinct (n # p)"
proof (rule ccontr)
  assume "\<not> distinct (n # p)"
  then obtain a x b c where d: "n # p = a @ x # b @ x # c" using not_distinct_decomp by fastforce
  then have "up_path h x (b @ x # c)" "up_path h x c"
    using up_path_suffix [OF assms, of a x "b @ x # c"] up_path_suffix [OF assms, of "a @ x # b" x c] by auto
  from up_path_unique [OF this] show False by (metis append_Cons append_self_conv2 not_Cons_self2 append_is_Nil_conv)
qed

text \<open>The region around an outermost loop has the empty name, and every other is a loop.\<close>

definition uppers_known :: "controlRegion list \<Rightarrow> bool" where
  "uppers_known h \<longleftrightarrow> [] \<notin> controlRegionName ` set h
     \<and> (\<forall>r\<in>set h. upperControlRegion r = [] \<or> upperControlRegion r \<in> controlRegionName ` set h)"

lemma up_path_end:
  assumes "uppers_known h" "up_path h n p" "n \<in> controlRegionName ` set h"
  shows "[] \<in> set p"
  using assms(2,3)
proof (induction p arbitrary: n)
  case Nil
  then show ?case by (auto simp: find_None_iff)
next
  case (Cons u p)
  then obtain r where f: "find (\<lambda>r. controlRegionName r = n) h = Some r" and u: "u = upperControlRegion r" by auto
  then have r: "r \<in> set h" by (metis find_Some_iff nth_mem)
  with u assms(1) have "u = [] \<or> u \<in> controlRegionName ` set h" by (auto simp: uppers_known_def)
  with Cons show ?case by auto
qed

lemma backTrackPath_cases:
  assumes "backTrackPath n h = Some s" "s \<noteq> []"
  shows "up_path h (hd s) (tl s) \<and> hd s \<in> controlRegionName ` set h"
proof (cases "find (\<lambda>r. n \<in> set (region_nodes r)) h")
  case None
  with assms show ?thesis by (simp add: backTrackPath_def)
next
  case (Some r)
  with assms(1) have "back_loop h (controlRegionName r) [controlRegionName r] = Some s" by (simp add: backTrackPath_def)
  from back_loop_path [OF this] obtain p where "s = controlRegionName r # p" "up_path h (controlRegionName r) p" by auto
  moreover have "r \<in> set h" using Some by (auto simp: find_Some_iff)
  ultimately show ?thesis by auto
qed

text \<open>Two such paths share everything from their first common region on.\<close>

lemma paths_meet:
  assumes "up_path h (hd s) (tl s)" "up_path h (hd s') (tl s')" "s \<noteq> []" "s' \<noteq> []" "set s \<inter> set s' \<noteq> {}"
  obtains p q x t where "s = p @ x # t" "s' = q @ x # t" "set p \<inter> set s' = {}" "set q \<inter> set s = {}"
proof -
  obtain p x t where p: "s = p @ x # t" "x \<in> set s'" "set p \<inter> set s' = {}"
    using split_list_first_propE [of s "\<lambda>y. y \<in> set s'"] assms(5) by (metis disjoint_iff)
  obtain q t' where q: "s' = q @ x # t'" using p(2) by (meson split_list)
  have "up_path h x t" "up_path h x t'"
    using up_path_suffix [OF assms(1), of p x t] up_path_suffix [OF assms(2), of q x t'] assms(3,4) p(1) q by auto
  then have t: "t' = t" by (rule up_path_unique [symmetric])
  have "distinct s'" using up_path_distinct [OF assms(2)] assms(4) by simp
  then have "set q \<inter> set s = {}" using p(1,3) q t by auto
  with p q t that show ?thesis by blast
qed

lemma common_walk_apart:
  assumes "set p \<inter> set (q @ x # t) = {}" "set q \<inter> set (p @ x # t) = {}" "distinct (x # t)" "length p \<noteq> length q"
  shows "common_walk (p @ x # t) (q @ x # t) = Inl OutOfBounds"
proof -
  have fail: "common_walk u v = Inl OutOfBounds" if "\<forall>i. i < length u \<longrightarrow> i < length v \<longrightarrow> u ! i \<noteq> v ! i" for u v
    using that
  proof (induction u v rule: common_walk.induct)
    case (1 a s b s')
    have "a \<noteq> b" using 1(2) by force
    moreover have "\<forall>i. i < length s \<longrightarrow> i < length s' \<longrightarrow> s ! i \<noteq> s' ! i" using 1(2) by (metis Suc_less_eq length_Cons nth_Cons_Suc)
    ultimately show ?case using 1(1) by simp
  qed auto
  have "(p @ x # t) ! i \<noteq> (q @ x # t) ! i" if i: "i < length (p @ x # t)" "i < length (q @ x # t)" for i
  proof (cases "i < length p \<or> i < length q")
    case True
    with assms(1,2) i show ?thesis by (metis disjoint_iff nth_append nth_mem)
  next
    case False
    then have "i - length p < length (x # t)" "i - length q < length (x # t)" "i - length p \<noteq> i - length q" using i assms(4) by auto
    with assms(3) False show ?thesis by (simp add: nth_append nth_eq_iff_index_eq del: distinct.simps)
  qed
  then show ?thesis by (intro fail) blast
qed

lemma common_walk_level:
  "length p = length q \<Longrightarrow> set p \<inter> set q = {} \<Longrightarrow> common_walk (p @ x # t) (q @ x # t) = Inr (p, q, x)"
  by (induction p q rule: list_induct2) auto

lemma first_index_at: "y \<notin> set p \<Longrightarrow> first_index (\<lambda>x. x = y) (p @ y # t) = Some (length p)"
  by (induction p) auto

text \<open>C27: the path of loops from one node to another. The paths from the two nodes outwards have a
  first common loop, and the path between the nodes leads over that loop, provided that one of the
  nodes lies in it or that both lie equally deep below it. Otherwise the search reads behind the end of
  a path, since it walks both of them outwards at once.\<close>

theorem relay_path:
  assumes "backTrackPath n h = Some s" "backTrackPath m h = Some s'" "s \<noteq> []" "s' \<noteq> []" "uppers_known h"
  shows "\<exists>p x t q. s = p @ x # t \<and> s' = q @ x # t \<and> set p \<inter> set s' = {} \<and> set q \<inter> set s = {}
    \<and> findShortestCtrlRegionPath s s'
      = (if p = [] \<or> q = [] \<or> length p = length q then Inr (p @ x # rev q) else Inl OutOfBounds)"
proof -
  note b = backTrackPath_cases [OF assms(1,3)] backTrackPath_cases [OF assms(2,4)]
  have "[] \<in> set s" "[] \<in> set s'"
    using up_path_end [OF assms(5)] b assms(3,4) by (metis list.collapse list.set_intros(2))+
  then have "set s \<inter> set s' \<noteq> {}" by auto
  then obtain p q x t where d: "s = p @ x # t" "s' = q @ x # t" "set p \<inter> set s' = {}" "set q \<inter> set s = {}"
    using paths_meet b assms(3,4) by metis
  have dist: "distinct s" "distinct s'" using up_path_distinct b assms(3,4) by (metis list.collapse)+
  have "findShortestCtrlRegionPath s s' = (if p = [] \<or> q = [] \<or> length p = length q then Inr (p @ x # rev q) else Inl OutOfBounds)"
  proof (cases "q = []")
    case True
    then show ?thesis using d dist first_index_at [of x p t] by (simp add: findShortestCtrlRegionPath_def)
  next
    case q: False
    then have "hd s' \<notin> set s" using d(2,4) by (cases q) auto
    then have none: "first_index (\<lambda>x. x = hd s') s = None" by (auto simp: first_index_None)
    show ?thesis
    proof (cases "p = []")
      case True
      then show ?thesis using none d dist first_index_at [of x q t] by (simp add: findShortestCtrlRegionPath_def)
    next
      case p: False
      then have "hd s \<notin> set s'" using d(1,3) by (cases p) auto
      then have none': "first_index (\<lambda>x. x = hd s) s' = None" by (auto simp: first_index_None)
      have "common_walk s s' = (if length p = length q then Inr (p, q, x) else Inl OutOfBounds)"
        using common_walk_level [of p q x t] common_walk_apart [of p q x t] d dist by auto
      then show ?thesis using none none' p q assms(3,4) by (simp add: findShortestCtrlRegionPath_def)
    qed
  qed
  with d show ?thesis by blast
qed

text \<open>Two loops beside each other in an outer one, with a loop in the first of them.\<close>

definition demo_loops :: "controlRegion list" where
  "demo_loops = map (\<lambda>(n, u, ns). (region_new n ''Loop'' True)\<lparr>upperControlRegion := u, region_nodes := ns\<rparr>)
     [(''top'', '''', [''a'']), (''i'', ''top'', [''b'']), (''j'', ''i'', [''c'']), (''k'', ''top'', [''d''])]"

theorem relay_path_witness:
  "findShortestCtrlRegionPath [''j'', ''i'', ''top'', ''''] [''top'', ''''] = Inr [''j'', ''i'', ''top'']
   \<and> findShortestCtrlRegionPath [''j'', ''i'', ''top'', ''''] [''k'', ''top'', ''''] = Inl OutOfBounds"
proof -
  let ?c = "[''j'', ''i'', ''top'', '''']" and ?d = "[''k'', ''top'', '''']" and ?a = "[''top'', '''']"
  have paths: "backTrackPath ''c'' demo_loops = Some ?c" "backTrackPath ''d'' demo_loops = Some ?d" "backTrackPath ''a'' demo_loops = Some ?a"
    by code_simp+
  have known: "uppers_known demo_loops" by code_simp
  obtain p x t q where "?c = p @ x # t" "?a = q @ x # t" "set q \<inter> set ?c = {}"
    "findShortestCtrlRegionPath ?c ?a = (if p = [] \<or> q = [] \<or> length p = length q then Inr (p @ x # rev q) else Inl OutOfBounds)"
    using relay_path [OF paths(1,3) _ _ known] by blast
  moreover obtain p' x' t' q' where "?c = p' @ x' # t'" "?d = q' @ x' # t'" "set p' \<inter> set ?d = {}" "set q' \<inter> set ?c = {}"
    "findShortestCtrlRegionPath ?c ?d = (if p' = [] \<or> q' = [] \<or> length p' = length q' then Inr (p' @ x' # rev q') else Inl OutOfBounds)"
    using relay_path [OF paths(1,2) _ _ known] by blast
  ultimately show ?thesis by (auto simp: Cons_eq_append_conv)
qed

end
