(* ===== verification/SpecialMode.thy ===== *)
theory SpecialMode
  imports LoopHierarchy
begin

text \<open>
  The pass \<open>addSpecialModeChan\<close> of \<open>sim/graph.cpp\<close>, which inserts relay channels along the loops between
  two nodes, and lets the channels between loops keep, scatter or drain their data.
\<close>

section \<open>Relay channels\<close>

text \<open>A connection from the loop control of a region, the first one in its list, to an inserted node.\<close>

definition activate_from_Lc :: "string \<Rightarrow> string \<Rightarrow> chan_node graph \<Rightarrow> chan_node graph res" where
  "activate_from_Lc r n g = rbind (getCtrlRegion (ctrl_tree g) r) (\<lambda>x.
     rbind (rfold (\<lambda>m found. case found of
         Some l \<Rightarrow> Inr (Some l)
       | None \<Rightarrow> rbind (getNode g m) (\<lambda>y. Inr (if cn_type y = ''Lc'' then Some (node_name y) else None))) (region_nodes x) None)
     (\<lambda>found. case found of None \<Rightarrow> Inr g | Some l \<Rightarrow> on_node n (app_pre_active [l]) g))"

definition create_relay :: "string \<Rightarrow> string \<Rightarrow> chan_node graph \<Rightarrow> chan_node graph res" where
  "create_relay n r g =
     (if findNode g n then Inr g
      else rbind (chan_addNode n ''ChanBase'' ''Nop'' ''Normal'' r g) (\<lambda>g.
           rbind (on_node n (\<lambda>x. x\<lparr>isPhysicalChan := False\<rparr>) g) (\<lambda>g.
           rbind (addNodes2CtrlTree r [n] g) (activate_from_Lc r n))))"

definition connect_relay :: "string \<Rightarrow> string \<Rightarrow> string list \<Rightarrow> nat \<Rightarrow> chan_node graph \<Rightarrow> chan_node graph res" where
  "connect_relay u v rs i g =
     rbind (if i = 0 then on_node (rs ! i) (app_pre_data [u]) g else Inr g) (\<lambda>g.
     rbind (if i = length rs - 1
            then rbind (getNode g v) (\<lambda>y.
                   if u \<in> set (pre_nodes_data y) then on_node (rs ! i) (app_next_data [v]) g
                   else if u \<in> set (pre_nodes_active y) then on_node (rs ! i) (app_next_active [v]) g else Inr g)
            else Inr g) (\<lambda>g.
       if i \<noteq> 0 \<and> i \<noteq> length rs - 1
       then rbind (on_node (rs ! i) (app_pre_data [rs ! (i - 1)]) g) (on_node (rs ! i) (app_next_data [rs ! (i + 1)]))
       else Inr g))"

definition connect_relays :: "string \<Rightarrow> string \<Rightarrow> string list \<Rightarrow> chan_node graph \<Rightarrow> chan_node graph res" where
  "connect_relays u v rs = rfold (connect_relay u v rs) [0..<length rs]"

definition disconnect :: "string \<Rightarrow> string \<Rightarrow> chan_node graph \<Rightarrow> chan_node graph res" where
  "disconnect u v g =
     rbind (on_node u (\<lambda>x. x\<lparr>next_nodes_data := remove1 v (next_nodes_data x), next_nodes_active := remove1 v (next_nodes_active x)\<rparr>) g)
       (on_node v (\<lambda>y. y\<lparr>pre_nodes_data := remove1 u (pre_nodes_data y), pre_nodes_active := remove1 u (pre_nodes_active y)\<rparr>))"

definition relay_edge :: "controlRegion list \<Rightarrow> string \<Rightarrow> string \<Rightarrow> chan_node graph \<Rightarrow> chan_node graph res option" where
  "relay_edge h u v g = (case rbind (getNode g u) (\<lambda>x. rbind (getNode g v) (\<lambda>y. Inr (node_region x \<noteq> node_region y))) of
       Inl e \<Rightarrow> Some (Inl e)
     | Inr False \<Rightarrow> Some (Inr g)
     | Inr True \<Rightarrow> (case (backTrackPath u h, backTrackPath v h) of
           (Some s, Some s') \<Rightarrow> Some (rbind (findShortestCtrlRegionPath s s') (\<lambda>path.
             if 2 < length path
             then let rs = map (\<lambda>r. (u @ ''_relay_'' @ r, r)) (butlast (tl path)) in
               rbind (rfold (\<lambda>(n, r). create_relay n r) rs g) (\<lambda>g.
               rbind (connect_relays u v (map fst rs) g) (disconnect u v))
             else Inr g))
         | _ \<Rightarrow> None))"

fun relay_edges :: "controlRegion list \<Rightarrow> string \<Rightarrow> string list \<Rightarrow> chan_node graph \<Rightarrow> chan_node graph res option" where
  "relay_edges h u [] g = Some (Inr g)"
| "relay_edges h u (v # vs) g = (case relay_edge h u v g of
       Some (Inr g) \<Rightarrow> relay_edges h u vs g | stop \<Rightarrow> stop)"

text \<open>The loop appends nodes to the deque over which it runs, which C++ leaves undefined; the model visits
  the nodes that were there at its start, \<open>n\<close> of which are left.\<close>

fun relay_nodes :: "controlRegion list \<Rightarrow> nat \<Rightarrow> nat \<Rightarrow> chan_node graph \<Rightarrow> chan_node graph res option" where
  "relay_nodes h 0 i g = Some (Inr g)"
| "relay_nodes h (Suc n) i g = (let x = nodes g ! i in
     case relay_edges h (node_name x) (next_nodes_data x @ next_nodes_active x) g of
       Some (Inr g) \<Rightarrow> relay_nodes h n (Suc i) g | stop \<Rightarrow> stop)"

definition tidy :: "chan_node graph \<Rightarrow> chan_node graph res" where
  "tidy g = rbind (completeConnect g) (\<lambda>g. Inr (removeRedundantConnect g))"

section \<open>Keep, scatter and drain modes\<close>

text \<open>The one region of \<open>lower\<close> in which some of the nodes lie.\<close>

definition lower_of :: "controlRegion list \<Rightarrow> string list \<Rightarrow> string list \<Rightarrow> string res" where
  "lower_of h lower ms = rfold (\<lambda>m found. let r = findNodeCtrlRegionInLoopHierarchy m h in
     if r \<in> set lower
     then if found = [] then Inr r else if found \<noteq> r then Inl (Throw ''The lowerCtrlRegions are not same!'') else Inr found
     else Inr found) ms []"

definition is_Lc :: "chan_node graph \<Rightarrow> string \<Rightarrow> bool res" where
  "is_Lc g m = rbind (getNode g m) (\<lambda>y. Inr (cn_type y = ''Lc''))"

definition keep_Lc :: "chan_node graph \<Rightarrow> string list \<Rightarrow> string list res" where
  "keep_Lc g ms = rfold (\<lambda>m kept. rbind (is_Lc g m) (\<lambda>b. Inr (if b then kept @ [m] else kept))) ms []"

definition redirect :: "(chan_node \<Rightarrow> string list) \<Rightarrow> (string list \<Rightarrow> chan_node \<Rightarrow> chan_node)
    \<Rightarrow> (string list \<Rightarrow> chan_node \<Rightarrow> chan_node) \<Rightarrow> string \<Rightarrow> string \<Rightarrow> string list \<Rightarrow> chan_node graph \<Rightarrow> chan_node graph res" where
  "redirect pre upd_pre app nm sc = rfold (\<lambda>m g. rbind (getNode g m) (\<lambda>y.
     if cn_type y \<noteq> ''Lc''
     then (case first_index (\<lambda>k. k = nm) (pre y) of
         Some k \<Rightarrow> rbind (on_node m (upd_pre ((pre y)[k := sc])) g) (on_node sc (app [m]))
       | None \<Rightarrow> Inr g)
     else Inr g))"

definition insert_scatter :: "string \<Rightarrow> string \<Rightarrow> chan_node graph \<Rightarrow> chan_node graph res" where
  "insert_scatter nm r g = (let sc = nm @ ''_scatter_'' @ r in
     rbind (chan_addNode sc ''ChanBase'' ''Nop'' ''Scatter_mode'' r g) (\<lambda>g.
     rbind (on_node sc (\<lambda>x. x\<lparr>isPhysicalChan := False\<rparr>) g) (\<lambda>g.
     rbind (addNodes2CtrlTree r [sc] g) (\<lambda>g.
     rbind (activate_from_Lc r sc g) (\<lambda>g.
     rbind (getNode g nm) (\<lambda>x.
     rbind (redirect pre_nodes_data (\<lambda>l y. y\<lparr>pre_nodes_data := l\<rparr>) app_next_data nm sc (next_nodes_data x) g) (\<lambda>g.
     rbind (redirect pre_nodes_active (\<lambda>l y. y\<lparr>pre_nodes_active := l\<rparr>) app_next_active nm sc (next_nodes_active x) g) (\<lambda>g.
     rbind (keep_Lc g (next_nodes_data x)) (\<lambda>kd. rbind (keep_Lc g (next_nodes_active x)) (\<lambda>ka.
     rbind (on_node nm (\<lambda>x. x\<lparr>next_nodes_data := kd @ [sc], next_nodes_active := ka\<rparr>) g)
       (on_node sc (app_pre_data [nm]))))))))))))"

definition set_node_mode :: "controlRegion list \<Rightarrow> controlRegion \<Rightarrow> string \<Rightarrow> chan_node graph \<Rightarrow> chan_node graph res" where
  "set_node_mode h r nm g = rbind (getNode g nm) (\<lambda>x. let next_nodes = next_nodes_data x @ next_nodes_active x in
     rbind (lower_of h (lowerControlRegion r) next_nodes) (\<lambda>low.
     rbind (if low \<noteq> []
            then rbind (on_node nm (\<lambda>x. x\<lparr>chan_mode := ''Keep_mode''\<rparr>) g) (\<lambda>g.
                 rbind (rfold (\<lambda>m b. rbind (is_Lc g m) (\<lambda>l. Inr (b \<or> \<not> l))) next_nodes False) (\<lambda>needScatterNode.
                   if needScatterNode then insert_scatter nm low g else Inr g))
            else Inr g) (\<lambda>g.
     rbind (getNode g nm) (\<lambda>x.
     rbind (lower_of h (lowerControlRegion r) (pre_nodes_data x @ pre_nodes_active x)) (\<lambda>low.
       if low \<noteq> [] then on_node nm (\<lambda>x. x\<lparr>chan_mode := ''Drain_mode''\<rparr>) g else Inr g)))))"

definition set_modes :: "controlRegion list \<Rightarrow> chan_node graph \<Rightarrow> chan_node graph res" where
  "set_modes h = rfold (\<lambda>r. rfold (set_node_mode h r) (region_nodes r)) h"

definition addSpecialModeChan :: "chan_node graph \<Rightarrow> chan_node graph res option" where
  "addSpecialModeChan g = (case genLoopHierarchy (ctrl_tree g) of
       Some (Inr h) \<Rightarrow> (case relay_nodes h (length (nodes g)) 0 g of
           Some (Inr g) \<Rightarrow> (case tidy g of
               Inl e \<Rightarrow> Some (Inl e)
             | Inr g \<Rightarrow> (case genLoopHierarchy (ctrl_tree g) of
                   Some (Inr h) \<Rightarrow> Some (rbind (set_modes h g) tidy)
                 | Some (Inl e) \<Rightarrow> Some (Inl e)
                 | None \<Rightarrow> None))
         | stop \<Rightarrow> stop)
     | Some (Inl e) \<Rightarrow> Some (Inl e)
     | None \<Rightarrow> None)"

section \<open>The chain of relays\<close>

text \<open>Changing one node adds the connections that the change declares.\<close>

lemma on_node_edges:
  fixes g :: "'a node_scheme graph"
  assumes "graph_ok g" "n \<in> node_names g" "\<And>x. node_name (f x) = node_name x"
    and "\<And>x a b. node_name x = n \<Longrightarrow> node_name x = a \<and> b \<in> set (next_nodes_data (f x)) \<or> node_name x = b \<and> a \<in> set (pre_nodes_data (f x))
      \<longleftrightarrow> node_name x = a \<and> b \<in> set (next_nodes_data x) \<or> node_name x = b \<and> a \<in> set (pre_nodes_data x) \<or> E a b"
  shows "\<exists>g'. on_node n f g = Inr g' \<and> graph_ok g' \<and> node_names g' = node_names g
    \<and> (\<forall>a b. data_edge g' a b \<longleftrightarrow> data_edge g a b \<or> E a b) \<and> (\<forall>v. v \<noteq> n \<longrightarrow> getNode g' v = getNode g v)"
proof -
  let ?f = "\<lambda>x. if node_name x = n then f x else x"
  let ?g = "g\<lparr>nodes := map ?f (nodes g)\<rparr>"
  have nm: "node_name (?f x) = node_name x" for x using assms(3) by simp
  have "getNode ?g v = getNode g v" if "v \<noteq> n" for v
  proof (cases "findNodeIndex g v")
    case (Inr i)
    have "findNodeIndex ?g v = findNodeIndex g v" by (simp add: findNodeIndex_def)
    moreover have "node_name (nodes g ! i) \<noteq> n" if "i < length (nodes g)"
      using that Inr \<open>v \<noteq> n\<close> assms(1)
      by (auto simp: findNodeIndex_def graph_ok_def split: option.splits dest!: map_of_SomeD) (auto simp: in_set_zip)
    ultimately show ?thesis using Inr by (simp add: getNode_def rnth_def)
  qed (simp add: getNode_def findNodeIndex_def)
  moreover have "data_edge ?g a b \<longleftrightarrow> data_edge g a b \<or> E a b" for a b
  proof -
    let ?D = "\<lambda>x. node_name x = a \<and> b \<in> set (next_nodes_data x) \<or> node_name x = b \<and> a \<in> set (pre_nodes_data x)"
    have n: "nodes ?g = map ?f (nodes g)" by simp
    have "data_edge ?g a b \<longleftrightarrow> (\<exists>x\<in>set (nodes g). ?D (?f x))" by (simp only: data_edge_def n set_map bex_simps)
    moreover have "?D (?f x) \<longleftrightarrow> ?D x \<or> node_name x = n \<and> E a b" for x
      using assms(3) assms(4) [of x a b] by (cases "node_name x = n") auto
    moreover obtain x where "x \<in> set (nodes g)" "node_name x = n" using assms(2) by (auto simp: node_names_def)
    ultimately show ?thesis unfolding data_edge_def by blast
  qed
  ultimately show ?thesis
    using on_node_map [OF assms(1,2), of f] graph_ok_map [OF assms(1), of ?f] nm by (intro exI [of _ ?g]) simp
qed

lemma declare_pre:
  assumes "graph_ok g" "n \<in> node_names g"
  shows "\<exists>g'. on_node n (app_pre_data [m]) g = Inr g' \<and> graph_ok g' \<and> node_names g' = node_names g
    \<and> (\<forall>a b. data_edge g' a b \<longleftrightarrow> data_edge g a b \<or> a = m \<and> b = n) \<and> (\<forall>v. v \<noteq> n \<longrightarrow> getNode g' v = getNode g v)"
  using assms by (rule on_node_edges) (auto simp: app_pre_data_def)

lemma declare_next:
  assumes "graph_ok g" "n \<in> node_names g"
  shows "\<exists>g'. on_node n (app_next_data [m]) g = Inr g' \<and> graph_ok g' \<and> node_names g' = node_names g
    \<and> (\<forall>a b. data_edge g' a b \<longleftrightarrow> data_edge g a b \<or> a = n \<and> b = m) \<and> (\<forall>v. v \<noteq> n \<longrightarrow> getNode g' v = getNode g v)"
  using assms by (rule on_node_edges) (auto simp: app_next_data_def)

lemma declare_next_active:
  assumes "graph_ok g" "n \<in> node_names g"
  shows "\<exists>g'. on_node n (app_next_active [m]) g = Inr g' \<and> graph_ok g' \<and> node_names g' = node_names g
    \<and> (\<forall>a b. data_edge g' a b \<longleftrightarrow> data_edge g a b \<or> False) \<and> (\<forall>v. v \<noteq> n \<longrightarrow> getNode g' v = getNode g v)"
  using assms by (rule on_node_edges) (auto simp: app_next_active_def)

text \<open>What one iteration declares: the beginning and the end of the chain, or both connections of a relay
  in between.\<close>

definition relay_declares :: "string \<Rightarrow> string \<Rightarrow> string list \<Rightarrow> bool \<Rightarrow> nat \<Rightarrow> string \<Rightarrow> string \<Rightarrow> bool" where
  "relay_declares u v rs dat i a b \<longleftrightarrow>
     i = 0 \<and> a = u \<and> b = rs ! i
     \<or> i = length rs - 1 \<and> dat \<and> a = rs ! i \<and> b = v
     \<or> i \<noteq> 0 \<and> i \<noteq> length rs - 1 \<and> (a = rs ! (i - 1) \<and> b = rs ! i \<or> a = rs ! i \<and> b = rs ! (i + 1))"

lemma connect_relay_ok:
  assumes "graph_ok g" "set rs \<subseteq> node_names g" "v \<notin> set rs" "getNode g v = Inr y" "i < length rs"
  shows "\<exists>g'. connect_relay u v rs i g = Inr g' \<and> graph_ok g' \<and> node_names g' = node_names g \<and> getNode g' v = Inr y
    \<and> (\<forall>a b. data_edge g' a b \<longleftrightarrow> data_edge g a b \<or> relay_declares u v rs (u \<in> set (pre_nodes_data y)) i a b)"
proof -
  have r: "rs ! i \<in> node_names g" "v \<noteq> rs ! i" using assms(2,3) nth_mem [OF assms(5)] by blast+
  obtain g1 where g1: "(if i = 0 then on_node (rs ! i) (app_pre_data [u]) g else Inr g) = Inr g1"
    "graph_ok g1" "node_names g1 = node_names g" "getNode g1 v = Inr y"
    "\<And>a b. data_edge g1 a b \<longleftrightarrow> data_edge g a b \<or> i = 0 \<and> a = u \<and> b = rs ! i"
    using declare_pre [OF assms(1) r(1), of u] assms(1,4) r(2) by (cases "i = 0") auto
  obtain g2 where g2: "(if i = length rs - 1 then rbind (getNode g1 v) (\<lambda>y.
                   if u \<in> set (pre_nodes_data y) then on_node (rs ! i) (app_next_data [v]) g1
                   else if u \<in> set (pre_nodes_active y) then on_node (rs ! i) (app_next_active [v]) g1 else Inr g1)
            else Inr g1) = Inr g2"
    "graph_ok g2" "node_names g2 = node_names g" "getNode g2 v = Inr y"
    "\<And>a b. data_edge g2 a b \<longleftrightarrow> data_edge g1 a b \<or> i = length rs - 1 \<and> u \<in> set (pre_nodes_data y) \<and> a = rs ! i \<and> b = v"
  proof (cases "i = length rs - 1")
    case False
    with that g1(2-4) show ?thesis by simp
  next
    case True
    have r1: "rs ! i \<in> node_names g1" using r(1) g1(3) by simp
    consider (data) "u \<in> set (pre_nodes_data y)" | (act) "u \<notin> set (pre_nodes_data y)" "u \<in> set (pre_nodes_active y)"
      | (none) "u \<notin> set (pre_nodes_data y)" "u \<notin> set (pre_nodes_active y)" by blast
    then show ?thesis
    proof cases
      case data
      then show ?thesis using declare_next [OF g1(2) r1, of v] g1(2-4) True r(2) that by auto
    next
      case act
      obtain h where "on_node (rs ! i) (app_next_active [v]) g1 = Inr h" "graph_ok h" "node_names h = node_names g1"
        "\<And>a b. data_edge h a b \<longleftrightarrow> data_edge g1 a b" "getNode h v = getNode g1 v"
        using declare_next_active [OF g1(2) r1, of v] r(2) by auto
      with act show ?thesis using g1(2-4) True that [of h] by auto
    next
      case none
      then show ?thesis using g1(2-4) True that [of g1] by auto
    qed
  qed
  have r2: "rs ! i \<in> node_names g2" using r(1) g2(3) by simp
  obtain g3 where g3: "(if i \<noteq> 0 \<and> i \<noteq> length rs - 1
       then rbind (on_node (rs ! i) (app_pre_data [rs ! (i - 1)]) g2) (on_node (rs ! i) (app_next_data [rs ! (i + 1)]))
       else Inr g2) = Inr g3"
    "graph_ok g3" "node_names g3 = node_names g" "getNode g3 v = Inr y"
    "\<And>a b. data_edge g3 a b \<longleftrightarrow> data_edge g2 a b \<or> i \<noteq> 0 \<and> i \<noteq> length rs - 1 \<and> (a = rs ! (i - 1) \<and> b = rs ! i \<or> a = rs ! i \<and> b = rs ! (i + 1))"
  proof (cases "i \<noteq> 0 \<and> i \<noteq> length rs - 1")
    case False
    with that [of g2] g2(2-4) show ?thesis by auto
  next
    case True
    obtain h where h: "on_node (rs ! i) (app_pre_data [rs ! (i - 1)]) g2 = Inr h" "graph_ok h" "node_names h = node_names g2"
      "\<And>a b. data_edge h a b \<longleftrightarrow> data_edge g2 a b \<or> a = rs ! (i - 1) \<and> b = rs ! i" "getNode h v = Inr y"
      using declare_pre [OF g2(2) r2] r(2) g2(4) by metis
    then have r3: "rs ! i \<in> node_names h" using r2 by simp
    obtain k where "on_node (rs ! i) (app_next_data [rs ! (i + 1)]) h = Inr k" "graph_ok k" "node_names k = node_names h"
      "\<And>a b. data_edge k a b \<longleftrightarrow> data_edge h a b \<or> a = rs ! i \<and> b = rs ! (i + 1)" "getNode k v = Inr y"
      using declare_next [OF h(2) r3] r(2) h(5) by metis
    then show ?thesis using that [of k] True h g2(3) by auto
  qed
  have "connect_relay u v rs i g = Inr g3" unfolding connect_relay_def by (simp only: g1(1) g2(1) g3(1) rbind.simps)
  with g3(2-5) g2(5) g1(5) show ?thesis by (auto simp: relay_declares_def)
qed

lemma connect_relay_fold:
  assumes "graph_ok g" "set rs \<subseteq> node_names g" "v \<notin> set rs" "getNode g v = Inr y" "set is \<subseteq> {..<length rs}"
  shows "\<exists>g'. rfold (connect_relay u v rs) is g = Inr g'
    \<and> (\<forall>a b. data_edge g' a b \<longleftrightarrow> data_edge g a b \<or> (\<exists>i\<in>set is. relay_declares u v rs (u \<in> set (pre_nodes_data y)) i a b))"
  using assms
proof (induction "is" arbitrary: g)
  case (Cons i "is")
  then have "i < length rs" by simp
  from connect_relay_ok [OF Cons.prems(1-4) this, of u] obtain h where h: "connect_relay u v rs i g = Inr h" "graph_ok h"
    "node_names h = node_names g" "getNode h v = Inr y"
    "\<And>a b. data_edge h a b \<longleftrightarrow> data_edge g a b \<or> relay_declares u v rs (u \<in> set (pre_nodes_data y)) i a b" by blast
  from h Cons.prems Cons.IH [of h] show ?case by auto
qed simp

lemma relay_declares_all:
  assumes "rs \<noteq> []"
  shows "(\<exists>i<length rs. relay_declares u v rs d i a b) \<longleftrightarrow> a = u \<and> b = hd rs \<or> d \<and> a = last rs \<and> b = v
    \<or> length rs \<noteq> 2 \<and> (\<exists>i. Suc i < length rs \<and> a = rs ! i \<and> b = rs ! Suc i)" (is "?l \<longleftrightarrow> ?r")
proof
  assume ?l
  then obtain i where i: "i < length rs" "relay_declares u v rs d i a b" by blast
  consider "i = 0 \<and> a = u \<and> b = rs ! 0" | "i = length rs - 1 \<and> d \<and> a = rs ! i \<and> b = v"
    | "i \<noteq> 0" "i \<noteq> length rs - 1" "a = rs ! (i - 1)" "b = rs ! i" | "i \<noteq> 0" "i \<noteq> length rs - 1" "a = rs ! i" "b = rs ! (i + 1)"
    using i(2) by (auto simp: relay_declares_def)
  then show ?r
  proof cases
    case 3
    then show ?r using i(1) by (intro disjI2 conjI exI [of _ "i - 1"]) auto
  next
    case 4
    then show ?r using i(1) by (intro disjI2 conjI exI [of _ i]) auto
  qed (use assms i(1) in \<open>auto simp: hd_conv_nth last_conv_nth\<close>)
next
  assume ?r
  then consider "a = u \<and> b = hd rs" | "d \<and> a = last rs \<and> b = v" | i where "length rs \<noteq> 2" "Suc i < length rs" "a = rs ! i" "b = rs ! Suc i"
    by blast
  then show ?l
  proof cases
    case 1
    then show ?l using assms by (intro exI [of _ 0]) (auto simp: relay_declares_def hd_conv_nth)
  next
    case 2
    then show ?l using assms by (intro exI [of _ "length rs - 1"]) (auto simp: relay_declares_def last_conv_nth)
  next
    case (3 i)
    show ?l
    proof (cases i)
      case 0
      with 3 show ?l by (intro exI [of _ 1]) (auto simp: relay_declares_def)
    next
      case (Suc j)
      with 3 show ?l by (intro exI [of _ i]) (auto simp: relay_declares_def)
    qed
  qed
qed

text \<open>C28: the data connections of the relays inserted between two nodes: the first relay follows the
  first node, the last one precedes the other node if the connection that they replace carries data, and
  every relay is connected to the next one, unless there are exactly two of them: these are left
  unconnected, so that nothing arrives at the second one.\<close>

theorem relay_chain:
  assumes "graph_ok g" "rs \<noteq> []" "set rs \<subseteq> node_names g" "v \<notin> set rs" "getNode g v = Inr y"
  shows "\<exists>g'. connect_relays u v rs g = Inr g'
    \<and> (\<forall>a b. data_edge g' a b \<longleftrightarrow> data_edge g a b \<or> a = u \<and> b = hd rs \<or> u \<in> set (pre_nodes_data y) \<and> a = last rs \<and> b = v
         \<or> length rs \<noteq> 2 \<and> (\<exists>i. Suc i < length rs \<and> a = rs ! i \<and> b = rs ! Suc i))"
  using connect_relay_fold [OF assms(1,3-5), of "[0..<length rs]" u] relay_declares_all [OF assms(2), of u v "u \<in> set (pre_nodes_data y)"]
  by (auto simp: connect_relays_def atLeast0LessThan Bex_def)

text \<open>Two nodes and two relays.\<close>

definition demo_relays :: "chan_node graph" where
  "demo_relays = \<lparr>nodes = [(chan_node_new ''u'')\<lparr>next_nodes_data := [''v'']\<rparr>, (chan_node_new ''v'')\<lparr>pre_nodes_data := [''u'']\<rparr>,
       chan_node_new ''r1'', chan_node_new ''r2''],
     nodeIndexDict = [(''u'', 0), (''v'', 1), (''r1'', 2), (''r2'', 3)], ctrl_tree = tree_empty\<rparr>"

theorem relay_chain_witness:
  "\<exists>g'. connect_relays ''u'' ''v'' [''r1'', ''r2''] demo_relays = Inr g'
    \<and> data_edge g' ''u'' ''r1'' \<and> data_edge g' ''r2'' ''v'' \<and> \<not> data_edge g' ''r1'' ''r2''"
proof -
  have hyps: "graph_ok demo_relays" "[''r1'', ''r2''] \<noteq> []" "set [''r1'', ''r2''] \<subseteq> node_names demo_relays" "''v'' \<notin> set [''r1'', ''r2'']"
    "getNode demo_relays ''v'' = Inr (nodes demo_relays ! 1)" "\<not> data_edge demo_relays ''r1'' ''r2''"
    "''u'' \<in> set (pre_nodes_data (nodes demo_relays ! 1))" by code_simp+
  from relay_chain [OF hyps(1-5), of "''u''"] hyps(6,7) show ?thesis by auto
qed

end
