(* ===== verification/Partition.thy ===== *)
theory Partition
  imports LoopHierarchy
begin

text \<open>
  The matrix of a graph of channels and its compressed form, and the partition of the graph into
  subgraphs (\<open>sim/graph.cpp\<close>).
\<close>

section \<open>Weights, adjacency and compressed rows\<close>

definition loop_rank :: "controlRegion list \<Rightarrow> string \<Rightarrow> nat" where
  "loop_rank h n = foldl (\<lambda>k i. if n \<in> set (region_nodes (h ! i)) then i else k) 0 [0..<length h]"

definition loop_sizes :: "chan_node graph \<Rightarrow> controlRegion list \<Rightarrow> nat list res" where
  "loop_sizes g = (\<lambda>h. rfold (\<lambda>r ks. rbind (rfold (\<lambda>m k. rbind (getNode g m) (\<lambda>x.
       Inr (if isPhysicalChan x then k + 1 else k))) (region_nodes r) 0) (\<lambda>k. Inr (ks @ [k]))) h [])"

text \<open>The weight is a 32-bit integer from which 64-bit unsigned values are subtracted.\<close>

definition genEdgeWeight :: "chan_node graph \<Rightarrow> chan_node \<Rightarrow> chan_node \<Rightarrow> controlRegion list \<Rightarrow> u64 res" where
  "genEdgeWeight g x y h = rbind (loop_sizes g h) (\<lambda>sizes.
     let i = loop_rank h (node_name x); j = loop_rank h (node_name y); w = (100 :: i32) in
     rbind (if i \<noteq> j
            then rbind (rnth sizes i) (\<lambda>a. rbind (rnth sizes j) (\<lambda>b.
                   Inr (ucast ((scast w :: u64) - (of_nat ((i + j) * 30) + of_nat ((a + b) * 1))) :: i32)))
            else Inr (if node_region x \<noteq> node_region y then 100 - 70 else w)) (\<lambda>w.
     let w = (if cn_op x = ''Store'' \<or> cn_op y = ''Load'' then ucast ((scast w :: u64) - 5) else w) in
       Inr (scast (if 1 \<le>s w then w else 1))))"

definition neighbours :: "'a node_scheme \<Rightarrow> string list" where
  "neighbours x = pre_nodes_data x @ pre_nodes_active x @ next_nodes_data x @ next_nodes_active x"

definition matrix_row :: "chan_node graph \<Rightarrow> controlRegion list \<Rightarrow> nat \<Rightarrow> u64 list list \<Rightarrow> u64 list list res" where
  "matrix_row g h i M = rfold (\<lambda>m M. rbind (findNodeIndex g m) (\<lambda>j. rbind (rnth (nodes g) j) (\<lambda>y.
       rbind (genEdgeWeight g (nodes g ! i) y h) (\<lambda>w. Inr (M[i := (M ! i)[j := w]]))))) (neighbours (nodes g ! i)) M"

text \<open>The outer loop repeats the pass over all rows.\<close>

definition genAdjacentMatrix :: "chan_node graph \<Rightarrow> u64 list list res option" where
  "genAdjacentMatrix g = (let dim = length (nodes g) in map_option (\<lambda>h. rbind h (\<lambda>h.
     rfold (\<lambda>_. rfold (matrix_row g h) [0..<dim]) [0..<dim] (replicate dim (replicate dim 0)))) (genLoopHierarchy (ctrl_tree g)))"

definition csr_row :: "u64 list \<Rightarrow> nat list \<times> nat list \<times> u64 list \<Rightarrow> nat list \<times> nat list \<times> u64 list" where
  "csr_row r = (\<lambda>(indPtr, ind, val). (indPtr @ [length ind],
     ind @ filter (\<lambda>j. 0 < r ! j) [0..<length r], val @ filter (\<lambda>v. 0 < v) r))"

definition csr :: "u64 list list \<Rightarrow> nat list \<times> nat list \<times> u64 list" where
  "csr M = (case fold csr_row M ([], [], []) of (indPtr, ind, val) \<Rightarrow> (indPtr @ [length ind], ind, val))"

definition csrFormat :: "chan_node graph \<Rightarrow> (nat list \<times> nat list \<times> u64 list) res option" where
  "csrFormat g = map_option (\<lambda>M. rbind M (\<lambda>M. Inr (csr M))) (genAdjacentMatrix g)"

text \<open>The variant for a list of nodes takes the neighbours of the first nodes of the graph instead of those
  of the nodes in the list.\<close>

definition chan_csrFormat :: "chan_node graph \<Rightarrow> string list \<Rightarrow> (nat list \<times> nat list \<times> u64 list) res" where
  "chan_csrFormat g ns = (let dim = length ns in
     rbind (rfold (\<lambda>_. rfold (\<lambda>i M. rbind (rnth (nodes g) i) (\<lambda>x.
         Inr (foldl (\<lambda>M m. case first_index (\<lambda>n. n = m) ns of Some j \<Rightarrow> M[i := (M ! i)[j := 1]] | None \<Rightarrow> M) M (neighbours x)))) [0..<dim])
       [0..<dim] (replicate dim (replicate dim 0))) (\<lambda>M. Inr (csr M)))"

section \<open>Reading the compressed rows\<close>

definition csr_entry :: "nat list \<times> nat list \<times> u64 list \<Rightarrow> nat \<Rightarrow> nat \<Rightarrow> u64" where
  "csr_entry = (\<lambda>(indPtr, ind, val) i j. case find (\<lambda>k. ind ! k = j) [indPtr ! i..<indPtr ! Suc i] of
     None \<Rightarrow> 0 | Some k \<Rightarrow> val ! k)"

definition row_ind :: "u64 list \<Rightarrow> nat list" where
  "row_ind r = filter (\<lambda>j. 0 < r ! j) [0..<length r]"

lemma row_val: "filter (\<lambda>v. 0 < v) r = map ((!) r) (row_ind r)"
proof -
  have "filter (\<lambda>v. 0 < v) (map ((!) r) [0..<length r]) = map ((!) r) (row_ind r)"
    by (simp add: filter_map row_ind_def o_def)
  then show ?thesis by (simp only: map_nth)
qed

lemma csr_rows:
  "fold csr_row M (p, ind, val) =
     (p @ map (\<lambda>k. length ind + length (concat (map row_ind (take k M)))) [0..<length M],
      ind @ concat (map row_ind M), val @ concat (map (\<lambda>r. map ((!) r) (row_ind r)) M))"
proof (induction M arbitrary: p ind val)
  case (Cons r M)
  have "map (\<lambda>k. length ind + length (concat (map row_ind (take k (r # M))))) [0..<length (r # M)]
      = length ind # map (\<lambda>k. length (ind @ row_ind r) + length (concat (map row_ind (take k M)))) [0..<length M]"
    by (simp only: length_Cons map_upt_Suc) simp
  moreover have "csr_row r (p, ind, val) = (p @ [length ind], ind @ row_ind r, val @ map ((!) r) (row_ind r))"
    by (simp add: csr_row_def row_val flip: row_ind_def)
  ultimately show ?case by (simp only: fold_simps Cons.IH list.map concat.simps append_assoc append.simps)
qed simp

lemma concat_nth:
  assumes "i < length M" "t < length (f (M ! i))"
  shows "concat (map f M) ! (length (concat (map f (take i M))) + t) = f (M ! i) ! t"
proof -
  have "concat (map f M) = concat (map f (take i M)) @ f (M ! i) @ concat (map f (drop (Suc i) M))"
    by (metis assms(1) concat.simps(2) concat_append id_take_nth_drop list.simps(9) map_append)
  with assms(2) show ?thesis by (simp add: nth_append)
qed

lemma find_SomeD: "find P xs = Some x \<Longrightarrow> x \<in> set xs \<and> P x"
  by (induction xs) (auto split: if_splits)

lemma csr_entry_csr:
  assumes "i < length M" "j < length (M ! i)"
  shows "csr_entry (csr M) i j = M ! i ! j"
proof -
  let ?at = "\<lambda>i. length (concat (map row_ind (take i M)))" and ?r = "M ! i"
  let ?ind = "concat (map row_ind M)" and ?val = "concat (map (\<lambda>r. map ((!) r) (row_ind r)) M)"
  let ?p = "map ?at [0..<Suc (length M)]"
  have c: "csr M = (?p, ?ind, ?val)" by (simp add: csr_def csr_rows)
  have "?at (Suc i) = ?at i + length (row_ind ?r)" using assms(1) by (simp add: take_Suc_conv_app_nth)
  then have ptr: "?p ! i = ?at i" "?p ! Suc i = ?at i + length (row_ind ?r)" using assms(1) by (simp_all del: upt_Suc)
  have ind: "?ind ! (?at i + t) = row_ind ?r ! t" if "t < length (row_ind ?r)" for t
    using concat_nth [of i M t row_ind] assms(1) that by simp
  have "length (concat (map (\<lambda>r. map ((!) r) (row_ind r)) (take i M))) = ?at i" by (simp add: length_concat o_def)
  then have val: "?val ! (?at i + t) = ?r ! (row_ind ?r ! t)" if "t < length (row_ind ?r)" for t
    using concat_nth [of i M t "\<lambda>r. map ((!) r) (row_ind r)"] assms(1) that by simp
  let ?f = "find (\<lambda>k. ?ind ! k = j) [?at i..<?at i + length (row_ind ?r)]"
  have e: "csr_entry (csr M) i j = (case ?f of None \<Rightarrow> 0 | Some k \<Rightarrow> ?val ! k)"
    unfolding c csr_entry_def prod.case ptr ..
  show ?thesis
  proof (cases ?f)
    case (Some k)
    then have k: "k \<in> set [?at i..<?at i + length (row_ind ?r)]" "?ind ! k = j" using find_SomeD by fast+
    define t where "t = k - ?at i"
    have "?at i \<le> k \<and> k < ?at i + length (row_ind ?r)" using k(1) by simp
    then have t: "k = ?at i + t" "t < length (row_ind ?r)" unfolding t_def by linarith+
    then have "row_ind ?r ! t = j" "?val ! k = ?r ! (row_ind ?r ! t)" using k(2) ind val by simp_all
    with Some e show ?thesis by simp
  next
    case None
    have "j \<notin> set (row_ind ?r)"
    proof
      assume "j \<in> set (row_ind ?r)"
      then obtain t where t: "t < length (row_ind ?r)" "row_ind ?r ! t = j" by (auto simp: in_set_conv_nth)
      then have "?at i + t \<in> set [?at i..<?at i + length (row_ind ?r)]" by simp
      with None t ind show False unfolding find_None_iff by blast
    qed
    then have "?r ! j = 0" using assms(2) by (auto simp: row_ind_def word_gt_0)
    with None e show ?thesis by simp
  qed
qed

section \<open>The matrix\<close>

lemma positive_weight:
  fixes v :: i32
  assumes "1 \<le>s v"
  shows "1 \<le> (scast v :: u64)" "(scast v :: u64) < 2 ^ 31"
proof -
  have s: "1 \<le> sint v" "sint v < 2 ^ 31" using assms sint_less [of v] by (simp_all add: word_sle_eq)
  have "uint (scast v :: u64) = take_bit 64 (sint v)" unfolding scast_eq by (simp only: uint_word_of_int len_bit0 len_num1) (simp add: take_bit_eq_mod)
  also have "\<dots> = sint v" using s by (intro take_bit_int_eq_self) simp_all
  finally have u: "uint (scast v :: u64) = sint v" .
  show "1 \<le> (scast v :: u64)" "(scast v :: u64) < 2 ^ 31" using s by (simp_all add: word_le_def word_less_def u)
qed

lemma weight_bounds:
  assumes "genEdgeWeight g x y h = Inr w"
  shows "1 \<le> w \<and> w < 2 ^ 31"
proof -
  obtain v :: i32 where v: "w = scast (if 1 \<le>s v then v else 1)"
    using assms by (auto simp: genEdgeWeight_def rbind_Inr_iff Let_def)
  have "1 \<le>s (if 1 \<le>s v then v else 1)" by (simp add: word_sle_eq)
  from positive_weight [OF this] show ?thesis unfolding v by blast
qed

text \<open>The entry that the matrix gets at a row and a column, if it gets one.\<close>

definition target :: "chan_node graph \<Rightarrow> controlRegion list \<Rightarrow> nat \<Rightarrow> nat \<Rightarrow> u64" where
  "target g h i j = (if node_name (nodes g ! j) \<in> set (neighbours (nodes g ! i))
     then projr (genEdgeWeight g (nodes g ! i) (nodes g ! j) h) else 0)"

definition weighed :: "chan_node graph \<Rightarrow> controlRegion list \<Rightarrow> nat \<Rightarrow> bool" where
  "weighed g h i \<longleftrightarrow> (\<forall>j<length (nodes g). node_name (nodes g ! j) \<in> set (neighbours (nodes g ! i))
     \<longrightarrow> \<not> isl (genEdgeWeight g (nodes g ! i) (nodes g ! j) h))"

text \<open>A matrix whose rows up to \<open>k\<close> are complete and whose other entries are missing or right.\<close>

definition filled_rows :: "chan_node graph \<Rightarrow> controlRegion list \<Rightarrow> nat \<Rightarrow> u64 list list \<Rightarrow> bool" where
  "filled_rows g h k M \<longleftrightarrow> length M = length (nodes g) \<and> (\<forall>i<length M. length (M ! i) = length (nodes g)
     \<and> (\<forall>j<length (nodes g). M ! i ! j = target g h i j \<or> k \<le> i \<and> M ! i ! j = 0))"

lemma row_sets:
  assumes "graph_ok g" "rfold (\<lambda>m M. rbind (findNodeIndex g m) (\<lambda>j. rbind (rnth (nodes g) j) (\<lambda>y.
       rbind (genEdgeWeight g x y h) (\<lambda>w. Inr (M[i := (M ! i)[j := w]]))))) ms M = Inr M'"
    and "i < length M" "length (M ! i) = length (nodes g)"
  shows "\<exists>r. M' = M[i := r] \<and> length r = length (nodes g) \<and> (\<forall>j<length (nodes g).
      if node_name (nodes g ! j) \<in> set ms then genEdgeWeight g x (nodes g ! j) h = Inr (r ! j) else r ! j = M ! i ! j)"
  using assms(2-4)
proof (induction ms arbitrary: M)
  case Nil
  then show ?case by (intro exI [of _ "M ! i"]) simp
next
  case (Cons m ms)
  then obtain j w where j: "findNodeIndex g m = Inr j" "j < length (nodes g)" "genEdgeWeight g x (nodes g ! j) h = Inr w"
    and rest: "rfold (\<lambda>m M. rbind (findNodeIndex g m) (\<lambda>j. rbind (rnth (nodes g) j) (\<lambda>y.
       rbind (genEdgeWeight g x y h) (\<lambda>w. Inr (M[i := (M ! i)[j := w]]))))) ms (M[i := (M ! i)[j := w]]) = Inr M'"
    by (auto simp: rbind_Inr_iff rnth_def split: if_splits)
  have "m \<in> node_names g"
    using j(1) assms(1) by (auto simp: findNodeIndex_def graph_ok_def node_names_def split: option.splits dest!: map_of_SomeD set_zip_leftD)
  then have name: "node_name (nodes g ! k) = m \<longleftrightarrow> k = j" if "k < length (nodes g)" for k
    using graph_ok_name [OF assms(1)] graph_ok_nth(1) [OF assms(1) that] j(1) by (metis sum.inject(2))
  from Cons.IH [OF rest] Cons.prems(2,3) obtain r where r: "M' = (M[i := (M ! i)[j := w]])[i := r]" "length r = length (nodes g)"
    "\<forall>k<length (nodes g). if node_name (nodes g ! k) \<in> set ms then genEdgeWeight g x (nodes g ! k) h = Inr (r ! k)
        else r ! k = (M[i := (M ! i)[j := w]]) ! i ! k" by auto
  have "if node_name (nodes g ! k) \<in> set (m # ms) then genEdgeWeight g x (nodes g ! k) h = Inr (r ! k) else r ! k = M ! i ! k"
    if k: "k < length (nodes g)" for k
  proof -
    note r3 = r(3) [rule_format, OF k]
    show ?thesis
    proof (cases "k = j")
      case True
      then have "(M[i := (M ! i)[j := w]]) ! i ! k = w" using Cons.prems(2,3) j(2) by simp
      with True r3 j(3) name [OF k] show ?thesis by (cases "node_name (nodes g ! k) \<in> set ms") auto
    next
      case False
      then have "(M[i := (M ! i)[j := w]]) ! i ! k = M ! i ! k" using Cons.prems(2) by simp
      with False r3 name [OF k] show ?thesis by (cases "node_name (nodes g ! k) \<in> set ms") auto
    qed
  qed
  with r(1,2) show ?case by (intro exI [of _ r]) simp
qed

lemma matrix_row_filled:
  assumes "graph_ok g" "filled_rows g h i M" "i < length (nodes g)" "matrix_row g h i M = Inr M'"
  shows "filled_rows g h (Suc i) M' \<and> weighed g h i"
proof -
  have dims: "length M = length (nodes g)" "\<And>k. k < length M \<Longrightarrow> length (M ! k) = length (nodes g)"
    using assms(2) by (auto simp: filled_rows_def)
  from row_sets [OF assms(1) assms(4) [unfolded matrix_row_def]] dims assms(3) obtain r where
    r: "M' = M[i := r]" "length r = length (nodes g)" "\<And>j. j < length (nodes g) \<Longrightarrow>
      if node_name (nodes g ! j) \<in> set (neighbours (nodes g ! i)) then genEdgeWeight g (nodes g ! i) (nodes g ! j) h = Inr (r ! j)
      else r ! j = M ! i ! j" by auto
  have "r ! j = target g h i j" if "j < length (nodes g)" for j
    using r(3) [OF that] assms(2,3) that by (auto simp: target_def filled_rows_def split: if_splits)
  moreover have "weighed g h i" unfolding weighed_def using r(3) by auto
  moreover have "M ! k ! j = target g h k j \<or> Suc i \<le> k \<and> M ! k ! j = 0" if "k < length M" "k \<noteq> i" "j < length (nodes g)" for k j
  proof -
    have "M ! k ! j = target g h k j \<or> i \<le> k \<and> M ! k ! j = 0" using assms(2) that by (simp add: filled_rows_def)
    with that(2) show ?thesis by auto
  qed
  ultimately show ?thesis using assms(3) r(1,2) dims by (auto simp: filled_rows_def nth_list_update)
qed

lemma rows_filled:
  assumes "graph_ok g" "filled_rows g h 0 M" "rfold (matrix_row g h) [0..<k] M = Inr M'" "k \<le> length (nodes g)"
  shows "filled_rows g h k M' \<and> (\<forall>i<k. weighed g h i)"
  using assms(3,4)
proof (induction k arbitrary: M')
  case 0
  with assms(2) show ?case by simp
next
  case (Suc k)
  then obtain N where N: "rfold (matrix_row g h) [0..<k] M = Inr N" "matrix_row g h k N = Inr M'"
    by (auto simp: rfold_append rbind_Inr_iff)
  with Suc have "filled_rows g h k N \<and> (\<forall>i<k. weighed g h i)" by simp
  with matrix_row_filled [OF assms(1) _ _ N(2)] Suc.prems(2) show ?case by (auto simp: less_Suc_eq)
qed

lemma filled_again: "filled_rows g h (length (nodes g)) M \<Longrightarrow> filled_rows g h 0 M"
  by (auto simp: filled_rows_def)

lemma passes_filled:
  assumes "graph_ok g" "filled_rows g h 0 M" "rfold (\<lambda>_. rfold (matrix_row g h) [0..<length (nodes g)]) (is :: nat list) M = Inr M'"
    and "is \<noteq> []"
  shows "filled_rows g h (length (nodes g)) M' \<and> (\<forall>i<length (nodes g). weighed g h i)"
  using assms(2-4)
proof (induction "is" arbitrary: M)
  case (Cons k ks)
  then obtain N where N: "rfold (matrix_row g h) [0..<length (nodes g)] M = Inr N"
    "rfold (\<lambda>_. rfold (matrix_row g h) [0..<length (nodes g)]) ks N = Inr M'" by (auto simp: rbind_Inr_iff)
  have f: "filled_rows g h (length (nodes g)) N \<and> (\<forall>i<length (nodes g). weighed g h i)"
    using rows_filled [OF assms(1) Cons.prems(1) N(1)] by simp
  show ?case
  proof (cases ks)
    case Nil
    with N(2) f show ?thesis by simp
  next
    case Cons
    with Cons.IH [OF filled_again N(2)] f show ?thesis by blast
  qed
qed simp

text \<open>C29: the compressed rows of a graph give back its adjacency: reading them at a row and a column gives
  the weight of the connection between the two nodes, which lies between 1 and \<open>2^31\<close> whatever wraps
  around in its computation, and 0 when they are not connected.\<close>

theorem csr_roundtrip:
  assumes "graph_ok g" "csrFormat g = Some (Inr c)" "i < length (nodes g)" "j < length (nodes g)"
  shows "\<exists>h. genLoopHierarchy (ctrl_tree g) = Some (Inr h)
    \<and> (if node_name (nodes g ! j) \<in> set (neighbours (nodes g ! i))
       then genEdgeWeight g (nodes g ! i) (nodes g ! j) h = Inr (csr_entry c i j) \<and> 1 \<le> csr_entry c i j \<and> csr_entry c i j < 2 ^ 31
       else csr_entry c i j = 0)"
proof -
  let ?d = "length (nodes g)"
  obtain h M where h: "genLoopHierarchy (ctrl_tree g) = Some (Inr h)" "c = csr M"
    "rfold (\<lambda>_. rfold (matrix_row g h) [0..<?d]) [0..<?d] (replicate ?d (replicate ?d 0)) = Inr M"
    using assms(2) by (auto simp: csrFormat_def genAdjacentMatrix_def Let_def rbind_Inr_iff)
  have "filled_rows g h 0 (replicate ?d (replicate ?d 0))" by (simp add: filled_rows_def)
  have "[0..<?d] \<noteq> []" using assms(3) by (cases ?d) auto
  from passes_filled [OF assms(1) \<open>filled_rows g h 0 _\<close> h(3) this] assms(3) have f: "filled_rows g h ?d M" "weighed g h i" by auto
  then have M: "length M = ?d" "length (M ! i) = ?d" "M ! i ! j = target g h i j" using assms(3,4) by (auto simp: filled_rows_def)
  then have e: "csr_entry c i j = target g h i j" using csr_entry_csr [of i M j] h(2) assms(3,4) by simp
  have "genEdgeWeight g (nodes g ! i) (nodes g ! j) h = Inr (target g h i j)"
    if "node_name (nodes g ! j) \<in> set (neighbours (nodes g ! i))"
    using f(2) assms(4) that sum.collapse(2) by (simp add: weighed_def target_def)
  with h(1) e weight_bounds show ?thesis by (auto simp: target_def)
qed

text \<open>Three nodes in two nested loops.\<close>

definition demo_weighted :: "chan_node graph" where
  "demo_weighted = \<lparr>nodes = [(chan_node_new ''u'')\<lparr>next_nodes_data := [''v'']\<rparr>,
       (chan_node_new ''v'')\<lparr>pre_nodes_data := [''u''], next_nodes_data := [''w'']\<rparr>, (chan_node_new ''w'')\<lparr>pre_nodes_data := [''v''], cn_op := ''Load''\<rparr>],
     nodeIndexDict = [(''u'', 0), (''v'', 1), (''w'', 2)],
     ctrl_tree = \<lparr>controlRegionTable =
         [(region_new ''outer'' ''Loop'' True)\<lparr>lowerControlRegion := [''inner''], region_nodes := [''u'']\<rparr>,
          (region_new ''inner'' ''Loop'' True)\<lparr>upperControlRegion := ''outer'', region_nodes := [''v'', ''w'']\<rparr>],
       controlRegionIndexDict = [''outer'' \<mapsto> 0, ''inner'' \<mapsto> 1]\<rparr>\<rparr>"

theorem csr_roundtrip_witness:
  "\<exists>c. csrFormat demo_weighted = Some (Inr c) \<and> 1 \<le> csr_entry c 1 2 \<and> csr_entry c 0 2 = 0"
proof -
  have "case csrFormat demo_weighted of Some (Inr c) \<Rightarrow> True | _ \<Rightarrow> False" by code_simp
  then obtain c where c: "csrFormat demo_weighted = Some (Inr c)" by (auto split: option.splits sum.splits)
  have ok: "graph_ok demo_weighted" "0 < length (nodes demo_weighted)" "1 < length (nodes demo_weighted)" "2 < length (nodes demo_weighted)"
    by code_simp+
  have "node_name (nodes demo_weighted ! 2) \<in> set (neighbours (nodes demo_weighted ! 1))"
    "node_name (nodes demo_weighted ! 2) \<notin> set (neighbours (nodes demo_weighted ! 0))" by code_simp+
  then show ?thesis using c csr_roundtrip [OF ok(1) c ok(3,4)] csr_roundtrip [OF ok(1) c ok(2,4)] by auto
qed

end
