(* ===== verification/Subgraphs.thy ===== *)
theory Subgraphs
  imports Partition
begin

text \<open>
  The partition of a graph of channels into subgraphs by its control regions and by the breadth-first
  order of its nodes, and the numbering of the subgraphs (\<open>sim/graph.cpp\<close>).
\<close>

section \<open>The code\<close>

definition position :: "'x list \<Rightarrow> 'x \<Rightarrow> nat" where
  "position xs a = (case first_index (\<lambda>x. x = a) xs of None \<Rightarrow> length xs | Some i \<Rightarrow> i)"

text \<open>Both regions that are compared are the one of the same node.\<close>

definition sort_node :: "chan_node graph \<Rightarrow> string list \<Rightarrow> nat \<Rightarrow> chan_node \<Rightarrow> nat list \<Rightarrow> nat list res" where
  "sort_node g bfs k x = rfold (\<lambda>m q. rbind (getNode g m) (\<lambda>y.
     let j = position q (node_subgraphId y); a = position bfs (node_region x); b = position bfs (node_region x)
     in Inr (if j < k \<and> a < b then q[k := q ! j, j := q ! k] else q))) (next_nodes_data x @ next_nodes_active x)"

definition sort_subgraph :: "chan_node graph \<Rightarrow> string list \<Rightarrow> nat \<Rightarrow> nat list \<Rightarrow> nat list res" where
  "sort_subgraph g bfs k q = rfold (sort_node g bfs k) (filter (\<lambda>x. node_subgraphId x = q ! k) (nodes g)) q"

definition sortSubgraphId :: "nat \<Rightarrow> chan_node graph \<Rightarrow> chan_node graph res option" where
  "sortSubgraphId subgraphNum g = map_option (\<lambda>b. rbind b (\<lambda>bfs.
     if \<exists>x\<in>set (nodes g). subgraphNum \<le> node_subgraphId x then Inl OutOfBounds
     else let q = removeDuplicatesKeepSequence (map node_subgraphId (nodes g)) in
       rbind (rfold (sort_subgraph g bfs) [0..<length q] q) (\<lambda>q.
         Inr (g\<lparr>nodes := map (\<lambda>x. x\<lparr>node_subgraphId := position q (node_subgraphId x)\<rparr>) (nodes g)\<rparr>))))
     (bfsTraverseControlTree (ctrl_tree g))"

definition assign_subgraph :: "nat \<Rightarrow> string list \<Rightarrow> chan_node graph \<Rightarrow> chan_node graph res" where
  "assign_subgraph k ns = rfold (\<lambda>n. on_node n (\<lambda>x. x\<lparr>node_subgraphId := k\<rparr>)) ns"

text \<open>The state of the partition by regions: the current number, the count of the partitions, whether
  enough have been made, and the graph.\<close>

record parting =
  graphNum :: nat
  partitionCnt :: nat
  part_over :: bool
  parted :: "chan_node graph"

definition part_branch :: "nat \<Rightarrow> string \<Rightarrow> parting \<Rightarrow> parting res" where
  "part_branch d l s =
     (if part_over s then Inr s
      else rbind (getCtrlRegion (ctrl_tree (parted s)) l) (\<lambda>r.
        if controlType r \<noteq> ''Loop''
        then rbind (if region_nodes r \<noteq> []
                    then rbind (assign_subgraph (graphNum s) (region_nodes r) (parted s)) (\<lambda>g.
                           Inr (s\<lparr>parted := g, partitionCnt := partitionCnt s + 1\<rparr>))
                    else Inr s) (\<lambda>s.
               Inr (if d - 1 \<le> partitionCnt s then s\<lparr>part_over := True\<rparr> else s\<lparr>graphNum := graphNum s + 1\<rparr>))
        else Inr s))"

definition part_loop :: "nat \<Rightarrow> nat \<Rightarrow> controlRegion list \<Rightarrow> nat \<Rightarrow> parting \<Rightarrow> parting res" where
  "part_loop d n h k s =
     (if part_over s then Inr s
      else rbind (rnth h k) (\<lambda>r.
        rbind (if region_nodes r \<noteq> []
               then rbind (assign_subgraph (graphNum s) (region_nodes r) (parted s)) (\<lambda>g.
                      Inr (s\<lparr>parted := g, partitionCnt := (if k \<noteq> n - 1 then partitionCnt s + 1 else partitionCnt s)\<rparr>))
               else Inr s) (\<lambda>s.
          if d - 1 \<le> partitionCnt s then Inr (s\<lparr>part_over := True\<rparr>)
          else rfold (part_branch d) (lowerControlRegion r) (s\<lparr>graphNum := graphNum s + 1\<rparr>))))"

text \<open>The index before the first load wraps when that is the first node.\<close>

definition split_point :: "chan_node graph \<Rightarrow> string list \<Rightarrow> nat res" where
  "split_point g ns = rbind (rfold (\<lambda>i found. case found of
         Some k \<Rightarrow> Inr (Some k)
       | None \<Rightarrow> rbind (getNode g (ns ! i)) (\<lambda>x. Inr (if cn_op x = ''Load'' then Some (if i = 0 then 2 ^ 64 - 1 else i - 1) else None)))
       [0..<length ns] None) (\<lambda>found.
     let p = (case found of None \<Rightarrow> 0 | Some k \<Rightarrow> k) in Inr (if p = 0 then length ns div 2 else p))"

definition largest :: "'x list list \<Rightarrow> nat" where
  "largest ls = snd (foldl (\<lambda>(n, k) i. if n < length (ls ! i) then (length (ls ! i), i) else (n, k)) (0, 0) [0..<length ls])"

definition split_largest :: "nat \<Rightarrow> string list list \<Rightarrow> chan_node graph \<Rightarrow> (string list list \<times> chan_node graph) res option" where
  "split_largest gn sub g = (let k = largest sub in map_option (\<lambda>b. rbind b (\<lambda>bfs. rbind (split_point g bfs) (\<lambda>p.
     rbind (assign_subgraph k (take (Suc p) bfs) g) (\<lambda>g. rbind (assign_subgraph gn (drop (Suc p) bfs) g) (\<lambda>g.
       Inr (sub[k := take (Suc p) bfs] @ [drop (Suc p) bfs], g)))))) (bfsTraverseNodes_of g (sub ! k)))"

fun split_rounds :: "nat \<Rightarrow> nat \<Rightarrow> string list list \<Rightarrow> chan_node graph \<Rightarrow> chan_node graph res option" where
  "split_rounds 0 gn sub g = Some (Inr g)"
| "split_rounds (Suc n) gn sub g = (case split_largest (gn + 1) sub g of
       None \<Rightarrow> None | Some (Inl e) \<Rightarrow> Some (Inl e) | Some (Inr (sub, g)) \<Rightarrow> split_rounds n (gn + 1) sub g)"

text \<open>The numbers are decreased by one, and the nodes collected; a node without a number wraps around.\<close>

definition collect_subgraphs :: "nat \<Rightarrow> chan_node graph \<Rightarrow> string list list res" where
  "collect_subgraphs cnt g = rfold (\<lambda>x sub.
     if node_subgraphId x = 0 \<or> cnt < node_subgraphId x - 1 then Inl OutOfBounds
     else Inr (sub[node_subgraphId x - 1 := sub ! (node_subgraphId x - 1) @ [node_name x]])) (nodes g) (replicate (cnt + 1) [])"

definition part_regions :: "nat \<Rightarrow> chan_node graph \<Rightarrow> parting res option" where
  "part_regions d g = map_option (\<lambda>h. rbind h (\<lambda>h.
     rfold (part_loop d (length h) (rev h)) [0..<length h]
       \<lparr>graphNum = 1, partitionCnt = 0, part_over = False, parted = g\<rparr>)) (genLoopHierarchy (ctrl_tree g))"

definition subgraphPartitionCtrlRegion :: "nat \<Rightarrow> chan_node graph \<Rightarrow> chan_node graph res option" where
  "subgraphPartitionCtrlRegion d g =
     (case (if 1 < d
            then (case part_regions d g of
                None \<Rightarrow> None
              | Some (Inl e) \<Rightarrow> Some (Inl e)
              | Some (Inr s) \<Rightarrow> (let cnt = partitionCnt s; g = parted s in
                  if cnt < d - 1
                  then (case collect_subgraphs cnt g of
                      Inl e \<Rightarrow> Some (Inl e)
                    | Inr sub \<Rightarrow> split_rounds (d - 1 - cnt) cnt sub
                        (g\<lparr>nodes := map (\<lambda>x. x\<lparr>node_subgraphId := node_subgraphId x - 1\<rparr>) (nodes g)\<rparr>))
                  else Some (Inr g)))
            else Some (Inr (g\<lparr>nodes := map (\<lambda>x. x\<lparr>node_subgraphId := 0\<rparr>) (nodes g)\<rparr>))) of
       Some (Inr g) \<Rightarrow> sortSubgraphId d g | stop \<Rightarrow> stop)"

section \<open>The numbering\<close>

lemma known_getNode:
  assumes "graph_ok g" "known_names g" "x \<in> set (nodes g)" "m \<in> set (next_nodes_data x @ next_nodes_active x)"
  shows "\<exists>y. getNode g m = Inr y"
proof -
  have "m \<in> node_names g" using assms(2-4) by (auto simp: known_names_def)
  then show ?thesis using graph_ok_name [OF assms(1)] graph_ok_nth(2) [OF assms(1)] by metis
qed

lemma sort_node_same:
  assumes "graph_ok g" "known_names g" "x \<in> set (nodes g)"
  shows "sort_node g bfs k x q = Inr q"
proof -
  have "rfold (\<lambda>m q. rbind (getNode g m) (\<lambda>y.
     let j = position q (node_subgraphId y); a = position bfs (node_region x); b = position bfs (node_region x)
     in Inr (if j < k \<and> a < b then q[k := q ! j, j := q ! k] else q))) ms q = Inr q"
    if "set ms \<subseteq> set (next_nodes_data x @ next_nodes_active x)" for ms
    using that
  proof (induction ms)
    case (Cons m ms)
    then obtain y where "getNode g m = Inr y" using known_getNode [OF assms] by force
    with Cons show ?case by simp
  qed simp
  then show ?thesis by (simp add: sort_node_def)
qed

lemma rfold_same: "(\<And>x. x \<in> set xs \<Longrightarrow> f x s = Inr s) \<Longrightarrow> rfold f xs s = Inr s"
  by (induction xs) auto

text \<open>The numbering of the subgraphs follows the order in which they first appear among the nodes: the
  loop that is meant to order them by the flow of data compares the region of a node with itself, and so
  exchanges nothing.\<close>

theorem subgraphs_never_reordered:
  assumes "graph_ok g" "known_names g" "bfsTraverseControlTree (ctrl_tree g) = Some (Inr bfs)"
    and "\<forall>x\<in>set (nodes g). node_subgraphId x < n"
  shows "sortSubgraphId n g = Some (Inr (g\<lparr>nodes := map (\<lambda>x. x\<lparr>node_subgraphId :=
      position (removeDuplicatesKeepSequence (map node_subgraphId (nodes g))) (node_subgraphId x)\<rparr>) (nodes g)\<rparr>))"
proof -
  have "sort_subgraph g bfs k q = Inr q" for k q
    unfolding sort_subgraph_def using sort_node_same [OF assms(1,2)] by (intro rfold_same) simp
  then have "rfold (sort_subgraph g bfs) ks q = Inr q" for ks q by (intro rfold_same)
  moreover have "\<not> (\<exists>x\<in>set (nodes g). n \<le> node_subgraphId x)" using assms(4) by auto
  ultimately show ?thesis using assms(3) by (simp add: sortSubgraphId_def Let_def)
qed

theorem subgraphs_never_reordered_witness:
  "\<exists>g. sortSubgraphId 4 (demo_weighted\<lparr>nodes := [(nodes demo_weighted ! 0)\<lparr>node_subgraphId := 3\<rparr>, nodes demo_weighted ! 1,
      (nodes demo_weighted ! 2)\<lparr>node_subgraphId := 2\<rparr>]\<rparr>) = Some (Inr g) \<and> map node_subgraphId (nodes g) = [0, 1, 2]"
proof -
  let ?g = "demo_weighted\<lparr>nodes := [(nodes demo_weighted ! 0)\<lparr>node_subgraphId := 3\<rparr>, nodes demo_weighted ! 1,
      (nodes demo_weighted ! 2)\<lparr>node_subgraphId := 2\<rparr>]\<rparr>"
  have ok: "graph_ok ?g" "known_names ?g" "\<forall>x\<in>set (nodes ?g). node_subgraphId x < 4" by code_simp+
  have "bfsTraverseControlTree (ctrl_tree ?g) = Some (Inr [''outer'', ''inner''])" by code_simp
  moreover have "map (position (removeDuplicatesKeepSequence (map node_subgraphId (nodes ?g))) \<circ> node_subgraphId) (nodes ?g) = [0, 1, 2]"
    by code_simp
  ultimately show ?thesis using subgraphs_never_reordered [OF ok(1,2) _ ok(3)] by (simp add: comp_def)
qed

end
