(* ===== verification/Scheduler.thy ===== *)
theory Scheduler
  imports ChannelClasses
begin

text \<open>
  The scheduler of the subgraphs (\<open>module/execution/GraphScheduler.cpp\<close>), which lets one subgraph at a time
  take data from the channels between subgraphs, and switches to another one. Channels are pointers into
  the heap of \<open>Channel\<close>.
\<close>

section \<open>State\<close>

text \<open>The two hash tables are association lists: the producers and consumers of a subgraph, and, for a
  subgraph with a branch, its common, true-path and false-path channels.\<close>

record scheduler =
  subgraphTable :: "(nat \<times> nat list \<times> nat list) list"
  divergenceGraph :: "(nat \<times> nat list \<times> nat list \<times> nat list) list"
  subgraphIsOver :: "bool list"
  subgraphTimeout :: nat
  subgraphActiveCnt :: "nat list"
  graphSwitchO3 :: bool
  currSubgraphId :: nat

definition scheduler_new :: scheduler where
  "scheduler_new = \<lparr>subgraphTable = [], divergenceGraph = [], subgraphIsOver = [], subgraphTimeout = 0,
     subgraphActiveCnt = [], graphSwitchO3 = True, currSubgraphId = 0\<rparr>"

text \<open>Reading a table with \<open>[]\<close> inserts an empty entry when there is none.\<close>

definition table_keys :: "scheduler \<Rightarrow> nat set" where
  "table_keys s = fst ` set (subgraphTable s)"

definition table_size :: "scheduler \<Rightarrow> nat" where
  "table_size s = card (table_keys s)"

definition touch :: "nat \<Rightarrow> scheduler \<Rightarrow> scheduler" where
  "touch i s = (if i \<in> table_keys s then s else s\<lparr>subgraphTable := subgraphTable s @ [(i, [], [])]\<rparr>)"

definition producers :: "scheduler \<Rightarrow> nat \<Rightarrow> nat list" where
  "producers s i = (case map_of (subgraphTable s) i of None \<Rightarrow> [] | Some e \<Rightarrow> fst e)"

definition consumers :: "scheduler \<Rightarrow> nat \<Rightarrow> nat list" where
  "consumers s i = (case map_of (subgraphTable s) i of None \<Rightarrow> [] | Some e \<Rightarrow> snd e)"

section \<open>Configuration of the scheduler\<close>

definition add_new :: "nat list \<Rightarrow> nat list \<Rightarrow> nat list" where
  "add_new ps = fold (\<lambda>p q. if p \<in> set q then q else q @ [p]) ps"

definition addSubgraph :: "nat \<Rightarrow> nat list \<Rightarrow> nat list \<Rightarrow> scheduler \<Rightarrow> scheduler" where
  "addSubgraph i ps cs s = (case map_of (subgraphTable s) i of
     None \<Rightarrow> s\<lparr>subgraphTable := subgraphTable s @ [(i, ps, cs)]\<rparr>
   | Some _ \<Rightarrow> s\<lparr>subgraphTable := map (\<lambda>(k, p, c). if k = i then (k, add_new ps p, add_new cs c) else (k, p, c)) (subgraphTable s)\<rparr>)"

definition addDivergenceSubgraph :: "nat \<Rightarrow> nat list \<Rightarrow> nat list \<Rightarrow> nat list \<Rightarrow> scheduler \<Rightarrow> scheduler" where
  "addDivergenceSubgraph i as ts fs s = (case map_of (divergenceGraph s) i of
     None \<Rightarrow> s\<lparr>divergenceGraph := divergenceGraph s @ [(i, as, ts, fs)]\<rparr>
   | Some _ \<Rightarrow> s\<lparr>divergenceGraph := map (\<lambda>(k, a, t, f). if k = i then (k, add_new as a, add_new ts t, add_new fs f)
         else (k, a, t, f)) (divergenceGraph s)\<rparr>)"

text \<open>The flags that \<open>configChan\<close> sets: \<open>popChannelEnable\<close> is a reference to \<open>enable\<close>.\<close>

definition set_push :: "bool \<Rightarrow> nat \<Rightarrow> heap \<Rightarrow> heap res" where
  "set_push b p = modify p (\<lambda>c. case sub c of
     ChanDGSF _ a \<Rightarrow> Inr (c\<lparr>sub := ChanDGSF b a\<rparr>) | _ \<Rightarrow> Inl NullPointer)"

definition set_pop :: "bool \<Rightarrow> nat \<Rightarrow> heap \<Rightarrow> heap res" where
  "set_pop b p = modify p (\<lambda>c. Inr (c\<lparr>enable := b\<rparr>))"

text \<open>A channel of another subgraph: one in keepMode may still pop, unless it feeds a loop variable.\<close>

definition keeps :: "heap \<Rightarrow> chan \<Rightarrow> bool res" where
  "keeps h c = (if keepMode c then rbind (rnth (downstream c) 0) (\<lambda>d. rbind (deref h d) (\<lambda>d. Inr (\<not> isLoopVar d))) else Inr False)"

definition set_other :: "bool \<Rightarrow> nat \<Rightarrow> heap \<Rightarrow> heap res" where
  "set_other b p h = rbind (set_push b p h) (\<lambda>h. rbind (deref h p) (\<lambda>c. rbind (keeps h c) (\<lambda>k. set_pop k p h)))"

definition config_other :: "nat \<Rightarrow> scheduler \<Rightarrow> heap \<Rightarrow> heap res" where
  "config_other i s h =
     (if producers s i \<noteq> []
      then rbind (rfold (set_other True) (producers s i) h) (rfold (set_other True) (consumers s i))
      else rfold (set_other False) (consumers s i) h)"

definition config_source :: "nat \<Rightarrow> scheduler \<Rightarrow> heap \<Rightarrow> heap res" where
  "config_source i s h = (if producers s i = [] then rfold (set_push False) (consumers s i) h else Inr h)"

text \<open>The loops over the numbers below the size of the table, which grows when a number is missing.\<close>

lemma table_bound: "i < table_size s \<Longrightarrow> i \<le> Max (table_keys s)"
proof -
  assume i: "i < table_size s"
  have fin: "finite (table_keys s)" by (simp add: table_keys_def)
  have "card (table_keys s) \<le> card {..Max (table_keys s)}" by (rule card_mono) (auto simp: fin)
  with i show ?thesis by (simp add: table_size_def)
qed

lemma Max_touch: "i < table_size s \<Longrightarrow> Max (table_keys (touch i s)) = Max (table_keys s)"
proof -
  assume i: "i < table_size s"
  then have ne: "table_keys s \<noteq> {}" by (auto simp: table_size_def)
  have fin: "finite (table_keys s)" by (simp add: table_keys_def)
  have "table_keys (touch i s) = insert i (table_keys s)" by (auto simp: touch_def table_keys_def)
  then show ?thesis using table_bound [OF i] ne fin by (simp add: max_absorb2)
qed

function for_others :: "(nat \<Rightarrow> scheduler \<Rightarrow> heap \<Rightarrow> heap res) \<Rightarrow> nat \<Rightarrow> nat \<Rightarrow> scheduler \<Rightarrow> heap \<Rightarrow> (scheduler \<times> heap) res" where
  "for_others f cur i s h =
     (if i < table_size s
      then if i \<noteq> cur then rbind (f i s h) (\<lambda>h. for_others f cur (Suc i) (touch i s) h) else for_others f cur (Suc i) s h
      else Inr (s, h))"
  by pat_completeness auto
termination
  by (relation "measure (\<lambda>(f, cur, i, s, h). Suc (Max (table_keys s)) - i)")
    (auto simp: Max_touch dest: table_bound)

declare for_others.simps [simp del]

definition configChan :: "nat \<Rightarrow> scheduler \<Rightarrow> heap \<Rightarrow> (scheduler \<times> heap) res" where
  "configChan cur s h = rbind (for_others config_other cur 0 s h) (\<lambda>(s, h).
     let s = touch cur s in
     rbind (rfold (\<lambda>p h. rbind (set_push True p h) (set_pop True p)) (producers s cur) h) (\<lambda>h.
     rbind (rfold (\<lambda>p h. rbind (set_push True p h) (set_pop False p)) (consumers s cur) h) (\<lambda>h.
       for_others config_source cur 0 s h)))"

definition schedulerInit :: "scheduler \<Rightarrow> heap \<Rightarrow> (scheduler \<times> heap) res" where
  "schedulerInit s h = (let n = table_size s; s = s\<lparr>subgraphIsOver := take n (subgraphIsOver s) @ replicate (n - length (subgraphIsOver s)) False\<rparr> in
     rbind (configChan (currSubgraphId s) s h) (\<lambda>(s, h). let n = table_size s in
       Inr (s\<lparr>subgraphActiveCnt := take n (subgraphActiveCnt s) @ replicate (n - length (subgraphActiveCnt s)) 0\<rparr>, h)))"

section \<open>Checks\<close>

fun chans_all :: "heap \<Rightarrow> (chan \<Rightarrow> bool res) \<Rightarrow> nat list \<Rightarrow> bool res" where
  "chans_all h P [] = Inr True"
| "chans_all h P (p # ps) = rbind (deref h p) (\<lambda>c. rbind (P c) (\<lambda>b. if b then chans_all h P ps else Inr False))"

definition buffers_all :: "(data list \<Rightarrow> bool) \<Rightarrow> chan \<Rightarrow> bool res" where
  "buffers_all P c = Inr (list_all P (chanBuffer c))"

definition checkProducerChanIsFull :: "heap \<Rightarrow> nat list \<Rightarrow> bool res" where
  "checkProducerChanIsFull h = chans_all h (\<lambda>c. rbind (rfront (getTheLastData c)) (\<lambda>l.
     if \<not> l then buffers_all (\<lambda>q. \<not> length q < ch_size c) c else Inr True))"

definition checkProducerChanNotEmpty :: "heap \<Rightarrow> nat list \<Rightarrow> bool res" where
  "checkProducerChanNotEmpty h = chans_all h (buffers_all (\<lambda>q. q \<noteq> []))"

definition checkProducerChanAllEmpty :: "heap \<Rightarrow> nat list \<Rightarrow> bool res" where
  "checkProducerChanAllEmpty h = chans_all h (buffers_all (\<lambda>q. q = []))"

definition checkProducerDownstreamChanAllEnable :: "heap \<Rightarrow> nat list \<Rightarrow> bool res" where
  "checkProducerDownstreamChanAllEnable h = chans_all h (\<lambda>c. chans_all h (\<lambda>d. Inr (enable d)) (downstream c))"

definition checkConsumerChanNotFull :: "heap \<Rightarrow> nat list \<Rightarrow> bool res" where
  "checkConsumerChanNotFull h cs = (if cs \<noteq> []
     then rbind (chans_all h (\<lambda>c. buffers_all (\<lambda>q. \<not> length q < ch_size c) c) cs) (\<lambda>full. Inr (\<not> full)) else Inr True)"

definition checkConsumerChanIsEmpty :: "heap \<Rightarrow> nat list \<Rightarrow> bool res" where
  "checkConsumerChanIsEmpty h cs = chans_all h (buffers_all (\<lambda>q. q = [])) cs"

definition checkProducerChanFinish :: "config \<Rightarrow> scheduler \<Rightarrow> heap \<Rightarrow> nat list \<Rightarrow> bool res" where
  "checkProducerChanFinish g s h ps = (if consumers s (currSubgraphId s) \<noteq> []
     then chans_all h (\<lambda>c. buffers_all (\<lambda>q. q = [] \<or> chanDataCnt c < DGSF_input_buffer_size g) c) ps
     else chans_all h (buffers_all (\<lambda>q. q = [])) ps)"

definition checkConsumerChanFinish :: "heap \<Rightarrow> nat list \<Rightarrow> bool res" where
  "checkConsumerChanFinish h cs = (if cs \<noteq> []
     then chans_all h (\<lambda>c. rfold (\<lambda>q b. if \<not> b then Inr False
            else if q \<noteq> [] then Inr (d_lastOuter (last q) \<and> d_last (last q) \<or> ch_size c \<le> length q)
            else rfront (getTheLastData c)) (chanBuffer c) True) cs
     else Inr False)"

definition checkConsumerChanGetLastData :: "heap \<Rightarrow> nat list \<Rightarrow> bool res" where
  "checkConsumerChanGetLastData h cs = (if cs \<noteq> [] then chans_all h (\<lambda>c. Inr (list_all id (getTheLastData c))) cs else Inr False)"

text \<open>A check of a subgraph with a branch: the common channels, and one of the two paths if it has any.\<close>

definition branch_check :: "(nat list \<Rightarrow> bool res) \<Rightarrow> nat list \<times> nat list \<times> nat list \<Rightarrow> bool res" where
  "branch_check P = (\<lambda>(as, ts, fs). rbind (P as) (\<lambda>a. rbind (P ts) (\<lambda>t. rbind (P fs) (\<lambda>f.
     Inr (if ts = [] \<and> fs = [] then a else a \<and> (t \<or> f))))))"

definition checkSubgraphIsOver :: "nat \<Rightarrow> scheduler \<Rightarrow> heap \<Rightarrow> bool res" where
  "checkSubgraphIsOver i s h =
     (if consumers s i \<noteq> []
      then (case map_of (divergenceGraph s) (currSubgraphId s) of
          None \<Rightarrow> rbind (checkConsumerChanGetLastData h (consumers s i)) (\<lambda>l.
            if l then checkProducerChanAllEmpty h (producers s i) else Inr False)
        | Some d \<Rightarrow> branch_check (checkConsumerChanGetLastData h) d)
      else Inr False)"

section \<open>Switching\<close>

definition and_then :: "bool res \<Rightarrow> bool res \<Rightarrow> bool res" where
  "and_then a b = rbind a (\<lambda>x. if x then b else Inr False)"

function selectSubgraphInOrder :: "nat \<Rightarrow> nat \<Rightarrow> scheduler \<Rightarrow> heap \<Rightarrow> (nat \<times> scheduler) res" where
  "selectSubgraphInOrder cur i s h =
     (if i < table_size s
      then let k = (cur + 1 + i) mod table_size s in
        rbind (checkProducerDownstreamChanAllEnable h (producers s k)) (\<lambda>b.
          if b then Inr (k, touch k s) else selectSubgraphInOrder cur (Suc i) (touch k s) h)
      else Inl (Throw ''Not find a enable subgraph!''))"
  by pat_completeness auto
termination
proof (relation "measure (\<lambda>(cur, i, s, h). Suc (Max (table_keys s)) - i)")
  fix cur i s and h :: heap and k b
  assume i: "i < table_size s" and k: "k = (cur + 1 + i) mod table_size s"
  then have "k < table_size s" by simp
  with Max_touch table_bound [OF i] show "((cur, Suc i, touch k s, h), cur, i, s, h) \<in> measure (\<lambda>(cur, i, s, h). Suc (Max (table_keys s)) - i)"
    by simp
qed simp

declare selectSubgraphInOrder.simps [simp del]

text \<open>A subgraph is ready when its producers have received enough, all that they feed is enabled, and its
  consumers have room.\<close>

definition subgraph_ready :: "nat \<Rightarrow> scheduler \<Rightarrow> heap \<Rightarrow> bool res" where
  "subgraph_ready k s h =
     (let rest = and_then (checkProducerDownstreamChanAllEnable h (producers s k)) (checkConsumerChanNotFull h (consumers s k)) in
      rbind (and_then (checkProducerChanIsFull h (producers s k)) rest) (\<lambda>b.
        if b then Inr True else and_then (checkProducerChanNotEmpty h (producers s k)) rest))"

function select_ready :: "nat \<Rightarrow> nat \<Rightarrow> scheduler \<Rightarrow> heap \<Rightarrow> (nat option \<times> scheduler) res" where
  "select_ready cur n s h =
     (if n < table_size s
      then let k = (cur + n) mod table_size s in
        rbind (rnth (subgraphIsOver s) k) (\<lambda>over.
          if \<not> over
          then rbind (subgraph_ready k s h) (\<lambda>b. if b then Inr (Some k, touch k s) else select_ready cur (Suc n) (touch k s) h)
          else select_ready cur (Suc n) s h)
      else Inr (None, s))"
  by pat_completeness auto
termination
proof (relation "measure (\<lambda>(cur, i, s, h). Suc (Max (table_keys s)) - i)")
  fix cur i s and h :: heap and k over b
  assume i: "i < table_size s" and k: "k = (cur + i) mod table_size s"
  then have "k < table_size s" by simp
  with Max_touch table_bound [OF i] show "((cur, Suc i, touch k s, h), cur, i, s, h) \<in> measure (\<lambda>(cur, i, s, h). Suc (Max (table_keys s)) - i)"
    by simp
qed (auto dest: table_bound)

declare select_ready.simps [simp del]

definition select_unfinished :: "nat \<Rightarrow> scheduler \<Rightarrow> nat option res" where
  "select_unfinished cur s = rfold (\<lambda>n found. case found of
       Some k \<Rightarrow> Inr (Some k)
     | None \<Rightarrow> (let k = (cur + n) mod table_size s in rbind (rnth (subgraphIsOver s) k) (\<lambda>over. Inr (if over then None else Some k))))
     [1..<table_size s] None"

definition selectSubgraphO3 :: "nat \<Rightarrow> scheduler \<Rightarrow> heap \<Rightarrow> (nat \<times> scheduler) res" where
  "selectSubgraphO3 cur s h = rbind (select_ready cur 1 s h) (\<lambda>(r, s). case r of
       Some k \<Rightarrow> Inr (k, s)
     | None \<Rightarrow> rbind (rnth (subgraphIsOver s) cur) (\<lambda>over.
         rbind (if over then select_unfinished cur s else Inr None) (\<lambda>r. case r of
             Some k \<Rightarrow> Inr (k, s) | None \<Rightarrow> Inr (currSubgraphId s, s))))"

definition resetSubgraph :: "nat \<Rightarrow> scheduler \<Rightarrow> heap \<Rightarrow> heap res" where
  "resetSubgraph i s = rfold (\<lambda>p. modify p (\<lambda>c. Inr (c\<lparr>chanDataCnt := 0\<rparr>))) (producers s i @ consumers s i)"

definition switchGraph :: "bool \<Rightarrow> scheduler \<Rightarrow> heap \<Rightarrow> (scheduler \<times> heap) res" where
  "switchGraph o3 s h = (let cur = currSubgraphId s in
     rbind (checkSubgraphIsOver cur s h) (\<lambda>over.
     rbind (rnth (subgraphIsOver s) cur) (\<lambda>_. let s = s\<lparr>subgraphIsOver := (subgraphIsOver s)[cur := over]\<rparr> in
     rbind (if o3 then selectSubgraphO3 cur s h else selectSubgraphInOrder cur 0 s h) (\<lambda>(k, s). let s = s\<lparr>currSubgraphId := k\<rparr> in
     rbind (configChan k s h) (\<lambda>(s, h). rbind (resetSubgraph k s h) (\<lambda>h. Inr (s\<lparr>subgraphTimeout := 0\<rparr>, h)))))))"

definition producerChanFinish :: "config \<Rightarrow> scheduler \<Rightarrow> heap \<Rightarrow> bool res" where
  "producerChanFinish g s h = (let ps = producers s (currSubgraphId s) in
     if ps \<noteq> [] then checkProducerChanFinish g s h ps else Inr False)"

definition consumerChanFinish :: "scheduler \<Rightarrow> heap \<Rightarrow> bool res" where
  "consumerChanFinish s h = (let cs = consumers s (currSubgraphId s) in
     if cs \<noteq> []
     then (case map_of (divergenceGraph s) (currSubgraphId s) of
         None \<Rightarrow> checkConsumerChanFinish h cs
       | Some d \<Rightarrow> branch_check (checkConsumerChanFinish h) d)
     else Inr False)"

definition graphUpdate :: "config \<Rightarrow> scheduler \<Rightarrow> heap \<Rightarrow> (scheduler \<times> heap) res" where
  "graphUpdate g s h = (let s = touch (currSubgraphId s) s in
     rbind (producerChanFinish g s h) (\<lambda>p. rbind (consumerChanFinish s h) (\<lambda>c.
     rbind (if p \<or> c then switchGraph (graphSwitchO3 s) s h else Inr (s\<lparr>subgraphTimeout := subgraphTimeout s + 1\<rparr>, h)) (\<lambda>(s, h).
     rbind (rnth (subgraphActiveCnt s) (currSubgraphId s)) (\<lambda>n.
       Inr (s\<lparr>subgraphActiveCnt := (subgraphActiveCnt s)[currSubgraphId s := n + 1]\<rparr>, h))))))"

definition switchGraphManually :: "scheduler \<Rightarrow> heap \<Rightarrow> (scheduler \<times> heap) res" where
  "switchGraphManually s = switchGraph False s"

end
