(* ===== verification/SchedulerRule.thy ===== *)
theory SchedulerRule
  imports Scheduler
begin

text \<open>
  The rule by which the scheduler opens and closes the channels between subgraphs.
\<close>

section \<open>The rule of the configuration\<close>

text \<open>A heap with other flags on its channels between subgraphs.\<close>

definition with_flags :: "(nat \<Rightarrow> bool) \<Rightarrow> (nat \<Rightarrow> bool) \<Rightarrow> heap \<Rightarrow> heap" where
  "with_flags pu po h = map (\<lambda>p. case sub (h ! p) of
     ChanDGSF _ a \<Rightarrow> (h ! p)\<lparr>enable := po p, sub := ChanDGSF (pu p) a\<rparr> | _ \<Rightarrow> h ! p) [0..<length h]"

definition is_dgsf :: "heap \<Rightarrow> nat \<Rightarrow> bool" where
  "is_dgsf h p \<longleftrightarrow> p < length h \<and> (\<exists>b a. sub (h ! p) = ChanDGSF b a)"

definition keeps_open :: "heap \<Rightarrow> nat \<Rightarrow> bool" where
  "keeps_open h p \<longleftrightarrow> keepMode (h ! p) \<and> \<not> isLoopVar (h ! (downstream (h ! p) ! 0))"

text \<open>The channels of the table are channels between subgraphs, and those in keepMode have a consumer; the
  subgraphs are numbered without a gap.\<close>

definition dgsf_ok :: "heap \<Rightarrow> nat \<Rightarrow> bool" where
  "dgsf_ok h p \<longleftrightarrow> is_dgsf h p \<and> (keepMode (h ! p) \<longrightarrow> downstream (h ! p) \<noteq> [] \<and> downstream (h ! p) ! 0 < length h)"

definition table_ok :: "scheduler \<Rightarrow> heap \<Rightarrow> bool" where
  "table_ok s h \<longleftrightarrow> (\<exists>n. table_keys s = {..<n})
     \<and> (\<forall>i<table_size s. \<forall>p\<in>set (producers s i) \<union> set (consumers s i). dgsf_ok h p)"

lemma length_with_flags [simp]: "length (with_flags pu po h) = length h"
  by (simp add: with_flags_def)

lemma with_flags_nth: "p < length h \<Longrightarrow> with_flags pu po h ! p = (case sub (h ! p) of
     ChanDGSF _ a \<Rightarrow> (h ! p)\<lparr>enable := po p, sub := ChanDGSF (pu p) a\<rparr> | _ \<Rightarrow> h ! p)"
  by (auto simp: with_flags_def split: subobject.splits)

lemma with_flags_cong: "p < length h \<Longrightarrow> pu p = pu' p \<Longrightarrow> po p = po' p \<Longrightarrow> with_flags pu po h ! p = with_flags pu' po' h ! p"
  by (auto simp: with_flags_nth split: subobject.splits)

lemma with_flags_id: "with_flags (\<lambda>p. pushBufferEnable (sub (h ! p))) (\<lambda>p. enable (h ! p)) h = h"
  by (rule nth_equalityI) (auto simp: with_flags_nth split: subobject.splits)

lemma with_flags_update:
  assumes "p < length h" "pu' = pu(p := b)" "po' = po(p := d)" "sub (h ! p) = ChanDGSF x a"
  shows "(with_flags pu po h)[p := (h ! p)\<lparr>enable := d, sub := ChanDGSF b a\<rparr>] = with_flags pu' po' h"
    "(with_flags pu po h)[p := (h ! p)\<lparr>sub := ChanDGSF b a, enable := d\<rparr>] = with_flags pu' po' h"
proof -
  show e: "(with_flags pu po h)[p := (h ! p)\<lparr>enable := d, sub := ChanDGSF b a\<rparr>] = with_flags pu' po' h"
    using assms by (intro nth_equalityI) (auto simp: with_flags_nth nth_list_update split: subobject.splits)
  have "(h ! p)\<lparr>sub := ChanDGSF b a, enable := d\<rparr> = (h ! p)\<lparr>enable := d, sub := ChanDGSF b a\<rparr>" by (rule chan.equality) simp_all
  with e show "(with_flags pu po h)[p := (h ! p)\<lparr>sub := ChanDGSF b a, enable := d\<rparr>] = with_flags pu' po' h" by argo
qed

lemma set_push_flags:
  assumes "is_dgsf h p"
  shows "set_push b p (with_flags pu po h) = Inr (with_flags (pu(p := b)) po h)"
proof -
  obtain x a where a: "sub (h ! p) = ChanDGSF x a" "p < length h" using assms by (auto simp: is_dgsf_def)
  then have "with_flags pu po h ! p = (h ! p)\<lparr>enable := po p, sub := ChanDGSF (pu p) a\<rparr>" by (simp add: with_flags_nth)
  then show ?thesis using a with_flags_update(1) [of p h "pu(p := b)" pu b po po "po p" x a]
    by (simp add: set_push_def modify_def deref_def)
qed

lemma set_pop_flags:
  assumes "is_dgsf h p"
  shows "set_pop b p (with_flags pu po h) = Inr (with_flags pu (po(p := b)) h)"
proof -
  obtain x a where a: "sub (h ! p) = ChanDGSF x a" "p < length h" using assms by (auto simp: is_dgsf_def)
  then have "with_flags pu po h ! p = (h ! p)\<lparr>enable := po p, sub := ChanDGSF (pu p) a\<rparr>" by (simp add: with_flags_nth)
  then show ?thesis using a with_flags_update(2) [of p h pu pu "pu p" "po(p := b)" po b x a]
    by (simp add: set_pop_def modify_def deref_def)
qed

lemma with_flags_fields:
  "p < length h \<Longrightarrow> keepMode (with_flags pu po h ! p) = keepMode (h ! p)"
  "p < length h \<Longrightarrow> downstream (with_flags pu po h ! p) = downstream (h ! p)"
  "p < length h \<Longrightarrow> isLoopVar (with_flags pu po h ! p) = isLoopVar (h ! p)"
  by (simp_all add: with_flags_nth split: subobject.splits)

lemma set_other_flags:
  assumes "dgsf_ok h p"
  shows "set_other b p (with_flags pu po h) = Inr (with_flags (pu(p := b)) (po(p := keeps_open h p)) h)"
proof -
  have d: "is_dgsf h p" "p < length h" using assms by (auto simp: dgsf_ok_def is_dgsf_def)
  let ?h = "with_flags (pu(p := b)) po h"
  have "keeps ?h (?h ! p) = Inr (keeps_open h p)"
    using assms d(2) by (auto simp: keeps_def keeps_open_def dgsf_ok_def with_flags_fields deref_def)
  then show ?thesis using d by (simp add: set_other_def set_push_flags set_pop_flags deref_def)
qed

text \<open>Setting the flags of a list of channels.\<close>

definition on_set :: "nat set \<Rightarrow> (nat \<Rightarrow> bool) \<Rightarrow> (nat \<Rightarrow> bool) \<Rightarrow> nat \<Rightarrow> bool" where
  "on_set A new old = (\<lambda>p. if p \<in> A then new p else old p)"

lemma on_set_const: "on_set A (\<lambda>_. b) (old(p := b)) = on_set (insert p A) (\<lambda>_. b) old"
  and on_set_fun: "on_set A f (old(p := f p)) = on_set (insert p A) f old"
  and on_set_empty: "on_set {} f old = old"
  and on_set_Un: "on_set B f (on_set A f old) = on_set (A \<union> B) f old"
  by (auto simp: on_set_def)

lemma set_others_flags:
  "\<forall>p\<in>set ps. dgsf_ok h p \<Longrightarrow> rfold (set_other b) ps (with_flags pu po h)
     = Inr (with_flags (on_set (set ps) (\<lambda>_. b) pu) (on_set (set ps) (keeps_open h) po) h)"
proof (induction ps arbitrary: pu po)
  case (Cons p ps)
  then show ?case by (simp add: set_other_flags on_set_const on_set_fun [of "set ps" "keeps_open h"])
qed (simp add: on_set_empty)

lemma set_pushs_flags:
  "\<forall>p\<in>set ps. dgsf_ok h p \<Longrightarrow> rfold (set_push b) ps (with_flags pu po h) = Inr (with_flags (on_set (set ps) (\<lambda>_. b) pu) po h)"
proof (induction ps arbitrary: pu)
  case (Cons p ps)
  then show ?case by (simp add: set_push_flags dgsf_ok_def on_set_const)
qed (simp add: on_set_empty)

lemma set_both_flags:
  "\<forall>p\<in>set ps. dgsf_ok h p \<Longrightarrow> rfold (\<lambda>p h. rbind (set_push b p h) (set_pop d p)) ps (with_flags pu po h)
     = Inr (with_flags (on_set (set ps) (\<lambda>_. b) pu) (on_set (set ps) (\<lambda>_. d) po) h)"
proof (induction ps arbitrary: pu po)
  case (Cons p ps)
  then show ?case by (simp add: set_push_flags set_pop_flags dgsf_ok_def on_set_const)
qed (simp add: on_set_empty)

lemma touch_ok: "table_keys s = {..<n} \<Longrightarrow> i < n \<Longrightarrow> touch i s = s"
  by (simp add: touch_def)

text \<open>The loop over the other subgraphs, when none is missing.\<close>

lemma for_others_fold:
  assumes "table_keys s = {..<n}" "i \<le> n"
  shows "for_others f cur i s h = rbind (rfold (\<lambda>j. f j s) (filter (\<lambda>j. j \<noteq> cur) [i..<n]) h) (\<lambda>h. Inr (s, h))"
  using assms(2)
proof (induction "n - i" arbitrary: i h)
  case 0
  have "table_size s = n" by (simp add: table_size_def assms(1))
  with 0 show ?case by (subst for_others.simps) simp
next
  case (Suc m)
  then have i: "i < n" "m = n - Suc i" "Suc i \<le> n" by auto
  have size: "table_size s = n" by (simp add: table_size_def assms(1))
  have up: "[i..<n] = i # [Suc i..<n]" using i(1) by (rule upt_conv_Cons)
  show ?case
  proof (cases "i = cur")
    case True
    then show ?thesis using Suc(1) [OF i(2,3)] i(1) size up by (subst for_others.simps) simp
  next
    case False
    then show ?thesis using Suc(1) [OF i(2,3)] i(1) size up touch_ok [OF assms(1) i(1)]
      by (subst for_others.simps) (cases "f i s h"; simp)
  qed
qed

text \<open>The channels of a set of subgraphs, and those behind a subgraph without producers.\<close>

definition members :: "scheduler \<Rightarrow> nat \<Rightarrow> nat set" where
  "members s i = set (producers s i) \<union> set (consumers s i)"

definition fed_by_source :: "scheduler \<Rightarrow> nat \<Rightarrow> nat set" where
  "fed_by_source s i = (if producers s i = [] then set (consumers s i) else {})"

lemma config_sources_flags:
  assumes "\<forall>i\<in>set is. \<forall>p\<in>members s i. dgsf_ok h p"
  shows "rfold (\<lambda>i. config_source i s) is (with_flags pu po h)
    = Inr (with_flags (on_set (\<Union>i\<in>set is. fed_by_source s i) (\<lambda>_. False) pu) po h)"
  using assms
proof (induction "is" arbitrary: pu)
  case (Cons i "is")
  then have "\<forall>p\<in>set (consumers s i). dgsf_ok h p" by (simp add: members_def)
  then have "config_source i s (with_flags pu po h) = Inr (with_flags (on_set (fed_by_source s i) (\<lambda>_. False) pu) po h)"
    by (simp add: config_source_def fed_by_source_def set_pushs_flags on_set_empty)
  with Cons show ?case by (simp add: on_set_Un)
qed (simp add: on_set_empty)

lemma config_others_flags:
  assumes "\<forall>i\<in>set is. \<forall>p\<in>members s i. dgsf_ok h p"
  shows "\<exists>pu'. rfold (\<lambda>i. config_other i s) is (with_flags pu po h)
    = Inr (with_flags pu' (on_set (\<Union>i\<in>set is. members s i) (keeps_open h) po) h)
    \<and> (\<forall>p. p \<notin> (\<Union>i\<in>set is. fed_by_source s i) \<longrightarrow> pu' p = (if p \<in> (\<Union>i\<in>set is. members s i) then True else pu p))"
  using assms
proof (induction "is" arbitrary: pu po)
  case (Cons i "is")
  let ?b = "producers s i \<noteq> []"
  have ok: "\<forall>p\<in>set (producers s i). dgsf_ok h p" "\<forall>p\<in>set (consumers s i). dgsf_ok h p"
    using Cons.prems by (simp_all add: members_def)
  have one: "config_other i s (with_flags pu po h)
      = Inr (with_flags (on_set (members s i) (\<lambda>_. ?b) pu) (on_set (members s i) (keeps_open h) po) h)"
    using set_others_flags [OF ok(1)] set_others_flags [OF ok(2)] by (simp add: config_other_def members_def on_set_Un)
  from Cons obtain pu' where pu': "rfold (\<lambda>i. config_other i s) is (with_flags (on_set (members s i) (\<lambda>_. ?b) pu) (on_set (members s i) (keeps_open h) po) h)
      = Inr (with_flags pu' (on_set (\<Union>i\<in>set is. members s i) (keeps_open h) (on_set (members s i) (keeps_open h) po)) h)"
    "\<forall>p. p \<notin> (\<Union>i\<in>set is. fed_by_source s i) \<longrightarrow> pu' p = (if p \<in> (\<Union>i\<in>set is. members s i) then True else on_set (members s i) (\<lambda>_. ?b) pu p)"
    by fastforce
  have "pu' p = (if p \<in> (\<Union>i\<in>set (i # is). members s i) then True else pu p)" if "p \<notin> (\<Union>i\<in>set (i # is). fed_by_source s i)" for p
    using pu'(2) that by (auto simp: on_set_def fed_by_source_def members_def split: if_splits)
  with one pu'(1) show ?case by (intro exI [of _ pu']) (simp add: on_set_Un)
qed (auto simp: on_set_empty)

text \<open>C30: the configuration of the channels between subgraphs for a running subgraph. What its consumers
  store is not taken yet, what its producers hold is; a channel of the other subgraphs is closed towards
  its consumers, except that a channel in keepMode stays open unless it feeds a loop variable. Every
  channel accepts data but for those behind another subgraph that has no producers.\<close>

theorem configuration_rule:
  assumes "table_ok s h" "cur < table_size s"
  shows "\<exists>h'. configChan cur s h = Inr (s, h') \<and> length h' = length h
    \<and> (\<forall>p<length h. if \<exists>i<table_size s. p \<in> set (producers s i) \<union> set (consumers s i)
        then sub (h' ! p) = ChanDGSF (\<not> (\<exists>i<table_size s. i \<noteq> cur \<and> producers s i = [] \<and> p \<in> set (consumers s i))) (activeStream (sub (h ! p)))
           \<and> enable (h' ! p) = (if p \<in> set (consumers s cur) then False else if p \<in> set (producers s cur) then True
               else keepMode (h ! p) \<and> \<not> isLoopVar (h ! (downstream (h ! p) ! 0)))
        else h' ! p = h ! p)"
proof -
  obtain n where n: "table_keys s = {..<n}" using assms(1) by (auto simp: table_ok_def)
  then have size: "table_size s = n" and cur: "cur < n" using assms(2) by (simp_all add: table_size_def)
  have ok: "dgsf_ok h p" if "i < n" "p \<in> members s i" for i p
    using assms(1) that by (auto simp: table_ok_def members_def size)
  let ?o = "filter (\<lambda>j. j \<noteq> cur) [0..<n]"
  have o: "\<forall>i\<in>set ?o. \<forall>p\<in>members s i. dgsf_ok h p" using ok by auto
  let ?M = "\<Union>i\<in>set ?o. members s i" and ?F = "\<Union>i\<in>set ?o. fed_by_source s i"
  let ?pu = "\<lambda>p. pushBufferEnable (sub (h ! p))" and ?po = "\<lambda>p. enable (h ! p)"
  let ?P = "set (producers s cur)" and ?C = "set (consumers s cur)"
  obtain pu where pu: "rfold (\<lambda>i. config_other i s) ?o h = Inr (with_flags pu (on_set ?M (keeps_open h) ?po) h)"
    "\<forall>p. p \<notin> ?F \<longrightarrow> pu p = (if p \<in> ?M then True else ?pu p)"
    using config_others_flags [OF o, of ?pu ?po] unfolding with_flags_id by blast
  have pc: "\<forall>p\<in>?P. dgsf_ok h p" "\<forall>p\<in>?C. dgsf_ok h p" using ok [OF cur] by (simp_all add: members_def)
  let ?push = "on_set ?F (\<lambda>_. False) (on_set ?C (\<lambda>_. True) (on_set ?P (\<lambda>_. True) pu))"
  let ?pop = "on_set ?C (\<lambda>_. False) (on_set ?P (\<lambda>_. True) (on_set ?M (keeps_open h) ?po))"
  have run: "configChan cur s h = Inr (s, with_flags ?push ?pop h)"
    unfolding configChan_def for_others_fold [OF n le0] pu(1)
    by (simp add: Let_def touch_ok [OF n cur] for_others_fold [OF n le0] set_both_flags [OF pc(1)] set_both_flags [OF pc(2)] config_sources_flags [OF o] del: set_filter)
  have mem: "(\<exists>i<table_size s. p \<in> set (producers s i) \<union> set (consumers s i)) \<longleftrightarrow> p \<in> ?M \<or> p \<in> ?P \<or> p \<in> ?C" for p
  proof -
    have "(\<exists>i<n. Q i) \<longleftrightarrow> (\<exists>i\<in>set ?o. Q i) \<or> Q cur" for Q using cur by simp blast
    from this [of "\<lambda>i. p \<in> members s i"] show ?thesis unfolding size members_def by blast
  qed
  have src: "(\<exists>i<table_size s. i \<noteq> cur \<and> producers s i = [] \<and> p \<in> set (consumers s i)) \<longleftrightarrow> p \<in> ?F" for p
    unfolding size by (auto simp: fed_by_source_def split: if_splits)
  have sub: "?F \<subseteq> ?M" by (auto simp: fed_by_source_def members_def split: if_splits)
  have "if p \<in> ?M \<or> p \<in> ?P \<or> p \<in> ?C
        then sub (with_flags ?push ?pop h ! p) = ChanDGSF (\<not> p \<in> ?F) (activeStream (sub (h ! p)))
           \<and> enable (with_flags ?push ?pop h ! p) = (if p \<in> ?C then False else if p \<in> ?P then True else keeps_open h p)
        else with_flags ?push ?pop h ! p = h ! p" if p: "p < length h" for p
  proof (cases "p \<in> ?M \<or> p \<in> ?P \<or> p \<in> ?C")
    case True
    then have "is_dgsf h p" using ok cur by (auto simp: dgsf_ok_def members_def)
    then obtain x a where a: "sub (h ! p) = ChanDGSF x a" by (auto simp: is_dgsf_def)
    have "?push p = (\<not> p \<in> ?F)" using True pu(2) by (auto simp: on_set_def)
    moreover have "?pop p = (if p \<in> ?C then False else if p \<in> ?P then True else keeps_open h p)" using True by (auto simp: on_set_def)
    moreover have "with_flags ?push ?pop h ! p = (h ! p)\<lparr>enable := ?pop p, sub := ChanDGSF (?push p) a\<rparr>"
      using with_flags_nth [OF p, of ?push ?pop] a by simp
    ultimately show ?thesis using True a by simp
  next
    case False
    then have "?push p = ?pu p" "?pop p = ?po p" using sub pu(2) by (auto simp: on_set_def)
    then have "with_flags ?push ?pop h ! p = with_flags ?pu ?po h ! p" by (rule with_flags_cong [OF p])
    then have "with_flags ?push ?pop h ! p = h ! p" unfolding with_flags_id .
    then show ?thesis by (simp only: False if_False)
  qed
  then have key: "\<forall>p<length h. if p \<in> ?M \<or> p \<in> ?P \<or> p \<in> ?C
        then sub (with_flags ?push ?pop h ! p) = ChanDGSF (\<not> p \<in> ?F) (activeStream (sub (h ! p)))
           \<and> enable (with_flags ?push ?pop h ! p) = (if p \<in> ?C then False else if p \<in> ?P then True else keeps_open h p)
        else with_flags ?push ?pop h ! p = h ! p" by blast
  show ?thesis
    unfolding mem src keeps_open_def [symmetric]
    by (intro exI conjI, rule run, rule length_with_flags, rule key)
qed

text \<open>A subgraph that only produces, one in the middle, and one that only consumes.\<close>

definition schedulerDemo :: scheduler where
  "schedulerDemo = addSubgraph 2 [1] [] (addSubgraph 1 [0] [1] (addSubgraph 0 [] [0] scheduler_new))"

definition schedulerHeap :: heap where
  "schedulerHeap =
     [(chan_new 0 4 1 1 (ChanDGSF True []))\<lparr>downstream := [2], getTheLastData := [False], chanBuffer := [[]]\<rparr>,
      (chan_new 1 4 1 1 (ChanDGSF True []))\<lparr>downstream := [2], getTheLastData := [False], chanBuffer := [[]]\<rparr>,
      (chan_new 2 4 1 1 ChanBase)\<lparr>upstream := [0, 1]\<rparr>]"

lemma schedulerDemo_table:
  "subgraphTable schedulerDemo = [(0, [], [0]), (1, [0], [1]), (2, [1], [])]"
  "table_keys schedulerDemo = {..<3}" "table_size schedulerDemo = 3"
proof -
  show t: "subgraphTable schedulerDemo = [(0, [], [0]), (1, [0], [1]), (2, [1], [])]" by code_simp
  show k: "table_keys schedulerDemo = {..<3}" by (auto simp: table_keys_def t)
  show "table_size schedulerDemo = 3" by (simp add: table_size_def k)
qed

lemma schedulerDemo_members:
  "producers schedulerDemo 0 = []" "producers schedulerDemo 1 = [0]" "producers schedulerDemo 2 = [1]"
  "consumers schedulerDemo 0 = [0]" "consumers schedulerDemo 1 = [1]" "consumers schedulerDemo 2 = []"
  by (simp_all add: producers_def consumers_def schedulerDemo_table)

lemma less_three: "(\<forall>i<3. P (i :: nat)) \<longleftrightarrow> P 0 \<and> P 1 \<and> P 2"
proof
  assume a: "P 0 \<and> P 1 \<and> P 2"
  show "\<forall>i<3. P i"
  proof (intro allI impI)
    fix i :: nat assume "i < 3"
    then consider "i = 0" | "i = 1" | "i = 2" by linarith
    then show "P i" using a by cases auto
  qed
qed simp

lemma configuration_rule_witness:
  "\<exists>h'. configChan 1 schedulerDemo schedulerHeap = Inr (schedulerDemo, h') \<and> \<not> pushBufferEnable (sub (h' ! 0)) \<and> enable (h' ! 0)"
proof -
  have "table_ok schedulerDemo schedulerHeap"
    unfolding table_ok_def schedulerDemo_table less_three schedulerDemo_members
    by (auto simp: dgsf_ok_def is_dgsf_def schedulerHeap_def chan_new_def)
  from configuration_rule [OF this, of 1]
  obtain h' where h': "configChan 1 schedulerDemo schedulerHeap = Inr (schedulerDemo, h')"
    "\<forall>p<length schedulerHeap. if \<exists>i<3. p \<in> set (producers schedulerDemo i) \<union> set (consumers schedulerDemo i)
        then sub (h' ! p) = ChanDGSF (\<not> (\<exists>i<3. i \<noteq> 1 \<and> producers schedulerDemo i = [] \<and> p \<in> set (consumers schedulerDemo i))) (activeStream (sub (schedulerHeap ! p)))
           \<and> enable (h' ! p) = (if p \<in> set (consumers schedulerDemo 1) then False else if p \<in> set (producers schedulerDemo 1) then True
               else keepMode (schedulerHeap ! p) \<and> \<not> isLoopVar (schedulerHeap ! (downstream (schedulerHeap ! p) ! 0)))
        else h' ! p = schedulerHeap ! p"
    unfolding schedulerDemo_table by auto
  have "\<exists>i<3. 0 \<in> set (producers schedulerDemo i) \<union> set (consumers schedulerDemo i)"
    by (rule exI [of _ 0]) (simp add: schedulerDemo_members)
  moreover have "\<exists>i<3. i \<noteq> 1 \<and> producers schedulerDemo i = [] \<and> 0 \<in> set (consumers schedulerDemo i)"
    by (rule exI [of _ 0]) (simp add: schedulerDemo_members)
  ultimately show ?thesis using h'(1) h'(2) [rule_format, of 0] schedulerDemo_members by (auto simp: schedulerHeap_def)
qed

end
