(* ===== verification/SchedulerChoice.thy ===== *)
theory SchedulerChoice
  imports SchedulerRule
begin

text \<open>
  When the scheduler leaves a subgraph, and which one it chooses next.
\<close>

section \<open>The choice of the next subgraph\<close>

lemma chans_all_ok:
  "(\<And>p. p \<in> set ps \<Longrightarrow> p < length h \<and> P (h ! p) = Inr (Q (h ! p))) \<Longrightarrow> chans_all h P ps = Inr (\<forall>p\<in>set ps. Q (h ! p))"
  by (induction ps) (auto simp: deref_def)

text \<open>The channels exist with all that they feed, and have a mark for the last datum.\<close>

definition chans_ok :: "scheduler \<Rightarrow> heap \<Rightarrow> bool" where
  "chans_ok s h \<longleftrightarrow> (\<exists>n. table_keys s = {..<n}) \<and> (\<forall>i<table_size s. \<forall>p\<in>set (producers s i) \<union> set (consumers s i).
     p < length h \<and> getTheLastData (h ! p) \<noteq> [] \<and> set (downstream (h ! p)) \<subseteq> {..<length h})"

text \<open>A subgraph is ready when all its producers are full or have received their last datum, or none of
  them is empty; everything that they feed is enabled, and there is room for a result.\<close>

definition ready_subgraph :: "scheduler \<Rightarrow> heap \<Rightarrow> nat \<Rightarrow> bool" where
  "ready_subgraph s h i \<longleftrightarrow>
     ((\<forall>p\<in>set (producers s i). hd (getTheLastData (h ! p)) \<or> (\<forall>q\<in>set (chanBuffer (h ! p)). ch_size (h ! p) \<le> length q))
      \<or> (\<forall>p\<in>set (producers s i). \<forall>q\<in>set (chanBuffer (h ! p)). q \<noteq> []))
     \<and> (\<forall>p\<in>set (producers s i). \<forall>d\<in>set (downstream (h ! p)). enable (h ! d))
     \<and> (consumers s i \<noteq> [] \<longrightarrow> (\<exists>p\<in>set (consumers s i). \<exists>q\<in>set (chanBuffer (h ! p)). length q < ch_size (h ! p)))"

lemma subgraph_ready_eq:
  assumes "chans_ok s h" "i < table_size s"
  shows "subgraph_ready i s h = Inr (ready_subgraph s h i)"
proof -
  have ok: "p < length h \<and> getTheLastData (h ! p) \<noteq> [] \<and> set (downstream (h ! p)) \<subseteq> {..<length h}"
    if "p \<in> set (producers s i) \<union> set (consumers s i)" for p
    using assms that by (auto simp: chans_ok_def)
  have full: "checkProducerChanIsFull h (producers s i) = Inr (\<forall>p\<in>set (producers s i).
      hd (getTheLastData (h ! p)) \<or> (\<forall>q\<in>set (chanBuffer (h ! p)). ch_size (h ! p) \<le> length q))"
    unfolding checkProducerChanIsFull_def
    by (rule chans_all_ok [where Q = "\<lambda>c. hd (getTheLastData c) \<or> (\<forall>q\<in>set (chanBuffer c). ch_size c \<le> length q)"])
      (use ok in \<open>fastforce simp: buffers_all_def list_all_iff neq_Nil_conv not_less\<close>)
  have notempty: "checkProducerChanNotEmpty h (producers s i) = Inr (\<forall>p\<in>set (producers s i). \<forall>q\<in>set (chanBuffer (h ! p)). q \<noteq> [])"
    unfolding checkProducerChanNotEmpty_def
    by (rule chans_all_ok [where Q = "\<lambda>c. \<forall>q\<in>set (chanBuffer c). q \<noteq> []"]) (use ok in \<open>auto simp: buffers_all_def list_all_iff\<close>)
  have down: "checkProducerDownstreamChanAllEnable h (producers s i) = Inr (\<forall>p\<in>set (producers s i). \<forall>d\<in>set (downstream (h ! p)). enable (h ! d))"
    unfolding checkProducerDownstreamChanAllEnable_def
    by (rule chans_all_ok [where Q = "\<lambda>c. \<forall>d\<in>set (downstream c). enable (h ! d)"], rule conjI)
      (use ok in \<open>auto intro!: chans_all_ok [where Q = enable]\<close>)
  have room: "checkConsumerChanNotFull h (consumers s i) = Inr (consumers s i \<noteq> [] \<longrightarrow>
      (\<exists>p\<in>set (consumers s i). \<exists>q\<in>set (chanBuffer (h ! p)). length q < ch_size (h ! p)))"
  proof -
    have "chans_all h (\<lambda>c. buffers_all (\<lambda>q. \<not> length q < ch_size c) c) (consumers s i)
        = Inr (\<forall>p\<in>set (consumers s i). \<forall>q\<in>set (chanBuffer (h ! p)). \<not> length q < ch_size (h ! p))"
      by (rule chans_all_ok [where Q = "\<lambda>c. \<forall>q\<in>set (chanBuffer c). \<not> length q < ch_size c"]) (use ok in \<open>auto simp: buffers_all_def list_all_iff\<close>)
    then show ?thesis by (simp add: checkConsumerChanNotFull_def)
  qed
  show ?thesis
    unfolding subgraph_ready_def Let_def and_then_def full notempty down room ready_subgraph_def by (auto split: if_splits)
qed

definition others :: "nat \<Rightarrow> nat \<Rightarrow> nat \<Rightarrow> nat list" where
  "others n cur m = map (\<lambda>i. (cur + i) mod n) [m..<n]"

lemma others_set:
  assumes "cur < n"
  shows "set (others n cur 1) = {i. i < n \<and> i \<noteq> cur}"
proof
  show "set (others n cur 1) \<subseteq> {i. i < n \<and> i \<noteq> cur}"
  proof
    fix k assume "k \<in> set (others n cur 1)"
    then obtain i where i: "1 \<le> i" "i < n" "k = (cur + i) mod n" by (auto simp: others_def)
    have "k = (if cur + i < n then cur + i else cur + i - n)" using i assms by (simp add: mod_if)
    with i assms show "k \<in> {i. i < n \<and> i \<noteq> cur}" by (cases "cur + i < n") simp_all
  qed
  show "{i. i < n \<and> i \<noteq> cur} \<subseteq> set (others n cur 1)"
  proof
    fix k assume k: "k \<in> {i. i < n \<and> i \<noteq> cur}"
    define i where "i = (if cur < k then k - cur else k + n - cur)"
    have "1 \<le> i" "i < n" "(cur + i) mod n = k" using k assms by (auto simp: i_def)
    then show "k \<in> set (others n cur 1)" by (force simp: others_def)
  qed
qed

lemma select_ready_eq:
  assumes "chans_ok s h" "length (subgraphIsOver s) = table_size s" "m \<le> table_size s"
  shows "select_ready cur m s h = Inr (find (\<lambda>k. \<not> subgraphIsOver s ! k \<and> ready_subgraph s h k) (others (table_size s) cur m), s)"
  using assms(3)
proof (induction "table_size s - m" arbitrary: m)
  case 0
  then show ?case by (subst select_ready.simps) (simp add: others_def)
next
  case (Suc j)
  then have m: "m < table_size s" "j = table_size s - Suc m" "Suc m \<le> table_size s" by auto
  let ?k = "(cur + m) mod table_size s"
  have k: "?k < table_size s" using m(1) by simp
  obtain n where n: "table_keys s = {..<n}" using assms(1) by (auto simp: chans_ok_def)
  then have "touch ?k s = s" using k by (intro touch_ok [OF n]) (simp add: table_size_def)
  moreover have "others (table_size s) cur m = ?k # others (table_size s) cur (Suc m)"
    using m(1) by (simp add: others_def upt_conv_Cons)
  ultimately show ?case
    using Suc(1) [OF m(2,3)] m(1) k assms(2) subgraph_ready_eq [OF assms(1) k]
    by (subst select_ready.simps) (simp add: Let_def)
qed

lemma select_unfinished_eq:
  assumes "length (subgraphIsOver s) = table_size s"
  shows "select_unfinished cur s = Inr (find (\<lambda>k. \<not> subgraphIsOver s ! k) (others (table_size s) cur 1))"
proof -
  let ?f = "\<lambda>n found. case found of Some k \<Rightarrow> Inr (Some k)
     | None \<Rightarrow> rbind (rnth (subgraphIsOver s) ((cur + n) mod table_size s)) (\<lambda>over. Inr (if over then None else Some ((cur + n) mod table_size s)))"
  have stop: "rfold ?f ms (Some k) = Inr (Some k)" for ms k by (induction ms) auto
  have "rfold ?f ms None = Inr (find (\<lambda>k. \<not> subgraphIsOver s ! k) (map (\<lambda>i. (cur + i) mod table_size s) ms))"
    if "set ms \<subseteq> {..<table_size s}" for ms
    using that
  proof (induction ms)
    case (Cons m ms)
    then have "(cur + m) mod table_size s < length (subgraphIsOver s)" using assms by (auto intro: mod_less_divisor)
    with Cons show ?case by (simp add: Let_def stop)
  qed simp
  from this [of "[1..<table_size s]"] show ?thesis unfolding select_unfinished_def others_def Let_def by (simp add: subset_iff)
qed

text \<open>C31: the out-of-order choice of the next subgraph never fails; it takes a subgraph that is finished
  only when all are, prefers a ready one to staying, and otherwise stays unless the running one is
  finished.\<close>

theorem next_subgraph:
  assumes "chans_ok s h" "length (subgraphIsOver s) = table_size s" "currSubgraphId s < table_size s"
  shows "\<exists>k<table_size s. selectSubgraphO3 (currSubgraphId s) s h = Inr (k, s)
    \<and> (subgraphIsOver s ! k \<longrightarrow> (\<forall>i<table_size s. subgraphIsOver s ! i))
    \<and> (k \<noteq> currSubgraphId s \<longrightarrow> ready_subgraph s h k \<or> subgraphIsOver s ! currSubgraphId s)
    \<and> ((\<exists>i<table_size s. i \<noteq> currSubgraphId s \<and> \<not> subgraphIsOver s ! i \<and> ready_subgraph s h i)
        \<longrightarrow> k \<noteq> currSubgraphId s \<and> \<not> subgraphIsOver s ! k \<and> ready_subgraph s h k)"
proof -
  let ?n = "table_size s" and ?cur = "currSubgraphId s"
  let ?r = "find (\<lambda>k. \<not> subgraphIsOver s ! k \<and> ready_subgraph s h k) (others ?n ?cur 1)"
    and ?u = "find (\<lambda>k. \<not> subgraphIsOver s ! k) (others ?n ?cur 1)"
  have o: "set (others ?n ?cur 1) = {i. i < ?n \<and> i \<noteq> ?cur}" by (rule others_set [OF assms(3)])
  have found: "x < ?n \<and> x \<noteq> ?cur \<and> P x" if "find P (others ?n ?cur 1) = Some x" for P x
    using that o by (metis (mono_tags, lifting) find_Some_iff mem_Collect_eq nth_mem)
  have none: "find P (others ?n ?cur 1) = None \<longleftrightarrow> (\<forall>i<?n. i \<noteq> ?cur \<longrightarrow> \<not> P i)" for P
    using o by (auto simp: find_None_iff)
  have run: "selectSubgraphO3 ?cur s h = Inr (case ?r of Some k \<Rightarrow> (k, s)
      | None \<Rightarrow> (if subgraphIsOver s ! ?cur then (case ?u of Some k \<Rightarrow> (k, s) | None \<Rightarrow> (?cur, s)) else (?cur, s)))"
    using select_ready_eq [OF assms(1,2), of 1] select_unfinished_eq [OF assms(2)] assms(2,3)
    by (simp add: selectSubgraphO3_def split: option.splits)
  show ?thesis
  proof (cases ?r)
    case (Some k)
    have "k < ?n \<and> k \<noteq> ?cur \<and> \<not> subgraphIsOver s ! k \<and> ready_subgraph s h k" by (rule found [OF Some])
    moreover have "selectSubgraphO3 ?cur s h = Inr (k, s)" using run Some by simp
    ultimately show ?thesis by blast
  next
    case r: None
    show ?thesis
    proof (cases "subgraphIsOver s ! ?cur")
      case False
      have "selectSubgraphO3 ?cur s h = Inr (?cur, s)" using run r False by simp
      with r False assms(3) show ?thesis unfolding none by blast
    next
      case True
      show ?thesis
      proof (cases ?u)
        case (Some k)
        have "k < ?n \<and> k \<noteq> ?cur \<and> \<not> subgraphIsOver s ! k" by (rule found [OF Some])
        moreover have "selectSubgraphO3 ?cur s h = Inr (k, s)" using run r True Some by simp
        ultimately show ?thesis using True r unfolding none by blast
      next
        case None
        have "selectSubgraphO3 ?cur s h = Inr (?cur, s)" using run r True None by simp
        with r None True assms(3) show ?thesis unfolding none by blast
      qed
    qed
  qed
qed

lemma next_subgraph_witness:
  "\<exists>k<3. selectSubgraphO3 0 (schedulerDemo\<lparr>subgraphIsOver := [True, False, False]\<rparr>) schedulerHeap
      = Inr (k, schedulerDemo\<lparr>subgraphIsOver := [True, False, False]\<rparr>) \<and> k \<noteq> 0"
proof -
  let ?s = "schedulerDemo\<lparr>subgraphIsOver := [True, False, False]\<rparr>"
  have p: "producers ?s = producers schedulerDemo" "consumers ?s = consumers schedulerDemo"
    "table_keys ?s = table_keys schedulerDemo" "table_size ?s = table_size schedulerDemo"
    by (simp_all add: fun_eq_iff producers_def consumers_def table_size_def table_keys_def)
  have ok: "chans_ok ?s schedulerHeap"
    unfolding chans_ok_def p schedulerDemo_table less_three schedulerDemo_members
    by (auto simp: schedulerHeap_def chan_new_def)
  have cur: "currSubgraphId ?s = 0" by code_simp
  from next_subgraph [OF ok] obtain k where k: "k < 3" "selectSubgraphO3 0 ?s schedulerHeap = Inr (k, ?s)"
    "subgraphIsOver ?s ! k \<longrightarrow> (\<forall>i<3. subgraphIsOver ?s ! i)"
    unfolding cur p schedulerDemo_table by auto
  then have "k \<noteq> 0" by (cases k) (auto simp: less_three)
  with k show ?thesis by blast
qed

text \<open>A subgraph with producers and consumers is left in the next update, however little it has done:
  the check whether its producers are finished accepts them as long as they have sent fewer data than
  they may, where it is meant to accept them from then on.\<close>

theorem subgraph_left_at_once:
  assumes "producers s (currSubgraphId s) \<noteq> []" "consumers s (currSubgraphId s) \<noteq> []"
    and "\<forall>p\<in>set (producers s (currSubgraphId s)). p < length h \<and> chanDataCnt (h ! p) < DGSF_input_buffer_size g"
    and "consumerChanFinish s h = Inr c"
  shows "graphUpdate g s h = rbind (switchGraph (graphSwitchO3 s) s h) (\<lambda>(s, h).
    rbind (rnth (subgraphActiveCnt s) (currSubgraphId s)) (\<lambda>n.
      Inr (s\<lparr>subgraphActiveCnt := (subgraphActiveCnt s)[currSubgraphId s := n + 1]\<rparr>, h)))"
proof -
  let ?cur = "currSubgraphId s"
  have key: "?cur \<in> table_keys s"
    using assms(1) by (auto simp: producers_def table_keys_def split: option.splits dest!: map_of_SomeD intro: rev_image_eqI)
  then have t: "touch ?cur s = s" by (simp add: touch_def)
  have "chans_all h (\<lambda>c. buffers_all (\<lambda>q. q = [] \<or> chanDataCnt c < DGSF_input_buffer_size g) c) ps = Inr True"
    if "set ps \<subseteq> set (producers s ?cur)" for ps
    using that assms(3) by (induction ps) (auto simp: buffers_all_def list_all_iff deref_def)
  then have "producerChanFinish g s h = Inr True" using assms(1,2) by (simp add: producerChanFinish_def checkProducerChanFinish_def Let_def)
  with t assms(4) show ?thesis by (simp add: graphUpdate_def Let_def)
qed

lemma subgraph_left_at_once_witness:
  "graphUpdate (cfg_demo\<lparr>DGSF_input_buffer_size := 4\<rparr>) (schedulerDemo\<lparr>currSubgraphId := 1, subgraphIsOver := [False, False, False], subgraphActiveCnt := [0, 0, 0]\<rparr>) schedulerHeap
    = rbind (switchGraph True (schedulerDemo\<lparr>currSubgraphId := 1, subgraphIsOver := [False, False, False], subgraphActiveCnt := [0, 0, 0]\<rparr>) schedulerHeap) (\<lambda>(s, h).
      rbind (rnth (subgraphActiveCnt s) (currSubgraphId s)) (\<lambda>n.
        Inr (s\<lparr>subgraphActiveCnt := (subgraphActiveCnt s)[currSubgraphId s := n + 1]\<rparr>, h)))"
proof -
  let ?s = "schedulerDemo\<lparr>currSubgraphId := 1, subgraphIsOver := [False, False, False], subgraphActiveCnt := [0, 0, 0]\<rparr>"
  have p: "producers ?s (currSubgraphId ?s) = [0]" "consumers ?s (currSubgraphId ?s) = [1]" "graphSwitchO3 ?s = True"
    by code_simp+
  have "\<exists>c. consumerChanFinish ?s schedulerHeap = Inr c" by (rule exI [of _ False]) code_simp
  moreover have "\<forall>p\<in>set (producers ?s (currSubgraphId ?s)). p < length schedulerHeap \<and> chanDataCnt (schedulerHeap ! p) < DGSF_input_buffer_size (cfg_demo\<lparr>DGSF_input_buffer_size := 4\<rparr>)"
    unfolding p by (simp add: schedulerHeap_def chan_new_def)
  ultimately show ?thesis using subgraph_left_at_once [of ?s schedulerHeap "cfg_demo\<lparr>DGSF_input_buffer_size := 4\<rparr>"] p by auto
qed

end
