(* ===== verification/Boundaries.thy ===== *)
theory Boundaries
  imports ChanGraph
begin

text \<open>
  The channels that \<open>ChanGraph::addChanDGSF\<close> (\<open>sim/graph.cpp\<close>) inserts where connections leave a subgraph:
  the pass, which edits the lists of names in place, computes a graph that is described in one step.
\<close>

section \<open>Graphs as functions of the names\<close>

definition graph_of :: "string list \<Rightarrow> (string \<Rightarrow> chan_node) \<Rightarrow> controlTree \<Rightarrow> chan_node graph" where
  "graph_of ns L t = \<lparr>nodes = map L ns, nodeIndexDict = zip ns [0..<length ns], ctrl_tree = t\<rparr>"

definition node_of :: "chan_node graph \<Rightarrow> string \<Rightarrow> chan_node" where
  "node_of g n = projr (getNode g n)"

lemma graph_of_cong: "\<forall>n\<in>set ns. L n = L' n \<Longrightarrow> graph_of ns L t = graph_of ns L' t"
  by (simp add: graph_of_def)

lemma graph_of_index:
  assumes "distinct ns" "n \<in> set ns"
  obtains i where "i < length ns" "ns ! i = n" "findNodeIndex (graph_of ns L t) n = Inr i"
proof -
  obtain i where i: "i < length ns" "ns ! i = n" using assms(2) by (auto simp: in_set_conv_nth)
  have "map_of (zip ns [0..<length ns]) (ns ! i) = Some ([0..<length ns] ! i)"
    using assms(1) i(1) by (intro map_of_zip_nth) auto
  then show ?thesis using i by (intro that [of i]) (simp_all add: findNodeIndex_def graph_of_def)
qed

lemma graph_of_get: "distinct ns \<Longrightarrow> n \<in> set ns \<Longrightarrow> getNode (graph_of ns L t) n = Inr (L n)"
proof -
  assume "distinct ns" "n \<in> set ns"
  then obtain i where "i < length ns" "ns ! i = n" "findNodeIndex (graph_of ns L t) n = Inr i" by (rule graph_of_index)
  then show ?thesis by (simp add: getNode_def) (simp add: graph_of_def)
qed

lemma graph_of_on:
  assumes "distinct ns" "n \<in> set ns"
  shows "on_node n f (graph_of ns L t) = Inr (graph_of ns (L(n := f (L n))) t)"
proof -
  obtain i where i: "i < length ns" "ns ! i = n" "findNodeIndex (graph_of ns L t) n = Inr i"
    using assms by (rule graph_of_index)
  have "(map L ns)[i := f (L n)] = map (L(n := f (L n))) ns"
    using i(1,2) assms(1) by (intro nth_equalityI) (auto simp: nth_list_update nth_eq_iff_index_eq)
  then show ?thesis using i by (simp add: on_node_def, simp add: graph_of_def)
qed

lemma graph_of_add:
  assumes "n \<notin> set ns"
  shows "chan_addNode n ty opr md r (graph_of ns L t) = Inr (graph_of (ns @ [n])
    (L(n := (chan_node_new n)\<lparr>node_region := r, cn_type := ty, cn_op := opr, chan_mode := md\<rparr>)) t)"
proof -
  have "map_of (zip ns [0..<length ns]) n = None" using assms by simp
  moreover have "map L ns = map (L(n := x)) ns" for x using assms by auto
  ultimately show ?thesis by (simp add: chan_addNode_def graph_of_def)
qed

lemma graph_of_ok:
  assumes "graph_ok g"
  shows "g = graph_of (map node_name (nodes g)) (node_of g) (ctrl_tree g)"
proof -
  have "nodes g = map (node_of g) (map node_name (nodes g))"
    using graph_ok_nth(2) [OF assms] by (intro nth_equalityI) (simp_all add: node_of_def)
  moreover have "nodeIndexDict g = zip (map node_name (nodes g)) [0..<length (map node_name (nodes g))]"
    using assms by (simp add: graph_ok_def)
  ultimately show ?thesis unfolding graph_of_def by (intro graph.equality) simp_all
qed

definition known_region :: "controlTree \<Rightarrow> string \<Rightarrow> bool" where
  "known_region t r \<longleftrightarrow> (case controlRegionIndexDict t r of None \<Rightarrow> False | Some i \<Rightarrow> i < length (controlRegionTable t))"

lemma graph_of_region:
  assumes "distinct ns" "n \<in> set ns" "known_region t r"
  shows "\<exists>t'. addNodes2CtrlTree r [n] (graph_of ns L t) = Inr (graph_of ns (L(n := (L n)\<lparr>node_region := r\<rparr>)) t')
    \<and> known_region t' = known_region t"
proof -
  obtain i where "controlRegionIndexDict t r = Some i" "i < length (controlRegionTable t)"
    using assms(3) by (auto simp: known_region_def split: option.splits)
  then obtain t' where t': "on_region r (\<lambda>x. x\<lparr>region_nodes := region_nodes x @ [n]\<rparr>) t = Inr t'" "known_region t' = known_region t"
    by (simp add: on_region_def findControlRegionIndex_def known_region_def fun_eq_iff split: option.splits)
  have c: "ctrl_tree (graph_of ns L t) = t" "(graph_of ns L t)\<lparr>ctrl_tree := t'\<rparr> = graph_of ns L t'" by (simp_all add: graph_of_def)
  show ?thesis using t' graph_of_on [OF assms(1,2)] by (intro exI [of _ t']) (simp add: addNodes2CtrlTree_def c)
qed

lemma leaves_of: "distinct ns \<Longrightarrow> set ms \<subseteq> set ns \<Longrightarrow> leaves_subgraph (graph_of ns L t) s ms = Inr (\<exists>m\<in>set ms. node_subgraphId (L m) \<noteq> s)"
  by (induction ms) (auto simp: graph_of_get)

section \<open>Moving the connections of a node\<close>

lemma replace_first:
  assumes "distinct xs" "first_index (\<lambda>k. k = a) xs = Some i"
  shows "xs[i := b] = map (\<lambda>p. if p = a then b else p) xs"
  using assms by (auto simp: first_index_Some list_eq_iff_nth_eq nth_list_update nth_eq_iff_index_eq)

locale moved =
  fixes pre :: "chan_node \<Rightarrow> string list" and upd_pre :: "string list \<Rightarrow> chan_node \<Rightarrow> chan_node"
    and app :: "string list \<Rightarrow> chan_node \<Rightarrow> chan_node"
  assumes upd_sub: "node_subgraphId (upd_pre l x) = node_subgraphId x"
    and app_app: "app ms (app ls x) = app (ls @ ms) x"
    and app_nil: "app [] x = x"
begin

definition moves :: "(string \<Rightarrow> chan_node) \<Rightarrow> string \<Rightarrow> nat \<Rightarrow> string \<Rightarrow> bool" where
  "moves L nm s m \<longleftrightarrow> node_subgraphId (L m) \<noteq> s \<and> nm \<in> set (pre (L m))"

definition moved_to :: "(string \<Rightarrow> chan_node) \<Rightarrow> string \<Rightarrow> string \<Rightarrow> nat \<Rightarrow> string list \<Rightarrow> string \<Rightarrow> chan_node" where
  "moved_to L nm dn s ms m = (if m \<in> set ms \<and> moves L nm s m
     then upd_pre (map (\<lambda>p. if p = nm then dn else p) (pre (L m))) (L m)
     else if m = dn then app (filter (moves L nm s) ms) (L dn) else L m)"

lemma move_edges_of:
  assumes "distinct ns" "dn \<in> set ns" "set ms \<subseteq> set ns" "distinct ms" "dn \<notin> set ms" "\<forall>m\<in>set ms. distinct (pre (L m))"
  shows "move_edges pre upd_pre app nm dn s ms (graph_of ns L t)
    = Inr (filter (\<lambda>m. \<not> moves L nm s m) ms, graph_of ns (moved_to L nm dn s ms) t)"
proof -
  let ?f = "\<lambda>m (kept, g). rbind (getNode g m) (\<lambda>y.
     if node_subgraphId y \<noteq> s
     then (case first_index (\<lambda>k. k = nm) (pre y) of
         Some k \<Rightarrow> rbind (on_node m (upd_pre ((pre y)[k := dn])) g) (\<lambda>g.
           rbind (on_node dn (app [m]) g) (\<lambda>g. Inr (kept, g)))
       | None \<Rightarrow> Inr (kept @ [m], g))
     else Inr (kept @ [m], g))"
  have "rfold ?f ms (kept, graph_of ns L t) = Inr (kept @ filter (\<lambda>m. \<not> moves L nm s m) ms, graph_of ns (moved_to L nm dn s ms) t)"
    for kept using assms
  proof (induction ms arbitrary: kept L)
    case Nil
    have "moved_to L nm dn s [] = L" by (simp add: moved_to_def app_nil fun_eq_iff)
    then show ?case by simp
  next
    case (Cons m ms)
    have m: "m \<in> set ns" "m \<noteq> dn" "m \<notin> set ms" using Cons.prems by auto
    show ?case
    proof (cases "moves L nm s m")
      case False
      then have "first_index (\<lambda>k. k = nm) (pre (L m)) = None \<or> node_subgraphId (L m) = s"
        by (auto simp: moves_def first_index_None)
      then have "?f m (kept, graph_of ns L t) = Inr (kept @ [m], graph_of ns L t)"
        using Cons.prems(1) m(1) by (auto simp: graph_of_get)
      moreover have "moved_to L nm dn s (m # ms) = moved_to L nm dn s ms" using False by (auto simp: moved_to_def fun_eq_iff)
      ultimately show ?thesis using Cons False by (simp del: split_paired_All)
    next
      case True
      then obtain k where k: "first_index (\<lambda>k. k = nm) (pre (L m)) = Some k" "node_subgraphId (L m) \<noteq> s"
        by (cases "first_index (\<lambda>k. k = nm) (pre (L m))") (auto simp: moves_def first_index_None)
      let ?x = "upd_pre (map (\<lambda>p. if p = nm then dn else p) (pre (L m))) (L m)"
      define L1 where "L1 = L(m := ?x, dn := app [m] (L dn))"
      have x: "(pre (L m))[k := dn] = map (\<lambda>p. if p = nm then dn else p) (pre (L m))"
        using Cons.prems(6) k(1) by (intro replace_first) auto
      have step: "?f m (kept, graph_of ns L t) = Inr (kept, graph_of ns L1 t)"
        using Cons.prems(1,2) m k by (simp add: graph_of_get graph_of_on x L1_def)
      have eq: "L1 q = L q" if "q \<in> set ms" for q using that m Cons.prems(5) by (auto simp: L1_def)
      then have mv: "moves L1 nm s q = moves L nm s q" if "q \<in> set ms" for q using that by (simp add: moves_def)
      then have f: "filter (moves L1 nm s) ms = filter (moves L nm s) ms"
        "filter (\<lambda>q. \<not> moves L1 nm s q) ms = filter (\<lambda>q. \<not> moves L nm s q) ms" by (auto cong: filter_cong)
      have to: "moved_to L1 nm dn s ms = moved_to L nm dn s (m # ms)"
        unfolding moved_to_def f using True m mv eq Cons.prems(5) by (auto simp: fun_eq_iff app_app L1_def)
      have "rfold ?f ms (kept, graph_of ns L1 t)
          = Inr (kept @ filter (\<lambda>m. \<not> moves L1 nm s m) ms, graph_of ns (moved_to L1 nm dn s ms) t)"
        using Cons.prems eq by (intro Cons.IH) auto
      then show ?thesis unfolding f to rfold.simps step rbind.simps using True by simp
    qed
  qed
  from this [of "[]"] show ?thesis by (simp add: move_edges_def)
qed

end

interpretation mdata: moved pre_nodes_data "\<lambda>l y. y\<lparr>pre_nodes_data := l\<rparr>" app_next_data
  by unfold_locales (simp_all add: app_next_data_def)

interpretation mactive: moved pre_nodes_active "\<lambda>l y. y\<lparr>pre_nodes_active := l\<rparr>" app_next_active
  by unfold_locales (simp_all add: app_next_active_def)

section \<open>Inserting a channel\<close>

definition data_moved :: "(string \<Rightarrow> chan_node) \<Rightarrow> string \<Rightarrow> string \<Rightarrow> bool" where
  "data_moved L nm m \<longleftrightarrow> node_subgraphId (L m) \<noteq> node_subgraphId (L nm) \<and> nm \<in> set (pre_nodes_data (L m))"

definition active_moved :: "(string \<Rightarrow> chan_node) \<Rightarrow> string \<Rightarrow> string \<Rightarrow> bool" where
  "active_moved L nm m \<longleftrightarrow> node_subgraphId (L m) \<noteq> node_subgraphId (L nm) \<and> nm \<in> set (pre_nodes_active (L m))"

definition dgsf :: "string \<Rightarrow> string" where
  "dgsf n = n @ ''_DGSF''"

text \<open>The node \<open>n\<close> after the insertion of a channel behind \<open>nm\<close>.\<close>

definition inserted :: "config \<Rightarrow> (string \<Rightarrow> chan_node) \<Rightarrow> string \<Rightarrow> string \<Rightarrow> chan_node" where
  "inserted c L nm n = (let x = L nm; keep = (chan_mode x = ''Keep_mode'');
       y = (L n)\<lparr>pre_nodes_data := (if n \<in> set (next_nodes_data x) \<and> data_moved L nm n
           then map (\<lambda>p. if p = nm then dgsf nm else p) (pre_nodes_data (L n)) else pre_nodes_data (L n)),
         pre_nodes_active := (if n \<in> set (next_nodes_active x) \<and> active_moved L nm n
           then map (\<lambda>p. if p = nm then dgsf nm else p) (pre_nodes_active (L n)) else pre_nodes_active (L n))\<rparr> in
     if n = dgsf nm
     then (chan_node_new n)\<lparr>node_region := node_region x, cn_type := ''ChanDGSF'', cn_op := ''Nop'',
       chan_mode := (if keep then ''Keep_mode'' else ''Normal''), isPhysicalChan := False, cn_size := DGSF_input_buffer_size c,
       node_subgraphId := node_subgraphId x, pre_nodes_data := [nm], next_nodes_data := filter (data_moved L nm) (next_nodes_data x),
       next_nodes_active := filter (active_moved L nm) (next_nodes_active x)\<rparr>
     else if n = nm
     then y\<lparr>next_nodes_data := filter (\<lambda>m. \<not> data_moved L nm m) (next_nodes_data x) @ [dgsf nm],
       next_nodes_active := filter (\<lambda>m. \<not> active_moved L nm m) (next_nodes_active x),
       chan_mode := (if keep then ''Normal'' else chan_mode x)\<rparr>
     else y)"

lemma moves_data [simp]: "mdata.moves L nm (node_subgraphId (L nm)) = data_moved L nm"
  by (simp add: mdata.moves_def data_moved_def fun_eq_iff)

lemma moves_active [simp]: "mactive.moves L nm (node_subgraphId (L nm)) = active_moved L nm"
  by (simp add: mactive.moves_def active_moved_def fun_eq_iff)

lemma insert_run:
  assumes ns: "distinct ns" "i < length ns" "nm = ns ! i" "dgsf nm \<notin> set ns" and x: "node_name (L nm) = nm"
    and nx: "set (next_nodes_data (L nm)) \<subseteq> set ns" "set (next_nodes_active (L nm)) \<subseteq> set ns"
    and dist: "distinct (next_nodes_data (L nm))" "distinct (next_nodes_active (L nm))"
      "\<forall>m\<in>set ns. distinct (pre_nodes_data (L m)) \<and> distinct (pre_nodes_active (L m))"
    and reg: "known_region t (node_region (L nm))"
    and out: "\<exists>m\<in>set (next_nodes_data (L nm) @ next_nodes_active (L nm)). node_subgraphId (L m) \<noteq> node_subgraphId (L nm)"
  shows "\<exists>t'. insert_DGSF c i (graph_of ns L t) = Inr (graph_of (ns @ [dgsf nm]) (inserted c L nm) t') \<and> known_region t' = known_region t"
proof -
  let ?dn = "dgsf nm" and ?s = "node_subgraphId (L nm)" and ?nd = "next_nodes_data (L nm)" and ?na = "next_nodes_active (L nm)"
  let ?ns = "ns @ [?dn]"
  have d: "distinct ?ns" "nm \<in> set ns" "nm \<in> set ?ns" "?dn \<in> set ?ns" "nm \<noteq> ?dn" using ns by auto
  define L0 where "L0 = L(?dn := (chan_node_new ?dn)\<lparr>node_region := node_region (L nm), cn_type := ''ChanDGSF'', cn_op := ''Nop'',
    chan_mode := ''Normal'', isPhysicalChan := False, cn_size := DGSF_input_buffer_size c\<rparr>)"
  define L1 where "L1 = L0(?dn := (L0 ?dn)\<lparr>node_subgraphId := ?s\<rparr>)"
  define L2 where "L2 = mdata.moved_to L1 nm ?dn ?s ?nd"
  define L3 where "L3 = mactive.moved_to L2 nm ?dn ?s ?na"
  obtain t' where t': "addNodes2CtrlTree (node_region (L nm)) [?dn] (graph_of ?ns L0 t)
      = Inr (graph_of ?ns (L0(?dn := (L0 ?dn)\<lparr>node_region := node_region (L nm)\<rparr>)) t')" "known_region t' = known_region t"
    using graph_of_region [OF d(1,4) reg] by blast
  have L0: "L0(?dn := (L0 ?dn)\<lparr>node_region := node_region (L nm)\<rparr>) = L0" by (simp add: L0_def fun_eq_iff)
  have L1: "L1 m = L m" if "m \<in> set ns" for m using that ns(4) by (auto simp: L1_def L0_def)
  have sub1: "?s = node_subgraphId (L1 nm)" by (simp add: L1 d(2))
  have mvd: "data_moved L1 nm m = data_moved L nm m" if "m \<in> set ns" for m using that by (simp add: data_moved_def L1 d(2))
  have mva1: "active_moved L1 nm m = active_moved L nm m" if "m \<in> set ns" for m using that by (simp add: active_moved_def L1 d(2))
  have nxd: "set ?nd \<subseteq> set ?ns" "?dn \<notin> set ?nd" "set ?na \<subseteq> set ?ns" "?dn \<notin> set ?na" using nx ns(4) by auto
  have fd: "filter (data_moved L1 nm) ?nd = filter (data_moved L nm) ?nd" "filter (\<lambda>m. \<not> data_moved L1 nm m) ?nd = filter (\<lambda>m. \<not> data_moved L nm m) ?nd"
    using nx(1) mvd by (auto intro!: filter_cong)
  have L2: "node_subgraphId (L2 m) = node_subgraphId (L1 m) \<and> pre_nodes_active (L2 m) = pre_nodes_active (L1 m)" for m
    by (simp add: L2_def mdata.moved_to_def app_next_data_def)
  then have sub2: "?s = node_subgraphId (L2 nm)" by (simp add: sub1)
  have mva: "active_moved L2 nm = active_moved L1 nm" using L2 by (simp add: active_moved_def fun_eq_iff)
  have fa: "filter (active_moved L2 nm) ?na = filter (active_moved L nm) ?na" "filter (\<lambda>m. \<not> active_moved L2 nm m) ?na = filter (\<lambda>m. \<not> active_moved L nm m) ?na"
    unfolding mva using nx(2) mva1 by (auto intro!: filter_cong)
  have pd: "\<forall>m\<in>set ?nd. distinct (pre_nodes_data (L1 m))" using dist(3) nx(1) L1 by (metis subsetD)
  have pa: "\<forall>m\<in>set ?na. distinct (pre_nodes_active (L2 m))" using dist(3) nx(2) L1 L2 by (metis subsetD)
  have mv1: "move_edges pre_nodes_data (\<lambda>l y. y\<lparr>pre_nodes_data := l\<rparr>) app_next_data nm ?dn ?s ?nd (graph_of ?ns L1 t')
      = Inr (filter (\<lambda>m. \<not> data_moved L nm m) ?nd, graph_of ?ns L2 t')"
    using mdata.move_edges_of [OF d(1,4) nxd(1) dist(1) nxd(2) pd, of nm ?s t'] unfolding L2_def sub1 moves_data fd .
  have mv2: "move_edges pre_nodes_active (\<lambda>l y. y\<lparr>pre_nodes_active := l\<rparr>) app_next_active nm ?dn ?s ?na (graph_of ?ns L2 t')
      = Inr (filter (\<lambda>m. \<not> active_moved L nm m) ?na, graph_of ?ns L3 t')"
    using mactive.move_edges_of [OF d(1,4) nxd(3) dist(2) nxd(4) pa, of nm ?s t'] unfolding L3_def sub2 moves_active fa .
  have nth: "rnth (nodes (graph_of ns L t)) i = Inr (L nm)" using ns by (simp add: graph_of_def)
  have lv: "leaves_subgraph (graph_of ns L t) ?s (?nd @ ?na) = Inr True"
    using nx out leaves_of [OF ns(1), of "?nd @ ?na" L t ?s] by simp
  have new: "chan_addNode ?dn ''ChanDGSF'' ''Nop'' ''Normal'' (node_region (L nm)) (graph_of ns L t)
      = Inr (graph_of ?ns (L(?dn := (chan_node_new ?dn)\<lparr>node_region := node_region (L nm), cn_type := ''ChanDGSF'', cn_op := ''Nop'', chan_mode := ''Normal''\<rparr>)) t)"
    using ns(4) by (rule graph_of_add)
  have up: "(L(?dn := y))(?dn := z) = L(?dn := z)" for y z by simp
  define L4 where "L4 = L3(nm := (L3 nm)\<lparr>next_nodes_data := filter (\<lambda>m. \<not> data_moved L nm m) ?nd @ [?dn], next_nodes_active := filter (\<lambda>m. \<not> active_moved L nm m) ?na\<rparr>,
    ?dn := (L3 ?dn)\<lparr>pre_nodes_data := pre_nodes_data (L3 ?dn) @ [nm]\<rparr>)"
  define L5 where "L5 = (if chan_mode (L nm) = ''Keep_mode'' then L4(nm := (L4 nm)\<lparr>chan_mode := ''Normal''\<rparr>, ?dn := (L4 ?dn)\<lparr>chan_mode := ''Keep_mode''\<rparr>) else L4)"
  have "insert_DGSF c i (graph_of ns L t) = Inr (graph_of ?ns L5 t')"
    unfolding insert_DGSF_def nth rbind.simps Let_def x lv dgsf_def [symmetric] new if_True
      graph_of_on [OF d(1,4)] fun_upd_same up L0_def [unfolded fun_upd_same, symmetric] t'(1) L0 L1_def [symmetric] mv1 mv2 prod.case
      graph_of_on [OF d(1,3)]
    using d(5) by (simp add: L5_def L4_def graph_of_on [OF d(1,4)] graph_of_on [OF d(1,3)])
  moreover have "L5 n = inserted c L nm n" if n: "n \<in> set ?ns" for n
  proof (cases "n = ?dn")
    case True
    have "L2 ?dn = app_next_data (filter (data_moved L nm) ?nd) (L1 ?dn)"
      unfolding L2_def mdata.moved_to_def sub1 moves_data fd using nxd(2) by simp
    then have "L3 ?dn = app_next_active (filter (active_moved L nm) ?na) (app_next_data (filter (data_moved L nm) ?nd) (L1 ?dn))"
      unfolding L3_def mactive.moved_to_def sub2 moves_active fa using nxd(4) by simp
    then show ?thesis using True d(5)
      by (simp add: L5_def L4_def inserted_def Let_def app_next_active_def app_next_data_def L1_def L0_def chan_node_new_def)
  next
    case False
    then have m: "n \<in> set ns" using n by simp
    have "L2 n = (if n \<in> set ?nd \<and> data_moved L nm n
        then (L n)\<lparr>pre_nodes_data := map (\<lambda>p. if p = nm then ?dn else p) (pre_nodes_data (L n))\<rparr> else L n)"
      unfolding L2_def mdata.moved_to_def sub1 moves_data using False mvd [OF m] L1 [OF m] by simp
    moreover have "L3 n = (if n \<in> set ?na \<and> active_moved L nm n
        then (L2 n)\<lparr>pre_nodes_active := map (\<lambda>p. if p = nm then ?dn else p) (pre_nodes_active (L2 n))\<rparr> else L2 n)"
      unfolding L3_def mactive.moved_to_def sub2 moves_active mva using False mva1 [OF m] by simp
    ultimately have L3: "L3 n = (L n)\<lparr>pre_nodes_data := (if n \<in> set ?nd \<and> data_moved L nm n
           then map (\<lambda>p. if p = nm then ?dn else p) (pre_nodes_data (L n)) else pre_nodes_data (L n)),
         pre_nodes_active := (if n \<in> set ?na \<and> active_moved L nm n
           then map (\<lambda>p. if p = nm then ?dn else p) (pre_nodes_active (L n)) else pre_nodes_active (L n))\<rparr>"
      by simp
    show ?thesis
    proof (cases "n = nm")
      case True
      then show ?thesis using d(5) L3 by (simp add: L5_def L4_def inserted_def Let_def)
    next
      case no: False
      then show ?thesis using False d(5) L3 by (simp add: L5_def L4_def inserted_def Let_def)
    qed
  qed
  ultimately show ?thesis using t'(2) graph_of_cong [of ?ns L5 "inserted c L nm" t'] by auto
qed

section \<open>The pass\<close>

text \<open>The connections agree at both ends, each is declared once, and the names of the channels to be inserted
  are not taken.\<close>

definition split_ok :: "chan_node graph \<Rightarrow> bool" where
  "split_ok g \<longleftrightarrow> graph_ok g \<and> known_names g
     \<and> (\<forall>x\<in>set (nodes g). \<forall>y\<in>set (nodes g). (node_name y \<in> set (next_nodes_data x) \<longleftrightarrow> node_name x \<in> set (pre_nodes_data y))
          \<and> (node_name y \<in> set (next_nodes_active x) \<longleftrightarrow> node_name x \<in> set (pre_nodes_active y)))
     \<and> (\<forall>x\<in>set (nodes g). distinct (pre_nodes_data x) \<and> distinct (next_nodes_data x)
          \<and> distinct (pre_nodes_active x) \<and> distinct (next_nodes_active x))
     \<and> (\<forall>x\<in>set (nodes g). dgsf (node_name x) \<notin> node_names g \<and> known_region (ctrl_tree g) (node_region x))"

definition crosses :: "chan_node graph \<Rightarrow> chan_node \<Rightarrow> string \<Rightarrow> bool" where
  "crosses g x m \<longleftrightarrow> node_subgraphId (node_of g m) \<noteq> node_subgraphId x"

definition leaves :: "chan_node graph \<Rightarrow> chan_node \<Rightarrow> bool" where
  "leaves g x \<longleftrightarrow> (\<exists>m\<in>set (succs x). crosses g x m)"

text \<open>A node of the graph when the nodes \<open>P\<close> have been visited, and the channel inserted behind a node.\<close>

definition rewired :: "chan_node graph \<Rightarrow> string set \<Rightarrow> chan_node \<Rightarrow> chan_node" where
  "rewired g P x = (let done = (node_name x \<in> P \<and> leaves g x) in
     x\<lparr>pre_nodes_data := map (\<lambda>p. if p \<in> P \<and> crosses g x p then dgsf p else p) (pre_nodes_data x),
       pre_nodes_active := map (\<lambda>p. if p \<in> P \<and> crosses g x p then dgsf p else p) (pre_nodes_active x),
       next_nodes_data := (if done then filter (\<lambda>m. \<not> crosses g x m) (next_nodes_data x) @ [dgsf (node_name x)] else next_nodes_data x),
       next_nodes_active := (if done then filter (\<lambda>m. \<not> crosses g x m) (next_nodes_active x) else next_nodes_active x),
       chan_mode := (if done \<and> chan_mode x = ''Keep_mode'' then ''Normal'' else chan_mode x)\<rparr>)"

definition boundary :: "config \<Rightarrow> chan_node graph \<Rightarrow> chan_node \<Rightarrow> chan_node" where
  "boundary c g x = (chan_node_new (dgsf (node_name x)))\<lparr>node_region := node_region x, cn_type := ''ChanDGSF'', cn_op := ''Nop'',
     chan_mode := (if chan_mode x = ''Keep_mode'' then ''Keep_mode'' else ''Normal''), isPhysicalChan := False,
     cn_size := DGSF_input_buffer_size c, node_subgraphId := node_subgraphId x, pre_nodes_data := [node_name x],
     next_nodes_data := filter (crosses g x) (next_nodes_data x), next_nodes_active := filter (crosses g x) (next_nodes_active x)\<rparr>"

definition visited :: "config \<Rightarrow> chan_node graph \<Rightarrow> string set \<Rightarrow> string \<Rightarrow> chan_node" where
  "visited c g P n = (if n \<in> node_names g then rewired g P (node_of g n) else boundary c g (node_of g (take (length n - 5) n)))"

lemma dgsf_inj: "dgsf m = dgsf n \<longleftrightarrow> m = n"
  by (simp add: dgsf_def)

lemma names_set: "set (map node_name (nodes g)) = node_names g"
  by (simp add: node_names_def)

lemma node_of_ok:
  assumes "graph_ok g" "n \<in> node_names g"
  shows "node_of g n \<in> set (nodes g)" "node_name (node_of g n) = n"
proof -
  obtain i where i: "i < length (nodes g)" "node_name (nodes g ! i) = n" using assms by (rule graph_ok_name)
  then have "node_of g n = nodes g ! i" using graph_ok_nth(2) [OF assms(1) i(1)] by (simp add: node_of_def)
  with i show "node_of g n \<in> set (nodes g)" "node_name (node_of g n) = n" by simp_all
qed

lemma node_of_name:
  assumes "graph_ok g" "x \<in> set (nodes g)"
  shows "node_of g (node_name x) = x"
proof -
  obtain i where i: "i < length (nodes g)" "nodes g ! i = x" using assms(2) by (auto simp: in_set_conv_nth)
  then show ?thesis using graph_ok_nth(2) [OF assms(1) i(1)] by (simp add: node_of_def)
qed

lemma split_okD:
  assumes "split_ok g" "n \<in> node_names g"
  shows "set (next_nodes_data (node_of g n)) \<subseteq> node_names g" "set (next_nodes_active (node_of g n)) \<subseteq> node_names g"
    "set (pre_nodes_data (node_of g n)) \<subseteq> node_names g" "set (pre_nodes_active (node_of g n)) \<subseteq> node_names g"
    "distinct (pre_nodes_data (node_of g n))" "distinct (next_nodes_data (node_of g n))"
    "distinct (pre_nodes_active (node_of g n))" "distinct (next_nodes_active (node_of g n))"
    "dgsf n \<notin> node_names g" "known_region (ctrl_tree g) (node_region (node_of g n))"
    "m \<in> node_names g \<Longrightarrow> m \<in> set (next_nodes_data (node_of g n)) \<longleftrightarrow> n \<in> set (pre_nodes_data (node_of g m))"
    "m \<in> node_names g \<Longrightarrow> m \<in> set (next_nodes_active (node_of g n)) \<longleftrightarrow> n \<in> set (pre_nodes_active (node_of g m))"
proof -
  have ok: "graph_ok g" using assms(1) by (simp add: split_ok_def)
  note n = node_of_ok [OF ok assms(2)]
  show "set (next_nodes_data (node_of g n)) \<subseteq> node_names g" "set (next_nodes_active (node_of g n)) \<subseteq> node_names g"
    "set (pre_nodes_data (node_of g n)) \<subseteq> node_names g" "set (pre_nodes_active (node_of g n)) \<subseteq> node_names g"
    "distinct (pre_nodes_data (node_of g n))" "distinct (next_nodes_data (node_of g n))"
    "distinct (pre_nodes_active (node_of g n))" "distinct (next_nodes_active (node_of g n))"
    "dgsf n \<notin> node_names g" "known_region (ctrl_tree g) (node_region (node_of g n))"
    using assms(1) n by (auto simp: split_ok_def known_names_def)
  show "m \<in> node_names g \<Longrightarrow> m \<in> set (next_nodes_data (node_of g n)) \<longleftrightarrow> n \<in> set (pre_nodes_data (node_of g m))"
    "m \<in> node_names g \<Longrightarrow> m \<in> set (next_nodes_active (node_of g n)) \<longleftrightarrow> n \<in> set (pre_nodes_active (node_of g m))"
    using assms(1) n node_of_ok [OF ok, of m] unfolding split_ok_def by metis+
qed

lemma visited_node: "n \<in> node_names g \<Longrightarrow> visited c g P n = rewired g P (node_of g n)"
  by (simp add: visited_def)

lemma visited_boundary: "dgsf n \<notin> node_names g \<Longrightarrow> visited c g P (dgsf n) = boundary c g (node_of g n)"
  by (simp add: visited_def) (simp add: dgsf_def)

lemma rewired_sub [simp]: "node_subgraphId (rewired g P x) = node_subgraphId x"
  "node_name (rewired g P x) = node_name x" "node_region (rewired g P x) = node_region x"
  by (simp_all add: rewired_def Let_def)

lemma nth_in_map: "p \<in> set (map (\<lambda>q. if Q q then dgsf q else q) ps) \<longleftrightarrow> p \<in> set ps"
  if "set ps \<subseteq> node_names g" "p \<in> node_names g" "\<forall>q\<in>node_names g. dgsf q \<notin> node_names g" "\<not> Q p"
  using that by (force simp: image_iff)

lemma visited_moves:
  assumes ok: "split_ok g" and nm: "nm \<in> node_names g" "nm \<notin> P" and m: "m \<in> node_names g"
  shows "data_moved (visited c g P) nm m \<longleftrightarrow> crosses g (node_of g nm) m \<and> m \<in> set (next_nodes_data (node_of g nm))"
    "active_moved (visited c g P) nm m \<longleftrightarrow> crosses g (node_of g nm) m \<and> m \<in> set (next_nodes_active (node_of g nm))"
proof -
  have no: "\<forall>q\<in>node_names g. dgsf q \<notin> node_names g" using split_okD(9) [OF ok] by blast
  have d: "set (pre_nodes_data (node_of g m)) \<subseteq> node_names g" "set (pre_nodes_active (node_of g m)) \<subseteq> node_names g"
    using split_okD(3,4) [OF ok m] by blast+
  have q: "\<not> (nm \<in> P \<and> crosses g (node_of g m) nm)" using nm(2) by blast
  note e = nth_in_map [OF d(1) nm(1) no, where Q = "\<lambda>p. p \<in> P \<and> crosses g (node_of g m) p", OF q]
    nth_in_map [OF d(2) nm(1) no, where Q = "\<lambda>p. p \<in> P \<and> crosses g (node_of g m) p", OF q]
  show "data_moved (visited c g P) nm m \<longleftrightarrow> crosses g (node_of g nm) m \<and> m \<in> set (next_nodes_data (node_of g nm))"
    unfolding data_moved_def visited_node [OF m] visited_node [OF nm(1)] crosses_def rewired_sub split_okD(11) [OF ok nm(1) m]
    using e(1) by (simp add: rewired_def Let_def)
  show "active_moved (visited c g P) nm m \<longleftrightarrow> crosses g (node_of g nm) m \<and> m \<in> set (next_nodes_active (node_of g nm))"
    unfolding active_moved_def visited_node [OF m] visited_node [OF nm(1)] crosses_def rewired_sub split_okD(12) [OF ok nm(1) m]
    using e(2) by (simp add: rewired_def Let_def)
qed

lemma crosses_sym: "split_ok g \<Longrightarrow> m \<in> node_names g \<Longrightarrow> n \<in> node_names g \<Longrightarrow> crosses g (node_of g m) n = crosses g (node_of g n) m"
  by (auto simp: crosses_def)

text \<open>Replacing one more name in a list of predecessors.\<close>

lemma replace_more:
  assumes "nm \<notin> P" "\<forall>p\<in>set ps. dgsf p \<noteq> nm" "Q nm"
  shows "map (\<lambda>p. if p = nm then dgsf nm else p) (map (\<lambda>p. if p \<in> P \<and> Q p then dgsf p else p) ps)
       = map (\<lambda>p. if p \<in> insert nm P \<and> Q p then dgsf p else p) ps"
  using assms by (auto simp: comp_def)

lemma replace_none:
  "nm \<in> set ps \<longrightarrow> \<not> Q nm \<Longrightarrow> map (\<lambda>p. if p \<in> P \<and> Q p then dgsf p else p) ps = map (\<lambda>p. if p \<in> insert nm P \<and> Q p then dgsf p else p) ps"
  by auto

lemma visited_step:
  assumes ok: "split_ok g" and nm: "nm \<in> node_names g" "nm \<notin> P" and lv: "leaves g (node_of g nm)"
    and n: "n \<in> node_names g"
  shows "inserted c (visited c g P) nm n = visited c g (insert nm P) n"
proof -
  let ?x = "node_of g nm" and ?y = "node_of g n" and ?V = "visited c g P"
  have no: "dgsf q \<notin> node_names g" if "q \<in> node_names g" for q using split_okD(9) [OF ok that] .
  have gok: "graph_ok g" using ok by (simp add: split_ok_def)
  have names: "node_name ?x = nm" "node_name ?y = n" using node_of_ok(2) [OF gok] nm(1) n by blast+
  have nx: "next_nodes_data (?V nm) = next_nodes_data ?x" "next_nodes_active (?V nm) = next_nodes_active ?x" "chan_mode (?V nm) = chan_mode ?x"
    using nm names by (simp_all add: visited_node rewired_def Let_def)
  have ndn: "n \<noteq> dgsf nm" using no [OF nm(1)] n by auto
  have pd: "\<forall>p\<in>set (pre_nodes_data ?y). dgsf p \<noteq> nm" "\<forall>p\<in>set (pre_nodes_active ?y). dgsf p \<noteq> nm"
    using split_okD(3,4) [OF ok n] no nm(1) by blast+
  have mv: "data_moved ?V nm n \<longleftrightarrow> crosses g ?y nm \<and> nm \<in> set (pre_nodes_data ?y)"
    "active_moved ?V nm n \<longleftrightarrow> crosses g ?y nm \<and> nm \<in> set (pre_nodes_active ?y)"
    unfolding visited_moves [OF ok nm n] split_okD(11,12) [OF ok nm(1) n] crosses_sym [OF ok nm(1) n] by blast+
  have pre: "(if n \<in> set (next_nodes_data ?x) \<and> data_moved ?V nm n then map (\<lambda>p. if p = nm then dgsf nm else p) (pre_nodes_data (?V n)) else pre_nodes_data (?V n))
      = map (\<lambda>p. if p \<in> insert nm P \<and> crosses g ?y p then dgsf p else p) (pre_nodes_data ?y)"
    "(if n \<in> set (next_nodes_active ?x) \<and> active_moved ?V nm n then map (\<lambda>p. if p = nm then dgsf nm else p) (pre_nodes_active (?V n)) else pre_nodes_active (?V n))
      = map (\<lambda>p. if p \<in> insert nm P \<and> crosses g ?y p then dgsf p else p) (pre_nodes_active ?y)"
    unfolding mv split_okD(11,12) [OF ok nm(1) n]
    using replace_more [OF nm(2) pd(1), where Q = "crosses g ?y"] replace_more [OF nm(2) pd(2), where Q = "crosses g ?y"]
      replace_none [of nm "pre_nodes_data ?y" "crosses g ?y" P] replace_none [of nm "pre_nodes_active ?y" "crosses g ?y" P]
    by (auto simp: visited_node [OF n] rewired_def Let_def simp del: insert_iff)
  have fl: "filter (\<lambda>m. \<not> data_moved ?V nm m) (next_nodes_data ?x) = filter (\<lambda>m. \<not> crosses g ?x m) (next_nodes_data ?x)"
    "filter (\<lambda>m. \<not> active_moved ?V nm m) (next_nodes_active ?x) = filter (\<lambda>m. \<not> crosses g ?x m) (next_nodes_active ?x)"
    using visited_moves [OF ok nm] split_okD(1,2) [OF ok nm(1)] by (auto intro!: filter_cong)
  show ?thesis
  proof (cases "n = nm")
    case True
    show ?thesis
      unfolding inserted_def Let_def nx pre fl if_not_P [OF ndn] if_P [OF True]
      using True names lv nm by (simp add: visited_node rewired_def Let_def)
  next
    case False
    show ?thesis
      unfolding inserted_def Let_def nx pre if_not_P [OF ndn] if_not_P [OF False]
      using False names n by (simp add: visited_node rewired_def Let_def)
  qed
qed

lemma visited_same:
  assumes ok: "split_ok g" and nm: "nm \<in> node_names g" and lv: "\<not> leaves g (node_of g nm)" and n: "n \<in> node_names g"
  shows "visited c g P n = visited c g (insert nm P) n"
proof -
  let ?y = "node_of g n"
  have gok: "graph_ok g" using ok by (simp add: split_ok_def)
  have "\<not> crosses g ?y nm" if "nm \<in> set (pre_nodes_data ?y) \<or> nm \<in> set (pre_nodes_active ?y)"
    using that lv n unfolding crosses_sym [OF ok n nm] leaves_def succs_def split_okD(11,12) [OF ok nm n, symmetric] by auto
  then show ?thesis
    using node_of_ok(2) [OF gok n] lv
      replace_none [of nm "pre_nodes_data ?y" "crosses g ?y" P] replace_none [of nm "pre_nodes_active ?y" "crosses g ?y" P]
    by (auto simp: visited_node [OF n] rewired_def Let_def simp del: insert_iff)
qed

lemma pass_step:
  assumes ok: "split_ok g" and i: "i < length (nodes g)" "nm = node_name (nodes g ! i)" "nm \<notin> P"
    and Ls: "distinct Ls" "set Ls \<subseteq> P \<inter> node_names g" and t: "known_region t = known_region (ctrl_tree g)"
  shows "\<exists>t'. insert_DGSF c i (graph_of (map node_name (nodes g) @ map dgsf Ls) (visited c g P) t)
      = Inr (graph_of (map node_name (nodes g) @ map dgsf (Ls @ (if leaves g (nodes g ! i) then [nm] else []))) (visited c g (insert nm P)) t')
    \<and> known_region t' = known_region (ctrl_tree g)"
proof -
  let ?x = "nodes g ! i" and ?V = "visited c g P" and ?ns = "map node_name (nodes g) @ map dgsf Ls"
  have gok: "graph_ok g" using ok by (simp add: split_ok_def)
  have nm: "nm \<in> node_names g" using i by (simp add: node_names_def)
  have x: "node_of g nm = ?x" using node_of_name [OF gok] i by simp
  have no: "dgsf q \<notin> node_names g" if "q \<in> node_names g" for q using split_okD(9) [OF ok that] .
  have "distinct (map node_name (nodes g))" using gok by (simp add: graph_ok_def)
  moreover have "distinct (map dgsf Ls)" using Ls(1) by (simp add: distinct_map inj_on_def dgsf_inj)
  moreover have "set (map node_name (nodes g)) \<inter> set (map dgsf Ls) = {}" using Ls(2) no unfolding names_set by auto
  ultimately have ns: "distinct ?ns" by (simp only: distinct_append simp_thms)
  have "dgsf nm \<notin> set (map dgsf Ls)" using Ls(2) i(3) by (auto simp: dgsf_inj)
  then have dn: "dgsf nm \<notin> set ?ns" using no [OF nm] unfolding set_append names_set by blast
  have nth: "i < length ?ns" "nm = ?ns ! i" using i by (simp_all add: nth_append)
  have Vnm: "node_subgraphId (?V nm) = node_subgraphId ?x" "next_nodes_data (?V nm) = next_nodes_data ?x"
    "next_nodes_active (?V nm) = next_nodes_active ?x" "node_region (?V nm) = node_region ?x" "node_name (?V nm) = nm"
    unfolding visited_node [OF nm] x using i(3) i(2) [symmetric] by (simp_all add: rewired_def Let_def)
  have in_names: "set (next_nodes_data ?x @ next_nodes_active ?x) \<subseteq> node_names g" using split_okD(1,2) [OF ok nm] x by simp
  then have in_ns: "set (next_nodes_data ?x) \<subseteq> set ?ns" "set (next_nodes_active ?x) \<subseteq> set ?ns" unfolding set_append names_set by auto
  have sub: "node_subgraphId (?V m) = node_subgraphId (node_of g m)" if "m \<in> node_names g" for m by (simp add: visited_node [OF that])
  have out: "(\<exists>m\<in>set (next_nodes_data (?V nm) @ next_nodes_active (?V nm)). node_subgraphId (?V m) \<noteq> node_subgraphId (?V nm)) \<longleftrightarrow> leaves g ?x"
    unfolding Vnm leaves_def crosses_def succs_def using in_names sub by (intro bex_cong) auto
  have bnd: "?V n = visited c g (insert nm P) n" if n: "n \<notin> node_names g" for n using n by (simp add: visited_def)
  show ?thesis
  proof (cases "leaves g ?x")
    case True
    have dist: "\<forall>m\<in>set ?ns. distinct (pre_nodes_data (?V m)) \<and> distinct (pre_nodes_active (?V m))"
    proof
      fix m assume m: "m \<in> set ?ns"
      show "distinct (pre_nodes_data (?V m)) \<and> distinct (pre_nodes_active (?V m))"
      proof (cases "m \<in> node_names g")
        case True
        have inj: "inj_on (\<lambda>p. if Q p then dgsf p else p) (set ps)" if "set ps \<subseteq> node_names g" for Q ps
          using that no by (fastforce simp: inj_on_def dgsf_inj)
        show ?thesis using split_okD(3-5,7) [OF ok True] inj by (simp add: visited_node [OF True] rewired_def Let_def distinct_map)
      next
        case False
        then obtain q where "q \<in> set Ls" "m = dgsf q" using m unfolding set_append names_set by auto
        then show ?thesis using False by (simp add: visited_boundary boundary_def chan_node_new_def)
      qed
    qed
    have d: "distinct (next_nodes_data (?V nm))" "distinct (next_nodes_active (?V nm))"
      unfolding Vnm using split_okD(6,8) [OF ok nm] x by simp_all
    have reg: "known_region t (node_region (?V nm))" unfolding Vnm t using split_okD(10) [OF ok nm] x by simp
    from insert_run [OF ns nth dn Vnm(5) in_ns [folded Vnm(2,3)] d dist reg iffD2 [OF out True], of c] t
    obtain t' where run: "insert_DGSF c i (graph_of ?ns ?V t) = Inr (graph_of (?ns @ [dgsf nm]) (inserted c ?V nm) t')"
      "known_region t' = known_region (ctrl_tree g)" by auto
    have "inserted c ?V nm n = visited c g (insert nm P) n" if n: "n \<in> set (?ns @ [dgsf nm])" for n
    proof (cases "n \<in> node_names g")
      case n': True
      show ?thesis using visited_step [OF ok nm i(3) _ n'] True x by simp
    next
      case False
      show ?thesis
      proof (cases "n = dgsf nm")
        case eq: True
        have "filter (data_moved ?V nm) (next_nodes_data ?x) = filter (crosses g ?x) (next_nodes_data ?x)"
          "filter (active_moved ?V nm) (next_nodes_active ?x) = filter (crosses g ?x) (next_nodes_active ?x)"
          using visited_moves [OF ok nm i(3)] in_names x by (auto intro!: filter_cong)
        moreover have "chan_mode (?V nm) = chan_mode ?x" "node_name ?x = nm"
          unfolding visited_node [OF nm] x using i(3) i(2) [symmetric] by (simp_all add: rewired_def Let_def)
        ultimately show ?thesis unfolding eq using no [OF nm] by (simp add: visited_boundary x inserted_def Let_def Vnm boundary_def)
      next
        case neq: False
        have "n \<noteq> nm" "n \<notin> set (next_nodes_data ?x)" "n \<notin> set (next_nodes_active ?x)" using False nm in_names by auto
        then have "inserted c ?V nm n = ?V n" using neq by (simp add: inserted_def Let_def Vnm)
        with bnd [OF False] show ?thesis by simp
      qed
    qed
    then have "graph_of (?ns @ [dgsf nm]) (inserted c ?V nm) t' = graph_of (?ns @ [dgsf nm]) (visited c g (insert nm P)) t'"
      by (intro graph_of_cong) blast
    with run True show ?thesis by (intro exI [of _ t']) simp
  next
    case False
    have "leaves_subgraph (graph_of ?ns ?V t) (node_subgraphId (?V nm)) (next_nodes_data (?V nm) @ next_nodes_active (?V nm)) = Inr False"
      using leaves_of [OF ns, of "next_nodes_data (?V nm) @ next_nodes_active (?V nm)" ?V t] in_ns out False by (simp add: Vnm)
    moreover have "rnth (nodes (graph_of ?ns ?V t)) i = Inr (?V nm)" using nth by (simp add: graph_of_def del: map_append)
    ultimately have run: "insert_DGSF c i (graph_of ?ns ?V t) = Inr (graph_of ?ns ?V t)" by (simp add: insert_DGSF_def Let_def)
    have "\<not> leaves g (node_of g nm)" using False x by simp
    then have "?V n = visited c g (insert nm P) n" for n
      using visited_same [OF ok nm, of n] bnd [of n] by blast
    then have "graph_of ?ns ?V t = graph_of ?ns (visited c g (insert nm P)) t" by (intro graph_of_cong) blast
    with run False t show ?thesis by (intro exI [of _ t]) simp
  qed
qed

lemma pass_run:
  assumes ok: "split_ok g" and "set is \<subseteq> {..<length (nodes g)}" "distinct is"
    and "set Ls \<subseteq> P \<inter> node_names g" "distinct Ls" "known_region t = known_region (ctrl_tree g)"
    and "\<forall>i\<in>set is. node_name (nodes g ! i) \<notin> P"
  shows "\<exists>t'. rfold (insert_DGSF c) is (graph_of (map node_name (nodes g) @ map dgsf Ls) (visited c g P) t)
      = Inr (graph_of (map node_name (nodes g) @ map dgsf (Ls @ map node_name (filter (leaves g) (map ((!) (nodes g)) is))))
          (visited c g (P \<union> (\<lambda>i. node_name (nodes g ! i)) ` set is)) t')"
  using assms(2-)
proof (induction "is" arbitrary: Ls P t)
  case (Cons i "is")
  let ?x = "nodes g ! i" and ?nm = "node_name (nodes g ! i)"
  let ?Ls = "Ls @ (if leaves g ?x then [?nm] else [])"
  have i: "i < length (nodes g)" "?nm \<notin> P" using Cons.prems by auto
  have nm: "?nm \<in> node_names g" using i(1) by (simp add: node_names_def)
  obtain t' where step: "insert_DGSF c i (graph_of (map node_name (nodes g) @ map dgsf Ls) (visited c g P) t)
      = Inr (graph_of (map node_name (nodes g) @ map dgsf ?Ls) (visited c g (insert ?nm P)) t')" "known_region t' = known_region (ctrl_tree g)"
    using pass_step [OF ok i(1) refl i(2) Cons.prems(4,3,5), of c] by blast
  have "\<forall>j\<in>set is. node_name (nodes g ! j) \<notin> insert ?nm P"
  proof
    fix j assume j: "j \<in> set is"
    have d: "distinct (map node_name (nodes g))" using ok by (simp add: split_ok_def graph_ok_def)
    have "j < length (nodes g)" "j \<noteq> i" using j Cons.prems(1,2) by auto
    then have "node_name (nodes g ! j) \<noteq> ?nm" using i(1) nth_eq_iff_index_eq [OF d, of j i] by simp
    then show "node_name (nodes g ! j) \<notin> insert ?nm P" using Cons.prems(6) j by simp
  qed
  moreover have "set ?Ls \<subseteq> insert ?nm P \<inter> node_names g" "distinct ?Ls" using Cons.prems(3,4) nm i(2) by auto
  moreover have "set is \<subseteq> {..<length (nodes g)}" "distinct is" using Cons.prems by simp_all
  ultimately obtain t'' where "rfold (insert_DGSF c) is (graph_of (map node_name (nodes g) @ map dgsf ?Ls) (visited c g (insert ?nm P)) t')
      = Inr (graph_of (map node_name (nodes g) @ map dgsf (?Ls @ map node_name (filter (leaves g) (map ((!) (nodes g)) is))))
          (visited c g (insert ?nm P \<union> (\<lambda>i. node_name (nodes g ! i)) ` set is)) t'')"
    using Cons.IH step(2) by blast
  then show ?case using step(1) by (cases "leaves g ?x") auto
qed auto

lemma rfold_nested: "rfold (\<lambda>s. rfold f (h s)) ss x = rfold f (concat (map h ss)) x"
proof (induction ss arbitrary: x)
  case (Cons s ss)
  have "rfold (\<lambda>s. rfold f (h s)) ss = rfold f (concat (map h ss))" by (rule ext) (rule Cons)
  then show ?case by (simp add: rfold_append)
qed simp

text \<open>The node of the resulting graph, without the visited set.\<close>

definition inner :: "chan_node graph \<Rightarrow> chan_node \<Rightarrow> chan_node" where
  "inner g x = x\<lparr>pre_nodes_data := map (\<lambda>p. if crosses g x p then dgsf p else p) (pre_nodes_data x),
     pre_nodes_active := map (\<lambda>p. if crosses g x p then dgsf p else p) (pre_nodes_active x),
     next_nodes_data := filter (\<lambda>m. \<not> crosses g x m) (next_nodes_data x) @ (if leaves g x then [dgsf (node_name x)] else []),
     next_nodes_active := filter (\<lambda>m. \<not> crosses g x m) (next_nodes_active x),
     chan_mode := (if leaves g x \<and> chan_mode x = ''Keep_mode'' then ''Normal'' else chan_mode x)\<rparr>"

lemma rewired_all:
  assumes "split_ok g" "x \<in> set (nodes g)" "node_names g \<subseteq> P"
  shows "rewired g P x = inner g x"
proof -
  have gok: "graph_ok g" "node_name x \<in> node_names g" using assms(1,2) by (auto simp: split_ok_def node_names_def)
  have x: "node_of g (node_name x) = x" by (rule node_of_name [OF gok(1) assms(2)])
  note d = split_okD(1-4) [OF assms(1) gok(2), unfolded x]
  have "\<not> leaves g x \<Longrightarrow> filter (\<lambda>m. \<not> crosses g x m) (next_nodes_data x) = next_nodes_data x"
    "\<not> leaves g x \<Longrightarrow> filter (\<lambda>m. \<not> crosses g x m) (next_nodes_active x) = next_nodes_active x"
    by (auto simp: leaves_def succs_def intro!: filter_True)
  moreover have "map (\<lambda>p. if p \<in> P \<and> crosses g x p then dgsf p else p) ps = map (\<lambda>p. if crosses g x p then dgsf p else p) ps"
    if "set ps \<subseteq> node_names g" for ps using that assms(3) by auto
  ultimately show ?thesis using d gok(2) assms(3) by (auto simp: rewired_def inner_def Let_def)
qed

lemma nth_filter: "map ((!) xs) (filter (\<lambda>i. Q (xs ! i)) [0..<length xs]) = filter Q xs"
proof -
  have "filter Q (map ((!) xs) [0..<length xs]) = map ((!) xs) (filter (\<lambda>i. Q (xs ! i)) [0..<length xs])"
    by (simp add: filter_map comp_def)
  then show ?thesis by (simp add: map_nth)
qed

lemma distinct_classes:
  assumes "distinct l" "distinct ids"
  shows "distinct (concat (map (\<lambda>s. filter (\<lambda>i. F i = s) l) ids))"
  using assms(2) by (induction ids) (auto simp: assms(1))

lemma inner_facts [simp]: "node_name (inner g x) = node_name x" "node_subgraphId (inner g x) = node_subgraphId x"
  by (simp_all add: inner_def)

lemma boundary_facts [simp]: "node_name (boundary c g x) = dgsf (node_name x)" "node_subgraphId (boundary c g x) = node_subgraphId x"
  "cn_type (boundary c g x) = ''ChanDGSF''" "pre_nodes_data (boundary c g x) = [node_name x]"
  by (simp_all add: boundary_def chan_node_new_def)

lemma isolated:
  assumes ok: "split_ok g" and out: "set ns \<subseteq> set (nodes g)"
    and x: "x \<in> inner g ` set (nodes g) \<union> boundary c g ` set ns" and y: "y \<in> inner g ` set (nodes g) \<union> boundary c g ` set ns"
    and xy: "node_name y \<in> set (succs x)" "node_subgraphId y \<noteq> node_subgraphId x"
  shows "cn_type x = ''ChanDGSF'' \<and> (\<exists>p\<in>set (nodes g). pre_nodes_data x = [node_name p] \<and> node_subgraphId p = node_subgraphId x)"
proof (cases "x \<in> boundary c g ` set ns")
  case True
  then show ?thesis using out by auto
next
  case False
  then obtain u where u: "u \<in> set (nodes g)" "x = inner g u" using x by blast
  have gok: "graph_ok g" using ok by (simp add: split_ok_def)
  have no: "dgsf n \<notin> node_names g" if "n \<in> node_names g" for n using split_okD(9) [OF ok that] .
  have unm: "node_name u \<in> node_names g" using u(1) by (simp add: node_names_def)
  have "node_name y = dgsf (node_name u) \<or> node_name y \<in> set (succs u) \<and> \<not> crosses g u (node_name y)"
    using xy(1) unfolding u(2) by (auto simp: inner_def succs_def split: if_splits)
  then have "node_subgraphId y = node_subgraphId x"
  proof
    assume d: "node_name y = dgsf (node_name u)"
    have "node_name v \<in> node_names g" if "v \<in> inner g ` set (nodes g)" for v using that by (auto simp: node_names_def)
    then have "y \<notin> inner g ` set (nodes g)" using no [OF unm] d by metis
    then obtain z where z: "z \<in> set (nodes g)" "y = boundary c g z" using y out by blast
    then have "z = u" using d node_name_inj [OF gok z(1) u(1)] by (simp add: dgsf_inj)
    then show ?thesis using z u by simp
  next
    assume s: "node_name y \<in> set (succs u) \<and> \<not> crosses g u (node_name y)"
    have "node_name y \<in> node_names g" using s split_okD(1,2) [OF ok unm] node_of_name [OF gok u(1)] by (auto simp: succs_def)
    moreover have "node_name v \<notin> node_names g" if v: "v \<in> boundary c g ` set ns" for v
    proof -
      obtain w where "w \<in> set (nodes g)" "v = boundary c g w" using v out by blast
      then show ?thesis using no [of "node_name w"] by (simp add: node_names_def)
    qed
    ultimately have "y \<notin> boundary c g ` set ns" by blast
    then obtain z where z: "z \<in> set (nodes g)" "y = inner g z" using y by blast
    then show ?thesis using s u(2) node_of_name [OF gok z(1)] by (simp add: crosses_def)
  qed
  with xy(2) show ?thesis by simp
qed

text \<open>C25: for every order of the hash table the pass ends without an error, and its result is the graph in which
  each node that has a successor in another subgraph is followed by a boundary channel of its own
  subgraph, which takes over exactly those connections, at both ends and in their order, together with the
  mode \<open>Keep_mode\<close>; so only boundary channels are connected to another subgraph, and each has one
  predecessor, which lies in its own.\<close>

theorem boundaries_inserted:
  assumes "split_ok g" "distinct ids" "node_subgraphId ` set (nodes g) \<subseteq> set ids"
  shows "\<exists>g'. addChanDGSF c ids g = Inr g'
    \<and> nodes g' = map (inner g) (nodes g)
        @ map (boundary c g) (concat (map (\<lambda>s. filter (\<lambda>x. node_subgraphId x = s \<and> leaves g x) (nodes g)) ids))
    \<and> nodeIndexDict g' = zip (map node_name (nodes g')) [0..<length (nodes g')]
    \<and> (\<forall>x\<in>set (nodes g'). \<forall>y\<in>set (nodes g'). node_name y \<in> set (succs x) \<and> node_subgraphId y \<noteq> node_subgraphId x
         \<longrightarrow> cn_type x = ''ChanDGSF'' \<and> (\<exists>p\<in>set (nodes g). pre_nodes_data x = [node_name p] \<and> node_subgraphId p = node_subgraphId x))"
proof -
  let ?is = "concat (map (\<lambda>s. filter (\<lambda>i. node_subgraphId (nodes g ! i) = s) [0..<length (nodes g)]) ids)"
  let ?out = "concat (map (\<lambda>s. filter (\<lambda>x. node_subgraphId x = s \<and> leaves g x) (nodes g)) ids)"
  let ?names = "map node_name (nodes g)"
  have gok: "graph_ok g" using assms(1) by (simp add: split_ok_def)
  have set_is: "set ?is = {..<length (nodes g)}" using assms(3) by (auto simp: image_subset_iff)
  have "distinct ?is" using assms(2) by (intro distinct_classes) simp_all
  then obtain t where run: "rfold (insert_DGSF c) ?is (graph_of (?names @ map dgsf []) (visited c g {}) (ctrl_tree g))
      = Inr (graph_of (?names @ map dgsf ([] @ map node_name (filter (leaves g) (map ((!) (nodes g)) ?is))))
          (visited c g ({} \<union> (\<lambda>i. node_name (nodes g ! i)) ` set ?is)) t)"
    using pass_run [OF assms(1), of ?is "[]" "{}" "ctrl_tree g" c] set_is by auto
  have V0: "visited c g {} n = node_of g n" if "n \<in> set ?names" for n
    using that unfolding names_set by (simp add: visited_def rewired_def Let_def)
  have "g = graph_of ?names (visited c g {}) (ctrl_tree g)"
    using graph_of_ok [OF gok] graph_of_cong [of ?names "visited c g {}" "node_of g" "ctrl_tree g"] V0 by auto
  then have add: "addChanDGSF c ids g = rfold (insert_DGSF c) ?is (graph_of (?names @ map dgsf []) (visited c g {}) (ctrl_tree g))"
    unfolding addChanDGSF_def rfold_nested by simp
  have all: "{} \<union> (\<lambda>i. node_name (nodes g ! i)) ` set ?is = node_names g"
    unfolding set_is by (auto simp: node_names_def set_conv_nth)
  have flt: "filter (leaves g) (map ((!) (nodes g)) ?is) = ?out"
    by (simp add: map_concat filter_concat comp_def nth_filter [where Q = "\<lambda>x. node_subgraphId x = s" for s] conj_commute)
  have out: "set ?out \<subseteq> set (nodes g)" by auto
  have V1: "map (visited c g (node_names g)) ?names = map (inner g) (nodes g)"
    using rewired_all [OF assms(1)] node_of_name [OF gok] by (auto simp: visited_def node_names_def)
  have V2: "map (visited c g (node_names g)) (map dgsf (map node_name xs)) = map (boundary c g) xs" if "set xs \<subseteq> set (nodes g)" for xs
    using that split_okD(9) [OF assms(1)] node_of_name [OF gok] by (auto simp: visited_boundary node_names_def)
  let ?g = "graph_of (?names @ map dgsf (map node_name ?out)) (visited c g (node_names g)) t"
  have nodes: "nodes ?g = map (inner g) (nodes g) @ map (boundary c g) ?out"
    unfolding graph_of_def graph.select_convs map_append V1 V2 [OF out] ..
  have nm: "map node_name (nodes ?g) = ?names @ map dgsf (map node_name ?out)" unfolding nodes by (simp add: comp_def)
  have "nodeIndexDict ?g = zip (map node_name (nodes ?g)) [0..<length (nodes ?g)]"
    unfolding nm by (simp add: graph_of_def)
  moreover have "addChanDGSF c ids g = Inr ?g" unfolding add run all flt by simp
  ultimately show ?thesis using nodes isolated [OF assms(1) out] by (intro exI [of _ ?g]) auto
qed

text \<open>A node in the subgraph 0 that feeds one in its own subgraph and one in the subgraph 1.\<close>

definition splitDemo :: "chan_node graph" where
  "splitDemo = \<lparr>nodes = [(chan_node_new ''a'')\<lparr>node_region := ''top'', next_nodes_data := [''b'', ''c''], chan_mode := ''Keep_mode''\<rparr>,
      (chan_node_new ''b'')\<lparr>node_region := ''top'', pre_nodes_data := [''a'']\<rparr>,
      (chan_node_new ''c'')\<lparr>node_region := ''top'', pre_nodes_data := [''a''], node_subgraphId := 1\<rparr>],
    nodeIndexDict = [(''a'', 0), (''b'', 1), (''c'', 2)],
    ctrl_tree = \<lparr>controlRegionTable = [region_new ''top'' ''Loop'' True], controlRegionIndexDict = [''top'' \<mapsto> 0]\<rparr>\<rparr>"

lemma boundaries_inserted_witness:
  "\<exists>g'. addChanDGSF cfg_demo [1, 0] splitDemo = Inr g' \<and> map node_name (nodes g') = [''a'', ''b'', ''c'', ''a_DGSF'']
     \<and> next_nodes_data (nodes g' ! 0) = [''b'', ''a_DGSF''] \<and> pre_nodes_data (nodes g' ! 2) = [''a_DGSF'']
     \<and> next_nodes_data (nodes g' ! 3) = [''c''] \<and> chan_mode (nodes g' ! 3) = ''Keep_mode''"
proof -
  have three: "map node_name (nodes splitDemo) = [''a'', ''b'', ''c'']" "length (nodes splitDemo) = 3"
    by (simp_all add: splitDemo_def chan_node_new_def)
  have gok: "graph_ok splitDemo" by (simp add: graph_ok_def splitDemo_def chan_node_new_def upt_rec)
  have ok: "split_ok splitDemo"
    unfolding split_ok_def
    by (intro conjI gok) (simp_all add: known_names_def node_names_def splitDemo_def chan_node_new_def dgsf_def known_region_def)
  have n: "node_of splitDemo ''a'' = nodes splitDemo ! 0" "node_of splitDemo ''b'' = nodes splitDemo ! 1" "node_of splitDemo ''c'' = nodes splitDemo ! 2"
    by (simp_all add: node_of_def getNode_def findNodeIndex_def splitDemo_def)
  obtain g' where g': "addChanDGSF cfg_demo [1, 0] splitDemo = Inr g'"
    "nodes g' = map (inner splitDemo) (nodes splitDemo) @ map (boundary cfg_demo splitDemo)
       (concat (map (\<lambda>s. filter (\<lambda>x. node_subgraphId x = s \<and> leaves splitDemo x) (nodes splitDemo)) [1, 0]))"
    using boundaries_inserted [OF ok, of "[1, 0]" cfg_demo] by (auto simp: splitDemo_def chan_node_new_def)
  show ?thesis
    by (intro exI [of _ g'] conjI, rule g'(1))
      (simp_all add: g'(2) n splitDemo_def inner_def boundary_def leaves_def crosses_def succs_def dgsf_def chan_node_new_def
        node_of_def getNode_def findNodeIndex_def)
qed

end
