(* ===== verification/Loops.thy ===== *)
theory Loops
  imports ChannelClasses
begin

text \<open>
  The multiplexer (\<open>module/execution/Mux.cpp\<close>) and the control of a loop (\<open>module/execution/Lc.cpp\<close>), which
  are compositions of channels. A \<open>mux\<close> and an \<open>lc\<close> point to their channels in the heap; the multiplexers
  have a heap of their own.
\<close>

section \<open>Multiplexers\<close>

datatype mux_class = MuxBase | MuxSGMF (isLcMux: bool)

record mux =
  mux_moduleName :: string
  mux_masterName :: string
  mux_moduleId :: nat
  mux_subgraphId :: nat
  mux_sel :: bool
  muxSuccess :: bool
  trueChan :: nat
  falseChan :: nat
  outChan :: nat
  upstreamDataStatus :: data
  mux_kind :: mux_class

definition mux_new :: "string \<Rightarrow> nat \<Rightarrow> nat \<Rightarrow> nat \<Rightarrow> nat \<Rightarrow> mux" where
  "mux_new n i t f out = \<lparr>mux_moduleName = n, mux_masterName = [], mux_moduleId = i, mux_subgraphId = 0, mux_sel = False,
     muxSuccess = False, trueChan = t, falseChan = f, outChan = out, upstreamDataStatus = data0, mux_kind = MuxBase\<rparr>"

definition set_noUpstream :: "chan \<Rightarrow> chan res" where
  "set_noUpstream c = Inr (c\<lparr>noUpstream := (upstream c = [])\<rparr>)"

definition chan_addUpstream :: "nat option list \<Rightarrow> nat \<Rightarrow> heap \<Rightarrow> heap res" where
  "chan_addUpstream us p = modify p (\<lambda>c. Inr (addUpstream us c))"

definition chan_addDownstream :: "nat option list \<Rightarrow> nat \<Rightarrow> heap \<Rightarrow> heap res" where
  "chan_addDownstream ds p = modify p (\<lambda>c. Inr (addDownstream ds c))"

definition each :: "(nat \<Rightarrow> heap \<Rightarrow> heap res) \<Rightarrow> nat option list \<Rightarrow> heap \<Rightarrow> heap res" where
  "each f = rfold (\<lambda>p h. case p of None \<Rightarrow> Inl NullPointer | Some q \<Rightarrow> f q h)"

definition mux_addPort :: "nat option list \<Rightarrow> nat option list \<Rightarrow> nat option list \<Rightarrow> mux \<Rightarrow> heap \<Rightarrow> heap res" where
  "mux_addPort ts fs ds m h =
     rbind (chan_addUpstream ts (trueChan m) h) (\<lambda>h.
     rbind (chan_addUpstream fs (falseChan m) h) (\<lambda>h.
     rbind (chan_addDownstream ds (outChan m) h) (\<lambda>h.
     rbind (each (chan_addDownstream [Some (trueChan m)]) ts h) (\<lambda>h.
     rbind (each (chan_addDownstream [Some (falseChan m)]) fs h) (\<lambda>h.
     rbind (each (chan_addUpstream [Some (outChan m)]) ds h) (\<lambda>h.
     rbind (modify (trueChan m) set_noUpstream h) (modify (falseChan m) set_noUpstream)))))))"

fun mux_ready :: "bool \<Rightarrow> heap \<Rightarrow> nat list \<Rightarrow> bool res" where
  "mux_ready s h [] = Inr True"
| "mux_ready s h (u # us) = rbind (deref h u) (\<lambda>c.
     if (s \<or> \<not> isFeedback c) \<and> \<not> ch_valid c then Inr False else mux_ready s h us)"

definition merge_status :: "mux_class \<Rightarrow> chan \<Rightarrow> data \<Rightarrow> data" where
  "merge_status kind c d = (case channel c of [] \<Rightarrow> d
     | f # _ \<Rightarrow> let d = d\<lparr>d_last := d_last d \<or> d_last f, d_lastOuter := d_lastOuter d \<or> d_lastOuter f,
                     d_graphSwitch := d_graphSwitch d \<or> d_graphSwitch f\<rparr> in
         (case kind of MuxSGMF _ \<Rightarrow> (if \<not> keepMode c then d\<lparr>d_tag := d_tag f\<rparr> else d) | MuxBase \<Rightarrow> d))"

definition recordDataStatus :: "nat list \<Rightarrow> heap \<Rightarrow> mux \<Rightarrow> mux res" where
  "recordDataStatus us h m =
     rbind (rfold (\<lambda>u d. rbind (deref h u) (\<lambda>c. Inr (merge_status (mux_kind m) c d))) us
       ((upstreamDataStatus m)\<lparr>d_last := False, d_lastOuter := False, d_graphSwitch := False\<rparr>)) (\<lambda>d.
     Inr (m\<lparr>upstreamDataStatus := (if mux_kind m = MuxSGMF True \<and> \<not> mux_sel m then d\<lparr>d_tag := 0\<rparr> else d)\<rparr>))"

definition mux_checkUpstream :: "nat list \<Rightarrow> heap \<Rightarrow> mux \<Rightarrow> (bool \<times> mux) res" where
  "mux_checkUpstream us h m =
     (if us \<noteq> []
      then rbind (mux_ready (mux_sel m) h us) (\<lambda>r.
        if r then rbind (recordDataStatus us h m) (\<lambda>m. Inr (True, m)) else Inr (False, m))
      else Inr (True, m))"

definition set_back :: "data \<Rightarrow> chan \<Rightarrow> chan" where
  "set_back d c = c\<lparr>channel := butlast (channel c) @
     [(last (channel c))\<lparr>d_last := d_last d, d_lastOuter := d_lastOuter d, d_graphSwitch := d_graphSwitch d\<rparr>]\<rparr>"

definition base_pushOutChan :: "config \<Rightarrow> mux \<Rightarrow> clkDomain \<times> heap \<Rightarrow> (clkDomain \<times> heap) res" where
  "base_pushOutChan g m s = rbind (get_data g [1] (outChan m) s) (\<lambda>(k, h).
     rbind (modify (outChan m) (\<lambda>c. if channel c = [] then Inl EmptyFront else Inr (set_back (upstreamDataStatus m) c)) h) (\<lambda>h. Inr (k, h)))"

definition sgmf_pushOutChan :: "config \<Rightarrow> mux \<Rightarrow> clkDomain \<times> heap \<Rightarrow> (clkDomain \<times> heap) res" where
  "sgmf_pushOutChan g m = (\<lambda>(k, h). rbind (deref h (outChan m)) (\<lambda>c. rbind (rnth (downstream c) 0) (\<lambda>q. rbind (deref h q) (\<lambda>d.
     rbind (sgmf_get_data g [1] (if isLoopVar d then 0 else d_tag (upstreamDataStatus m)) (outChan m) (k, h)) (\<lambda>(k, h).
     rbind (modify (outChan m) (\<lambda>c. Inr (if channel c = [] then c else set_back (upstreamDataStatus m) c)) h) (\<lambda>h. Inr (k, h)))))))"

definition pushOutChan :: "config \<Rightarrow> mux \<Rightarrow> clkDomain \<times> heap \<Rightarrow> (clkDomain \<times> heap) res" where
  "pushOutChan g m = (case mux_kind m of MuxBase \<Rightarrow> base_pushOutChan g m | MuxSGMF _ \<Rightarrow> sgmf_pushOutChan g m)"

text \<open>Back pressure: a consumer of \<open>outChan\<close> that is not in a feedback loop has no room.\<close>

fun mux_stalled :: "heap \<Rightarrow> nat \<Rightarrow> nat list \<Rightarrow> bool res" where
  "mux_stalled h p [] = Inr False"
| "mux_stalled h p (q # qs) = rbind (deref h q) (\<lambda>c. rbind (getChanId p c) (\<lambda>b.
     rbind (if isFeedback c then Inr False else rnth (bp c) b) (\<lambda>s. if s then Inr True else mux_stalled h p qs)))"

definition set_bp :: "bool \<Rightarrow> chan \<Rightarrow> chan res" where
  "set_bp b c = Inr (c\<lparr>bp := map (\<lambda>_. b) (bp c)\<rparr>)"

definition mux_base_bpUpdate :: "mux \<Rightarrow> heap \<Rightarrow> heap res" where
  "mux_base_bpUpdate m h = rbind (deref h (outChan m)) (\<lambda>c. rbind (mux_stalled h (outChan m) (downstream c)) (\<lambda>s.
     rbind (modify (trueChan m) (set_bp s) h) (modify (falseChan m) (set_bp s))))"

fun tag_blocked :: "heap \<Rightarrow> nat \<Rightarrow> data \<Rightarrow> nat list \<Rightarrow> bool res" where
  "tag_blocked h p d [] = Inr False"
| "tag_blocked h p d (q # qs) = rbind (deref h q) (\<lambda>c.
     if isFeedback c then tag_blocked h p d qs
     else rbind (checkSend h q d p) (\<lambda>s. if \<not> s then Inr True else tag_blocked h p d qs))"

definition set_slot :: "nat \<Rightarrow> bool \<Rightarrow> chan \<Rightarrow> chan res" where
  "set_slot i b c = rbind (rmap (\<lambda>q. rbind (rnth q i) (\<lambda>s. Inr (q[i := s\<lparr>d_valid := b\<rparr>]))) (chanBuffer c))
     (\<lambda>qs. Inr (c\<lparr>chanBuffer := qs\<rparr>))"

definition tags_of :: "chan \<Rightarrow> nat res" where
  "tags_of c = (case sub c of ChanSGMF _ ts _ \<Rightarrow> Inr ts | _ \<Rightarrow> Inl NullPointer)"

definition mux_sgmf_bpUpdate :: "mux \<Rightarrow> heap \<Rightarrow> heap res" where
  "mux_sgmf_bpUpdate m h = rbind (deref h (trueChan m)) (\<lambda>c. rbind (tags_of c) (\<lambda>ts.
     rfold (\<lambda>i h. rbind (deref h (outChan m)) (\<lambda>out.
       rbind (tag_blocked h (outChan m) (data0\<lparr>d_tag := of_nat i\<rparr>) (downstream out)) (\<lambda>b.
       rbind (modify (trueChan m) (set_slot i b) h) (modify (falseChan m) (set_slot i b))))) [0..<ts] h))"

definition mux_bpUpdate :: "mux \<Rightarrow> heap \<Rightarrow> heap res" where
  "mux_bpUpdate m = (case mux_kind m of MuxBase \<Rightarrow> mux_base_bpUpdate m | MuxSGMF _ \<Rightarrow> mux_sgmf_bpUpdate m)"

definition muxUpdate :: "config \<Rightarrow> bool \<Rightarrow> mux \<Rightarrow> clkDomain \<times> heap \<Rightarrow> (mux \<times> clkDomain \<times> heap) res" where
  "muxUpdate g s m = (\<lambda>(k, h). let m = m\<lparr>mux_sel := s\<rparr> in
     rbind (modify (outChan m) (pop h) h) (\<lambda>h. rbind (statusUpdate g (clk k) (outChan m) h) (\<lambda>h.
     rbind (deref h (if s then trueChan m else falseChan m)) (\<lambda>c.
     rbind (mux_checkUpstream (upstream c) h m) (\<lambda>(r, m).
     rbind (if r then pushOutChan g m (k, h) else Inr (k, h)) (\<lambda>(k, h).
     rbind (mux_bpUpdate m h) (\<lambda>h. Inr (m\<lparr>muxSuccess := r\<rparr>, k, h))))))))"

definition mux_value :: "i32 \<Rightarrow> i32 \<Rightarrow> bool \<Rightarrow> i32" where
  "mux_value t f s = (if s then t else f)"

section \<open>Loop control\<close>

record lc =
  lc_moduleName :: string
  lc_masterName :: string
  lc_moduleId :: nat
  lc_sel :: bool
  loopNum :: nat
  loopEnd :: nat
  loopNumQ :: "nat list"
  isOuterMostLoop :: bool
  lc_subgraphId :: nat
  getEnd :: nat
  sendEnd :: nat
  loopVar :: nat
  lc_mux :: nat

definition lc_new :: "string \<Rightarrow> nat \<Rightarrow> nat \<Rightarrow> nat \<Rightarrow> nat \<Rightarrow> nat \<Rightarrow> lc" where
  "lc_new n i m v ge se = \<lparr>lc_moduleName = n, lc_masterName = [], lc_moduleId = i, lc_sel = False, loopNum = 0, loopEnd = 0,
     loopNumQ = [], isOuterMostLoop = False, lc_subgraphId = 0, getEnd = ge, sendEnd = se, loopVar = v, lc_mux = m\<rparr>"

definition lc_addPort :: "nat option list \<Rightarrow> nat option list \<Rightarrow> nat option list \<Rightarrow> nat option list \<Rightarrow> lc \<Rightarrow> heap \<Rightarrow> heap res" where
  "lc_addPort ga sa ge se l h =
     rbind (chan_addUpstream ga (loopVar l) h) (\<lambda>h. rbind (chan_addDownstream sa (loopVar l) h) (\<lambda>h.
     rbind (chan_addUpstream ge (getEnd l) h) (chan_addDownstream se (sendEnd l))))"

definition addDependence :: "nat option list \<Rightarrow> nat option list \<Rightarrow> mux \<Rightarrow> heap \<Rightarrow> heap res" where
  "addDependence is us m h =
     rbind (chan_addUpstream is (falseChan m) h) (\<lambda>h. rbind (chan_addUpstream us (trueChan m) h) (\<lambda>h.
     rbind (modify (trueChan m) set_noUpstream h) (modify (falseChan m) set_noUpstream)))"

definition getEndUpdate :: "config \<Rightarrow> lc \<Rightarrow> clkDomain \<times> heap \<Rightarrow> (lc \<times> clkDomain \<times> heap) res" where
  "getEndUpdate g l s = rbind (get g (getEnd l) s) (\<lambda>(k, h). rbind (deref h (getEnd l)) (\<lambda>c.
     Inr (if channel c \<noteq> [] then l\<lparr>loopEnd := loopEnd l + 1\<rparr> else l, k, h)))"

definition loop_over :: "lc \<Rightarrow> bool" where
  "loop_over l \<longleftrightarrow> loopNumQ l \<noteq> [] \<and> loopEnd l = hd (loopNumQ l)"

definition sendEndUpdate :: "config \<Rightarrow> lc \<Rightarrow> clkDomain \<times> heap \<Rightarrow> (lc \<times> clkDomain \<times> heap) res" where
  "sendEndUpdate g l = (\<lambda>(k, h). rbind (deref h (sendEnd l)) (\<lambda>c.
     rbind (if ch_valid c \<and> enable c
            then rbind (modify (sendEnd l) (pop h) h) (statusUpdate g (clk k) (sendEnd l)) else Inr h) (\<lambda>h.
     if loop_over l
     then rbind (get_data g [1] (sendEnd l) (k, h)) (\<lambda>(k, h). Inr (l\<lparr>loopNumQ := tl (loopNumQ l), loopEnd := 0\<rparr>, k, h))
     else Inr (l, k, h))))"

definition count_loops :: "bool \<Rightarrow> lc \<Rightarrow> lc" where
  "count_loops v l = (if v
     then (let l = l\<lparr>loopNum := loopNum l + 1\<rparr> in
       if \<not> lc_sel l then l\<lparr>loopNumQ := loopNumQ l @ [loopNum l], loopNum := 0\<rparr> else l)
     else l)"

definition mark_last :: "lc \<Rightarrow> chan \<Rightarrow> chan" where
  "mark_last l c = (if channel c \<noteq> [] \<and> \<not> lc_sel l
     then c\<lparr>channel := (hd (channel c))\<lparr>d_last := True, d_lastOuter := isOuterMostLoop l \<or> d_lastOuter (hd (channel c))\<rparr> # tl (channel c)\<rparr>
     else c)"

definition loopUpdate :: "lc \<Rightarrow> heap \<Rightarrow> (lc \<times> heap) res" where
  "loopUpdate l h = rbind (deref h (loopVar l)) (\<lambda>c. let l = count_loops (ch_valid c) l; c = mark_last l c; h = h[loopVar l := c] in
     rbind (if ch_valid c then rbind (rfront (channel c)) (\<lambda>f. Inr (d_last f)) else Inr False) (\<lambda>b.
     rbind (if b then sendLastTag (loopVar l) h else Inr h) (\<lambda>h. Inr (l, h))))"

definition selUpdate :: "bool \<Rightarrow> mux list \<Rightarrow> heap \<Rightarrow> lc \<Rightarrow> lc res" where
  "selUpdate s ms h l = rbind (deref ms (lc_mux l)) (\<lambda>m. rbind (deref h (loopVar l)) (\<lambda>c.
     Inr (if muxSuccess m \<or> channel c \<noteq> [] then l\<lparr>lc_sel := s\<rparr> else l)))"

definition lcUpdate :: "config \<Rightarrow> bool \<Rightarrow> mux list \<Rightarrow> lc \<Rightarrow> clkDomain \<times> heap \<Rightarrow> (lc \<times> clkDomain \<times> heap) res" where
  "lcUpdate g s ms l = (\<lambda>(k, h). rbind (selUpdate s ms h l) (\<lambda>l. rbind (loopUpdate l h) (\<lambda>(l, h).
     rbind (getEndUpdate g l (k, h)) (\<lambda>(l, k, h). sendEndUpdate g l (k, h)))))"

end
