(* ===== verification/Registry.thy ===== *)
theory Registry
  imports Loops GraphOrder MemSystem
begin

text \<open>
  The registry of the modules (\<open>module/Registry.cpp\<close>): it creates the channels, multiplexers, loop controls
  and load/store units of a graph of channels, connects them and initialises them. The objects that the
  code allocates live in three heaps; the table of the registry holds pointers to them.
\<close>

section \<open>State\<close>

datatype moduleType = ModuleChannel | ModuleLc | ModuleMux

record entry =
  chanPtr :: "nat option"
  lcPtr :: "nat option"
  muxPtr :: "nat option"
  e_moduleId :: nat
  e_moduleType :: moduleType
  e_moduleName :: string

record registry =
  moduleCnt :: nat
  registryTable :: "entry list"
  registryDict :: "(string \<times> nat) list"
  vecChanDGSF :: "nat list"
  r_chans :: heap
  r_muxes :: "mux list"
  r_lcs :: "lc list"
  memSys :: memSystem

definition registry_new :: "memSystem \<Rightarrow> registry" where
  "registry_new ms = \<lparr>moduleCnt = 0, registryTable = [], registryDict = [], vecChanDGSF = [],
     r_chans = [], r_muxes = [], r_lcs = [], memSys = ms\<rparr>"

definition on_chan :: "nat \<Rightarrow> (chan \<Rightarrow> chan) \<Rightarrow> registry \<Rightarrow> registry res" where
  "on_chan p f r = rbind (modify p (\<lambda>c. Inr (f c)) (r_chans r)) (\<lambda>h. Inr (r\<lparr>r_chans := h\<rparr>))"

definition on_heap :: "(heap \<Rightarrow> heap res) \<Rightarrow> registry \<Rightarrow> registry res" where
  "on_heap f r = rbind (f (r_chans r)) (\<lambda>h. Inr (r\<lparr>r_chans := h\<rparr>))"

section \<open>Registration\<close>

definition enter :: "entry \<Rightarrow> registry \<Rightarrow> nat \<times> registry" where
  "enter e r = (moduleCnt r, r\<lparr>registryTable := registryTable r @ [e\<lparr>e_moduleId := moduleCnt r\<rparr>], moduleCnt := moduleCnt r + 1\<rparr>)"

definition register_unnamed :: "entry \<Rightarrow> registry \<Rightarrow> (nat \<times> registry) res" where
  "register_unnamed e r = (if length (registryTable r) \<noteq> moduleCnt r
     then Inl (Throw ''Registry moduleId is not equal to regisTable entryId!'') else Inr (enter e r))"

definition register_named :: "string \<Rightarrow> entry \<Rightarrow> registry \<Rightarrow> (nat \<times> registry) res" where
  "register_named n e r = (if length (registryTable r) \<noteq> moduleCnt r
     then Inl (Throw ''Registry moduleId is not equal to regisTable entryId!'')
     else if map_of (registryDict r) n \<noteq> None
     then Inl (Throw ''There already has a same name module in registryDict!'')
     else Inr (enter (e\<lparr>e_moduleName := n\<rparr>) (r\<lparr>registryDict := registryDict r @ [(n, length (registryTable r))]\<rparr>)))"

definition chan_entry :: "nat \<Rightarrow> entry" where
  "chan_entry p = \<lparr>chanPtr = Some p, lcPtr = None, muxPtr = None, e_moduleId = 0, e_moduleType = ModuleChannel, e_moduleName = []\<rparr>"

definition lc_entry :: "nat \<Rightarrow> entry" where
  "lc_entry p = \<lparr>chanPtr = None, lcPtr = Some p, muxPtr = None, e_moduleId = 0, e_moduleType = ModuleLc, e_moduleName = []\<rparr>"

definition mux_entry :: "nat \<Rightarrow> entry" where
  "mux_entry p = \<lparr>chanPtr = None, lcPtr = None, muxPtr = Some p, e_moduleId = 0, e_moduleType = ModuleMux, e_moduleName = []\<rparr>"

definition registerChan0 :: "nat \<Rightarrow> registry \<Rightarrow> (nat \<times> registry) res" where
  "registerChan0 p = register_unnamed (chan_entry p)"

definition registerLc0 :: "nat \<Rightarrow> registry \<Rightarrow> (nat \<times> registry) res" where
  "registerLc0 p = register_unnamed (lc_entry p)"

definition registerMux0 :: "nat \<Rightarrow> registry \<Rightarrow> (nat \<times> registry) res" where
  "registerMux0 p = register_unnamed (mux_entry p)"

definition registerChan :: "string \<Rightarrow> nat \<Rightarrow> registry \<Rightarrow> (nat \<times> registry) res" where
  "registerChan n p = register_named n (chan_entry p)"

definition registerLc :: "string \<Rightarrow> nat \<Rightarrow> registry \<Rightarrow> (nat \<times> registry) res" where
  "registerLc n p = register_named n (lc_entry p)"

definition registerMux :: "string \<Rightarrow> nat \<Rightarrow> registry \<Rightarrow> (nat \<times> registry) res" where
  "registerMux n p = register_named n (mux_entry p)"

text \<open>\<open>registryDict[name]\<close> inserts the entry 0 when there is none.\<close>

definition dict_index :: "string \<Rightarrow> registry \<Rightarrow> nat \<times> registry" where
  "dict_index n r = (case map_of (registryDict r) n of Some i \<Rightarrow> (i, r) | None \<Rightarrow> (0, r\<lparr>registryDict := registryDict r @ [(n, 0)]\<rparr>))"

definition get_ptr :: "(entry \<Rightarrow> nat option) \<Rightarrow> string \<Rightarrow> registry \<Rightarrow> (nat option \<times> registry) res" where
  "get_ptr f n r = (let (i, r) = dict_index n r in rbind (rnth (registryTable r) i) (\<lambda>e. Inr (f e, r)))"

definition getChan :: "string \<Rightarrow> registry \<Rightarrow> (nat option \<times> registry) res" where
  "getChan = get_ptr chanPtr"

definition getLc :: "string \<Rightarrow> registry \<Rightarrow> (nat option \<times> registry) res" where
  "getLc = get_ptr lcPtr"

definition getMux :: "string \<Rightarrow> registry \<Rightarrow> (nat option \<times> registry) res" where
  "getMux = get_ptr muxPtr"

definition the_ptr :: "nat option \<Rightarrow> nat res" where
  "the_ptr p = (case p of None \<Rightarrow> Inl NullPointer | Some q \<Rightarrow> Inr q)"

definition getLse :: "string \<Rightarrow> registry \<Rightarrow> (nat \<times> registry) res" where
  "getLse n r = rbind (getChan n r) (\<lambda>(p, r). rbind (the_ptr p) (\<lambda>p. rbind (deref (r_chans r) p) (\<lambda>c.
     case sub c of ChanLse _ \<Rightarrow> Inr (p, r) | _ \<Rightarrow> Inl (Throw ''This module is not a Lse!''))))"

definition findRegistryEntryIndex :: "string \<Rightarrow> registry \<Rightarrow> nat res" where
  "findRegistryEntryIndex n r = (case map_of (registryDict r) n of None \<Rightarrow> Inl (Throw ''Not find this module!'') | Some i \<Rightarrow> Inr i)"

definition getRegistryTableEntry :: "string \<Rightarrow> registry \<Rightarrow> entry res" where
  "getRegistryTableEntry n r = rbind (findRegistryEntryIndex n r) (rnth (registryTable r))"

section \<open>Creation of the modules\<close>

definition new_chan :: "string \<Rightarrow> nat \<Rightarrow> u64 \<Rightarrow> nat \<Rightarrow> subobject \<Rightarrow> registry \<Rightarrow> (nat \<times> registry) res" where
  "new_chan n sz cyc spd s r = (let p = length (r_chans r) in rbind (registerChan n p r) (\<lambda>(i, r).
     Inr (p, r\<lparr>r_chans := r_chans r @ [(chan_new i sz cyc spd s)\<lparr>moduleName := n\<rparr>]\<rparr>)))"

definition new_sub_chan :: "string \<Rightarrow> string \<Rightarrow> (chan \<Rightarrow> chan) \<Rightarrow> registry \<Rightarrow> (nat \<times> registry) res" where
  "new_sub_chan n suffix f r = rbind (new_chan (n @ suffix) 2 0 1 ChanBase r) (\<lambda>(p, r).
     rbind (on_chan p (\<lambda>c. f (c\<lparr>masterName := n\<rparr>)) r) (\<lambda>r. Inr (p, r)))"

definition new_mux :: "string \<Rightarrow> registry \<Rightarrow> (nat \<times> registry) res" where
  "new_mux n r = (let p = length (r_muxes r) in rbind (registerMux n p r) (\<lambda>(i, r).
     rbind (new_sub_chan n ''_trueChan'' (\<lambda>c. c\<lparr>noDownstream := True\<rparr>) r) (\<lambda>(t, r).
     rbind (new_sub_chan n ''_falseChan'' (\<lambda>c. c\<lparr>noDownstream := True\<rparr>) r) (\<lambda>(f, r).
     rbind (new_sub_chan n ''_outChan'' (\<lambda>c. c\<lparr>noUpstream := True\<rparr>) r) (\<lambda>(out, r).
       Inr (p, r\<lparr>r_muxes := r_muxes r @ [mux_new n i t f out]\<rparr>))))))"

definition new_lc :: "string \<Rightarrow> registry \<Rightarrow> (nat \<times> registry) res" where
  "new_lc n r = (let p = length (r_lcs r) in rbind (registerLc n p r) (\<lambda>(i, r).
     rbind (new_mux (n @ ''_mux'') r) (\<lambda>(m, r). let r = r\<lparr>r_muxes := (r_muxes r)[m := (r_muxes r ! m)\<lparr>mux_masterName := n\<rparr>]\<rparr> in
     rbind (new_sub_chan n ''_loopVar'' (\<lambda>c. c\<lparr>enable := True, isLoopVar := True, isFeedback := True\<rparr>) r) (\<lambda>(v, r).
     rbind (new_sub_chan n ''_getEnd'' (\<lambda>c. c\<lparr>enable := True, noDownstream := True\<rparr>) r) (\<lambda>(ge, r).
     rbind (new_sub_chan n ''_sendEnd'' (\<lambda>c. c\<lparr>enable := True, noUpstream := True\<rparr>) r) (\<lambda>(se, r).
       Inr (p, r\<lparr>r_lcs := r_lcs r @ [lc_new n i m v ge se]\<rparr>)))))))"

definition genLc :: "chan_node \<Rightarrow> registry \<Rightarrow> (nat \<times> registry) res" where
  "genLc x r = rbind (new_lc (node_name x) r) (\<lambda>(p, r). rbind (deref (r_lcs r) p) (\<lambda>l. rbind (deref (r_muxes r) (lc_mux l)) (\<lambda>m.
     rbind (on_heap (mux_addPort [Some (loopVar l)] [] [Some (loopVar l)] m) r) (\<lambda>r. Inr (p, r)))))"

definition genLcOuterMost :: "chan_node \<Rightarrow> registry \<Rightarrow> (nat \<times> registry) res" where
  "genLcOuterMost x r = rbind (genLc x r) (\<lambda>(p, r). Inr (p, r\<lparr>r_lcs := (r_lcs r)[p := (r_lcs r ! p)\<lparr>isOuterMostLoop := True\<rparr>]\<rparr>))"

definition set_mode :: "string \<Rightarrow> chan \<Rightarrow> chan" where
  "set_mode mode c = (if mode = ''Keep_mode'' then c\<lparr>keepMode := True\<rparr>
     else if mode = ''Drain_mode'' then c\<lparr>drainMode := True\<rparr> else c)"

definition new_node_chan :: "chan_node \<Rightarrow> subobject \<Rightarrow> registry \<Rightarrow> (nat \<times> registry) res" where
  "new_node_chan x = new_chan (node_name x) (cn_size x) (of_nat (cn_cycle x)) (cn_speedup x)"

definition genChan :: "chan_node \<Rightarrow> registry \<Rightarrow> (nat option \<times> registry) res" where
  "genChan x r =
     rbind (if node_name x = ''Chan_begin'' \<or> node_name x = ''Chan_end''
            then rbind (new_chan (node_name x) 1 0 1 ChanBase r) (\<lambda>(p, r). Inr (Some p, r))
            else if cn_type x = ''ChanBase''
            then rbind (new_node_chan x ChanBase r) (\<lambda>(p, r). rbind (on_chan p (set_mode (chan_mode x)) r) (\<lambda>r. Inr (Some p, r)))
            else if cn_type x = ''ChanDGSF''
            then rbind (new_node_chan x (ChanDGSF False []) r) (\<lambda>(p, r). rbind (on_chan p (set_mode (chan_mode x)) r) (\<lambda>r. Inr (Some p, r)))
            else if cn_type x = ''ChanPartialMux''
            then rbind (new_node_chan x ChanPartialMux r) (\<lambda>(p, r). Inr (Some p, r))
            else Inr (None, r)) (\<lambda>(p, r). case p of
       None \<Rightarrow> Inr (None, r)
     | Some q \<Rightarrow> rbind (on_chan q (\<lambda>c. c\<lparr>ch_isPhysicalChan := isPhysicalChan x\<rparr>) r) (\<lambda>r. Inr (Some q, r)))"

definition new_lse :: "chan_node \<Rightarrow> bool \<Rightarrow> registry \<Rightarrow> (nat \<times> registry) res" where
  "new_lse x w r = (let (i, ms) = registerLse (length (r_chans r)) (memSys r) in
     rbind (new_node_chan x (ChanLse (lse_new (cn_size x) (cn_speedup x) w i)) r) (\<lambda>(p, r). Inr (p, r\<lparr>memSys := ms\<rparr>)))"

definition genLse :: "chan_node \<Rightarrow> registry \<Rightarrow> (nat option \<times> registry) res" where
  "genLse x r = (if cn_type x = ''Lse_ld'' then rbind (new_lse x False r) (\<lambda>(p, r). Inr (Some p, r))
     else if cn_type x = ''Lse_st'' then rbind (new_lse x True r) (\<lambda>(p, r). Inr (Some p, r))
     else Inr (None, r))"

definition genMux :: "chan_node \<Rightarrow> registry \<Rightarrow> (nat \<times> registry) res" where
  "genMux x = new_mux (node_name x)"

text \<open>The nodes behind a channel in keepMode, or in front of one in drainMode, lie in the same region.\<close>

definition same_region :: "string \<Rightarrow> chan_node graph \<Rightarrow> string list \<Rightarrow> string res" where
  "same_region msg g ns = rfold (\<lambda>n reg. rbind (getNode g n) (\<lambda>y.
     if reg = [] then Inr (node_region y) else if reg \<noteq> node_region y then Inl (Throw msg) else Inr reg)) ns []"

definition checkNodeRule :: "chan_node graph \<Rightarrow> string \<Rightarrow> unit res" where
  "checkNodeRule g n = rbind (getNode g n) (\<lambda>x.
     rbind (if chan_mode x = ''Keep_mode''
            then if cn_type x = ''Lse_ld'' \<or> cn_type x = ''Lse_st''
                 then Inl (Throw (''Lse '' @ node_name x @ '' can not be set in keepMode, need insert a shadow channel !''))
                 else same_region (''The nextNode's ctrlRegions of '' @ node_name x @ '' are not same, need insert a shadow channel'')
                   g (next_nodes_data x @ next_nodes_active x)
            else Inr []) (\<lambda>_.
     rbind (if chan_mode x = ''Drain_mode''
            then same_region (''The preNode's ctrlRegions of '' @ node_name x @ '' are not same, need insert a shadow channel'')
              g (pre_nodes_data x @ pre_nodes_active x)
            else Inr []) (\<lambda>_. Inr ())))"

definition set_branch :: "controlRegion \<Rightarrow> chan \<Rightarrow> chan" where
  "set_branch reg c = (if controlType reg = ''Branch'' then c\<lparr>branchMode := True, channelCond := branchPath reg\<rparr> else c)"

definition gen_chan_module :: "chan_node \<Rightarrow> controlRegion \<Rightarrow> registry \<Rightarrow> registry res" where
  "gen_chan_module x reg r = rbind (genChan x r) (\<lambda>(p, r). rbind (the_ptr p) (\<lambda>p.
     on_chan p (\<lambda>c. let c = set_branch reg (c\<lparr>subgraphId := node_subgraphId x\<rparr>) in
       if cn_op x = ''Cmp'' then c\<lparr>isCond := True\<rparr> else c) r))"

definition gen_lc_module :: "chan_node \<Rightarrow> controlRegion \<Rightarrow> registry \<Rightarrow> registry res" where
  "gen_lc_module x reg r = (let outer = upperControlRegion reg = [] in
     rbind (if outer then genLcOuterMost x r else genLc x r) (\<lambda>(p, r). rbind (deref (r_lcs r) p) (\<lambda>l.
     on_chan (loopVar l) (\<lambda>c. let c = c\<lparr>subgraphId := node_subgraphId x, speedup := cn_speedup x\<rparr> in
         if outer then c else set_branch reg c)
       (r\<lparr>r_lcs := (r_lcs r)[p := l\<lparr>lc_subgraphId := node_subgraphId x\<rparr>]\<rparr>))))"

definition gen_lse_module :: "chan_node \<Rightarrow> controlRegion \<Rightarrow> registry \<Rightarrow> registry res" where
  "gen_lse_module x reg r = rbind (genLse x r) (\<lambda>(p, r). rbind (the_ptr p) (\<lambda>p.
     on_chan p (\<lambda>c. set_branch reg (case sub c of
         ChanLse l \<Rightarrow> c\<lparr>subgraphId := node_subgraphId x, sub := ChanLse (l\<lparr>baseAddr := cn_baseAddr x\<rparr>)\<rparr> | _ \<Rightarrow> c)) r))"

definition genModule_node :: "chan_node graph \<Rightarrow> string \<Rightarrow> registry \<Rightarrow> registry res" where
  "genModule_node g n r = (case map_of (map (\<lambda>x. (node_name x, x)) (nodes g)) n of
     None \<Rightarrow> Inl NullPointer
   | Some x \<Rightarrow> rbind (checkNodeRule g (node_name x)) (\<lambda>_. rbind (getCtrlRegion (ctrl_tree g) (node_region x)) (\<lambda>reg.
       if cn_type x = ''ChanBase'' \<or> cn_type x = ''ChanDGSF'' \<or> cn_type x = ''ChanPartialMux'' then gen_chan_module x reg r
       else if cn_type x = ''Lc'' then gen_lc_module x reg r
       else if cn_type x = ''Lse_ld'' \<or> cn_type x = ''Lse_st'' then gen_lse_module x reg r
       else if cn_type x = ''Mux'' then rbind (genMux x r) (\<lambda>(p, r). Inr (r\<lparr>r_muxes := (r_muxes r)[p := (r_muxes r ! p)\<lparr>mux_subgraphId := node_subgraphId x\<rparr>]\<rparr>))
       else Inr r)))"

definition genModules :: "chan_node graph \<Rightarrow> string list \<Rightarrow> registry \<Rightarrow> registry res" where
  "genModules g = rfold (genModule_node g)"

definition genModule :: "chan_node graph \<Rightarrow> string list \<Rightarrow> registry \<Rightarrow> registry res option" where
  "genModule g ord r = (case bfsTraverseNodesWithCtrlRegionSequence g ord of
     None \<Rightarrow> None | Some ns \<Rightarrow> Some (rbind ns (\<lambda>ns. genModules g ns r)))"

end
