(* ===== verification/RegistryConnect.thy ===== *)
theory RegistryConnect
  imports Registry Scheduler
begin

text \<open>
  Connecting and initialising the modules (\<open>Registry::genConnect\<close>, \<open>Registry::init\<close> and the operations on
  all modules, \<open>module/Registry.cpp\<close>).
\<close>

section \<open>Connections\<close>

fun get_chans :: "string list \<Rightarrow> registry \<Rightarrow> (nat option list \<times> registry) res" where
  "get_chans [] r = Inr ([], r)"
| "get_chans (n # ns) r = rbind (getChan n r) (\<lambda>(p, r). rbind (get_chans ns r) (\<lambda>(ps, r). Inr (p # ps, r)))"

definition end_chan :: "string \<Rightarrow> registry \<Rightarrow> (nat option \<times> registry) res" where
  "end_chan n r = rbind (getRegistryTableEntry n r) (\<lambda>e. case lcPtr e of
     Some p \<Rightarrow> rbind (deref (r_lcs r) p) (\<lambda>l. Inr (Some (sendEnd l), r))
   | None \<Rightarrow> (case chanPtr e of Some _ \<Rightarrow> getChan n r | None \<Rightarrow> Inl (Throw ''Not find getEnd!'')))"

definition lc_begin :: "lc \<Rightarrow> string list \<Rightarrow> registry \<Rightarrow> registry res" where
  "lc_begin l ns r = (if ''Chan_begin'' \<in> set ns
     then rbind (getChan ''Chan_begin'' r) (\<lambda>(b, r). rbind (deref (r_muxes r) (lc_mux l)) (\<lambda>m. on_heap (addDependence [b] [] m) r))
     else Inr r)"

definition lc_end :: "lc \<Rightarrow> string list \<Rightarrow> registry \<Rightarrow> registry res" where
  "lc_end l ns r = (if ''Chan_end'' \<in> set ns
     then rbind (getChan ''Chan_end'' r) (\<lambda>(e, r). on_heap (lc_addPort [] [] [] [e] l) r) else Inr r)"

definition connect_lc :: "chan_node graph \<Rightarrow> lc \<Rightarrow> registry \<Rightarrow> registry res" where
  "connect_lc g l r = rbind (getNode g (lc_moduleName l)) (\<lambda>x. rbind (getCtrlRegion (ctrl_tree g) (node_region x)) (\<lambda>reg.
     if theTailNode reg = [] then Inl (Throw ''Forget to declare the tailNode in loop control region !'')
     else (let ga = pre_nodes_data x @ pre_nodes_active x; sa = next_nodes_data x @ next_nodes_active x in
       rbind (lc_begin l ga r) (\<lambda>r. rbind (lc_end l sa r) (\<lambda>r.
       rbind (get_chans (remove1 ''Chan_begin'' ga) r) (\<lambda>(gs, r). rbind (get_chans (remove1 ''Chan_end'' sa) r) (\<lambda>(ss, r).
       rbind (end_chan (theTailNode reg) r) (\<lambda>(e, r). on_heap (lc_addPort gs ss [e] [] l) r))))))))"

definition connect_up :: "string \<Rightarrow> nat \<Rightarrow> registry \<Rightarrow> registry res" where
  "connect_up n p r = (if n \<noteq> ''NULL'' then rbind (getChan n r) (\<lambda>(q, r). on_heap (chan_addUpstream [q] p) r) else Inr r)"

definition connect_down :: "string \<Rightarrow> nat \<Rightarrow> registry \<Rightarrow> registry res" where
  "connect_down n p r = (if n \<noteq> ''NULL'' then rbind (getChan n r) (\<lambda>(q, r). on_heap (chan_addDownstream [q] p) r) else Inr r)"

definition connect_mux :: "chan_node graph \<Rightarrow> mux \<Rightarrow> registry \<Rightarrow> registry res" where
  "connect_mux g m r = (if mux_masterName m = []
     then rbind (getNode g (mux_moduleName m)) (\<lambda>x.
       if length (pre_nodes_data x) \<noteq> 2 \<and> length (next_nodes_data x) \<noteq> 1
       then Inl (Throw ''Mux:: The number of pre_nodes and next_nodes not satisfy. If default, use \"NULL\" to represent!'')
       else rbind (rnth (pre_nodes_data x) 0) (\<lambda>t. rbind (rnth (pre_nodes_data x) 1) (\<lambda>f. rbind (rnth (next_nodes_data x) 0) (\<lambda>d.
         rbind (connect_up t (trueChan m) r) (\<lambda>r. rbind (connect_up f (falseChan m) r) (connect_down d (outChan m)))))))
     else Inr r)"

text \<open>The channel that stands for a module as an upstream or as a downstream of another one.\<close>

definition up_chan :: "registry \<Rightarrow> string \<Rightarrow> nat option res" where
  "up_chan r n = rbind (getRegistryTableEntry n r) (\<lambda>e. case lcPtr e of
     Some p \<Rightarrow> rbind (deref (r_lcs r) p) (\<lambda>l. Inr (Some (loopVar l)))
   | None \<Rightarrow> (case chanPtr e of Some p \<Rightarrow> Inr (Some p)
     | None \<Rightarrow> (case muxPtr e of Some p \<Rightarrow> rbind (deref (r_muxes r) p) (\<lambda>m. Inr (Some (outChan m))) | None \<Rightarrow> Inr None)))"

definition down_chan :: "registry \<Rightarrow> string \<Rightarrow> nat option res" where
  "down_chan r n = rbind (getRegistryTableEntry n r) (\<lambda>e. case lcPtr e of
     Some p \<Rightarrow> rbind (deref (r_lcs r) p) (\<lambda>l. Inr (Some (loopVar l))) | None \<Rightarrow> Inr (chanPtr e))"

definition connect_ups :: "nat \<Rightarrow> string list \<Rightarrow> registry \<Rightarrow> registry res" where
  "connect_ups p = rfold (\<lambda>n r. rbind (up_chan r n) (\<lambda>u. on_heap (chan_addUpstream [u] p) r))"

definition connect_downs :: "nat \<Rightarrow> string list \<Rightarrow> registry \<Rightarrow> registry res" where
  "connect_downs p = rfold (\<lambda>n r. rbind (down_chan r n) (\<lambda>d. on_heap (chan_addDownstream [d] p) r))"

definition connect_chan :: "chan_node graph \<Rightarrow> nat \<Rightarrow> registry \<Rightarrow> registry res" where
  "connect_chan g p r = rbind (deref (r_chans r) p) (\<lambda>c.
     if masterName c = ''None'' \<and> moduleName c \<noteq> ''Chan_end'' \<and> moduleName c \<noteq> ''Chan_begin''
     then rbind (getNode g (moduleName c)) (\<lambda>x. rbind (connect_ups p (pre_nodes_data x @ pre_nodes_active x) r)
       (connect_downs p (next_nodes_data x @ next_nodes_active x)))
     else Inr r)"

definition connect_entry :: "chan_node graph \<Rightarrow> entry \<Rightarrow> registry \<Rightarrow> registry res" where
  "connect_entry g e r = (case lcPtr e of
     Some p \<Rightarrow> rbind (deref (r_lcs r) p) (\<lambda>l. connect_lc g l r)
   | None \<Rightarrow> (case muxPtr e of
       Some p \<Rightarrow> rbind (deref (r_muxes r) p) (\<lambda>m. connect_mux g m r)
     | None \<Rightarrow> (case chanPtr e of
         Some p \<Rightarrow> connect_chan g p r
       | None \<Rightarrow> Inl (Throw ''Invalid registryTable entry!''))))"

definition chan_ptrs :: "registry \<Rightarrow> nat list" where
  "chan_ptrs r = List.map_filter chanPtr (registryTable r)"

definition complete_chan :: "nat \<Rightarrow> heap \<Rightarrow> heap res" where
  "complete_chan p h = rbind (deref h p) (\<lambda>c. rbind (rfold (chan_addDownstream [Some p]) (upstream c) h) (\<lambda>h.
     rbind (deref h p) (\<lambda>c. rfold (chan_addUpstream [Some p]) (downstream c) h)))"

definition set_ends :: "chan \<Rightarrow> chan" where
  "set_ends c = (let c = (if upstream c = [] then c\<lparr>noUpstream := True\<rparr> else c) in
     if downstream c = [] then c\<lparr>noDownstream := True\<rparr> else c)"

definition dedup_links :: "chan \<Rightarrow> chan" where
  "dedup_links c = c\<lparr>upstream := removeDuplicatesKeepSequence (upstream c),
     downstream := removeDuplicatesKeepSequence (downstream c)\<rparr>"

definition each_chan :: "(chan \<Rightarrow> chan res) \<Rightarrow> nat list \<Rightarrow> heap \<Rightarrow> heap res" where
  "each_chan f = rfold (\<lambda>p. modify p f)"

definition complete_links :: "nat list \<Rightarrow> heap \<Rightarrow> heap res" where
  "complete_links ps h = rbind (rfold complete_chan ps h) (\<lambda>h. rbind (each_chan (\<lambda>c. Inr (set_ends c)) ps h)
     (each_chan (\<lambda>c. Inr (dedup_links c)) ps))"

definition genConnect :: "chan_node graph \<Rightarrow> registry \<Rightarrow> registry res" where
  "genConnect g r = rbind (rfold (connect_entry g) (registryTable r) r) (\<lambda>r. on_heap (complete_links (chan_ptrs r)) r)"

section \<open>Initialisation\<close>

definition in_slots :: "chan \<Rightarrow> nat" where
  "in_slots c = (if noUpstream c then 1 else length (upstream c))"

definition initChanBuffer :: "chan \<Rightarrow> chan" where
  "initChanBuffer c = (let c = c\<lparr>chanBuffer := resize (in_slots c) [] (chanBuffer c),
       chanBufferDataCnt := resize (in_slots c) 0 (chanBufferDataCnt c),
       getTheLastData := resize (in_slots c) False (getTheLastData c)\<rparr> in
     (case sub c of ChanSGMF _ _ _ \<Rightarrow> c\<lparr>chanBuffer := map (resize (ch_size c) data0) (chanBuffer c)\<rparr> | _ \<Rightarrow> c))"

definition initLastTagQueue :: "heap \<Rightarrow> chan \<Rightarrow> chan res" where
  "initLastTagQueue h c = (if keepMode c
     then rbind (rmap (\<lambda>q. rbind (deref h q) (\<lambda>d. Inr (moduleId d, []))) (downstream c)) (\<lambda>qs. Inr (c\<lparr>lastTagQueue := qs\<rparr>))
     else Inr c)"

definition initBp :: "chan \<Rightarrow> chan" where
  "initBp c = c\<lparr>bp := resize (in_slots c) False (bp c)\<rparr>"

definition initLastPopVal :: "chan \<Rightarrow> chan" where
  "initLastPopVal c = c\<lparr>ch_lastPopVal := resize (in_slots c) 0 (ch_lastPopVal c)\<rparr>"

definition initLse :: "chan \<Rightarrow> chan" where
  "initLse c = (case sub c of
     ChanLse l \<Rightarrow> c\<lparr>sub := ChanLse (l\<lparr>lse_reqQueue := resize (ch_size c) (memReq0, data0) (lse_reqQueue l),
       suspendReqVec := map (\<lambda>(v, q). (False, q)) (resize (speedup c) (False, memReq0) (suspendReqVec l))\<rparr>)\<rparr>
   | _ \<Rightarrow> c)"

definition initChannel :: "nat list \<Rightarrow> heap \<Rightarrow> heap res" where
  "initChannel = rfold (\<lambda>p h. modify p (\<lambda>c. rbind (initLastTagQueue h (initChanBuffer c))
     (\<lambda>c. Inr (initLse (initLastPopVal (initBp c))))) h)"

definition checkChanConnect :: "chan \<Rightarrow> unit res" where
  "checkChanConnect c = (if (\<not> noUpstream c \<and> upstream c = []) \<or> (\<not> noDownstream c \<and> downstream c = [])
     then Inl (Throw ''Upstream or Downstream of this channel is empty!'') else Inr ())"

definition checkChanMode :: "chan \<Rightarrow> unit res" where
  "checkChanMode c = (if keepMode c \<and> drainMode c
     then Inl (Throw ''A channel can't be in keepMode and drainMode in the same time!'') else Inr ())"

definition checkChanPartialMux :: "heap \<Rightarrow> chan \<Rightarrow> unit res" where
  "checkChanPartialMux h c = (case sub c of
     ChanPartialMux \<Rightarrow> rbind (up_of h c 0) (\<lambda>u. if \<not> isCond u
       then Inl (Throw ''The first upstream channel of this ChanParitialMux is not in isCond mode!'') else Inr ())
   | _ \<Rightarrow> Inr ())"

definition checkChanDGSF :: "chan \<Rightarrow> unit res" where
  "checkChanDGSF c = (case sub c of
     ChanDGSF _ _ \<Rightarrow> if \<not> noUpstream c \<and> 1 < length (upstream c)
       then Inl (Throw ''The number of ChanDGSF's upstream can not exceed 1 !'') else Inr ()
   | _ \<Rightarrow> Inr ())"

definition checkConnectRule :: "nat list \<Rightarrow> heap \<Rightarrow> unit res" where
  "checkConnectRule ps h = rfold (\<lambda>p _. rbind (deref h p) (\<lambda>c. rbind (checkChanConnect c) (\<lambda>_. rbind (checkChanMode c) (\<lambda>_.
     rbind (checkChanPartialMux h c) (\<lambda>_. checkChanDGSF c))))) ps ()"

text \<open>The warnings about the number of outermost loops.\<close>

definition checkLc :: "registry \<Rightarrow> string list res" where
  "checkLc r = rbind (rfold (\<lambda>p k. rbind (deref (r_lcs r) p) (\<lambda>l. Inr (if isOuterMostLoop l then k + 1 else k)))
     (List.map_filter lcPtr (registryTable r)) (0 :: nat)) (\<lambda>k.
   Inr ((if k = 0 then [''Warning: Not configure any outer-most Lc, make sure there is no loop in this application!''] else []) @
     (if 1 < k then [''Warning: Configure more than one outer-most Lc, make sure there are more than one outer-most loop in this application!''] else [])))"

definition is_DGSF :: "chan \<Rightarrow> bool" where
  "is_DGSF c = (case sub c of ChanDGSF _ _ \<Rightarrow> True | _ \<Rightarrow> False)"

definition initChanDGSFVec :: "registry \<Rightarrow> registry res" where
  "initChanDGSFVec r = rfold (\<lambda>p r. rbind (deref (r_chans r) p) (\<lambda>c.
     Inr (if is_DGSF c then r\<lparr>vecChanDGSF := vecChanDGSF r @ [p]\<rparr> else r))) (chan_ptrs r) r"

definition registry_init :: "registry \<Rightarrow> registry res" where
  "registry_init r = rbind (checkConnectRule (chan_ptrs r) (r_chans r)) (\<lambda>_. rbind (checkLc r) (\<lambda>_.
     rbind (on_heap (initChannel (chan_ptrs r)) r) initChanDGSFVec))"

section \<open>Operations on all modules\<close>

definition pathBalance :: "registry \<Rightarrow> registry res" where
  "pathBalance r = on_heap (each_chan (\<lambda>c. Inr (c\<lparr>ch_size := (if 2 \<le> ch_size c then ch_size c else 2)\<rparr>)) (chan_ptrs r)) r"

definition setChanSize :: "registry \<Rightarrow> registry res" where
  "setChanSize r = on_heap (each_chan (\<lambda>c. Inr (
     if masterName c = ''None'' \<and> moduleName c \<noteq> ''Chan_begin'' \<and> moduleName c \<noteq> ''Chan_end'' \<and> \<not> is_DGSF c
     then c\<lparr>ch_size := unat (10 * max (ch_cycle c) 1 * of_nat (speedup c))\<rparr> else c)) (chan_ptrs r)) r"

definition updateChanDGSF :: "config \<Rightarrow> registry \<Rightarrow> clkDomain \<Rightarrow> (clkDomain \<times> registry) res" where
  "updateChanDGSF g r k = rbind (rfold (\<lambda>p s. rbind (get g p s) (\<lambda>(k, h).
     rbind (modify p (\<lambda>c. rbind (assign 0 c) (\<lambda>v. Inr (c\<lparr>ch_value := v\<rparr>))) h) (\<lambda>h. Inr (k, h)))) (vecChanDGSF r) (k, r_chans r)) (\<lambda>(k, h).
   Inr (k, r\<lparr>r_chans := h\<rparr>))"

definition inherit_branch :: "chan \<Rightarrow> chan \<Rightarrow> chan" where
  "inherit_branch u c = c\<lparr>isCond := isCond u, branchMode := branchMode u, channelCond := channelCond u\<rparr>"

definition add_producers :: "heap \<Rightarrow> nat \<Rightarrow> chan \<Rightarrow> scheduler \<Rightarrow> scheduler res" where
  "add_producers h p c = rfold (\<lambda>q s. rbind (deref h q) (\<lambda>d. Inr (addSubgraph (subgraphId d) [p] [] s))) (downstream c)"

definition on_paths :: "heap \<Rightarrow> chan \<Rightarrow> (bool \<times> bool) res" where
  "on_paths h c = rfold (\<lambda>q (t, f). rbind (deref h q) (\<lambda>d. Inr (if branchMode d
     then if channelCond d then (True, f) else (t, True) else (t, f)))) (downstream c) (False, False)"

definition config_chan :: "nat \<Rightarrow> heap \<times> scheduler \<Rightarrow> (heap \<times> scheduler) res" where
  "config_chan p = (\<lambda>(h, s). rbind (deref h p) (\<lambda>c. if \<not> is_DGSF c then Inr (h, s)
     else if length (upstream c) \<noteq> 1 then Inl (Throw ''The upstream of a chanDGSF must equal to 1!'')
     else rbind (up_of h c 0) (\<lambda>u. let c = inherit_branch u c; h = h[p := c] in
       rbind (add_producers h p c (addSubgraph (subgraphId c) [] [p] s)) (\<lambda>s.
       let s = (if isCond c then addDivergenceSubgraph (subgraphId c) [p] [] [] s else s) in
       rbind (on_paths h c) (\<lambda>(t, f). Inr (h,
         if t \<and> f then addDivergenceSubgraph (subgraphId c) [p] [] [] s
         else if t then addDivergenceSubgraph (subgraphId c) [] [p] [] s
         else if f then addDivergenceSubgraph (subgraphId c) [] [] [p] s else s))))))"

definition configGraphScheduler :: "registry \<Rightarrow> scheduler \<Rightarrow> (registry \<times> scheduler) res" where
  "configGraphScheduler r s = rbind (rfold config_chan (chan_ptrs r) (r_chans r, s)) (\<lambda>(h, s). Inr (r\<lparr>r_chans := h\<rparr>, s))"

definition print_module :: "registry \<Rightarrow> string \<Rightarrow> nat list \<times> nat list \<Rightarrow> (nat list \<times> nat list) res" where
  "print_module r n = (\<lambda>(cs, ls). rbind (getRegistryTableEntry n r) (\<lambda>e. case e_moduleType e of
     ModuleChannel \<Rightarrow> rbind (the_ptr (chanPtr e)) (\<lambda>p. Inr (cs @ [p], ls))
   | ModuleLc \<Rightarrow> rbind (the_ptr (lcPtr e)) (\<lambda>p. rbind (deref (r_lcs r) p) (\<lambda>l. Inr (cs @ [loopVar l], ls @ [p])))
   | ModuleMux \<Rightarrow> Inr (cs, ls)))"

definition genDebugPrint :: "chan_node graph \<Rightarrow> string list \<Rightarrow> registry \<Rightarrow> (nat list \<times> nat list) res option" where
  "genDebugPrint g ord r = (case bfsTraverseNodesWithCtrlRegionSequence g ord of
     None \<Rightarrow> None | Some ns \<Rightarrow> Some (rbind ns (\<lambda>ns. rfold (print_module r) ns ([], []))))"

end
