(* ===== verification/Profiler.thy ===== *)
theory Profiler
  imports RegistryConnect
begin

text \<open>
  The counters of the profiler (\<open>module/Profiler.cpp\<close>): the greatest number of data in the buffers of the
  channels, the activity of the channels, the switches between subgraphs, and the numbers that the reports
  print. The conversion of the counters to energies with floating-point numbers and the text of the reports
  are left aside.
\<close>

section \<open>State and counters\<close>

record profiler =
  maxDataNum :: "nat list"
  chanActiveNumTotal :: nat
  lastSubgraphId :: nat
  graphSwitchTimes :: nat

definition profiler_new :: profiler where
  "profiler_new = \<lparr>maxDataNum = [], chanActiveNumTotal = 0, lastSubgraphId = 0, graphSwitchTimes = 0\<rparr>"

definition profiler_init :: "registry \<Rightarrow> profiler \<Rightarrow> profiler" where
  "profiler_init r w = w\<lparr>maxDataNum := resize (length (registryTable r)) 0 (maxDataNum w)\<rparr>"

text \<open>The count is declared in front of the loop over the table and is not reset in it.\<close>

definition buffer_max :: "chan \<Rightarrow> nat \<Rightarrow> nat" where
  "buffer_max c n = fold (\<lambda>b n. max n (length b)) (chanBuffer c) n"

definition record_max :: "heap \<Rightarrow> nat \<Rightarrow> nat \<times> nat list \<Rightarrow> (nat \<times> nat list) res" where
  "record_max h p = (\<lambda>(n, ms). rbind (deref h p) (\<lambda>c. let n = buffer_max c n in
     rbind (rnth ms (moduleId c)) (\<lambda>m. Inr (n, ms[moduleId c := max n m]))))"

definition updateBufferMaxDataNum :: "registry \<Rightarrow> profiler \<Rightarrow> profiler res" where
  "updateBufferMaxDataNum r w = rbind (rfold (record_max (r_chans r)) (chan_ptrs r) (0, maxDataNum w))
     (\<lambda>(_, ms). Inr (w\<lparr>maxDataNum := ms\<rparr>))"

text \<open>A channel on a branch is active only when its datum is on the path taken.\<close>

definition count_active :: "chan \<Rightarrow> chan res" where
  "count_active c = (if branchMode c
     then rbind (rfront (channel c)) (\<lambda>d. Inr (if d_cond d then c\<lparr>activeCnt := activeCnt c + 1\<rparr> else c))
     else Inr (c\<lparr>activeCnt := activeCnt c + 1\<rparr>))"

definition updateChanUtilization0 :: "registry \<Rightarrow> registry res" where
  "updateChanUtilization0 r = on_heap (each_chan (\<lambda>c. if ch_valid c then count_active c else Inr c) (chan_ptrs r)) r"

definition count_chan :: "bool \<Rightarrow> nat \<Rightarrow> chan \<Rightarrow> chan res" where
  "count_chan b i c = rbind (if pushChannelSuccess c then count_active c else Inr c) (\<lambda>c.
     Inr (if (subgraphId c = i \<or> pushChannelSuccess c) \<and> b then c\<lparr>activeClkCnt := activeClkCnt c + 1\<rparr> else c))"

definition count_switch :: "nat \<Rightarrow> profiler \<Rightarrow> profiler" where
  "count_switch i w = (if i \<noteq> lastSubgraphId w then w\<lparr>graphSwitchTimes := graphSwitchTimes w + 1, lastSubgraphId := i\<rparr> else w)"

definition updateChanUtilization :: "clkDomain \<Rightarrow> nat \<Rightarrow> registry \<Rightarrow> profiler \<Rightarrow> (registry \<times> profiler) res" where
  "updateChanUtilization k i r w = rbind (on_heap (each_chan (count_chan (checkClkAdd k) i) (chan_ptrs r)) r)
     (\<lambda>r. Inr (r, count_switch i w))"

section \<open>Numbers of the reports\<close>

text \<open>The channels that stand for processing elements.\<close>

definition is_pe :: "chan \<Rightarrow> bool" where
  "is_pe c \<longleftrightarrow> moduleName c \<noteq> ''Chan_begin'' \<and> moduleName c \<noteq> ''Chan_end'' \<and> ch_isPhysicalChan c
     \<and> (masterName c = ''None'' \<or> isLoopVar c)"

definition count_pe :: "heap \<Rightarrow> nat list \<Rightarrow> profiler \<Rightarrow> profiler res" where
  "count_pe h = rfold (\<lambda>p w. rbind (deref h p) (\<lambda>c.
     Inr (if is_pe c then w\<lparr>chanActiveNumTotal := chanActiveNumTotal w + activeCnt c\<rparr> else w)))"

definition subgraphNodeNum :: "heap \<Rightarrow> nat list \<Rightarrow> nat \<Rightarrow> nat list res" where
  "subgraphNodeNum h ps n = rfold (\<lambda>p ns. rbind (deref h p) (\<lambda>c.
     if is_pe c then rbind (rnth ns (subgraphId c)) (\<lambda>m. Inr (ns[subgraphId c := m + 1])) else Inr ns)) ps (replicate n 0)"

definition used_pes :: "config \<Rightarrow> nat \<Rightarrow> nat res" where
  "used_pes g n = (if n = 0 then Inl ModByZero else Inr (array_size g div n * n))"

definition totalPeCycle :: "config \<Rightarrow> nat \<Rightarrow> nat list \<Rightarrow> nat list \<Rightarrow> nat res" where
  "totalPeCycle g now ns acts = (if 1 < length ns
     then rfold (\<lambda>i t. rbind (rnth ns i) (\<lambda>n. rbind (used_pes g n) (\<lambda>u. rbind (rnth acts i) (\<lambda>a. Inr (t + u * a)))))
       [0..<length ns] 0
     else rbind (rnth ns 0) (\<lambda>n. rbind (used_pes g n) (\<lambda>u. Inr (u * now))))"

definition printChanProfiling :: "config \<Rightarrow> nat \<Rightarrow> registry \<Rightarrow> scheduler \<Rightarrow> profiler \<Rightarrow> (nat \<times> profiler) res" where
  "printChanProfiling g now r s w = rbind (count_pe (r_chans r) (chan_ptrs r) w) (\<lambda>w.
     rbind (subgraphNodeNum (r_chans r) (chan_ptrs r) (length (subgraphActiveCnt s))) (\<lambda>ns.
     rbind (totalPeCycle g now ns (subgraphActiveCnt s)) (\<lambda>t. Inr (t, w))))"

text \<open>The accesses to the data buffer for requests to the memory and for data between subgraphs.\<close>

definition coalesceRate :: "config \<Rightarrow> chan \<Rightarrow> nat res" where
  "coalesceRate g c = (if data_precision g = 0 then Inl ModByZero else Inr (min (speedup c) (bank_block_size g div data_precision g)))"

definition dataBuffer_accesses :: "config \<Rightarrow> heap \<Rightarrow> nat list \<Rightarrow> (nat \<times> nat) res" where
  "dataBuffer_accesses g h ps = rfold (\<lambda>p (m, i). rbind (deref h p) (\<lambda>c. rbind (coalesceRate g c) (\<lambda>r.
     case sub c of
       ChanLse _ \<Rightarrow> if r = 0 then Inl ModByZero else Inr (m + activeCnt c div r, i)
     | ChanDGSF _ _ \<Rightarrow> if r = 0 then Inl ModByZero else Inr (m, i + activeCnt c div r)
     | _ \<Rightarrow> Inr (m, i)))) ps (0, 0)"

section \<open>Peaks of the buffers\<close>

definition buffers_below :: "heap \<Rightarrow> nat list \<Rightarrow> nat \<Rightarrow> bool" where
  "buffers_below h ps m \<longleftrightarrow> (\<forall>p\<in>set ps. \<forall>b\<in>set (chanBuffer (h ! p)). length b \<le> m)"

lemma buffer_max_le: "buffer_max c n \<le> m \<longleftrightarrow> n \<le> m \<and> (\<forall>b\<in>set (chanBuffer c). length b \<le> m)"
proof -
  have "fold (\<lambda>b n. max n (length b)) bs n \<le> m \<longleftrightarrow> n \<le> m \<and> (\<forall>b\<in>set bs. length b \<le> m)" for bs :: "data list list"
    by (induction bs arbitrary: n) auto
  then show ?thesis by (simp add: buffer_max_def)
qed

lemma record_max_run:
  assumes "\<forall>p\<in>set ps. p < length h \<and> moduleId (h ! p) = M p" "distinct (map M ps)" "\<forall>p\<in>set ps. M p < length ms"
  shows "\<exists>n' ms'. rfold (record_max h) ps (n, ms) = Inr (n', ms') \<and> length ms' = length ms
    \<and> (\<forall>i. i \<notin> M ` set ps \<longrightarrow> ms' ! i = ms ! i)
    \<and> (\<forall>k<length ps. \<forall>m. ms' ! M (ps ! k) \<le> m \<longleftrightarrow> n \<le> m \<and> ms ! M (ps ! k) \<le> m \<and> buffers_below h (take (Suc k) ps) m)"
  using assms
proof (induction ps arbitrary: n ms)
  case (Cons p ps)
  let ?n = "buffer_max (h ! p) n"
  let ?ms = "ms[M p := max ?n (ms ! M p)]"
  have step: "record_max h p (n, ms) = Inr (?n, ?ms)" using Cons.prems by (simp add: record_max_def Let_def)
  from Cons.IH [of ?ms ?n] Cons.prems obtain n' ms' where IH: "rfold (record_max h) ps (?n, ?ms) = Inr (n', ms')"
    "length ms' = length ms" "\<And>i. i \<notin> M ` set ps \<Longrightarrow> ms' ! i = ?ms ! i"
    "\<And>k m. k < length ps \<Longrightarrow> ms' ! M (ps ! k) \<le> m \<longleftrightarrow> ?n \<le> m \<and> ?ms ! M (ps ! k) \<le> m \<and> buffers_below h (take (Suc k) ps) m"
    by auto
  have p: "M p \<notin> M ` set ps" "M p < length ms" using Cons.prems by auto
  have "ms' ! M ((p # ps) ! k) \<le> m \<longleftrightarrow> n \<le> m \<and> ms ! M ((p # ps) ! k) \<le> m \<and> buffers_below h (take (Suc k) (p # ps)) m"
    if "k < Suc (length ps)" for k m
  proof (cases k)
    case 0
    then show ?thesis using IH(3) [OF p(1)] p(2) by (auto simp: buffer_max_le buffers_below_def)
  next
    case (Suc l)
    then have l: "l < length ps" using that by simp
    then have "M (ps ! l) \<noteq> M p" using p(1) by (metis image_eqI nth_mem)
    then show ?thesis using IH(4) [OF l, of m] Suc by (auto simp: buffer_max_le buffers_below_def)
  qed
  moreover have "ms' ! i = ms ! i" if "i \<notin> M ` set (p # ps)" for i using IH(3) [of i] that by simp
  ultimately show ?case using step IH(1,2) by simp
qed simp

lemma sampled_peaks:
  assumes "\<forall>r\<in>set rs. chan_ptrs r = ps \<and> (\<forall>p\<in>set ps. p < length (r_chans r) \<and> moduleId (r_chans r ! p) = M p)"
    and "distinct (map M ps)" "\<forall>p\<in>set ps. M p < length (maxDataNum w)"
  shows "\<exists>w'. rfold updateBufferMaxDataNum rs w = Inr w' \<and> (\<forall>k<length ps. \<forall>m. maxDataNum w' ! M (ps ! k) \<le> m
    \<longleftrightarrow> maxDataNum w ! M (ps ! k) \<le> m \<and> (\<forall>r\<in>set rs. buffers_below (r_chans r) (take (Suc k) ps) m))"
  using assms(1,3)
proof (induction rs arbitrary: w)
  case (Cons r rs)
  have ps: "chan_ptrs r = ps" "\<forall>p\<in>set ps. p < length (r_chans r) \<and> moduleId (r_chans r ! p) = M p" using Cons.prems(1) by auto
  obtain n' ms' where r: "rfold (record_max (r_chans r)) ps (0, maxDataNum w) = Inr (n', ms')" "length ms' = length (maxDataNum w)"
    "\<And>k m. k < length ps \<Longrightarrow> ms' ! M (ps ! k) \<le> m \<longleftrightarrow> maxDataNum w ! M (ps ! k) \<le> m \<and> buffers_below (r_chans r) (take (Suc k) ps) m"
    using record_max_run [OF ps(2) assms(2) Cons.prems(2), of 0] by auto
  have step: "updateBufferMaxDataNum r w = Inr (w\<lparr>maxDataNum := ms'\<rparr>)" by (simp add: updateBufferMaxDataNum_def ps(1) r(1))
  from Cons.IH [of "w\<lparr>maxDataNum := ms'\<rparr>"] Cons.prems r(2) obtain w' where
    "rfold updateBufferMaxDataNum rs (w\<lparr>maxDataNum := ms'\<rparr>) = Inr w'" "\<And>k m. k < length ps \<Longrightarrow> maxDataNum w' ! M (ps ! k) \<le> m
      \<longleftrightarrow> ms' ! M (ps ! k) \<le> m \<and> (\<forall>r\<in>set rs. buffers_below (r_chans r) (take (Suc k) ps) m)" by auto
  then show ?case using step r(3) by auto
qed simp

text \<open>C37: what the profiler reports as the greatest number of data in the buffers of a channel is the greatest
  length, over all samples, of a buffer of that channel or of a channel in front of it in the table.\<close>

theorem buffer_peaks:
  assumes "\<forall>r\<in>set rs. chan_ptrs r = ps \<and> (\<forall>p\<in>set ps. p < length (r_chans r) \<and> moduleId (r_chans r ! p) = M p)"
    and "distinct (map M ps)" "\<forall>p\<in>set ps. M p < length (registryTable r0)"
  shows "\<exists>w. rfold updateBufferMaxDataNum rs (profiler_init r0 profiler_new) = Inr w
    \<and> (\<forall>k<length ps. \<forall>m. maxDataNum w ! M (ps ! k) \<le> m
         \<longleftrightarrow> (\<forall>r\<in>set rs. \<forall>j\<le>k. \<forall>b\<in>set (chanBuffer (r_chans r ! (ps ! j))). length b \<le> m))"
proof -
  let ?w = "profiler_init r0 profiler_new"
  have ms: "maxDataNum ?w = replicate (length (registryTable r0)) 0" by (simp add: profiler_init_def profiler_new_def resize_def)
  have "\<forall>p\<in>set ps. M p < length (maxDataNum ?w)" using assms(3) by (simp add: ms)
  from sampled_peaks [OF assms(1,2) this] obtain w where w: "rfold updateBufferMaxDataNum rs ?w = Inr w"
    "\<And>k m. k < length ps \<Longrightarrow> maxDataNum w ! M (ps ! k) \<le> m \<longleftrightarrow> maxDataNum ?w ! M (ps ! k) \<le> m
       \<and> (\<forall>r\<in>set rs. buffers_below (r_chans r) (take (Suc k) ps) m)" by blast
  have "maxDataNum w ! M (ps ! k) \<le> m \<longleftrightarrow> (\<forall>r\<in>set rs. \<forall>j\<le>k. \<forall>b\<in>set (chanBuffer (r_chans r ! (ps ! j))). length b \<le> m)"
    if k: "k < length ps" for k m
  proof -
    have "set (take (Suc k) ps) = (\<lambda>j. ps ! j) ` {..k}"
      using k by (simp add: nth_image [symmetric] atLeast0LessThan lessThan_Suc_atMost)
    moreover have "maxDataNum ?w ! M (ps ! k) = 0" using assms(3) k by (simp add: ms)
    ultimately show ?thesis unfolding w(2) [OF k] buffers_below_def by auto
  qed
  with w(1) show ?thesis by blast
qed

text \<open>An empty channel behind one with three data is reported with three.\<close>

definition peakDemo :: registry where
  "peakDemo = (registry_new (projr (memSystem_new cfg_demo 0 [])))\<lparr>registryTable := [chan_entry 0, chan_entry 1],
     r_chans := [(chan_new 0 4 0 1 ChanBase)\<lparr>chanBuffer := [[data0, data0, data0]]\<rparr>, (chan_new 1 4 0 1 ChanBase)\<lparr>chanBuffer := [[]]\<rparr>]\<rparr>"

lemma buffer_peaks_witness:
  "\<exists>w. rfold updateBufferMaxDataNum [peakDemo] (profiler_init peakDemo profiler_new) = Inr w \<and> maxDataNum w ! 1 = 3"
proof -
  have "chan_ptrs peakDemo = [0, 1]" by (simp add: peakDemo_def chan_ptrs_def map_filter_def chan_entry_def)
  moreover have c: "r_chans peakDemo ! 0 = (chan_new 0 4 0 1 ChanBase)\<lparr>chanBuffer := [[data0, data0, data0]]\<rparr>"
    "r_chans peakDemo ! 1 = (chan_new 1 4 0 1 ChanBase)\<lparr>chanBuffer := [[]]\<rparr>" "length (r_chans peakDemo) = 2"
    "length (registryTable peakDemo) = 2"
    by (simp_all add: peakDemo_def)
  ultimately have h: "\<forall>r\<in>set [peakDemo]. chan_ptrs r = [0, 1] \<and> (\<forall>p\<in>set [0, 1]. p < length (r_chans r) \<and> moduleId (r_chans r ! p) = p)"
    by (simp add: chan_new_def)
  obtain w where w: "rfold updateBufferMaxDataNum [peakDemo] (profiler_init peakDemo profiler_new) = Inr w"
    "\<And>k m. k < 2 \<Longrightarrow> maxDataNum w ! ([0, 1] ! k) \<le> m \<longleftrightarrow> (\<forall>j\<le>k. \<forall>b\<in>set (chanBuffer (r_chans peakDemo ! ([0, 1] ! j))). length b \<le> m)"
    using buffer_peaks [OF h, of peakDemo] c(4) by auto
  have "maxDataNum w ! 1 \<le> m \<longleftrightarrow> 3 \<le> m" for m
    using w(2) [of 1 m] c(1,2) by (simp add: le_Suc_eq numeral_3_eq_3)
  then have "maxDataNum w ! 1 = 3" by (metis order_refl order_antisym)
  with w(1) show ?thesis by blast
qed

section \<open>Numbers of the reports\<close>

definition pes :: "heap \<Rightarrow> nat list \<Rightarrow> nat \<Rightarrow> nat list" where
  "pes h ps i = filter (\<lambda>p. is_pe (h ! p) \<and> subgraphId (h ! p) = i) ps"

definition pe_cycles :: "config \<Rightarrow> nat \<Rightarrow> nat \<Rightarrow> nat" where
  "pe_cycles g n a = array_size g div n * n * a"

lemma count_pe_run:
  assumes "set ps \<subseteq> {..<length h}"
  shows "count_pe h ps w = Inr (w\<lparr>chanActiveNumTotal := chanActiveNumTotal w + (\<Sum>p\<leftarrow>filter (\<lambda>p. is_pe (h ! p)) ps. activeCnt (h ! p))\<rparr>)"
  using assms unfolding count_pe_def by (induction ps arbitrary: w) auto

lemma subgraphNodeNum_run:
  assumes "set ps \<subseteq> {..<length h}"
  shows "rfold (\<lambda>p ns. rbind (deref h p) (\<lambda>c.
      if is_pe c then rbind (rnth ns (subgraphId c)) (\<lambda>m. Inr (ns[subgraphId c := m + 1])) else Inr ns)) ps ns
    = (if \<forall>p\<in>set ps. is_pe (h ! p) \<longrightarrow> subgraphId (h ! p) < length ns
       then Inr (map (\<lambda>i. ns ! i + length (pes h ps i)) [0..<length ns]) else Inl OutOfBounds)"
  using assms
proof (induction ps arbitrary: ns)
  case Nil
  show ?case by (simp add: pes_def map_nth)
next
  case (Cons p ps)
  let ?i = "subgraphId (h ! p)"
  show ?case
  proof (cases "is_pe (h ! p)")
    case False
    then show ?thesis using Cons by (simp add: pes_def)
  next
    case pe: True
    show ?thesis
    proof (cases "?i < length ns")
      case False
      then show ?thesis using pe Cons.prems by (simp add: rnth_def)
    next
      case True
      have "map (\<lambda>i. ns[?i := ns ! ?i + 1] ! i + length (pes h ps i)) [0..<length ns]
          = map (\<lambda>i. ns ! i + length (pes h (p # ps) i)) [0..<length ns]"
        using pe True by (auto simp: pes_def nth_list_update)
      then show ?thesis using pe True Cons by simp
    qed
  qed
qed

lemma rfold_sum:
  assumes "\<forall>i<n. f i = (if ok i then Inr (g i) else Inl e)"
  shows "rfold (\<lambda>i t. rbind (f i) (\<lambda>x. Inr (t + x))) [0..<n] (0::nat)
    = (if \<forall>i<n. ok i then Inr (\<Sum>i<n. g i) else Inl e)"
  using assms
proof (induction n)
  case (Suc n)
  then show ?case by (auto simp: rfold_append less_Suc_eq)
qed simp

lemma totalPeCycle_run:
  assumes "length ns = length acts"
  shows "totalPeCycle g now ns acts = (if ns = [] then Inl OutOfBounds else if 0 \<in> set ns then Inl ModByZero
    else Inr (if length ns = 1 then pe_cycles g (ns ! 0) now else \<Sum>i<length ns. pe_cycles g (ns ! i) (acts ! i)))"
proof (cases "1 < length ns")
  case True
  let ?f = "\<lambda>i. rbind (rnth ns i) (\<lambda>n. rbind (used_pes g n) (\<lambda>u. rbind (rnth acts i) (\<lambda>a. Inr (u * a))))"
  have f: "\<forall>i<length ns. ?f i = (if ns ! i \<noteq> 0 then Inr (pe_cycles g (ns ! i) (acts ! i)) else Inl ModByZero)"
    using assms by (simp add: used_pes_def pe_cycles_def)
  have "totalPeCycle g now ns acts = rfold (\<lambda>i t. rbind (?f i) (\<lambda>x. Inr (t + x))) [0..<length ns] 0"
    using True by (simp add: totalPeCycle_def rbind_assoc)
  also have "\<dots> = (if \<forall>i<length ns. ns ! i \<noteq> 0 then Inr (\<Sum>i<length ns. pe_cycles g (ns ! i) (acts ! i)) else Inl ModByZero)"
    by (rule rfold_sum [OF f])
  finally show ?thesis using True by (auto simp: all_set_conv_all_nth in_set_conv_nth)
next
  case False
  then consider "ns = []" | n where "ns = [n]" by (cases ns) auto
  then show ?thesis using False by cases (simp_all add: totalPeCycle_def rnth_def used_pes_def pe_cycles_def)
qed

text \<open>C38: the numbers of the report: the activity of the processing elements, and the cycles of the elements
  that each subgraph occupies when as many copies of it as fit the array run side by side. The report
  divides by zero when a subgraph has no processing element, and reads out of bounds when no subgraph has
  been entered or an element lies in none.\<close>

theorem report_numbers:
  fixes r :: registry and s :: scheduler
  defines "h \<equiv> r_chans r" and "ps \<equiv> chan_ptrs r" and "acts \<equiv> subgraphActiveCnt s"
  assumes "set ps \<subseteq> {..<length h}"
  shows "printChanProfiling g now r s w =
    (if acts = [] \<or> (\<exists>p\<in>set ps. is_pe (h ! p) \<and> length acts \<le> subgraphId (h ! p)) then Inl OutOfBounds
     else if \<exists>i<length acts. pes h ps i = [] then Inl ModByZero
     else Inr (if length acts = 1 then pe_cycles g (length (pes h ps 0)) now
         else \<Sum>i<length acts. pe_cycles g (length (pes h ps i)) (acts ! i),
       w\<lparr>chanActiveNumTotal := chanActiveNumTotal w + (\<Sum>p\<leftarrow>filter (\<lambda>p. is_pe (h ! p)) ps. activeCnt (h ! p))\<rparr>))"
proof -
  define bad where "bad \<longleftrightarrow> (\<exists>p\<in>set ps. is_pe (h ! p) \<and> length acts \<le> subgraphId (h ! p))"
  define gap where "gap \<longleftrightarrow> (\<exists>i<length acts. pes h ps i = [])"
  let ?ns = "map (\<lambda>i. length (pes h ps i)) [0..<length acts]"
  have "(\<forall>p\<in>set ps. is_pe (h ! p) \<longrightarrow> subgraphId (h ! p) < length acts) \<longleftrightarrow> \<not> bad" by (auto simp: bad_def)
  then have ns: "subgraphNodeNum h ps (length acts) = (if bad then Inl OutOfBounds else Inr ?ns)"
    unfolding subgraphNodeNum_def subgraphNodeNum_run [OF assms(4)] by (simp cong: map_cong)
  have t: "totalPeCycle g now ?ns acts = (if acts = [] then Inl OutOfBounds else if gap then Inl ModByZero
    else Inr (if length acts = 1 then pe_cycles g (length (pes h ps 0)) now
         else \<Sum>i<length acts. pe_cycles g (length (pes h ps i)) (acts ! i)))"
    by (subst totalPeCycle_run) (auto simp: image_iff gap_def)
  have "printChanProfiling g now r s w = rbind (subgraphNodeNum h ps (length acts)) (\<lambda>ns. rbind (totalPeCycle g now ns acts) (\<lambda>t.
      Inr (t, w\<lparr>chanActiveNumTotal := chanActiveNumTotal w + (\<Sum>p\<leftarrow>filter (\<lambda>p. is_pe (h ! p)) ps. activeCnt (h ! p))\<rparr>)))"
    unfolding printChanProfiling_def h_def [symmetric] ps_def [symmetric] acts_def [symmetric] count_pe_run [OF assms(4)] by simp
  then show ?thesis unfolding ns bad_def [symmetric] gap_def [symmetric] by (cases bad; cases gap) (simp_all add: t)
qed

text \<open>Two subgraphs with one and two elements on an array of five: four elements are used by the second one.\<close>

definition reportDemo :: registry where
  "reportDemo = (registry_new (projr (memSystem_new cfg_demo 0 [])))\<lparr>registryTable := [chan_entry 0, chan_entry 1, chan_entry 2],
     r_chans := [(chan_new 0 4 0 1 ChanBase)\<lparr>activeCnt := 7\<rparr>, (chan_new 1 4 0 1 ChanBase)\<lparr>subgraphId := 1, activeCnt := 2\<rparr>,
       (chan_new 2 4 0 1 ChanBase)\<lparr>subgraphId := 1\<rparr>]\<rparr>"

lemma report_numbers_witness:
  "printChanProfiling (cfg_demo\<lparr>array_size := 5\<rparr>) 30 reportDemo (scheduler_new\<lparr>subgraphActiveCnt := [10, 20]\<rparr>) profiler_new
   = Inr (130, profiler_new\<lparr>chanActiveNumTotal := 9\<rparr>)"
proof -
  have ps: "chan_ptrs reportDemo = [0, 1, 2]" by (simp add: reportDemo_def chan_ptrs_def map_filter_def chan_entry_def)
  have h: "set (chan_ptrs reportDemo) \<subseteq> {..<length (r_chans reportDemo)}" unfolding ps by (simp add: reportDemo_def)
  have c: "r_chans reportDemo ! 0 = (chan_new 0 4 0 1 ChanBase)\<lparr>activeCnt := 7\<rparr>"
    "r_chans reportDemo ! 1 = (chan_new 1 4 0 1 ChanBase)\<lparr>subgraphId := 1, activeCnt := 2\<rparr>"
    "r_chans reportDemo ! 2 = (chan_new 2 4 0 1 ChanBase)\<lparr>subgraphId := 1\<rparr>" by (simp_all add: reportDemo_def)
  have pe: "is_pe (r_chans reportDemo ! 0)" "is_pe (r_chans reportDemo ! 1)" "is_pe (r_chans reportDemo ! 2)"
    "subgraphId (r_chans reportDemo ! 0) = 0" "subgraphId (r_chans reportDemo ! 1) = 1" "subgraphId (r_chans reportDemo ! 2) = 1"
    "activeCnt (r_chans reportDemo ! 0) = 7" "activeCnt (r_chans reportDemo ! 1) = 2" "activeCnt (r_chans reportDemo ! 2) = 0"
    unfolding c by (simp_all add: is_pe_def chan_new_def)
  have p: "pes (r_chans reportDemo) [0, 1, 2] 0 = [0]" "pes (r_chans reportDemo) [0, 1, 2] 1 = [1, 2]"
    by (simp_all add: pes_def pe [unfolded One_nat_def])
  have two: "(\<exists>i<2. P i) \<longleftrightarrow> P 0 \<or> P (1::nat)" "sum f {..<2} = f 0 + f (1::nat)" for P and f :: "nat \<Rightarrow> nat"
    by (auto simp: numeral_2_eq_2 less_Suc_eq)
  have f: "filter (\<lambda>p. is_pe (r_chans reportDemo ! p)) [0, 1, 2] = [0, 1, 2]" by (simp add: pe [unfolded One_nat_def])
  have no: "\<not> (\<exists>p\<in>set [0, 1, 2]. is_pe (r_chans reportDemo ! p) \<and> 2 \<le> subgraphId (r_chans reportDemo ! p))"
    by (simp add: pe [unfolded One_nat_def])
  have two_div: "5 div Suc (Suc 0) = 2" by (simp flip: numeral_2_eq_2)
  have len: "length (subgraphActiveCnt (scheduler_new\<lparr>subgraphActiveCnt := [10, 20]\<rparr>)) = 2" by simp
  show ?thesis
    by (subst report_numbers [OF h]) (simp only: ps f len two no p pe if_False if_True simp_thms list.distinct,
      simp add: pe_cycles_def profiler_new_def pe [unfolded One_nat_def] two_div)
qed

end
