(* ===== verification/Watchdog.thy ===== *)
theory Watchdog
  imports ChannelClasses
begin

text \<open>
  The watchdog of the simulation (\<open>sim/Watchdog.cpp\<close>), which samples the number of data that some channels
  have sent and barks when none of them has sent any for a number of samples.
\<close>

section \<open>Operations\<close>

record watchdog =
  timer :: nat
  maxFeedTimes :: nat
  feedTimes :: nat
  iterExe :: nat
  checkPointChans :: "(nat \<times> nat) list"

definition watchdog_new :: "nat \<Rightarrow> nat \<Rightarrow> watchdog" where
  "watchdog_new t m = \<lparr>timer = t, maxFeedTimes = m, feedTimes = 0, iterExe = 0, checkPointChans = []\<rparr>"

definition addCheckPointChan :: "nat list \<Rightarrow> watchdog \<Rightarrow> watchdog" where
  "addCheckPointChan ps w = w\<lparr>checkPointChans := checkPointChans w @ map (\<lambda>p. (p, 0)) ps\<rparr>"

text \<open>One pass over the channels: whether some counter differs from the recorded one, and the new records.\<close>

definition sample :: "heap \<Rightarrow> (nat \<times> nat) list \<Rightarrow> (bool \<times> (nat \<times> nat) list) res" where
  "sample h ps = rfold (\<lambda>(p, n) (fed, qs). rbind (deref h p) (\<lambda>c.
     Inr (if chanDataCnt c \<noteq> n then (True, qs @ [(p, chanDataCnt c)]) else (fed, qs @ [(p, n)])))) ps (False, [])"

definition takeSample :: "nat \<Rightarrow> heap \<Rightarrow> watchdog \<Rightarrow> watchdog res" where
  "takeSample i h w = rbind (sample h (checkPointChans w)) (\<lambda>(fed, qs). let w = w\<lparr>checkPointChans := qs\<rparr> in
     Inr (if fed then w\<lparr>feedTimes := 0, iterExe := i\<rparr> else w\<lparr>feedTimes := feedTimes w + 1\<rparr>))"

text \<open>The second value is whether the dog barks. A bark prints a message and reaches a failing
  \<open>DEBUG_ASSERT\<close>, which on Linux expands to the declaration of a function and so changes nothing.\<close>

definition feedDog :: "nat \<Rightarrow> heap \<Rightarrow> watchdog \<Rightarrow> (watchdog \<times> bool) res" where
  "feedDog i h w = rbind (if timer w = 0 then Inl ModByZero else Inr (i mod timer w)) (\<lambda>r.
     rbind (if r = 0 then takeSample i h w else Inr w) (\<lambda>w. Inr (w, feedTimes w = maxFeedTimes w)))"

section \<open>When the dog barks\<close>

text \<open>The simulation calls \<open>feedDog\<close> in every iteration from 0 on; \<open>H i\<close> are the channels in iteration \<open>i\<close>.\<close>

fun watched :: "(nat \<Rightarrow> heap) \<Rightarrow> nat \<Rightarrow> watchdog \<Rightarrow> (watchdog \<times> bool list) res" where
  "watched H 0 w = Inr (w, [])"
| "watched H (Suc i) w = rbind (watched H i w) (\<lambda>(w, bs). rbind (feedDog i (H i) w) (\<lambda>(w, b). Inr (w, bs @ [b])))"

text \<open>Whether some watched channel has sent data between two samples, or before the first one.\<close>

definition progress :: "(nat \<Rightarrow> heap) \<Rightarrow> nat \<Rightarrow> nat list \<Rightarrow> nat \<Rightarrow> bool" where
  "progress H t ps k \<longleftrightarrow> (\<exists>p\<in>set ps. chanDataCnt (H (k * t) ! p) \<noteq> (if k = 0 then 0 else chanDataCnt (H ((k - 1) * t) ! p)))"

fun stale :: "(nat \<Rightarrow> bool) \<Rightarrow> nat \<Rightarrow> nat" where
  "stale P 0 = (if P 0 then 0 else 1)"
| "stale P (Suc k) = (if P (Suc k) then 0 else Suc (stale P k))"

lemma stale_iff: "stale P k = m \<longleftrightarrow> m \<le> Suc k \<and> (\<forall>j<m. \<not> P (k - j)) \<and> (m \<le> k \<longrightarrow> P (k - m))"
proof (induction k arbitrary: m)
  case 0
  show ?case by (cases m) auto
next
  case (Suc k)
  show ?case
  proof (cases m)
    case (Suc l)
    have "(\<forall>j<Suc l. \<not> P (Suc k - j)) \<longleftrightarrow> \<not> P (Suc k) \<and> (\<forall>j<l. \<not> P (k - j))"
      by (auto simp: less_Suc_eq_0_disj)
    with Suc.IH [of l] Suc show ?thesis by auto
  qed auto
qed

lemma sample_eq:
  "set ps \<subseteq> {..<length h} \<Longrightarrow> sample h (map (\<lambda>p. (p, f p)) ps)
     = Inr (\<exists>p\<in>set ps. chanDataCnt (h ! p) \<noteq> f p, map (\<lambda>p. (p, chanDataCnt (h ! p))) ps)"
proof -
  have "rfold (\<lambda>(p, n) (fed, qs). rbind (deref h p) (\<lambda>c.
      Inr (if chanDataCnt c \<noteq> n then (True, qs @ [(p, chanDataCnt c)]) else (fed, qs @ [(p, n)])))) (map (\<lambda>p. (p, f p)) ps) (fed, qs)
    = Inr (fed \<or> (\<exists>p\<in>set ps. chanDataCnt (h ! p) \<noteq> f p), qs @ map (\<lambda>p. (p, chanDataCnt (h ! p))) ps)"
    if "set ps \<subseteq> {..<length h}" for fed qs
    using that by (induction ps arbitrary: fed qs) auto
  then show "set ps \<subseteq> {..<length h} \<Longrightarrow> ?thesis" by (simp add: sample_def)
qed

lemma watched_state:
  assumes "0 < t" "\<forall>i. set ps \<subseteq> {..<length (H i)}"
  shows "\<exists>w. watched H (Suc i) (addCheckPointChan ps (watchdog_new t m))
      = Inr (w, map (\<lambda>i. stale (progress H t ps) (i div t) = m) [0..<Suc i])
    \<and> timer w = t \<and> maxFeedTimes w = m \<and> feedTimes w = stale (progress H t ps) (i div t)
    \<and> checkPointChans w = map (\<lambda>p. (p, chanDataCnt (H (i div t * t) ! p))) ps"
proof (induction i)
  case 0
  show ?case using assms sample_eq [of ps "H 0" "\<lambda>p. 0"]
    by (simp add: feedDog_def takeSample_def watchdog_new_def addCheckPointChan_def progress_def Let_def)
next
  case (Suc i)
  let ?w0 = "addCheckPointChan ps (watchdog_new t m)"
  obtain w where w: "watched H (Suc i) ?w0 = Inr (w, map (\<lambda>i. stale (progress H t ps) (i div t) = m) [0..<Suc i])"
    "timer w = t" "maxFeedTimes w = m" "feedTimes w = stale (progress H t ps) (i div t)"
    "checkPointChans w = map (\<lambda>p. (p, chanDataCnt (H (i div t * t) ! p))) ps"
    using Suc by blast
  have step: "watched H (Suc (Suc i)) ?w0 = rbind (feedDog (Suc i) (H (Suc i)) w)
      (\<lambda>(w, b). Inr (w, map (\<lambda>i. stale (progress H t ps) (i div t) = m) [0..<Suc i] @ [b]))"
    by (subst watched.simps) (simp only: w(1) rbind.simps prod.case)
  show ?case
  proof (cases "Suc i mod t = 0")
    case True
    then have d: "Suc i div t = Suc (i div t)" "Suc (i div t) * t = Suc i"
      using div_mult_mod_eq [of "Suc i" t] by (simp_all add: div_Suc)
    have "sample (H (Suc i)) (checkPointChans w)
        = Inr (progress H t ps (Suc (i div t)), map (\<lambda>p. (p, chanDataCnt (H (Suc i) ! p))) ps)"
      unfolding w(5) progress_def d(2) using sample_eq [of ps "H (Suc i)"] assms(2) by simp
    then show ?thesis unfolding step
      using True assms(1) w d by (simp add: feedDog_def takeSample_def Let_def del: watched.simps)
  next
    case False
    then have "Suc i div t = i div t" by (simp add: div_Suc)
    then show ?thesis unfolding step using False assms(1) w
      by (simp add: feedDog_def del: watched.simps)
  qed
qed

text \<open>C35: the dog barks in an iteration exactly when none of the watched channels has sent data in the last
  \<open>maxFeedTimes\<close> samples, and one has in the sample before, if there is one. It barks in every iteration
  up to the next sample, and is silent from then on although the simulation still stands still.\<close>

theorem watchdog_barks:
  assumes "0 < t" "\<forall>i. set ps \<subseteq> {..<length (H i)}"
  shows "\<exists>w bs. watched H n (addCheckPointChan ps (watchdog_new t m)) = Inr (w, bs) \<and> length bs = n
    \<and> (\<forall>i<n. bs ! i \<longleftrightarrow> m \<le> Suc (i div t) \<and> (\<forall>j<m. \<not> progress H t ps (i div t - j))
         \<and> (m \<le> i div t \<longrightarrow> progress H t ps (i div t - m)))"
proof (cases n)
  case (Suc i)
  obtain w where "watched H (Suc i) (addCheckPointChan ps (watchdog_new t m))
      = Inr (w, map (\<lambda>i. stale (progress H t ps) (i div t) = m) [0..<Suc i])"
    using watched_state [OF assms, of i m] by blast
  then show ?thesis unfolding Suc stale_iff [symmetric] by (simp del: upt_Suc watched.simps)
qed simp

lemma watchdog_barks_witness:
  "\<exists>w bs. watched (\<lambda>i. [(chan_new 0 1 0 1 ChanBase)\<lparr>chanDataCnt := min i 3\<rparr>]) 20 (addCheckPointChan [0] (watchdog_new 2 3))
     = Inr (w, bs) \<and> bs ! 10 \<and> bs ! 11 \<and> \<not> bs ! 12"
proof -
  let ?H = "\<lambda>i. [(chan_new 0 1 0 1 ChanBase)\<lparr>chanDataCnt := min i 3\<rparr>]"
  have "\<forall>i. set [0] \<subseteq> {..<length (?H i)}" by simp
  from watchdog_barks [OF _ this, of 2 20 3]
  obtain w bs where w: "watched ?H 20 (addCheckPointChan [0] (watchdog_new 2 3)) = Inr (w, bs)"
    and all: "\<forall>i<20. bs ! i \<longleftrightarrow> 3 \<le> Suc (i div 2) \<and> (\<forall>j<3. \<not> progress ?H 2 [0] (i div 2 - j))
         \<and> (3 \<le> i div 2 \<longrightarrow> progress ?H 2 [0] (i div 2 - 3))" by auto
  have three: "(\<forall>j<3. P j) \<longleftrightarrow> P 0 \<and> P 1 \<and> P (2::nat)" for P
    by (auto simp: numeral_3_eq_3 less_Suc_eq numeral_2_eq_2)
  have p: "progress ?H 2 [0] k \<longleftrightarrow> k = 1 \<or> k = 2" for k by (cases k) (auto simp: progress_def min_def, presburger)
  have "bs ! 10" "bs ! 11" "\<not> bs ! 12"
    using spec [OF all, of 10, unfolded p three] spec [OF all, of 11, unfolded p three] spec [OF all, of 12, unfolded p three] by simp_all
  with w show ?thesis by blast
qed

end
