(* ===== verification/LoopEnds.thy ===== *)
theory LoopEnds
  imports Loops
begin

text \<open>
  When a loop control finds a loop finished: once for each execution of its loop, in the update in which the last
  iteration ends. What it sends then is the subject of \<open>LoopTokens\<close>.
\<close>

section \<open>What a loop control observes\<close>

text \<open>In one update: whether an iteration is issued, whether another one follows, whether an iteration has
  ended, and whether a loop is finished.\<close>

type_synonym seen = "bool \<times> bool \<times> bool \<times> bool"

definition lc_seen :: "config \<Rightarrow> bool \<Rightarrow> mux list \<Rightarrow> lc \<Rightarrow> clkDomain \<times> heap \<Rightarrow> seen res" where
  "lc_seen g s ms l = (\<lambda>(k, h). rbind (selUpdate s ms h l) (\<lambda>l. rbind (deref h (loopVar l)) (\<lambda>c. rbind (loopUpdate l h) (\<lambda>(l, h).
     rbind (getEndUpdate g l (k, h)) (\<lambda>(l, k, h). rbind (deref h (getEnd l)) (\<lambda>e.
       Inr (ch_valid c, lc_sel l, channel e \<noteq> [], loop_over l)))))))"

text \<open>The loop control in a run, where the rest of the program may change the channels between updates.\<close>

fun lc_run :: "config \<Rightarrow> (bool \<times> mux list \<times> clkDomain \<times> heap) list \<Rightarrow> lc \<Rightarrow> (lc \<times> seen list) res" where
  "lc_run g [] l = Inr (l, [])"
| "lc_run g ((s, ms, k, h) # ins) l = rbind (lc_seen g s ms l (k, h)) (\<lambda>e. rbind (lcUpdate g s ms l (k, h)) (\<lambda>(l, _).
     rbind (lc_run g ins l) (\<lambda>(l, es). Inr (l, e # es))))"

definition count_step :: "seen \<Rightarrow> nat \<times> nat list \<times> nat \<Rightarrow> nat \<times> nat list \<times> nat" where
  "count_step = (\<lambda>(v, s, e, f) (n, q, m).
     let (n, q) = (if v then if s then (n + 1, q) else (0, q @ [n + 1]) else (n, q)); m = (if e then m + 1 else m) in
     if f then (n, tl q, 0) else (n, q, m))"

definition counters :: "lc \<Rightarrow> nat \<times> nat list \<times> nat" where
  "counters l = (loopNum l, loopNumQ l, loopEnd l)"

definition sends :: "seen \<Rightarrow> nat \<times> nat list \<times> nat \<Rightarrow> bool" where
  "sends = (\<lambda>(v, s, e, f) (n, q, m).
     let q = (if v \<and> \<not> s then q @ [n + 1] else q); m = (if e then m + 1 else m) in q \<noteq> [] \<and> m = hd q)"

lemma selUpdate_counters: "selUpdate s ms h l = Inr l' \<Longrightarrow> counters l' = counters l"
  by (auto simp: selUpdate_def rbind_Inr_iff counters_def)

lemma loopUpdate_lc: "loopUpdate l h = Inr (l', h') \<Longrightarrow> deref h (loopVar l) = Inr c \<Longrightarrow> l' = count_loops (ch_valid c) l"
  by (auto simp: loopUpdate_def rbind_Inr_iff Let_def)

lemma getEndUpdate_lc:
  "getEndUpdate g l s = Inr (l', k, h) \<Longrightarrow> deref h (getEnd l') = Inr e \<Longrightarrow> l' = (if channel e \<noteq> [] then l\<lparr>loopEnd := loopEnd l + 1\<rparr> else l)"
  by (auto simp: getEndUpdate_def rbind_Inr_iff split: if_splits)

lemma sendEndUpdate_lc:
  "sendEndUpdate g l s = Inr (l', r) \<Longrightarrow> l' = (if loop_over l then l\<lparr>loopNumQ := tl (loopNumQ l), loopEnd := 0\<rparr> else l)"
  by (cases s) (auto simp: sendEndUpdate_def rbind_Inr_iff split: if_splits)

lemma lcUpdate_counts:
  assumes "lc_seen g s ms l (k, h) = Inr x" "lcUpdate g s ms l (k, h) = Inr (l', r)"
  shows "counters l' = count_step x (counters l) \<and> (snd (snd (snd x)) \<longleftrightarrow> sends x (counters l))"
proof -
  obtain l1 c l2 h2 l3 k3 h3 e where r: "selUpdate s ms h l = Inr l1" "deref h (loopVar l1) = Inr c" "loopUpdate l1 h = Inr (l2, h2)"
    "getEndUpdate g l2 (k, h2) = Inr (l3, k3, h3)" "deref h3 (getEnd l3) = Inr e"
    "x = (ch_valid c, lc_sel l3, channel e \<noteq> [], loop_over l3)"
    using assms(1) unfolding lc_seen_def by (fastforce simp: rbind_Inr_iff)
  have send: "sendEndUpdate g l3 (k3, h3) = Inr (l', r)"
    using assms(2) r(1,3,4) by (simp add: lcUpdate_def)
  have l1: "counters l1 = counters l" using r(1) by (rule selUpdate_counters)
  have l2: "l2 = count_loops (ch_valid c) l1" using r(3,2) by (rule loopUpdate_lc)
  have l3: "l3 = (if channel e \<noteq> [] then l2\<lparr>loopEnd := loopEnd l2 + 1\<rparr> else l2)" using r(4,5) by (rule getEndUpdate_lc)
  have l': "l' = (if loop_over l3 then l3\<lparr>loopNumQ := tl (loopNumQ l3), loopEnd := 0\<rparr> else l3)" using send by (rule sendEndUpdate_lc)
  obtain n q m where c: "counters l = (n, q, m)" by (cases "counters l") auto
  have c1: "loopNum l1 = n" "loopNumQ l1 = q" "loopEnd l1 = m" using l1 c by (simp_all add: counters_def)
  let ?q = "if ch_valid c \<and> \<not> lc_sel l1 then q @ [n + 1] else q" and ?m = "if channel e \<noteq> [] then m + 1 else m"
  have c3: "loopNum l3 = (if ch_valid c then if lc_sel l1 then n + 1 else 0 else n)" "loopNumQ l3 = ?q" "loopEnd l3 = ?m"
    unfolding l3 l2 count_loops_def by (simp_all add: c1 Let_def)
  have sel: "lc_sel l3 = lc_sel l1" unfolding l3 l2 count_loops_def by (simp add: Let_def)
  have over: "loop_over l3 \<longleftrightarrow> ?q \<noteq> [] \<and> ?m = hd ?q" unfolding loop_over_def c3 by blast
  have fin: "counters l' = (loopNum l3, if loop_over l3 then tl ?q else ?q, if loop_over l3 then 0 else ?m)"
    unfolding l' counters_def by (simp add: c3)
  show ?thesis unfolding c r(6) sel fin over unfolding count_step_def sends_def by (simp add: Let_def c3)
qed

section \<open>Finished loops\<close>

text \<open>The numbers of iterations of the loops issued completely, and of the one being issued.\<close>

fun trips :: "nat \<Rightarrow> (bool \<times> bool \<times> bool \<times> 'a) list \<Rightarrow> nat list" where
  "trips n [] = []"
| "trips n ((v, s, e, f) # xs) = (if v then if s then trips (Suc n) xs else Suc n # trips 0 xs else trips n xs)"

fun open_loop :: "nat \<Rightarrow> (bool \<times> bool \<times> bool \<times> 'a) list \<Rightarrow> nat" where
  "open_loop n [] = n"
| "open_loop n ((v, s, e, f) # xs) = open_loop (if v then if s then Suc n else 0 else n) xs"

definition issues :: "(bool \<times> bool \<times> bool \<times> 'a) list \<Rightarrow> nat" where
  "issues xs = length (filter (\<lambda>(v, s, e, f). v) xs)"

definition ends :: "(bool \<times> bool \<times> bool \<times> 'a) list \<Rightarrow> nat" where
  "ends xs = length (filter (\<lambda>(v, s, e, f). e) xs)"

definition tokens :: "seen list \<Rightarrow> nat" where
  "tokens xs = length (filter (\<lambda>(v, s, e, f). f) xs)"

lemma trips_snoc: "trips n (xs @ [(v, s, e, f)]) = trips n xs @ (if v \<and> \<not> s then [Suc (open_loop n xs)] else [])"
  by (induction n xs rule: trips.induct) auto

lemma open_snoc: "open_loop n (xs @ [(v, s, e, f)]) = (if v then if s then Suc (open_loop n xs) else 0 else open_loop n xs)"
  by (induction n xs rule: open_loop.induct) auto

lemma issued_sum: "sum_list (trips n xs) + open_loop n xs = n + issues xs"
  by (induction n xs rule: trips.induct) (auto simp: issues_def)

lemma lc_run_snoc:
  "lc_run g (ins @ [(s, ms, k, h)]) l = rbind (lc_run g ins l) (\<lambda>(l, es). rbind (lc_seen g s ms l (k, h)) (\<lambda>e.
     rbind (lcUpdate g s ms l (k, h)) (\<lambda>(l, _). Inr (l, es @ [e]))))"
proof (induction ins arbitrary: l)
  case (Cons i ins)
  obtain s ms k h where i: "i = (s, ms, k, h)" by (cases i) auto
  show ?case unfolding i by (auto simp: Cons rbind_assoc split_def cong: rbind_cong)
qed simp

text \<open>Between two updates: the queue holds the loops that have not ended, in order, and the counter the ended
  iterations of the first one, which are fewer than it has.\<close>

definition loop_inv :: "seen list \<Rightarrow> nat \<times> nat list \<times> nat \<Rightarrow> bool" where
  "loop_inv xs = (\<lambda>(n, q, m). n = open_loop 0 xs \<and> tokens xs \<le> length (trips 0 xs) \<and> q = drop (tokens xs) (trips 0 xs)
     \<and> sum_list (take (tokens xs) (trips 0 xs)) + m = ends xs \<and> (q \<noteq> [] \<longrightarrow> m < hd q))"

lemma loop_invD:
  assumes "loop_inv xs (n, q, m)"
  shows "n = open_loop 0 xs" "tokens xs \<le> length (trips 0 xs)" "q = drop (tokens xs) (trips 0 xs)"
    "sum_list (take (tokens xs) (trips 0 xs)) + m = ends xs" "q \<noteq> [] \<longrightarrow> m < hd q"
  using assms unfolding loop_inv_def prod.case by blast+

lemma trips_pos: "t \<in> set (trips n xs) \<Longrightarrow> 0 < t"
  by (induction n xs rule: trips.induct) (auto split: if_splits)

lemma loop_inv_step:
  assumes inv: "loop_inv xs (n, q, m)" and x: "x = (v, s, e, f)" and f: "f \<longleftrightarrow> sends x (n, q, m)"
    and le: "ends xs \<le> issues xs" "ends (xs @ [x]) \<le> issues (xs @ [x])"
  shows "loop_inv (xs @ [x]) (count_step x (n, q, m))"
proof -
  let ?T = "tokens xs" and ?ts = "trips 0 xs" and ?q = "if v \<and> \<not> s then q @ [Suc n] else q" and ?m = "if e then Suc m else m"
  have i: "n = open_loop 0 xs" "?T \<le> length ?ts" "q = drop ?T ?ts" "sum_list (take ?T ?ts) + m = ends xs" "q \<noteq> [] \<longrightarrow> m < hd q"
    using loop_invD [OF inv] by blast+
  have ts: "trips 0 (xs @ [x]) = ?ts @ (if v \<and> \<not> s then [Suc n] else [])"
    and op: "open_loop 0 (xs @ [x]) = (if v then if s then Suc n else 0 else n)"
    unfolding x trips_snoc open_snoc i(1) by simp_all
  have q: "?q = drop ?T (trips 0 (xs @ [x]))" using i(2,3) unfolding ts by simp
  have en: "ends (xs @ [x]) = (if e then Suc (ends xs) else ends xs)" by (simp add: ends_def x)
  have m: "sum_list (take ?T (trips 0 (xs @ [x]))) + ?m = ends (xs @ [x])" using i(2,4) unfolding ts en by simp
  have tk: "tokens (xs @ [x]) = (if f then Suc ?T else ?T)" by (simp add: tokens_def x)
  have ff: "f \<longleftrightarrow> ?q \<noteq> [] \<and> ?m = hd ?q" using f by (simp add: sends_def x Let_def)
  have lt: "?m \<le> hd ?q" if "?q \<noteq> []"
  proof (cases "q = []")
    case False
    then show ?thesis using i(5) by auto
  next
    case True
    then have "?T = length ?ts" using i(2,3) by simp
    then have "ends xs = sum_list ?ts + m" "issues xs = sum_list ?ts + n"
      using i(4) issued_sum [of 0 xs] i(1) by simp_all
    moreover have vs: "v" "\<not> s" using that True by (auto split: if_splits)
    moreover have "issues (xs @ [x]) = Suc (issues xs)" using vs by (simp add: issues_def x)
    ultimately have "?m \<le> Suc n" using le(2) en by (auto split: if_splits)
    then show ?thesis using True vs by simp
  qed
  define Q M TS where "Q = ?q" and "M = ?m" and "TS = trips 0 (xs @ [x])"
  have len: "?T \<le> length TS" using i(2) unfolding TS_def ts by simp
  note q = q [folded Q_def TS_def] and m = m [folded M_def TS_def] and lt = lt [folded Q_def M_def]
    and ff = ff [folded Q_def M_def]
  have cs: "count_step x (n, q, m) = (open_loop 0 (xs @ [x]), if f then tl Q else Q, if f then 0 else M)"
    unfolding op Q_def M_def by (auto simp: count_step_def x Let_def)
  show ?thesis
  proof (cases f)
    case False
    have "Q \<noteq> [] \<longrightarrow> M < hd Q" using ff lt False by auto
    then show ?thesis unfolding cs loop_inv_def prod.case TS_def [symmetric] using False q m tk len by simp
  next
    case True
    then have ne: "Q \<noteq> []" "M = hd Q" using ff by auto
    have T: "?T < length TS" using ne(1) q by (metis drop_eq_Nil not_le)
    have "take (Suc ?T) TS = take ?T TS @ [hd Q]"
      unfolding q using T by (simp add: take_Suc_conv_app_nth hd_drop_conv_nth)
    then have s: "sum_list (take (Suc ?T) TS) = ends (xs @ [x])" using m ne(2) by simp
    have d: "tl Q = drop (Suc ?T) TS" unfolding q by (simp add: drop_Suc tl_drop)
    have pos: "tl Q \<noteq> [] \<longrightarrow> 0 < hd (tl Q)"
    proof
      assume "tl Q \<noteq> []"
      then have "hd (tl Q) \<in> set TS" unfolding d by (meson hd_in_set in_set_dropD)
      then show "0 < hd (tl Q)" unfolding TS_def by (rule trips_pos)
    qed
    show ?thesis unfolding cs loop_inv_def prod.case TS_def [symmetric] using True T s d tk pos by simp
  qed
qed

lemma loop_inv_run:
  assumes "lc_run g ins l = Inr (l', xs)" "counters l = (0, [], 0)" "\<forall>n\<le>length xs. ends (take n xs) \<le> issues (take n xs)"
  shows "loop_inv xs (counters l')"
  using assms
proof (induction ins arbitrary: l' xs rule: rev_induct)
  case Nil
  then show ?case by (simp add: loop_inv_def tokens_def ends_def)
next
  case (snoc i ins)
  obtain s ms k h where i: "i = (s, ms, k, h)" by (cases i) auto
  from snoc.prems(1) obtain l1 es x r where r: "lc_run g ins l = Inr (l1, es)" "lc_seen g s ms l1 (k, h) = Inr x"
    "lcUpdate g s ms l1 (k, h) = Inr (l', r)" "xs = es @ [x]"
    unfolding i lc_run_snoc by (auto simp: rbind_Inr_iff)
  have le: "ends (take n xs) \<le> issues (take n xs)" if "n \<le> length xs" for n using snoc.prems(3) that by blast
  have "\<forall>n\<le>length es. ends (take n es) \<le> issues (take n es)"
  proof (intro allI impI)
    fix n assume "n \<le> length es"
    then show "ends (take n es) \<le> issues (take n es)" using le [of n] by (simp add: r(4))
  qed
  then have inv: "loop_inv es (counters l1)" using snoc.IH [OF r(1) snoc.prems(2)] by blast
  obtain v s' e f where x: "x = (v, s', e, f)" by (cases x) auto
  have st: "counters l' = count_step x (counters l1)" "f \<longleftrightarrow> sends x (counters l1)"
    using lcUpdate_counts [OF r(2,3)] x by auto
  obtain n q m where c: "counters l1 = (n, q, m)" by (cases "counters l1") auto
  have "ends es \<le> issues es" "ends (es @ [x]) \<le> issues (es @ [x])"
    using le [of "length es"] le [of "Suc (length es)"] unfolding r(4) by simp_all
  from loop_inv_step [OF inv [unfolded c] x st(2) [unfolded c] this]
  have "loop_inv (es @ [x]) (count_step x (counters l1))" unfolding c .
  then show ?case by (simp add: st(1) r(4))
qed

lemma sum_take_mono: "i \<le> j \<Longrightarrow> sum_list (take i ts) \<le> sum_list (take j (ts :: nat list))"
  by (metis le_add1 sum_list_append take_add le_add_diff_inverse)

text \<open>After any number of updates, as many loops were found finished as have ended completely.\<close>

lemma loop_end_counts:
  assumes "lc_run g ins l = Inr (l', xs)" "counters l = (0, [], 0)"
    and "\<forall>n\<le>length xs. ends (take n xs) \<le> issues (take n xs)"
  shows "loopNumQ l' = drop (tokens xs) (trips 0 xs) \<and> tokens xs \<le> length (trips 0 xs)
    \<and> (\<forall>i\<le>length (trips 0 xs). i \<le> tokens xs \<longleftrightarrow> sum_list (take i (trips 0 xs)) \<le> ends xs)"
proof -
  let ?T = "tokens xs" and ?ts = "trips 0 xs"
  have i: "?T \<le> length ?ts" "loopNumQ l' = drop ?T ?ts" "sum_list (take ?T ?ts) + loopEnd l' = ends xs"
    "loopNumQ l' \<noteq> [] \<longrightarrow> loopEnd l' < hd (loopNumQ l')"
    using loop_invD [OF loop_inv_run [OF assms, unfolded counters_def]] by blast+
  have "i \<le> ?T \<longleftrightarrow> sum_list (take i ?ts) \<le> ends xs" if le: "i \<le> length ?ts" for i
  proof
    assume "i \<le> ?T"
    then show "sum_list (take i ?ts) \<le> ends xs" using sum_take_mono [of i ?T ?ts] i(3) by simp
  next
    assume s: "sum_list (take i ?ts) \<le> ends xs"
    show "i \<le> ?T"
    proof (rule ccontr)
      assume "\<not> i \<le> ?T"
      then have T: "Suc ?T \<le> i" "?T < length ?ts" using le by auto
      then have "sum_list (take (Suc ?T) ?ts) = sum_list (take ?T ?ts) + hd (loopNumQ l')"
        unfolding i(2) by (simp add: take_Suc_conv_app_nth hd_drop_conv_nth)
      then show False using sum_take_mono [OF T(1), of ?ts] s i(2,3,4) T(2) by auto
    qed
  qed
  with i show ?thesis by blast
qed

text \<open>A loop of one iteration.\<close>

definition loopDemo :: lc where
  "loopDemo = lc_new ''Lc_i'' 0 0 0 1 2"

definition loopDemoMux :: mux where
  "loopDemoMux = (mux_new ''Lc_i_mux'' 1 3 4 5)\<lparr>muxSuccess := True\<rparr>"

definition endChan :: "nat \<Rightarrow> chan" where
  "endChan i = (chan_new i 2 0 1 ChanBase)\<lparr>noDownstream := True, chanBuffer := [[]], chanBufferDataCnt := [0],
     getTheLastData := [False], bp := [False], ch_lastPopVal := [0]\<rparr>"

definition loopDemoHeap :: "bool \<Rightarrow> data list \<Rightarrow> heap" where
  "loopDemoHeap v q = [(chan_new 0 2 0 1 ChanBase)\<lparr>ch_valid := v, channel := [data0]\<rparr>,
     (endChan 1)\<lparr>upstream := [3], chanBuffer := [q]\<rparr>, (endChan 2)\<lparr>noUpstream := True\<rparr>,
     chan_new 3 2 0 1 ChanBase]"

text \<open>A token that waits behind the one that is being read is lost when another loop ends: the channel is
  popped before the waiting token is announced, and once more by the \<open>get\<close> of the new one.\<close>

lemma waiting_token_lost:
  assumes "d = data0\<lparr>d_valid := True\<rparr>"
  shows "\<exists>l' k' h'. sendEndUpdate cfg_demo (loopDemo\<lparr>loopNumQ := [1], loopEnd := 1\<rparr>)
      (\<lparr>clk = 5, clkAdd = True, clkStall = []\<rparr>,
       [chan_new 0 2 0 1 ChanBase, endChan 1,
        (endChan 2)\<lparr>noUpstream := True, ch_valid := True, channel := [d], chanBuffer := [[d, d]]\<rparr>]) = Inr (l', k', h')
    \<and> length (chanBuffer (h' ! 2) ! 0) = 1 \<and> chanDataCnt (h' ! 2) = 2"
proof -
  have "(case sendEndUpdate cfg_demo (loopDemo\<lparr>loopNumQ := [1], loopEnd := 1\<rparr>)
      (\<lparr>clk = 5, clkAdd = True, clkStall = []\<rparr>,
       [chan_new 0 2 0 1 ChanBase, endChan 1,
        (endChan 2)\<lparr>noUpstream := True, ch_valid := True, channel := [data0\<lparr>d_valid := True\<rparr>],
           chanBuffer := [[data0\<lparr>d_valid := True\<rparr>, data0\<lparr>d_valid := True\<rparr>]]\<rparr>])
      of Inr (l', k', h') \<Rightarrow> length (chanBuffer (h' ! 2) ! 0) = 1 \<and> chanDataCnt (h' ! 2) = 2 | _ \<Rightarrow> False)" by code_simp
  then show ?thesis unfolding assms by (auto split: sum.splits)
qed

end
