(* ===== verification/Frames.thy ===== *)
theory Frames
  imports LsePipe Loops
begin

text \<open>
  What a module leaves alone: every operation of a channel, a multiplexer or a loop control changes the channels of
  that module only, apart from the last tags that it sends to channels in front of it.
\<close>

definition frame :: "nat set \<Rightarrow> heap \<Rightarrow> heap \<Rightarrow> bool" where
  "frame R h h' \<longleftrightarrow> length h' = length h \<and> (\<forall>x<length h. x \<notin> R \<longrightarrow> h' ! x = (h ! x)\<lparr>lastTagQueue := lastTagQueue (h' ! x)\<rparr>)"

named_theorems frames \<open>the channels that an operation may change\<close>

lemma frameD: "frame R h h' \<Longrightarrow> x < length h \<Longrightarrow> x \<notin> R \<Longrightarrow> h' ! x = (h ! x)\<lparr>lastTagQueue := lastTagQueue (h' ! x)\<rparr>"
  and frame_length: "frame R h h' \<Longrightarrow> length h' = length h"
  by (simp_all add: frame_def)

lemma frame_refl [simp]: "frame R h h"
  by (simp add: frame_def)

lemma frame_trans [trans]:
  assumes "frame R h h1" "frame R h1 h2"
  shows "frame R h h2"
proof -
  have "h2 ! x = (h ! x)\<lparr>lastTagQueue := lastTagQueue (h2 ! x)\<rparr>" if x: "x < length h" "x \<notin> R" for x
  proof -
    have "h2 ! x = (h1 ! x)\<lparr>lastTagQueue := lastTagQueue (h2 ! x)\<rparr>" using frameD [OF assms(2)] x frame_length [OF assms(1)] by simp
    also have "\<dots> = ((h ! x)\<lparr>lastTagQueue := lastTagQueue (h1 ! x)\<rparr>)\<lparr>lastTagQueue := lastTagQueue (h2 ! x)\<rparr>"
      using frameD [OF assms(1) x] by simp
    finally show ?thesis by simp
  qed
  with assms show ?thesis by (simp add: frame_def)
qed

lemma frame_mono: "frame R h h' \<Longrightarrow> R \<subseteq> S \<Longrightarrow> frame S h h'"
  by (auto simp: frame_def)

lemma frame_update: "p \<in> R \<Longrightarrow> frame R h (h[p := c])"
  unfolding frame_def by (intro conjI allI impI) (simp, metis (no_types) chan.surjective chan.update_convs(7) nth_list_update_neq)

lemma frame_update_iff [simp]:
  "frame {p} (h[p := c]) h' = frame {p} h h'" "frame {p} h (h'[p := c]) = frame {p} h h'"
  unfolding frame_def by (auto simp: nth_list_update)

lemma frame_modify [frames]: "modify p f h = Inr h' \<Longrightarrow> frame {p} h h'"
  by (auto simp: modify_Inr)

lemma frame_tags: "sendLastTag p h = Inr h' \<Longrightarrow> frame R h h'"
proof -
  assume "sendLastTag p h = Inr h'"
  then have s: "same_but_tags h h'" by (rule sendLastTag_same)
  then have "length h' = length h" by (metis same_but_tags_def length_map)
  with same_but_tags_nth(2) [OF s] show ?thesis by (simp add: frame_def)
qed

lemma frame_tags_own [frames]: "sendLastTag p h = Inr h' \<Longrightarrow> frame {p} h h'"
  by (rule frame_tags)

lemma frame_rfold:
  assumes "rfold f xs h = Inr h'" "\<And>x h h'. x \<in> set xs \<Longrightarrow> f x h = Inr h' \<Longrightarrow> frame R h h'"
  shows "frame R h h'"
  using assms(1)
proof (rule rfold_partial [where P = "frame R h"])
  show "frame R h t'" if "x \<in> set xs" "frame R h t" "f x t = Inr t'" for x t t'
    using frame_trans that(2) assms(2) [OF that(1,3)] .
qed simp

section \<open>Channels\<close>

lemma frame_pushBuffer [frames]: "pushBuffer now p v b h = Inr h' \<Longrightarrow> frame {p} h h'"
  unfolding pushBuffer_def
  by (auto simp: rbind_Inr_iff Let_def split: if_splits dest!: frames intro: frame_trans)

lemma frame_push [frames]: "push now p v b h = Inr h' \<Longrightarrow> frame {p} h h'"
  unfolding push_def base_push_def dgsf_push_def dgsf_pushBuffer_def
  by (auto simp: rbind_Inr_iff deref_Inr_iff split: if_splits subobject.splits dest!: frames intro: frame_trans)

lemma frame_sgmf_pushChannel [frames]: "sgmf_pushChannel now t p h = Inr h' \<Longrightarrow> frame {p} h h'"
  unfolding sgmf_pushChannel_def
  by (auto simp: rbind_Inr_iff Let_def split: if_splits dest!: frames intro: frame_trans)

lemma frame_sgmf_send [frames]: "sgmf_send now p ds h = Inr h' \<Longrightarrow> frame {p} h h'"
  by (induction now p ds h rule: sgmf_send.induct) (auto simp: rbind_Inr_iff split: if_splits dest!: frames)

lemma frame_pushReqQ [frames]: "pushReqQ g now p h = Inr h' \<Longrightarrow> frame {p} h h'"
  unfolding pushReqQ_def Let_def
  by (auto simp: rbind_Inr_iff split: if_splits dest!: frames intro: frame_trans)

text \<open>The status update of a unit in its two halves: the request of the datum at the head of the buffers, and the rest.\<close>

definition lse_rest :: "config \<Rightarrow> u64 \<Rightarrow> nat \<Rightarrow> heap \<Rightarrow> heap res" where
  "lse_rest g now p h = rbind (modify p (\<lambda>c. rbind (lse_select g now (branchMode c) (currId c) (lse_of (sub c))) (\<lambda>l.
              lse_pushChannel g now (c\<lparr>ch_valid := True, sub := ChanLse l\<rparr>))) h) (\<lambda>h.
     rbind (deref h p) (\<lambda>c.
     rbind (if channel c = [] then Inr False
            else if \<not> noDownstream c then sendable h (downstream c) (hd (channel c)) p else Inr True) (\<lambda>v.
       Inr (h[p := c\<lparr>ch_valid := v, chanDataCnt := (if v then chanDataCnt c + 1 else chanDataCnt c)\<rparr>]))))"

lemma lse_statusUpdate_halves:
  assumes "lse_statusUpdate g now p h = Inr h'"
  obtains h1 where "p < length h" "pushReqQ g now p h = Inr h1 \<or> h1 = h" "lse_rest g now p h1 = Inr h'"
proof -
  have "lse_statusUpdate g now p h = rbind (deref h p) (\<lambda>c. rbind (if list_all (\<lambda>q. q \<noteq> [] \<and> d_cycle (hd q) \<le> now) (chanBuffer c)
      then pushReqQ g now p h else Inr h) (lse_rest g now p))"
    unfolding lse_statusUpdate_def lse_rest_def by simp
  with assms that show ?thesis by (auto simp: rbind_Inr_iff deref_Inr_iff split: if_splits)
qed

lemma frame_tail:
  "rbind (modify p f h) (\<lambda>h. rbind (deref h p) (\<lambda>c. rbind (V h c) (\<lambda>v. Inr (h[p := G v c])))) = Inr h' \<Longrightarrow> frame {p} h h'"
  by (auto simp: rbind_Inr_iff dest: frame_modify)

lemma frame_lse_statusUpdate [frames]:
  assumes "lse_statusUpdate g now p h = Inr h'"
  shows "frame {p} h h'"
proof -
  obtain h1 where h: "pushReqQ g now p h = Inr h1 \<or> h1 = h" "lse_rest g now p h1 = Inr h'"
    using assms by (rule lse_statusUpdate_halves)
  have "frame {p} h h1" using h(1) by (auto dest: frame_pushReqQ)
  moreover have "frame {p} h1 h'" using h(2) unfolding lse_rest_def by (rule frame_tail)
  ultimately show ?thesis by (rule frame_trans)
qed

lemma frame_sgmf_statusUpdate [frames]: "sgmf_statusUpdate now p h = Inr h' \<Longrightarrow> frame {p} h h'"
  unfolding sgmf_statusUpdate_def
  by (auto simp: rbind_Inr_iff Let_def split: if_splits dest!: frames intro: frame_trans)

lemma frame_base_statusUpdate [frames]: "base_statusUpdate now p h = Inr h' \<Longrightarrow> frame {p} h h'"
  unfolding base_statusUpdate_def base_announce_def by (auto simp: rbind_Inr_iff Let_def)

lemma frame_statusUpdate [frames]: "statusUpdate g now p h = Inr h' \<Longrightarrow> frame {p} h h'"
  unfolding statusUpdate_def by (cases "sub (h ! p)") (auto simp: rbind_Inr_iff deref_Inr_iff dest!: frames)

lemma frame_push_all [frames]: "push_all now p h = Inr h' \<Longrightarrow> frame {p} h h'"
  unfolding push_all_def
  by (cases "sub (h ! p)") (auto simp: rbind_Inr_iff deref_Inr_iff dest!: frames elim!: frame_rfold)

lemma frame_refresh [frames]: "refresh g b k p h = Inr h' \<Longrightarrow> frame {p} h h'"
  unfolding refresh_def by (auto simp: rbind_Inr_iff split: if_splits dest!: frames intro: frame_trans)

text \<open>The clock that \<open>get\<close> works with, and what it makes of the channel first.\<close>

lemma frame_get [frames]:
  assumes "get g p (k, h) = Inr (k', h')"
  shows "frame {p} h h'"
proof -
  obtain c' kk where ck: "(if 1 < speedup (h ! p) then parallelize (h ! p) k else (h ! p, k)) = (c', kk)" by fastforce
  have sgmf: "frame {p} h h'" if "\<exists>a b c. sub (h ! p) = ChanSGMF a b c"
    using assms that unfolding get_def by (auto simp: rbind_Inr_iff deref_Inr_iff dest!: frames) (metis frame_trans)
  obtain h1 h2 where "modify p (pop (h[p := c'])) (h[p := c']) = Inr h1" "push_all (clk kk) p h1 = Inr h2"
      "refresh g True kk p h2 = Inr h'" if "\<nexists>a b c. sub (h ! p) = ChanSGMF a b c"
    using assms unfolding get_def prod.case
    by (cases "sub (h ! p)") (auto simp: rbind_Inr_iff deref_Inr_iff ck [simplified] Let_def)
  then show ?thesis using sgmf by (metis frame_update_iff(1) frame_modify frame_push_all frame_refresh frame_trans)
qed

lemma frame_get_data [frames]:
  assumes "get_data g vs p (k, h) = Inr (k', h')"
  shows "frame {p} h h'"
proof -
  obtain c' kk where ck: "(if 1 < speedup (h ! p) then parallelize (h ! p) k else (h ! p, k)) = (c', kk)" by fastforce
  obtain h1 h2 where h: "modify p (pop (h[p := c'])) (h[p := c']) = Inr h1"
      "rfold (\<lambda>(b, v). push (clk kk) p v b) (zip [0..<length vs] vs) h1 = Inr h2" "refresh g False kk p h2 = Inr h'"
    using assms unfolding get_data_def prod.case by (auto simp: rbind_Inr_iff deref_Inr_iff ck [simplified] Let_def)
  have "frame {p} h1 h2" using h(2) by (rule frame_rfold) (auto dest!: frames)
  then show ?thesis using h(1,3) by (metis frame_update_iff(1) frame_modify frame_refresh frame_trans)
qed

lemma frame_sgmf_get_data [frames]:
  assumes "sgmf_get_data g vs tag p (k, h) = Inr (k', h')"
  shows "frame {p} h h'"
proof -
  obtain h1 h2 bs where h: "modify p (pop h) h = Inr h1"
      "rfold (\<lambda>b h. rbind (rnth vs b) (\<lambda>v. modify p (sgmf_push (clk k) v b tag h) h)) bs h1 = Inr h2"
      "statusUpdate g (clk k) p h2 = Inr h'"
    using assms unfolding sgmf_get_data_def prod.case by (auto simp: rbind_Inr_iff split: if_splits)
  have "frame {p} h1 h2" using h(2) by (rule frame_rfold) (auto simp: rbind_Inr_iff dest!: frames)
  then show ?thesis using h(1,3) by (metis frame_modify frame_statusUpdate frame_trans)
qed

section \<open>Multiplexers and loop controls\<close>

definition mux_chans :: "mux \<Rightarrow> nat set" where
  "mux_chans m = {outChan m, trueChan m, falseChan m}"

lemma mux_chans_mem [simp]: "outChan m \<in> mux_chans m" "trueChan m \<in> mux_chans m" "falseChan m \<in> mux_chans m"
  by (simp_all add: mux_chans_def)

lemma frame_one: "frame {p} h h' \<Longrightarrow> p \<in> R \<Longrightarrow> frame R h h'"
  by (auto elim: frame_mono)

lemma frame_pushOutChan:
  assumes "pushOutChan g m (k, h) = Inr (k', h')"
  shows "frame {outChan m} h h'"
proof (cases "mux_kind m")
  case MuxBase
  with assms show ?thesis unfolding pushOutChan_def base_pushOutChan_def
    by (auto simp: rbind_Inr_iff dest!: frame_get_data frame_modify intro: frame_trans)
next
  case (MuxSGMF b)
  with assms show ?thesis unfolding pushOutChan_def sgmf_pushOutChan_def
    by (auto simp: rbind_Inr_iff dest!: frame_sgmf_get_data frame_modify intro: frame_trans)
qed

lemma frame_mux_bpUpdate:
  assumes "mux_bpUpdate m h = Inr h'"
  shows "frame (mux_chans m) h h'"
proof (cases "mux_kind m")
  case MuxBase
  with assms show ?thesis unfolding mux_bpUpdate_def mux_base_bpUpdate_def
    by (auto simp: rbind_Inr_iff dest!: frame_modify frame_one [where R = "mux_chans m"] intro: frame_trans)
next
  case (MuxSGMF b)
  with assms show ?thesis unfolding mux_bpUpdate_def mux_sgmf_bpUpdate_def
    by (auto simp: rbind_Inr_iff dest!: frame_modify frame_one [where R = "mux_chans m"] elim!: frame_rfold intro: frame_trans)
qed

lemma mux_checkUpstream_chans:
  assumes "mux_checkUpstream us h m = Inr (r, m')"
  shows "outChan m' = outChan m \<and> trueChan m' = trueChan m \<and> falseChan m' = falseChan m \<and> mux_kind m' = mux_kind m"
  using assms by (auto simp: mux_checkUpstream_def recordDataStatus_def rbind_Inr_iff split: if_splits)

lemma frame_muxUpdate:
  assumes "muxUpdate g s m (k, h) = Inr (m', k', h')"
  shows "frame (mux_chans m) h h'" "outChan m' = outChan m \<and> trueChan m' = trueChan m \<and> falseChan m' = falseChan m"
proof -
  let ?m = "m\<lparr>mux_sel := s\<rparr>"
  obtain h1 h2 us r m1 k3 h3 where h: "modify (outChan m) (pop h) h = Inr h1" "statusUpdate g (clk k) (outChan m) h1 = Inr h2"
      "mux_checkUpstream us h2 ?m = Inr (r, m1)" "(if r then pushOutChan g m1 (k, h2) else Inr (k, h2)) = Inr (k3, h3)"
      "mux_bpUpdate m1 h3 = Inr h'" "m' = m1\<lparr>muxSuccess := r\<rparr>"
    using assms unfolding muxUpdate_def by (auto simp: rbind_Inr_iff Let_def)
  note m1 = mux_checkUpstream_chans [OF h(3)]
  then show "outChan m' = outChan m \<and> trueChan m' = trueChan m \<and> falseChan m' = falseChan m" using h(6) by simp
  have same: "mux_chans m1 = mux_chans m" using m1 by (simp add: mux_chans_def)
  have "frame {outChan m} h2 h3" using h(4) m1 by (auto split: if_splits dest!: frame_pushOutChan)
  with h(1,2) have "frame {outChan m} h h3" by (metis frame_modify frame_statusUpdate frame_trans)
  then have "frame (mux_chans m) h h3" by (rule frame_one) simp
  with frame_mux_bpUpdate [OF h(5)] same show "frame (mux_chans m) h h'" by (metis frame_trans)
qed

definition lc_chans :: "lc \<Rightarrow> nat set" where
  "lc_chans l = {loopVar l, getEnd l, sendEnd l}"

definition same_lc :: "lc \<Rightarrow> lc \<Rightarrow> bool" where
  "same_lc l l' \<longleftrightarrow> loopVar l' = loopVar l \<and> getEnd l' = getEnd l \<and> sendEnd l' = sendEnd l \<and> lc_mux l' = lc_mux l"

lemma same_lc_chans: "same_lc l l' \<Longrightarrow> lc_chans l' = lc_chans l"
  by (simp add: same_lc_def lc_chans_def)

lemma frame_loopUpdate:
  assumes "loopUpdate l h = Inr (l', h')"
  shows "frame {loopVar l} h h'" "same_lc l l'"
proof -
  have same: "same_lc l (count_loops v l)" for v by (simp add: count_loops_def same_lc_def Let_def)
  from assms obtain c v where "l' = count_loops v l" "(\<exists>h1. h1 = h[loopVar l := c] \<and> (sendLastTag (loopVar l) h1 = Inr h' \<or> h' = h1))"
    unfolding loopUpdate_def Let_def
    by (auto simp: rbind_Inr_iff same [unfolded same_lc_def] split: if_splits)
  with same show "frame {loopVar l} h h'" "same_lc l l'" by (auto dest: frame_tags_own)
qed

lemma frame_lcUpdate:
  assumes "lcUpdate g s ms l (k, h) = Inr (l', k', h')"
  shows "frame (lc_chans l) h h'" "same_lc l l'"
proof -
  obtain l1 l2 h2 l3 k3 h3 where h: "selUpdate s ms h l = Inr l1" "loopUpdate l1 h = Inr (l2, h2)"
      "getEndUpdate g l2 (k, h2) = Inr (l3, k3, h3)" "sendEndUpdate g l3 (k3, h3) = Inr (l', k', h')"
    using assms unfolding lcUpdate_def by (auto simp: rbind_Inr_iff)
  have l1: "same_lc l l1" using h(1) by (auto simp: selUpdate_def rbind_Inr_iff same_lc_def)
  have l2: "frame {loopVar l} h h2" "same_lc l l2" using frame_loopUpdate [OF h(2)] l1 by (auto simp: same_lc_def)
  have l3: "frame {getEnd l} h2 h3" "same_lc l l3"
    using h(3) l2(2) unfolding getEndUpdate_def
    by (auto simp: rbind_Inr_iff same_lc_def dest!: frame_get split: if_splits)
  obtain c h4 where h4: "(if c then rbind (modify (sendEnd l3) (pop h3) h3) (statusUpdate g (clk k3) (sendEnd l3)) else Inr h3) = Inr h4"
      "(if loop_over l3 then rbind (get_data g [1] (sendEnd l3) (k3, h4)) (\<lambda>(k, h). Inr (l3\<lparr>loopNumQ := tl (loopNumQ l3), loopEnd := 0\<rparr>, k, h))
        else Inr (l3, k3, h4)) = Inr (l', k', h')"
    using h(4) unfolding sendEndUpdate_def by (auto simp only: rbind_Inr_iff prod.case)
  have se: "sendEnd l3 = sendEnd l" using l3(2) by (simp add: same_lc_def)
  show "same_lc l l'" using h4(2) l3(2) by (auto simp: rbind_Inr_iff same_lc_def split: if_splits)
  have "frame {sendEnd l} h3 h4"
    using h4(1) by (auto simp: se rbind_Inr_iff dest!: frame_modify frame_statusUpdate intro: frame_trans split: if_splits)
  moreover have "frame {sendEnd l} h4 h'" using h4(2) by (auto simp: se rbind_Inr_iff dest!: frame_get_data split: if_splits)
  ultimately show "frame (lc_chans l) h h'"
    using l2(1) l3(1) by (auto dest!: frame_one [where R = "lc_chans l"] simp: lc_chans_def) (metis frame_trans)
qed

end
