(* ===== verification/LoopTokens.thy ===== *)
theory LoopTokens
  imports LoopEnds Frames
begin

text \<open>
  What a loop control sends: the data that its updates put in the buffer of the channel \<open>sendEnd\<close>, whatever the rest of the
  program does to the channels between the updates.
\<close>

section \<open>The channel of the tokens\<close>

text \<open>A plain channel without upstream.\<close>

definition source :: "chan \<Rightarrow> bool" where
  "source c \<longleftrightarrow> sub c = ChanBase \<and> noUpstream c \<and> length (chanBuffer c) = 1 \<and> length (chanBufferDataCnt c) = 1"

text \<open>Its buffer as it was, and its buffer after data were taken out.\<close>

definition idle :: "chan \<Rightarrow> chan \<Rightarrow> bool" where
  "idle c c' \<longleftrightarrow> sub c' = sub c \<and> noUpstream c' = noUpstream c \<and> chanBuffer c' = chanBuffer c \<and> ch_size c' = ch_size c
     \<and> ch_cycle c' = ch_cycle c \<and> chanBufferDataCnt c' = chanBufferDataCnt c"

definition rests :: "chan \<Rightarrow> chan \<Rightarrow> bool" where
  "rests c c' \<longleftrightarrow> source c' \<and> ch_size c' = ch_size c \<and> ch_cycle c' = ch_cycle c \<and> chanBufferDataCnt c' = chanBufferDataCnt c
     \<and> (\<exists>n. chanBuffer c' ! 0 = drop n (chanBuffer c ! 0))"

lemma idle_refl [simp]: "idle c c"
  and idle_trans: "idle c c1 \<Longrightarrow> idle c1 c2 \<Longrightarrow> idle c c2"
  and idle_source: "source c \<Longrightarrow> idle c c' \<Longrightarrow> source c'"
  by (simp_all add: idle_def source_def)

lemma idle_rests: "source c \<Longrightarrow> idle c c' \<Longrightarrow> rests c c'"
  unfolding rests_def idle_def source_def by (auto intro: exI [of _ 0])

lemma rests_trans: "rests c c1 \<Longrightarrow> rests c1 c2 \<Longrightarrow> rests c c2"
  by (auto simp: rests_def)

lemma rests_source: "rests c c' \<Longrightarrow> source c'"
  by (simp add: rests_def)

lemma rests_length: "rests c c' \<Longrightarrow> length (chanBuffer c' ! 0) \<le> length (chanBuffer c ! 0)"
  by (auto simp: rests_def)

lemma popLastTags_idle: "popLastTags c = Inr c' \<Longrightarrow> idle c c'"
  by (auto simp: popLastTags_def rbind_Inr_iff idle_def split: if_splits)

lemma pop_rests:
  assumes "source c" "pop h c = Inr c'"
  shows "rests c c'"
proof (cases "pop_now (ch_valid c) (popLastCheck c) c")
  case False
  with assms have "c' = c" by (simp add: pop_def source_def base_pop_def popChannel_def base_popChannel_def)
  with assms(1) show ?thesis by (simp add: idle_rests)
next
  case True
  obtain q where q: "chanBuffer c = [q]" using assms(1) by (auto simp: source_def length_Suc_conv)
  obtain f ch g q' where r: "channel c = f # ch" "q = g # q'"
      "popLastTags (c\<lparr>channel := ch, ch_lastPopVal := (ch_lastPopVal c)[0 := d_value g], chanBuffer := [q']\<rparr>) = Inr c'"
    using assms True q
    by (cases "channel c"; cases q)
      (auto simp: pop_def source_def base_pop_def popChannel_def base_popChannel_def popBuffer_def rbind_Inr_iff)
  let ?c = "c\<lparr>channel := ch, ch_lastPopVal := (ch_lastPopVal c)[0 := d_value g], chanBuffer := [q']\<rparr>"
  have "rests c ?c" using assms(1) q r(2) by (auto simp: rests_def source_def intro: exI [of _ 1])
  moreover have "rests ?c c'" using rests_source [OF calculation] popLastTags_idle [OF r(3)] by (rule idle_rests)
  ultimately show ?thesis by (rule rests_trans)
qed

lemma statusUpdate_idle:
  assumes "source (h ! p)" "p < length h" "statusUpdate g now p h = Inr h'"
  shows "idle (h ! p) (h' ! p)"
proof -
  have sub: "sub (h ! p) = ChanBase" "noUpstream (h ! p)" using assms(1) by (simp_all add: source_def)
  obtain c1 where c1: "base_fill now h (h ! p) = Inr c1" "base_announce now p h c1 = Inr h'"
    using assms(2,3) sub by (auto simp: statusUpdate_def base_statusUpdate_def rbind_Inr_iff)
  have "idle (h ! p) c1"
    using c1(1) sub by (auto simp: base_fill_def base_pushChannel_def rbind_Inr_iff idle_def split: if_splits)
  moreover have "idle c1 (h' ! p)"
    using c1(2) assms(2) by (auto simp: base_announce_def rbind_Inr_iff Let_def idle_def split: if_splits)
  ultimately show ?thesis by (rule idle_trans)
qed

lemma modify_at: "modify p f h = Inr h' \<Longrightarrow> p < length h \<and> f (h ! p) = Inr (h' ! p) \<and> length h' = length h"
  by (auto simp: modify_Inr)

lemma bpUpdate_idle: "idle c (bpUpdate c)"
  by (simp add: bpUpdate_def base_bpUpdate_def dgsf_bpUpdate_def idle_def split: subobject.splits)

lemma refresh_idle:
  assumes "source (h ! p)" "p < length h" "refresh g b k p h = Inr h'"
  shows "idle (h ! p) (h' ! p)"
proof -
  let ?c = "if b then (h ! p)\<lparr>ch_valid := False, pushChannelSuccess := False\<rparr> else (h ! p)\<lparr>ch_valid := False\<rparr>"
  let ?now = "currId (h ! p) \<le> speedup (h ! p) \<or> b \<and> (checkClkAdd k \<or> (case sub (h ! p) of ChanDGSF _ _ \<Rightarrow> True | _ \<Rightarrow> False))"
  obtain h1 where h1: "(if ?now then statusUpdate g (clk k) p h else Inr (h[p := ?c])) = Inr h1" "modify p (\<lambda>c. Inr (bpUpdate c)) h1 = Inr h'"
    using assms(3) by (auto simp only: refresh_def rbind_Inr_iff deref_Inr_iff)
  have "idle (h ! p) (h1 ! p)"
  proof (cases ?now)
    case True
    with h1(1) statusUpdate_idle [OF assms(1,2)] show ?thesis by simp
  next
    case False
    with h1(1) have "h1 = h[p := ?c]" by simp
    with assms(2) show ?thesis by (simp add: idle_def)
  qed
  moreover have "idle (h1 ! p) (h' ! p)" using modify_at [OF h1(2)] bpUpdate_idle [of "h1 ! p"] by simp
  ultimately show ?thesis by (rule idle_trans)
qed

section \<open>The token\<close>

definition token_at :: "u64 \<Rightarrow> chan \<Rightarrow> data" where
  "token_at now c = data0\<lparr>d_valid := True, d_value := 1, d_cycle := now + ch_cycle c\<rparr>"

text \<open>The buffer after data were taken out and the data \<open>ds\<close> were put in.\<close>

definition holds :: "data list \<Rightarrow> chan \<Rightarrow> chan \<Rightarrow> bool" where
  "holds ds c c' \<longleftrightarrow> source c' \<and> hd (chanBufferDataCnt c') = hd (chanBufferDataCnt c) + length ds
     \<and> (\<exists>n. chanBuffer c' ! 0 = drop n (chanBuffer c ! 0) @ ds)"

lemma rests_holds: "rests c c1 \<Longrightarrow> holds ds c1 c2 \<Longrightarrow> holds ds c c2"
  by (auto simp: rests_def holds_def)

lemma holds_idle: "holds ds c c1 \<Longrightarrow> idle c1 c2 \<Longrightarrow> holds ds c c2"
  by (auto simp: holds_def idle_def source_def)

lemma holds_none: "rests c c' \<Longrightarrow> holds [] c c'"
  by (auto simp: rests_def holds_def)

lemma push_holds:
  assumes "source (h ! p)" "p < length h" "length (chanBuffer (h ! p) ! 0) < ch_size (h ! p)" "push now p 1 0 h = Inr h'"
  shows "holds [token_at now (h ! p)] (h ! p) (h' ! p)"
proof -
  obtain q n where "sub (h ! p) = ChanBase" "noUpstream (h ! p)" "chanBuffer (h ! p) = [q]" "chanBufferDataCnt (h ! p) = [n]"
    using assms(1) by (auto simp: source_def length_Suc_conv)
  with assms(2-4) show ?thesis
    by (auto simp: push_def base_push_def checkUpstream_def pushBuffer_def modify_def store_def setGetLast_def holds_def source_def
      token_at_def intro!: exI [of _ 0])
qed

lemma get_data_holds:
  assumes "source (h ! p)" "p < length h" "length (chanBuffer (h ! p) ! 0) < ch_size (h ! p)" "get_data g [1] p (k, h) = Inr (k', h')"
  shows "\<exists>now. holds [token_at now (h ! p)] (h ! p) (h' ! p)"
proof -
  obtain c kk where ck: "(if 1 < speedup (h ! p) then parallelize (h ! p) k else (h ! p, k)) = (c, kk)" by fastforce
  obtain h1 h2 where h: "modify p (pop (h[p := c])) (h[p := c]) = Inr h1" "push (clk kk) p 1 0 h1 = Inr h2" "refresh g False kk p h2 = Inr h'"
    using assms(4) unfolding get_data_def prod.case by (auto simp: rbind_Inr_iff deref_Inr_iff ck [simplified] Let_def)
  have "idle (h ! p) c" using ck by (auto simp: parallelize_def idle_def Let_def split: if_splits)
  then have c: "rests (h ! p) c" using assms(1) idle_rests by blast
  have m: "pop (h[p := c]) c = Inr (h1 ! p)" "p < length h1" using modify_at [OF h(1)] assms(2) by simp_all
  have r: "rests (h ! p) (h1 ! p)" using rests_trans [OF c pop_rests [OF rests_source [OF c] m(1)]] .
  then have room: "length (chanBuffer (h1 ! p) ! 0) < ch_size (h1 ! p)" "ch_cycle (h1 ! p) = ch_cycle (h ! p)"
    using rests_length [OF r] assms(3) by (auto simp: rests_def)
  have "holds [token_at (clk kk) (h1 ! p)] (h1 ! p) (h2 ! p)"
    by (rule push_holds [OF rests_source [OF r] m(2) room(1) h(2)])
  with r have t: "holds [token_at (clk kk) (h ! p)] (h ! p) (h2 ! p)" using rests_holds room(2) by (simp add: token_at_def)
  have "source (h2 ! p)" "p < length h2" using t frame_length [OF frame_push [OF h(2)]] m(2) by (simp_all add: holds_def)
  with holds_idle [OF t refresh_idle [OF _ _ h(3)]] show ?thesis by blast
qed

lemma sendEndUpdate_holds:
  assumes "source (h ! p)" "p < length h" "length (chanBuffer (h ! p) ! 0) < ch_size (h ! p)" "p = sendEnd l"
    "sendEndUpdate g l (k, h) = Inr (l', k', h')"
  shows "\<exists>now. holds (if loop_over l then [token_at now (h ! p)] else []) (h ! p) (h' ! p)"
proof -
  obtain h1 where h: "(if ch_valid (h ! p) \<and> enable (h ! p) then rbind (modify p (pop h) h) (statusUpdate g (clk k) p) else Inr h) = Inr h1"
      "(if loop_over l then rbind (get_data g [1] p (k, h1)) (\<lambda>(k, h). Inr (l\<lparr>loopNumQ := tl (loopNumQ l), loopEnd := 0\<rparr>, k, h))
        else Inr (l, k, h1)) = Inr (l', k', h')"
    using assms(5) unfolding sendEndUpdate_def prod.case assms(4) [symmetric] by (auto simp only: rbind_Inr_iff deref_Inr_iff)
  have r: "rests (h ! p) (h1 ! p) \<and> p < length h1"
  proof (cases "ch_valid (h ! p) \<and> enable (h ! p)")
    case False
    with h(1) assms(1,2) show ?thesis by (auto simp: idle_rests)
  next
    case True
    with h(1) obtain h0 where h0: "modify p (pop h) h = Inr h0" "statusUpdate g (clk k) p h0 = Inr h1" by (auto simp: rbind_Inr_iff)
    have m: "rests (h ! p) (h0 ! p)" "p < length h0" using modify_at [OF h0(1)] pop_rests [OF assms(1)] by auto
    have "idle (h0 ! p) (h1 ! p)" using statusUpdate_idle [OF rests_source [OF m(1)] m(2) h0(2)] .
    with rests_trans [OF m(1) idle_rests [OF rests_source [OF m(1)]]] m(2) frame_length [OF frame_statusUpdate [OF h0(2)]]
    show ?thesis by simp
  qed
  then have room: "length (chanBuffer (h1 ! p) ! 0) < ch_size (h1 ! p)" "ch_cycle (h1 ! p) = ch_cycle (h ! p)"
    using rests_length assms(3) by (fastforce simp: rests_def)+
  show ?thesis
  proof (cases "loop_over l")
    case False
    with h(2) r holds_none show ?thesis by auto
  next
    case True
    with h(2) have "get_data g [1] p (k, h1) = Inr (k', h')" by (auto simp: rbind_Inr_iff)
    from get_data_holds [OF _ _ room(1) this] r rests_source obtain now where "holds [token_at now (h1 ! p)] (h1 ! p) (h' ! p)" by blast
    with r True room(2) show ?thesis using rests_holds [of "h ! p" "h1 ! p"] by (auto simp: token_at_def)
  qed
qed

section \<open>What an update sends\<close>

text \<open>The data put in a buffer between two states of its channel, by the channel's own count of them.\<close>

definition put :: "chan \<Rightarrow> chan \<Rightarrow> data list" where
  "put c c' = (let n = hd (chanBufferDataCnt c') - hd (chanBufferDataCnt c) in rev (take n (rev (chanBuffer c' ! 0))))"

lemma holds_put: "holds ds c c' \<Longrightarrow> put c c' = ds"
  by (auto simp: holds_def put_def)

text \<open>In one update: whether an iteration is issued, whether another one follows, whether an iteration has ended, and the
  data that were put in the buffer of \<open>sendEnd\<close>.\<close>

type_synonym step = "bool \<times> bool \<times> bool \<times> data list"

fun lc_exec :: "config \<Rightarrow> (bool \<times> mux list \<times> clkDomain \<times> heap) list \<Rightarrow> lc \<Rightarrow> (lc \<times> step list) res" where
  "lc_exec g [] l = Inr (l, [])"
| "lc_exec g ((s, ms, k, h) # ins) l = rbind (lc_seen g s ms l (k, h)) (\<lambda>(v, f, e, _). rbind (lcUpdate g s ms l (k, h)) (\<lambda>(l1, _, h').
     rbind (lc_exec g ins l1) (\<lambda>(l', xs). Inr (l', (v, f, e, put (h ! sendEnd l) (h' ! sendEnd l)) # xs))))"

text \<open>The channel \<open>sendEnd\<close> of its own, with room for a token.\<close>

definition roomy :: "lc \<Rightarrow> bool \<times> mux list \<times> clkDomain \<times> heap \<Rightarrow> bool" where
  "roomy l = (\<lambda>(s, ms, k, h). sendEnd l < length h \<and> source (h ! sendEnd l)
     \<and> length (chanBuffer (h ! sendEnd l) ! 0) < ch_size (h ! sendEnd l))"

definition own_end :: "lc \<Rightarrow> bool" where
  "own_end l \<longleftrightarrow> sendEnd l \<noteq> loopVar l \<and> sendEnd l \<noteq> getEnd l"

definition is_token :: "data \<Rightarrow> bool" where
  "is_token d \<longleftrightarrow> d_valid d \<and> d_value d = 1"

lemma lcUpdate_puts:
  assumes "lc_seen g s ms l (k, h) = Inr (v, f, e, w)" "lcUpdate g s ms l (k, h) = Inr (l', k', h')" "own_end l" "roomy l (s, ms, k, h)"
  shows "put (h ! sendEnd l) (h' ! sendEnd l) \<noteq> [] \<longleftrightarrow> w" "length (put (h ! sendEnd l) (h' ! sendEnd l)) \<le> 1"
    "list_all is_token (put (h ! sendEnd l) (h' ! sendEnd l))"
proof -
  let ?p = "sendEnd l"
  obtain l1 l2 h2 l3 k3 h3 where r: "selUpdate s ms h l = Inr l1" "loopUpdate l1 h = Inr (l2, h2)"
    "getEndUpdate g l2 (k, h2) = Inr (l3, k3, h3)" "w = loop_over l3"
    using assms(1) unfolding lc_seen_def by (fastforce simp: rbind_Inr_iff)
  have send: "sendEndUpdate g l3 (k3, h3) = Inr (l', k', h')" using assms(2) r(1-3) by (simp add: lcUpdate_def)
  have s1: "same_lc l l1" using r(1) by (auto simp: selUpdate_def rbind_Inr_iff same_lc_def)
  have s2: "frame {loopVar l} h h2" "same_lc l l2" using frame_loopUpdate [OF r(2)] s1 by (auto simp: same_lc_def)
  have s3: "frame {getEnd l} h2 h3" "same_lc l l3"
    using r(3) s2(2) unfolding getEndUpdate_def by (auto simp: rbind_Inr_iff same_lc_def dest!: frame_get split: if_splits)
  have p: "?p < length h" "?p \<noteq> loopVar l" "?p \<noteq> getEnd l" "source (h ! ?p)" "length (chanBuffer (h ! ?p) ! 0) < ch_size (h ! ?p)"
    using assms(3,4) by (simp_all add: own_end_def roomy_def)
  have "h2 ! ?p = (h ! ?p)\<lparr>lastTagQueue := lastTagQueue (h2 ! ?p)\<rparr>" using frameD [OF s2(1) p(1)] p(2) by simp
  moreover have "h3 ! ?p = (h2 ! ?p)\<lparr>lastTagQueue := lastTagQueue (h3 ! ?p)\<rparr>"
    using frameD [OF s3(1)] p(1,3) frame_length [OF s2(1)] by simp
  ultimately obtain q where q: "h3 ! ?p = (h ! ?p)\<lparr>lastTagQueue := q\<rparr>" by (metis chan.update_convs(7) chan.surjective)
  then have i: "idle (h ! ?p) (h3 ! ?p)" by (simp add: idle_def)
  have c3: "source (h3 ! ?p)" "?p < length h3" "length (chanBuffer (h3 ! ?p) ! 0) < ch_size (h3 ! ?p)" "?p = sendEnd l3"
    using idle_source [OF p(4) i] p(1,5) q frame_length [OF s2(1)] frame_length [OF s3(1)] s3(2) by (simp_all add: same_lc_def)
  obtain now where "holds (if w then [token_at now (h3 ! ?p)] else []) (h3 ! ?p) (h' ! ?p)"
    using sendEndUpdate_holds [OF c3 send] r(4) by blast
  with rests_holds [OF idle_rests [OF p(4) i]] have "put (h ! ?p) (h' ! ?p) = (if w then [token_at now (h3 ! ?p)] else [])"
    by (blast intro: holds_put)
  then show "put (h ! ?p) (h' ! ?p) \<noteq> [] \<longleftrightarrow> w" "length (put (h ! ?p) (h' ! ?p)) \<le> 1" "list_all is_token (put (h ! ?p) (h' ! ?p))"
    by (simp_all add: is_token_def token_at_def)
qed

section \<open>What a run sends\<close>

definition sent :: "step list \<Rightarrow> data list" where
  "sent xs = concat (map (\<lambda>(v, f, e, ds). ds) xs)"

text \<open>The observations of \<open>LoopEnds\<close>, where a loop is finished when something is sent.\<close>

definition observed :: "step \<Rightarrow> seen" where
  "observed = (\<lambda>(v, f, e, ds). (v, f, e, ds \<noteq> []))"

lemma observed_steps [simp]:
  "trips n (map observed xs) = trips n xs" "ends (map observed xs) = ends xs" "issues (map observed xs) = issues xs"
proof -
  show "trips n (map observed xs) = trips n xs" by (induction n xs rule: trips.induct) (simp_all add: observed_def)
  show "ends (map observed xs) = ends xs" "issues (map observed xs) = issues xs"
    by (induction xs) (auto simp: ends_def issues_def observed_def)
qed

lemma lc_exec_run:
  assumes "lc_exec g ins l = Inr (l', xs)" "own_end l" "list_all (roomy l) ins"
  shows "lc_run g ins l = Inr (l', map observed xs) \<and> list_all is_token (sent xs) \<and> length (sent xs) = tokens (map observed xs)"
  using assms
proof (induction ins arbitrary: l xs)
  case Nil
  then show ?case by (simp add: sent_def tokens_def)
next
  case (Cons i ins)
  obtain s ms k h where i: "i = (s, ms, k, h)" by (cases i) auto
  obtain x where x: "lc_seen g s ms l (k, h) = Inr x"
    using Cons.prems(1) unfolding i by (cases "lc_seen g s ms l (k, h)") simp_all
  obtain v f e w where vf: "x = (v, f, e, w)" by (cases x) auto
  obtain y where y: "lcUpdate g s ms l (k, h) = Inr y"
    using Cons.prems(1) unfolding i by (cases "lcUpdate g s ms l (k, h)") (simp_all add: x vf)
  obtain l1 k' h' where l1: "y = (l1, k', h')" by (cases y) auto
  obtain ys where "lc_exec g ins l1 = Inr (l', ys)" "xs = (v, f, e, put (h ! sendEnd l) (h' ! sendEnd l)) # ys"
    using Cons.prems(1) unfolding i by (cases "lc_exec g ins l1") (auto simp: x vf y l1)
  note r = x [unfolded vf] y [unfolded l1] this
  let ?ds = "put (h ! sendEnd l) (h' ! sendEnd l)"
  have same: "same_lc l l1" by (rule frame_lcUpdate(2) [OF r(2)])
  then have "own_end l1" "roomy l1 = roomy l" using Cons.prems(2) by (simp_all add: own_end_def roomy_def same_lc_def)
  with Cons.IH [OF r(3)] Cons.prems(3)
  have IH: "lc_run g ins l1 = Inr (l', map observed ys)" "list_all is_token (sent ys)" "length (sent ys) = tokens (map observed ys)" by simp_all
  have p: "?ds \<noteq> [] \<longleftrightarrow> w" "length ?ds \<le> 1" "list_all is_token ?ds"
    using lcUpdate_puts [OF r(1,2) Cons.prems(2)] Cons.prems(3) by (simp_all add: i)
  have n: "length ?ds = (if w then 1 else 0)" using p(1,2) by (cases ?ds) auto
  have "sent xs = ?ds @ sent ys" by (simp add: r(4) sent_def)
  moreover have "lc_run g (i # ins) l = Inr (l', map observed xs)" using r(1,2,4) IH(1) p(1) by (simp add: i observed_def)
  moreover have "tokens (map observed xs) = length ?ds + tokens (map observed ys)" using n p(1) by (simp add: r(4) tokens_def observed_def)
  ultimately show ?case using IH(2,3) p(3) by simp
qed

text \<open>C34: a loop control puts a valid datum of value 1, a token, in the buffer of its channel \<open>sendEnd\<close> in the update in which the
  last iteration of a loop ends, for each of the loops in the order in which they were issued, and nothing else: after any number
  of updates, whatever the rest of the program does to the channels between them, it has put as many tokens
  there as loops have ended completely. This holds as long as no iteration ends before it is issued and the buffer has room at
  each update.\<close>

theorem loop_end_tokens:
  assumes "lc_exec g ins l = Inr (l', xs)" "counters l = (0, [], 0)" "own_end l" "list_all (roomy l) ins"
    and "\<forall>n\<le>length xs. ends (take n xs) \<le> issues (take n xs)"
  shows "list_all is_token (sent xs) \<and> length (sent xs) \<le> length (trips 0 xs)
    \<and> (\<forall>i\<le>length (trips 0 xs). i \<le> length (sent xs) \<longleftrightarrow> sum_list (take i (trips 0 xs)) \<le> ends xs)
    \<and> loopNumQ l' = drop (length (sent xs)) (trips 0 xs)"
proof -
  have run: "lc_run g ins l = Inr (l', map observed xs)" "list_all is_token (sent xs)" "length (sent xs) = tokens (map observed xs)"
    using lc_exec_run [OF assms(1,3,4)] by blast+
  have "\<forall>n\<le>length (map observed xs). ends (take n (map observed xs)) \<le> issues (take n (map observed xs))"
    using assms(5) by (simp add: take_map)
  from loop_end_counts [OF run(1) assms(2) this] run(2,3) show ?thesis by simp
qed

text \<open>A loop of one iteration: issued in the first update, ended in the second.\<close>

lemma loop_end_tokens_witness:
  "\<exists>l' xs. lc_exec cfg_demo [(False, [loopDemoMux], \<lparr>clk = 0, clkAdd = True, clkStall = []\<rparr>, loopDemoHeap True []),
       (False, [loopDemoMux], \<lparr>clk = 1, clkAdd = True, clkStall = []\<rparr>, loopDemoHeap False [data0])] loopDemo = Inr (l', xs)
     \<and> list_all is_token (sent xs) \<and> length (sent xs) = 1 \<and> loopNumQ l' = []"
proof -
  let ?k = "\<lambda>t. \<lparr>clk = t, clkAdd = True, clkStall = []\<rparr>"
  let ?ins = "[(False, [loopDemoMux], ?k 0, loopDemoHeap True []), (False, [loopDemoMux], ?k 1, loopDemoHeap False [data0])]"
  let ?xs = "[(True, False, False, []), (False, False, True, [data0\<lparr>d_valid := True, d_value := 1, d_cycle := 1\<rparr>])]"
  have "(case lc_exec cfg_demo ?ins loopDemo of Inr (l', xs) \<Rightarrow> xs = ?xs | _ \<Rightarrow> False)" by code_simp
  then obtain l' where run: "lc_exec cfg_demo ?ins loopDemo = Inr (l', ?xs)" by (auto split: sum.splits)
  have ok: "own_end loopDemo" "list_all (roomy loopDemo) ?ins" by code_simp+
  have "\<forall>n\<le>length ?xs. ends (take n ?xs) \<le> issues (take n ?xs)"
    by (auto simp: ends_def issues_def le_Suc_eq)
  from loop_end_tokens [OF run _ ok this] have "loopNumQ l' = drop (length (sent ?xs)) (trips 0 ?xs)" "list_all is_token (sent ?xs)"
    by (simp_all add: loopDemo_def lc_new_def counters_def)
  with run show ?thesis by (auto simp: sent_def)
qed

end
