(* ===== verification/ChannelNet.thy ===== *)
theory ChannelNet
  imports ChannelClasses
begin

text \<open>
  Graphs of plain channels (\<open>module/execution/Channel.cpp\<close>): the simulation loop calls \<open>get\<close> of every
  channel once per iteration, in a fixed order; a channel announces a datum with its \<open>valid\<close> flag and
  each of its consumers copies it in its own \<open>get\<close>. The theory shows that this handshake loses and
  duplicates nothing, for every graph, every order of the calls and every speed of the consumers.
\<close>

section \<open>Graphs\<close>

text \<open>What no operation changes of a channel.\<close>

definition topo :: "chan \<Rightarrow> subobject \<times> bool \<times> bool \<times> bool \<times> bool \<times> bool \<times> bool \<times> nat list \<times> nat list \<times> nat \<times> nat \<times> nat \<times> nat" where
  "topo c = (sub c, keepMode c, drainMode c, branchMode c, noUpstream c, noDownstream c, enable c, upstream c,
     downstream c, ch_size c, length (chanBuffer c), length (chanBufferDataCnt c), length (bp c))"

lemma topo_eq_iff:
  "topo c' = topo c \<longleftrightarrow> sub c' = sub c \<and> keepMode c' = keepMode c \<and> drainMode c' = drainMode c
     \<and> branchMode c' = branchMode c \<and> noUpstream c' = noUpstream c \<and> noDownstream c' = noDownstream c
     \<and> enable c' = enable c \<and> upstream c' = upstream c \<and> downstream c' = downstream c \<and> ch_size c' = ch_size c
     \<and> length (chanBuffer c') = length (chanBuffer c) \<and> length (chanBufferDataCnt c') = length (chanBufferDataCnt c)
     \<and> length (bp c') = length (bp c)"
  by (simp add: topo_def)

text \<open>A channel of class \<open>ChanBase\<close> in no special mode, whose vectors have one place per input.\<close>

definition plain :: "chan \<Rightarrow> bool" where
  "plain c \<longleftrightarrow> sub c = ChanBase \<and> \<not> keepMode c \<and> \<not> drainMode c \<and> \<not> branchMode c \<and> 0 < ch_size c
     \<and> (noUpstream c \<longrightarrow> upstream c = []) \<and> length (chanBuffer c) = (if noUpstream c then 1 else length (upstream c))
     \<and> (\<not> noUpstream c \<longrightarrow> upstream c \<noteq> [])
     \<and> length (chanBufferDataCnt c) = length (chanBuffer c) \<and> length (bp c) = length (chanBuffer c)"

text \<open>The two ends of every edge know each other.\<close>

definition wired :: "heap \<Rightarrow> bool" where
  "wired h \<longleftrightarrow> (\<forall>p<length h. plain (h ! p) \<and> distinct (upstream (h ! p))
     \<and> (\<forall>u\<in>set (upstream (h ! p)). u < length h \<and> u \<noteq> p \<and> p \<in> set (downstream (h ! u)) \<and> \<not> noDownstream (h ! u))
     \<and> (\<forall>q\<in>set (downstream (h ! p)). q < length h \<and> p \<in> set (upstream (h ! q))))"

lemma wiredD:
  assumes "wired h" "p < length h"
  shows "plain (h ! p)" "distinct (upstream (h ! p))"
    "\<And>u. u \<in> set (upstream (h ! p)) \<Longrightarrow> u < length h \<and> u \<noteq> p \<and> p \<in> set (downstream (h ! u)) \<and> \<not> noDownstream (h ! u)"
    "\<And>q. q \<in> set (downstream (h ! p)) \<Longrightarrow> q < length h \<and> p \<in> set (upstream (h ! q))"
  using assms unfolding wired_def by blast+

lemma plain_topo: "topo c' = topo c \<Longrightarrow> plain c' = plain c"
  by (auto simp: plain_def topo_eq_iff)

lemma heap_id: "p < length h \<Longrightarrow> h ! p = c \<Longrightarrow> h[p := c] = h"
  by auto

lemma wired_update:
  assumes "wired h" "p < length h" "topo c = topo (h ! p)"
  shows "wired (h[p := c])"
proof -
  have t: "topo (h[p := c] ! q) = topo (h ! q)" if "q < length h" for q
    using assms that by (cases "q = p") simp_all
  show ?thesis
    unfolding wired_def length_list_update
  proof (intro allI impI)
    fix q assume q: "q < length h"
    note W = wiredD [OF assms(1) q]
    have e: "upstream (h[p := c] ! r) = upstream (h ! r)" "downstream (h[p := c] ! r) = downstream (h ! r)"
      "noDownstream (h[p := c] ! r) = noDownstream (h ! r)" if "r < length h" for r
      using t [OF that] by (simp_all add: topo_eq_iff)
    have "plain (h[p := c] ! q)" using W(1) plain_topo [OF t [OF q]] by simp
    with W e q show "plain (h[p := c] ! q) \<and> distinct (upstream (h[p := c] ! q))
       \<and> (\<forall>u\<in>set (upstream (h[p := c] ! q)). u < length h \<and> u \<noteq> q \<and> q \<in> set (downstream (h[p := c] ! u)) \<and> \<not> noDownstream (h[p := c] ! u))
       \<and> (\<forall>r\<in>set (downstream (h[p := c] ! q)). r < length h \<and> q \<in> set (upstream (h[p := c] ! r)))"
      by (metis (no_types, lifting))
  qed
qed

section \<open>One call\<close>

text \<open>The local state: at most one datum is in the channel, and then the buffers still hold the data it
  was made of; a buffer without back-pressure has room.\<close>

definition local_ok :: "chan \<Rightarrow> bool" where
  "local_ok c \<longleftrightarrow> length (channel c) \<le> 1 \<and> (channel c \<noteq> [] \<longrightarrow> (\<forall>q\<in>set (chanBuffer c). q \<noteq> []))
     \<and> (ch_valid c \<longrightarrow> channel c \<noteq> [])
     \<and> (\<forall>b<length (chanBuffer c). \<not> bp c ! b \<longrightarrow> length (chanBuffer c ! b) < ch_size c)
     \<and> (noUpstream c \<longrightarrow> length (chanBuffer c ! 0) \<le> ch_size c)"

lemma rfold_popBuffer:
  assumes "n \<le> length (chanBuffer c)" "\<forall>q\<in>set (chanBuffer c). q \<noteq> []"
  shows "\<exists>lpv. rfold popBuffer [0..<n] c = Inr (c\<lparr>chanBuffer := map tl (take n (chanBuffer c)) @ drop n (chanBuffer c), ch_lastPopVal := lpv\<rparr>)"
  using assms(1)
proof (induction n)
  case 0
  show ?case by (rule exI [of _ "ch_lastPopVal c"]) simp
next
  case (Suc n)
  then obtain lpv where IH: "rfold popBuffer [0..<n] c = Inr (c\<lparr>chanBuffer := map tl (take n (chanBuffer c)) @ drop n (chanBuffer c), ch_lastPopVal := lpv\<rparr>)"
    by auto
  have n: "n < length (chanBuffer c)" using Suc.prems by simp
  then obtain f q where fq: "chanBuffer c ! n = f # q" using assms(2) by (metis neq_Nil_conv nth_mem)
  have "(map tl (take n (chanBuffer c)) @ drop n (chanBuffer c)) ! n = f # q"
    using n fq by (simp add: nth_append)
  moreover have "(map tl (take n (chanBuffer c)) @ drop n (chanBuffer c))[n := q]
      = map tl (take (Suc n) (chanBuffer c)) @ drop (Suc n) (chanBuffer c)"
    using n fq by (simp add: take_Suc_conv_app_nth list_update_append Cons_nth_drop_Suc [symmetric])
  ultimately have "popBuffer n (c\<lparr>chanBuffer := map tl (take n (chanBuffer c)) @ drop n (chanBuffer c), ch_lastPopVal := lpv\<rparr>)
      = Inr (c\<lparr>chanBuffer := map tl (take (Suc n) (chanBuffer c)) @ drop (Suc n) (chanBuffer c), ch_lastPopVal := lpv[n := d_value f]\<rparr>)"
    using n by (simp add: popBuffer_def)
  then show ?case using IH by (auto simp: rfold_append)
qed

lemma pop_plain:
  assumes "plain c" "local_ok c"
  shows "\<exists>lpv. pop h c = Inr (if ch_valid c then c\<lparr>channel := tl (channel c), chanBuffer := map tl (chanBuffer c), ch_lastPopVal := lpv\<rparr> else c)"
proof (cases "ch_valid c")
  case False
  with assms show ?thesis
    by (simp add: pop_def plain_def base_pop_def popChannel_def base_popChannel_def pop_now_def)
next
  case True
  with assms(2) obtain f ch where ch: "channel c = f # ch" "\<forall>q\<in>set (chanBuffer c). q \<noteq> []"
    by (cases "channel c") (auto simp: local_ok_def)
  obtain lpv where lpv: "rfold popBuffer [0..<length (chanBuffer c)] (c\<lparr>channel := ch\<rparr>)
      = Inr (c\<lparr>channel := ch, chanBuffer := map tl (chanBuffer c), ch_lastPopVal := lpv\<rparr>)"
    using rfold_popBuffer [of "length (chanBuffer c)" "c\<lparr>channel := ch\<rparr>"] ch(2) by auto
  have "sub c = ChanBase" "\<not> keepMode c" using assms(1) by (simp_all add: plain_def)
  then have "pop h c = Inr (c\<lparr>channel := ch, chanBuffer := map tl (chanBuffer c), ch_lastPopVal := lpv\<rparr>)"
    using True ch(1) lpv by (simp add: pop_def base_pop_def popChannel_def base_popChannel_def pop_now_def popLastTags_def)
  with True ch(1) show ?thesis by (intro exI [of _ lpv]) simp
qed

text \<open>The copies that a channel takes of the data its upstreams announce.\<close>

definition copies :: "u64 \<Rightarrow> heap \<Rightarrow> chan \<Rightarrow> nat \<Rightarrow> data list" where
  "copies now h c b = (let u = h ! (upstream c ! b) in
     if ch_valid u then [received now c u (ch_value u) (hd (channel u))] else [])"

definition pushed :: "nat \<Rightarrow> u64 \<Rightarrow> heap \<Rightarrow> chan \<Rightarrow> chan \<Rightarrow> bool" where
  "pushed n now h c c' \<longleftrightarrow> (\<exists>qs cnt gl. c' = c\<lparr>chanBuffer := qs, chanBufferDataCnt := cnt, getTheLastData := gl\<rparr>
     \<and> length qs = length (chanBuffer c) \<and> length cnt = length (chanBufferDataCnt c)
     \<and> (\<forall>b<length (chanBuffer c). qs ! b = chanBuffer c ! b @ (if b < n then copies now h c b else [])
          \<and> cnt ! b = chanBufferDataCnt c ! b + (if b < n then length (copies now h c b) else 0)))"

lemma any_keepMode_False:
  "(\<forall>u\<in>set us. u < length h \<and> \<not> keepMode (h ! u)) \<Longrightarrow> any_keepMode h us = Inr False"
  by (induction us) auto

lemma push_step:
  assumes "p < length h" "h ! p = c'" "pushed n now h0 c c'" "plain c" "n < length (upstream c)" "\<not> noUpstream c"
    "\<forall>u\<in>set (upstream c). u < length h \<and> h ! u = h0 ! u \<and> \<not> keepMode (h ! u) \<and> (ch_valid (h ! u) \<longrightarrow> channel (h ! u) \<noteq> [])"
  shows "\<exists>c''. push now p (ch_value (h ! (upstream c ! n))) n h = Inr (h[p := c'']) \<and> pushed (Suc n) now h0 c c''"
proof -
  obtain qs cnt gl where c': "c' = c\<lparr>chanBuffer := qs, chanBufferDataCnt := cnt, getTheLastData := gl\<rparr>"
    "length qs = length (chanBuffer c)" "length cnt = length (chanBufferDataCnt c)"
    "\<forall>b<length (chanBuffer c). qs ! b = chanBuffer c ! b @ (if b < n then copies now h0 c b else [])
          \<and> cnt ! b = chanBufferDataCnt c ! b + (if b < n then length (copies now h0 c b) else 0)"
    using assms(3) unfolding pushed_def by blast
  let ?u = "h ! (upstream c ! n)"
  have u: "upstream c ! n < length h" "?u = h0 ! (upstream c ! n)" "ch_valid ?u \<longrightarrow> channel ?u \<noteq> []"
    using assms(7) nth_mem [OF assms(5)] by blast+
  have len: "length (chanBuffer c) = length (upstream c)" "length (chanBufferDataCnt c) = length (chanBuffer c)"
    "sub c = ChanBase" "\<not> drainMode c"
    using assms(4,6) by (auto simp: plain_def)
  have km: "any_keepMode h (upstream c) = Inr False" using assms(7) by (intro any_keepMode_False) auto
  have chk: "checkUpstream h c' n = Inr (ch_valid ?u)"
    using assms(5,6) u len by (simp add: checkUpstream_def c'(1))
  have rec: "received now c' u v d = received now c u v d" for u v d by (simp add: received_def c'(1) Let_def)
  show ?thesis
  proof (cases "ch_valid ?u")
    case False
    then have "copies now h0 c n = []" by (simp add: copies_def flip: u(2))
    then have "pushed (Suc n) now h0 c c'"
      unfolding pushed_def using c' by (intro exI [of _ qs] exI [of _ cnt] exI [of _ gl]) (auto simp: less_Suc_eq)
    moreover have "push now p (ch_value ?u) n h = Inr (h[p := c'])"
      using assms(1,2) chk False len heap_id [OF assms(1,2)] by (simp add: push_def base_push_def c'(1))
    ultimately show ?thesis by blast
  next
    case True
    then obtain f ch where ch: "channel ?u = f # ch" using u(3) by (cases "channel ?u") auto
    let ?d = "received now c ?u (ch_value ?u) f"
    have cp: "copies now h0 c n = [?d]" using True ch by (simp add: copies_def Let_def flip: u(2))
    let ?c1 = "c\<lparr>getTheLastData := gl, chanBuffer := qs[n := qs ! n @ [?d]], chanBufferDataCnt := cnt[n := cnt ! n + 1]\<rparr>"
    have pb: "pushBuffer now p (ch_value ?u) n h = Inr (h[p := ?c1])"
      using assms(1,2,5,6) u(1) ch km len c'(2)
      by (simp add: pushBuffer_def c'(1) rec [unfolded c'(1)] modify_def store_def Let_def)
    let ?c2 = "?c1\<lparr>getTheLastData := gl[n := checkGetLastData n ?c1]\<rparr>"
    have "push now p (ch_value ?u) n h = Inr (h[p := ?c2])"
      using assms(1,2) chk True len pb by (simp add: push_def base_push_def c'(1) modify_def setGetLast_def)
    moreover have "pushed (Suc n) now h0 c ?c2"
      unfolding pushed_def
      by (rule exI [of _ "qs[n := qs ! n @ [?d]]"], rule exI [of _ "cnt[n := cnt ! n + 1]"], rule exI)
        (use c' len cp assms(5) in \<open>auto simp: nth_list_update less_Suc_eq\<close>)
    ultimately show ?thesis by blast
  qed
qed

lemma push_all_plain:
  assumes "wired h" "p < length h" "c = h ! p"
    "\<And>u. u \<in> set (upstream c) \<Longrightarrow> ch_valid (h ! u) \<Longrightarrow> channel (h ! u) \<noteq> []"
  shows "\<exists>c'. push_all now p h = Inr (h[p := c']) \<and> pushed (length (upstream c)) now h c c'"
proof -
  note W = wiredD [OF assms(1,2)]
  have sub: "sub c = ChanBase" using W(1) assms(3) by (simp add: plain_def)
  define step where "step = (\<lambda>b h'. rbind (up_of h' c b) (\<lambda>u. push now p (ch_value u) b h'))"
  have ups: "\<forall>u\<in>set (upstream c). u < length h \<and> u \<noteq> p \<and> \<not> keepMode (h ! u) \<and> (ch_valid (h ! u) \<longrightarrow> channel (h ! u) \<noteq> [])"
    using W(3) wiredD(1) [OF assms(1)] assms(3,4) by (auto simp: plain_def)
  have "\<exists>c'. rfold step [0..<n] h = Inr (h[p := c']) \<and> pushed n now h c c'" if "n \<le> length (upstream c)" for n
    using that
  proof (induction n)
    case 0
    have "pushed 0 now h c c"
      unfolding pushed_def by (rule exI [of _ "chanBuffer c"], rule exI [of _ "chanBufferDataCnt c"], rule exI [of _ "getTheLastData c"]) simp
    then show ?case using assms(3) by (intro exI [of _ c]) simp
  next
    case (Suc n)
    then obtain c' where c': "rfold step [0..<n] h = Inr (h[p := c'])" "pushed n now h c c'" by auto
    have n: "n < length (upstream c)" using Suc.prems by simp
    then have up: "\<not> noUpstream c" using W(1) assms(3) by (auto simp: plain_def)
    have "\<exists>c''. push now p (ch_value (h[p := c'] ! (upstream c ! n))) n (h[p := c']) = Inr (h[p := c', p := c'']) \<and> pushed (Suc n) now h c c''"
      by (rule push_step [OF _ _ c'(2) _ n up]) (use assms(2,3) W(1) ups in auto)
    then obtain c'' where "push now p (ch_value (h[p := c'] ! (upstream c ! n))) n (h[p := c']) = Inr (h[p := c''])" "pushed (Suc n) now h c c''"
      by auto
    moreover have "upstream c ! n < length h" using ups n by simp
    ultimately show ?case using c'(1) n by (intro exI [of _ c'']) (simp add: rfold_append step_def up_of_def)
  qed
  from this [of "length (upstream c)"] show ?thesis
    using assms(2,3) sub by (simp add: push_all_def step_def)
qed

text \<open>The data that \<open>push\<close> of a channel without upstream takes from the program.\<close>

definition same_status :: "chan \<Rightarrow> chan \<Rightarrow> bool" where
  "same_status c c' \<longleftrightarrow> topo c' = topo c \<and> channel c' = channel c \<and> ch_valid c' = ch_valid c \<and> bp c' = bp c
     \<and> chanDataCnt c' = chanDataCnt c \<and> speedup c' = speedup c \<and> currId c' = currId c"

lemma push_source:
  assumes "plain c" "noUpstream c" "h ! p = c" "p < length h" "length (chanBuffer c ! 0) \<le> ch_size c"
  shows "\<exists>c' ds. push now p v 0 h = Inr (h[p := c']) \<and> same_status c c'
    \<and> chanBuffer c' = [chanBuffer c ! 0 @ ds] \<and> length (chanBuffer c ! 0 @ ds) \<le> ch_size c"
proof -
  have len: "length (chanBuffer c) = 1" "length (chanBufferDataCnt c) = 1" "sub c = ChanBase"
    using assms(1,2) by (auto simp: plain_def)
  then obtain q where q: "chanBuffer c = [q]" by (auto simp: length_Suc_conv)
  show ?thesis
  proof (cases "length q = ch_size c")
    case True
    then have "push now p v 0 h = Inr (h[p := c])"
      using assms(2-4) len q heap_id [OF assms(4,3)] by (simp add: push_def base_push_def checkUpstream_def)
    with assms(5) q show ?thesis
      by (intro exI [of _ c] exI [of _ "[]"]) (simp add: same_status_def)
  next
    case False
    let ?d = "data0\<lparr>d_valid := True, d_value := v, d_cycle := now + ch_cycle c\<rparr>"
    let ?c1 = "c\<lparr>chanBuffer := [q @ [?d]], chanBufferDataCnt := (chanBufferDataCnt c)[0 := chanBufferDataCnt c ! 0 + 1]\<rparr>"
    let ?c2 = "?c1\<lparr>getTheLastData := (getTheLastData c)[0 := checkGetLastData 0 ?c1]\<rparr>"
    have "push now p v 0 h = Inr (h[p := ?c2])"
      using assms(2-4) len q False
      by (simp add: push_def base_push_def checkUpstream_def pushBuffer_def modify_def store_def setGetLast_def)
    moreover have "same_status c ?c2" using q by (simp add: same_status_def topo_eq_iff)
    ultimately show ?thesis using q assms(5) False
      by (intro exI [of _ ?c2] exI [of _ "[?d]"]) simp
  qed
qed

section \<open>The status update\<close>

lemma sendable_base:
  assumes "\<And>q. q \<in> set qs \<Longrightarrow> q < length h \<and> p \<in> set (upstream (h ! q)) \<and> sub (h ! q) = ChanBase"
  shows "\<exists>v. sendable h qs d p = Inr v \<and> (v \<longrightarrow> (\<forall>q\<in>set qs. \<exists>b<length (upstream (h ! q)). upstream (h ! q) ! b = p \<and> \<not> bp (h ! q) ! b))"
  using assms
proof (induction qs)
  case Nil
  then show ?case by (auto intro: exI [of _ True])
next
  case (Cons q qs)
  then have q: "q < length h" "p \<in> set (upstream (h ! q))" "sub (h ! q) = ChanBase" by simp_all
  then obtain b where b: "first_index (\<lambda>u. u = p) (upstream (h ! q)) = Some b"
    by (cases "first_index (\<lambda>u. u = p) (upstream (h ! q))") (auto simp: first_index_None)
  then have b': "b < length (upstream (h ! q))" "upstream (h ! q) ! b = p"
    using first_index_less first_index_sat by fastforce+
  have chk: "checkSend h q d p = Inr (\<not> bp (h ! q) ! b)"
    using q b by (simp add: checkSend_def base_checkSend_def getChanId_def)
  from Cons.IH Cons.prems obtain v where v: "sendable h qs d p = Inr v"
    "v \<longrightarrow> (\<forall>q\<in>set qs. \<exists>b<length (upstream (h ! q)). upstream (h ! q) ! b = p \<and> \<not> bp (h ! q) ! b)" by auto
  show ?case
  proof (cases "bp (h ! q) ! b")
    case True
    with chk show ?thesis by (intro exI [of _ False]) simp
  next
    case False
    with chk v b' show ?thesis by auto
  qed
qed

lemma rfold_total_inv:
  assumes "\<And>x s. x \<in> set xs \<Longrightarrow> \<exists>s'. f x s = Inr s'"
  shows "\<exists>s'. rfold f xs s = Inr s'"
  using assms
proof (induction xs arbitrary: s)
  case Nil
  then show ?case by simp
next
  case (Cons x xs)
  then obtain s' where "f x s = Inr s'" by (metis list.set_intros(1))
  with Cons show ?case by simp
qed

lemma pushChannel_plain:
  assumes "plain c" "\<forall>q\<in>set (chanBuffer c). q \<noteq> []" "\<And>u. u \<in> set (upstream c) \<Longrightarrow> u < length h"
  shows "\<exists>d. base_pushChannel now h c = Inr (c\<lparr>channel := channel c @ [d]\<rparr>)"
proof (cases "noUpstream c")
  case True
  then have "base_pushChannel now h c = Inr (c\<lparr>channel := channel c @ [data0\<lparr>d_valid := True, d_cycle := now\<rparr>]\<rparr>)"
    by (simp add: base_pushChannel_def)
  then show ?thesis by (rule exI)
next
  case False
  have P: "sub c = ChanBase" "\<not> branchMode c" "length (chanBuffer c) = length (upstream c)" "upstream c \<noteq> []"
    using assms(1) False by (auto simp: plain_def)
  have front: "front_of c b = Inr (hd (chanBuffer c ! b))" if "b < length (chanBuffer c)" for b
    using that assms(2) by (cases "chanBuffer c ! b") (auto simp: front_of_def)
  have "\<exists>d. base_updateDataStatus h c d0 = Inr d" for d0
    unfolding base_updateDataStatus_def
  proof (rule rfold_total_inv)
    fix b d assume "b \<in> set [0..<length (chanBuffer c)]"
    then have b: "b < length (chanBuffer c)" by simp
    then have "upstream c ! b < length h" using assms(3) P(3) by simp
    with b P(3) front [OF b] show "\<exists>s'. rbind (up_of h c b) (\<lambda>u. rbind (front_of c b) (\<lambda>f.
       let d = merge_flags c u f d in Inr (d\<lparr>d_graphSwitch := d_graphSwitch d \<or> d_graphSwitch f\<rparr>))) = Inr s'"
      by (simp add: up_of_def Let_def)
  qed
  then obtain d where "base_updateDataStatus h c (data0\<lparr>d_valid := True, d_tag := d_tag (hd (chanBuffer c ! 0))\<rparr>) = Inr d" by blast
  moreover have "0 < length (chanBuffer c)" using P(3,4) by simp
  ultimately have "base_pushChannel now h c = Inr (c\<lparr>channel := channel c @ [d\<lparr>d_cond := d_cond (hd (chanBuffer c ! 0))\<rparr>]\<rparr>)"
    using False P front [of 0] by (simp add: base_pushChannel_def updateDataStatus_def)
  then show ?thesis by (rule exI)
qed

text \<open>What the status update leaves: a datum in the channel that it has taken from full buffers, valid
  only when every consumer has room.\<close>

definition updated :: "heap \<Rightarrow> nat \<Rightarrow> chan \<Rightarrow> chan \<Rightarrow> bool" where
  "updated h p c c' \<longleftrightarrow> topo c' = topo c \<and> chanBuffer c' = chanBuffer c \<and> chanBufferDataCnt c' = chanBufferDataCnt c
     \<and> bp c' = bp c \<and> length (channel c') \<le> 1 \<and> (channel c' \<noteq> [] \<longrightarrow> (\<forall>q\<in>set (chanBuffer c). q \<noteq> []))
     \<and> (ch_valid c' \<longrightarrow> channel c' \<noteq> []) \<and> chanDataCnt c' = chanDataCnt c + (if ch_valid c' then 1 else 0)
     \<and> (ch_valid c' \<and> \<not> noDownstream c \<longrightarrow> (\<forall>q\<in>set (downstream c). \<exists>b<length (upstream (h ! q)). upstream (h ! q) ! b = p \<and> \<not> bp (h ! q) ! b))"

lemma statusUpdate_plain:
  assumes "wired h" "p < length h" "c = h ! p" "length (channel c) \<le> 1"
    "channel c \<noteq> [] \<longrightarrow> (\<forall>q\<in>set (chanBuffer c). q \<noteq> [])"
  shows "\<exists>c'. statusUpdate g now p h = Inr (h[p := c']) \<and> updated h p c c'"
proof -
  note W = wiredD [OF assms(1,2), folded assms(3)]
  have sub: "sub c = ChanBase" "\<not> keepMode c" using W(1) by (simp_all add: plain_def)
  let ?full = "\<forall>q\<in>set (chanBuffer c). q \<noteq> []"
  obtain ch s where c1: "base_fill now h c = Inr (c\<lparr>channel := ch, pushChannelSuccess := s\<rparr>)"
    and ch: "length ch \<le> 1" "ch \<noteq> [] \<longrightarrow> ?full"
  proof (cases "base_checkDataMatch now c \<and> channel c = []")
    case True
    then have full: ?full by (auto simp: base_checkDataMatch_def list_all_iff)
    obtain d where "base_pushChannel now h c = Inr (c\<lparr>channel := channel c @ [d]\<rparr>)"
      using pushChannel_plain [OF W(1) full, of h now] W(3) by blast
    with True full sub that [of True "[d]"] show ?thesis by (simp add: base_fill_def checkDataMatch_def)
  next
    case False
    then have "base_fill now h c = Inr (c\<lparr>pushChannelSuccess := False\<rparr>)"
      using sub by (auto simp: base_fill_def checkDataMatch_def)
    with assms(4,5) that [of False "channel c"] show ?thesis by simp
  qed
  let ?c = "c\<lparr>channel := ch, pushChannelSuccess := s, ch_valid := True\<rparr>"
  let ?v = "if channel ?c = [] \<or> \<not> enable ?c then Inr False
            else if \<not> noDownstream ?c \<and> \<not> keepMode ?c then sendable (h[p := ?c]) (downstream ?c) (hd (channel ?c)) p
            else Inr True"
  have "p \<noteq> q" if "q \<in> set (downstream c)" for q using W(3,4) that assms(3) by auto
  then have down: "q < length (h[p := ?c]) \<and> p \<in> set (upstream (h[p := ?c] ! q)) \<and> sub (h[p := ?c] ! q) = ChanBase \<and> h[p := ?c] ! q = h ! q"
    if "q \<in> set (downstream c)" for q using W(4) that wiredD(1) [OF assms(1)] by (auto simp: plain_def)
  obtain v where v: "?v = Inr v" "v \<longrightarrow> ch \<noteq> []"
    "v \<and> \<not> noDownstream c \<longrightarrow> (\<forall>q\<in>set (downstream c). \<exists>b<length (upstream (h ! q)). upstream (h ! q) ! b = p \<and> \<not> bp (h ! q) ! b)"
  proof (cases "ch \<noteq> [] \<and> enable c \<and> \<not> noDownstream c")
    case True
    obtain v where v: "sendable (h[p := ?c]) (downstream c) (hd ch) p = Inr v"
      "v \<longrightarrow> (\<forall>q\<in>set (downstream c). \<exists>b<length (upstream (h[p := ?c] ! q)). upstream (h[p := ?c] ! q) ! b = p \<and> \<not> bp (h[p := ?c] ! q) ! b)"
      using sendable_base [of "downstream c" "h[p := ?c]" p "hd ch"] down by blast
    moreover have "v \<longrightarrow> (\<forall>q\<in>set (downstream c). \<exists>b<length (upstream (h ! q)). upstream (h ! q) ! b = p \<and> \<not> bp (h ! q) ! b)"
      using v(2) down by fastforce
    ultimately show ?thesis using True sub(2) that [of v] by simp
  next
    case False
    with that [of "ch \<noteq> [] \<and> enable c"] show ?thesis by (auto split: if_splits)
  qed
  let ?c' = "if v then ?c\<lparr>ch_valid := v, channel := ch[0 := (hd ch)\<lparr>d_cycle := now\<rparr>], chanDataCnt := chanDataCnt c + 1\<rparr>
             else ?c\<lparr>ch_valid := v\<rparr>"
  have "base_announce now p h (c\<lparr>channel := ch, pushChannelSuccess := s\<rparr>) = Inr (h[p := ?c'])"
    by (simp only: base_announce_def Let_def v(1) rbind.simps) simp
  then have "statusUpdate g now p h = Inr (h[p := ?c'])"
    using assms(2) sub(1) c1 by (simp add: statusUpdate_def base_statusUpdate_def flip: assms(3))
  moreover have "updated h p c ?c'"
    using ch v(2,3) by (auto simp: updated_def topo_eq_iff)
  ultimately show ?thesis by blast
qed

section \<open>A call of get\<close>

text \<open>What a channel tells its consumers: its datum with the value that the program assigned, without the cycle,
  which each consumer sets itself.\<close>

definition stripped :: "data \<Rightarrow> data" where
  "stripped d = d\<lparr>d_cycle := 0\<rparr>"

definition told :: "chan \<Rightarrow> data list" where
  "told u = (if ch_valid u then [stripped ((hd (channel u))\<lparr>d_value := ch_value u\<rparr>)] else [])"

text \<open>The data that a buffer keeps when the datum of the channel is taken out.\<close>

definition kept :: "chan \<Rightarrow> nat \<Rightarrow> data list" where
  "kept c b = (if ch_valid c then tl (chanBuffer c ! b) else chanBuffer c ! b)"

lemma copies_told: "plain c \<Longrightarrow> \<not> keepMode (h ! (upstream c ! b)) \<Longrightarrow> map stripped (copies now h c b) = told (h ! (upstream c ! b))"
  by (simp add: copies_def told_def received_def plain_def stripped_def Let_def)

definition called :: "heap \<Rightarrow> nat \<Rightarrow> chan \<Rightarrow> chan \<Rightarrow> bool" where
  "called h p c c' \<longleftrightarrow> topo c' = topo c \<and> local_ok c'
     \<and> (\<forall>b<length (upstream c). let n = (if ch_valid (h ! (upstream c ! b)) then 1 else 0) in
          length (chanBuffer c' ! b) \<le> length (chanBuffer c ! b) + n
        \<and> chanBufferDataCnt c' ! b = chanBufferDataCnt c ! b + n
        \<and> map stripped (chanBuffer c' ! b) = map stripped (kept c b) @ told (h ! (upstream c ! b)))
     \<and> chanDataCnt c' = chanDataCnt c + (if ch_valid c' then 1 else 0)
     \<and> (ch_valid c' \<longrightarrow> (\<forall>q\<in>set (downstream c). \<exists>b<length (upstream (h ! q)). upstream (h ! q) ! b = p \<and> \<not> bp (h ! q) ! b))"

text \<open>The state between \<open>pop\<close> and \<open>push\<close>.\<close>

definition popped :: "chan \<Rightarrow> chan \<Rightarrow> bool" where
  "popped c c' \<longleftrightarrow> topo c' = topo c \<and> length (channel c') \<le> 1
     \<and> (channel c' \<noteq> [] \<longrightarrow> (\<forall>q\<in>set (chanBuffer c'). q \<noteq> []))
     \<and> chanBufferDataCnt c' = chanBufferDataCnt c \<and> chanDataCnt c' = chanDataCnt c \<and> bp c' = bp c
     \<and> (\<forall>b<length (chanBuffer c). chanBuffer c' ! b = kept c b)"

lemma pop_popped:
  assumes "plain c" "local_ok c"
  shows "\<exists>c'. pop h c = Inr c' \<and> popped c c'"
proof -
  obtain lpv where "pop h c = Inr (if ch_valid c then c\<lparr>channel := tl (channel c), chanBuffer := map tl (chanBuffer c), ch_lastPopVal := lpv\<rparr> else c)"
    using pop_plain [OF assms] by blast
  moreover have "popped c (if ch_valid c then c\<lparr>channel := tl (channel c), chanBuffer := map tl (chanBuffer c), ch_lastPopVal := lpv\<rparr> else c)"
  proof (cases "channel c")
    case Nil
    with assms(2) show ?thesis by (simp add: popped_def local_ok_def kept_def)
  next
    case (Cons f ch)
    with assms(2) show ?thesis by (auto simp: popped_def local_ok_def topo_eq_iff kept_def)
  qed
  ultimately show ?thesis by blast
qed

lemma bpUpdate_plain:
  assumes "plain c" "length (channel c) \<le> 1" "channel c \<noteq> [] \<longrightarrow> (\<forall>q\<in>set (chanBuffer c). q \<noteq> [])"
    "ch_valid c \<longrightarrow> channel c \<noteq> []" "noUpstream c \<longrightarrow> length (chanBuffer c ! 0) \<le> ch_size c"
  shows "topo (bpUpdate c) = topo c" "local_ok (bpUpdate c)"
  using assms by (auto simp: plain_def bpUpdate_def base_bpUpdate_def topo_eq_iff local_ok_def)

text \<open>The end of a call, from the state after the pushes on.\<close>

lemma refresh_plain:
  assumes "wired h" "p < length h" "c = h ! p" "length (channel c) \<le> 1"
    "channel c \<noteq> [] \<longrightarrow> (\<forall>q\<in>set (chanBuffer c). q \<noteq> [])" "noUpstream c \<longrightarrow> length (chanBuffer c ! 0) \<le> ch_size c"
  shows "\<exists>c'. refresh g too k p h = Inr (h[p := c']) \<and> topo c' = topo c \<and> local_ok c' \<and> chanBuffer c' = chanBuffer c
    \<and> chanBufferDataCnt c' = chanBufferDataCnt c \<and> chanDataCnt c' = chanDataCnt c + (if ch_valid c' then 1 else 0)
    \<and> (ch_valid c' \<longrightarrow> (\<forall>q\<in>set (downstream c). \<exists>b<length (upstream (h ! q)). upstream (h ! q) ! b = p \<and> \<not> bp (h ! q) ! b))"
proof -
  note W = wiredD [OF assms(1,2), folded assms(3)]
  define cond where "cond = (currId c \<le> speedup c \<or> too \<and> (checkClkAdd k \<or> (case sub c of ChanDGSF _ _ \<Rightarrow> True | _ \<Rightarrow> False)))"
  have "\<exists>c1. (if cond then statusUpdate g (clk k) p h
            else Inr (h[p := (if too then c\<lparr>ch_valid := False, pushChannelSuccess := False\<rparr> else c\<lparr>ch_valid := False\<rparr>)]))
      = Inr (h[p := c1]) \<and> updated h p c c1"
  proof (cases cond)
    case True
    with statusUpdate_plain [OF assms(1-5), of g "clk k"] show ?thesis by simp
  next
    case False
    let ?c1 = "if too then c\<lparr>ch_valid := False, pushChannelSuccess := False\<rparr> else c\<lparr>ch_valid := False\<rparr>"
    have "updated h p c ?c1" using assms(4,5) by (simp add: updated_def topo_eq_iff)
    with False show ?thesis by (intro exI [of _ ?c1]) simp
  qed
  then obtain c1 where c1: "(if cond then statusUpdate g (clk k) p h
            else Inr (h[p := (if too then c\<lparr>ch_valid := False, pushChannelSuccess := False\<rparr> else c\<lparr>ch_valid := False\<rparr>)]))
      = Inr (h[p := c1])" "updated h p c c1" by blast
  note U = c1(2) [unfolded updated_def]
  have pc1: "plain c1" using U W(1) plain_topo by blast
  have nd: "q \<in> set (downstream c) \<Longrightarrow> \<not> noDownstream c" for q
    using W(4) wiredD(3) [OF assms(1)] assms(3) by blast
  have t: "noUpstream c1 = noUpstream c" "ch_size c1 = ch_size c" using U by (simp_all add: topo_eq_iff)
  have b: "topo (bpUpdate c1) = topo c1" "local_ok (bpUpdate c1)"
    by (rule bpUpdate_plain [OF pc1]; use U assms(6) t in simp)+
  have e: "chanBuffer (bpUpdate c1) = chanBuffer c1" "chanBufferDataCnt (bpUpdate c1) = chanBufferDataCnt c1"
    "chanDataCnt (bpUpdate c1) = chanDataCnt c1" "ch_valid (bpUpdate c1) = ch_valid c1"
    using pc1 by (simp_all add: bpUpdate_def base_bpUpdate_def plain_def)
  have "refresh g too k p h = Inr (h[p := bpUpdate c1])"
    using c1(1) assms(2) by (simp add: refresh_def modify_def cond_def flip: assms(3))
  with b e U nd show ?thesis by (intro exI [of _ "bpUpdate c1"]) auto
qed

text \<open>One call of the simulation loop: a channel without upstream takes its value from the program, and
  after the call the program assigns the value of the channel (\<open>prog\<close> is the program).\<close>

definition loop_call :: "config \<Rightarrow> (nat \<Rightarrow> heap \<Rightarrow> i32) \<Rightarrow> nat \<Rightarrow> clkDomain \<times> heap \<Rightarrow> (clkDomain \<times> heap) res" where
  "loop_call g prog p = (\<lambda>(k, h). rbind (deref h p) (\<lambda>c.
     rbind (if noUpstream c then get_data g [prog p h] p (k, h) else get g p (k, h))
       (\<lambda>(k, h). rbind (modify p (\<lambda>c. Inr (c\<lparr>ch_value := prog p h\<rparr>)) h) (\<lambda>h. Inr (k, h)))))"

lemma parallelize_keeps:
  assumes "(if 1 < speedup c then parallelize c k else (c, k)) = (c0, k0)"
  shows "topo c0 = topo c" "chanBuffer c0 = chanBuffer c" "channel c0 = channel c" "ch_valid c0 = ch_valid c"
    "bp c0 = bp c" "chanBufferDataCnt c0 = chanBufferDataCnt c" "chanDataCnt c0 = chanDataCnt c"
  using assms by (auto simp: parallelize_def Let_def topo_eq_iff split: if_splits)

lemma local_ok_cong:
  "topo c' = topo c \<Longrightarrow> chanBuffer c' = chanBuffer c \<Longrightarrow> channel c' = channel c \<Longrightarrow> ch_valid c' = ch_valid c \<Longrightarrow>
     bp c' = bp c \<Longrightarrow> local_ok c' = local_ok c"
  by (simp add: local_ok_def topo_eq_iff)

text \<open>The state between \<open>push\<close> and the status update.\<close>

definition filled :: "heap \<Rightarrow> chan \<Rightarrow> chan \<Rightarrow> bool" where
  "filled h c c' \<longleftrightarrow> topo c' = topo c \<and> channel c' = channel c \<and> chanDataCnt c' = chanDataCnt c
     \<and> (channel c \<noteq> [] \<longrightarrow> (\<forall>q\<in>set (chanBuffer c'). q \<noteq> []))
     \<and> (noUpstream c \<longrightarrow> length (chanBuffer c' ! 0) \<le> ch_size c)
     \<and> (\<forall>b<length (upstream c). let n = (if ch_valid (h ! (upstream c ! b)) then 1 else 0) in
          length (chanBuffer c' ! b) = length (chanBuffer c ! b) + n
        \<and> chanBufferDataCnt c' ! b = chanBufferDataCnt c ! b + n
        \<and> map stripped (chanBuffer c' ! b) = map stripped (chanBuffer c ! b) @ told (h ! (upstream c ! b)))"

lemma filled_get:
  assumes "wired h" "\<And>u. u < length h \<Longrightarrow> local_ok (h ! u)" "p < length h" "topo c = topo (h ! p)"
    "channel c \<noteq> [] \<longrightarrow> (\<forall>q\<in>set (chanBuffer c). q \<noteq> [])" "\<not> noUpstream c"
  shows "\<exists>c'. push_all now p (h[p := c]) = Inr (h[p := c']) \<and> filled h c c'"
proof -
  note W = wiredD [OF assms(1,3)]
  have up: "upstream c = upstream (h ! p)" using assms(4) by (simp add: topo_eq_iff)
  have pc: "plain c" using plain_topo [OF assms(4)] W(1) by simp
  have w: "wired (h[p := c])" by (rule wired_update [OF assms(1,3,4)])
  have other: "h[p := c] ! u = h ! u \<and> u < length h" if "u \<in> set (upstream c)" for u
    using W(3) [of u] that up by (metis nth_list_update_neq)
  obtain c' where c': "push_all now p (h[p := c]) = Inr (h[p := c'])" "pushed (length (upstream c)) now (h[p := c]) c c'"
    using push_all_plain [OF w _ refl, of p now] assms(2,3) other by (auto simp: local_ok_def)
  have cop: "length (copies now (h[p := c]) c b) = (if ch_valid (h ! (upstream c ! b)) then 1 else 0)"
    if "b < length (upstream c)" for b using other [OF nth_mem [OF that]] by (simp add: copies_def Let_def)
  have len: "length (chanBuffer c) = length (upstream c)" using pc assms(6) by (simp add: plain_def)
  obtain qs cnt gl where e: "c' = c\<lparr>chanBuffer := qs, chanBufferDataCnt := cnt, getTheLastData := gl\<rparr>"
    "length qs = length (chanBuffer c)" "length cnt = length (chanBufferDataCnt c)"
    "\<forall>b<length (chanBuffer c). qs ! b = chanBuffer c ! b @ (if b < length (upstream c) then copies now (h[p := c]) c b else [])
          \<and> cnt ! b = chanBufferDataCnt c ! b + (if b < length (upstream c) then length (copies now (h[p := c]) c b) else 0)"
    using c'(2) unfolding pushed_def by blast
  have tell: "map stripped (copies now (h[p := c]) c b) = told (h ! (upstream c ! b))" if "b < length (upstream c)" for b
    using copies_told [OF pc, of "h[p := c]" b now] other [OF nth_mem [OF that]] wiredD(1) [OF assms(1)] by (simp add: plain_def)
  have "q \<noteq> []" if ch: "channel c \<noteq> []" and q: "q \<in> set qs" for q
  proof -
    obtain b where b: "b < length qs" "q = qs ! b" using q by (metis in_set_conv_nth)
    then have "chanBuffer c ! b \<noteq> []" using assms(5) ch e(2) by simp
    with b e(2,4) show ?thesis by simp
  qed
  with e len cop tell assms(6) have "filled h c c'" by (simp add: filled_def topo_eq_iff Let_def)
  with c'(1) show ?thesis by blast
qed

lemma filled_source:
  assumes "plain c" "noUpstream c" "length (chanBuffer c ! 0) \<le> ch_size c" "p < length h"
    "channel c \<noteq> [] \<longrightarrow> (\<forall>q\<in>set (chanBuffer c). q \<noteq> [])"
  shows "\<exists>c'. push now p v 0 (h[p := c]) = Inr (h[p := c']) \<and> filled h c c'"
proof -
  obtain c' ds where c': "push now p v 0 (h[p := c]) = Inr (h[p := c, p := c'])" "same_status c c'"
    "chanBuffer c' = [chanBuffer c ! 0 @ ds]" "length (chanBuffer c ! 0 @ ds) \<le> ch_size c"
    using push_source [OF assms(1,2), of "h[p := c]" p now v] assms(3,4) by auto
  have "length (chanBuffer c) = 1" "upstream c = []" using assms(1,2) by (auto simp: plain_def)
  then have "chanBuffer c = [chanBuffer c ! 0]" by (cases "chanBuffer c") auto
  with assms(5) have "channel c \<noteq> [] \<longrightarrow> chanBuffer c ! 0 \<noteq> []" by (metis list.set_intros(1))
  with c' \<open>upstream c = []\<close> have "filled h c c'" by (auto simp: filled_def same_status_def)
  with c'(1) show ?thesis by auto
qed

lemma finish_call:
  assumes "wired h" "p < length h" "popped c0 c1" "filled h c1 c2" "topo c0 = topo (h ! p)"
    "chanBuffer c0 = chanBuffer (h ! p)" "chanBufferDataCnt c0 = chanBufferDataCnt (h ! p)" "chanDataCnt c0 = chanDataCnt (h ! p)"
    "ch_valid c0 = ch_valid (h ! p)"
  shows "\<exists>c'. refresh g too k p (h[p := c2]) = Inr (h[p := c']) \<and> called h p (h ! p) c'"
proof -
  note W = wiredD [OF assms(1,2)]
  let ?c = "h ! p"
  have t2: "topo c2 = topo ?c" "topo c1 = topo ?c" using assms(3,4,5) by (auto simp: filled_def popped_def)
  have w2: "wired (h[p := c2])" by (rule wired_update [OF assms(1,2) t2(1)])
  have f: "noUpstream c2 = noUpstream c1" "ch_size c2 = ch_size c1" "upstream c1 = upstream ?c" "downstream c2 = downstream ?c"
    "length (chanBuffer c1) = length (chanBuffer ?c)"
    using t2 by (simp_all add: topo_eq_iff)
  obtain c' where c': "refresh g too k p (h[p := c2]) = Inr (h[p := c'])" "topo c' = topo c2" "local_ok c'"
    "chanBuffer c' = chanBuffer c2" "chanBufferDataCnt c' = chanBufferDataCnt c2"
    "chanDataCnt c' = chanDataCnt c2 + (if ch_valid c' then 1 else 0)"
    "ch_valid c' \<longrightarrow> (\<forall>q\<in>set (downstream c2). \<exists>b<length (upstream (h[p := c2] ! q)). upstream (h[p := c2] ! q) ! b = p \<and> \<not> bp (h[p := c2] ! q) ! b)"
  proof -
    note F = assms(4) [unfolded filled_def] and P = assms(3) [unfolded popped_def]
    have c: "c2 = h[p := c2] ! p" "p < length (h[p := c2])" using assms(2) by simp_all
    have "length (channel c2) \<le> 1" using F P by simp
    moreover have "channel c2 \<noteq> [] \<longrightarrow> (\<forall>q\<in>set (chanBuffer c2). q \<noteq> [])" using F by simp
    moreover have "noUpstream c2 \<longrightarrow> length (chanBuffer c2 ! 0) \<le> ch_size c2" using F f(1,2) by simp
    ultimately show ?thesis
      using refresh_plain [OF w2 c(2,1), of g too k] that by auto
  qed
  have "h[p := c2] ! q = h ! q" if "q \<in> set (downstream ?c)" for q
    using W(4) [OF that] W(3) [of p] by (cases "q = p") auto
  then have down: "ch_valid c' \<longrightarrow> (\<forall>q\<in>set (downstream ?c). \<exists>b<length (upstream (h ! q)). upstream (h ! q) ! b = p \<and> \<not> bp (h ! q) ! b)"
    using c'(7) f(4) by auto
  have len: "length (upstream ?c) \<le> length (chanBuffer ?c)" using W(1) by (auto simp: plain_def)
  have buf: "length (chanBuffer c' ! b) \<le> length (chanBuffer ?c ! b) + n \<and> chanBufferDataCnt c' ! b = chanBufferDataCnt ?c ! b + n
      \<and> map stripped (chanBuffer c' ! b) = map stripped (kept ?c b) @ told (h ! (upstream ?c ! b))"
    if "b < length (upstream ?c)" "n = (if ch_valid (h ! (upstream ?c ! b)) then 1 else 0)" for b n
  proof -
    have "length (chanBuffer c2 ! b) = length (chanBuffer c1 ! b) + n \<and> chanBufferDataCnt c2 ! b = chanBufferDataCnt c1 ! b + n
        \<and> map stripped (chanBuffer c2 ! b) = map stripped (chanBuffer c1 ! b) @ told (h ! (upstream ?c ! b))"
      using assms(4) that f(3) by (simp add: filled_def Let_def)
    moreover have k: "chanBuffer c1 ! b = kept ?c b" "chanBufferDataCnt c1 = chanBufferDataCnt ?c"
      using assms(3,6,7,9) that(1) len by (simp_all add: popped_def kept_def)
    moreover have "length (kept ?c b) \<le> length (chanBuffer ?c ! b)" by (simp add: kept_def)
    ultimately show ?thesis by (simp add: c'(4,5))
  qed
  have "chanDataCnt c2 = chanDataCnt ?c" using assms(3,4,8) by (simp add: filled_def popped_def)
  then have "called h p ?c c'"
    unfolding called_def Let_def using c'(2,3,6) t2(1) down buf by simp
  with c'(1) show ?thesis by blast
qed

lemma popped_cong:
  "popped c0 c1 \<Longrightarrow> topo c0 = topo c \<Longrightarrow> topo c1 = topo c"
  by (simp add: popped_def)

lemma called_value: "called h p c c' \<Longrightarrow> called h p c (c'\<lparr>ch_value := v\<rparr>)"
proof -
  have "topo (c'\<lparr>ch_value := v\<rparr>) = topo c'" "local_ok (c'\<lparr>ch_value := v\<rparr>) = local_ok c'"
    by (simp_all add: topo_eq_iff local_ok_def)
  then show "called h p c c' \<Longrightarrow> called h p c (c'\<lparr>ch_value := v\<rparr>)" by (simp add: called_def Let_def)
qed

lemma loop_call_plain:
  assumes "wired h" "\<And>u. u < length h \<Longrightarrow> local_ok (h ! u)" "p < length h"
  shows "\<exists>k' c'. loop_call g prog p (k, h) = Inr (k', h[p := c']) \<and> called h p (h ! p) c'"
proof -
  let ?c = "h ! p"
  note W = wiredD [OF assms(1,3)]
  obtain c0 k0 where par: "(if 1 < speedup ?c then parallelize ?c k else (?c, k)) = (c0, k0)" by (rule prod.exhaust)
  note K = parallelize_keeps [OF par]
  have p0: "plain c0" using plain_topo [OF K(1)] W(1) by simp
  have l0: "local_ok c0" using local_ok_cong [OF K(1-5)] assms(2,3) by simp
  obtain c1 where c1: "pop (h[p := c0]) c0 = Inr c1" "popped c0 c1" using pop_popped [OF p0 l0] by blast
  have t1: "topo c1 = topo ?c" by (rule popped_cong [OF c1(2) K(1)])
  have sub: "sub ?c = ChanBase" "noUpstream c1 = noUpstream ?c" "ch_size c1 = ch_size ?c"
    using W(1) t1 by (simp_all add: plain_def topo_eq_iff)
  have full: "channel c1 \<noteq> [] \<longrightarrow> (\<forall>q\<in>set (chanBuffer c1). q \<noteq> [])" using c1(2) by (simp add: popped_def)
  have finish: "\<exists>c'. refresh g too k0 p (h[p := c2]) = Inr (h[p := c']) \<and> called h p ?c c'" if "filled h c1 c2" for c2 too
    by (rule finish_call [OF assms(1,3) c1(2) that K(1,2,6,7,4)])
  show ?thesis
  proof (cases "noUpstream ?c")
    case True
    have "length (chanBuffer c0) = 1" "length (chanBuffer c0 ! 0) \<le> ch_size c0"
      using p0 l0 True K(1) by (auto simp: plain_def local_ok_def topo_eq_iff)
    moreover have "chanBuffer c1 ! 0 = kept c0 0" "ch_size c1 = ch_size c0"
      using c1(2) calculation(1) by (simp_all add: popped_def topo_eq_iff)
    moreover have "length (kept c0 0) \<le> length (chanBuffer c0 ! 0)" by (simp add: kept_def)
    ultimately have "length (chanBuffer c1 ! 0) \<le> ch_size c1" by simp
    then obtain c2 where c2: "push (clk k0) p (prog p h) 0 (h[p := c1]) = Inr (h[p := c2])" "filled h c1 c2"
      using filled_source [of c1 p h "clk k0" "prog p h"] plain_topo [OF t1] W(1) True sub(2) assms(3) full by auto
    obtain c' where c': "refresh g False k0 p (h[p := c2]) = Inr (h[p := c'])" "called h p ?c c'"
      using finish [OF c2(2)] by blast
    have "get_data g [prog p h] p (k, h) = Inr (k0, h[p := c'])"
      using assms(3) par c1(1) c2(1) c'(1) by (simp add: get_data_def modify_def)
    then have "loop_call g prog p (k, h) = Inr (k0, h[p := c'\<lparr>ch_value := prog p (h[p := c'])\<rparr>])"
      using assms(3) True by (simp add: loop_call_def modify_def)
    with called_value [OF c'(2)] show ?thesis by blast
  next
    case False
    obtain c2 where c2: "push_all (clk k0) p (h[p := c1]) = Inr (h[p := c2])" "filled h c1 c2"
      using filled_get [OF assms t1 full] False sub(2) by auto
    obtain c' where c': "refresh g True k0 p (h[p := c2]) = Inr (h[p := c'])" "called h p ?c c'"
      using finish [OF c2(2)] by blast
    have "get g p (k, h) = Inr (k0, h[p := c'])"
      using assms(3) par c1(1) c2(1) c'(1) sub(1) by (simp add: get_def modify_def)
    then have "loop_call g prog p (k, h) = Inr (k0, h[p := c'\<lparr>ch_value := prog p (h[p := c'])\<rparr>])"
      using assms(3) False by (simp add: loop_call_def modify_def)
    with called_value [OF c'(2)] show ?thesis by blast
  qed
qed

section \<open>Rounds of calls\<close>

text \<open>An iteration of the simulation loop calls every channel once. Before the call number \<open>i\<close> of an
  iteration, \<open>u\<close> was called more recently than \<open>p\<close> in these cases.\<close>

definition pending :: "nat \<Rightarrow> nat \<Rightarrow> nat \<Rightarrow> bool" where
  "pending i u p \<longleftrightarrow> (if u < p then u < i \<and> i \<le> p else \<not> (p < i \<and> i \<le> u))"

text \<open>A datum that is announced and was not offered yet to the consumer \<open>p\<close>.\<close>

definition offered :: "nat \<Rightarrow> heap \<Rightarrow> nat \<Rightarrow> nat \<Rightarrow> nat" where
  "offered i h u p = (if pending i u p \<and> ch_valid (h ! u) then 1 else 0)"

definition edges_ok :: "nat \<Rightarrow> heap \<Rightarrow> bool" where
  "edges_ok i h \<longleftrightarrow> (\<forall>p<length h. \<forall>b<length (upstream (h ! p)). let u = upstream (h ! p) ! b in
     chanBufferDataCnt (h ! p) ! b + offered i h u p = chanDataCnt (h ! u)
     \<and> length (chanBuffer (h ! p) ! b) + offered i h u p \<le> ch_size (h ! p))"

definition net_ok :: "nat \<Rightarrow> heap \<Rightarrow> bool" where
  "net_ok i h \<longleftrightarrow> wired h \<and> (\<forall>p<length h. local_ok (h ! p)) \<and> edges_ok i h"

lemma edges_okD:
  "edges_ok i h \<Longrightarrow> p < length h \<Longrightarrow> b < length (upstream (h ! p)) \<Longrightarrow>
     chanBufferDataCnt (h ! p) ! b + offered i h (upstream (h ! p) ! b) p = chanDataCnt (h ! (upstream (h ! p) ! b))
     \<and> length (chanBuffer (h ! p) ! b) + offered i h (upstream (h ! p) ! b) p \<le> ch_size (h ! p)"
  by (simp add: edges_ok_def Let_def)

lemma pending_consumer: "u \<noteq> p \<Longrightarrow> pending p u p \<and> \<not> pending (Suc p) u p"
  by (auto simp: pending_def)

lemma pending_producer: "u \<noteq> p \<Longrightarrow> \<not> pending u u p \<and> pending (Suc u) u p"
  by (auto simp: pending_def)

lemma pending_other: "r \<noteq> u \<Longrightarrow> r \<noteq> p \<Longrightarrow> pending (Suc r) u p = pending r u p"
  by (simp add: pending_def) linarith

lemma pending_wrap: "u < n \<Longrightarrow> p < n \<Longrightarrow> pending n u p = pending 0 u p"
  by (simp add: pending_def)

lemma edges_ok_call:
  assumes "net_ok r h" "r < length h" "called h r (h ! r) c'"
  shows "edges_ok (Suc r) (h[r := c'])"
  unfolding edges_ok_def length_list_update Let_def
proof (intro allI impI)
  fix p b assume p: "p < length h" and b: "b < length (upstream (h[r := c'] ! p))"
  have w: "wired h" and e: "edges_ok r h" and l: "local_ok (h ! p)" using assms(1) p by (simp_all add: net_ok_def)
  have t: "topo c' = topo (h ! r)" using assms(3) by (simp add: called_def)
  then have same: "upstream (h[r := c'] ! p) = upstream (h ! p)" "ch_size (h[r := c'] ! p) = ch_size (h ! p)"
    using assms(2) by (cases "p = r"; simp add: topo_eq_iff)+
  with b have b: "b < length (upstream (h ! p))" by simp
  define u where "u = upstream (h ! p) ! b"
  note W = wiredD [OF w p]
  have u: "u < length h" "u \<noteq> p" "p \<in> set (downstream (h ! u))" using W(3) [of u] b by (simp_all add: u_def)
  note E = edges_okD [OF e p b, folded u_def]
  have "chanBufferDataCnt (h[r := c'] ! p) ! b + offered (Suc r) (h[r := c']) u p = chanDataCnt (h[r := c'] ! u)
      \<and> length (chanBuffer (h[r := c'] ! p) ! b) + offered (Suc r) (h[r := c']) u p \<le> ch_size (h ! p)"
  proof (cases "p = r")
    case True
    have "length (chanBuffer c' ! b) \<le> length (chanBuffer (h ! r) ! b) + (if ch_valid (h ! u) then 1 else 0)
        \<and> chanBufferDataCnt c' ! b = chanBufferDataCnt (h ! r) ! b + (if ch_valid (h ! u) then 1 else 0)"
      using assms(3) b True by (simp add: called_def Let_def u_def)
    with E True u(2) assms(2) pending_consumer [OF u(2)] show ?thesis by (auto simp: offered_def)
  next
    case False
    show ?thesis
    proof (cases "u = r")
      case True
      have room: "length (chanBuffer (h ! p) ! b) < ch_size (h ! p)" if "ch_valid c'"
      proof -
        have "\<forall>q\<in>set (downstream (h ! r)). \<exists>b<length (upstream (h ! q)). upstream (h ! q) ! b = r \<and> \<not> bp (h ! q) ! b"
          using assms(3) that by (simp add: called_def)
        then obtain b' where b': "b' < length (upstream (h ! p))" "upstream (h ! p) ! b' = r" "\<not> bp (h ! p) ! b'"
          using u(3) True by blast
        then have "b' = b" using nth_eq_iff_index_eq [OF W(2) b'(1) b] True by (simp add: u_def)
        moreover have "b < length (chanBuffer (h ! p))" using W(1) b by (auto simp: plain_def)
        ultimately show ?thesis using l b'(3) by (simp add: local_ok_def)
      qed
      have "chanDataCnt c' = chanDataCnt (h ! r) + (if ch_valid c' then 1 else 0)" using assms(3) by (simp add: called_def)
      with E True False assms(2) pending_producer [OF u(2)] room show ?thesis by (auto simp: offered_def)
    next
      case u': False
      with False E pending_other [of r u p] show ?thesis by (simp add: offered_def)
    qed
  qed
  with same show "chanBufferDataCnt (h[r := c'] ! p) ! b + offered (Suc r) (h[r := c']) (upstream (h[r := c'] ! p) ! b) p
      = chanDataCnt (h[r := c'] ! (upstream (h[r := c'] ! p) ! b))
    \<and> length (chanBuffer (h[r := c'] ! p) ! b) + offered (Suc r) (h[r := c']) (upstream (h[r := c'] ! p) ! b) p
      \<le> ch_size (h[r := c'] ! p)"
    by (simp add: u_def)
qed

lemma net_ok_call:
  assumes "net_ok r h" "r < length h"
  shows "\<exists>k' c'. loop_call g prog r (k, h) = Inr (k', h[r := c']) \<and> net_ok (Suc r) (h[r := c']) \<and> map topo (h[r := c']) = map topo h
    \<and> called h r (h ! r) c'"
proof -
  have w: "wired h" and l: "\<And>u. u < length h \<Longrightarrow> local_ok (h ! u)" using assms(1) by (simp_all add: net_ok_def)
  obtain k' c' where c': "loop_call g prog r (k, h) = Inr (k', h[r := c'])" "called h r (h ! r) c'"
    using loop_call_plain [OF w l assms(2)] by blast
  have t: "topo c' = topo (h ! r)" "local_ok c'" using c'(2) by (simp_all add: called_def)
  have "local_ok (h[r := c'] ! p)" if "p < length h" for p
    using l [OF that] t(2) that by (cases "p = r") simp_all
  then have "net_ok (Suc r) (h[r := c'])"
    using wired_update [OF w assms(2) t(1)] edges_ok_call [OF assms c'(2)] by (simp add: net_ok_def)
  moreover have "map topo (h[r := c']) = map topo h" using t(1) assms(2) by (simp add: map_update heap_id)
  ultimately show ?thesis using c' by blast
qed

definition sim_round :: "config \<Rightarrow> (nat \<Rightarrow> heap \<Rightarrow> i32) \<Rightarrow> clkDomain \<times> heap \<Rightarrow> (clkDomain \<times> heap) res" where
  "sim_round g prog s = rbind (rfold (loop_call g prog) [0..<length (snd s)] s) (\<lambda>(k, h). Inr (clkUpdate k, h))"

fun sim_rounds :: "nat \<Rightarrow> config \<Rightarrow> (nat \<Rightarrow> heap \<Rightarrow> i32) \<Rightarrow> clkDomain \<times> heap \<Rightarrow> (clkDomain \<times> heap) res" where
  "sim_rounds 0 g prog s = Inr s"
| "sim_rounds (Suc n) g prog s = rbind (sim_round g prog s) (sim_rounds n g prog)"

text \<open>The calls number 0 to \<open>n - 1\<close> of an iteration: a channel has given up the datum that it announced before the
  iteration, and taken what its upstreams announce, those with a smaller number in this iteration.\<close>

definition carried :: "nat \<Rightarrow> heap \<Rightarrow> heap \<Rightarrow> bool" where
  "carried n h h' \<longleftrightarrow> (\<forall>p<length h. n \<le> p \<longrightarrow> h' ! p = h ! p)
     \<and> (\<forall>p<n. chanDataCnt (h' ! p) = chanDataCnt (h ! p) + (if ch_valid (h' ! p) then 1 else 0)
       \<and> (\<forall>b<length (upstream (h ! p)). let u = upstream (h ! p) ! b in
            map stripped (chanBuffer (h' ! p) ! b) = map stripped (kept (h ! p) b) @ told (if u < p then h' ! u else h ! u)))"

lemma carried_call:
  assumes m: "carried n h h'" and t: "map topo h' = map topo h" and w: "wired h" and n: "n < length h"
    and c: "called h' n (h' ! n) c'"
  shows "carried (Suc n) h (h'[n := c'])"
proof -
  have len: "length h' = length h" using t by (metis length_map)
  have same: "h' ! p = h ! p" if "p < length h" "n \<le> p" for p using m that by (simp add: carried_def)
  have old: "chanDataCnt (h' ! p) = chanDataCnt (h ! p) + (if ch_valid (h' ! p) then 1 else 0)"
      "b < length (upstream (h ! p)) \<Longrightarrow> map stripped (chanBuffer (h' ! p) ! b)
         = map stripped (kept (h ! p) b) @ told (if upstream (h ! p) ! b < p then h' ! (upstream (h ! p) ! b) else h ! (upstream (h ! p) ! b))"
    if "p < n" for p b using m that by (simp_all add: carried_def Let_def)
  have up: "upstream (h ! p) ! b \<noteq> p" "upstream (h ! p) ! b < length h" if "p < length h" "b < length (upstream (h ! p))" for p b
    using wiredD(3) [OF w that(1) nth_mem [OF that(2)]] by simp_all
  note C = c [unfolded called_def Let_def]
  have n': "n < length h'" using n len by simp
  show ?thesis
    unfolding carried_def Let_def
  proof (intro conjI allI impI)
    fix p assume "p < length h" "Suc n \<le> p"
    then show "h'[n := c'] ! p = h ! p" using same by simp
  next
    fix p assume p: "p < Suc n"
    show "chanDataCnt (h'[n := c'] ! p) = chanDataCnt (h ! p) + (if ch_valid (h'[n := c'] ! p) then 1 else 0)"
    proof (cases "p = n")
      case True
      have "chanDataCnt c' = chanDataCnt (h' ! n) + (if ch_valid c' then 1 else 0)" using C by blast
      with True n' same [OF n] show ?thesis by simp
    next
      case False
      with p old(1) [of p] show ?thesis by simp
    qed
  next
    fix p b assume p: "p < Suc n" and b: "b < length (upstream (h ! p))"
    define u where "u = upstream (h ! p) ! b"
    have u: "u \<noteq> p" "u < length h" using up [of p b] p n b by (simp_all add: u_def)
    have "map stripped (chanBuffer (h'[n := c'] ! p) ! b) = map stripped (kept (h ! p) b) @ told (if u < p then h'[n := c'] ! u else h ! u)"
    proof (cases "p = n")
      case True
      have "map stripped (chanBuffer c' ! b) = map stripped (kept (h' ! n) b) @ told (h' ! (upstream (h' ! n) ! b))"
        using C b True same [OF n] by simp
      moreover have "h' ! u = (if u < n then h'[n := c'] ! u else h ! u)" using u same [of u] True by auto
      ultimately show ?thesis using True same [OF n] n' by (simp add: u_def)
    next
      case False
      then have "p < n" using p by simp
      with old(2) [OF this b] u show ?thesis by (auto simp: u_def [symmetric])
    qed
    then show "map stripped (chanBuffer (h'[n := c'] ! p) ! b)
        = map stripped (kept (h ! p) b) @ told (if upstream (h ! p) ! b < p then h'[n := c'] ! (upstream (h ! p) ! b) else h ! (upstream (h ! p) ! b))"
      by (simp add: u_def)
  qed
qed

lemma net_ok_calls:
  assumes "net_ok 0 h" "n \<le> length h"
  shows "\<exists>k' h'. rfold (loop_call g prog) [0..<n] (k, h) = Inr (k', h') \<and> net_ok n h' \<and> map topo h' = map topo h \<and> carried n h h'"
  using assms(2)
proof (induction n)
  case 0
  then show ?case using assms(1) by (simp add: carried_def)
next
  case (Suc n)
  then obtain k' h' where IH: "rfold (loop_call g prog) [0..<n] (k, h) = Inr (k', h')" "net_ok n h'" "map topo h' = map topo h" "carried n h h'"
    by auto
  have "length h' = length h" using IH(3) by (metis length_map)
  then obtain k'' c' where c: "loop_call g prog n (k', h') = Inr (k'', h'[n := c'])" "net_ok (Suc n) (h'[n := c'])"
      "map topo (h'[n := c']) = map topo h'" "called h' n (h' ! n) c'"
    using net_ok_call [OF IH(2), of g prog k'] Suc.prems by auto
  have "carried (Suc n) h (h'[n := c'])"
    using carried_call [OF IH(4,3) _ _ c(4)] assms(1) Suc.prems by (simp add: net_ok_def)
  with IH c show ?case by (simp add: rfold_append)
qed

lemma net_ok_round:
  assumes "net_ok 0 h"
  shows "\<exists>k' h'. sim_round g prog (k, h) = Inr (k', h') \<and> net_ok 0 h' \<and> map topo h' = map topo h \<and> carried (length h) h h'"
proof -
  obtain k' h' where r: "rfold (loop_call g prog) [0..<length h] (k, h) = Inr (k', h')" "net_ok (length h) h'" "map topo h' = map topo h"
      "carried (length h) h h'"
    using net_ok_calls [OF assms order_refl] by blast
  have len: "length h' = length h" using r(3) by (metis length_map)
  have "offered 0 h' u p = offered (length h) h' u p" if "u < length h'" "p < length h'" for u p
    using pending_wrap [of u "length h" p] that len by (simp add: offered_def)
  moreover have "upstream (h' ! p) ! b < length h'" if "p < length h'" "b < length (upstream (h' ! p))" for p b
    using r(2) wiredD(3) [of h' p] that by (simp add: net_ok_def)
  ultimately have "net_ok 0 h'" using r(2) by (simp add: net_ok_def edges_ok_def Let_def)
  with r show ?thesis by (simp add: sim_round_def)
qed

text \<open>The graphs before each of the iterations, and the data that a channel announces at the ends of iterations.\<close>

fun sim_log :: "nat \<Rightarrow> config \<Rightarrow> (nat \<Rightarrow> heap \<Rightarrow> i32) \<Rightarrow> clkDomain \<times> heap \<Rightarrow> heap list res" where
  "sim_log 0 g prog s = Inr []"
| "sim_log (Suc n) g prog s = rbind (sim_round g prog s) (\<lambda>s'. rbind (sim_log n g prog s') (\<lambda>hs. Inr (snd s # hs)))"

definition announces :: "nat \<Rightarrow> heap list \<Rightarrow> data list" where
  "announces u hs = concat (map (\<lambda>h. told (h ! u)) hs)"

fun carrying :: "heap list \<Rightarrow> bool" where
  "carrying (h # h' # hs) \<longleftrightarrow> carried (length h) h h' \<and> map topo h' = map topo h \<and> net_ok 0 h' \<and> carrying (h' # hs)"
| "carrying _ \<longleftrightarrow> True"

lemma net_ok_rounds:
  assumes "net_ok 0 h"
  shows "\<exists>k' h' hs. sim_rounds n g prog (k, h) = Inr (k', h') \<and> net_ok 0 h' \<and> map topo h' = map topo h
    \<and> sim_log n g prog (k, h) = Inr hs \<and> carrying (hs @ [h']) \<and> hd (hs @ [h']) = h"
  using assms
proof (induction n arbitrary: k h)
  case 0
  then show ?case by simp
next
  case (Suc n)
  obtain k1 h1 where 1: "sim_round g prog (k, h) = Inr (k1, h1)" "net_ok 0 h1" "map topo h1 = map topo h" "carried (length h) h h1"
    using net_ok_round [OF Suc.prems] by blast
  obtain k' h' hs where 2: "sim_rounds n g prog (k1, h1) = Inr (k', h')" "net_ok 0 h'" "map topo h' = map topo h1"
      "sim_log n g prog (k1, h1) = Inr hs" "carrying (hs @ [h'])" "hd (hs @ [h']) = h1"
    using Suc.IH [OF 1(2)] by blast
  then have "carrying (h # hs @ [h'])" using 1 by (cases "hs @ [h']") simp_all
  with 1 2 show ?case by auto
qed

text \<open>A graph before its first cycle.\<close>

definition fresh :: "chan \<Rightarrow> bool" where
  "fresh c \<longleftrightarrow> channel c = [] \<and> \<not> ch_valid c \<and> chanDataCnt c = 0 \<and> list_all (\<lambda>q. q = []) (chanBuffer c)
     \<and> list_all (\<lambda>n. n = 0) (chanBufferDataCnt c)"

lemma net_ok_fresh:
  assumes "wired h" "list_all fresh h"
  shows "net_ok 0 h"
proof -
  have f: "fresh (h ! p)" if "p < length h" for p using assms(2) that by (simp add: list_all_length)
  have l: "local_ok (h ! p)" if p: "p < length h" for p
  proof -
    have "plain (h ! p)" using wiredD(1) [OF assms(1) p] .
    with f [OF p] show ?thesis
      by (auto simp: fresh_def local_ok_def plain_def list_all_length split: if_splits)
  qed
  have "edges_ok 0 h"
    unfolding edges_ok_def Let_def
  proof (intro allI impI)
    fix p b assume p: "p < length h" and b: "b < length (upstream (h ! p))"
    have "upstream (h ! p) ! b < length h" using wiredD(3) [OF assms(1) p] b by simp
    moreover have "b < length (chanBuffer (h ! p))" "length (chanBufferDataCnt (h ! p)) = length (chanBuffer (h ! p))"
      using wiredD(1) [OF assms(1) p] b by (auto simp: plain_def)
    ultimately show "chanBufferDataCnt (h ! p) ! b + offered 0 h (upstream (h ! p) ! b) p = chanDataCnt (h ! (upstream (h ! p) ! b))
        \<and> length (chanBuffer (h ! p) ! b) + offered 0 h (upstream (h ! p) ! b) p \<le> ch_size (h ! p)"
      using f [OF p] f [of "upstream (h ! p) ! b"] by (simp add: fresh_def offered_def list_all_length)
  qed
  with assms(1) l show ?thesis by (simp add: net_ok_def)
qed

section \<open>The data that pass an edge\<close>

lemma announces_append: "announces u (hs @ hs') = announces u hs @ announces u hs'"
  and announces_Cons: "announces u (h # hs) = told (h ! u) @ announces u hs"
  and announces_Nil: "announces u [] = []"
  by (simp_all add: announces_def)

lemmas announces_simps = announces_append announces_Cons announces_Nil

lemma carrying_snoc: "carrying (hs @ [h, h']) \<longleftrightarrow> carrying (hs @ [h]) \<and> carried (length h) h h' \<and> map topo h' = map topo h \<and> net_ok 0 h'"
  by (induction hs rule: carrying.induct) auto

lemma carrying_last:
  "carrying (hs @ [h']) \<Longrightarrow> net_ok 0 (hd (hs @ [h'])) \<Longrightarrow> net_ok 0 h' \<and> map topo h' = map topo (hd (hs @ [h']))"
proof (induction hs arbitrary: h' rule: rev_induct)
  case (snoc h hs)
  then have "hd ((hs @ [h]) @ [h']) = hd (hs @ [h])" by (cases hs) simp_all
  with snoc show ?case by (simp add: carrying_snoc)
qed simp

text \<open>The data announced by the upstream that the consumer \<open>p\<close> was offered: those of this iteration only when the upstream
  is called before it.\<close>

definition stream :: "nat \<Rightarrow> nat \<Rightarrow> heap list \<Rightarrow> heap \<Rightarrow> data list" where
  "stream p u hs h = announces u (if u < p then hs @ [h] else hs)"

lemma stream_snoc: "stream p u (hs @ [h]) h' = stream p u hs h @ told (if u < p then h' ! u else h ! u)"
  by (simp add: stream_def announces_simps)

lemma edge_streams:
  assumes "carrying (hs @ [h'])" "hd (hs @ [h']) = h0" "wired h0" "list_all fresh h0" "p < length h0"
  shows "chanDataCnt (h' ! p) = length (announces p (hs @ [h']))
    \<and> (\<forall>b<length (upstream (h0 ! p)). let u = upstream (h0 ! p) ! b; k = length (announces p hs) in
         k \<le> length (stream p u hs h') \<and> map stripped (chanBuffer (h' ! p) ! b) = drop k (stream p u hs h'))"
  using assms(1,2)
proof (induction hs arbitrary: h' rule: rev_induct)
  case Nil
  then have h': "h' = h0" by simp
  have f: "fresh (h0 ! q)" if "q < length h0" for q using assms(4) that by (simp add: list_all_length)
  have "upstream (h0 ! p) ! b < length h0 \<and> chanBuffer (h0 ! p) ! b = []" if b: "b < length (upstream (h0 ! p))" for b
  proof -
    have "b < length (chanBuffer (h0 ! p))" using wiredD(1) [OF assms(3,5)] b by (auto simp: plain_def)
    then have "chanBuffer (h0 ! p) ! b = []" using f [OF assms(5)] by (simp add: fresh_def list_all_length)
    moreover have "upstream (h0 ! p) ! b < length h0" using wiredD(3) [OF assms(3,5)] b by simp
    ultimately show ?thesis by simp
  qed
  with f show ?case using f [OF assms(5)] unfolding h' by (auto simp: announces_def stream_def told_def fresh_def Let_def)
next
  case (snoc h hs)
  have hd: "hd (hs @ [h]) = h0" using snoc.prems(2) by (cases hs) simp_all
  have m: "carrying (hs @ [h])" "carried (length h) h h'" using snoc.prems(1) by (simp_all add: carrying_snoc)
  note IH = snoc.IH [OF m(1) hd]
  have ok: "net_ok 0 h" "map topo h = map topo h0"
    using carrying_last [OF m(1)] net_ok_fresh [OF assms(3,4)] hd by simp_all
  have p: "p < length h" using assms(5) ok(2) by (metis length_map)
  have up: "upstream (h ! p) = upstream (h0 ! p)"
  proof -
    have "topo (h ! p) = topo (h0 ! p)" using ok(2) p assms(5) by (metis nth_map)
    then show ?thesis by (simp add: topo_eq_iff)
  qed
  have "chanDataCnt (h' ! p) = chanDataCnt (h ! p) + (if ch_valid (h' ! p) then 1 else 0)" using m(2) p by (simp add: carried_def)
  then have "chanDataCnt (h' ! p) = length (announces p ((hs @ [h]) @ [h']))"
    using IH by (simp add: announces_simps told_def)
  moreover have "k \<le> length (stream p u (hs @ [h]) h')
      \<and> map stripped (chanBuffer (h' ! p) ! b) = drop k (stream p u (hs @ [h]) h')"
    if b: "b < length (upstream (h0 ! p))" and u: "u = upstream (h0 ! p) ! b" and k: "k = length (announces p (hs @ [h]))" for b u k
  proof -
    let ?j = "length (announces p hs)" and ?A = "stream p u hs h"
    have j: "?j \<le> length ?A" "map stripped (chanBuffer (h ! p) ! b) = drop ?j ?A" using IH b u by (simp_all add: Let_def)
    have bl: "b < length (chanBuffer (h ! p))"
      using wiredD(1) [of h p] ok(1) p b up by (auto simp: net_ok_def plain_def)
    have k': "k = ?j + (if ch_valid (h ! p) then 1 else 0)" by (simp add: k announces_simps told_def)
    have ne: "chanBuffer (h ! p) ! b \<noteq> []" if "ch_valid (h ! p)"
      using ok(1) p that bl by (auto simp: net_ok_def local_ok_def)
    have le: "k \<le> length ?A"
    proof (cases "ch_valid (h ! p)")
      case True
      with ne j(2) have "drop ?j ?A \<noteq> []" by (metis map_is_Nil_conv)
      with True k' show ?thesis by simp
    next
      case False
      with k' j(1) show ?thesis by simp
    qed
    have "map stripped (kept (h ! p) b) = drop k ?A" using j(2) k' by (simp add: kept_def map_tl tl_drop drop_Suc)
    moreover have "map stripped (chanBuffer (h' ! p) ! b) = map stripped (kept (h ! p) b) @ told (if u < p then h' ! u else h ! u)"
      using m(2) p b up by (simp add: carried_def Let_def u)
    ultimately show ?thesis using le by (simp add: stream_snoc)
  qed
  ultimately show ?case by (simp add: Let_def)
qed

text \<open>C2: in a graph of plain channels, with any number of upstreams and consumers, any buffer sizes,
  any delays and speedups, in any order of the calls and with any program, the simulation loop never
  fails, and every edge transports the data that its upstream announces, with the value and the flags that were announced,
  without loss, repetition or reordering: after every iteration the buffer of the consumer holds the announced data
  less a first part, one datum for each announcement that the consumer itself made before this iteration. The announced data are those
  of all iterations when the consumer is called after its upstream, and otherwise those before this iteration, so that the
  consumer receives the last one in the next iteration. The counters of the channels are the numbers of these data, and no
  buffer holds more data than its size.\<close>

theorem handshake_lossless:
  assumes "wired h" "list_all fresh h"
  shows "\<exists>k' h' hs. sim_rounds n g prog (k, h) = Inr (k', h') \<and> sim_log n g prog (k, h) = Inr hs \<and> map topo h' = map topo h
    \<and> (\<forall>p<length h. chanDataCnt (h' ! p) = length (announces p (hs @ [h']))
      \<and> (\<forall>b<length (upstream (h ! p)). let u = upstream (h ! p) ! b; s = announces u (if u < p then hs @ [h'] else hs) in
         length (announces p hs) \<le> length s
         \<and> map stripped (chanBuffer (h' ! p) ! b) = drop (length (announces p hs)) s
         \<and> chanBufferDataCnt (h' ! p) ! b + (if ch_valid (h' ! u) \<and> p < u then 1 else 0) = chanDataCnt (h' ! u)
         \<and> length (chanBuffer (h' ! p) ! b) \<le> ch_size (h ! p)))"
proof -
  obtain k' h' hs where r: "sim_rounds n g prog (k, h) = Inr (k', h')" "net_ok 0 h'" "map topo h' = map topo h"
      "sim_log n g prog (k, h) = Inr hs" "carrying (hs @ [h'])" "hd (hs @ [h']) = h"
    using net_ok_rounds [OF net_ok_fresh [OF assms]] by blast
  have len: "length h' = length h" using r(3) by (metis length_map)
  have w: "wired h'" and e: "edges_ok 0 h'" using r(2) by (simp_all add: net_ok_def)
  have "chanBufferDataCnt (h' ! p) ! b + (if ch_valid (h' ! u) \<and> p < u then 1 else 0) = chanDataCnt (h' ! u)
         \<and> length (chanBuffer (h' ! p) ! b) \<le> ch_size (h ! p)"
    if p: "p < length h" and b: "b < length (upstream (h ! p))" and u: "u = upstream (h ! p) ! b" for p b u
  proof -
    have t: "topo (h' ! p) = topo (h ! p)" using r(3) p len by (metis nth_map)
    then have same: "upstream (h' ! p) = upstream (h ! p)" "ch_size (h' ! p) = ch_size (h ! p)" by (simp_all add: topo_eq_iff)
    have "u \<noteq> p" using wiredD(3) [OF assms(1) p, of u] b u by simp
    then have "offered 0 h' u p = (if ch_valid (h' ! u) \<and> p < u then 1 else 0)"
      by (auto simp: offered_def pending_def)
    then show ?thesis using edges_okD [OF e, of p b] p b u len same by simp
  qed
  with r(1,3,4) edge_streams [OF r(5,6) assms] show ?thesis unfolding Let_def stream_def by blast
qed

text \<open>A source, a channel and a channel that joins both.\<close>

definition demo_net :: heap where
  "demo_net =
     [(chan_new 0 1 0 1 ChanBase)\<lparr>chanBuffer := [[]], chanBufferDataCnt := [0], getTheLastData := [False], bp := [False],
        ch_lastPopVal := [0], noUpstream := True, downstream := [2, 1]\<rparr>,
      (chan_new 1 2 1 1 ChanBase)\<lparr>chanBuffer := [[], []], chanBufferDataCnt := [0, 0], getTheLastData := [False, False],
        bp := [False, False], ch_lastPopVal := [0, 0], noDownstream := True, upstream := [0, 2]\<rparr>,
      (chan_new 2 1 1 1 ChanBase)\<lparr>chanBuffer := [[]], chanBufferDataCnt := [0], getTheLastData := [False], bp := [False],
        ch_lastPopVal := [0], upstream := [0], downstream := [1]\<rparr>]"

theorem handshake_lossless_witness:
  "\<exists>k' h' hs. sim_rounds 5 cfg_demo (\<lambda>p h. 3) (\<lparr>clk = 0, clkAdd = True, clkStall = []\<rparr>, demo_net) = Inr (k', h')
    \<and> sim_log 5 cfg_demo (\<lambda>p h. 3) (\<lparr>clk = 0, clkAdd = True, clkStall = []\<rparr>, demo_net) = Inr hs
    \<and> map stripped (chanBuffer (h' ! 1) ! 1) = drop (length (announces 1 hs)) (announces 2 hs)
    \<and> chanBufferDataCnt (h' ! 1) ! 1 + (if ch_valid (h' ! 2) then 1 else 0) = chanDataCnt (h' ! 2)
    \<and> chanDataCnt (h' ! 2) = 2"
proof -
  let ?s = "(\<lparr>clk = 0, clkAdd = True, clkStall = []\<rparr>, demo_net)"
  have "wired demo_net" "list_all fresh demo_net" by code_simp+
  note T = handshake_lossless [OF this, of 5 cfg_demo "\<lambda>p h. 3" "\<lparr>clk = 0, clkAdd = True, clkStall = []\<rparr>"]
  have d: "1 < length demo_net" "1 < length (upstream (demo_net ! 1))" "upstream (demo_net ! 1) ! 1 = 2"
    by (simp_all add: demo_net_def)
  obtain k' h' hs where r: "sim_rounds 5 cfg_demo (\<lambda>p h. 3) ?s = Inr (k', h')" "sim_log 5 cfg_demo (\<lambda>p h. 3) ?s = Inr hs"
    and e: "map stripped (chanBuffer (h' ! 1) ! 1) = drop (length (announces 1 hs)) (announces 2 hs)"
      "chanBufferDataCnt (h' ! 1) ! 1 + (if ch_valid (h' ! 2) then 1 else 0) = chanDataCnt (h' ! 2)"
    using T d by (fastforce simp: Let_def)
  moreover have "chanDataCnt (snd (projr (sim_rounds 5 cfg_demo (\<lambda>p h. 3) ?s)) ! 2) = 2" by code_simp
  ultimately show ?thesis by auto
qed

end
