(* ===== verification/RegistryNetwork.thy ===== *)
theory RegistryNetwork
  imports RegistryConnect ChannelNet
begin

text \<open>
  What the registry builds from a graph of plain channels: a network that satisfies the hypotheses of the
  hand-shake theorem of \<open>ChannelNet\<close> and whose edges are those of the graph.
\<close>

section \<open>Loops over all channels\<close>

lemma modify_ok: "p < length h \<Longrightarrow> modify p (\<lambda>c. Inr (f c)) h = Inr (h[p := f (h ! p)])"
  by (simp add: modify_def)

lemma update_prefix:
  assumes "m < n" "length h = n"
  shows "(map (\<lambda>p. F p (h ! p)) [0..<m] @ drop m h)[m := F m (h ! m)] = map (\<lambda>p. F p (h ! p)) [0..<Suc m] @ drop (Suc m) h"
  using assms by (simp add: list_update_append Cons_nth_drop_Suc [symmetric])

text \<open>A loop whose step \<open>p\<close> changes only the element \<open>p\<close>, whatever the others are; \<open>V\<close> is the state around them.\<close>

lemma rfold_each_in:
  assumes "\<And>p l. p < length h \<Longrightarrow> length l = length h \<Longrightarrow> l ! p = h ! p \<Longrightarrow> f p (V l) = Inr (V (l[p := F p (h ! p)]))"
  shows "rfold f [0..<length h] (V h) = Inr (V (map (\<lambda>p. F p (h ! p)) [0..<length h]))"
proof -
  have "rfold f [0..<m] (V h) = Inr (V (map (\<lambda>p. F p (h ! p)) [0..<m] @ drop m h))" if "m \<le> length h" for m
    using that
  proof (induction m)
    case (Suc m)
    let ?l = "map (\<lambda>p. F p (h ! p)) [0..<m] @ drop m h"
    have "f m (V ?l) = Inr (V (?l[m := F m (h ! m)]))" using Suc.prems by (intro assms) (auto simp: nth_append)
    then show ?case using Suc update_prefix [of m "length h" h F] by (simp add: rfold_append)
  qed simp
  from this [of "length h"] show ?thesis by simp
qed

lemmas rfold_each = rfold_each_in [where V = "\<lambda>l. l"]

lemma each_chan_all: "each_chan (\<lambda>c. Inr (f c)) [0..<length h] h = Inr (map f h)"
proof -
  have "each_chan (\<lambda>c. Inr (f c)) [0..<length h] h = Inr (map (\<lambda>p. f (h ! p)) [0..<length h])"
    unfolding each_chan_def by (rule rfold_each) (simp add: modify_ok)
  also have "map (\<lambda>p. f (h ! p)) [0..<length h] = map f h" by (rule nth_equalityI) simp_all
  finally show ?thesis .
qed

section \<open>Completing the links\<close>

text \<open>Two heaps whose channels differ only in their links.\<close>

definition same_node :: "chan \<Rightarrow> chan \<Rightarrow> bool" where
  "same_node c d \<longleftrightarrow> d\<lparr>upstream := [], downstream := []\<rparr> = c\<lparr>upstream := [], downstream := []\<rparr>"

definition relinked :: "heap \<Rightarrow> heap \<Rightarrow> bool" where
  "relinked h h' \<longleftrightarrow> length h' = length h \<and> (\<forall>p<length h. same_node (h ! p) (h' ! p))"

lemma same_node_refl [simp]: "same_node c c" by (simp add: same_node_def)

lemma same_node_links [simp]: "same_node c (c\<lparr>upstream := u\<rparr>)" "same_node c (c\<lparr>downstream := u\<rparr>)"
  by (simp_all add: same_node_def)

lemma relinked_update: "p < length h \<Longrightarrow> same_node (h ! p) c \<Longrightarrow> relinked h (h[p := c])"
  by (auto simp: relinked_def nth_list_update)

lemma relinked_trans: "relinked h h' \<Longrightarrow> relinked h' h'' \<Longrightarrow> relinked h h''"
  by (simp add: relinked_def same_node_def)

lemma add_downs:
  assumes "set us \<subseteq> {..<length h}"
  shows "\<exists>h'. rfold (chan_addDownstream [Some p]) us h = Inr h' \<and> relinked h h'
    \<and> (\<forall>k<length h. upstream (h' ! k) = upstream (h ! k)
         \<and> set (downstream (h' ! k)) = set (downstream (h ! k)) \<union> (if k \<in> set us then {p} else {}))"
  using assms
proof (induction us arbitrary: h)
  case Nil
  show ?case by (simp add: relinked_def)
next
  case (Cons u us)
  let ?h = "h[u := addDownstream [Some p] (h ! u)]"
  have u: "u < length h" using Cons.prems by simp
  have one: "chan_addDownstream [Some p] u h = Inr ?h" using u by (simp add: chan_addDownstream_def modify_ok)
  have r: "relinked h ?h" using u by (intro relinked_update) (simp_all add: addDownstream_def)
  have l: "upstream (?h ! k) = upstream (h ! k) \<and> set (downstream (?h ! k)) = set (downstream (h ! k)) \<union> (if k = u then {p} else {})"
    if "k < length h" for k
    using that by (simp add: nth_list_update addDownstream_def map_filter_def)
  from Cons.IH [of ?h] Cons.prems obtain h' where h': "rfold (chan_addDownstream [Some p]) us ?h = Inr h'" "relinked ?h h'"
    "\<forall>k<length h. upstream (h' ! k) = upstream (?h ! k)
         \<and> set (downstream (h' ! k)) = set (downstream (?h ! k)) \<union> (if k \<in> set us then {p} else {})" by auto
  have "rfold (chan_addDownstream [Some p]) (u # us) h = Inr h'" using one h'(1) by simp
  moreover have "relinked h h'" using r h'(2) by (rule relinked_trans)
  ultimately show ?case using h'(3) l by (intro exI [of _ h']) auto
qed

lemma add_ups:
  assumes "set us \<subseteq> {..<length h}"
  shows "\<exists>h'. rfold (chan_addUpstream [Some p]) us h = Inr h' \<and> relinked h h'
    \<and> (\<forall>k<length h. downstream (h' ! k) = downstream (h ! k)
         \<and> set (upstream (h' ! k)) = set (upstream (h ! k)) \<union> (if k \<in> set us then {p} else {}))"
  using assms
proof (induction us arbitrary: h)
  case Nil
  show ?case by (simp add: relinked_def)
next
  case (Cons u us)
  let ?h = "h[u := addUpstream [Some p] (h ! u)]"
  have u: "u < length h" using Cons.prems by simp
  have one: "chan_addUpstream [Some p] u h = Inr ?h" using u by (simp add: chan_addUpstream_def modify_ok)
  have r: "relinked h ?h" using u by (intro relinked_update) (simp_all add: addUpstream_def)
  have l: "downstream (?h ! k) = downstream (h ! k) \<and> set (upstream (?h ! k)) = set (upstream (h ! k)) \<union> (if k = u then {p} else {})"
    if "k < length h" for k
    using that by (simp add: nth_list_update addUpstream_def map_filter_def)
  from Cons.IH [of ?h] Cons.prems obtain h' where h': "rfold (chan_addUpstream [Some p]) us ?h = Inr h'" "relinked ?h h'"
    "\<forall>k<length h. downstream (h' ! k) = downstream (?h ! k)
         \<and> set (upstream (h' ! k)) = set (upstream (?h ! k)) \<union> (if k \<in> set us then {p} else {})" by auto
  have "rfold (chan_addUpstream [Some p]) (u # us) h = Inr h'" using one h'(1) by simp
  moreover have "relinked h h'" using r h'(2) by (rule relinked_trans)
  ultimately show ?case using h'(3) l by (intro exI [of _ h']) auto
qed

text \<open>The edges that either end declares.\<close>

definition edge :: "heap \<Rightarrow> nat \<Rightarrow> nat \<Rightarrow> bool" where
  "edge h p q \<longleftrightarrow> p < length h \<and> q < length h \<and> (q \<in> set (downstream (h ! p)) \<or> p \<in> set (upstream (h ! q)))"

definition links_ok :: "heap \<Rightarrow> bool" where
  "links_ok h \<longleftrightarrow> (\<forall>p<length h. set (upstream (h ! p)) \<subseteq> {..<length h} \<and> set (downstream (h ! p)) \<subseteq> {..<length h})"

definition completed_below :: "nat \<Rightarrow> heap \<Rightarrow> heap \<Rightarrow> bool" where
  "completed_below m h l \<longleftrightarrow> relinked h l
     \<and> (\<forall>q<length h. set (upstream (h ! q)) \<subseteq> set (upstream (l ! q)) \<and> (\<forall>p\<in>set (upstream (l ! q)). edge h p q))
     \<and> (\<forall>p<length h. set (downstream (h ! p)) \<subseteq> set (downstream (l ! p)) \<and> (\<forall>q\<in>set (downstream (l ! p)). edge h p q))
     \<and> (\<forall>p<m. (\<forall>q\<in>set (downstream (h ! p)). p \<in> set (upstream (l ! q))) \<and> (\<forall>q\<in>set (upstream (h ! p)). p \<in> set (downstream (l ! q))))"

lemma links_okD: "links_ok h \<Longrightarrow> p < length h \<Longrightarrow> q \<in> set (downstream (h ! p)) \<union> set (upstream (h ! p)) \<Longrightarrow> q < length h"
  by (auto simp: links_ok_def)

lemma complete_step:
  assumes ok: "links_ok h" and inv: "completed_below m h l" and m: "m < length h"
  shows "\<exists>l'. complete_chan m l = Inr l' \<and> completed_below (Suc m) h l'"
proof -
  have len: "length l = length h" using inv by (simp add: completed_below_def relinked_def)
  have U: "set (upstream (h ! q)) \<subseteq> set (upstream (l ! q)) \<and> (\<forall>p\<in>set (upstream (l ! q)). edge h p q)" if "q < length h" for q
    using inv that by (simp add: completed_below_def)
  have D: "set (downstream (h ! p)) \<subseteq> set (downstream (l ! p)) \<and> (\<forall>q\<in>set (downstream (l ! p)). edge h p q)" if "p < length h" for p
    using inv that by (simp add: completed_below_def)
  have "set (upstream (l ! m)) \<subseteq> {..<length l}" using U [OF m] len by (auto simp: edge_def)
  from add_downs [OF this, of m] obtain l1 where l1: "rfold (chan_addDownstream [Some m]) (upstream (l ! m)) l = Inr l1" "relinked l l1"
    "\<And>k. k < length h \<Longrightarrow> upstream (l1 ! k) = upstream (l ! k)"
    "\<And>k. k < length h \<Longrightarrow> set (downstream (l1 ! k)) = set (downstream (l ! k)) \<union> (if k \<in> set (upstream (l ! m)) then {m} else {})"
    unfolding len by blast
  have len1: "length l1 = length h" using l1(2) len by (simp add: relinked_def)
  have e1: "\<forall>q\<in>set (downstream (l1 ! p)). edge h p q" if "p < length h" for p
    using l1(4) [OF that] D [OF that] U [OF m] by (auto split: if_splits)
  have "set (downstream (l1 ! m)) \<subseteq> {..<length l1}" using e1 [OF m] len1 by (auto simp: edge_def)
  from add_ups [OF this, of m] obtain l2 where l2: "rfold (chan_addUpstream [Some m]) (downstream (l1 ! m)) l1 = Inr l2" "relinked l1 l2"
    "\<And>k. k < length h \<Longrightarrow> downstream (l2 ! k) = downstream (l1 ! k)"
    "\<And>k. k < length h \<Longrightarrow> set (upstream (l2 ! k)) = set (upstream (l1 ! k)) \<union> (if k \<in> set (downstream (l1 ! m)) then {m} else {})"
    unfolding len1 by blast
  have run: "complete_chan m l = Inr l2" using m len len1 l1(1) l2(1) by (simp add: complete_chan_def)
  have "relinked h l2" using inv l1(2) l2(2) by (auto simp: completed_below_def intro: relinked_trans)
  moreover have "set (upstream (h ! q)) \<subseteq> set (upstream (l2 ! q)) \<and> (\<forall>p\<in>set (upstream (l2 ! q)). edge h p q)" if "q < length h" for q
    using l2(4) [OF that] l1(3) [OF that] U [OF that] e1 [OF m] by (auto split: if_splits)
  moreover have "set (downstream (h ! p)) \<subseteq> set (downstream (l2 ! p)) \<and> (\<forall>q\<in>set (downstream (l2 ! p)). edge h p q)" if "p < length h" for p
    using l2(3) [OF that] l1(4) [OF that] D [OF that] e1 [OF that] by auto
  moreover have "(\<forall>q\<in>set (downstream (h ! p)). p \<in> set (upstream (l2 ! q))) \<and> (\<forall>q\<in>set (upstream (h ! p)). p \<in> set (downstream (l2 ! q)))"
    if p: "p < Suc m" for p
  proof (cases "p = m")
    case True
    have "p \<in> set (upstream (l2 ! q))" if q: "q \<in> set (downstream (h ! p))" for q
    proof -
      have "q < length h" using q ok m True by (auto simp: links_ok_def)
      moreover have "q \<in> set (downstream (l1 ! m))" using q D [OF m] l1(4) [OF m] True by auto
      ultimately show ?thesis using l2(4) True by simp
    qed
    moreover have "p \<in> set (downstream (l2 ! q))" if q: "q \<in> set (upstream (h ! p))" for q
    proof -
      have "q < length h" using q ok m True by (auto simp: links_ok_def)
      moreover have "q \<in> set (upstream (l ! m))" using q U [OF m] True by auto
      ultimately show ?thesis using l1(4) l2(3) True by simp
    qed
    ultimately show ?thesis by blast
  next
    case False
    then have pm: "p < m" using p by simp
    have in_h: "q < length h" if "q \<in> set (downstream (h ! p)) \<union> set (upstream (h ! p))" for q
      using links_okD [OF ok _ that] pm m by simp
    have "(\<forall>q\<in>set (downstream (h ! p)). p \<in> set (upstream (l ! q))) \<and> (\<forall>q\<in>set (upstream (h ! p)). p \<in> set (downstream (l ! q)))"
      using inv pm by (simp add: completed_below_def)
    then show ?thesis using in_h l1(3,4) l2(3,4) by auto
  qed
  ultimately have "completed_below (Suc m) h l2" by (simp add: completed_below_def)
  with run show ?thesis by blast
qed

lemma complete_all:
  assumes "links_ok h"
  shows "\<exists>l. rfold complete_chan [0..<length h] h = Inr l \<and> relinked h l
    \<and> (\<forall>q<length h. set (upstream (l ! q)) = {p. edge h p q}) \<and> (\<forall>p<length h. set (downstream (l ! p)) = {q. edge h p q})"
proof -
  have "\<exists>l. rfold complete_chan [0..<m] h = Inr l \<and> completed_below m h l" if "m \<le> length h" for m
    using that
  proof (induction m)
    case 0
    show ?case by (auto simp: completed_below_def relinked_def edge_def) (use assms in \<open>auto simp: links_ok_def\<close>)
  next
    case (Suc m)
    then obtain l where l: "rfold complete_chan [0..<m] h = Inr l" "completed_below m h l" by auto
    with complete_step [OF assms l(2)] Suc.prems show ?case by (auto simp: rfold_append)
  qed
  from this [of "length h"] obtain l where l: "rfold complete_chan [0..<length h] h = Inr l" "completed_below (length h) h l" by auto
  have U: "set (upstream (h ! q)) \<subseteq> set (upstream (l ! q))" "\<And>p. p \<in> set (upstream (l ! q)) \<Longrightarrow> edge h p q" if "q < length h" for q
    using l(2) that by (auto simp: completed_below_def)
  have D: "set (downstream (h ! p)) \<subseteq> set (downstream (l ! p))" "\<And>q. q \<in> set (downstream (l ! p)) \<Longrightarrow> edge h p q" if "p < length h" for p
    using l(2) that by (auto simp: completed_below_def)
  have C: "q \<in> set (downstream (h ! p)) \<Longrightarrow> p \<in> set (upstream (l ! q))" "q \<in> set (upstream (h ! p)) \<Longrightarrow> p \<in> set (downstream (l ! q))"
    if "p < length h" for p q
    using l(2) that by (simp_all add: completed_below_def)
  have "set (upstream (l ! q)) = {p. edge h p q}" if q: "q < length h" for q
    using U [OF q] C(1) by (auto simp: edge_def)
  moreover have "set (downstream (l ! p)) = {q. edge h p q}" if p: "p < length h" for p
    using D [OF p] C(2) by (auto simp: edge_def)
  ultimately show ?thesis using l by (auto simp: completed_below_def)
qed

text \<open>A channel as its constructor leaves it, in no special mode.\<close>

definition raw :: "chan \<Rightarrow> bool" where
  "raw c \<longleftrightarrow> sub c = ChanBase \<and> \<not> keepMode c \<and> \<not> drainMode c \<and> \<not> branchMode c \<and> 0 < ch_size c
     \<and> \<not> noUpstream c \<and> \<not> noDownstream c \<and> chanBuffer c = [] \<and> chanBufferDataCnt c = [] \<and> bp c = []
     \<and> channel c = [] \<and> \<not> ch_valid c \<and> chanDataCnt c = 0"

lemma same_node_fields:
  assumes "same_node c d"
  shows "raw d = raw c" "moduleName d = moduleName c" "masterName d = masterName c" "moduleId d = moduleId c"
proof -
  have e: "d\<lparr>upstream := [], downstream := []\<rparr> = c\<lparr>upstream := [], downstream := []\<rparr>" using assms by (simp add: same_node_def)
  have f: "f d = f c" if "\<And>c u v. f (c\<lparr>upstream := u, downstream := v\<rparr>) = f c" for f :: "chan \<Rightarrow> 'a"
    using arg_cong [OF e, of f] that by simp
  show "raw d = raw c"
    by (rule arg_cong2 [OF refl, where f = "\<lambda>_ x. x"]) (rule f, simp add: raw_def)
qed (use assms in \<open>auto simp: same_node_def dest: arg_cong [where f = moduleName] arg_cong [where f = masterName] arg_cong [where f = moduleId]\<close>)

definition finished :: "chan \<Rightarrow> chan" where
  "finished c = initLse (initLastPopVal (initBp (initChanBuffer (dedup_links (set_ends c)))))"

lemma set_ends_eq: "set_ends c = c\<lparr>noUpstream := noUpstream c \<or> upstream c = [], noDownstream := noDownstream c \<or> downstream c = []\<rparr>"
  by (auto simp: set_ends_def Let_def)

lemma init_plain:
  "sub c = ChanBase \<Longrightarrow> initChanBuffer c = c\<lparr>chanBuffer := resize (in_slots c) [] (chanBuffer c),
     chanBufferDataCnt := resize (in_slots c) 0 (chanBufferDataCnt c), getTheLastData := resize (in_slots c) False (getTheLastData c)\<rparr>"
  "sub c = ChanBase \<Longrightarrow> initLse c = c"
  by (simp_all add: initChanBuffer_def initLse_def Let_def)

lemma dedup_empty: "removeDuplicatesKeepSequence xs = [] \<longleftrightarrow> xs = []"
  using dedup_set [of xs] by (metis set_empty2)

lemma finished_fields:
  assumes "raw c"
  shows "upstream (finished c) = removeDuplicatesKeepSequence (upstream c)"
    "downstream (finished c) = removeDuplicatesKeepSequence (downstream c)"
    "noUpstream (finished c) \<longleftrightarrow> upstream c = []" "noDownstream (finished c) \<longleftrightarrow> downstream c = []"
    "plain (finished c)" "fresh (finished c)" "moduleName (finished c) = moduleName c"
proof -
  have r: "sub c = ChanBase" "\<not> keepMode c" "\<not> drainMode c" "\<not> branchMode c" "0 < ch_size c" "\<not> noUpstream c" "\<not> noDownstream c"
    "chanBuffer c = []" "chanBufferDataCnt c = []" "bp c = []" "channel c = []" "\<not> ch_valid c" "chanDataCnt c = 0"
    using assms by (simp_all add: raw_def)
  let ?d = "dedup_links (set_ends c)"
  let ?n = "in_slots ?d"
  have d: "sub ?d = ChanBase" "noUpstream ?d \<longleftrightarrow> upstream c = []" "noDownstream ?d \<longleftrightarrow> downstream c = []"
    "upstream ?d = removeDuplicatesKeepSequence (upstream c)" "downstream ?d = removeDuplicatesKeepSequence (downstream c)"
    "keepMode ?d = keepMode c" "drainMode ?d = drainMode c" "branchMode ?d = branchMode c" "ch_size ?d = ch_size c"
    "channel ?d = channel c" "ch_valid ?d = ch_valid c" "chanDataCnt ?d = chanDataCnt c" "moduleName ?d = moduleName c"
    "chanBuffer ?d = []" "chanBufferDataCnt ?d = []" "bp ?d = []"
    using r by (simp_all add: dedup_links_def set_ends_eq)
  have n: "in_slots (x\<lparr>chanBuffer := u, chanBufferDataCnt := v, getTheLastData := w\<rparr>) = in_slots x"
    "in_slots (x\<lparr>bp := y\<rparr>) = in_slots x" for x u v w y
    by (simp_all add: in_slots_def)
  have f: "finished c = ?d\<lparr>chanBuffer := replicate ?n [], chanBufferDataCnt := replicate ?n 0,
      getTheLastData := resize ?n False (getTheLastData ?d), bp := replicate ?n False,
      ch_lastPopVal := resize ?n 0 (ch_lastPopVal ?d)\<rparr>"
    unfolding finished_def init_plain(1) [OF d(1)] initBp_def initLastPopVal_def n
    by (simp add: init_plain(2) d resize_def)
  have slots: "?n = (if upstream c = [] then 1 else length (removeDuplicatesKeepSequence (upstream c)))"
    by (simp add: in_slots_def d)
  show "upstream (finished c) = removeDuplicatesKeepSequence (upstream c)"
    "downstream (finished c) = removeDuplicatesKeepSequence (downstream c)"
    "noUpstream (finished c) \<longleftrightarrow> upstream c = []" "noDownstream (finished c) \<longleftrightarrow> downstream c = []"
    "moduleName (finished c) = moduleName c"
    unfolding f by (simp_all add: d)
  show "plain (finished c)" unfolding f plain_def
    using r by (simp add: d slots dedup_empty)
  show "fresh (finished c)" unfolding f fresh_def using r by (simp add: d list_all_iff)
qed

text \<open>Completing and initialising a heap of such channels gives a network for the hand-shake.\<close>

lemma network_of_links:
  assumes "list_all raw h" "links_ok h" "\<forall>p<length h. \<not> edge h p p"
  shows "\<exists>l. rbind (complete_links [0..<length h] h) (initChannel [0..<length h]) = Inr l
    \<and> (\<exists>h1. complete_links [0..<length h] h = Inr h1 \<and> length h1 = length h \<and> checkConnectRule [0..<length h] h1 = Inr ())
    \<and> length l = length h \<and> wired l \<and> list_all fresh l
    \<and> (\<forall>p<length h. moduleName (l ! p) = moduleName (h ! p) \<and> sub (l ! p) = ChanBase
        \<and> set (upstream (l ! p)) = {q. edge h q p} \<and> set (downstream (l ! p)) = {q. edge h p q})"
proof -
  obtain h1 where h1: "rfold complete_chan [0..<length h] h = Inr h1" "relinked h h1"
    "\<And>q. q < length h \<Longrightarrow> set (upstream (h1 ! q)) = {p. edge h p q}" "\<And>p. p < length h \<Longrightarrow> set (downstream (h1 ! p)) = {q. edge h p q}"
    using complete_all [OF assms(2)] by blast
  have len: "length h1 = length h" using h1(2) by (simp add: relinked_def)
  have node: "same_node (h ! p) (h1 ! p)" if "p < length h" for p using h1(2) that by (simp add: relinked_def)
  have raw: "raw (h1 ! p)" if "p < length h" for p
    using same_node_fields(1) [OF node [OF that]] assms(1) that by (simp add: list_all_length)
  let ?f = "\<lambda>c. dedup_links (set_ends c)"
  let ?h2 = "map ?f h1"
  have links: "complete_links [0..<length h] h = Inr ?h2"
    using each_chan_all [of set_ends h1] each_chan_all [of dedup_links "map set_ends h1"]
    by (simp add: complete_links_def h1(1) len comp_def)
  have field: "keepMode (?f c) = keepMode c" "drainMode (?f c) = drainMode c" "sub (?f c) = sub c" for c
    by (simp_all add: dedup_links_def set_ends_def Let_def)
  have ends: "noUpstream (?f c) \<or> upstream (?f c) \<noteq> []" "noDownstream (?f c) \<or> downstream (?f c) \<noteq> []" for c
    by (auto simp: dedup_links_def set_ends_eq dedup_empty)
  have ok: "rbind (deref ?h2 p) (\<lambda>c. rbind (checkChanConnect c) (\<lambda>_. rbind (checkChanMode c) (\<lambda>_.
     rbind (checkChanPartialMux ?h2 c) (\<lambda>_. checkChanDGSF c)))) = Inr ()" if "p < length h" for p
    using that len raw [OF that] ends [of "h1 ! p"]
    by (simp add: checkChanConnect_def checkChanMode_def checkChanPartialMux_def checkChanDGSF_def field raw_def)
  have "rfold (\<lambda>p _. rbind (deref ?h2 p) (\<lambda>c. rbind (checkChanConnect c) (\<lambda>_. rbind (checkChanMode c) (\<lambda>_.
     rbind (checkChanPartialMux ?h2 c) (\<lambda>_. checkChanDGSF c))))) ps () = Inr ()" if "set ps \<subseteq> {..<length h}" for ps
    using that by (induction ps) (simp_all add: ok)
  then have rule: "checkConnectRule [0..<length h] ?h2 = Inr ()" by (simp add: checkConnectRule_def atLeast0LessThan)
  have init: "initChannel [0..<length ?h2] ?h2 = Inr (map (\<lambda>p. finished (h1 ! p)) [0..<length ?h2])"
  proof -
    have "initChannel [0..<length ?h2] ?h2 = Inr (map (\<lambda>p. initLse (initLastPopVal (initBp (initChanBuffer (?h2 ! p))))) [0..<length ?h2])"
      unfolding initChannel_def
    proof (rule rfold_each)
      fix p l assume p: "p < length ?h2" "length l = length ?h2" "l ! p = ?h2 ! p"
      have "\<not> keepMode (initChanBuffer (?h2 ! p))"
        using raw [of p] p(1) len by (simp add: raw_def initChanBuffer_def Let_def field split: subobject.splits)
      then show "modify p (\<lambda>c. rbind (initLastTagQueue l (initChanBuffer c)) (\<lambda>c. Inr (initLse (initLastPopVal (initBp c))))) l
          = Inr (l[p := initLse (initLastPopVal (initBp (initChanBuffer (?h2 ! p))))])"
        using p by (simp add: modify_def initLastTagQueue_def)
    qed
    then show ?thesis by (simp add: finished_def)
  qed
  let ?l = "map (\<lambda>p. finished (h1 ! p)) [0..<length h]"
  have nth: "?l ! p = finished (h1 ! p)" if "p < length h" for p using that by simp
  have up: "set (upstream (?l ! p)) = {q. edge h q p}" and down: "set (downstream (?l ! p)) = {q. edge h p q}" if "p < length h" for p
    using that finished_fields(1,2) [OF raw [OF that]] h1(3,4) [OF that] by (simp_all add: dedup_set)
  have "wired ?l" unfolding wired_def
  proof (intro allI impI conjI ballI)
    fix p assume "p < length ?l" then have p: "p < length h" by simp
    show "plain (?l ! p)" using finished_fields(5) [OF raw [OF p]] p by simp
    show "distinct (upstream (?l ! p))" using finished_fields(1) [OF raw [OF p]] p by (simp add: dedup_distinct)
    fix u assume "u \<in> set (upstream (?l ! p))"
    then have u: "edge h u p" using up [OF p] by simp
    then have ul: "u < length h" by (simp add: edge_def)
    then show "u < length ?l" by simp
    show "u \<noteq> p" using u assms(3) p by auto
    have d: "p \<in> set (downstream (?l ! u))" using down [OF ul] u by simp
    then show "p \<in> set (downstream (?l ! u))" .
    show "\<not> noDownstream (?l ! u)"
      using d finished_fields(2,4) [OF raw [OF ul]] ul by (auto simp: removeDuplicatesKeepSequence_def)
  next
    fix p q assume "p < length ?l" "q \<in> set (downstream (?l ! p))"
    then have p: "p < length h" and e: "edge h p q" using down [of p] by auto
    then have q: "q < length h" by (simp add: edge_def)
    then show "q < length ?l" by simp
    show "p \<in> set (upstream (?l ! q))" using up [OF q] e by simp
  qed
  moreover have "list_all fresh ?l" using finished_fields(6) raw by (auto simp: list_all_iff)
  moreover have "moduleName (?l ! p) = moduleName (h ! p) \<and> sub (?l ! p) = ChanBase" if "p < length h" for p
    using that finished_fields(5,7) [OF raw [OF that]] same_node_fields(2) [OF node [OF that]] by (simp add: plain_def)
  ultimately show ?thesis using links rule init len up down by (intro exI [of _ ?l]) auto
qed

section \<open>The modules of a plain graph\<close>

text \<open>Nodes that become plain channels, and graphs whose connections both ends declare.\<close>

definition special :: "string \<Rightarrow> bool" where
  "special n \<longleftrightarrow> n = ''Chan_begin'' \<or> n = ''Chan_end''"

definition conn :: "chan_node graph \<Rightarrow> string \<Rightarrow> string \<Rightarrow> bool" where
  "conn g n m \<longleftrightarrow> m \<in> set (next_nodes_data (the_node g n) @ next_nodes_active (the_node g n))"

definition plain_node :: "chan_node graph \<Rightarrow> chan_node \<Rightarrow> bool" where
  "plain_node g x \<longleftrightarrow> cn_type x = ''ChanBase'' \<and> chan_mode x \<noteq> ''Keep_mode'' \<and> chan_mode x \<noteq> ''Drain_mode'' \<and> 0 < cn_size x
     \<and> (case getCtrlRegion (ctrl_tree g) (node_region x) of Inr reg \<Rightarrow> controlType reg \<noteq> ''Branch'' | Inl _ \<Rightarrow> False)
     \<and> set (pre_nodes_data x @ pre_nodes_active x @ next_nodes_data x @ next_nodes_active x) \<subseteq> node_names g"

definition two_way :: "chan_node graph \<Rightarrow> bool" where
  "two_way g \<longleftrightarrow> (\<forall>n\<in>node_names g. \<forall>m\<in>node_names g.
     conn g n m \<longleftrightarrow> n \<in> set (pre_nodes_data (the_node g m) @ pre_nodes_active (the_node g m)))"

definition plain_graph :: "chan_node graph \<Rightarrow> bool" where
  "plain_graph g \<longleftrightarrow> graph_ok g \<and> list_all (plain_node g) (nodes g) \<and> two_way g
     \<and> (\<forall>n\<in>node_names g. \<forall>m\<in>node_names g. conn g n m \<longrightarrow> n \<noteq> m \<and> \<not> (special n \<and> special m))"

definition made :: "chan_node \<Rightarrow> nat \<Rightarrow> chan" where
  "made x k = (if special (node_name x) then chan_new k 1 0 1 ChanBase
     else chan_new k (cn_size x) (of_nat (cn_cycle x)) (cn_speedup x) ChanBase)
     \<lparr>moduleName := node_name x, ch_isPhysicalChan := isPhysicalChan x, subgraphId := node_subgraphId x, isCond := (cn_op x = ''Cmp'')\<rparr>"

definition built :: "chan_node graph \<Rightarrow> memSystem \<Rightarrow> string list \<Rightarrow> registry" where
  "built g ms ns = (registry_new ms)\<lparr>moduleCnt := length ns,
     registryTable := map (\<lambda>(k, n). (chan_entry k)\<lparr>e_moduleName := n, e_moduleId := k\<rparr>) (zip [0..<length ns] ns),
     registryDict := zip ns [0..<length ns], r_chans := map (\<lambda>(k, n). made (the_node g n) k) (zip [0..<length ns] ns)\<rparr>"

lemma plain_graphD:
  assumes "plain_graph g" "n \<in> node_names g"
  shows "node_name (the_node g n) = n" "getNode g n = Inr (the_node g n)"
    "map_of (map (\<lambda>x. (node_name x, x)) (nodes g)) n = Some (the_node g n)" "plain_node g (the_node g n)"
proof -
  have ok: "graph_ok g" using assms(1) by (simp add: plain_graph_def)
  from graph_ok_name [OF ok assms(2)] obtain i where i: "i < length (nodes g)" "node_name (nodes g ! i) = n" by blast
  show "node_name (the_node g n) = n" "getNode g n = Inr (the_node g n)" using getNode_known [OF ok assms(2)] by blast+
  have x: "the_node g n = nodes g ! i" using the_node_nth [OF ok i(1)] i(2) by simp
  show "map_of (map (\<lambda>x. (node_name x, x)) (nodes g)) n = Some (the_node g n)"
    unfolding x using ok i by (intro map_of_is_SomeI) (auto simp: graph_ok_def comp_def)
  show "plain_node g (the_node g n)" unfolding x using assms(1) i(1) by (simp add: plain_graph_def list_all_length)
qed

lemma new_chan_built:
  assumes "n \<notin> set ns"
  shows "new_chan n sz cyc spd ChanBase (built g ms ns) = Inr (length ns, (built g ms ns)\<lparr>moduleCnt := Suc (length ns),
    registryTable := registryTable (built g ms ns) @ [(chan_entry (length ns))\<lparr>e_moduleName := n, e_moduleId := length ns\<rparr>],
    registryDict := registryDict (built g ms ns) @ [(n, length ns)],
    r_chans := r_chans (built g ms ns) @ [(chan_new (length ns) sz cyc spd ChanBase)\<lparr>moduleName := n\<rparr>]\<rparr>)"
proof -
  have "map_of (registryDict (built g ms ns)) n = None" using assms by (simp add: built_def map_of_eq_None_iff flip: set_map)
  moreover have "length (registryTable (built g ms ns)) = length ns" "moduleCnt (built g ms ns) = length ns"
    "length (r_chans (built g ms ns)) = length ns" by (simp_all add: built_def)
  ultimately show ?thesis by (simp add: new_chan_def registerChan_def register_named_def enter_def chan_entry_def Let_def)
qed

lemma on_chan_last: "r_chans r = cs @ [c] \<Longrightarrow> on_chan (length cs) f r = Inr (r\<lparr>r_chans := cs @ [f c]\<rparr>)"
  by (simp add: on_chan_def modify_ok)

lemma set_branch_other: "controlType reg \<noteq> ''Branch'' \<Longrightarrow> set_branch reg c = c"
  by (simp add: set_branch_def)

lemma gen_module_step:
  assumes "plain_graph g" "n \<in> node_names g" "n \<notin> set ns"
  shows "genModule_node g n (built g ms ns) = Inr (built g ms (ns @ [n]))"
proof -
  let ?x = "the_node g n" and ?r = "built g ms ns"
  note x = plain_graphD [OF assms(1,2)]
  obtain reg where reg: "getCtrlRegion (ctrl_tree g) (node_region ?x) = Inr reg" "controlType reg \<noteq> ''Branch''"
    using x(4) by (auto simp: plain_node_def split: sum.splits)
  have p: "cn_type ?x = ''ChanBase''" "chan_mode ?x \<noteq> ''Keep_mode''" "chan_mode ?x \<noteq> ''Drain_mode''"
    using x(4) by (simp_all add: plain_node_def)
  have len: "length (r_chans ?r) = length ns" by (simp add: built_def)
  have rule: "checkNodeRule g n = Inr ()" using p by (simp add: checkNodeRule_def x(2))
  let ?c = "if special n then chan_new (length ns) 1 0 1 ChanBase else chan_new (length ns) (cn_size ?x) (of_nat (cn_cycle ?x)) (cn_speedup ?x) ChanBase"
  let ?r1 = "\<lambda>c. ?r\<lparr>moduleCnt := Suc (length ns),
    registryTable := registryTable ?r @ [(chan_entry (length ns))\<lparr>e_moduleName := n, e_moduleId := length ns\<rparr>],
    registryDict := registryDict ?r @ [(n, length ns)], r_chans := r_chans ?r @ [c]\<rparr>"
  have upd: "on_chan (length ns) f (?r1 c) = Inr (?r1 (f c))" for f c
    using on_chan_last [of "?r1 c" "r_chans ?r" c f] len by simp
  have gen: "genChan ?x ?r = Inr (Some (length ns), ?r1 (?c\<lparr>moduleName := n, ch_isPhysicalChan := isPhysicalChan ?x\<rparr>))"
    using p by (simp add: genChan_def x(1) special_def new_node_chan_def new_chan_built [OF assms(3)] set_mode_def upd)
  have "genModule_node g n ?r = Inr (?r1 (made ?x (length ns)))"
    unfolding genModule_node_def x(3) option.case x(1) rule
    using p reg by (simp add: gen_chan_module_def gen the_ptr_def upd set_branch_other Let_def)
      (auto simp: made_def x(1) chan_new_def)
  also have "?r1 (made ?x (length ns)) = built g ms (ns @ [n])" by (simp add: built_def)
  finally show ?thesis .
qed

lemma gen_modules_built:
  assumes "plain_graph g" "set ns \<subseteq> node_names g" "distinct ns"
  shows "genModules g ns (registry_new ms) = Inr (built g ms ns)"
  using assms(2,3)
proof (induction ns rule: rev_induct)
  case Nil
  show ?case by (simp add: genModules_def built_def registry_new_def)
next
  case (snoc n ns)
  then show ?case using gen_module_step [OF assms(1)] by (simp add: genModules_def rfold_append)
qed

section \<open>The links of a plain graph\<close>

definition pos :: "string list \<Rightarrow> string \<Rightarrow> nat" where
  "pos ns n = the (map_of (zip ns [0..<length ns]) n)"

lemma pos_nth:
  assumes "distinct ns" "k < length ns"
  shows "map_of (zip ns [0..<length ns]) (ns ! k) = Some k" "pos ns (ns ! k) = k"
proof -
  show "map_of (zip ns [0..<length ns]) (ns ! k) = Some k"
    using map_of_zip_nth [of ns "[0..<length ns]" k] assms by simp
  then show "pos ns (ns ! k) = k" by (simp add: pos_def)
qed

lemma pos_less:
  assumes "distinct ns" "n \<in> set ns"
  shows "pos ns n < length ns" "ns ! pos ns n = n"
proof -
  from assms(2) obtain k where "k < length ns" "ns ! k = n" by (auto simp: in_set_conv_nth)
  then show "pos ns n < length ns" "ns ! pos ns n = n" using pos_nth(2) [OF assms(1)] by auto
qed

definition on_built :: "chan_node graph \<Rightarrow> memSystem \<Rightarrow> string list \<Rightarrow> heap \<Rightarrow> registry" where
  "on_built g ms ns h = (built g ms ns)\<lparr>r_chans := h\<rparr>"

lemma built_entry:
  assumes "distinct ns" "k < length ns"
  shows "getRegistryTableEntry (ns ! k) (on_built g ms ns h) = Inr ((chan_entry k)\<lparr>e_moduleName := ns ! k, e_moduleId := k\<rparr>)"
proof -
  have "map_of (registryDict (on_built g ms ns h)) (ns ! k) = Some k" using pos_nth(1) [OF assms] by (simp add: on_built_def built_def)
  moreover have "rnth (registryTable (on_built g ms ns h)) k = Inr ((chan_entry k)\<lparr>e_moduleName := ns ! k, e_moduleId := k\<rparr>)"
    using assms(2) by (simp add: on_built_def built_def)
  ultimately show ?thesis by (simp add: getRegistryTableEntry_def findRegistryEntryIndex_def)
qed

lemma built_ptrs:
  assumes "distinct ns" "n \<in> set ns"
  shows "up_chan (on_built g ms ns h) n = Inr (Some (pos ns n))" "down_chan (on_built g ms ns h) n = Inr (Some (pos ns n))"
  using built_entry [OF assms(1) pos_less(1) [OF assms]]
  by (simp_all add: pos_less(2) [OF assms] up_chan_def down_chan_def chan_entry_def)

lemma add_link_built:
  assumes "p < length h"
  shows "on_heap (chan_addUpstream [Some q] p) (on_built g ms ns h) = Inr (on_built g ms ns (h[p := (h ! p)\<lparr>upstream := upstream (h ! p) @ [q]\<rparr>]))"
    "on_heap (chan_addDownstream [Some q] p) (on_built g ms ns h) = Inr (on_built g ms ns (h[p := (h ! p)\<lparr>downstream := downstream (h ! p) @ [q]\<rparr>]))"
  using assms by (simp_all add: on_heap_def on_built_def chan_addUpstream_def chan_addDownstream_def modify_ok
      addUpstream_def addDownstream_def map_filter_def)

lemma connect_ups_built:
  assumes "distinct ns" "set ms' \<subseteq> set ns" "p < length h"
  shows "connect_ups p ms' (on_built g ms ns h) = Inr (on_built g ms ns (h[p := (h ! p)\<lparr>upstream := upstream (h ! p) @ map (pos ns) ms'\<rparr>]))"
  using assms(2,3)
proof (induction ms' arbitrary: h)
  case Nil
  then show ?case by (simp add: connect_ups_def)
next
  case (Cons m ms')
  let ?h = "h[p := (h ! p)\<lparr>upstream := upstream (h ! p) @ [pos ns m]\<rparr>]"
  have "connect_ups p (m # ms') (on_built g ms ns h) = connect_ups p ms' (on_built g ms ns ?h)"
    using Cons.prems by (simp add: connect_ups_def built_ptrs(1) [OF assms(1)] add_link_built(1))
  then show ?case using Cons.IH [of ?h] Cons.prems by simp
qed

lemma connect_downs_built:
  assumes "distinct ns" "set ms' \<subseteq> set ns" "p < length h"
  shows "connect_downs p ms' (on_built g ms ns h) = Inr (on_built g ms ns (h[p := (h ! p)\<lparr>downstream := downstream (h ! p) @ map (pos ns) ms'\<rparr>]))"
  using assms(2,3)
proof (induction ms' arbitrary: h)
  case Nil
  then show ?case by (simp add: connect_downs_def)
next
  case (Cons m ms')
  let ?h = "h[p := (h ! p)\<lparr>downstream := downstream (h ! p) @ [pos ns m]\<rparr>]"
  have "connect_downs p (m # ms') (on_built g ms ns h) = connect_downs p ms' (on_built g ms ns ?h)"
    using Cons.prems by (simp add: connect_downs_def built_ptrs(2) [OF assms(1)] add_link_built(2))
  then show ?case using Cons.IH [of ?h] Cons.prems by simp
qed

text \<open>The channel of a node with the links that the node declares.\<close>

definition linked :: "chan_node graph \<Rightarrow> string list \<Rightarrow> nat \<Rightarrow> chan" where
  "linked g ns k = (let x = the_node g (ns ! k) in if special (ns ! k) then made x k
     else (made x k)\<lparr>upstream := map (pos ns) (pre_nodes_data x @ pre_nodes_active x),
       downstream := map (pos ns) (next_nodes_data x @ next_nodes_active x)\<rparr>)"

lemma made_fields:
  assumes "plain_graph g" "n \<in> node_names g"
  shows "moduleName (made (the_node g n) k) = n" "masterName (made (the_node g n) k) = ''None''"
    "upstream (made (the_node g n) k) = []" "downstream (made (the_node g n) k) = []" "raw (made (the_node g n) k)"
  using plain_graphD [OF assms] by (simp_all add: made_def chan_new_def raw_def plain_node_def)

lemma connect_built:
  assumes g: "plain_graph g" and ns: "distinct ns" "set ns = node_names g" and k: "k < length ns" "length l = length ns"
    and l: "l ! k = made (the_node g (ns ! k)) k"
  shows "connect_entry g ((chan_entry k)\<lparr>e_moduleName := ns ! k, e_moduleId := k\<rparr>) (on_built g ms ns l)
    = Inr (on_built g ms ns (l[k := linked g ns k]))"
proof -
  let ?x = "the_node g (ns ! k)"
  have n: "ns ! k \<in> node_names g" using k(1) ns(2) by force
  note x = plain_graphD [OF g n]
  note m = made_fields [OF g n]
  have sub: "set (pre_nodes_data ?x @ pre_nodes_active ?x) \<subseteq> set ns" "set (next_nodes_data ?x @ next_nodes_active ?x) \<subseteq> set ns"
    using x(4) ns(2) by (auto simp: plain_node_def)
  have kl: "k < length l" using k by simp
  have "connect_entry g ((chan_entry k)\<lparr>e_moduleName := ns ! k, e_moduleId := k\<rparr>) (on_built g ms ns l) = connect_chan g k (on_built g ms ns l)"
    by (simp add: connect_entry_def chan_entry_def)
  also have "\<dots> = Inr (on_built g ms ns (l[k := linked g ns k]))"
  proof (cases "special (ns ! k)")
    case True
    then have "connect_chan g k (on_built g ms ns l) = Inr (on_built g ms ns l)"
      using kl by (auto simp: connect_chan_def on_built_def l m special_def)
    then show ?thesis using True kl by (simp add: linked_def Let_def flip: l)
  next
    case False
    let ?h = "l[k := (made ?x k)\<lparr>upstream := map (pos ns) (pre_nodes_data ?x @ pre_nodes_active ?x)\<rparr>]"
    have "connect_chan g k (on_built g ms ns l) = rbind (connect_ups k (pre_nodes_data ?x @ pre_nodes_active ?x) (on_built g ms ns l))
        (connect_downs k (next_nodes_data ?x @ next_nodes_active ?x))"
      using kl False x(2) by (simp add: connect_chan_def on_built_def l m special_def)
    also have "connect_ups k (pre_nodes_data ?x @ pre_nodes_active ?x) (on_built g ms ns l) = Inr (on_built g ms ns ?h)"
      unfolding connect_ups_built [OF ns(1) sub(1) kl] by (simp add: l m)
    also have "rbind (Inr (on_built g ms ns ?h)) (connect_downs k (next_nodes_data ?x @ next_nodes_active ?x))
        = Inr (on_built g ms ns (?h[k := (?h ! k)\<lparr>downstream := downstream (?h ! k) @ map (pos ns) (next_nodes_data ?x @ next_nodes_active ?x)\<rparr>]))"
      unfolding rbind.simps by (rule connect_downs_built [OF ns(1) sub(2)]) (simp add: kl)
    also have "?h[k := (?h ! k)\<lparr>downstream := downstream (?h ! k) @ map (pos ns) (next_nodes_data ?x @ next_nodes_active ?x)\<rparr>] = l[k := linked g ns k]"
      using kl False m by (simp add: linked_def Let_def)
    finally show ?thesis .
  qed
  finally show ?thesis .
qed

lemma connect_all_built:
  assumes "plain_graph g" "distinct ns" "set ns = node_names g"
  shows "rfold (connect_entry g) (registryTable (built g ms ns)) (built g ms ns)
    = Inr (on_built g ms ns (map (linked g ns) [0..<length ns]))"
proof -
  let ?h = "map (\<lambda>k. made (the_node g (ns ! k)) k) [0..<length ns]"
  have h: "r_chans (built g ms ns) = ?h" unfolding built_def by (simp, intro nth_equalityI) simp_all
  then have start: "built g ms ns = on_built g ms ns ?h" unfolding on_built_def by (metis registry.surjective registry.update_convs(5))
  have tab: "registryTable (built g ms ns) = map (\<lambda>k. (chan_entry k)\<lparr>e_moduleName := ns ! k, e_moduleId := k\<rparr>) [0..<length ns]"
    unfolding built_def by (simp, intro nth_equalityI) simp_all
  have m: "rfold f (map e ks) s = rfold (\<lambda>k. f (e k)) ks s" for f :: "entry \<Rightarrow> registry \<Rightarrow> registry res" and e :: "nat \<Rightarrow> entry" and ks s
    by (induction ks arbitrary: s) (auto intro: rbind_cong)
  have len: "length ?h = length ns" by simp
  have "rfold (\<lambda>k. connect_entry g ((chan_entry k)\<lparr>e_moduleName := ns ! k, e_moduleId := k\<rparr>)) [0..<length ?h] (on_built g ms ns ?h)
      = Inr (on_built g ms ns (map (\<lambda>k. linked g ns k) [0..<length ?h]))"
    by (rule rfold_each_in) (use connect_built [OF assms] in simp)
  then show ?thesis unfolding tab m len start [symmetric] .
qed

lemma linked_fields:
  assumes "plain_graph g" "set ns = node_names g" "k < length ns"
  shows "raw (linked g ns k)" "moduleName (linked g ns k) = ns ! k"
    "set (upstream (linked g ns k)) = (if special (ns ! k) then {} else pos ns ` set (pre_nodes_data (the_node g (ns ! k)) @ pre_nodes_active (the_node g (ns ! k))))"
    "set (downstream (linked g ns k)) = (if special (ns ! k) then {} else pos ns ` {m. conn g (ns ! k) m})"
proof -
  have "ns ! k \<in> node_names g" using assms(2,3) by force
  note m = made_fields [OF assms(1) this]
  show "raw (linked g ns k)" using m(5) [of k] by (simp add: linked_def Let_def raw_def)
  show "moduleName (linked g ns k) = ns ! k" by (simp add: linked_def Let_def m)
  show "set (upstream (linked g ns k)) = (if special (ns ! k) then {} else pos ns ` set (pre_nodes_data (the_node g (ns ! k)) @ pre_nodes_active (the_node g (ns ! k))))"
    by (simp add: linked_def Let_def m image_Un)
  show "set (downstream (linked g ns k)) = (if special (ns ! k) then {} else pos ns ` {m. conn g (ns ! k) m})"
    by (auto simp: linked_def Let_def m conn_def)
qed

lemma linked_edges:
  assumes g: "plain_graph g" and ns: "distinct ns" "set ns = node_names g"
  shows "links_ok (map (linked g ns) [0..<length ns])"
    "\<And>p q. edge (map (linked g ns) [0..<length ns]) p q \<longleftrightarrow> p < length ns \<and> q < length ns \<and> conn g (ns ! p) (ns ! q)"
proof -
  let ?h = "map (linked g ns) [0..<length ns]"
  note f = linked_fields [OF g ns(2)]
  have name: "ns ! p \<in> node_names g" if "p < length ns" for p using that ns(2) by force
  have sub: "set (pre_nodes_data (the_node g (ns ! p)) @ pre_nodes_active (the_node g (ns ! p))) \<subseteq> set ns" "{m. conn g (ns ! p) m} \<subseteq> set ns"
    if "p < length ns" for p
    using plain_graphD(4) [OF g name [OF that]] ns(2) by (auto simp: plain_node_def conn_def)
  have two: "conn g (ns ! p) (ns ! q) \<longleftrightarrow> ns ! p \<in> set (pre_nodes_data (the_node g (ns ! q)) @ pre_nodes_active (the_node g (ns ! q)))"
    and apart: "conn g (ns ! p) (ns ! q) \<Longrightarrow> \<not> (special (ns ! p) \<and> special (ns ! q))"
    if "p < length ns" "q < length ns" for p q
    using g name [OF that(1)] name [OF that(2)] by (auto simp: plain_graph_def two_way_def)
  have img: "q \<in> pos ns ` A \<longleftrightarrow> q < length ns \<and> ns ! q \<in> A" if "A \<subseteq> set ns" for q A
  proof
    assume "q \<in> pos ns ` A"
    then obtain n where "n \<in> A" "q = pos ns n" by blast
    then show "q < length ns \<and> ns ! q \<in> A" using pos_less [OF ns(1), of n] that by auto
  next
    assume "q < length ns \<and> ns ! q \<in> A"
    then show "q \<in> pos ns ` A" using pos_nth(2) [OF ns(1), of q] by (metis image_eqI)
  qed
  have d: "q \<in> set (downstream (?h ! p)) \<longleftrightarrow> \<not> special (ns ! p) \<and> q < length ns \<and> conn g (ns ! p) (ns ! q)" if "p < length ns" for p q
    using that f(4) [OF that] img [OF sub(2) [OF that]] by auto
  have u: "p \<in> set (upstream (?h ! q)) \<longleftrightarrow> \<not> special (ns ! q) \<and> p < length ns \<and> conn g (ns ! p) (ns ! q)" if "q < length ns" for p q
    using that f(3) [OF that] img [OF sub(1) [OF that]] two [OF _ that] by auto
  show "links_ok ?h" unfolding links_ok_def using d u by auto
  show "edge ?h p q \<longleftrightarrow> p < length ns \<and> q < length ns \<and> conn g (ns ! p) (ns ! q)" for p q
    unfolding edge_def using d u apart [of p q] by auto
qed

text \<open>The registry on a plain graph.\<close>

definition build_network :: "chan_node graph \<Rightarrow> string list \<Rightarrow> memSystem \<Rightarrow> registry res" where
  "build_network g ns ms = rbind (genModules g ns (registry_new ms)) (\<lambda>r. rbind (genConnect g r) registry_init)"

lemma built_ptrs_list: "chan_ptrs (on_built g ms ns h) = [0..<length ns]" "List.map_filter lcPtr (registryTable (on_built g ms ns h)) = []"
proof -
  have "List.map_filter chanPtr (map (\<lambda>(k, n). (chan_entry k)\<lparr>e_moduleName := n, e_moduleId := k\<rparr>) (zip ks ns)) = ks"
    "List.map_filter lcPtr (map (\<lambda>(k, n). (chan_entry k)\<lparr>e_moduleName := n, e_moduleId := k\<rparr>) (zip ks ns)) = []"
    if "length ks = length ns" for ks
    using that by (induction ks ns rule: list_induct2) (simp_all add: chan_entry_def map_filter_def)
  then show "chan_ptrs (on_built g ms ns h) = [0..<length ns]" "List.map_filter lcPtr (registryTable (on_built g ms ns h)) = []"
    by (simp_all add: chan_ptrs_def on_built_def built_def)
qed

lemma network_built:
  assumes g: "plain_graph g" and ns: "distinct ns" "set ns = node_names g"
  shows "\<exists>h. build_network g ns ms = Inr (on_built g ms ns h) \<and> length h = length ns \<and> wired h \<and> list_all fresh h
    \<and> (\<forall>p<length ns. moduleName (h ! p) = ns ! p \<and> set (upstream (h ! p)) = {q. q < length ns \<and> conn g (ns ! q) (ns ! p)}
        \<and> set (downstream (h ! p)) = {q. q < length ns \<and> conn g (ns ! p) (ns ! q)})"
proof -
  let ?h = "map (linked g ns) [0..<length ns]"
  have raw: "list_all raw ?h" using linked_fields(1) [OF g ns(2)] by (auto simp: list_all_iff)
  note e = linked_edges [OF g ns]
  have name: "ns ! p \<in> node_names g" if "p < length ns" for p using that ns(2) by force
  have "\<forall>p<length ?h. \<not> edge ?h p p" using e(2) name g unfolding plain_graph_def by blast
  from network_of_links [OF raw e(1) this] obtain l h1
    where run: "rbind (complete_links [0..<length ns] ?h) (initChannel [0..<length ns]) = Inr l"
      "complete_links [0..<length ns] ?h = Inr h1" "checkConnectRule [0..<length ns] h1 = Inr ()"
      and l: "length l = length ns" "wired l" "list_all fresh l"
        "\<And>p. p < length ns \<Longrightarrow> moduleName (l ! p) = moduleName (?h ! p) \<and> sub (l ! p) = ChanBase
          \<and> set (upstream (l ! p)) = {q. edge ?h q p} \<and> set (downstream (l ! p)) = {q. edge ?h p q}"
    by auto
  have init: "initChannel [0..<length ns] h1 = Inr l" using run(1,2) by simp
  have chans: "r_chans (on_built g ms ns h) = h" "(on_built g ms ns h)\<lparr>r_chans := h'\<rparr> = on_built g ms ns h'" for h h'
    by (simp_all add: on_built_def)
  have connect: "genConnect g (built g ms ns) = Inr (on_built g ms ns h1)"
    unfolding genConnect_def connect_all_built [OF g ns] by (simp add: on_heap_def built_ptrs_list chans run(2))
  have dgsf: "rfold (\<lambda>p r. rbind (deref (r_chans r) p) (\<lambda>c. Inr (if is_DGSF c then r\<lparr>vecChanDGSF := vecChanDGSF r @ [p]\<rparr> else r))) ps (on_built g ms ns l)
      = Inr (on_built g ms ns l)" if "set ps \<subseteq> {..<length ns}" for ps
    using that by (induction ps) (simp_all add: chans l(1,4) is_DGSF_def)
  have "registry_init (on_built g ms ns h1) = Inr (on_built g ms ns l)"
    using dgsf [of "[0..<length ns]"]
    by (simp add: registry_init_def built_ptrs_list chans run(3) checkLc_def on_heap_def init initChanDGSFVec_def atLeast0LessThan)
  then have "build_network g ns ms = Inr (on_built g ms ns l)"
    using gen_modules_built [OF g _ ns(1)] ns(2) connect by (simp add: build_network_def)
  moreover have "moduleName (l ! p) = ns ! p \<and> set (upstream (l ! p)) = {q. q < length ns \<and> conn g (ns ! q) (ns ! p)}
      \<and> set (downstream (l ! p)) = {q. q < length ns \<and> conn g (ns ! p) (ns ! q)}" if "p < length ns" for p
    using l(4) [OF that] linked_fields(2) [OF g ns(2) that] that unfolding e(2) by auto
  ultimately show ?thesis using l(1-3) by blast
qed

section \<open>What the registry builds\<close>

text \<open>C32: from a graph of plain nodes the registry builds, without an error and for any order in which all
  nodes are visited, a network whose channels have the names of the nodes and are linked exactly as the
  graph says, in both directions and without repetition; it meets the conditions under which no
  iteration of the simulation loop fails, whatever the program computes.\<close>

theorem registry_builds_network:
  assumes "plain_graph g" "distinct ns" "set ns = node_names g"
  shows "\<exists>r. build_network g ns ms = Inr r \<and> length (r_chans r) = length ns \<and> wired (r_chans r) \<and> list_all fresh (r_chans r)
    \<and> (\<forall>p<length ns. moduleName (r_chans r ! p) = ns ! p
        \<and> set (upstream (r_chans r ! p)) = {q. q < length ns \<and> conn g (ns ! q) (ns ! p)}
        \<and> set (downstream (r_chans r ! p)) = {q. q < length ns \<and> conn g (ns ! p) (ns ! q)})
    \<and> (\<forall>n cfg prog k. \<exists>k' h'. sim_rounds n cfg prog (k, r_chans r) = Inr (k', h') \<and> net_ok 0 h')"
proof -
  obtain h where h: "build_network g ns ms = Inr (on_built g ms ns h)" "length h = length ns" "wired h" "list_all fresh h"
    "\<forall>p<length ns. moduleName (h ! p) = ns ! p \<and> set (upstream (h ! p)) = {q. q < length ns \<and> conn g (ns ! q) (ns ! p)}
        \<and> set (downstream (h ! p)) = {q. q < length ns \<and> conn g (ns ! p) (ns ! q)}"
    using network_built [OF assms] by blast
  have "\<exists>k' h'. sim_rounds n cfg prog (k, h) = Inr (k', h') \<and> net_ok 0 h'" for n cfg prog k
    using net_ok_rounds [OF net_ok_fresh [OF h(3,4)]] by blast
  with h show ?thesis by (intro exI [of _ "on_built g ms ns h"]) (simp add: on_built_def)
qed

text \<open>A node between the two ends of the graph.\<close>

definition demo_plain :: "chan_node graph" where
  "demo_plain = graph_empty\<lparr>
     nodes := [(chan_node_new ''Chan_begin'')\<lparr>node_region := ''r'', next_nodes_active := [''a'']\<rparr>,
       (chan_node_new ''a'')\<lparr>node_region := ''r'', pre_nodes_active := [''Chan_begin''], next_nodes_data := [''Chan_end'']\<rparr>,
       (chan_node_new ''Chan_end'')\<lparr>node_region := ''r'', pre_nodes_data := [''a'']\<rparr>],
     nodeIndexDict := [(''Chan_begin'', 0), (''a'', 1), (''Chan_end'', 2)],
     ctrl_tree := \<lparr>controlRegionTable = [region_new ''r'' ''Loop'' True], controlRegionIndexDict = [''r'' \<mapsto> 0]\<rparr>\<rparr>"

lemma demo_plain_graph: "plain_graph demo_plain" "node_names demo_plain = {''Chan_begin'', ''a'', ''Chan_end''}"
  by code_simp+

lemma registry_builds_network_witness:
  "\<forall>ms. \<exists>r. build_network demo_plain [''Chan_end'', ''a'', ''Chan_begin''] ms = Inr r
     \<and> set (upstream (r_chans r ! 1)) = {2} \<and> set (downstream (r_chans r ! 1)) = {0}"
proof
  fix ms
  let ?ns = "[''Chan_end'', ''a'', ''Chan_begin'']"
  have "distinct ?ns" "set ?ns = node_names demo_plain" by (auto simp: demo_plain_graph(2))
  from registry_builds_network [OF demo_plain_graph(1) this, of ms] obtain r
    where r: "build_network demo_plain ?ns ms = Inr r"
      "\<forall>p<length ?ns. moduleName (r_chans r ! p) = ?ns ! p
        \<and> set (upstream (r_chans r ! p)) = {q. q < length ?ns \<and> conn demo_plain (?ns ! q) (?ns ! p)}
        \<and> set (downstream (r_chans r ! p)) = {q. q < length ?ns \<and> conn demo_plain (?ns ! p) (?ns ! q)}" by blast
  have f: "filter (\<lambda>q. conn demo_plain (?ns ! q) (?ns ! 1)) [0..<3] = [2]" "filter (\<lambda>q. conn demo_plain (?ns ! 1) (?ns ! q)) [0..<3] = [0]"
    by code_simp+
  have len: "length ?ns = 3" by simp
  have "{q. q < length ?ns \<and> conn demo_plain (?ns ! q) (?ns ! 1)} = set (filter (\<lambda>q. conn demo_plain (?ns ! q) (?ns ! 1)) [0..<3])"
    "{q. q < length ?ns \<and> conn demo_plain (?ns ! 1) (?ns ! q)} = set (filter (\<lambda>q. conn demo_plain (?ns ! 1) (?ns ! q)) [0..<3])"
    unfolding len set_filter by (simp_all only: set_upt atLeast0LessThan lessThan_iff)
  then have sets: "{q. q < length ?ns \<and> conn demo_plain (?ns ! q) (?ns ! 1)} = {2}" "{q. q < length ?ns \<and> conn demo_plain (?ns ! 1) (?ns ! q)} = {0}"
    unfolding f by simp_all
  have one: "1 < length ?ns" by simp
  have "set (upstream (r_chans r ! 1)) = {2} \<and> set (downstream (r_chans r ! 1)) = {0}"
    using mp [OF spec [OF r(2), of 1] one] unfolding sets by blast
  with r(1) show "\<exists>r. build_network demo_plain ?ns ms = Inr r \<and> set (upstream (r_chans r ! 1)) = {2} \<and> set (downstream (r_chans r ! 1)) = {0}"
    by blast
qed

text \<open>C36: the look-up of a channel by a name that no module has does not fail: it returns the channel of
  the first module, and from then on the name belongs to that module, also for the look-ups that
  report unknown names.\<close>

theorem unknown_name_becomes_first:
  assumes "map_of (registryDict r) n = None" "registryTable r = e # es"
  shows "getRegistryTableEntry n r = Inl (Throw ''Not find this module!'')
    \<and> (\<exists>r'. getChan n r = Inr (chanPtr e, r') \<and> getRegistryTableEntry n r' = Inr e \<and> (\<forall>m. m \<noteq> n \<longrightarrow> getRegistryTableEntry m r' = getRegistryTableEntry m r))"
  using assms by (auto simp: getRegistryTableEntry_def findRegistryEntryIndex_def getChan_def get_ptr_def dict_index_def Let_def
      rnth_def map_add_def split: option.splits)

lemma unknown_name_becomes_first_witness:
  "\<forall>ms. \<exists>r'. getChan ''b'' (built demo_plain ms [''a'']) = Inr (Some 0, r')
     \<and> getRegistryTableEntry ''b'' r' = Inr ((chan_entry 0)\<lparr>e_moduleName := ''a'', e_moduleId := 0\<rparr>)"
proof
  fix ms
  have "map_of (registryDict (built demo_plain ms [''a''])) ''b'' = None"
    "registryTable (built demo_plain ms [''a'']) = [(chan_entry 0)\<lparr>e_moduleName := ''a'', e_moduleId := 0\<rparr>]"
    by (simp_all add: built_def)
  from unknown_name_becomes_first [OF this]
  show "\<exists>r'. getChan ''b'' (built demo_plain ms [''a'']) = Inr (Some 0, r')
     \<and> getRegistryTableEntry ''b'' r' = Inr ((chan_entry 0)\<lparr>e_moduleName := ''a'', e_moduleId := 0\<rparr>)"
    by (auto simp: chan_entry_def)
qed

end
