(* ===== verification/RegistryTable.thy ===== *)
theory RegistryTable
  imports RegistryConnect SchedulerRule
begin

text \<open>
  The table of subgraphs that the registry gives to the scheduler (\<open>Registry::configGraphScheduler\<close>).
\<close>

lemma map_of_entries: "map_of (map (\<lambda>(k :: nat, p :: nat list, c :: nat list). (k, f k p c, g k p c)) t) i = (case map_of t i of None \<Rightarrow> None | Some (p, c) \<Rightarrow> Some (f i p c, g i p c))"
  by (induction t) auto

lemma set_add_new: "set (add_new ps q) = set q \<union> set ps"
proof -
  have "set (fold (\<lambda>p q. if p \<in> set q then q else q @ [p]) ps q) = set q \<union> set ps" for q :: "nat list"
    by (induction ps arbitrary: q) auto
  then show ?thesis by (simp add: add_new_def)
qed

lemma addSubgraph_sets:
  "set (producers (addSubgraph i ps cs s) j) = set (producers s j) \<union> (if j = i then set ps else {})"
  "set (consumers (addSubgraph i ps cs s) j) = set (consumers s j) \<union> (if j = i then set cs else {})"
proof -
  have "set (producers (addSubgraph i ps cs s) j) = set (producers s j) \<union> (if j = i then set ps else {})
      \<and> set (consumers (addSubgraph i ps cs s) j) = set (consumers s j) \<union> (if j = i then set cs else {})"
  proof (cases "map_of (subgraphTable s) i")
    case None
    then show ?thesis by (auto simp: addSubgraph_def producers_def consumers_def map_add_def split: option.splits)
  next
    case (Some e)
    have eq: "map (\<lambda>(k, p, c). if k = i then (k, add_new ps p, add_new cs c) else (k, p, c)) (subgraphTable s)
      = map (\<lambda>(k, p, c). (k, if k = i then add_new ps p else p, if k = i then add_new cs c else c)) (subgraphTable s)" by auto
    show ?thesis using Some unfolding addSubgraph_def producers_def consumers_def
      by (auto simp: eq map_of_entries set_add_new split: option.splits)
  qed
  then show "set (producers (addSubgraph i ps cs s) j) = set (producers s j) \<union> (if j = i then set ps else {})"
    "set (consumers (addSubgraph i ps cs s) j) = set (consumers s j) \<union> (if j = i then set cs else {})" by blast+
qed

lemma addDivergence_table [simp]: "subgraphTable (addDivergenceSubgraph i as ts fs s) = subgraphTable s"
  by (simp add: addDivergenceSubgraph_def split: option.splits)

lemma producers_cong: "subgraphTable s' = subgraphTable s \<Longrightarrow> producers s' = producers s \<and> consumers s' = consumers s"
  by (simp add: producers_def consumers_def fun_eq_iff)

text \<open>What the configuration keeps of the channels.\<close>

definition same_shape :: "heap \<Rightarrow> heap \<Rightarrow> bool" where
  "same_shape h h' \<longleftrightarrow> length h' = length h
     \<and> (\<forall>p<length h. sub (h' ! p) = sub (h ! p) \<and> subgraphId (h' ! p) = subgraphId (h ! p)
          \<and> downstream (h' ! p) = downstream (h ! p) \<and> upstream (h' ! p) = upstream (h ! p))"

lemma add_producers_sets:
  assumes "add_producers h p c s = Inr s'"
  shows "set (producers s' j) = set (producers s j) \<union> (if \<exists>q\<in>set (downstream c). subgraphId (h ! q) = j then {p} else {})"
    "set (consumers s' j) = set (consumers s j)"
proof -
  have "set (producers s' j) = set (producers s j) \<union> (if \<exists>q\<in>set ds. subgraphId (h ! q) = j then {p} else {})
      \<and> set (consumers s' j) = set (consumers s j)"
    if "rfold (\<lambda>q s. rbind (deref h q) (\<lambda>d. Inr (addSubgraph (subgraphId d) [p] [] s))) ds s = Inr s'" for ds s
    using that
  proof (induction ds arbitrary: s)
    case (Cons d ds)
    then have "rfold (\<lambda>q s. rbind (deref h q) (\<lambda>d. Inr (addSubgraph (subgraphId d) [p] [] s))) ds (addSubgraph (subgraphId (h ! d)) [p] [] s) = Inr s'"
      by (auto simp: rbind_Inr_iff deref_Inr_iff)
    from Cons.IH [OF this] show ?case by (auto simp: addSubgraph_sets)
  qed simp
  from this [OF assms [unfolded add_producers_def]]
  show "set (producers s' j) = set (producers s j) \<union> (if \<exists>q\<in>set (downstream c). subgraphId (h ! q) = j then {p} else {})"
    "set (consumers s' j) = set (consumers s j)" by blast+
qed

definition feeds :: "heap \<Rightarrow> nat \<Rightarrow> nat \<Rightarrow> bool" where
  "feeds h p j \<longleftrightarrow> is_DGSF (h ! p) \<and> (\<exists>q\<in>set (downstream (h ! p)). subgraphId (h ! q) = j)"

definition lies_in :: "heap \<Rightarrow> nat \<Rightarrow> nat \<Rightarrow> bool" where
  "lies_in h p j \<longleftrightarrow> is_DGSF (h ! p) \<and> subgraphId (h ! p) = j"

lemma same_shape_trans: "same_shape h h' \<Longrightarrow> same_shape h' h'' \<Longrightarrow> same_shape h h''"
  by (simp add: same_shape_def)

lemma same_shape_facts:
  assumes "same_shape h h'" "\<forall>p<length h. set (downstream (h ! p)) \<subseteq> {..<length h}" "p < length h"
  shows "feeds h' p j = feeds h p j" "lies_in h' p j = lies_in h p j" "is_DGSF (h' ! p) = is_DGSF (h ! p)" "upstream (h' ! p) = upstream (h ! p)"
proof -
  have e: "sub (h' ! q) = sub (h ! q)" "subgraphId (h' ! q) = subgraphId (h ! q)" "downstream (h' ! q) = downstream (h ! q)"
    "upstream (h' ! q) = upstream (h ! q)" if "q < length h" for q
    using assms(1) that by (simp_all add: same_shape_def)
  have d: "q < length h" if "q \<in> set (downstream (h ! p))" for q using assms(2,3) that by blast
  show "feeds h' p j = feeds h p j" unfolding feeds_def is_DGSF_def e(1,3) [OF assms(3)] using e(2) [OF d] by simp
  show "lies_in h' p j = lies_in h p j" "is_DGSF (h' ! p) = is_DGSF (h ! p)" "upstream (h' ! p) = upstream (h ! p)"
    using e [OF assms(3)] by (simp_all add: lies_in_def is_DGSF_def)
qed

lemma config_chan_run:
  assumes "config_chan p (h, s) = Inr (h', s')" "is_DGSF (h ! p)"
  shows "\<exists>u s1. length (upstream (h ! p)) = 1 \<and> h' = h[p := inherit_branch u (h ! p)] \<and> subgraphTable s' = subgraphTable s1
    \<and> add_producers h' p (inherit_branch u (h ! p)) (addSubgraph (subgraphId (h ! p)) [] [p] s) = Inr s1"
proof -
  have p: "p < length h" using assms by (auto simp: config_chan_def rbind_Inr_iff deref_Inr_iff)
  have one: "length (upstream (h ! p)) = 1" using assms p by (auto simp: config_chan_def split: if_splits)
  obtain u where u: "up_of h (h ! p) 0 = Inr u" using assms p one by (auto simp: config_chan_def rbind_Inr_iff)
  let ?c = "inherit_branch u (h ! p)"
  let ?h = "h[p := ?c]"
  have c: "subgraphId ?c = subgraphId (h ! p)" by (simp add: inherit_branch_def)
  obtain s1 where s1: "add_producers ?h p ?c (addSubgraph (subgraphId (h ! p)) [] [p] s) = Inr s1"
    using assms p one u by (auto simp: config_chan_def rbind_Inr_iff Let_def c)
  obtain t f where tf: "on_paths ?h ?c = Inr (t, f)"
    using assms p one u s1 by (auto simp: config_chan_def rbind_Inr_iff Let_def c)
  have "h' = ?h \<and> subgraphTable s' = subgraphTable s1"
    using assms p one u s1 tf by (auto simp: config_chan_def Let_def c)
  with one s1 show ?thesis by blast
qed

lemma config_chan_sets:
  assumes "config_chan p (h, s) = Inr (h', s')"
  shows "same_shape h h'" "p < length h" "is_DGSF (h ! p) \<longrightarrow> length (upstream (h ! p)) = 1"
    "set (producers s' j) = set (producers s j) \<union> (if feeds h p j then {p} else {})"
    "set (consumers s' j) = set (consumers s j) \<union> (if lies_in h p j then {p} else {})"
proof -
  show p: "p < length h" using assms by (auto simp: config_chan_def rbind_Inr_iff deref_Inr_iff)
  have "same_shape h h' \<and> (is_DGSF (h ! p) \<longrightarrow> length (upstream (h ! p)) = 1)
    \<and> set (producers s' j) = set (producers s j) \<union> (if feeds h p j then {p} else {})
    \<and> set (consumers s' j) = set (consumers s j) \<union> (if lies_in h p j then {p} else {})"
  proof (cases "is_DGSF (h ! p)")
    case False
    then have "h' = h \<and> s' = s" using assms p by (simp add: config_chan_def)
    with False show ?thesis by (simp add: same_shape_def feeds_def lies_in_def)
  next
    case True
    from config_chan_run [OF assms True] obtain u s1 where r: "length (upstream (h ! p)) = 1" "h' = h[p := inherit_branch u (h ! p)]"
      "subgraphTable s' = subgraphTable s1" "add_producers h' p (inherit_branch u (h ! p)) (addSubgraph (subgraphId (h ! p)) [] [p] s) = Inr s1"
      by blast
    have shape: "same_shape h h'" unfolding r(2) using p by (simp add: same_shape_def nth_list_update inherit_branch_def)
    have id: "subgraphId (h' ! q) = subgraphId (h ! q)" for q
      unfolding r(2) using p by (cases "q = p") (simp_all add: inherit_branch_def)
    have ds: "downstream (inherit_branch u (h ! p)) = downstream (h ! p)" by (simp add: inherit_branch_def)
    have "set (producers s' j) = set (producers s j) \<union> (if feeds h p j then {p} else {})"
      using add_producers_sets(1) [OF r(4), of j] producers_cong [OF r(3)] True by (simp add: id ds feeds_def addSubgraph_sets)
    moreover have "set (consumers s' j) = set (consumers s j) \<union> (if lies_in h p j then {p} else {})"
      using add_producers_sets(2) [OF r(4), of j] producers_cong [OF r(3)] True by (auto simp: lies_in_def addSubgraph_sets)
    ultimately show ?thesis using shape r(1) by simp
  qed
  then show "same_shape h h'" "is_DGSF (h ! p) \<longrightarrow> length (upstream (h ! p)) = 1"
    "set (producers s' j) = set (producers s j) \<union> (if feeds h p j then {p} else {})"
    "set (consumers s' j) = set (consumers s j) \<union> (if lies_in h p j then {p} else {})" by blast+
qed

lemma config_chans_sets:
  assumes "\<forall>p<length h0. set (downstream (h0 ! p)) \<subseteq> {..<length h0}" "same_shape h0 h" "rfold config_chan ps (h, s) = Inr (h', s')"
  shows "(\<forall>p\<in>set ps. is_DGSF (h0 ! p) \<longrightarrow> length (upstream (h0 ! p)) = 1)
    \<and> set (producers s' j) = set (producers s j) \<union> {p \<in> set ps. feeds h0 p j}
    \<and> set (consumers s' j) = set (consumers s j) \<union> {p \<in> set ps. lies_in h0 p j}"
  using assms(2,3)
proof (induction ps arbitrary: h s)
  case (Cons p ps)
  then obtain h1 s1 where r: "config_chan p (h, s) = Inr (h1, s1)" "rfold config_chan ps (h1, s1) = Inr (h', s')"
    by (auto simp: rbind_Inr_iff)
  note c = config_chan_sets [OF r(1)]
  have "p < length h0" using c(2) Cons.prems(1) by (simp add: same_shape_def)
  note f = same_shape_facts [OF Cons.prems(1) assms(1) this]
  have "same_shape h0 h1" using Cons.prems(1) c(1) by (rule same_shape_trans)
  note IH = Cons.IH [OF this r(2)]
  show ?case using IH c(3) c(4,5) [of j] f(1,2) [of j] f(3,4) by auto
qed simp

text \<open>C33: the table of subgraphs that the registry sets up: the consumers of a subgraph are exactly the
  channels between subgraphs that lie in it, and its producers those that feed one of its channels; and
  every channel between subgraphs has one upstream, else the configuration reports an error.\<close>

theorem configured_table:
  assumes "configGraphScheduler r scheduler_new = Inr (r', s)"
    and "\<forall>p<length (r_chans r). set (downstream (r_chans r ! p)) \<subseteq> {..<length (r_chans r)}"
  shows "set (consumers s i) = {p \<in> set (chan_ptrs r). is_DGSF (r_chans r ! p) \<and> subgraphId (r_chans r ! p) = i}
    \<and> set (producers s i) = {p \<in> set (chan_ptrs r). is_DGSF (r_chans r ! p) \<and> (\<exists>q\<in>set (downstream (r_chans r ! p)). subgraphId (r_chans r ! q) = i)}
    \<and> (\<forall>p\<in>set (chan_ptrs r). is_DGSF (r_chans r ! p) \<longrightarrow> length (upstream (r_chans r ! p)) = 1)"
proof -
  obtain h' where run: "rfold config_chan (chan_ptrs r) (r_chans r, scheduler_new) = Inr (h', s)"
    using assms(1) by (auto simp: configGraphScheduler_def rbind_Inr_iff)
  have "same_shape (r_chans r) (r_chans r)" by (simp add: same_shape_def)
  moreover have "producers scheduler_new i = []" "consumers scheduler_new i = []"
    by (simp_all add: producers_def consumers_def scheduler_new_def)
  ultimately show ?thesis using config_chans_sets [OF assms(2) _ run, of i] by (simp add: feeds_def lies_in_def)
qed

text \<open>A channel in front of each of two subgraphs.\<close>

definition tableDemo :: registry where
  "tableDemo = (registry_new (projr (memSystem_new cfg_demo 0 [])))\<lparr>registryTable := [chan_entry 0, chan_entry 1, chan_entry 2],
     r_chans := [(chan_new 0 4 0 1 ChanBase)\<lparr>downstream := [1]\<rparr>,
       (chan_new 1 4 0 1 (ChanDGSF False []))\<lparr>upstream := [0], downstream := [2]\<rparr>,
       (chan_new 2 4 0 1 ChanBase)\<lparr>upstream := [1], subgraphId := 1\<rparr>]\<rparr>"

lemma configured_table_witness:
  "\<exists>r' s. configGraphScheduler tableDemo scheduler_new = Inr (r', s) \<and> set (producers s 1) = {1} \<and> set (consumers s 0) = {1}"
proof -
  have "\<exists>r' s. configGraphScheduler tableDemo scheduler_new = Inr (r', s)"
    by (simp add: tableDemo_def registry_new_def configGraphScheduler_def chan_ptrs_def map_filter_def chan_entry_def config_chan_def
        is_DGSF_def chan_new_def up_of_def add_producers_def inherit_branch_def on_paths_def Let_def)
  then obtain r' s where run: "configGraphScheduler tableDemo scheduler_new = Inr (r', s)" by blast
  have ptrs: "chan_ptrs tableDemo = [0, 1, 2]" by (simp add: tableDemo_def chan_ptrs_def map_filter_def chan_entry_def)
  have ok: "\<forall>p<length (r_chans tableDemo). set (downstream (r_chans tableDemo ! p)) \<subseteq> {..<length (r_chans tableDemo)}"
    by (auto simp: tableDemo_def chan_new_def less_Suc_eq)
  have d: "\<not> is_DGSF (r_chans tableDemo ! 0)" "is_DGSF (r_chans tableDemo ! 1)" "\<not> is_DGSF (r_chans tableDemo ! 2)"
    "downstream (r_chans tableDemo ! 1) = [2]" "subgraphId (r_chans tableDemo ! 1) = 0" "subgraphId (r_chans tableDemo ! 2) = 1"
    by (simp_all add: tableDemo_def chan_new_def is_DGSF_def)
  have one: "{p \<in> set [0, 1, 2]. Q p} = {1}" if "\<not> Q 0" "Q 1" "\<not> Q 2" for Q :: "nat \<Rightarrow> bool" using that by auto
  have "{p \<in> set [0, 1, 2]. is_DGSF (r_chans tableDemo ! p) \<and> (\<exists>q\<in>set (downstream (r_chans tableDemo ! p)). subgraphId (r_chans tableDemo ! q) = 1)} = {1}"
    by (rule one) (simp_all only: d list.set simp_thms bex_simps)
  moreover have "{p \<in> set [0, 1, 2]. is_DGSF (r_chans tableDemo ! p) \<and> subgraphId (r_chans tableDemo ! p) = 0} = {1}"
    by (rule one) (simp_all only: d simp_thms)
  ultimately have "set (producers s 1) = {1}" "set (consumers s 0) = {1}"
    using configured_table [OF run ok, of 1] configured_table [OF run ok, of 0] unfolding ptrs by argo+
  with run show ?thesis by blast
qed

end
