(* ===== verification/Printing.thy ===== *)
theory Printing
  imports ControlTree
begin

text \<open>Text that the program writes: decimal numbers, quoted names, and reading a text line by line.\<close>

section \<open>Numbers and names\<close>

fun dec :: "nat \<Rightarrow> string" where
  "dec n = (if n < 10 then [char_of (48 + n)] else dec (n div 10) @ [char_of (48 + n mod 10)])"

declare dec.simps [simp del]

definition quoted :: "string \<Rightarrow> string" where
  "quoted n = [CHR 0x22] @ n @ [CHR 0x22]"

section \<open>Lines\<close>

fun lines :: "string \<Rightarrow> string list" where
  "lines [] = []"
| "lines (c # s) = (if c = CHR 0x0A then [] # lines s else case lines s of [] \<Rightarrow> [[c]] | l # ls \<Rightarrow> (c # l) # ls)"

definition one_line :: "string \<Rightarrow> bool" where
  "one_line s \<longleftrightarrow> CHR 0x0A \<notin> set s"

lemma one_line_simps [simp]: "one_line []" "one_line (a @ b) \<longleftrightarrow> one_line a \<and> one_line b"
  "one_line (c # s) \<longleftrightarrow> c \<noteq> CHR 0x0A \<and> one_line s"
  by (auto simp: one_line_def)

lemma one_line_concat [simp]: "one_line (concat ss) \<longleftrightarrow> (\<forall>s\<in>set ss. one_line s)"
  by (induction ss) auto

lemma digit_value: "d < 10 \<Longrightarrow> of_char (char_of (48 + d) :: char) = 48 + (d :: nat)"
  by simp

lemma dec_digits: "set (dec n) \<subseteq> {c. 48 \<le> (of_char c :: nat) \<and> (of_char c :: nat) \<le> 57}"
proof (induction n rule: dec.induct)
  case (1 n)
  show ?case
  proof (cases "n < 10")
    case True
    then show ?thesis by (subst dec.simps) (simp add: digit_value)
  next
    case False
    have "n mod 10 < 10" by simp
    then show ?thesis using 1 False by (subst dec.simps) (simp add: digit_value)
  qed
qed

lemma one_line_dec [simp]: "one_line (dec n)"
  using dec_digits [of n] by (auto simp: one_line_def)

lemma one_line_quoted [simp]: "one_line (quoted n) = one_line n"
  by (simp add: quoted_def)

lemma lines_line: "one_line a \<Longrightarrow> lines (a @ endl @ b) = a # lines b"
  by (induction a) (simp_all add: endl_def)

lemma lines_empty: "lines (endl @ b) = [] # lines b"
  using lines_line [of "[]" b] by simp

end
