(* ===== verification/SimConfig.thy ===== *)
theory SimConfig
  imports RegistryConnect GraphTraverse Printing
begin

text \<open>
  The text of a simulation loop (\<open>Registry::genSimConfig\<close> of \<open>module/Registry.cpp\<close>): the declarations of the
  modules, the calls in the order of the breadth-first traversal, and a template for the partition. The
  file that is written is the result.
\<close>

section \<open>The code\<close>

definition banner :: "string \<Rightarrow> string" where
  "banner t = endl @ ''*********************************************'' @ endl @ t @ endl
     @ ''*********************************************'' @ endl @ endl"

definition declare_module :: "registry \<Rightarrow> string \<Rightarrow> string res" where
  "declare_module r n = rbind (getRegistryTableEntry n r) (\<lambda>e.
     Inr (''const auto& '' @ n @ '' = registry->''
       @ (case e_moduleType e of ModuleChannel \<Rightarrow> ''getChan('' | ModuleLc \<Rightarrow> ''getLc('' | ModuleMux \<Rightarrow> ''getMux('')
       @ quoted n @ '');'' @ endl))"

definition operands :: "string list \<Rightarrow> string" where
  "operands ps = concat (map (\<lambda>i. ''['' @ dec i @ '']'' @ ps ! i @ '' '') [0..<length ps])"

definition assign_calls :: "string \<Rightarrow> nat \<Rightarrow> string" where
  "assign_calls n k = concat (map (\<lambda>b. n @ ''->assign(uint64_t('' @ dec b @ ''))'') [0..<k])"

definition assignment :: "string \<Rightarrow> chan_node \<Rightarrow> string" where
  "assignment n x = (if cn_op x = ''Store'' then []
     else n @ ''->value = '' @ (if cn_op x = ''Load'' then n @ ''->assign();''
       else assign_calls n (length (pre_nodes_data x)) @ '';''))"

definition sim_channel :: "string \<Rightarrow> chan_node \<Rightarrow> string" where
  "sim_channel n x = n @ ''->get();'' @ [CHR 0x09] @ ''// '' @ cn_op x @ [CHR 0x09] @ operands (pre_nodes_data x) @ endl @ assignment n x"

definition sim_module :: "chan_node graph \<Rightarrow> registry \<Rightarrow> string \<Rightarrow> string res" where
  "sim_module g r n = (if n = ''Chan_begin'' \<or> n = ''Chan_end'' then Inr []
     else rbind (getRegistryTableEntry n r) (\<lambda>e.
       rbind (case e_moduleType e of
           ModuleChannel \<Rightarrow> rbind (the_ptr (chanPtr e)) (\<lambda>p. rbind (deref (r_chans r) p) (\<lambda>c.
             if is_DGSF c then Inr [] else rbind (getNode g n) (\<lambda>x. Inr (sim_channel n x))))
         | ModuleLc \<Rightarrow> Inr (''>>> Here should add a Lc: '' @ n @ endl @ ''// Lc: '' @ n)
         | ModuleMux \<Rightarrow> Inr (''>>> Here should add a Mux: '' @ n))
         (\<lambda>s. Inr (s @ endl @ endl))))"

definition partition_line :: "string \<Rightarrow> string" where
  "partition_line n = ''chanGraph.getNode('' @ quoted n @ '')->subgraphId = 0;'' @ endl"

definition sim_text :: "chan_node graph \<Rightarrow> registry \<Rightarrow> string list \<Rightarrow> string list \<Rightarrow> string res" where
  "sim_text g r sim cfg = rbind (rmap (declare_module r) cfg) (\<lambda>ds. rbind (rmap (sim_module g r) sim) (\<lambda>ms.
     Inr (banner ''******* Below is gen channel declare *******'' @ concat ds
       @ banner ''******* Below is gen simulation config *******'' @ concat ms
       @ banner ''******* Below is subgraph manually partition config *******'' @ concat (map partition_line cfg))))"

definition genSimConfig :: "chan_node graph \<Rightarrow> string list \<Rightarrow> registry \<Rightarrow> string res option" where
  "genSimConfig g ord r = (case bfsTraverseNodes g of None \<Rightarrow> None
     | Some sim \<Rightarrow> (case bfsTraverseNodesWithCtrlRegionSequence g ord of None \<Rightarrow> None
       | Some cfg \<Rightarrow> Some (rbind sim (\<lambda>sim. rbind cfg (\<lambda>cfg. sim_text g r sim cfg)))))"

section \<open>Reading the calls back\<close>

text \<open>The modules for which a text calls \<open>get\<close>, line by line.\<close>

definition call_of :: "string \<Rightarrow> string list" where
  "call_of l = (if take 8 (dropWhile (\<lambda>c. c \<noteq> CHR ''-'') l) = ''->get();'' then [takeWhile (\<lambda>c. c \<noteq> CHR ''-'') l] else [])"

definition sim_calls :: "string \<Rightarrow> string list" where
  "sim_calls s = concat (map call_of (lines s))"

definition clean :: "string \<Rightarrow> bool" where
  "clean n \<longleftrightarrow> one_line n \<and> CHR ''-'' \<notin> set n"

lemma sim_calls_line: "one_line a \<Longrightarrow> sim_calls (a @ endl @ b) = call_of a @ sim_calls b"
  by (simp add: sim_calls_def lines_line)

lemma sim_calls_Nil [simp]: "sim_calls [] = []" "sim_calls (endl @ b) = sim_calls b"
  using sim_calls_line [of "[]" b] by (simp_all add: sim_calls_def call_of_def)

lemma call_of_dash: "CHR ''-'' \<notin> set n \<Longrightarrow> call_of (n @ CHR ''-'' # s) = (if take 7 s = ''>get();'' then [n] else [])"
  by (auto simp: call_of_def dropWhile_append takeWhile_append)

lemma call_of_none:
  assumes "CHR ''-'' \<notin> set l"
  shows "call_of l = []"
proof -
  have d: "dropWhile (\<lambda>c. c \<noteq> CHR ''-'') l = []" unfolding dropWhile_eq_Nil_conv using assms by metis
  show ?thesis unfolding call_of_def d by simp
qed

definition simulated :: "registry \<Rightarrow> string \<Rightarrow> bool" where
  "simulated r n \<longleftrightarrow> n \<noteq> ''Chan_begin'' \<and> n \<noteq> ''Chan_end'' \<and> (\<exists>e p. getRegistryTableEntry n r = Inr e
     \<and> e_moduleType e = ModuleChannel \<and> chanPtr e = Some p \<and> p < length (r_chans r) \<and> \<not> is_DGSF (r_chans r ! p))"

section \<open>The pieces of the text\<close>

text \<open>A piece that is complete does not join its last line with the next piece.\<close>

definition reads :: "string \<Rightarrow> string list \<Rightarrow> bool" where
  "reads s ns \<longleftrightarrow> (\<forall>b. sim_calls (s @ b) = ns @ sim_calls b)"

lemma reads_Nil: "reads [] []"
  by (simp add: reads_def)

lemma reads_append: "reads s ns \<Longrightarrow> reads t ms \<Longrightarrow> reads (s @ t) (ns @ ms)"
  by (simp add: reads_def)

lemma reads_line: "one_line a \<Longrightarrow> call_of a = ns \<Longrightarrow> reads (a @ endl) ns"
  by (simp add: reads_def sim_calls_line)

lemma reads_none: "one_line a \<Longrightarrow> CHR ''-'' \<notin> set a \<Longrightarrow> reads (a @ endl) []"
  by (intro reads_line call_of_none)

lemma reads_concat: "(\<And>x. x \<in> set xs \<Longrightarrow> reads (f x) (g x)) \<Longrightarrow> reads (concat (map f xs)) (concat (map g xs))"
  by (induction xs) (auto intro: reads_Nil reads_append)

lemma reads_endl: "reads endl []"
  using reads_line [of "[]"] by (simp add: call_of_none)

lemma reads_banner: "clean t \<Longrightarrow> reads (banner t) []"
  unfolding banner_def
  using reads_append [OF reads_endl reads_append [OF reads_line [of "''*********************************************''" "[]"]
      reads_append [OF reads_line [of t "[]"] reads_append [OF reads_line [of "''*********************************************''" "[]"] reads_endl]]]]
  by (simp add: clean_def call_of_none)

lemma reads_declare:
  assumes "declare_module r n = Inr s" "clean n"
  shows "reads s []"
proof -
  obtain k where k: "one_line k" "take 7 (''>'' @ k) \<noteq> ''>get();''" and s: "s = ((''const auto& '' @ n @ '' = registry'') @ CHR ''-'' # ''>'' @ k) @ endl"
  proof -
    from assms(1) obtain e :: entry where "''const auto& '' @ n @ '' = registry->'' @ (case e_moduleType e of ModuleChannel \<Rightarrow> ''getChan('' | ModuleLc \<Rightarrow> ''getLc('' | ModuleMux \<Rightarrow> ''getMux('')
       @ quoted n @ '');'' @ endl = s" unfolding declare_module_def rbind_Inr_iff sum.inject by blast
    then show ?thesis
      using assms(2) that [of "(case e_moduleType e of ModuleChannel \<Rightarrow> ''getChan('' | ModuleLc \<Rightarrow> ''getLc('' | ModuleMux \<Rightarrow> ''getMux('') @ quoted n @ '');''"]
      by (cases "e_moduleType e") (auto simp: clean_def)
  qed
  have d: "CHR ''-'' \<notin> set (''const auto& '' @ n @ '' = registry'')" using assms(2) by (simp add: clean_def)
  show "reads s []" unfolding s
    by (rule reads_line, use assms(2) k(1) in \<open>simp add: clean_def\<close>) (simp only: call_of_dash [OF d] k(2) if_False)
qed

lemma reads_partition: "clean n \<Longrightarrow> reads (partition_line n) []"
proof -
  assume n: "clean n"
  have "CHR ''-'' \<notin> set (''chanGraph.getNode('' @ quoted n @ '')'')" using n by (simp add: clean_def quoted_def)
  from call_of_dash [OF this, of "''>subgraphId = 0;''"] n have
    "reads ((''chanGraph.getNode('' @ quoted n @ '')->subgraphId = 0;'') @ endl) []" by (intro reads_line) (simp_all add: clean_def)
  then show "reads (partition_line n) []" by (simp add: partition_line_def)
qed

text \<open>The names and operations of a node.\<close>

definition node_clean :: "chan_node \<Rightarrow> bool" where
  "node_clean x \<longleftrightarrow> one_line (cn_op x) \<and> (\<forall>p\<in>set (pre_nodes_data x). one_line p)"

lemma reads_assignment: "clean n \<Longrightarrow> reads (assignment n x @ endl) []"
proof (rule reads_line)
  assume n: "clean n"
  then show "one_line (assignment n x)" by (auto simp: assignment_def assign_calls_def clean_def)
  show "call_of (assignment n x) = []"
    using n call_of_dash [of n] by (auto simp: assignment_def clean_def call_of_none)
qed

lemma reads_channel:
  assumes "clean n" "node_clean x"
  shows "reads (sim_channel n x @ endl @ endl) [n]"
proof -
  let ?l = "n @ ''->get();'' @ [CHR 0x09] @ ''// '' @ cn_op x @ [CHR 0x09] @ operands (pre_nodes_data x)"
  have "one_line (operands (pre_nodes_data x))" using assms(2) by (auto simp: operands_def node_clean_def)
  then have "reads (?l @ endl) [n]"
    using assms call_of_dash [of n] by (intro reads_line) (auto simp: clean_def node_clean_def)
  from reads_append [OF this reads_append [OF reads_assignment [OF assms(1)] reads_endl]] show ?thesis
    by (simp add: sim_channel_def)
qed

lemma reads_module:
  assumes "sim_module g r n = Inr s" "clean n" "\<And>x. getNode g n = Inr x \<Longrightarrow> node_clean x"
  shows "reads s (if simulated r n then [n] else [])"
proof (cases "n = ''Chan_begin'' \<or> n = ''Chan_end''")
  case True
  then show ?thesis using assms(1) by (auto simp: sim_module_def simulated_def reads_Nil)
next
  case False
  with assms(1) obtain e t where e: "getRegistryTableEntry n r = Inr e" "s = t @ endl @ endl" and t:
    "(case e_moduleType e of
           ModuleChannel \<Rightarrow> rbind (the_ptr (chanPtr e)) (\<lambda>p. rbind (deref (r_chans r) p) (\<lambda>c.
             if is_DGSF c then Inr [] else rbind (getNode g n) (\<lambda>x. Inr (sim_channel n x))))
         | ModuleLc \<Rightarrow> Inr (''>>> Here should add a Lc: '' @ n @ endl @ ''// Lc: '' @ n)
         | ModuleMux \<Rightarrow> Inr (''>>> Here should add a Mux: '' @ n)) = Inr t"
    by (auto simp: sim_module_def rbind_Inr_iff)
  show ?thesis
  proof (cases "e_moduleType e")
    case ModuleChannel
    with t obtain p where p: "chanPtr e = Some p" "p < length (r_chans r)"
      by (auto simp: rbind_Inr_iff the_ptr_def deref_Inr_iff split: option.splits)
    have sim: "simulated r n \<longleftrightarrow> \<not> is_DGSF (r_chans r ! p)" using False e(1) ModuleChannel p by (simp add: simulated_def)
    show ?thesis
    proof (cases "is_DGSF (r_chans r ! p)")
      case True
      with t ModuleChannel p have "t = []" by (simp add: the_ptr_def)
      then show ?thesis using sim True e(2) reads_append [OF reads_endl reads_endl] by simp
    next
      case no: False
      with t ModuleChannel p obtain x where "getNode g n = Inr x" "t = sim_channel n x" by (auto simp: the_ptr_def rbind_Inr_iff)
      with reads_channel [OF assms(2) assms(3)] show ?thesis using sim no e(2) by simp
    qed
  next
    case ModuleLc
    let ?a = "''>>> Here should add a Lc: '' @ n" and ?b = "''// Lc: '' @ n"
    have "reads (?a @ endl) []" "reads (?b @ endl) []" by (rule reads_none; use assms(2) in \<open>simp add: clean_def\<close>)+
    note R = reads_append [OF this(1) reads_append [OF this(2) reads_endl]]
    have "s = (?a @ endl) @ (?b @ endl) @ endl" using t ModuleLc e(2) by (auto simp del: append_Cons)
    then show ?thesis using R ModuleLc e(1) by (simp only: simulated_def) simp
  next
    case ModuleMux
    let ?a = "''>>> Here should add a Mux: '' @ n"
    have "reads (?a @ endl) []" by (rule reads_none; use assms(2) in \<open>simp add: clean_def\<close>)
    note R = reads_append [OF this reads_endl]
    have "s = (?a @ endl) @ endl" using t ModuleMux e(2) by auto
    then show ?thesis using R ModuleMux e(1) by (simp only: simulated_def) simp
  qed
qed

section \<open>The whole text\<close>

lemma rmap_reads: "rmap f xs = Inr ss \<Longrightarrow> (\<And>x s. x \<in> set xs \<Longrightarrow> f x = Inr s \<Longrightarrow> reads s (h x)) \<Longrightarrow> reads (concat ss) (concat (map h xs))"
proof (induction xs arbitrary: ss)
  case (Cons a xs)
  then obtain t ts where t: "f a = Inr t" "rmap f xs = Inr ts" "ss = t # ts" by (auto simp: rbind_Inr_iff)
  from Cons.prems(2) [of a, OF _ t(1)] Cons.IH [OF t(2)] Cons.prems(2) show ?case by (simp add: t(3) reads_append)
qed (simp add: reads_Nil)

lemma by_regions_names:
  assumes "by_regions g ord sim = Inr ns"
  shows "set ns \<subseteq> set sim"
proof -
  let ?f = "\<lambda>n (tab :: string \<Rightarrow> string list). rbind (getNode g n) (\<lambda>x.
       if node_region x \<in> set (map controlRegionName (controlRegionTable (ctrl_tree g)))
       then Inr (tab(node_region x := tab (node_region x) @ [n]))
       else Inl (Throw ''Error: Not find this ctrlRegion!''))"
  from assms obtain tab where t: "rfold ?f sim (\<lambda>_. []) = Inr tab" "ns = concat (map tab ord)"
    by (auto simp: by_regions_def rbind_Inr_iff)
  from t(1) have "\<forall>r x. x \<in> set (tab r) \<longrightarrow> x \<in> set sim"
  proof (rule rfold_partial)
    fix n t t' assume "n \<in> set sim" "\<forall>r x. x \<in> set (t r) \<longrightarrow> x \<in> set sim" "?f n t = Inr t'"
    then show "\<forall>r x. x \<in> set (t' r) \<longrightarrow> x \<in> set sim" by (auto simp: rbind_Inr_iff split: if_splits)
  qed simp
  then show ?thesis using t(2) by auto
qed

lemma settle_names:
  assumes "settle g k ns = Some res"
  shows "\<forall>out. res = Inr out \<longrightarrow> set out \<subseteq> set ns"
proof (induction rule: settle.raw_induct [OF _ assms])
  case (1 f g k ns res)
  show ?case
  proof (cases "length ns \<le> k")
    case True
    with 1(2) show ?thesis by auto
  next
    case k: False
    have m: "set (move_behind k m ns) \<subseteq> set ns" for m
    proof -
      let ?ys = "take (Suc m) ns @ [ns ! k] @ drop (Suc m) ns"
      have "set (take k ?ys @ drop (Suc k) ?ys) \<subseteq> set ?ys"
        by (subst set_append) (intro Un_least set_drop_subset set_take_subset)
      also have "\<dots> \<subseteq> set ns" using k by (auto dest: in_set_takeD in_set_dropD)
      finally show ?thesis unfolding move_behind_def Let_def .
    qed
    show ?thesis
    proof (cases "getNode g (ns ! k)")
      case (Inl e)
      with 1(2) k show ?thesis by auto
    next
      case (Inr x)
      let ?m = "last_pred (preds x) ns"
      from 1(2) k Inr have "if k < ?m then if ?m = length ns then res = Inl OutOfBounds else f g k (move_behind k ?m ns) = Some res
        else f g (Suc k) ns = Some res" by (auto simp: Let_def split: if_splits)
      then show ?thesis using 1(1) [of g k "move_behind k ?m ns" res] 1(1) [of g "Suc k" ns res] m [of ?m]
        by (auto split: if_splits)
    qed
  qed
qed

lemma config_names:
  assumes "bfsTraverseNodesWithCtrlRegionSequence g ord = Some (Inr cfg)" "bfsTraverseNodes g = Some (Inr sim)"
  shows "set cfg \<subseteq> set sim"
proof -
  from assms obtain ns where "by_regions g ord sim = Inr ns" "settle g 0 ns = Some (Inr cfg)"
    by (auto simp: bfsTraverseNodesWithCtrlRegionSequence_def split: sum.splits)
  with by_regions_names settle_names show ?thesis by blast
qed

text \<open>C39: the simulation loop that the registry writes calls \<open>get\<close> once for each module that is a channel of the
  graph other than the begin, the end and the boundary channels, and can be reached from the nodes
  without predecessors, in the order of the breadth-first traversal, and for no other module (so a channel on a cycle to which
  no such node leads gets no call); this can be read off the text
  line by line when the names and operations contain no dash and no line break.\<close>

theorem simulation_loop_calls:
  fixes g :: "chan_node graph"
  defines "ns \<equiv> map node_name (nodes g)"
  assumes "graph_ok g" "\<forall>x\<in>set (nodes g). clean (node_name x) \<and> node_clean x" "genSimConfig g ord r = Some (Inr text)"
  shows "\<exists>out. bfsTraverseNodes g = Some (Inr out) \<and> sim_calls text = filter (simulated r) out \<and> distinct (sim_calls text)
    \<and> set (sim_calls text) = {n \<in> (succ_rel g ns)\<^sup>* `` {n. is_root g ns n}. simulated r n}"
proof -
  have ns: "distinct ns" "set ns \<subseteq> node_names g" using assms(2) by (auto simp: ns_def graph_ok_def node_names_def)
  obtain sim where sim: "bfsTraverseNodes g = Some (Inr sim)" "distinct sim" "set sim = (succ_rel g ns)\<^sup>* `` {n. is_root g ns n}"
    using bfs_total [OF assms(2) ns] by (auto simp: bfsTraverseNodes_def ns_def)
  have "set sim \<subseteq> set ns"
    unfolding sim(3) by (auto simp: is_root_def succ_rel_def elim: rtranclE)
  then have names: "clean n \<and> (\<forall>x. getNode g n = Inr x \<longrightarrow> node_clean x)" if "n \<in> set sim" for n
  proof -
    have "n \<in> set ns" using that \<open>set sim \<subseteq> set ns\<close> by blast
    then obtain i where i: "i < length (nodes g)" "n = node_name (nodes g ! i)" by (auto simp: ns_def in_set_conv_nth)
    with graph_ok_nth(2) [OF assms(2) i(1)] assms(3) show ?thesis by simp
  qed
  from assms(4) sim(1) obtain cfg where cfg: "bfsTraverseNodesWithCtrlRegionSequence g ord = Some (Inr cfg)" "sim_text g r sim cfg = Inr text"
    by (auto simp: genSimConfig_def rbind_Inr_iff split: option.splits)
  then obtain ds ms where t: "rmap (declare_module r) cfg = Inr ds" "rmap (sim_module g r) sim = Inr ms"
    "text = banner ''******* Below is gen channel declare *******'' @ concat ds
       @ banner ''******* Below is gen simulation config *******'' @ concat ms
       @ banner ''******* Below is subgraph manually partition config *******'' @ concat (map partition_line cfg)"
    unfolding sim_text_def rbind_Inr_iff sum.inject by blast
  have c: "clean n" if "n \<in> set cfg" for n using config_names [OF cfg(1) sim(1)] names that by blast
  have "reads (concat ds) (concat (map (\<lambda>_. []) cfg))"
    using c by (intro rmap_reads [OF t(1)] reads_declare)
  moreover have "reads (concat ms) (concat (map (\<lambda>n. if simulated r n then [n] else []) sim))"
    using names by (intro rmap_reads [OF t(2)] reads_module) auto
  moreover have "reads (concat (map partition_line cfg)) (concat (map (\<lambda>_. []) cfg))"
    using c by (intro reads_concat reads_partition)
  moreover have "clean ''******* Below is gen channel declare *******''" "clean ''******* Below is gen simulation config *******''"
    "clean ''******* Below is subgraph manually partition config *******''" by (simp_all add: clean_def)
  moreover have "concat (map (\<lambda>n. if simulated r n then [n] else []) xs) = filter (simulated r) xs" for xs
    by (induction xs) auto
  moreover have "concat (map (\<lambda>_. []) cfg) = ([] :: string list)" by simp
  ultimately have "reads text ([] @ [] @ [] @ filter (simulated r) sim @ [] @ [])"
    unfolding t(3) by (intro reads_append reads_banner) simp_all
  then have "sim_calls text = filter (simulated r) sim" unfolding reads_def by (metis append_Nil2 append_Nil sim_calls_Nil(1))
  then show ?thesis using sim by auto
qed

text \<open>A load that feeds an addition.\<close>

definition loopTextGraph :: "chan_node graph" where
  "loopTextGraph = \<lparr>nodes = [(chan_node_new ''a'')\<lparr>node_region := ''top'', cn_op := ''Load'', next_nodes_data := [''b'']\<rparr>,
      (chan_node_new ''b'')\<lparr>node_region := ''top'', cn_op := ''Add'', pre_nodes_data := [''a'']\<rparr>],
    nodeIndexDict = [(''a'', 0), (''b'', 1)],
    ctrl_tree = \<lparr>controlRegionTable = [region_new ''top'' ''Loop'' True], controlRegionIndexDict = [''top'' \<mapsto> 0]\<rparr>\<rparr>"

definition loopTextRegistry :: registry where
  "loopTextRegistry = (registry_new (projr (memSystem_new cfg_demo 0 [])))\<lparr>registryTable := [chan_entry 0, chan_entry 1],
     registryDict := [(''a'', 0), (''b'', 1)], r_chans := [chan_new 0 4 0 1 ChanBase, chan_new 1 4 0 1 ChanBase]\<rparr>"

lemma simulation_loop_calls_witness:
  "\<exists>text. genSimConfig loopTextGraph [''top''] loopTextRegistry = Some (Inr text) \<and> sim_calls text = [''a'', ''b'']"
proof -
  have ok: "graph_ok loopTextGraph" "\<forall>x\<in>set (nodes loopTextGraph). clean (node_name x) \<and> node_clean x" by code_simp+
  have "map_option isl (genSimConfig loopTextGraph [''top''] loopTextRegistry) = Some False" by code_simp
  then obtain t where "genSimConfig loopTextGraph [''top''] loopTextRegistry = Some t" "\<not> isl t" by auto
  then obtain s where t: "genSimConfig loopTextGraph [''top''] loopTextRegistry = Some (Inr s)" by (cases t) auto
  have "bfsTraverseNodes loopTextGraph = Some (Inr [''a'', ''b''])" by code_simp
  moreover have "simulated loopTextRegistry ''a''" "simulated loopTextRegistry ''b''"
    by (simp_all add: simulated_def loopTextRegistry_def getRegistryTableEntry_def findRegistryEntryIndex_def chan_entry_def is_DGSF_def chan_new_def)
  ultimately show ?thesis using simulation_loop_calls [OF ok t] t by auto
qed

text \<open>The assignment of a node with two operands is a template: the calls are not joined by an operation.\<close>

lemma assignment_template:
  "assignment ''x'' ((chan_node_new ''x'')\<lparr>cn_op := ''Add'', pre_nodes_data := [''a'', ''b'']\<rparr>)
   = ''x->value = x->assign(uint64_t(0))x->assign(uint64_t(1));''"
  by code_simp

end
