(* ===== verification/GraphEdit.thy ===== *)
theory GraphEdit
  imports Boundaries
begin

text \<open>
  The insertion of a single channel between given nodes (\<open>ChanGraph::insertChanNode\<close> of \<open>sim/graph.cpp\<close>),
  which none of the passes uses. The node is passed by reference and is changed as well: the result is
  the node together with the graph.
\<close>

section \<open>The code\<close>

definition subst_first :: "string \<Rightarrow> string \<Rightarrow> string list \<Rightarrow> string list" where
  "subst_first a b xs = (case first_index (\<lambda>k. k = a) xs of None \<Rightarrow> xs | Some i \<Rightarrow> xs[i := b])"

definition insert_before :: "string \<Rightarrow> string \<Rightarrow> chan_node \<times> chan_node graph \<Rightarrow> (chan_node \<times> chan_node graph) res" where
  "insert_before m p = (\<lambda>(x, g).
     rbind (on_node p (\<lambda>y. y\<lparr>next_nodes_data := subst_first m (node_name x) (next_nodes_data y),
         next_nodes_active := subst_first m (node_name x) (next_nodes_active y)\<rparr>) g) (\<lambda>g.
     rbind (getNode g m) (\<lambda>z.
     rbind (on_node m (\<lambda>z. z\<lparr>pre_nodes_active := [], pre_nodes_data := [node_name x]\<rparr>) g) (\<lambda>g.
       Inr (x\<lparr>pre_nodes_data := pre_nodes_data z, pre_nodes_active := pre_nodes_active z,
         next_nodes_data := next_nodes_data x @ [node_name z]\<rparr>, g)))))"

definition insert_behind :: "string \<Rightarrow> string \<Rightarrow> chan_node \<times> chan_node graph \<Rightarrow> (chan_node \<times> chan_node graph) res" where
  "insert_behind p m = (\<lambda>(x, g).
     rbind (on_node m (\<lambda>z. z\<lparr>pre_nodes_data := subst_first p (node_name x) (pre_nodes_data z),
         pre_nodes_active := subst_first p (node_name x) (pre_nodes_active z)\<rparr>) g) (\<lambda>g.
     rbind (getNode g m) (\<lambda>z. rbind (getNode g p) (\<lambda>y.
     rbind (on_node p (\<lambda>y. y\<lparr>next_nodes_active := [], next_nodes_data := [node_name x]\<rparr>) g) (\<lambda>g.
       Inr (x\<lparr>next_nodes_data := next_nodes_data z, next_nodes_active := next_nodes_active z,
         pre_nodes_data := pre_nodes_data x @ [node_name y]\<rparr>, g))))))"

definition append_node :: "chan_node \<Rightarrow> chan_node graph \<Rightarrow> chan_node graph" where
  "append_node x g = g\<lparr>nodeIndexDict := (case map_of (nodeIndexDict g) (node_name x) of
       None \<Rightarrow> nodeIndexDict g @ [(node_name x, length (nodeIndexDict g))] | Some _ \<Rightarrow> nodeIndexDict g),
     nodes := nodes g @ [x]\<rparr>"

definition insertChanNode :: "chan_node \<Rightarrow> string list \<Rightarrow> string list \<Rightarrow> chan_node graph \<Rightarrow> (chan_node \<times> chan_node graph) res" where
  "insertChanNode x preNodes nextNodes g =
     (if 1 < length preNodes \<and> 1 < length nextNodes then Inl (Throw ''At least one of them's size must equal to one!'')
      else if node_region x = [] then Inl (Throw ''The controlRegionName of this chanNode did not declare!'')
      else rbind (case nextNodes of [m] \<Rightarrow> rbind (getNode g m) (\<lambda>_. rfold (insert_before m) preNodes (x, g)) | _ \<Rightarrow> Inr (x, g)) (\<lambda>(x, g).
        rbind (case preNodes of [p] \<Rightarrow> rbind (getNode g p) (\<lambda>_. rfold (insert_behind p) nextNodes (x, g)) | _ \<Rightarrow> Inr (x, g)) (\<lambda>(x, g).
          Inr (x, append_node x g))))"

section \<open>What is connected\<close>

lemma subst_first_none: "a \<notin> set xs \<Longrightarrow> subst_first a b xs = xs"
proof -
  assume "a \<notin> set xs"
  then have "first_index (\<lambda>k. k = a) xs = None" by (auto simp: first_index_None)
  then show ?thesis by (simp add: subst_first_def)
qed

lemma insert_before_of:
  assumes "distinct ns" "p \<in> set ns" "m \<in> set ns" "p \<noteq> m"
  shows "insert_before m p (x, graph_of ns L t) =
    Inr (x\<lparr>pre_nodes_data := pre_nodes_data (L m), pre_nodes_active := pre_nodes_active (L m), next_nodes_data := next_nodes_data x @ [node_name (L m)]\<rparr>,
      graph_of ns (L(p := (L p)\<lparr>next_nodes_data := subst_first m (node_name x) (next_nodes_data (L p)),
           next_nodes_active := subst_first m (node_name x) (next_nodes_active (L p))\<rparr>,
         m := (L m)\<lparr>pre_nodes_active := [], pre_nodes_data := [node_name x]\<rparr>)) t)"
  using assms by (simp add: insert_before_def graph_of_on graph_of_get)

lemma insert_behind_of:
  assumes "distinct ns" "p \<in> set ns" "m \<in> set ns" "p \<noteq> m"
  shows "insert_behind p m (x, graph_of ns L t) =
    Inr (x\<lparr>next_nodes_data := next_nodes_data (L m), next_nodes_active := next_nodes_active (L m), pre_nodes_data := pre_nodes_data x @ [node_name (L p)]\<rparr>,
      graph_of ns (L(m := (L m)\<lparr>pre_nodes_data := subst_first p (node_name x) (pre_nodes_data (L m)),
           pre_nodes_active := subst_first p (node_name x) (pre_nodes_active (L m))\<rparr>,
         p := (L p)\<lparr>next_nodes_active := [], next_nodes_data := [node_name x]\<rparr>)) t)"
  using assms by (simp add: insert_behind_def graph_of_on graph_of_get)

lemma graph_of_append:
  assumes "n \<notin> set ns" "node_name x = n"
  shows "append_node x (graph_of ns L t) = graph_of (ns @ [n]) (L(n := x)) t"
proof -
  have "map_of (nodeIndexDict (graph_of ns L t)) n = None" using assms(1) by (simp add: graph_of_def)
  moreover have "map L ns = map (L(n := x)) ns" using assms(1) by auto
  ultimately show ?thesis by (simp add: append_node_def assms(2)) (simp add: graph_of_def)
qed

text \<open>With one predecessor and one successor the new node gets the successors of its successor instead of
  the successor itself.\<close>

lemma insert_between_two:
  assumes "distinct ns" "p \<in> set ns" "m \<in> set ns" "p \<noteq> m" "node_name x \<notin> set ns" "node_region x \<noteq> []"
    "\<forall>k\<in>set ns. node_name (L k) = k"
  defines "n \<equiv> node_name x"
  defines "x' \<equiv> x\<lparr>pre_nodes_data := pre_nodes_data (L m) @ [p], pre_nodes_active := pre_nodes_active (L m),
      next_nodes_data := next_nodes_data (L m), next_nodes_active := next_nodes_active (L m)\<rparr>"
  shows "insertChanNode x [p] [m] (graph_of ns L t) = Inr (x', graph_of (ns @ [n])
    (L(p := (L p)\<lparr>next_nodes_data := [n], next_nodes_active := []\<rparr>,
       m := (L m)\<lparr>pre_nodes_data := [n], pre_nodes_active := []\<rparr>, n := x')) t)"
proof -
  have np: "p \<noteq> n" using assms(2,5) by (auto simp: n_def)
  have s: "subst_first p n [n] = [n]" "subst_first p n [] = []" using np by (simp_all add: subst_first_none)
  have xn: "node_name x' = n" by (simp add: x'_def n_def)
  let ?x = "x\<lparr>pre_nodes_data := pre_nodes_data (L m), pre_nodes_active := pre_nodes_active (L m), next_nodes_data := next_nodes_data x @ [m]\<rparr>"
  let ?L = "L(p := (L p)\<lparr>next_nodes_data := subst_first m n (next_nodes_data (L p)), next_nodes_active := subst_first m n (next_nodes_active (L p))\<rparr>,
       m := (L m)\<lparr>pre_nodes_active := [], pre_nodes_data := [n]\<rparr>)"
  have nm: "node_name (L m) = m" "node_name (L p) = p" using assms(2,3,7) by auto
  have 1: "insert_before m p (x, graph_of ns L t) = Inr (?x, graph_of ns ?L t)"
    unfolding insert_before_of [OF assms(1-4)] nm n_def ..
  have 2: "insert_behind p m (?x, graph_of ns ?L t) = Inr (x', graph_of ns (L(p := (L p)\<lparr>next_nodes_data := [n], next_nodes_active := []\<rparr>,
       m := (L m)\<lparr>pre_nodes_data := [n], pre_nodes_active := []\<rparr>)) t)"
    unfolding insert_behind_of [OF assms(1-4)] using assms(4) nm
    by (simp add: x'_def s n_def [symmetric] fun_upd_twist fun_upd_def) (auto simp: graph_of_def)
  have m: "getNode (graph_of ns L t) m = Inr (L m)" "getNode (graph_of ns ?L t) p = Inr (?L p)"
    using assms(1-3) by (simp_all only: graph_of_get)
  have n: "n \<notin> set ns" using assms(5) by (simp add: n_def)
  show ?thesis
    unfolding insertChanNode_def using assms(6) by (simp add: m 1 2 graph_of_append [OF n xn])
qed

text \<open>With several predecessors the new node becomes its own predecessor and not one of the others is
  connected to it; its successor is entered once for each of them.\<close>

definition bypassed :: "string \<Rightarrow> string \<Rightarrow> string list \<Rightarrow> (string \<Rightarrow> chan_node) \<Rightarrow> string \<Rightarrow> chan_node" where
  "bypassed n m ps L k = (if k = m then (L m)\<lparr>pre_nodes_data := [n], pre_nodes_active := []\<rparr>
     else if k \<in> set ps then (L k)\<lparr>next_nodes_data := subst_first m n (next_nodes_data (L k)),
       next_nodes_active := subst_first m n (next_nodes_active (L k))\<rparr> else L k)"

lemma insert_before_rest:
  assumes "distinct ns" "set ps \<subseteq> set ns" "distinct ps" "m \<in> set ns" "m \<notin> set ps" "node_name (L m) = m"
    "pre_nodes_data (L m) = [node_name x]" "pre_nodes_active (L m) = []" "ps \<noteq> []"
  shows "rfold (insert_before m) ps (x, graph_of ns L t)
    = Inr (x\<lparr>pre_nodes_data := [node_name x], pre_nodes_active := [], next_nodes_data := next_nodes_data x @ replicate (length ps) m\<rparr>,
        graph_of ns (bypassed (node_name x) m ps L) t)"
  using assms
proof (induction ps arbitrary: x L)
  case (Cons p ps)
  let ?x = "x\<lparr>pre_nodes_data := [node_name x], pre_nodes_active := [], next_nodes_data := next_nodes_data x @ [m]\<rparr>"
  have 1: "insert_before m p (x, graph_of ns L t) = Inr (?x, graph_of ns (bypassed (node_name x) m [p] L) t)"
  proof -
    have "L(p := (L p)\<lparr>next_nodes_data := subst_first m (node_name x) (next_nodes_data (L p)),
           next_nodes_active := subst_first m (node_name x) (next_nodes_active (L p))\<rparr>,
         m := (L m)\<lparr>pre_nodes_active := [], pre_nodes_data := [node_name x]\<rparr>) = bypassed (node_name x) m [p] L"
      using Cons.prems by (auto simp: bypassed_def fun_eq_iff)
    moreover have "p \<noteq> m" using Cons.prems by auto
    ultimately show ?thesis using Cons.prems insert_before_of [of ns p m x L t] by simp
  qed
  show ?case
  proof (cases "ps = []")
    case True
    then show ?thesis by (simp add: 1)
  next
    case False
    have "bypassed (node_name x) m ps (bypassed (node_name x) m [p] L) = bypassed (node_name x) m (p # ps) L"
      using Cons.prems by (auto simp: bypassed_def fun_eq_iff)
    moreover have "rfold (insert_before m) ps (?x, graph_of ns (bypassed (node_name x) m [p] L) t) =
        Inr (?x\<lparr>pre_nodes_data := [node_name ?x], pre_nodes_active := [], next_nodes_data := next_nodes_data ?x @ replicate (length ps) m\<rparr>,
          graph_of ns (bypassed (node_name ?x) m ps (bypassed (node_name x) m [p] L)) t)"
      using Cons.prems False by (intro Cons.IH) (auto simp: bypassed_def)
    ultimately show ?thesis by (simp add: 1)
  qed
qed simp

lemma insert_behind_many:
  assumes "distinct ns" "set ps \<subseteq> set ns" "distinct ps" "m \<in> set ns" "m \<notin> set ps" "2 \<le> length ps"
    "node_name x \<notin> set ns" "node_region x \<noteq> []" "\<forall>k\<in>set ns. node_name (L k) = k"
  defines "n \<equiv> node_name x"
  defines "x' \<equiv> x\<lparr>pre_nodes_data := [n], pre_nodes_active := [], next_nodes_data := next_nodes_data x @ replicate (length ps) m\<rparr>"
  shows "insertChanNode x ps [m] (graph_of ns L t) = Inr (x', graph_of (ns @ [n]) ((bypassed n m ps L)(n := x')) t)"
proof -
  obtain p q rest where ps: "ps = p # q # rest" using assms(6) by (cases ps rule: remdups_adj.cases) auto
  let ?x = "x\<lparr>pre_nodes_data := pre_nodes_data (L m), pre_nodes_active := pre_nodes_active (L m), next_nodes_data := next_nodes_data x @ [m]\<rparr>"
  let ?L = "bypassed n m [p] L"
  have m: "m \<in> set ns" "p \<in> set ns" "p \<noteq> m" "node_name (L m) = m" using assms(2,4,5,9) by (auto simp: ps)
  have "insert_before m p (x, graph_of ns L t) = Inr (?x, graph_of ns ?L t)"
  proof -
    have "L(p := (L p)\<lparr>next_nodes_data := subst_first m n (next_nodes_data (L p)), next_nodes_active := subst_first m n (next_nodes_active (L p))\<rparr>,
         m := (L m)\<lparr>pre_nodes_active := [], pre_nodes_data := [n]\<rparr>) = ?L"
      using m by (auto simp: bypassed_def fun_eq_iff)
    then show ?thesis unfolding insert_before_of [OF assms(1) m(2,1,3)] m(4) n_def by simp
  qed
  moreover have "rfold (insert_before m) (q # rest) (?x, graph_of ns ?L t) =
     Inr (?x\<lparr>pre_nodes_data := [node_name ?x], pre_nodes_active := [], next_nodes_data := next_nodes_data ?x @ replicate (length (q # rest)) m\<rparr>,
       graph_of ns (bypassed (node_name ?x) m (q # rest) ?L) t)"
    using assms(1-5) m by (intro insert_before_rest) (auto simp: ps bypassed_def n_def)
  moreover have "bypassed n m (q # rest) ?L = bypassed n m ps L"
    using assms(3,5) by (auto simp: ps bypassed_def fun_eq_iff)
  ultimately have "rfold (insert_before m) ps (x, graph_of ns L t) = Inr (x', graph_of ns (bypassed n m ps L) t)"
    by (simp add: ps n_def [symmetric] x'_def)
  moreover have "getNode (graph_of ns L t) m = Inr (L m)" using assms(1) m(1) by (rule graph_of_get)
  ultimately show ?thesis
    using graph_of_append [of n ns x' "bypassed n m ps L" t] assms(7,8) unfolding insertChanNode_def
    by (simp add: ps n_def [symmetric]) (simp add: x'_def n_def)
qed

end
