(* ===== verification/GraphPlot.thy ===== *)
theory GraphPlot
  imports Graph Printing
begin

text \<open>
  The plots of the two graphs in the language of Graphviz (\<open>Graph::plotDot\<close> with the labels of
  \<open>Dfg\<close> and \<open>ChanGraph\<close>, \<open>sim/graph.cpp\<close>). The file that is written is the result; the connections can be read
  back from it.
\<close>

section \<open>The code\<close>

definition data_line :: "string \<Rightarrow> string list \<Rightarrow> nat \<Rightarrow> string" where
  "data_line n ps i = ps ! i @ ''->'' @ n @ '' [label='' @ dec i @ '']'' @ endl"

definition active_line :: "string \<Rightarrow> string list \<Rightarrow> nat \<Rightarrow> string" where
  "active_line n ps i = ps ! i @ ''->'' @ n @ '' [label='' @ dec i @ '', style = '' @ quoted ''dashed'' @ '']'' @ endl"

definition printDotNodeConnect :: "('a node_scheme) graph \<Rightarrow> string" where
  "printDotNodeConnect g =
     concat (map (\<lambda>x. concat (map (data_line (node_name x) (pre_nodes_data x)) [0..<length (pre_nodes_data x)])) (nodes g))
     @ concat (map (\<lambda>x. concat (map (active_line (node_name x) (pre_nodes_active x)) [0..<length (pre_nodes_active x)])) (nodes g))"

text \<open>The label of a node of the dataflow graph is declared outside of the loop: a node of another type
  gets that of the node before it.\<close>

definition dfg_label :: "string \<Rightarrow> dfg_node \<Rightarrow> string" where
  "dfg_label prev x =
     (if dfg_type x = ''Normal'' \<or> dfg_type x = ''Lc''
      then node_name x @ '' [label='' @ quoted (''node_'' @ node_name x @ [CHR 0x5C] @ ''n'' @ dfg_op x)
        @ (if dfg_op x = ''load'' \<or> dfg_op x = ''store'' then '', fillcolor='' @ quoted ''chartreuse2'' @ '', style=filled'' else []) @ '']''
      else if dfg_type x = ''Const'' then node_name x @ '' [shape=box, fillcolor='' @ quoted ''khaki2'' @ '', style=filled]''
      else prev)"

fun dfg_labels :: "string \<Rightarrow> dfg_node list \<Rightarrow> string" where
  "dfg_labels prev [] = []"
| "dfg_labels prev (x # xs) = dfg_label prev x @ endl @ dfg_labels (dfg_label prev x) xs"

definition chan_label :: "chan_node \<Rightarrow> string" where
  "chan_label x = node_name x @ '' [''
     @ (if cn_type x \<in> {''ChanBase'', ''ChanDGSF'', ''Lse_ld'', ''Lse_st''}
        then ''label='' @ quoted (node_name x @ [CHR 0x5C] @ ''nSize:'' @ dec (cn_size x) @ '' Cyc:'' @ dec (cn_cycle x)
            @ '' Speed:'' @ dec (cn_speedup x) @ [CHR 0x5C] @ ''n'' @ cn_type x @ '' Graph: '' @ dec (node_subgraphId x))
          @ (if cn_type x = ''ChanDGSF'' then '', shape=octagon''
             else if cn_type x = ''Lse_ld'' \<or> cn_type x = ''Lse_st'' then '', fillcolor='' @ quoted ''chartreuse2'' @ '', style=filled''
             else [])
        else if cn_type x = ''Lc'' \<or> cn_type x = ''Mux'' then ''shape=box'' else [])
     @ (if chan_mode x = ''Keep_mode'' then '', fillcolor='' @ quoted ''darkorange'' @ '', style=filled''
        else if chan_mode x = ''Drain_mode'' then '', fillcolor='' @ quoted ''bisque1'' @ '', style=filled'' else []) @ '']''"

definition chan_labels :: "chan_node list \<Rightarrow> string" where
  "chan_labels xs = concat (map (\<lambda>x. chan_label x @ endl) xs)"

definition plotDot :: "(('a node_scheme) list \<Rightarrow> string) \<Rightarrow> ('a node_scheme) graph \<Rightarrow> string res option" where
  "plotDot labels g = map_option (\<lambda>rs. rbind rs (\<lambda>rs. rbind (printDotControlRegion (ctrl_tree g) rs) (\<lambda>cs.
       Inr (''digraph dfg{'' @ endl @ printDotNodeConnect g @ labels (nodes g) @ concat cs @ ''}'' @ endl))))
     (traverseControlRegionsDfs (ctrl_tree g))"

definition dfg_plotDot :: "dfg_node graph \<Rightarrow> string res option" where
  "dfg_plotDot = plotDot (dfg_labels [])"

definition chan_plotDot :: "chan_node graph \<Rightarrow> string res option" where
  "chan_plotDot = plotDot chan_labels"

section \<open>Reading the edges back\<close>

text \<open>A line that contains an arrow is an edge, dashed when a comma follows its number.\<close>

definition edge_of :: "string \<Rightarrow> (string \<times> string \<times> bool) list" where
  "edge_of l = (let r = dropWhile (\<lambda>c. c \<noteq> CHR ''-'') l in
     if r = [] then [] else [(takeWhile (\<lambda>c. c \<noteq> CHR ''-'') l, takeWhile (\<lambda>c. c \<noteq> CHR '' '') (drop 2 r), CHR '','' \<in> set r)])"

definition dot_edges :: "string \<Rightarrow> (string \<times> string \<times> bool) list" where
  "dot_edges s = concat (map edge_of (lines s))"

definition plain_name :: "string \<Rightarrow> bool" where
  "plain_name n \<longleftrightarrow> one_line n \<and> CHR ''-'' \<notin> set n \<and> CHR '' '' \<notin> set n \<and> CHR '','' \<notin> set n"

text \<open>The connections as the nodes declare them: those for data, then those for activation.\<close>

definition declared_edges :: "('a node_scheme) graph \<Rightarrow> (string \<times> string \<times> bool) list" where
  "declared_edges g = concat (map (\<lambda>x. map (\<lambda>p. (p, node_name x, False)) (pre_nodes_data x)) (nodes g))
     @ concat (map (\<lambda>x. map (\<lambda>p. (p, node_name x, True)) (pre_nodes_active x)) (nodes g))"

lemma dot_edges_line: "one_line a \<Longrightarrow> dot_edges (a @ endl @ b) = edge_of a @ dot_edges b"
  by (simp add: dot_edges_def lines_line)

lemma edge_of_none: "CHR ''-'' \<notin> set l \<Longrightarrow> edge_of l = []"
proof -
  assume "CHR ''-'' \<notin> set l"
  then have "dropWhile (\<lambda>c. c \<noteq> CHR ''-'') l = []" unfolding dropWhile_eq_Nil_conv by metis
  then show ?thesis by (simp add: edge_of_def)
qed

lemma lines_chars: "l \<in> set (lines s) \<Longrightarrow> set l \<subseteq> set s"
  by (induction s arbitrary: l rule: lines.induct) (fastforce split: if_splits list.splits)+

lemma dot_edges_none: "CHR ''-'' \<notin> set s \<Longrightarrow> dot_edges s = []"
  using lines_chars [of _ s] by (auto simp: dot_edges_def intro!: edge_of_none)

lemma edge_of_edge:
  assumes "plain_name p" "plain_name n"
  shows "edge_of (p @ ''->'' @ n @ CHR '' '' # s) = [(p, n, CHR '','' \<in> set s)]"
proof -
  have p: "\<And>c. c \<in> set p \<Longrightarrow> c \<noteq> CHR ''-''" and n: "\<And>c. c \<in> set n \<Longrightarrow> c \<noteq> CHR '' ''" "CHR '','' \<notin> set n"
    using assms by (auto simp: plain_name_def)
  show ?thesis using n(2)
    by (simp add: edge_of_def Let_def dropWhile_append2 [OF p] takeWhile_append2 [OF p] takeWhile_append2 [OF n(1)])
qed

lemma no_comma: "CHR '','' \<notin> set (dec n)" "CHR ''-'' \<notin> set (dec n)"
  using dec_digits [of n] by (auto simp: char_of_def)

lemma dot_edges_each:
  assumes "\<And>i b. i < length ps \<Longrightarrow> dot_edges (f i @ b) = (ps ! i, n, d) # dot_edges b"
  shows "dot_edges (concat (map f [0..<length ps]) @ b) = map (\<lambda>p. (p, n, d)) ps @ dot_edges b"
proof -
  have "k \<le> length ps \<Longrightarrow> dot_edges (concat (map f [0..<k]) @ b) = map (\<lambda>p. (p, n, d)) (take k ps) @ dot_edges b" for k b
    by (induction k arbitrary: b) (use assms in \<open>auto simp: take_Suc_conv_app_nth\<close>)
  from this [of "length ps"] show ?thesis by simp
qed

lemma dot_edges_data:
  assumes "plain_name n" "\<forall>p\<in>set ps. plain_name p"
  shows "dot_edges (concat (map (data_line n ps) [0..<length ps]) @ b) = map (\<lambda>p. (p, n, False)) ps @ dot_edges b"
proof (rule dot_edges_each)
  fix i b assume "i < length ps"
  then have p: "plain_name (ps ! i)" using assms(2) by auto
  then have "dot_edges ((ps ! i @ ''->'' @ n @ CHR '' '' # ''[label='' @ dec i @ '']'') @ endl @ b) = (ps ! i, n, False) # dot_edges b"
    using assms(1) by (subst dot_edges_line) (simp_all only: edge_of_edge, simp_all add: no_comma, simp add: plain_name_def)
  then show "dot_edges (data_line n ps i @ b) = (ps ! i, n, False) # dot_edges b" by (simp add: data_line_def)
qed

lemma dot_edges_active:
  assumes "plain_name n" "\<forall>p\<in>set ps. plain_name p"
  shows "dot_edges (concat (map (active_line n ps) [0..<length ps]) @ b) = map (\<lambda>p. (p, n, True)) ps @ dot_edges b"
proof (rule dot_edges_each)
  fix i b assume "i < length ps"
  then have p: "plain_name (ps ! i)" using assms(2) by auto
  then have "dot_edges ((ps ! i @ ''->'' @ n @ CHR '' '' # ''[label='' @ dec i @ '', style = '' @ quoted ''dashed'' @ '']'') @ endl @ b)
      = (ps ! i, n, True) # dot_edges b"
    using assms(1) by (subst dot_edges_line) (simp_all only: edge_of_edge, simp_all, simp add: plain_name_def)
  then show "dot_edges (active_line n ps i @ b) = (ps ! i, n, True) # dot_edges b" by (simp add: active_line_def)
qed

lemma dot_edges_nodes:
  assumes "\<And>x b. x \<in> set xs \<Longrightarrow> dot_edges (f x @ b) = e x @ dot_edges b"
  shows "dot_edges (concat (map f xs) @ b) = concat (map e xs) @ dot_edges b"
  using assms by (induction xs) simp_all

lemma dot_edges_connect:
  assumes "\<forall>x\<in>set (nodes g). plain_name (node_name x) \<and> (\<forall>p\<in>set (pre_nodes_data x @ pre_nodes_active x). plain_name p)"
  shows "dot_edges (printDotNodeConnect g @ b) = declared_edges g @ dot_edges b"
  using assms by (simp add: printDotNodeConnect_def declared_edges_def dot_edges_nodes dot_edges_data dot_edges_active)

section \<open>Text without an arrow\<close>

lemma quoted_dash [simp]: "CHR ''-'' \<in> set (quoted s) \<longleftrightarrow> CHR ''-'' \<in> set s"
  by (auto simp: quoted_def)

lemma endl_dash [simp]: "CHR ''-'' \<notin> set endl"
  by (simp add: endl_def)

lemma chan_label_dash: "plain_name (node_name x) \<Longrightarrow> CHR ''-'' \<notin> set (chan_label x)"
  by (auto simp: chan_label_def plain_name_def no_comma split: if_splits)

lemma node_list_chars: "\<forall>n\<in>set ns. CHR ''-'' \<notin> set n \<Longrightarrow> CHR ''-'' \<notin> set (node_list ns)"
  by (induction ns rule: node_list.induct) auto

definition plain_regions :: "controlTree \<Rightarrow> bool" where
  "plain_regions t \<longleftrightarrow> (\<forall>r\<in>set (controlRegionTable t). plain_name (controlRegionName r)
     \<and> (\<forall>n\<in>set (region_nodes r). plain_name n) \<and> (\<forall>n\<in>set (lowerControlRegion r). plain_name n))"

lemma printSubgraphDot_dash:
  assumes "plain_regions t" "CHR ''-'' \<notin> set n" "printSubgraphDot t n = Inr s"
  shows "CHR ''-'' \<notin> set s"
proof -
  from assms(3) obtain r where r: "getCtrlRegion t n = Inr r" and s: "s = endl @ ''subgraph cluster_'' @ n @ '' {'' @ endl @ node_list (region_nodes r)
          @ (if controlType r = ''Loop'' then ''color=darkorange'' @ endl
             else if controlType r = ''Branch'' then ''color=dodgerblue2'' @ endl else [])
          @ ''label='' @ [CHR 0x22] @ n @ [CHR 0x22] @ endl" by (auto simp: printSubgraphDot_def rbind_Inr_iff)
  have "r \<in> set (controlRegionTable t)" using r by (auto simp: getCtrlRegion_def rbind_Inr_iff rnth_Inr_iff)
  then have "CHR ''-'' \<notin> set (node_list (region_nodes r))"
    using assms(1) by (intro node_list_chars) (auto simp: plain_regions_def plain_name_def)
  then show ?thesis using assms(2) by (simp add: s)
qed

lemma closing_dash: "CHR ''-'' \<notin> set (concat (closing lv lw))"
proof -
  have "CHR ''-'' \<notin> set (concat (replicate k ''}'' @ [endl]))" for k by (induction k) auto
  then show ?thesis unfolding closing_def by (auto simp del: concat_append)
qed

lemma printDotControlRegion_dash:
  assumes "plain_regions t" "\<forall>r\<in>set rs. CHR ''-'' \<notin> set (fst r)" "printDotControlRegion t rs = Inr cs"
  shows "CHR ''-'' \<notin> set (concat cs)"
  using assms
proof (induction t rs arbitrary: cs rule: printDotControlRegion.induct)
  case (2 t n lv)
  then obtain s where "printSubgraphDot t n = Inr s" "cs = s # replicate (lv + 1) ''}'' @ [endl]" by (auto simp: rbind_Inr_iff)
  then show ?case using printSubgraphDot_dash [OF 2(1)] 2(2) by auto
next
  case (3 t n lv m lw rs)
  then obtain s out where s: "printSubgraphDot t n = Inr s" "printDotControlRegion t ((m, lw) # rs) = Inr out" "cs = s # closing lv lw @ out"
    by (auto simp: rbind_Inr_iff)
  have "CHR ''-'' \<notin> set (concat out)" using 3 s by auto
  moreover have "CHR ''-'' \<notin> set s" using printSubgraphDot_dash [OF 3(2) _ s(1)] 3(3) by auto
  ultimately show ?case unfolding s(3) concat.simps(2) concat_append set_append using closing_dash by blast
qed simp

lemma preorder_names:
  assumes "plain_regions t" "represents t x" "plain_name (root x)" "e \<in> set (preorder lv x)"
  shows "plain_name (fst e)"
  using assms
proof (induction x arbitrary: lv)
  case (Region n rs)
  obtain r where r: "getCtrlRegion t n = Inr r" "lowerControlRegion r = map root rs" "list_all (represents t) rs"
    using Region.prems(2) by (auto split: sum.splits)
  have "r \<in> set (controlRegionTable t)" using r(1) by (auto simp: getCtrlRegion_def rbind_Inr_iff rnth_Inr_iff)
  then have "\<forall>y\<in>set rs. plain_name (root y)" using Region.prems(1) r(2) by (auto simp: plain_regions_def)
  then show ?case using Region.IH [OF _ assms(1)] Region.prems(3,4) r(3) by (auto simp: list_all_iff)
qed

lemma traversal_names:
  assumes "plain_regions t" "traverseControlRegionsDfs t = Some (Inr rs)"
  shows "\<forall>e\<in>set rs. plain_name (fst e)"
proof -
  obtain r tab where t: "controlRegionTable t = r # tab" "dfs_loop t [(controlRegionName r, 0)] 0 = Some (Inr rs)"
    using assms(2) by (auto simp: traverseControlRegionsDfs_def split: list.splits)
  from dfs_loop_Inr [OF t(2) refl le0] obtain fs where fs: "list_all (represents t \<circ> fst) fs" "heads fs = [(controlRegionName r, 0)]" "rs = listing fs"
    by (simp only: drop_0 take_0 append_Nil) (elim exE conjE)
  have "plain_name (controlRegionName r)" using assms(1) t(1) by (simp add: plain_regions_def)
  moreover obtain x where "fs = [(x, 0)]" "root x = controlRegionName r" using fs(2) by auto
  ultimately show ?thesis using fs(1,3) by (auto dest!: preorder_names [OF assms(1)])
qed

lemma plot_edges:
  assumes "\<forall>x\<in>set (nodes g). plain_name (node_name x) \<and> (\<forall>p\<in>set (pre_nodes_data x @ pre_nodes_active x). plain_name p)"
    "plain_regions (ctrl_tree g)" "CHR ''-'' \<notin> set (labels (nodes g))" "plotDot labels g = Some (Inr text)"
  shows "dot_edges text = declared_edges g"
proof -
  obtain rs cs where rs: "traverseControlRegionsDfs (ctrl_tree g) = Some (Inr rs)" "printDotControlRegion (ctrl_tree g) rs = Inr cs"
    and out: "text = ''digraph dfg{'' @ endl @ printDotNodeConnect g @ labels (nodes g) @ concat cs @ ''}'' @ endl"
    using assms(4) by (auto simp: plotDot_def rbind_Inr_iff)
  have "CHR ''-'' \<notin> set (concat cs)"
    using traversal_names [OF assms(2) rs(1)] by (intro printDotControlRegion_dash [OF assms(2) _ rs(2)]) (auto simp: plain_name_def)
  then have "dot_edges (labels (nodes g) @ concat cs @ ''}'' @ endl) = []" using assms(3) by (intro dot_edges_none) simp
  then show ?thesis
    unfolding out by (subst dot_edges_line, simp) (simp only: dot_edges_connect [OF assms(1)], simp add: edge_of_none)
qed

text \<open>The plot of the channel graph shows the graph: when no name contains a dash, a space, a comma or a line
  break, the edges that are read back from the text are the connections of the nodes, the ones for activation dashed.\<close>

theorem plot_shows_graph:
  assumes "\<forall>x\<in>set (nodes g). plain_name (node_name x) \<and> (\<forall>p\<in>set (pre_nodes_data x @ pre_nodes_active x). plain_name p)"
    "plain_regions (ctrl_tree g)" "chan_plotDot g = Some (Inr text)"
  shows "dot_edges text = declared_edges g"
proof (rule plot_edges [OF assms(1,2)])
  show "CHR ''-'' \<notin> set (chan_labels (nodes g))" using assms(1) chan_label_dash by (auto simp: chan_labels_def)
  show "plotDot chan_labels g = Some (Inr text)" using assms(3) by (simp add: chan_plotDot_def)
qed

definition plotDemo :: "chan_node graph" where
  "plotDemo = \<lparr>nodes = [(chan_node_new ''a'')\<lparr>cn_type := ''ChanBase''\<rparr>, (chan_node_new ''b'')\<lparr>cn_type := ''ChanDGSF'', pre_nodes_data := [''a''], pre_nodes_active := [''a'']\<rparr>],
     nodeIndexDict = [(''a'', 0), (''b'', 1)],
     ctrl_tree = \<lparr>controlRegionTable = [(region_new ''Top'' ''Loop'' True)\<lparr>region_nodes := [''a'', ''b'']\<rparr>], controlRegionIndexDict = [''Top'' \<mapsto> 0]\<rparr>\<rparr>"

theorem plot_shows_graph_witness:
  "\<exists>text. chan_plotDot plotDemo = Some (Inr text) \<and> dot_edges text = [(''a'', ''b'', False), (''a'', ''b'', True)]"
proof -
  have g: "getCtrlRegion (ctrl_tree plotDemo) ''Top'' = Inr ((region_new ''Top'' ''Loop'' True)\<lparr>region_nodes := [''a'', ''b'']\<rparr>)"
    by (simp add: plotDemo_def getCtrlRegion_def findControlRegionIndex_def)
  have "traverseControlRegionsDfs (ctrl_tree plotDemo) = Some (Inr [(''Top'', 0)])"
    using dfs_loop_step [OF g, of "[]" 0 "[]"] dfs_loop_done [of "[(''Top'', 0)]" 1]
    by (simp add: traverseControlRegionsDfs_def plotDemo_def region_new_def)
  moreover have "\<exists>cs. printDotControlRegion (ctrl_tree plotDemo) [(''Top'', 0)] = Inr cs" by (simp add: printSubgraphDot_def g)
  ultimately obtain s where s: "chan_plotDot plotDemo = Some (Inr s)" by (auto simp: chan_plotDot_def plotDot_def)
  have "declared_edges plotDemo = [(''a'', ''b'', False), (''a'', ''b'', True)]"
    by (simp add: declared_edges_def plotDemo_def chan_node_new_def)
  moreover have "dot_edges s = declared_edges plotDemo"
    by (rule plot_shows_graph [OF _ _ s]) (auto simp: plotDemo_def chan_node_new_def region_new_def plain_regions_def plain_name_def)
  ultimately show ?thesis using s by auto
qed

lemma dfg_label_dash: "plain_name (node_name x) \<Longrightarrow> CHR ''-'' \<notin> set (dfg_op x) \<Longrightarrow> CHR ''-'' \<notin> set prev \<Longrightarrow> CHR ''-'' \<notin> set (dfg_label prev x)"
  by (auto simp: dfg_label_def plain_name_def)

lemma dfg_plot_edges:
  assumes "\<forall>x\<in>set (nodes g). plain_name (node_name x) \<and> (\<forall>p\<in>set (pre_nodes_data x @ pre_nodes_active x). plain_name p) \<and> CHR ''-'' \<notin> set (dfg_op x)"
    "plain_regions (ctrl_tree g)" "dfg_plotDot g = Some (Inr text)"
  shows "dot_edges text = declared_edges g"
proof (rule plot_edges)
  have "CHR ''-'' \<notin> set prev \<Longrightarrow> \<forall>x\<in>set xs. plain_name (node_name x) \<and> CHR ''-'' \<notin> set (dfg_op x) \<Longrightarrow> CHR ''-'' \<notin> set (dfg_labels prev xs)" for prev xs
    by (induction xs arbitrary: prev) (auto simp: dfg_label_dash)
  then show "CHR ''-'' \<notin> set (dfg_labels [] (nodes g))" using assms(1) by simp
qed (use assms in \<open>simp_all add: dfg_plotDot_def\<close>)

end
