(* ===== verification/TraceFile.thy ===== *)
theory TraceFile
  imports Printing
begin

text \<open>
  Reading of text files (\<open>util/ReadFile.hpp\<close>): numbers, columns, and blocks of lines. A file is the option of its
  text; one that cannot be opened reads as an empty one, since the assertion on it does nothing (on Linux
  it expands to the declaration of a function). \<open>std::stoi\<close>, \<open>getline\<close> and the extraction of words are those of
  the standard library.
\<close>

section \<open>The standard library\<close>

definition is_space :: "char \<Rightarrow> bool" where
  "is_space c \<longleftrightarrow> c \<in> {CHR '' '', CHR 0x09, CHR 0x0A, CHR 0x0B, CHR 0x0C, CHR 0x0D}"

fun fields :: "(char \<Rightarrow> bool) \<Rightarrow> string \<Rightarrow> string list" where
  "fields p [] = [[]]"
| "fields p (c # s) = (if p c then [] # fields p s else case fields p s of [] \<Rightarrow> [[c]] | f # fs \<Rightarrow> (c # f) # fs)"

definition words :: "string \<Rightarrow> string list" where
  "words s = filter (\<lambda>w. w \<noteq> []) (fields is_space s)"

definition is_digit :: "char \<Rightarrow> bool" where
  "is_digit c \<longleftrightarrow> 48 \<le> (of_char c :: nat) \<and> (of_char c :: nat) \<le> 57"

definition digits_value :: "string \<Rightarrow> nat" where
  "digits_value = foldl (\<lambda>n c. 10 * n + (of_char c - 48)) 0"

definition signed_text :: "string \<Rightarrow> bool \<times> string" where
  "signed_text s = (case s of [] \<Rightarrow> (False, []) | c # t \<Rightarrow> if c = CHR ''-'' then (True, t) else if c = CHR ''+'' then (False, t) else (False, s))"

definition stoi :: "string \<Rightarrow> i32 res" where
  "stoi s = (let (neg, t) = signed_text (dropWhile is_space s); ds = takeWhile is_digit t;
       v = (if neg then - int (digits_value ds) else int (digits_value ds)) in
     if ds = [] then Inl (Throw ''invalid_argument'')
     else if - (2 ^ 31) \<le> v \<and> v < 2 ^ 31 then Inr (of_int v) else Inl (Throw ''out_of_range''))"

definition file_lines :: "string option \<Rightarrow> string list" where
  "file_lines f = (case f of None \<Rightarrow> [] | Some s \<Rightarrow> lines s)"

section \<open>The code\<close>

definition readFile :: "string option \<Rightarrow> u64 list \<Rightarrow> u64 list res" where
  "readFile f = rfold (\<lambda>l xs. rbind (stoi l) (\<lambda>v. Inr (xs @ [scast v]))) (file_lines f)"

definition read_word :: "nat \<times> string \<Rightarrow> u64 list list \<Rightarrow> u64 list list res" where
  "read_word = (\<lambda>(col, w) cols. rbind (stoi w) (\<lambda>v.
     if col < length cols then Inr (cols[col := cols ! col @ [scast v]]) else Inl OutOfBounds))"

definition read_line :: "string \<Rightarrow> u64 list list \<Rightarrow> u64 list list res" where
  "read_line l = rfold read_word (enumerate 0 (words l))"

definition readFileByColumn :: "string option \<Rightarrow> u64 list list \<Rightarrow> u64 list list res" where
  "readFileByColumn f = rfold read_line (file_lines f)"

fun block_loop :: "nat \<Rightarrow> string list \<Rightarrow> nat \<Rightarrow> nat \<Rightarrow> bool \<Rightarrow> string list \<Rightarrow> string list \<times> nat" where
  "block_loop B [] line_id line_ptr begun vec = (vec, line_id)"
| "block_loop B (l # ls) line_id line_ptr begun vec =
     (if line_ptr = line_id \<or> begun
      then let vec = vec @ [l]; line_id = line_id + 1 in
        if B \<le> line_id - line_ptr then (vec, line_id) else block_loop B ls line_id line_ptr True vec
      else block_loop B ls line_id (line_ptr + 1) begun vec)"

definition readFileByColumn_blocked :: "string option \<Rightarrow> nat \<Rightarrow> u64 list list \<times> nat \<Rightarrow> (bool \<times> u64 list list \<times> nat) res" where
  "readFileByColumn_blocked f B = (\<lambda>(cols, line_id). let (vec, line_id) = block_loop B (file_lines f) line_id 0 False [] in
     rbind (rfold read_line vec cols) (\<lambda>cols. Inr (length vec < B, cols, line_id)))"

section \<open>Numbers\<close>

lemma digits_value_snoc: "digits_value (s @ [c]) = 10 * digits_value s + (of_char c - 48)"
  by (simp add: digits_value_def)

lemma digits_value_dec: "digits_value (dec n) = n"
proof (induction n rule: dec.induct)
  case (1 n)
  show ?case
  proof (cases "n < 10")
    case True
    then show ?thesis by (subst dec.simps) (simp add: digits_value_def digit_value)
  next
    case False
    have "n mod 10 < 10" by simp
    then show ?thesis using 1 False by (subst dec.simps) (simp add: digits_value_snoc digit_value)
  qed
qed

lemma dec_nonempty: "dec n \<noteq> []"
  by (subst dec.simps) simp

lemma dec_all_digits: "c \<in> set (dec n) \<Longrightarrow> is_digit c"
  using dec_digits [of n] by (auto simp: is_digit_def)

lemma digit_plain: "is_digit c \<Longrightarrow> \<not> is_space c \<and> c \<noteq> CHR ''-'' \<and> c \<noteq> CHR ''+''"
  by (auto simp: is_digit_def is_space_def)

text \<open>A number that is written in decimal is read back.\<close>

lemma stoi_dec:
  assumes "n < 2 ^ 31"
  shows "stoi (dec n) = Inr (of_nat n)"
proof -
  obtain c s where d: "dec n = c # s" using dec_nonempty [of n] by (cases "dec n") auto
  have c: "\<not> is_space c" "c \<noteq> CHR ''-''" "c \<noteq> CHR ''+''" using dec_all_digits [of c n] digit_plain [of c] d by auto
  have t: "takeWhile is_digit (dec n) = dec n" unfolding takeWhile_eq_all_conv using dec_all_digits by blast
  have p: "dropWhile is_space (dec n) = dec n" "signed_text (dec n) = (False, dec n)" using c by (simp_all add: d signed_text_def)
  show ?thesis
    unfolding stoi_def p Let_def prod.case t digits_value_dec using assms dec_nonempty [of n] by simp
qed

section \<open>Blocks\<close>

lemma block_loop_begun:
  "i0 \<le> k \<Longrightarrow> k - i0 < max 1 B \<Longrightarrow> block_loop B ls k i0 True vec =
     (vec @ take (max 1 B - (k - i0)) ls, k + length (take (max 1 B - (k - i0)) ls))"
proof (induction ls arbitrary: k vec)
  case (Cons l ls)
  show ?case
  proof (cases "B \<le> Suc k - i0")
    case True
    then have "max 1 B - (k - i0) = Suc 0" using Cons.prems by auto
    then show ?thesis using True by simp
  next
    case False
    then have "max 1 B - (k - i0) = Suc (max 1 B - (Suc k - i0))" using Cons.prems by auto
    then show ?thesis using False Cons.prems Cons.IH [of "Suc k" "vec @ [l]"] by simp
  qed
qed simp

lemma block_loop_eq:
  "p \<le> i0 \<Longrightarrow> block_loop B ls i0 p False [] = (take (max 1 B) (drop (i0 - p) ls), i0 + length (take (max 1 B) (drop (i0 - p) ls)))"
proof (induction ls arbitrary: p)
  case (Cons l ls)
  show ?case
  proof (cases "p = i0")
    case True
    show ?thesis
    proof (cases "B \<le> 1")
      case True
      then show ?thesis using \<open>p = i0\<close> by (auto simp: max_def)
    next
      case False
      then have "max 1 B = B" "B = Suc (B - 1)" by auto
      then show ?thesis using False \<open>p = i0\<close> block_loop_begun [of i0 "Suc i0" B ls "[l]"]
        by (cases B) (auto simp: max_def)
    qed
  next
    case False
    then have "i0 - p = Suc (i0 - Suc p)" using Cons.prems by auto
    then show ?thesis using False Cons by simp
  qed
qed simp

text \<open>Block by block, as long as the last block is not reported to end the file.\<close>

partial_function (option) read_until :: "string option \<Rightarrow> nat \<Rightarrow> u64 list list \<times> nat \<Rightarrow> (u64 list list \<times> nat) res option" where
  [code]: "read_until f B s = (case readFileByColumn_blocked f B s of Inl e \<Rightarrow> Some (Inl e)
     | Inr (ended, s) \<Rightarrow> if ended then Some (Inr s) else read_until f B s)"

lemma read_until_step:
  assumes "0 < B" "k \<le> length (file_lines f)"
  shows "read_until f B (cols, k) = Some (rbind (rfold read_line (drop k (file_lines f)) cols) (\<lambda>cols. Inr (cols, length (file_lines f))))"
  using assms(2)
proof (induction "length (file_lines f) - k" arbitrary: k cols rule: less_induct)
  case less
  let ?L = "file_lines f"
  have b: "block_loop B ?L k 0 False [] = (take B (drop k ?L), k + length (take B (drop k ?L)))"
    using block_loop_eq [of 0 k B ?L] assms(1) by (simp add: max_def)
  have split: "rfold read_line (drop k ?L) cols = rbind (rfold read_line (take B (drop k ?L)) cols) (rfold read_line (drop (k + B) ?L))"
    by (metis append_take_drop_id drop_drop add.commute rfold_append)
  show ?case
  proof (cases "rfold read_line (take B (drop k ?L)) cols")
    case (Inl e)
    then show ?thesis using split by (subst read_until.simps) (simp add: readFileByColumn_blocked_def b)
  next
    case (Inr cols')
    show ?thesis
    proof (cases "length ?L - k < B")
      case True
      then have "drop (k + B) ?L = []" "k + length (take B (drop k ?L)) = length ?L" using less.prems by auto
      then show ?thesis using split Inr True by (subst read_until.simps) (simp add: readFileByColumn_blocked_def b)
    next
      case False
      then have "read_until f B (cols', k + B) = Some (rbind (rfold read_line (drop (k + B) ?L) cols') (\<lambda>cols. Inr (cols, length ?L)))"
        using less.prems assms(1) by (intro less.hyps) auto
      then show ?thesis using split Inr False by (subst read_until.simps) (simp add: readFileByColumn_blocked_def b)
    qed
  qed
qed

text \<open>C40: a file is read completely block by block: for blocks of at least one line the repeated calls end and give
  the columns that one pass over the file gives, or the same error. (The variant with a block size of
  zero is never reported to have ended.)\<close>

theorem blocks_cover_file:
  "read_until f (Suc b) (cols, 0) = Some (rbind (readFileByColumn f cols) (\<lambda>cols. Inr (cols, length (file_lines f))))"
  using read_until_step [of "Suc b" 0 f cols] by (simp add: readFileByColumn_def)

lemma empty_blocks: "readFileByColumn_blocked f 0 s = Inr (ended, s') \<Longrightarrow> \<not> ended"
  by (auto simp: readFileByColumn_blocked_def rbind_Inr_iff split: prod.splits)

end
