(* ===== verification/GcnGraph.thy ===== *)
theory GcnGraph
  imports SpecialMode RegistryConnect ChanGraphGen
begin

text \<open>
  The program that is simulated (\<open>test/gcn/gcn.cpp\<close> and \<open>test/gcn/gcn_base_trace_systolic.cpp\<close>, the benchmark that
  \<open>main\<close> runs): its dataflow graph, and the network of channels that the graph passes and the registry
  make of it.
\<close>

section \<open>The dataflow graph\<close>

definition generateDfg :: "dfg_node graph res" where
  "generateDfg =
     rbind (addControlRegion [(''loop_i'', ''Loop'', ''Null''), (''loop_j'', ''Loop'', ''Null'')] tree_empty) (\<lambda>t.
     rbind (addLowerControlRegion ''loop_i'' [''loop_j''] t) (\<lambda>t.
     rbind (completeControlRegionHierarchy t) (\<lambda>t.
     rbind (dfg_addNode ''begin'' ''Nop'' (graph_empty\<lparr>ctrl_tree := t\<rparr>)) (\<lambda>g.
     rbind (dfg_addNode_active ''end'' ''Nop'' [] [''i''] g) (\<lambda>g.
     rbind (dfg_addNode_active ''i'' ''Loop_head'' [] [''begin''] g) (\<lambda>g.
     rbind (dfg_addNode_active ''i_lc'' ''Nop'' [''i''] [] g) (\<lambda>g.
     rbind (dfg_addNode_pre ''traverse_root'' ''Nop'' [''i_lc''] g) (\<lambda>g.
     rbind (dfg_addNode_mem ''ld_ngh'' ''Load'' [''traverse_root''] 0 g) (\<lambda>g.
     rbind (dfg_addNode_pre ''systolic'' ''Nop'' [''ld_ngh''] g) (\<lambda>g.
     rbind (dfg_addNode_pre ''active'' ''Relu'' [''systolic''] g) (\<lambda>g.
     rbind (completeConnect g) (\<lambda>g.
     rbind (addNodes2CtrlTree ''loop_i'' [''begin'', ''end'', ''i'', ''i_lc'', ''traverse_root'', ''ld_ngh'', ''systolic'', ''active'']
         (removeRedundantConnect g))
       (setTheTailNode ''loop_i'' ''active'')))))))))))))"

definition gcn_chanGraph :: "config \<Rightarrow> chan_node graph res option" where
  "gcn_chanGraph c = (case rbind generateDfg genChanGraphFromDfg of Inl e \<Rightarrow> Some (Inl e)
     | Inr g \<Rightarrow> map_option (\<lambda>r. rbind r (\<lambda>g. Inr (addNodeDelay c g))) (addSpecialModeChan g))"

definition gcn_modules :: "config \<Rightarrow> string list \<Rightarrow> memSystem \<Rightarrow> registry res option" where
  "gcn_modules c ord ms = (case gcn_chanGraph c of None \<Rightarrow> None | Some (Inl e) \<Rightarrow> Some (Inl e)
     | Some (Inr g) \<Rightarrow> map_option (\<lambda>r. rbind r (\<lambda>r. rbind (genConnect g r) setChanSize)) (genModule g ord (registry_new ms)))"

end
