(* ===== verification/GcnDriver.thy ===== *)
theory GcnDriver
  imports GcnGraph TraceFile Watchdog Profiler
begin

text \<open>
  The simulation loop of the benchmark that \<open>main\<close> runs (\<open>test/gcn/gcn_base_trace_systolic.cpp\<close> with the functions of
  \<open>test/gcn/gcn.cpp\<close>): a trace of addresses from a file is injected into the network of \<open>GcnGraph\<close>. One iteration
  composes the watchdog, the clock, the loop control, the channels, the load/store unit, the memory system and the
  profiler. What the program prints during the run is left aside.
\<close>

section \<open>State\<close>

record handles =
  h_begin :: nat
  h_lc :: nat
  h_i_lc :: nat
  h_end :: nat
  h_root :: nat
  h_lse :: nat
  h_systolic :: nat
  h_active :: nat

record 'm gcn =
  g_clk :: clkDomain
  g_reg :: registry
  g_dram :: 'm
  g_watchdog :: watchdog
  g_profiler :: profiler
  g_sched :: scheduler
  lc_var :: i32
  featTrace :: "u64 list"
  delay_q :: "u64 list"
  line_no :: nat
  file_read_complete :: bool
  buffer_access_cnt :: nat

text \<open>What the run is given: the parameters, the text of the trace, the length of a feature, the name of the
  simulated architecture, and the memory.\<close>

record 'm setting =
  conf :: config
  trace_text :: "string option"
  block_size :: nat
  feat_length :: u64
  arch_name :: string
  dram_of :: "'m dram"

section \<open>The trace\<close>

text \<open>The length of a feature is a static variable, which an unknown data set leaves 0.\<close>

definition generateData :: "string \<Rightarrow> u64" where
  "generateData dataset = (if dataset = ''cora'' then 1433 else if dataset = ''citeseer'' then 3703
     else if dataset = ''ogbn_arxiv'' then 128 else if dataset = ''ogbn_mag'' then 128
     else if dataset = ''pubmed'' then 500 else if dataset = ''amazon_comp'' then 767 else 0)"

text \<open>Reading a block: its third column are the nodes whose features are loaded, its second the delays.\<close>

definition read_trace :: "'m setting \<Rightarrow> 'm gcn \<Rightarrow> 'm gcn res" where
  "read_trace e s = rbind (readFileByColumn_blocked (trace_text e) (block_size e) (replicate 5 [], line_no s)) (\<lambda>(ended, cols, i).
     Inr (s\<lparr>file_read_complete := ended, line_no := i, delay_q := delay_q s @ cols ! 1,
       featTrace := featTrace s @ map (\<lambda>n. n * feat_length e) (cols ! 2)\<rparr>))"

definition refill :: "'m setting \<Rightarrow> 'm gcn \<Rightarrow> 'm gcn res" where
  "refill e s = (if featTrace s = [] \<and> \<not> file_read_complete s then read_trace e s else Inr s)"

text \<open>The address is assigned to a variable of type \<open>int\<close>.\<close>

definition injectMemTrace :: "nat \<Rightarrow> nat \<Rightarrow> heap \<times> u64 list \<Rightarrow> (heap \<times> u64 list) res" where
  "injectMemTrace p q = (\<lambda>(h, addr_q). rbind (deref h p) (\<lambda>c. rbind (deref h q) (\<lambda>d. rbind (rnth (bp d) 0) (\<lambda>full.
     if \<not> full \<and> ch_valid c
     then (case addr_q of [] \<Rightarrow> Inr (h, []) | a # as \<Rightarrow> Inr (h[p := c\<lparr>ch_value := ucast a\<rparr>], as))
     else Inr (h, addr_q)))))"

text \<open>\<open>deg_th\<close> is a static variable that is never set, so it is 0.\<close>

definition bindDelay :: "string \<Rightarrow> nat \<Rightarrow> nat \<Rightarrow> heap \<times> u64 list \<times> nat \<Rightarrow> (heap \<times> u64 list \<times> nat) res" where
  "bindDelay arch p q = (\<lambda>(h, ds, n). rbind (deref h p) (\<lambda>c. rbind (deref h q) (\<lambda>d. rbind (rnth (bp d) 0) (\<lambda>full.
     if \<not> full \<and> ch_valid c
     then (case ds of [] \<Rightarrow> Inr (h, [], n) | x # xs \<Rightarrow>
       let slow = h[q := d\<lparr>ch_cycle := ch_cycle d + x\<rparr>] in
       if arch = ''awb-gcn'' then Inr (h, xs, n + 1)
       else if arch = ''delta_gnn_opt'' then if 0 < x then Inr (h, xs, n + 1) else Inr (slow, xs, n)
       else Inr (slow, xs, n + 1))
     else Inr (h, ds, n)))))"

text \<open>The program names the architecture with dashes, so the case for it is never taken.\<close>

lemma bindDelay_dashes: "bindDelay ''delta-gnn-opt'' = bindDelay ''hygcn''"
proof -
  have "(''delta-gnn-opt'' = ''awb-gcn'') = False" "(''delta-gnn-opt'' = ''delta_gnn_opt'') = False"
    "(''hygcn'' = ''awb-gcn'') = False" "(''hygcn'' = ''delta_gnn_opt'') = False" by simp_all
  then show ?thesis by (intro ext) (simp only: bindDelay_def if_False)
qed

section \<open>The modules in an iteration\<close>

definition on_chans :: "(clkDomain \<times> heap \<Rightarrow> (clkDomain \<times> heap) res) \<Rightarrow> 'm gcn \<Rightarrow> 'm gcn res" where
  "on_chans f s = rbind (f (g_clk s, r_chans (g_reg s))) (\<lambda>(k, h). Inr (s\<lparr>g_clk := k, g_reg := (g_reg s)\<lparr>r_chans := h\<rparr>\<rparr>))"

definition set_value :: "nat \<Rightarrow> i32 \<Rightarrow> clkDomain \<times> heap \<Rightarrow> (clkDomain \<times> heap) res" where
  "set_value p v = (\<lambda>(k, h). rbind (modify p (\<lambda>c. Inr (c\<lparr>ch_value := v\<rparr>)) h) (\<lambda>h. Inr (k, h)))"

text \<open>\<open>c->get(); c->value = c->assign(0)\<close>\<close>

definition chan_cycle :: "config \<Rightarrow> nat \<Rightarrow> clkDomain \<times> heap \<Rightarrow> (clkDomain \<times> heap) res" where
  "chan_cycle g p ks = rbind (get g p ks) (\<lambda>(k, h). rbind (modify p (\<lambda>c. rbind (assign 0 c) (\<lambda>v. Inr (c\<lparr>ch_value := v\<rparr>))) h) (\<lambda>h. Inr (k, h)))"

definition lc_cycle :: "config \<Rightarrow> nat \<Rightarrow> 'm gcn \<Rightarrow> 'm gcn res" where
  "lc_cycle g i s = rbind (deref (r_lcs (g_reg s)) i) (\<lambda>l. rbind (deref (r_muxes (g_reg s)) (lc_mux l)) (\<lambda>m.
     let v = mux_value (lc_var s) 0 (lc_sel l) in
     rbind (muxUpdate g (lc_sel l) m (g_clk s, r_chans (g_reg s))) (\<lambda>(m, ks).
     rbind (set_value (outChan m) v ks) (\<lambda>ks. rbind (get g (loopVar l) ks) (\<lambda>(k, h).
     rbind (deref h (loopVar l)) (\<lambda>c. rbind (assign_chan (outChan m) c) (\<lambda>v. rbind (set_value (loopVar l) v (k, h)) (\<lambda>ks.
     let ms = (r_muxes (g_reg s))[lc_mux l := m] in
     rbind (lcUpdate g (v <s 1) ms l ks) (\<lambda>(l, k, h).
       Inr (s\<lparr>lc_var := v, g_clk := k, g_reg := (g_reg s)\<lparr>r_chans := h, r_muxes := ms, r_lcs := (r_lcs (g_reg s))[i := l]\<rparr>\<rparr>))))))))))"

text \<open>The memory system sees the load/store units of the heap; of the other channels it sees nothing.\<close>

definition ports_of :: "heap \<Rightarrow> ports" where
  "ports_of h = map (\<lambda>c. (currId c, case sub c of ChanLse l \<Rightarrow> l | _ \<Rightarrow> lse_new 0 0 False 0)) h"

definition put_ports :: "ports \<Rightarrow> heap \<Rightarrow> heap" where
  "put_ports ps h = map2 (\<lambda>p c. case sub c of ChanLse _ \<Rightarrow> c\<lparr>sub := ChanLse (snd p)\<rparr> | _ \<Rightarrow> c) ps h"

definition memory_cycle :: "config \<Rightarrow> 'm dram \<Rightarrow> 'm gcn \<Rightarrow> 'm gcn res" where
  "memory_cycle g d s = rbind (memSystemUpdate g (g_clk s) d (memSys (g_reg s), ports_of (r_chans (g_reg s)), g_dram s)) (\<lambda>(ms, ps, m).
     Inr (s\<lparr>g_dram := m, g_reg := (g_reg s)\<lparr>memSys := ms, r_chans := put_ports ps (r_chans (g_reg s))\<rparr>\<rparr>))"

definition profiler_cycle :: "'m gcn \<Rightarrow> 'm gcn res" where
  "profiler_cycle s = rbind (updateBufferMaxDataNum (g_reg s) (g_profiler s)) (\<lambda>w.
     rbind (updateChanUtilization (g_clk s) (currSubgraphId (g_sched s)) (g_reg s) w) (\<lambda>(r, w). Inr (s\<lparr>g_reg := r, g_profiler := w\<rparr>)))"

definition inject :: "handles \<Rightarrow> 'm gcn \<Rightarrow> 'm gcn res" where
  "inject hs s = rbind (injectMemTrace (h_root hs) (h_lse hs) (r_chans (g_reg s), featTrace s)) (\<lambda>(h, q).
     Inr (s\<lparr>g_reg := (g_reg s)\<lparr>r_chans := h\<rparr>, featTrace := q\<rparr>))"

definition bind_delay :: "string \<Rightarrow> handles \<Rightarrow> 'm gcn \<Rightarrow> 'm gcn res" where
  "bind_delay arch hs s = rbind (bindDelay arch (h_lse hs) (h_systolic hs) (r_chans (g_reg s), delay_q s, buffer_access_cnt s)) (\<lambda>(h, q, n).
     Inr (s\<lparr>g_reg := (g_reg s)\<lparr>r_chans := h\<rparr>, delay_q := q, buffer_access_cnt := n\<rparr>))"

text \<open>The cycle of the array of processing elements takes 128 clock cycles.\<close>

definition systolic_cycle :: u64 where
  "systolic_cycle = 128"

definition set_chan :: "nat \<Rightarrow> (chan \<Rightarrow> chan) \<Rightarrow> 'm gcn \<Rightarrow> 'm gcn res" where
  "set_chan p f = on_chans (\<lambda>(k, h). rbind (modify p (\<lambda>c. Inr (f c)) h) (\<lambda>h. Inr (k, h)))"

fun chain :: "('s \<Rightarrow> 's res) list \<Rightarrow> 's \<Rightarrow> 's res" where
  "chain [] s = Inr s"
| "chain (f # fs) s = rbind (f s) (chain fs)"

text \<open>One iteration; the result says whether the run ends with it.\<close>

definition gcn_iteration :: "'m setting \<Rightarrow> handles \<Rightarrow> nat \<Rightarrow> 'm gcn \<Rightarrow> (bool \<times> 'm gcn) res" where
  "gcn_iteration e hs iter s = (let g = conf e in rbind (chain
     [\<lambda>s. rbind (feedDog iter (r_chans (g_reg s)) (g_watchdog s)) (\<lambda>(w, _). Inr (s\<lparr>g_watchdog := w\<rparr>)),
      \<lambda>s. Inr (s\<lparr>g_clk := clkUpdate (g_clk s)\<rparr>),
      lc_cycle g (h_lc hs),
      set_chan (h_begin hs) (\<lambda>c. c\<lparr>ch_valid := False\<rparr>),
      on_chans (chan_cycle g (h_i_lc hs)),
      on_chans (chan_cycle g (h_root hs)),
      inject hs,
      on_chans (get g (h_lse hs)), set_chan (h_lse hs) (\<lambda>c. c\<lparr>ch_value := ch_value c + 1\<rparr>),
      bind_delay (arch_name e) hs,
      on_chans (chan_cycle g (h_systolic hs)), set_chan (h_systolic hs) (\<lambda>c. c\<lparr>ch_cycle := systolic_cycle\<rparr>),
      on_chans (chan_cycle g (h_active hs)),
      refill e,
      memory_cycle g (dram_of e),
      profiler_cycle,
      on_chans (get g (h_end hs)),
      \<lambda>s. if featTrace s = [] \<and> delay_q s = [] then set_chan (h_end hs) (\<lambda>c. c\<lparr>channel := channel c @ [data0]\<rparr>) s else Inr s] s)
     (\<lambda>s. rbind (deref (r_chans (g_reg s)) (h_end hs)) (\<lambda>c. Inr (channel c \<noteq> [], s))))"

text \<open>The run, with the number of iterations; it need not end.\<close>

partial_function (option) gcn_loop :: "'m setting \<Rightarrow> handles \<Rightarrow> nat \<Rightarrow> 'm gcn \<Rightarrow> (nat \<times> 'm gcn) res option" where
  [code]: "gcn_loop e hs iter s = (case gcn_iteration e hs iter s of Inl x \<Rightarrow> Some (Inl x)
     | Inr (over, s) \<Rightarrow> if over then Some (Inr (iter, s)) else gcn_loop e hs (iter + 1) s)"

section \<open>The start\<close>

definition handles_of :: "registry \<Rightarrow> (handles \<times> registry) res" where
  "handles_of r =
     rbind (rbind (getChan ''Chan_begin'' r) (\<lambda>(p, r). rbind (the_ptr p) (\<lambda>p. Inr (p, r)))) (\<lambda>(b, r).
     rbind (rbind (getLc ''Lc_i'' r) (\<lambda>(p, r). rbind (the_ptr p) (\<lambda>p. Inr (p, r)))) (\<lambda>(l, r).
     rbind (rbind (getChan ''Chan_i_lc'' r) (\<lambda>(p, r). rbind (the_ptr p) (\<lambda>p. Inr (p, r)))) (\<lambda>(i, r).
     rbind (rbind (getChan ''Chan_end'' r) (\<lambda>(p, r). rbind (the_ptr p) (\<lambda>p. Inr (p, r)))) (\<lambda>(n, r).
     rbind (rbind (getChan ''Chan_traverse_root'' r) (\<lambda>(p, r). rbind (the_ptr p) (\<lambda>p. Inr (p, r)))) (\<lambda>(t, r).
     rbind (getLse ''Lse_ld_ngh'' r) (\<lambda>(u, r).
     rbind (rbind (getChan ''Chan_systolic'' r) (\<lambda>(p, r). rbind (the_ptr p) (\<lambda>p. Inr (p, r)))) (\<lambda>(y, r).
     rbind (rbind (getChan ''Chan_active'' r) (\<lambda>(p, r). rbind (the_ptr p) (\<lambda>p. Inr (p, r)))) (\<lambda>(a, r).
       Inr (\<lparr>h_begin = b, h_lc = l, h_i_lc = i, h_end = n, h_root = t, h_lse = u, h_systolic = y, h_active = a\<rparr>, r)))))))))"

text \<open>The numbers of instances and the sizes of the queues that the program sets: \<open>sp\<close> and those of the array.\<close>

definition tune :: "nat \<Rightarrow> handles \<Rightarrow> heap \<Rightarrow> heap res" where
  "tune sp hs = chain
     [modify (h_i_lc hs) (\<lambda>c. Inr (c\<lparr>speedup := sp\<rparr>)),
      modify (h_root hs) (\<lambda>c. Inr (c\<lparr>speedup := sp\<rparr>)),
      modify (h_lse hs) (\<lambda>c. Inr (case sub c of
        ChanLse l \<Rightarrow> c\<lparr>speedup := sp, sub := ChanLse (l\<lparr>suspendReqVec := resize sp (False, memReq0) (suspendReqVec l)\<rparr>)\<rparr> | _ \<Rightarrow> c)),
      modify (h_systolic hs) (\<lambda>c. Inr (c\<lparr>speedup := sp\<rparr>)),
      modify (h_active hs) (\<lambda>c. Inr (c\<lparr>speedup := sp\<rparr>)),
      modify (h_root hs) (\<lambda>c. Inr (c\<lparr>ch_size := 32\<rparr>)),
      modify (h_lse hs) (\<lambda>c. Inr (c\<lparr>ch_size := 128 * 32\<rparr>)),
      modify (h_systolic hs) (\<lambda>c. Inr (c\<lparr>ch_size := 128 * 32\<rparr>)),
      modify (h_active hs) (\<lambda>c. Inr (c\<lparr>ch_size := 32 * 4\<rparr>))]"

definition gcn_start :: "'m setting \<Rightarrow> nat \<Rightarrow> registry \<Rightarrow> clkDomain \<Rightarrow> 'm \<Rightarrow> (handles \<times> 'm gcn) res" where
  "gcn_start e sp r k m =
     rbind (configGraphScheduler r scheduler_new) (\<lambda>(r, sc). rbind (handles_of r) (\<lambda>(hs, r).
     rbind (on_heap (tune sp hs) r) (\<lambda>r. rbind (registry_init r) (\<lambda>r.
     rbind (schedulerInit sc (r_chans r)) (\<lambda>(sc, h). rbind (deref (r_lcs r) (h_lc hs)) (\<lambda>l.
     rbind (get_data (conf e) [1] (h_begin hs) (k, h)) (\<lambda>(k, h).
     rbind (read_trace e \<lparr>g_clk = k, g_reg = r\<lparr>r_chans := h\<rparr>, g_dram = m,
         g_watchdog = addCheckPointChan [getEnd l] (watchdog_new (2 ^ 7) 50000000),
         g_profiler = profiler_init r profiler_new, g_sched = sc, lc_var = 0, featTrace = [], delay_q = [], line_no = 0,
         file_read_complete = False, buffer_access_cnt = 0\<rparr>) (\<lambda>s. Inr (hs, s)))))))))"

end
