(* ===== verification/UnitCalls.thy ===== *)
theory UnitCalls
  imports Frames
begin

text \<open>
  A load/store unit behind a channel: what one call of \<open>get\<close> of each does to the pair. The channel announces its
  datum only when the unit has room for it; the unit takes the value announced into its buffer, moves the front of the
  buffer to its queue, and delivers from the front of its channel.
\<close>

section \<open>What calls leave alone\<close>

definition fixed :: "chan \<Rightarrow> bool \<times> bool \<times> bool \<times> bool \<times> nat list \<times> nat list" where
  "fixed c = (keepMode c, drainMode c, noUpstream c, noDownstream c, upstream c, downstream c)"

definition stays :: "chan \<Rightarrow> chan \<Rightarrow> bool" where
  "stays c c' \<longleftrightarrow> fixed c' = fixed c \<and> sub c' = sub c"

lemma stays_refl [simp]: "stays c c"
  and stays_trans: "stays c c' \<Longrightarrow> stays c' c'' \<Longrightarrow> stays c c''"
  by (simp_all add: stays_def)

lemma stays_tags: "stays c (c\<lparr>lastTagQueue := t\<rparr>)"
  by (simp add: stays_def fixed_def)

definition own :: "nat \<Rightarrow> heap \<Rightarrow> heap \<Rightarrow> bool" where
  "own p h h' \<longleftrightarrow> length h' = length h \<and> (p < length h \<longrightarrow> stays (h ! p) (h' ! p))"

named_theorems owns \<open>operations that keep the wiring and the class of their channel\<close>

lemma own_refl [simp]: "own p h h"
  and own_trans: "own p h h' \<Longrightarrow> own p h' h'' \<Longrightarrow> own p h h''"
  by (auto simp: own_def intro: stays_trans)

lemma own_update: "stays (h ! p) c \<Longrightarrow> own p h (h[p := c])"
  by (auto simp: own_def nth_list_update)

lemma own_modify:
  assumes "modify p f h = Inr h'" "\<And>c c'. f c = Inr c' \<Longrightarrow> stays c c'"
  shows "own p h h'"
  using assms by (auto simp: modify_Inr intro!: own_update)

lemma own_tags [owns]: "sendLastTag p h = Inr h' \<Longrightarrow> own p h h'"
proof -
  assume "sendLastTag p h = Inr h'"
  then have s: "same_but_tags h h'" by (rule sendLastTag_same)
  then have "length h' = length h" by (metis same_but_tags_def length_map)
  moreover have "stays (h ! p) (h' ! p)" if "p < length h"
    using same_but_tags_nth(2) [OF s that] stays_tags by metis
  ultimately show ?thesis by (simp add: own_def)
qed

lemma own_rfold:
  assumes "rfold f xs h = Inr h'" "\<And>x h h'. f x h = Inr h' \<Longrightarrow> own p h h'"
  shows "own p h h'"
  using assms(1) by (rule rfold_partial [where P = "own p h"]) (auto intro: own_trans assms(2))

section \<open>A channel of class ChanBase\<close>

lemma own_store [owns]: "modify p (store b d) h = Inr h' \<Longrightarrow> own p h h'"
  by (erule own_modify) (auto simp: store_def rbind_Inr_iff stays_def fixed_def)

lemma own_setGetLast [owns]: "modify p (setGetLast b) h = Inr h' \<Longrightarrow> own p h h'"
  by (erule own_modify) (auto simp: setGetLast_def stays_def fixed_def)

lemma own_bpUpdate [owns]: "modify p (\<lambda>c. Inr (bpUpdate c)) h = Inr h' \<Longrightarrow> own p h h'"
  by (erule own_modify)
    (auto simp: bpUpdate_def base_bpUpdate_def dgsf_bpUpdate_def stays_def fixed_def split: subobject.split)

lemma own_pushBuffer [owns]: "pushBuffer now p v b h = Inr h' \<Longrightarrow> own p h h'"
  unfolding pushBuffer_def
  by (auto simp: rbind_Inr_iff Let_def split: if_splits dest!: owns intro: own_trans)

lemma own_push [owns]: "push now p v b h = Inr h' \<Longrightarrow> own p h h'"
  unfolding push_def base_push_def dgsf_push_def dgsf_pushBuffer_def
  by (cases "sub (h ! p)") (auto simp: rbind_Inr_iff deref_Inr_iff split: if_splits dest!: owns intro: own_trans)

lemma stays_base_pop:
  assumes "base_popChannel r l c = Inr c'"
  shows "stays c c'"
proof (cases "pop_now r l c")
  case True
  with assms obtain ch c1 where c1: "rfold popBuffer [0..<length (chanBuffer c)] (c\<lparr>channel := ch\<rparr>) = Inr c1" "popLastTags c1 = Inr c'"
    by (auto simp: base_popChannel_def rbind_Inr_iff)
  have "stays (c\<lparr>channel := ch\<rparr>) c1"
    using c1(1) by (rule rfold_partial) (auto simp: popBuffer_def rbind_Inr_iff stays_def fixed_def)
  moreover have "stays c1 c'" using c1(2) by (auto simp: popLastTags_def rbind_Inr_iff stays_def fixed_def split: if_splits)
  ultimately show ?thesis by (auto simp: stays_def fixed_def)
next
  case False
  with assms show ?thesis by (simp add: base_popChannel_def)
qed

text \<open>The status of a channel with one consumer: the datum is announced only when the consumer has room.\<close>

lemma base_statusUpdate_announces:
  assumes "base_statusUpdate now p h = Inr h'" "sub (h ! p) = ChanBase"
  shows "own p h h'"
    "downstream (h ! p) = [q] \<Longrightarrow> q \<noteq> p \<Longrightarrow> \<not> keepMode (h ! p) \<Longrightarrow> \<not> noDownstream (h ! p) \<Longrightarrow> upstream (h ! q) = [p] \<Longrightarrow>
      (\<forall>x y z. sub (h ! q) \<noteq> ChanSGMF x y z) \<Longrightarrow> ch_valid (h' ! p) \<Longrightarrow> \<not> bp (h ! q) ! 0"
proof -
  obtain c where p: "p < length h" and c: "base_fill now h (h ! p) = Inr c" "base_announce now p h c = Inr h'"
    using assms(1) by (auto simp: base_statusUpdate_def rbind_Inr_iff deref_Inr_iff)
  have s: "stays (h ! p) c"
    using c(1) by (auto simp: base_fill_def base_pushChannel_def rbind_Inr_iff stays_def fixed_def split: if_splits)
  define v where "v = (if channel c = [] \<or> \<not> enable c then Inr False
            else if \<not> noDownstream c \<and> \<not> keepMode c
            then sendable (h[p := c\<lparr>ch_valid := True\<rparr>]) (downstream c) (hd (channel c)) p else Inr True)"
  have "rbind v (\<lambda>b. Inr (h[p := (if b then c\<lparr>ch_valid := b, channel := (channel c)[0 := (hd (channel c))\<lparr>d_cycle := now\<rparr>],
                     chanDataCnt := chanDataCnt c + 1\<rparr> else c\<lparr>ch_valid := b\<rparr>)])) = Inr h'"
    unfolding c(2) [symmetric] base_announce_def Let_def v_def by (intro rbind_cong) simp_all
  then obtain b where "v = Inr b" "h' = h[p := (if b then c\<lparr>ch_valid := b, channel := (channel c)[0 := (hd (channel c))\<lparr>d_cycle := now\<rparr>],
                     chanDataCnt := chanDataCnt c + 1\<rparr> else c\<lparr>ch_valid := b\<rparr>)]"
    unfolding rbind_Inr_iff by auto
  with p have b: "v = Inr b" "ch_valid (h' ! p) \<longleftrightarrow> b" "stays c (h' ! p)" "length h' = length h"
    by (auto simp: stays_def fixed_def)
  show "own p h h'" using b(3,4) s by (auto simp: own_def intro: stays_trans)
  assume q: "downstream (h ! p) = [q]" "q \<noteq> p" "\<not> keepMode (h ! p)" "\<not> noDownstream (h ! p)" "upstream (h ! q) = [p]"
    "\<forall>x y z. sub (h ! q) \<noteq> ChanSGMF x y z" "ch_valid (h' ! p)"
  with s have "downstream c = [q]" "\<not> keepMode c" "\<not> noDownstream c" by (simp_all add: stays_def fixed_def)
  with b q(2,7) have "checkSend (h[p := c\<lparr>ch_valid := True\<rparr>]) q (hd (channel c)) p = Inr True"
    unfolding v_def by (auto simp: rbind_Inr_iff split: if_splits)
  then show "\<not> bp (h ! q) ! 0"
    using q(2,5,6) unfolding checkSend_def base_checkSend_def getChanId_def
    by (cases "sub (h ! q)") (auto simp: rbind_Inr_iff deref_Inr_iff)
qed

text \<open>A channel \<open>p\<close> whose only consumer is the unit \<open>q\<close>, which has no other input.\<close>

definition feeds_unit :: "nat \<Rightarrow> nat \<Rightarrow> heap \<Rightarrow> bool" where
  "feeds_unit p q h \<longleftrightarrow> p < length h \<and> q < length h \<and> p \<noteq> q \<and> sub (h ! p) = ChanBase \<and> \<not> keepMode (h ! p) \<and> \<not> noDownstream (h ! p)
     \<and> downstream (h ! p) = [q] \<and> (case sub (h ! q) of ChanLse _ \<Rightarrow> True | _ \<Rightarrow> False) \<and> upstream (h ! q) = [p]
     \<and> \<not> noUpstream (h ! q) \<and> \<not> drainMode (h ! q) \<and> length (chanBuffer (h ! q)) = 1"

lemma feedsD:
  assumes "feeds_unit p q h"
  shows "p < length h" "q < length h" "p \<noteq> q" "sub (h ! p) = ChanBase" "\<not> keepMode (h ! p)" "\<not> noDownstream (h ! p)"
    "downstream (h ! p) = [q]" "\<exists>l. sub (h ! q) = ChanLse l" "upstream (h ! q) = [p]" "\<not> noUpstream (h ! q)" "\<not> drainMode (h ! q)"
    "\<exists>B. chanBuffer (h ! q) = [B]"
  using assms unfolding feeds_unit_def by (cases "sub (h ! q)"; auto simp: length_Suc_conv)+

lemma feeds_cong:
  assumes "feeds_unit p q h" "length h' = length h" "stays (h ! p) (h' ! p)" "fixed (h' ! q) = fixed (h ! q)"
    "\<exists>l. sub (h' ! q) = ChanLse l" "length (chanBuffer (h' ! q)) = 1"
  shows "feeds_unit p q h'"
  using assms unfolding feeds_unit_def stays_def by (auto simp: fixed_def)

text \<open>The first step of a call.\<close>

lemma parallelize_stays: "parallelize c k = (c', k') \<Longrightarrow> stays c c' \<and> channel c' = channel c \<and> chanBuffer c' = chanBuffer c
    \<and> ch_valid c' = ch_valid c \<and> ch_value c' = ch_value c"
  by (auto simp: parallelize_def Let_def stays_def fixed_def split: if_splits)

lemma get_steps:
  assumes "get g p (k, h) = Inr (k', h')" "\<nexists>x y z. sub (h ! p) = ChanSGMF x y z"
  obtains c kk h1 h2 where "p < length h" "stays (h ! p) c" "channel c = channel (h ! p)" "chanBuffer c = chanBuffer (h ! p)"
    "ch_valid c = ch_valid (h ! p)" "modify p (pop (h[p := c])) (h[p := c]) = Inr h1" "push_all (clk kk) p h1 = Inr h2"
    "refresh g True kk p h2 = Inr h'"
proof -
  obtain c kk where ck: "(if 1 < speedup (h ! p) then parallelize (h ! p) k else (h ! p, k)) = (c, kk)" by fastforce
  then have "stays (h ! p) c \<and> channel c = channel (h ! p) \<and> chanBuffer c = chanBuffer (h ! p) \<and> ch_valid c = ch_valid (h ! p)"
    using parallelize_stays by (auto split: if_splits)
  moreover obtain h1 h2 where "p < length h" "modify p (pop (h[p := c])) (h[p := c]) = Inr h1" "push_all (clk kk) p h1 = Inr h2"
      "refresh g True kk p h2 = Inr h'"
    using assms unfolding get_def prod.case
    by (cases "sub (h ! p)") (auto simp: rbind_Inr_iff deref_Inr_iff ck [simplified] Let_def)
  ultimately show ?thesis using that by blast
qed

lemma refresh_steps:
  assumes "refresh g b k p h = Inr h'"
  obtains h1 where "p < length h" "statusUpdate g (clk k) p h = Inr h1 \<or> (\<exists>c. h1 = h[p := c] \<and> stays (h ! p) c
      \<and> channel c = channel (h ! p) \<and> chanBuffer c = chanBuffer (h ! p) \<and> \<not> ch_valid c)"
    "h' = h1[p := bpUpdate (h1 ! p)]" "p < length h1"
proof -
  obtain h1 where h1: "p < length h" "modify p (\<lambda>c. Inr (bpUpdate c)) h1 = Inr h'"
    "statusUpdate g (clk k) p h = Inr h1 \<or> h1 = h[p := (h ! p)\<lparr>ch_valid := False, pushChannelSuccess := False\<rparr>]
       \<or> h1 = h[p := (h ! p)\<lparr>ch_valid := False\<rparr>]"
    using assms unfolding refresh_def by (auto simp: rbind_Inr_iff deref_Inr_iff split: if_splits)
  have quiet: "stays c (c\<lparr>ch_valid := False, pushChannelSuccess := False\<rparr>)" "stays c (c\<lparr>ch_valid := False\<rparr>)"
    "channel (c\<lparr>ch_valid := False, pushChannelSuccess := False\<rparr>) = channel c" "channel (c\<lparr>ch_valid := False\<rparr>) = channel c"
    "chanBuffer (c\<lparr>ch_valid := False, pushChannelSuccess := False\<rparr>) = chanBuffer c" "chanBuffer (c\<lparr>ch_valid := False\<rparr>) = chanBuffer c"
    "\<not> ch_valid (c\<lparr>ch_valid := False, pushChannelSuccess := False\<rparr>)" "\<not> ch_valid (c\<lparr>ch_valid := False\<rparr>)" for c
    by (simp_all add: stays_def fixed_def)
  show ?thesis
  proof (rule that [of h1])
    show "statusUpdate g (clk k) p h = Inr h1 \<or> (\<exists>c. h1 = h[p := c] \<and> stays (h ! p) c
      \<and> channel c = channel (h ! p) \<and> chanBuffer c = chanBuffer (h ! p) \<and> \<not> ch_valid c)"
      using h1(3) quiet by blast
  qed (use h1 in \<open>auto simp: modify_Inr\<close>)
qed

lemma bpUpdate_keeps: "stays c (bpUpdate c) \<and> channel (bpUpdate c) = channel c \<and> chanBuffer (bpUpdate c) = chanBuffer c
    \<and> ch_valid (bpUpdate c) = ch_valid c"
  by (auto simp: bpUpdate_def base_bpUpdate_def dgsf_bpUpdate_def stays_def fixed_def split: subobject.split)

lemma base_get:
  assumes get: "get g p (k, h) = Inr (k', h')" and f: "feeds_unit p q h"
  shows "feeds_unit p q h'" "ch_valid (h' ! p) \<Longrightarrow> \<not> bp (h' ! q) ! 0" "\<exists>t. h' ! q = (h ! q)\<lparr>lastTagQueue := t\<rparr>"
proof -
  note F = feedsD [OF f]
  obtain c kk h1 h2 where c: "stays (h ! p) c"
    and h: "modify p (pop (h[p := c])) (h[p := c]) = Inr h1" "push_all (clk kk) p h1 = Inr h2" "refresh g True kk p h2 = Inr h'"
    using get_steps [OF get] F(4) by (metis subobject.distinct(3))
  have c': "sub c = ChanBase" using c F(4) by (simp add: stays_def)
  have "own p (h[p := c]) h1"
    using h(1) F(1) c' by (auto simp: modify_Inr pop_def base_pop_def popChannel_def own_def dest!: stays_base_pop)
  then have o1: "own p h h1" using c F(1) by (metis own_trans own_update)
  then have "sub (h1 ! p) = ChanBase" using F(1,4) by (simp add: own_def stays_def)
  then have "own p h1 h2"
    using h(2) unfolding push_all_def
    by (auto simp: rbind_Inr_iff deref_Inr_iff dest!: owns elim!: own_rfold)
  with o1 have o2: "own p h h2" by (rule own_trans)
  have fr: "frame {p} h h2" using h(1,2) by (metis frame_modify frame_push_all frame_trans frame_update_iff(1))
  have q2: "h2 ! q = (h ! q)\<lparr>lastTagQueue := lastTagQueue (h2 ! q)\<rparr>" using frameD [OF fr] F(2,3) by simp
  have q': "h' ! q = (h ! q)\<lparr>lastTagQueue := lastTagQueue (h' ! q)\<rparr>" using frameD [OF frame_get [OF get]] F(2,3) by simp
  then show "\<exists>t. h' ! q = (h ! q)\<lparr>lastTagQueue := t\<rparr>" by blast
  have p2: "sub (h2 ! p) = ChanBase" "downstream (h2 ! p) = [q]" "\<not> keepMode (h2 ! p)" "\<not> noDownstream (h2 ! p)"
    using o2 F by (simp_all add: own_def stays_def fixed_def)
  have q2': "upstream (h2 ! q) = [p]" "\<forall>x y z. sub (h2 ! q) \<noteq> ChanSGMF x y z" "bp (h2 ! q) = bp (h' ! q)"
    using F(8,9) arg_cong [OF q2, of upstream] arg_cong [OF q2, of sub] arg_cong [OF q2, of bp] arg_cong [OF q', of bp] by auto
  obtain h3 where h3: "statusUpdate g (clk kk) p h2 = Inr h3 \<or> (\<exists>c. h3 = h2[p := c] \<and> stays (h2 ! p) c \<and> \<not> ch_valid c)"
    "h' = h3[p := bpUpdate (h3 ! p)]" "p < length h3" "p < length h2"
    using refresh_steps [OF h(3)] by metis
  have st: "statusUpdate g (clk kk) p h2 = base_statusUpdate (clk kk) p h2"
    using p2(1) h3(4) by (simp add: statusUpdate_def)
  have val: "ch_valid (h' ! p) = ch_valid (h3 ! p)" using h3(2,3) bpUpdate_keeps by simp
  show "\<not> bp (h' ! q) ! 0" if "ch_valid (h' ! p)"
  proof -
    have "base_statusUpdate (clk kk) p h2 = Inr h3" using h3 that st val by auto
    from base_statusUpdate_announces(2) [OF this p2(1,2) F(3) [symmetric] p2(3,4) q2'(1,2)] that val q2'(3)
    show ?thesis by simp
  qed
  have "own p h2 h3" using h3(1) st base_statusUpdate_announces(1) [OF _ p2(1)] by (auto intro: own_update)
  moreover have "own p h3 h'" unfolding h3(2) by (rule own_update) (use bpUpdate_keeps in blast)
  ultimately have "own p h h'" using o2 own_trans by blast
  moreover obtain t where "h' ! q = (h ! q)\<lparr>lastTagQueue := t\<rparr>" using q' by blast
  ultimately show "feeds_unit p q h'"
    by (intro feeds_cong [OF f]) (use F in \<open>auto simp: own_def fixed_def\<close>)
qed

section \<open>The unit\<close>

text \<open>What a step of the unit does with its buffer and the number of requests it has made.\<close>

definition takes_step :: "chan \<Rightarrow> chan \<Rightarrow> bool" where
  "takes_step c c' \<longleftrightarrow> fixed c' = fixed c \<and> (\<exists>l. sub c' = ChanLse l)
     \<and> (if orderId (lse_of (sub c')) = orderId (lse_of (sub c)) then chanBuffer c' = chanBuffer c
        else chanBuffer c' = map tl (chanBuffer c) \<and> [] \<notin> set (chanBuffer c))"

lemma takes_step_cong:
  "fixed d = fixed c \<Longrightarrow> chanBuffer d = chanBuffer c \<Longrightarrow> orderId (lse_of (sub d)) = orderId (lse_of (sub c)) \<Longrightarrow>
    takes_step d c' = takes_step c c'"
  by (simp add: takes_step_def)

lemma rmap_rpop: "rmap rpop qs = Inr ps \<Longrightarrow> map snd ps = map tl qs \<and> [] \<notin> set qs"
proof (induction qs arbitrary: ps)
  case (Cons q qs)
  then show ?case by (cases q) (auto simp: rbind_Inr_iff)
qed simp

lemma enqueue_step:
  assumes "enqueue g f d c = Inr c'" "sub c = ChanLse l"
  shows "takes_step c c'"
proof (cases "m_valid (fst (lse_reqQueue l ! pushQueuePtr l))")
  case True
  with assms show ?thesis by (auto simp: enqueue_def Let_def takes_step_def rbind_Inr_iff rnth_Inr_iff split: prod.splits)
next
  case False
  with assms obtain c1 l' where c1: "popChanBuffer c1 = Inr c'" "c1 = c\<lparr>sub := ChanLse l'\<rparr>" "orderId l' = orderId l + 1"
    unfolding enqueue_def Let_def by (cases "lse_reqQueue l ! pushQueuePtr l") (auto simp: rbind_Inr_iff rnth_Inr_iff split: if_splits)
  then obtain ps where "rmap rpop (chanBuffer c) = Inr ps" "c' = c1\<lparr>chanBuffer := map snd ps\<rparr>"
    by (auto simp: popChanBuffer_def rbind_Inr_iff)
  with c1 assms(2) rmap_rpop show ?thesis by (auto simp: takes_step_def fixed_def)
qed

lemma pushReqQ_step:
  assumes "pushReqQ g now q h = Inr h'" "sub (h ! q) = ChanLse l" "q < length h"
  shows "takes_step (h ! q) (h' ! q)" "length h' = length h"
proof -
  obtain f d h1 where h1: "(if d_last d then sendLastTag q h else Inr h) = Inr h1" "modify q (enqueue g f d) h1 = Inr h'"
    using assms(1) unfolding pushReqQ_def Let_def rbind_Inr_iff by blast
  then have "frame {} h h1" by (auto split: if_splits dest: frame_tags)
  then have q: "h1 ! q = (h ! q)\<lparr>lastTagQueue := lastTagQueue (h1 ! q)\<rparr>" "length h1 = length h"
    using assms(3) by (auto dest: frameD frame_length)
  obtain c' where c': "enqueue g f d (h1 ! q) = Inr c'" "h' = h1[q := c']" using h1(2) by (auto simp: modify_Inr)
  have "sub (h1 ! q) = ChanLse l" by (subst q(1)) (simp add: assms(2))
  from enqueue_step [OF c'(1) this] have "takes_step (h1 ! q) c'" .
  then have "takes_step ((h ! q)\<lparr>lastTagQueue := lastTagQueue (h1 ! q)\<rparr>) c'" using q(1) by simp
  moreover have "takes_step ((h ! q)\<lparr>lastTagQueue := t\<rparr>) c' = takes_step (h ! q) c'" for t
    by (rule takes_step_cong) (simp_all add: fixed_def)
  ultimately show "takes_step (h ! q) (h' ! q)" "length h' = length h" using c' q(2) assms(3) by simp_all
qed

lemma lse_pushChannel_step:
  assumes "lse_pushChannel g now c = Inr c'" "sub c = ChanLse l"
  shows "takes_step c c'" "orderId (lse_of (sub c')) = orderId (lse_of (sub c))"
proof -
  let ?c = "c\<lparr>pushChannelSuccess := False\<rparr>"
  have "c' = ?c \<or> (\<exists>r d n. c' = lse_send now ?c l r d n)"
    using assms by (auto simp: lse_pushChannel_def Let_def rbind_Inr_iff split: if_splits prod.splits)
  then show "takes_step c c'" "orderId (lse_of (sub c')) = orderId (lse_of (sub c))"
    using assms(2) by (auto simp: lse_send_def Let_def takes_step_def fixed_def)
qed

lemma lse_rest_step:
  assumes "lse_rest g now q h = Inr h'" "sub (h ! q) = ChanLse l" "q < length h"
  shows "takes_step (h ! q) (h' ! q)" "orderId (lse_of (sub (h' ! q))) = orderId l" "length h' = length h"
proof -
  obtain l1 c1 v n where c1: "lse_select g now (branchMode (h ! q)) (currId (h ! q)) l = Inr l1"
      "lse_pushChannel g now ((h ! q)\<lparr>ch_valid := True, sub := ChanLse l1\<rparr>) = Inr c1" "h' = h[q := c1\<lparr>ch_valid := v, chanDataCnt := n\<rparr>]"
    using assms unfolding lse_rest_def by (auto simp: rbind_Inr_iff modify_Inr)
  have "orderId l1 = orderId l" using same_order_select [OF c1(1)] by (simp add: same_order_def)
  with lse_pushChannel_step [OF c1(2)] c1(3) assms(2,3)
  show "takes_step (h ! q) (h' ! q)" "orderId (lse_of (sub (h' ! q))) = orderId l" "length h' = length h"
    by (simp_all add: takes_step_def fixed_def)
qed

lemma lse_statusUpdate_step:
  assumes "lse_statusUpdate g now q h = Inr h'" "sub (h ! q) = ChanLse l"
  shows "takes_step (h ! q) (h' ! q)"
proof -
  obtain h1 where h1: "q < length h" "pushReqQ g now q h = Inr h1 \<or> h1 = h" "lse_rest g now q h1 = Inr h'"
    using assms(1) by (rule lse_statusUpdate_halves)
  have u: "takes_step (h ! q) (h1 ! q) \<and> length h1 = length h"
    using h1(1,2) pushReqQ_step [OF _ assms(2)] assms(2) by (auto simp: takes_step_def)
  then obtain l1 where "sub (h1 ! q) = ChanLse l1" by (auto simp: takes_step_def)
  with lse_rest_step [OF h1(3) this] u h1(1) show ?thesis by (auto simp: takes_step_def)
qed

lemma lse_pop_keeps:
  assumes "lse_pop c l = Inr c'" "sub c = ChanLse l"
  shows "takes_step c c'" "orderId (lse_of (sub c')) = orderId l" "chanBuffer c' = chanBuffer c"
  using assms by (auto simp: lse_pop_def Let_def takes_step_def fixed_def rbind_Inr_iff split: if_splits prod.splits)

text \<open>What the unit takes from the channel in front of it.\<close>

lemma push_all_unit:
  assumes "push_all now q h = Inr h'" "feeds_unit p q h"
  obtains c where "h' = h[q := c]" "fixed c = fixed (h ! q)" "sub c = sub (h ! q)" "channel c = channel (h ! q)"
    "length (chanBuffer c) = 1" "map d_value (hd (chanBuffer c)) = map d_value (hd (chanBuffer (h ! q)))
        @ (if ch_valid (h ! p) then [ch_value (h ! p)] else [])"
proof -
  note F = feedsD [OF assms(2)]
  obtain l B where l: "sub (h ! q) = ChanLse l" "chanBuffer (h ! q) = [B]" using F by blast
  let ?v = "ch_value (h ! p)"
  have "push now q ?v 0 h = Inr h'"
    using assms(1) F l by (auto simp: push_all_def up_of_def rbind_Inr_iff)
  then have e: "base_push now q ?v 0 h = Inr h'" using F l by (simp add: push_def)
  have chk: "checkUpstream h (h ! q) 0 = Inr (ch_valid (h ! p))" using F by (simp add: checkUpstream_def)
  show ?thesis
  proof (cases "ch_valid (h ! p)")
    case False
    with e chk F have "h' = h" by (simp add: base_push_def)
    then show ?thesis using that [of "h ! q"] l False by simp
  next
    case True
    with e chk F obtain h1 where h1: "pushBuffer now q ?v 0 h = Inr h1" "modify q (setGetLast 0) h1 = Inr h'"
      by (auto simp: base_push_def rbind_Inr_iff)
    then obtain d where d: "modify q (store 0 (received now (h ! q) (h ! p) ?v d)) h = Inr h1"
      using F by (auto simp: pushBuffer_def rbind_Inr_iff Let_def)
    have v: "d_value (received now (h ! q) (h ! p) ?v d) = ?v" by (simp add: received_def Let_def)
    show ?thesis
      using that d h1(2) F l v True by (auto simp: modify_Inr store_def setGetLast_def fixed_def)
  qed
qed

lemma bpUpdate_unit: "takes_step c c' \<Longrightarrow> takes_step c (bpUpdate c')"
  using bpUpdate_keeps [of c'] by (simp add: takes_step_def stays_def)

lemma unit_ok_bpUpdate: "unit_ok g c ins outs \<Longrightarrow> unit_ok g (bpUpdate c) ins outs"
  using bpUpdate_keeps [of c] unit_ok_cong [of "bpUpdate c" c] by (simp add: stays_def)

lemma accepted_buffer:
  assumes "takes_step c c'" "length (chanBuffer c) = 1"
  shows "map d_value (hd (chanBuffer c)) = map fst (accepted c c') @ map d_value (hd (chanBuffer c'))" "length (chanBuffer c') = 1"
proof -
  obtain B where "chanBuffer c = [B]" using assms(2) by (auto simp: length_Suc_conv)
  with assms(1) show "map d_value (hd (chanBuffer c)) = map fst (accepted c c') @ map d_value (hd (chanBuffer c'))"
    "length (chanBuffer c') = 1"
    by (cases B; auto simp: takes_step_def accepted_def payload_def split: if_splits)+
qed

text \<open>A call of the unit: the value that the channel announces goes to the end of the buffer, what leaves the front
  of the buffer becomes a request, and the datum announced in the last call has been delivered.\<close>

lemma unit_get:
  assumes get: "get g q (k, h) = Inr (k', h')" and f: "feeds_unit p q h" and u: "unit_ok g (h ! q) ins outs"
    and v: "ch_valid (h ! q) \<longrightarrow> channel (h ! q) \<noteq> []"
  obtains acc where "feeds_unit p q h'" "unit_ok g (h' ! q) (ins @ acc) (outs @ delivered (h ! q))"
    "ch_valid (h' ! q) \<longrightarrow> channel (h' ! q) \<noteq> []"
    "map d_value (hd (chanBuffer (h ! q))) @ (if ch_valid (h ! p) then [ch_value (h ! p)] else [])
       = map fst acc @ map d_value (hd (chanBuffer (h' ! q)))"
    "\<exists>t. h' ! p = (h ! p)\<lparr>lastTagQueue := t\<rparr>"
proof -
  note F = feedsD [OF f]
  obtain l where l: "sub (h ! q) = ChanLse l" using F(8) by blast
  then have no_tags: "\<nexists>x y z. sub (h ! q) = ChanSGMF x y z" by simp
  obtain c kk h1 h2 where c: "stays (h ! q) c" "channel c = channel (h ! q)" "chanBuffer c = chanBuffer (h ! q)" "ch_valid c = ch_valid (h ! q)"
    and h: "modify q (pop (h[q := c])) (h[q := c]) = Inr h1" "push_all (clk kk) q h1 = Inr h2" "refresh g True kk q h2 = Inr h'"
    by (rule get_steps [OF get no_tags])
  have lc: "sub c = ChanLse l" "fixed c = fixed (h ! q)" using c(1) l by (simp_all add: stays_def)
  have uc: "unit_ok g c ins outs" using u c(2) lc(1) l by (simp add: unit_ok_def)
  obtain c1 where c1: "lse_pop c l = Inr c1" "h1 = h[q := c1]"
    using h(1) F(2) lc(1) by (auto simp: modify_Inr pop_def)
  have u1: "unit_ok g c1 ins (outs @ delivered (h ! q))"
    using lse_pop_ok [OF uc lc(1)] v c c1(1) by (simp add: delivered_def cong: if_cong)
  note s1 = lse_pop_keeps [OF c1(1) lc(1)]
  have h1: "h1 ! q = c1" "h1 ! p = h ! p" "length h1 = length h" using c1(2) F by simp_all
  have f1: "feeds_unit p q h1"
    by (rule feeds_cong [OF f]) (use h1 s1 lc c(3) F(12) in \<open>auto simp: takes_step_def\<close>)
  obtain c2 where c2: "h2 = h1[q := c2]" "fixed c2 = fixed c1" "sub c2 = sub c1" "channel c2 = channel c1" "length (chanBuffer c2) = 1"
    "map d_value (hd (chanBuffer c2)) = map d_value (hd (chanBuffer (h ! q))) @ (if ch_valid (h ! p) then [ch_value (h ! p)] else [])"
    by (rule push_all_unit [OF h(2) f1]) (simp add: h1 s1(3) c(3))
  have h2: "h2 ! q = c2" "h2 ! p = h ! p" "length h2 = length h" using c2(1) h1 F by simp_all
  have u2: "unit_ok g c2 ins (outs @ delivered (h ! q))" using u1 c2(3,4) unit_ok_cong by blast
  obtain l2 where l2: "sub c2 = ChanLse l2" using s1(1) c2(3) by (auto simp: takes_step_def)
  obtain h3 where h3: "statusUpdate g (clk kk) q h2 = Inr h3 \<or> (\<exists>c. h3 = h2[q := c] \<and> stays (h2 ! q) c
      \<and> channel c = channel (h2 ! q) \<and> chanBuffer c = chanBuffer (h2 ! q) \<and> \<not> ch_valid c)"
    "h' = h3[q := bpUpdate (h3 ! q)]" "q < length h3"
    by (rule refresh_steps [OF h(3)])
  have st: "statusUpdate g (clk kk) q h2 = lse_statusUpdate g (clk kk) q h2"
    using l2 h2 F(2) by (simp add: statusUpdate_def)
  define acc where "acc = accepted c2 (h3 ! q)"
  have 3: "takes_step c2 (h3 ! q) \<and> unit_ok g (h3 ! q) (ins @ acc) (outs @ delivered (h ! q))
      \<and> (ch_valid (h3 ! q) \<longrightarrow> channel (h3 ! q) \<noteq> [])"
  proof (cases "lse_statusUpdate g (clk kk) q h2 = Inr h3")
    case True
    have "unit_ok g (h2 ! q) ins (outs @ delivered (h ! q))" "q < length h2" using u2 h2 F(2) by simp_all
    from lse_statusUpdate_ok [OF this, of "clk kk"] lse_statusUpdate_step [OF True] l2 True h2(1) show ?thesis by (simp add: acc_def)
  next
    case False
    then obtain d where d: "h3 = h2[q := d]" "stays c2 d" "channel d = channel c2" "chanBuffer d = chanBuffer c2" "\<not> ch_valid d"
      using h3(1) st h2(1) by auto
    then have "h3 ! q = d" using h3(3) by simp
    with d l2 u2 show ?thesis by (auto simp: acc_def accepted_def takes_step_def stays_def unit_ok_def)
  qed
  have h': "h' ! q = bpUpdate (h3 ! q)" using h3(2,3) by simp
  note B = bpUpdate_keeps [of "h3 ! q"]
  have step: "takes_step c2 (h' ! q)" using 3 bpUpdate_unit h' by simp
  note A = accepted_buffer [OF step c2(5)]
  have acc: "accepted c2 (h' ! q) = acc" using B h' by (simp add: acc_def accepted_def stays_def)
  have fr: "frame {q} h h'" using get by (rule frame_get)
  obtain t where t: "h' ! p = (h ! p)\<lparr>lastTagQueue := t\<rparr>" using frameD [OF fr F(1)] F(3) by blast
  show ?thesis
  proof (rule that [of acc])
    show "feeds_unit p q h'"
      by (rule feeds_cong [OF f])
        (use frame_length [OF fr] t stays_tags step A(2) c2(2) s1(1) lc(2) in \<open>auto simp: takes_step_def\<close>)
    show "unit_ok g (h' ! q) (ins @ acc) (outs @ delivered (h ! q))" using 3 unit_ok_bpUpdate h' by simp
    show "ch_valid (h' ! q) \<longrightarrow> channel (h' ! q) \<noteq> []" using 3 B h' by simp
    show "map d_value (hd (chanBuffer (h ! q))) @ (if ch_valid (h ! p) then [ch_value (h ! p)] else [])
       = map fst acc @ map d_value (hd (chanBuffer (h' ! q)))" using A(1) c2(6) acc by simp
    show "\<exists>t. h' ! p = (h ! p)\<lparr>lastTagQueue := t\<rparr>" using t by blast
  qed
qed

end
