(* ===== verification/GcnTrace.thy ===== *)
theory GcnTrace
  imports GcnDriver UnitCalls "HOL-Library.Sublist"
begin

text \<open>
  The order of the whole run: the load/store unit of the benchmark announces the addresses of the trace in the order
  of the file, whatever the memory does. The proof follows an iteration of \<open>GcnDriver\<close> step by step; the steps that
  belong to other modules are passed over with the frame lemmas.
\<close>

section \<open>Columns of the trace\<close>

definition columns :: "string list \<Rightarrow> u64 list list res" where
  "columns ls = rfold read_line ls (replicate 5 [])"

definition glue :: "'a list list \<Rightarrow> 'a list list \<Rightarrow> 'a list list" where
  "glue = map2 (@)"

lemma length_glue [simp]: "length (glue a c) = min (length a) (length c)"
  and nth_glue: "i < length a \<Longrightarrow> i < length c \<Longrightarrow> glue a c ! i = a ! i @ c ! i"
  by (simp_all add: glue_def)

lemma read_word_glue:
  assumes "length a = length c"
  shows "read_word w (glue a c) = rbind (read_word w c) (\<lambda>c. Inr (glue a c))"
proof (cases w)
  case (Pair i t)
  have "(glue a c)[i := a ! i @ c ! i @ [x]] = glue a (c[i := c ! i @ [x]])" if "i < length c" for x
    by (rule nth_equalityI) (use assms that in \<open>auto simp: nth_glue nth_list_update\<close>)
  with Pair assms show ?thesis by (cases "stoi t") (auto simp: read_word_def nth_glue)
qed

lemma read_word_length: "read_word w c = Inr c' \<Longrightarrow> length c' = length c"
  by (cases w) (auto simp: read_word_def rbind_Inr_iff split: if_splits)

lemma rfold_glue:
  assumes "\<And>x c. length a = length c \<Longrightarrow> f x (glue a c) = rbind (f x c) (\<lambda>c. Inr (glue a c))"
    and "\<And>x c c'. f x c = Inr c' \<Longrightarrow> length c' = length c"
  shows "length a = length c \<Longrightarrow> rfold f xs (glue a c) = rbind (rfold f xs c) (\<lambda>c. Inr (glue a c))"
proof (induction xs arbitrary: c)
  case (Cons x xs)
  then show ?case using assms(1) [of c x] assms(2) [of x c] by (cases "f x c") simp_all
qed simp

lemma rfold_length:
  assumes "rfold f xs c = Inr c'" "\<And>x c c'. f x c = Inr c' \<Longrightarrow> length c' = length (c :: 'a list)"
  shows "length c' = length c"
  using assms(1) by (rule rfold_partial) (auto simp: assms(2))

lemma read_line_length: "read_line l c = Inr c' \<Longrightarrow> length c' = length c"
  unfolding read_line_def by (erule rfold_length) (rule read_word_length)

lemma read_line_glue: "length a = length c \<Longrightarrow> read_line l (glue a c) = rbind (read_line l c) (\<lambda>c. Inr (glue a c))"
  unfolding read_line_def by (rule rfold_glue) (auto simp: read_word_glue dest: read_word_length)

lemma read_lines_glue:
  "length a = length c \<Longrightarrow> rfold read_line ls (glue a c) = rbind (rfold read_line ls c) (\<lambda>c. Inr (glue a c))"
  by (rule rfold_glue) (auto simp: read_line_glue dest: read_line_length)

lemma columns_length: "columns ls = Inr c \<Longrightarrow> length c = 5"
  unfolding columns_def by (drule rfold_length) (auto intro: read_line_length)

text \<open>What a block adds to the columns in front of it.\<close>

lemma columns_append: "columns (as @ bs) = rbind (columns as) (\<lambda>a. rbind (columns bs) (\<lambda>b. Inr (glue a b)))"
proof (cases "columns as")
  case (Inr a)
  have "glue a (replicate 5 []) = a"
    by (rule nth_equalityI) (use columns_length [OF Inr] in \<open>auto simp: nth_glue\<close>)
  moreover have "rfold read_line bs (glue a (replicate 5 [])) = rbind (columns bs) (\<lambda>b. Inr (glue a b))"
    unfolding columns_def by (rule read_lines_glue) (simp add: columns_length [OF Inr])
  ultimately show ?thesis using Inr by (simp add: columns_def rfold_append)
qed (simp add: columns_def rfold_append)

lemma read_words_counts:
  "rfold read_word (enumerate n ws) c = Inr c' \<Longrightarrow> i < length c \<Longrightarrow>
     length (c' ! i) = length (c ! i) + (if n \<le> i \<and> i < n + length ws then 1 else 0)"
proof (induction ws arbitrary: n c)
  case (Cons w ws)
  then obtain c1 where c1: "read_word (n, w) c = Inr c1" "rfold read_word (enumerate (Suc n) ws) c1 = Inr c'"
    by (auto simp: rbind_Inr_iff)
  then have "length (c1 ! i) = length (c ! i) + (if i = n then 1 else 0)"
    using Cons.prems(2) by (auto simp: read_word_def rbind_Inr_iff nth_list_update split: if_splits)
  with Cons.IH [OF c1(2)] Cons.prems(2) read_word_length [OF c1(1)] show ?case by auto
qed simp

lemma read_lines_counts:
  assumes "rfold read_line ls c = Inr c'" "i < length c" "\<forall>l\<in>set ls. i < length (words l)"
  shows "length (c' ! i) = length (c ! i) + length ls"
  using assms
proof (induction ls arbitrary: c)
  case (Cons l ls)
  then obtain c1 where c1: "read_line l c = Inr c1" "rfold read_line ls c1 = Inr c'" by (auto simp: rbind_Inr_iff)
  with Cons read_line_length [OF c1(1)] read_words_counts [of 0 "words l" c c1 i] show ?case by (simp add: read_line_def)
qed simp

lemma columns_count:
  "columns ls = Inr c \<Longrightarrow> i < 5 \<Longrightarrow> \<forall>l\<in>set ls. i < length (words l) \<Longrightarrow> length (c ! i) = length ls"
  unfolding columns_def by (drule read_lines_counts) auto

text \<open>A refill reads the next block.\<close>

lemma read_trace_block:
  assumes "read_trace e s = Inr s'" "0 < block_size e"
  obtains ls c where "ls = take (block_size e) (drop (line_no s) (file_lines (trace_text e)))" "columns ls = Inr c"
    "s' = s\<lparr>file_read_complete := length ls < block_size e, line_no := line_no s + length ls, delay_q := delay_q s @ c ! 1,
       featTrace := featTrace s @ map (\<lambda>n. n * feat_length e) (c ! 2)\<rparr>"
proof -
  let ?ls = "take (block_size e) (drop (line_no s) (file_lines (trace_text e)))"
  have "block_loop (block_size e) (file_lines (trace_text e)) (line_no s) 0 False [] = (?ls, line_no s + length ?ls)"
    using block_loop_eq [of 0 "line_no s" "block_size e" "file_lines (trace_text e)"] assms(2) by (simp add: max_def)
  with assms(1) that [of ?ls] show ?thesis
    by (auto simp: read_trace_def readFileByColumn_blocked_def columns_def rbind_Inr_iff)
qed

section \<open>Steps that pass the pair by\<close>

definition root_view :: "chan \<Rightarrow> (bool \<times> bool \<times> bool \<times> bool \<times> nat list \<times> nat list) \<times> subobject \<times> bool \<times> i32" where
  "root_view c = (fixed c, sub c, ch_valid c, ch_value c)"

definition unit_view :: "chan \<Rightarrow> (bool \<times> bool \<times> bool \<times> bool \<times> nat list \<times> nat list) \<times> data list \<times> bool \<times> data list list \<times> bool list" where
  "unit_view c = (fixed c, channel c, ch_valid c, chanBuffer c, bp c)"

definition order_kept :: "subobject \<Rightarrow> subobject \<Rightarrow> bool" where
  "order_kept u u' \<longleftrightarrow> (\<forall>l. u = ChanLse l \<longrightarrow> (\<exists>l'. u' = ChanLse l' \<and> same_order l l'))"

definition same_pair :: "nat \<Rightarrow> nat \<Rightarrow> heap \<Rightarrow> heap \<Rightarrow> bool" where
  "same_pair p q h h' \<longleftrightarrow> length h' = length h \<and> root_view (h' ! p) = root_view (h ! p) \<and> unit_view (h' ! q) = unit_view (h ! q)
     \<and> order_kept (sub (h ! q)) (sub (h' ! q))"

lemma same_order_refl [simp]: "same_order l l"
  by (simp add: same_order_def)

lemma order_kept_refl [simp]: "order_kept u u"
  by (simp add: order_kept_def)

lemma order_kept_trans: "order_kept u v \<Longrightarrow> order_kept v w \<Longrightarrow> order_kept u w"
  unfolding order_kept_def by (blast intro: same_order_trans)

lemma same_pair_refl [simp]: "same_pair p q h h"
  by (simp add: same_pair_def)

lemma same_pair_trans: "same_pair p q h h1 \<Longrightarrow> same_pair p q h1 h2 \<Longrightarrow> same_pair p q h h2"
  by (auto simp: same_pair_def intro: order_kept_trans)

lemma same_pairD:
  assumes "same_pair p q h h'"
  shows "length h' = length h" "stays (h ! p) (h' ! p)" "ch_valid (h' ! p) = ch_valid (h ! p)" "ch_value (h' ! p) = ch_value (h ! p)"
    "fixed (h' ! q) = fixed (h ! q)" "channel (h' ! q) = channel (h ! q)" "ch_valid (h' ! q) = ch_valid (h ! q)"
    "chanBuffer (h' ! q) = chanBuffer (h ! q)" "bp (h' ! q) = bp (h ! q)"
    "\<forall>l. sub (h ! q) = ChanLse l \<longrightarrow> (\<exists>l'. sub (h' ! q) = ChanLse l' \<and> same_order l l')"
  using assms by (simp_all add: same_pair_def root_view_def unit_view_def stays_def order_kept_def)

lemma same_pair_feeds:
  assumes "same_pair p q h h'" "feeds_unit p q h"
  shows "feeds_unit p q h'"
proof -
  note S = same_pairD [OF assms(1)] and F = feedsD [OF assms(2)]
  obtain l where "sub (h ! q) = ChanLse l" using F(8) by blast
  with S(10) obtain l' where l': "sub (h' ! q) = ChanLse l'" by blast
  obtain B where B: "chanBuffer (h ! q) = [B]" using F(12) by blast
  show ?thesis by (rule feeds_cong [OF assms(2) S(1,2,5)]) (simp_all add: l' S(8) B)
qed

lemma same_pair_unit:
  assumes "same_pair p q h h'" "unit_ok g (h ! q) ins outs"
  shows "unit_ok g (h' ! q) ins outs"
proof -
  note S = same_pairD [OF assms(1)]
  obtain l where l: "sub (h ! q) = ChanLse l" using assms(2) by (auto simp: unit_ok_def)
  with S(10) obtain l' where "sub (h' ! q) = ChanLse l'" "same_order l l'" by blast
  with unit_ok_same_order [OF assms(2) l] S(6) show ?thesis by blast
qed

lemma same_pair_frame:
  assumes "frame R h h'" "p \<notin> R" "q \<notin> R" "p < length h" "q < length h"
  shows "same_pair p q h h'"
proof -
  obtain s t where "h' ! p = (h ! p)\<lparr>lastTagQueue := s\<rparr>" "h' ! q = (h ! q)\<lparr>lastTagQueue := t\<rparr>"
    using assms frameD by metis
  with frame_length [OF assms(1)] show ?thesis by (simp add: same_pair_def root_view_def unit_view_def fixed_def)
qed

section \<open>The memory system\<close>

text \<open>Of a unit the memory system changes nothing that its order depends on.\<close>

definition same_ports :: "ports \<Rightarrow> ports \<Rightarrow> bool" where
  "same_ports ps ps' \<longleftrightarrow> length ps' = length ps \<and> (\<forall>i<length ps. fst (ps' ! i) = fst (ps ! i) \<and> same_order (snd (ps ! i)) (snd (ps' ! i)))"

lemma same_ports_refl [simp]: "same_ports ps ps"
  by (simp add: same_ports_def)

lemma same_ports_trans: "same_ports ps qs \<Longrightarrow> same_ports qs rs \<Longrightarrow> same_ports ps rs"
  using same_order_trans by (auto simp: same_ports_def)

lemma same_ports_update: "same_order (snd (ps ! i)) l' \<Longrightarrow> same_ports ps (ps[i := (fst (ps ! i), l')])"
  unfolding same_ports_def
proof (intro conjI allI impI)
  fix j assume "same_order (snd (ps ! i)) l'" "j < length ps"
  then show "fst (ps[i := (fst (ps ! i), l')] ! j) = fst (ps ! j)" "same_order (snd (ps ! j)) (snd (ps[i := (fst (ps ! i), l')] ! j))"
    by (cases "j = i"; simp)+
qed simp

lemma ack_lse_ports: "ack_lse now req ms ps = Inr ps' \<Longrightarrow> same_ports ps ps'"
  unfolding ack_lse_def
  by (auto simp: rbind_Inr_iff deref_Inr_iff split_beta dest!: same_order_ack intro!: same_ports_update)

lemma ack_coalesced_ports: "ack_coalesced now ms rs (rec, ps) = Inr (rest, rec', ps') \<Longrightarrow> same_ports ps ps'"
proof (induction rs arbitrary: rec ps rest)
  case (Cons r rs)
  then show ?case
    by (auto simp: rbind_Inr_iff split: if_splits) (meson ack_lse_ports same_ports_trans)
qed simp

lemma visit_ack_ports: "visit_ack g now i (ms, rec, ps) = Inr (ms', rec', ps') \<Longrightarrow> same_ports ps ps'"
  unfolding visit_ack_def
  by (auto simp: rbind_Inr_iff Let_def split: list.split_asm if_splits dest!: ack_coalesced_ports ack_lse_ports)

lemma same_order_blocked: "same_order l (l\<lparr>memReqBlockCnt := n\<rparr>)"
  by (simp add: same_order_def slots_def)

lemma visit_lse_ports: "visit_lse g p (ms, ps) = Inr (ms', ps') \<Longrightarrow> same_ports ps ps'"
  unfolding visit_lse_def
  by (auto simp: rbind_Inr_iff deref_Inr_iff split_beta split: if_splits dest!: same_order_flight
      intro!: same_ports_update same_order_blocked)

lemma sendBack2Lse_ports:
  assumes "sendBack2Lse g now (ms, ps) = Inr (ms', ps')"
  shows "same_ports ps ps'"
proof -
  obtain ix r0 rec where "rfold (visit_ack g now) ix (ms, r0, ps) = Inr (ms', rec, ps')"
    using assms by (auto simp: sendBack2Lse_def rbind_Inr_iff Let_def)
  then have "(\<lambda>(ms, rec, qs). same_ports ps qs) (ms', rec, ps')"
    by (rule rfold_partial) (auto intro: same_ports_trans visit_ack_ports)
  then show ?thesis by simp
qed

lemma getLseReq_ports:
  assumes "getLseReq g b (ms, ps) = Inr (ms', ps')"
  shows "same_ports ps ps'"
proof -
  obtain xs ms1 where "rfold (visit_lse g) xs (ms, ps) = Inr (ms1, ps')"
    using assms by (auto simp: getLseReq_def rbind_Inr_iff Let_def split: if_splits)
  then have "(\<lambda>(ms, qs). same_ports ps qs) (ms1, ps')"
    by (rule rfold_partial) (auto intro: same_ports_trans visit_lse_ports)
  then show ?thesis by simp
qed

lemma memSystemUpdate_ports:
  assumes "memSystemUpdate g k d (ms, ps, m) = Inr (ms', ps', m')"
  shows "same_ports ps ps'"
proof -
  obtain ms1 ps1 ms2 where "sendBack2Lse g (clk k) (ms, ps) = Inr (ms1, ps1)" "getLseReq g (checkClkAdd k) (ms2, ps1) = Inr (ms', ps')"
    using assms unfolding memSystemUpdate_def by (auto simp: rbind_Inr_iff)
  then show ?thesis using sendBack2Lse_ports getLseReq_ports same_ports_trans by blast
qed

lemma memory_cycle_pair:
  assumes "memory_cycle g d s = Inr s'" "feeds_unit p q (r_chans (g_reg s))"
  shows "same_pair p q (r_chans (g_reg s)) (r_chans (g_reg s'))"
proof -
  let ?h = "r_chans (g_reg s)"
  note F = feedsD [OF assms(2)]
  obtain l where l: "sub (?h ! q) = ChanLse l" using F(8) by blast
  obtain ms ps m where ps: "memSystemUpdate g (g_clk s) d (memSys (g_reg s), ports_of ?h, g_dram s) = Inr (ms, ps, m)"
    "r_chans (g_reg s') = put_ports ps ?h"
    using assms(1) by (auto simp: memory_cycle_def rbind_Inr_iff)
  have S: "same_ports (ports_of ?h) ps" using ps(1) by (rule memSystemUpdate_ports)
  then have len: "length ps = length ?h" by (simp add: same_ports_def ports_of_def)
  have "snd (ports_of ?h ! q) = l" using F(2) l by (simp add: ports_of_def)
  with S have "same_order l (snd (ps ! q))" using F(2) by (auto simp: same_ports_def ports_of_def)
  then show ?thesis
    using F len l unfolding ps(2) same_pair_def put_ports_def
    by (simp add: root_view_def unit_view_def fixed_def order_kept_def)
qed

section \<open>The profiler\<close>

lemma modify_pair:
  assumes "modify x f h = Inr h'"
    and "\<And>c c'. f c = Inr c' \<Longrightarrow> root_view c' = root_view c \<and> unit_view c' = unit_view c"
  shows "same_pair p q h h'"
proof -
  obtain c' where c': "f (h ! x) = Inr c'" "h' = h[x := c']" "x < length h" using assms(1) by (auto simp: modify_Inr)
  from assms(2) [OF c'(1)] have "root_view c' = root_view (h ! x)" "unit_view c' = unit_view (h ! x)" "sub c' = sub (h ! x)"
    by (simp_all add: root_view_def)
  with c'(2,3) show ?thesis by (cases "x = p"; cases "x = q") (simp_all add: same_pair_def)
qed

lemma each_chan_pair:
  assumes "each_chan f ps h = Inr h'"
    and "\<And>c c'. f c = Inr c' \<Longrightarrow> root_view c' = root_view c \<and> unit_view c' = unit_view c"
  shows "same_pair p q h h'"
  using assms(1) unfolding each_chan_def
proof (rule rfold_partial [where P = "same_pair p q h"])
  show "same_pair p q h t'" if "same_pair p q h t" "modify x f t = Inr t'" for x t t'
    using that(1) modify_pair [OF that(2) assms(2)] by (rule same_pair_trans)
qed simp

lemma count_chan_views:
  assumes "count_chan b i c = Inr c'"
  shows "root_view c' = root_view c \<and> unit_view c' = unit_view c"
proof -
  have a: "root_view c1 = root_view c \<and> unit_view c1 = unit_view c" if "count_active c = Inr c1" for c1
    using that by (auto simp: count_active_def rbind_Inr_iff root_view_def unit_view_def fixed_def split: if_splits)
  have k: "root_view (c1\<lparr>activeClkCnt := n\<rparr>) = root_view c1 \<and> unit_view (c1\<lparr>activeClkCnt := n\<rparr>) = unit_view c1" for c1 n
    by (simp add: root_view_def unit_view_def fixed_def)
  obtain c1 where "count_active c = Inr c1 \<or> c1 = c" "c' = c1 \<or> c' = c1\<lparr>activeClkCnt := activeClkCnt c1 + 1\<rparr>"
    using assms by (auto simp: count_chan_def rbind_Inr_iff split: if_splits)
  then show ?thesis using a k by metis
qed

lemma profiler_cycle_pair:
  assumes "profiler_cycle s = Inr s'"
  shows "same_pair p q (r_chans (g_reg s)) (r_chans (g_reg s'))" "\<exists>h. g_reg s' = (g_reg s)\<lparr>r_chans := h\<rparr>"
proof -
  obtain h b i ps where h: "each_chan (count_chan b i) ps (r_chans (g_reg s)) = Inr h" "g_reg s' = (g_reg s)\<lparr>r_chans := h\<rparr>"
    using assms by (auto simp: profiler_cycle_def updateChanUtilization_def on_heap_def rbind_Inr_iff)
  from h(2) show "\<exists>h. g_reg s' = (g_reg s)\<lparr>r_chans := h\<rparr>" by blast
  have "same_pair p q (r_chans (g_reg s)) h" using h(1) by (rule each_chan_pair) (rule count_chan_views)
  with h(2) show "same_pair p q (r_chans (g_reg s)) (r_chans (g_reg s'))" by simp
qed

section \<open>Iterations\<close>

text \<open>The modules other than the pair have channels of their own.\<close>

definition other_chans :: "handles \<Rightarrow> registry \<Rightarrow> nat set" where
  "other_chans hs r = (let l = r_lcs r ! h_lc hs in
     {h_begin hs, h_i_lc hs, h_end hs, h_systolic hs, h_active hs} \<union> lc_chans l \<union> mux_chans (r_muxes r ! lc_mux l))"

definition apart :: "handles \<Rightarrow> registry \<Rightarrow> bool" where
  "apart hs r \<longleftrightarrow> h_lc hs < length (r_lcs r) \<and> lc_mux (r_lcs r ! h_lc hs) < length (r_muxes r)
     \<and> h_root hs \<notin> other_chans hs r \<and> h_lse hs \<notin> other_chans hs r"

definition trace_state :: "'m gcn \<Rightarrow> u64 list \<times> u64 list \<times> nat \<times> bool" where
  "trace_state s = (featTrace s, delay_q s, line_no s, file_read_complete s)"

definition passes :: "handles \<Rightarrow> 'm gcn \<Rightarrow> 'm gcn \<Rightarrow> bool" where
  "passes hs s s' \<longleftrightarrow> same_pair (h_root hs) (h_lse hs) (r_chans (g_reg s)) (r_chans (g_reg s'))
     \<and> apart hs (g_reg s') \<and> trace_state s' = trace_state s"

abbreviation heap_of :: "'m gcn \<Rightarrow> heap" where
  "heap_of s \<equiv> r_chans (g_reg s)"

abbreviation wiring :: "handles \<Rightarrow> 'm gcn \<Rightarrow> bool" where
  "wiring hs s \<equiv> feeds_unit (h_root hs) (h_lse hs) (heap_of s) \<and> apart hs (g_reg s)"

lemma passes_trans: "passes hs s s1 \<Longrightarrow> passes hs s1 s2 \<Longrightarrow> passes hs s s2"
  unfolding passes_def by (auto intro: same_pair_trans)

lemma passes_wiring: "passes hs s s' \<Longrightarrow> wiring hs s \<Longrightarrow> wiring hs s'"
  unfolding passes_def using same_pair_feeds by blast

lemma apart_chans [simp]: "apart hs (r\<lparr>r_chans := h\<rparr>) = apart hs r"
  by (simp add: apart_def other_chans_def)

lemma passes_frame:
  assumes "frame R (heap_of s) h" "R \<subseteq> other_chans hs (g_reg s)" "wiring hs s" "g_reg s' = (g_reg s)\<lparr>r_chans := h\<rparr>"
    "trace_state s' = trace_state s"
  shows "passes hs s s'"
proof -
  have "h_root hs \<notin> R" "h_lse hs \<notin> R" using assms(2,3) by (auto simp: apart_def)
  with assms same_pair_frame [OF assms(1)] show ?thesis by (simp add: passes_def feeds_unit_def)
qed

lemma on_chans_frame:
  assumes "on_chans f s = Inr s'" "wiring hs s" "x \<in> other_chans hs (g_reg s)"
    and "\<And>k h k' h'. f (k, h) = Inr (k', h') \<Longrightarrow> frame {x} h h'"
  shows "passes hs s s'"
proof -
  obtain k h where kh: "f (g_clk s, heap_of s) = Inr (k, h)" "s' = s\<lparr>g_clk := k, g_reg := (g_reg s)\<lparr>r_chans := h\<rparr>\<rparr>"
    using assms(1) by (auto simp: on_chans_def rbind_Inr_iff)
  show ?thesis
    by (rule passes_frame [OF assms(4) [OF kh(1)] _ assms(2)]) (use assms(3) in \<open>simp_all add: kh(2) trace_state_def\<close>)
qed

lemma frame_chan_cycle: "chan_cycle g x (k, h) = Inr (k', h') \<Longrightarrow> frame {x} h h'"
  by (auto simp: chan_cycle_def rbind_Inr_iff dest!: frame_get frame_modify intro: frame_trans)

lemma frame_set_value: "set_value x v (k, h) = Inr (k', h') \<Longrightarrow> frame {x} h h'"
  by (auto simp: set_value_def rbind_Inr_iff dest: frame_modify)

lemma pass_cycle: "on_chans (chan_cycle g x) s = Inr s' \<Longrightarrow> wiring hs s \<Longrightarrow> x \<in> other_chans hs (g_reg s) \<Longrightarrow> passes hs s s'"
  by (rule on_chans_frame) (auto intro: frame_chan_cycle)

lemma pass_get: "on_chans (get g x) s = Inr s' \<Longrightarrow> wiring hs s \<Longrightarrow> x \<in> other_chans hs (g_reg s) \<Longrightarrow> passes hs s s'"
  by (rule on_chans_frame) (auto intro: frame_get)

lemma pass_set: "set_chan x f s = Inr s' \<Longrightarrow> wiring hs s \<Longrightarrow> x \<in> other_chans hs (g_reg s) \<Longrightarrow> passes hs s s'"
  unfolding set_chan_def by (rule on_chans_frame) (auto simp: rbind_Inr_iff dest: frame_modify)

lemma others_mem [simp]: "h_begin hs \<in> other_chans hs r" "h_i_lc hs \<in> other_chans hs r" "h_end hs \<in> other_chans hs r"
    "h_systolic hs \<in> other_chans hs r" "h_active hs \<in> other_chans hs r"
  by (simp_all add: other_chans_def Let_def)

lemma pass_lc:
  assumes "lc_cycle g (h_lc hs) s = Inr s'" "wiring hs s"
  shows "passes hs s s'"
proof -
  let ?r = "g_reg s" let ?l = "r_lcs ?r ! h_lc hs" let ?m = "r_muxes ?r ! lc_mux ?l"
  have ap: "h_lc hs < length (r_lcs ?r)" "lc_mux ?l < length (r_muxes ?r)" using assms(2) by (simp_all add: apart_def)
  obtain u v m k1 h1 k2 h2 k3 h3 k4 h4 w b l k5 h5 where h:
      "muxUpdate g (lc_sel ?l) ?m (g_clk s, heap_of s) = Inr (m, k1, h1)" "set_value (outChan m) u (k1, h1) = Inr (k2, h2)"
      "get g (loopVar ?l) (k2, h2) = Inr (k3, h3)" "set_value (loopVar ?l) w (k3, h3) = Inr (k4, h4)"
      "lcUpdate g b ((r_muxes ?r)[lc_mux ?l := m]) ?l (k4, h4) = Inr (l, k5, h5)"
      and s': "s' = s\<lparr>lc_var := v, g_clk := k5, g_reg := ?r\<lparr>r_chans := h5, r_muxes := (r_muxes ?r)[lc_mux ?l := m],
        r_lcs := (r_lcs ?r)[h_lc hs := l]\<rparr>\<rparr>"
    using assms(1) ap unfolding lc_cycle_def by (auto simp: rbind_Inr_iff Let_def)
  let ?R = "lc_chans ?l \<union> mux_chans ?m"
  note M = frame_muxUpdate [OF h(1)] and L = frame_lcUpdate [OF h(5)]
  have "frame ?R (heap_of s) h1" using M(1) by (rule frame_mono) simp
  also have "frame ?R h1 h2" using frame_set_value [OF h(2)] M(2) by (auto elim: frame_one)
  also have "frame ?R h2 h3" using frame_get [OF h(3)] by (rule frame_one) (simp add: lc_chans_def)
  also have "frame ?R h3 h4" using frame_set_value [OF h(4)] by (rule frame_one) (simp add: lc_chans_def)
  also have "frame ?R h4 h5" using L(1) by (rule frame_mono) simp
  finally have "frame ?R (heap_of s) h5" .
  moreover have "h_root hs \<notin> ?R" "h_lse hs \<notin> ?R" using assms(2) by (auto simp: apart_def other_chans_def Let_def)
  moreover have "h_root hs < length (heap_of s)" "h_lse hs < length (heap_of s)" using assms(2) by (simp_all add: feeds_unit_def)
  ultimately have "same_pair (h_root hs) (h_lse hs) (heap_of s) h5" by (rule same_pair_frame)
  moreover have "mux_chans m = mux_chans ?m" using M(2) by (simp add: mux_chans_def)
  then have "other_chans hs (g_reg s') = other_chans hs ?r"
    using ap same_lc_chans [OF L(2)] L(2) by (simp add: s' other_chans_def Let_def same_lc_def)
  moreover have "lc_mux l = lc_mux ?l" using L(2) by (simp add: same_lc_def)
  ultimately show ?thesis using assms(2) ap by (simp add: passes_def apart_def s' trace_state_def)
qed

text \<open>Memory system and profiler.\<close>

lemma pass_memory: "memory_cycle g d s = Inr s' \<Longrightarrow> wiring hs s \<Longrightarrow> passes hs s s'"
  using memory_cycle_pair [of g d s s'] by (auto simp: passes_def memory_cycle_def rbind_Inr_iff trace_state_def apart_def other_chans_def)

lemma pass_profiler: "profiler_cycle s = Inr s' \<Longrightarrow> wiring hs s \<Longrightarrow> passes hs s s'"
  using profiler_cycle_pair [of s s'] by (auto simp: passes_def profiler_cycle_def rbind_Inr_iff trace_state_def)

section \<open>The pair in an iteration\<close>

text \<open>The data that an iteration puts into the buffer of the unit: the next address of the trace when there is one.\<close>

definition next_address :: "u64 list \<Rightarrow> u64 list \<Rightarrow> i32 list \<Rightarrow> bool" where
  "next_address ft ft' new \<longleftrightarrow> (\<exists>a. ft = a # ft' \<and> new = [ucast a]) \<or> ft' = ft \<and> (new = [] \<or> ft = [] \<and> length new = 1)"

lemma root_cycle:
  assumes "on_chans (chan_cycle g (h_root hs)) s = Inr s'" "wiring hs s"
  shows "wiring hs s'" "trace_state s' = trace_state s" "ch_valid (heap_of s' ! h_root hs) \<Longrightarrow> \<not> bp (heap_of s' ! h_lse hs) ! 0"
    "\<exists>t. heap_of s' ! h_lse hs = (heap_of s ! h_lse hs)\<lparr>lastTagQueue := t\<rparr>"
proof -
  let ?p = "h_root hs" let ?q = "h_lse hs"
  obtain k1 h1 v k2 h2 where h: "get g ?p (g_clk s, heap_of s) = Inr (k1, h1)" "?p < length h1" "h2 = h1[?p := (h1 ! ?p)\<lparr>ch_value := v\<rparr>]"
      "s' = s\<lparr>g_clk := k2, g_reg := (g_reg s)\<lparr>r_chans := h2\<rparr>\<rparr>"
    using assms(1) by (auto simp: on_chans_def chan_cycle_def rbind_Inr_iff modify_Inr)
  note G = base_get [OF h(1) conjunct1 [OF assms(2)]]
  have q: "?p \<noteq> ?q" using feedsD(3) [OF G(1)] .
  have "feeds_unit ?p ?q h2"
    by (rule feeds_cong [OF G(1)]) (use h(2,3) q feedsD(8,12) [OF G(1)] in \<open>auto simp: stays_def fixed_def\<close>)
  with assms(2) show "wiring hs s'" by (simp add: h(4))
  show "trace_state s' = trace_state s" by (simp add: h(4) trace_state_def)
  show "\<not> bp (heap_of s' ! ?q) ! 0" if "ch_valid (heap_of s' ! ?p)" using G(2) that h q by simp
  show "\<exists>t. heap_of s' ! ?q = (heap_of s ! ?q)\<lparr>lastTagQueue := t\<rparr>" using G(3) h q by simp
qed

lemma injectMemTrace_cases:
  assumes "injectMemTrace p q (h, ft) = Inr (h', ft')" "p < length h" "q < length h" "ch_valid (h ! p) \<longrightarrow> \<not> bp (h ! q) ! 0"
  shows "if ch_valid (h ! p) then (case ft of [] \<Rightarrow> h' = h \<and> ft' = [] | a # as \<Rightarrow> h' = h[p := (h ! p)\<lparr>ch_value := ucast a\<rparr>] \<and> ft' = as)
    else h' = h \<and> ft' = ft"
proof (cases "rnth (bp (h ! q)) 0")
  case (Inl e)
  with assms show ?thesis by (simp add: injectMemTrace_def)
next
  case (Inr b)
  then have b: "b = bp (h ! q) ! 0" by (simp add: rnth_Inr_iff)
  have "injectMemTrace p q (h, ft) = (if \<not> b \<and> ch_valid (h ! p)
     then (case ft of [] \<Rightarrow> Inr (h, []) | a # as \<Rightarrow> Inr (h[p := (h ! p)\<lparr>ch_value := ucast a\<rparr>], as)) else Inr (h, ft))"
    using assms(2,3) Inr by (simp add: injectMemTrace_def)
  with assms(1,4) b show ?thesis by (cases ft; cases "ch_valid (h ! p)"; simp)
qed

lemma inject_step:
  assumes "inject hs s = Inr s'" "wiring hs s" "ch_valid (heap_of s ! h_root hs) \<longrightarrow> \<not> bp (heap_of s ! h_lse hs) ! 0"
  shows "wiring hs s'" "next_address (featTrace s) (featTrace s') (if ch_valid (heap_of s' ! h_root hs) then [ch_value (heap_of s' ! h_root hs)] else [])"
    "delay_q s' = delay_q s \<and> line_no s' = line_no s \<and> file_read_complete s' = file_read_complete s"
    "heap_of s' ! h_lse hs = heap_of s ! h_lse hs"
proof -
  let ?p = "h_root hs" let ?q = "h_lse hs" let ?h = "heap_of s"
  note F = feedsD [OF conjunct1 [OF assms(2)]]
  obtain h q where hq: "injectMemTrace ?p ?q (?h, featTrace s) = Inr (h, q)" and s': "s' = s\<lparr>g_reg := (g_reg s)\<lparr>r_chans := h\<rparr>, featTrace := q\<rparr>"
    using assms(1) by (auto simp: inject_def rbind_Inr_iff)
  then show "delay_q s' = delay_q s \<and> line_no s' = line_no s \<and> file_read_complete s' = file_read_complete s" by simp
  consider "\<not> ch_valid (?h ! ?p)" "h = ?h" "q = featTrace s" | "ch_valid (?h ! ?p)" "featTrace s = []" "h = ?h" "q = []"
    | a as where "ch_valid (?h ! ?p)" "featTrace s = a # as" "h = ?h[?p := (?h ! ?p)\<lparr>ch_value := ucast a\<rparr>]" "q = as"
    using injectMemTrace_cases [OF hq F(1,2) assms(3)] by (cases "featTrace s") (auto split: if_split_asm)
  note cases = this
  show "next_address (featTrace s) (featTrace s') (if ch_valid (heap_of s' ! ?p) then [ch_value (heap_of s' ! ?p)] else [])"
    by (cases rule: cases) (use F(1) in \<open>auto simp: s' next_address_def\<close>)
  show "heap_of s' ! ?q = ?h ! ?q" by (cases rule: cases) (use F(3) in \<open>auto simp: s'\<close>)
  have "feeds_unit ?p ?q h"
  proof (cases rule: cases)
    case (3 a as)
    show ?thesis by (rule feeds_cong [OF conjunct1 [OF assms(2)]]) (use 3 F in \<open>auto simp: stays_def fixed_def\<close>)
  qed (use assms(2) in auto)
  with assms(2) show "wiring hs s'" by (simp add: s')
qed

lemma unit_cycle:
  assumes "on_chans (get g (h_lse hs)) s = Inr s'" "wiring hs s" "unit_ok g (heap_of s ! h_lse hs) ins outs"
    "ch_valid (heap_of s ! h_lse hs) \<longrightarrow> channel (heap_of s ! h_lse hs) \<noteq> []"
  obtains acc where "wiring hs s'" "trace_state s' = trace_state s"
    "unit_ok g (heap_of s' ! h_lse hs) (ins @ acc) (outs @ delivered (heap_of s ! h_lse hs))"
    "ch_valid (heap_of s' ! h_lse hs) \<longrightarrow> channel (heap_of s' ! h_lse hs) \<noteq> []"
    "map d_value (hd (chanBuffer (heap_of s ! h_lse hs))) @ (if ch_valid (heap_of s ! h_root hs) then [ch_value (heap_of s ! h_root hs)] else [])
       = map fst acc @ map d_value (hd (chanBuffer (heap_of s' ! h_lse hs)))"
proof -
  obtain k h where h: "get g (h_lse hs) (g_clk s, heap_of s) = Inr (k, h)" "s' = s\<lparr>g_clk := k, g_reg := (g_reg s)\<lparr>r_chans := h\<rparr>\<rparr>"
    using assms(1) by (auto simp: on_chans_def rbind_Inr_iff)
  show ?thesis
    by (rule unit_get [OF h(1) conjunct1 [OF assms(2)] assms(3,4)], rule that) (use assms(2) in \<open>auto simp: h(2) trace_state_def\<close>)
qed

lemma bump_value:
  assumes "set_chan (h_lse hs) (\<lambda>c. c\<lparr>ch_value := ch_value c + 1\<rparr>) s = Inr s'" "wiring hs s"
  shows "passes hs s s'"
proof -
  obtain h where h: "h = (heap_of s)[h_lse hs := (heap_of s ! h_lse hs)\<lparr>ch_value := ch_value (heap_of s ! h_lse hs) + 1\<rparr>]"
    "heap_of s' = h" "g_reg s' = (g_reg s)\<lparr>r_chans := h\<rparr>" "trace_state s' = trace_state s"
    using assms(1) by (auto simp: set_chan_def on_chans_def rbind_Inr_iff modify_Inr trace_state_def)
  have "same_pair (h_root hs) (h_lse hs) (heap_of s) h"
    using feedsD(2,3) [OF conjunct1 [OF assms(2)]] by (simp add: h(1) same_pair_def unit_view_def fixed_def)
  with h assms(2) show ?thesis by (simp add: passes_def)
qed

lemma bind_delay_step:
  assumes "bind_delay arch hs s = Inr s'" "wiring hs s"
  shows "same_pair (h_root hs) (h_lse hs) (heap_of s) (heap_of s')" "apart hs (g_reg s')"
    "featTrace s' = featTrace s \<and> line_no s' = line_no s \<and> file_read_complete s' = file_read_complete s"
    "length (delay_q s) \<le> length (delay_q s') + (if ch_valid (heap_of s ! h_lse hs) then 1 else 0)"
proof -
  let ?q = "h_lse hs" let ?x = "h_systolic hs" let ?h = "heap_of s"
  obtain h ds n where b: "bindDelay arch ?q ?x (?h, delay_q s, buffer_access_cnt s) = Inr (h, ds, n)"
    and s': "s' = s\<lparr>g_reg := (g_reg s)\<lparr>r_chans := h\<rparr>, delay_q := ds, buffer_access_cnt := n\<rparr>"
    using assms(1) by (auto simp: bind_delay_def rbind_Inr_iff)
  then show "featTrace s' = featTrace s \<and> line_no s' = line_no s \<and> file_read_complete s' = file_read_complete s"
    "apart hs (g_reg s')" using assms(2) by simp_all
  have h: "frame {?x} ?h h \<and> length (delay_q s) \<le> length ds + (if ch_valid (?h ! ?q) then 1 else 0)"
    using b unfolding bindDelay_def Let_def
    by (auto simp: rbind_Inr_iff deref_Inr_iff split: if_split_asm list.split_asm)
  then show "length (delay_q s) \<le> length (delay_q s') + (if ch_valid (heap_of s ! h_lse hs) then 1 else 0)" by (simp add: s')
  have "passes hs s (s\<lparr>g_reg := (g_reg s)\<lparr>r_chans := h\<rparr>\<rparr>)"
    by (rule passes_frame [OF conjunct1 [OF h] _ assms(2)]) (simp_all add: trace_state_def)
  then show "same_pair (h_root hs) ?q ?h (heap_of s')" by (simp add: passes_def s')
qed

definition addresses :: "'m setting \<Rightarrow> u64 list list \<Rightarrow> u64 list" where
  "addresses e cols = map (\<lambda>n. n * feat_length e) (cols ! 2)"

text \<open>The columns that have been read and what is left of them.\<close>

definition file_inv :: "'m setting \<Rightarrow> 'm gcn \<Rightarrow> u64 list list \<Rightarrow> bool" where
  "file_inv e s cols \<longleftrightarrow> columns (take (line_no s) (file_lines (trace_text e))) = Inr cols
     \<and> (file_read_complete s \<longrightarrow> length (file_lines (trace_text e)) \<le> line_no s)"

lemma read_trace_step:
  assumes "read_trace e s = Inr s'" "0 < block_size e" "\<forall>l\<in>set (file_lines (trace_text e)). 2 < length (words l)"
    "columns (take (line_no s) (file_lines (trace_text e))) = Inr cols"
  obtains new where "file_inv e s' (glue cols new)" "g_reg s' = g_reg s" "length new = 5"
    "featTrace s' = featTrace s @ addresses e new" "delay_q s' = delay_q s @ new ! 1" "addresses e new = [] \<longrightarrow> file_read_complete s'"
proof -
  let ?L = "file_lines (trace_text e)"
  obtain ls c where b: "ls = take (block_size e) (drop (line_no s) ?L)" "columns ls = Inr c"
    "s' = s\<lparr>file_read_complete := length ls < block_size e, line_no := line_no s + length ls, delay_q := delay_q s @ c ! 1,
       featTrace := featTrace s @ map (\<lambda>n. n * feat_length e) (c ! 2)\<rparr>"
    using read_trace_block [OF assms(1,2)] by metis
  have "take (line_no s + length ls) ?L = take (line_no s) ?L @ ls"
    using b(1) by (auto simp: take_add min_def)
  then have cols: "columns (take (line_no s') ?L) = Inr (glue cols c)" using assms(4) b by (simp add: columns_append)
  have "set ls \<subseteq> set ?L" using b(1) by (meson set_drop_subset set_take_subset subset_trans)
  then have cnt: "length (c ! 2) = length ls" using columns_count [OF b(2), of 2] assms(3) by auto
  show ?thesis
    by (rule that [of c]) (use cols cnt b columns_length [OF b(2)] assms(2) in \<open>auto simp: file_inv_def addresses_def\<close>)
qed

section \<open>The invariant of the run\<close>

text \<open>The addresses that have been injected, and behind them whatever the unit has been given when the trace had
  run out, are the requests that the unit has made and the data in its buffer.\<close>

definition given :: "'m setting \<Rightarrow> handles \<Rightarrow> 'm gcn \<Rightarrow> u64 list list \<Rightarrow> (i32 \<times> bool) list \<Rightarrow> bool" where
  "given e hs s cols ins \<longleftrightarrow> (\<exists>done junk. addresses e cols = done @ featTrace s
     \<and> map ucast done @ junk = map fst ins @ map d_value (hd (chanBuffer (heap_of s ! h_lse hs)))
     \<and> (junk \<noteq> [] \<longrightarrow> featTrace s = [] \<and> file_read_complete s))"

definition unit_inv :: "'m setting \<Rightarrow> handles \<Rightarrow> 'm gcn \<Rightarrow> (i32 \<times> bool) list \<Rightarrow> (i32 \<times> bool) list \<Rightarrow> bool" where
  "unit_inv e hs s ins outs \<longleftrightarrow> wiring hs s \<and> unit_ok (conf e) (heap_of s ! h_lse hs) ins outs
     \<and> (ch_valid (heap_of s ! h_lse hs) \<longrightarrow> channel (heap_of s ! h_lse hs) \<noteq> [])"

definition half_inv :: "'m setting \<Rightarrow> handles \<Rightarrow> 'm gcn \<Rightarrow> u64 list list \<Rightarrow> (i32 \<times> bool) list \<Rightarrow> (i32 \<times> bool) list \<Rightarrow> bool" where
  "half_inv e hs s cols ins outs \<longleftrightarrow> unit_inv e hs s ins outs \<and> file_inv e s cols \<and> given e hs s cols ins
     \<and> length (cols ! 1) \<le> length (delay_q s) + length (outs @ delivered (heap_of s ! h_lse hs))"

definition trace_inv :: "'m setting \<Rightarrow> handles \<Rightarrow> 'm gcn \<Rightarrow> u64 list list \<Rightarrow> (i32 \<times> bool) list \<Rightarrow> (i32 \<times> bool) list \<Rightarrow> bool" where
  "trace_inv e hs s cols ins outs \<longleftrightarrow> half_inv e hs s cols ins outs \<and> (featTrace s = [] \<longrightarrow> file_read_complete s)"

lemma passes_unit:
  assumes "passes hs s s'" "unit_inv e hs s ins outs"
  shows "unit_inv e hs s' ins outs"
proof -
  have P: "same_pair (h_root hs) (h_lse hs) (heap_of s) (heap_of s')" using assms(1) by (simp add: passes_def)
  show ?thesis
    using assms(2) passes_wiring [OF assms(1)] same_pair_unit [OF P] same_pairD(6,7) [OF P] by (simp add: unit_inv_def)
qed

lemma passes_fields:
  assumes "passes hs s s'"
  shows "featTrace s' = featTrace s" "delay_q s' = delay_q s" "line_no s' = line_no s" "file_read_complete s' = file_read_complete s"
    "chanBuffer (heap_of s' ! h_lse hs) = chanBuffer (heap_of s ! h_lse hs)"
    "delivered (heap_of s' ! h_lse hs) = delivered (heap_of s ! h_lse hs)" "ch_valid (heap_of s' ! h_lse hs) = ch_valid (heap_of s ! h_lse hs)"
proof -
  have P: "same_pair (h_root hs) (h_lse hs) (heap_of s) (heap_of s')" using assms by (simp add: passes_def)
  show "featTrace s' = featTrace s" "delay_q s' = delay_q s" "line_no s' = line_no s" "file_read_complete s' = file_read_complete s"
    using assms by (simp_all add: passes_def trace_state_def)
  show "chanBuffer (heap_of s' ! h_lse hs) = chanBuffer (heap_of s ! h_lse hs)"
    "delivered (heap_of s' ! h_lse hs) = delivered (heap_of s ! h_lse hs)" "ch_valid (heap_of s' ! h_lse hs) = ch_valid (heap_of s ! h_lse hs)"
    using same_pairD(6-8) [OF P] by (simp_all add: delivered_def)
qed

lemma passes_half: "passes hs s s' \<Longrightarrow> half_inv e hs s cols ins outs \<Longrightarrow> half_inv e hs s' cols ins outs"
  using passes_unit [of hs s s'] passes_fields [of hs s s'] by (simp add: half_inv_def file_inv_def given_def)

lemma passes_inv: "passes hs s s' \<Longrightarrow> trace_inv e hs s cols ins outs \<Longrightarrow> trace_inv e hs s' cols ins outs"
  using passes_half [of hs s s'] passes_fields [of hs s s'] by (simp add: trace_inv_def)

lemma half_wiring: "half_inv e hs s cols ins outs \<Longrightarrow> wiring hs s"
  by (simp add: half_inv_def unit_inv_def)

lemma trace_wiring: "trace_inv e hs s cols ins outs \<Longrightarrow> wiring hs s"
  unfolding trace_inv_def using half_wiring by blast

text \<open>Injection of an address and the call of the unit.\<close>

lemma given_next:
  assumes "given e hs s cols ins" "next_address (featTrace s) (featTrace s') new" "featTrace s = [] \<longrightarrow> file_read_complete s"
    "file_read_complete s' = file_read_complete s"
    "map d_value (hd (chanBuffer (heap_of s ! h_lse hs))) @ new = map fst acc @ map d_value (hd (chanBuffer (heap_of s' ! h_lse hs)))"
  shows "given e hs s' cols (ins @ acc)"
proof -
  obtain dn junk where d: "addresses e cols = dn @ featTrace s"
    "map ucast dn @ junk = map fst ins @ map d_value (hd (chanBuffer (heap_of s ! h_lse hs)))"
    "junk \<noteq> [] \<longrightarrow> featTrace s = [] \<and> file_read_complete s" using assms(1) by (auto simp: given_def)
  have all: "map ucast dn @ junk @ new = map fst (ins @ acc) @ map d_value (hd (chanBuffer (heap_of s' ! h_lse hs)))"
    using d(2) assms(5) by (metis append.assoc map_append)
  consider a where "featTrace s = a # featTrace s'" "new = [ucast a]" | "featTrace s' = featTrace s" "new = [] \<or> featTrace s = []"
    using assms(2) by (auto simp: next_address_def)
  then show ?thesis
  proof cases
    case 1
    then have "junk = []" using d(3) by auto
    with all d(1) 1 show ?thesis unfolding given_def by (intro exI [of _ "dn @ [a]"] exI [of _ "[]"]) simp
  next
    case 2
    with all d(1,3) assms(3,4) show ?thesis unfolding given_def by (intro exI [of _ dn] exI [of _ "junk @ new"]) auto
  qed
qed

lemma pair_steps:
  assumes inv: "trace_inv e hs s cols ins outs"
    and steps: "on_chans (chan_cycle (conf e) (h_root hs)) s = Inr s1" "inject hs s1 = Inr s2" "on_chans (get (conf e) (h_lse hs)) s2 = Inr s3"
  obtains acc where "unit_inv e hs s3 (ins @ acc) (outs @ delivered (heap_of s ! h_lse hs))" "given e hs s3 cols (ins @ acc)"
    "file_inv e s3 cols" "delay_q s3 = delay_q s"
proof -
  let ?q = "h_lse hs"
  note I = inv [unfolded trace_inv_def half_inv_def unit_inv_def]
  have w: "wiring hs s" using inv by (rule trace_wiring)
  note R = root_cycle [OF steps(1) w]
  obtain t where t: "heap_of s1 ! ?q = (heap_of s ! ?q)\<lparr>lastTagQueue := t\<rparr>" using R(4) by blast
  have "ch_valid (heap_of s1 ! h_root hs) \<longrightarrow> \<not> bp (heap_of s1 ! ?q) ! 0" using R(3) by blast
  note J = inject_step [OF steps(2) R(1) this]
  have q: "heap_of s2 ! ?q = (heap_of s ! ?q)\<lparr>lastTagQueue := t\<rparr>" using J(4) t by simp
  have u: "unit_ok (conf e) (heap_of s2 ! ?q) ins outs" "ch_valid (heap_of s2 ! ?q) \<longrightarrow> channel (heap_of s2 ! ?q) \<noteq> []"
    "delivered (heap_of s2 ! ?q) = delivered (heap_of s ! ?q)"
    using I by (simp_all add: q unit_ok_def delivered_def)
  have s1: "featTrace s1 = featTrace s" "delay_q s1 = delay_q s" "line_no s1 = line_no s" "file_read_complete s1 = file_read_complete s"
    using R(2) by (simp_all add: trace_state_def)
  obtain acc where a: "wiring hs s3" "trace_state s3 = trace_state s2"
    "unit_ok (conf e) (heap_of s3 ! ?q) (ins @ acc) (outs @ delivered (heap_of s2 ! ?q))"
    "ch_valid (heap_of s3 ! ?q) \<longrightarrow> channel (heap_of s3 ! ?q) \<noteq> []"
    "map d_value (hd (chanBuffer (heap_of s2 ! ?q))) @ (if ch_valid (heap_of s2 ! h_root hs) then [ch_value (heap_of s2 ! h_root hs)] else [])
       = map fst acc @ map d_value (hd (chanBuffer (heap_of s3 ! ?q)))"
    by (rule unit_cycle [OF steps(3) J(1) u(1,2)])
  have s3: "featTrace s3 = featTrace s2" "delay_q s3 = delay_q s" "line_no s3 = line_no s" "file_read_complete s3 = file_read_complete s"
    using a(2) J(3) s1 by (simp_all add: trace_state_def)
  show ?thesis
  proof (rule that [of acc])
    show "unit_inv e hs s3 (ins @ acc) (outs @ delivered (heap_of s ! ?q))" using a(1,3,4) u(3) by (simp add: unit_inv_def)
    show "given e hs s3 cols (ins @ acc)"
    proof (rule given_next)
      show "given e hs s cols ins" "featTrace s = [] \<longrightarrow> file_read_complete s" using I by blast+
      show "next_address (featTrace s) (featTrace s3) (if ch_valid (heap_of s2 ! h_root hs) then [ch_value (heap_of s2 ! h_root hs)] else [])"
        using J(2) s1(1) s3(1) by simp
      show "map d_value (hd (chanBuffer (heap_of s ! ?q))) @ (if ch_valid (heap_of s2 ! h_root hs) then [ch_value (heap_of s2 ! h_root hs)] else [])
       = map fst acc @ map d_value (hd (chanBuffer (heap_of s3 ! ?q)))" using a(5) q by simp
    qed (rule s3(4))
    show "file_inv e s3 cols" using I s3 by (simp add: file_inv_def)
  qed (rule s3(2))
qed

lemma delay_half:
  assumes "unit_inv e hs s ins outs" "given e hs s cols ins" "file_inv e s cols" "length (cols ! 1) \<le> length (delay_q s) + length outs"
    and "bind_delay arch hs s = Inr s'"
  shows "half_inv e hs s' cols ins outs"
proof -
  have w: "wiring hs s" using assms(1) by (simp add: unit_inv_def)
  note B = bind_delay_step [OF assms(5) w]
  note P = same_pairD [OF B(1)]
  have v: "length (delivered (heap_of s' ! h_lse hs)) = (if ch_valid (heap_of s ! h_lse hs) then 1 else 0)" using P(7) by (simp add: delivered_def)
  have "feeds_unit (h_root hs) (h_lse hs) (heap_of s')" using B(1) w same_pair_feeds by blast
  moreover have "unit_ok (conf e) (heap_of s' ! h_lse hs) ins outs" using assms(1) same_pair_unit [OF B(1)] by (simp add: unit_inv_def)
  moreover have "ch_valid (heap_of s' ! h_lse hs) \<longrightarrow> channel (heap_of s' ! h_lse hs) \<noteq> []" using assms(1) P(6,7) by (simp add: unit_inv_def)
  moreover have "given e hs s' cols ins" using assms(2) B(3) P(8) by (simp add: given_def)
  moreover have "file_inv e s' cols" using assms(3) B(3) by (simp add: file_inv_def)
  ultimately show ?thesis using B(2,4) v assms(4) by (simp add: half_inv_def unit_inv_def)
qed

lemma refill_step:
  assumes "refill e s = Inr s'" "half_inv e hs s cols ins outs" "0 < block_size e" "\<forall>l\<in>set (file_lines (trace_text e)). 2 < length (words l)"
  obtains cols' where "trace_inv e hs s' cols' ins outs"
proof (cases "featTrace s = [] \<and> \<not> file_read_complete s")
  case False
  with assms(1,2) that [of cols] show ?thesis by (auto simp: refill_def trace_inv_def)
next
  case True
  note H = assms(2) [unfolded half_inv_def file_inv_def]
  have cols: "columns (take (line_no s) (file_lines (trace_text e))) = Inr cols" using H by blast
  obtain new where n: "file_inv e s' (glue cols new)" "g_reg s' = g_reg s" "length new = 5"
    "featTrace s' = featTrace s @ addresses e new" "delay_q s' = delay_q s @ new ! 1" "addresses e new = [] \<longrightarrow> file_read_complete s'"
    by (rule read_trace_step [OF _ assms(3,4) cols]) (use assms(1) True in \<open>simp_all add: refill_def\<close>)
  have g: "addresses e (glue cols new) = addresses e cols @ addresses e new" "length (glue cols new ! 1) = length (cols ! 1) + length (new ! 1)"
    using columns_length [OF cols] n(3) by (simp_all add: addresses_def nth_glue)
  have "given e hs s' (glue cols new) ins"
    using H True n(2,4) g(1) by (auto simp: given_def)
  then have "half_inv e hs s' (glue cols new) ins outs" using H n(1,2,5) g(2) by (simp add: half_inv_def unit_inv_def)
  then show ?thesis using that n(4,6) True by (simp add: trace_inv_def)
qed

lemma chain_iff: "chain (f # fs) s = Inr s' \<longleftrightarrow> (\<exists>t. f s = Inr t \<and> chain fs t = Inr s')" "chain [] s = Inr s' \<longleftrightarrow> s = s'"
  by (auto simp: rbind_Inr_iff)

lemma chain_append: "chain (fs @ gs) s = Inr s' \<longleftrightarrow> (\<exists>t. chain fs s = Inr t \<and> chain gs t = Inr s')"
  by (induction fs arbitrary: s) (auto simp: rbind_Inr_iff)

text \<open>A list of steps that pass the pair by.\<close>

lemma pass_quiet:
  assumes "g_reg s' = g_reg s" "trace_state s' = trace_state s" "wiring hs s"
  shows "passes hs s s'"
  using assms by (simp add: passes_def)

lemma pass_dog:
  "rbind (feedDog i (r_chans (g_reg s)) (g_watchdog s)) (\<lambda>(w, _). Inr (s\<lparr>g_watchdog := w\<rparr>)) = Inr s' \<Longrightarrow> wiring hs s \<Longrightarrow> passes hs s s'"
  by (rule pass_quiet) (auto simp: rbind_Inr_iff trace_state_def)

lemma pass_clk: "wiring hs s \<Longrightarrow> passes hs s (s\<lparr>g_clk := k\<rparr>)"
  by (rule pass_quiet) (auto simp: trace_state_def)

lemma pass_stop:
  "(if featTrace s = [] \<and> delay_q s = [] then set_chan (h_end hs) f s else Inr s) = Inr s' \<Longrightarrow> wiring hs s \<Longrightarrow> passes hs s s'"
  using pass_set [of "h_end hs" f s s' hs] pass_quiet [of s s hs] by (auto split: if_split_asm)

lemma chain_passes:
  assumes "chain fs s = Inr s'" "wiring hs s" "\<And>f s s'. f \<in> set fs \<Longrightarrow> f s = Inr s' \<Longrightarrow> wiring hs s \<Longrightarrow> passes hs s s'"
  shows "passes hs s s'"
  using assms
proof (induction fs arbitrary: s)
  case Nil
  then show ?case by (auto intro: pass_quiet)
next
  case (Cons f fs)
  then obtain t where t: "f s = Inr t" "chain fs t = Inr s'" by (auto simp: rbind_Inr_iff)
  then have p: "passes hs s t" using Cons.prems(2,3) by (metis list.set_intros(1))
  then have "passes hs t s'" using Cons.IH [OF t(2) passes_wiring [OF p Cons.prems(2)]] Cons.prems(3) by (meson list.set_intros(2))
  with p show ?case by (rule passes_trans)
qed

lemma iteration_inv:
  assumes inv: "trace_inv e hs s cols ins outs" and rows: "0 < block_size e" "\<forall>l\<in>set (file_lines (trace_text e)). 2 < length (words l)"
    and run: "gcn_iteration e hs iter s = Inr (over, s')"
  obtains cols' acc where "trace_inv e hs s' cols' (ins @ acc) (outs @ delivered (heap_of s ! h_lse hs))"
proof -
  let ?g = "conf e"
  let ?A = "[\<lambda>s. rbind (feedDog iter (r_chans (g_reg s)) (g_watchdog s)) (\<lambda>(w, _). Inr (s\<lparr>g_watchdog := w\<rparr>)),
      \<lambda>s. Inr (s\<lparr>g_clk := clkUpdate (g_clk s)\<rparr>), lc_cycle ?g (h_lc hs), set_chan (h_begin hs) (\<lambda>c. c\<lparr>ch_valid := False\<rparr>),
      on_chans (chan_cycle ?g (h_i_lc hs))]"
  let ?B = "[set_chan (h_lse hs) (\<lambda>c. c\<lparr>ch_value := ch_value c + 1\<rparr>)]"
  let ?C = "[on_chans (chan_cycle ?g (h_systolic hs)), set_chan (h_systolic hs) (\<lambda>c. c\<lparr>ch_cycle := systolic_cycle\<rparr>),
      on_chans (chan_cycle ?g (h_active hs))]"
  let ?D = "[memory_cycle ?g (dram_of e), profiler_cycle, on_chans (get ?g (h_end hs)),
      \<lambda>s. if featTrace s = [] \<and> delay_q s = [] then set_chan (h_end hs) (\<lambda>c. c\<lparr>channel := channel c @ [data0]\<rparr>) s else Inr s]"
  have "chain (?A @ [on_chans (chan_cycle ?g (h_root hs)), inject hs, on_chans (get ?g (h_lse hs))] @ ?B
      @ [bind_delay (arch_name e) hs] @ ?C @ [refill e] @ ?D) s = Inr s'"
    using run unfolding gcn_iteration_def Let_def by (auto simp: rbind_Inr_iff deref_Inr_iff simp del: chain.simps)
  then obtain s1 s2 s3 s4 s5 s6 s7 s8 where A: "chain ?A s = Inr s1"
    and P: "on_chans (chan_cycle ?g (h_root hs)) s1 = Inr s2" "inject hs s2 = Inr s3" "on_chans (get ?g (h_lse hs)) s3 = Inr s4"
    and B: "chain ?B s4 = Inr s5" and b: "bind_delay (arch_name e) hs s5 = Inr s6"
    and C: "chain ?C s6 = Inr s7" and r: "refill e s7 = Inr s8" and D: "chain ?D s8 = Inr s'"
    unfolding chain_append chain_iff by blast
  have pA: "passes hs s s1" using A trace_wiring [OF inv]
    by (rule chain_passes) (auto intro: pass_dog pass_clk pass_lc pass_set pass_cycle)
  obtain acc where m: "unit_inv e hs s4 (ins @ acc) (outs @ delivered (heap_of s1 ! h_lse hs))" "given e hs s4 cols (ins @ acc)"
    "file_inv e s4 cols" "delay_q s4 = delay_q s1"
    by (rule pair_steps [OF passes_inv [OF pA inv] P])
  have pB: "passes hs s4 s5"
    using B m(1) by (auto simp: unit_inv_def rbind_Inr_iff intro: bump_value)
  note FA = passes_fields [OF pA] and FB = passes_fields [OF pB]
  have 5: "unit_inv e hs s5 (ins @ acc) (outs @ delivered (heap_of s ! h_lse hs))" "given e hs s5 cols (ins @ acc)" "file_inv e s5 cols"
    using passes_unit [OF pB m(1)] m(2,3) FA(6) FB by (simp_all add: given_def file_inv_def)
  have "length (cols ! 1) \<le> length (delay_q s5) + length (outs @ delivered (heap_of s ! h_lse hs))"
    using inv FA(2) FB(2) m(4) by (simp add: trace_inv_def half_inv_def)
  from delay_half [OF 5 this b] have 6: "half_inv e hs s6 cols (ins @ acc) (outs @ delivered (heap_of s ! h_lse hs))" .
  have "passes hs s6 s7" using C half_wiring [OF 6]
    by (rule chain_passes) (auto intro: pass_set pass_cycle)
  from refill_step [OF r passes_half [OF this 6] rows] obtain cols' where
    8: "trace_inv e hs s8 cols' (ins @ acc) (outs @ delivered (heap_of s ! h_lse hs))" .
  have "passes hs s8 s'" using D trace_wiring [OF 8]
    by (rule chain_passes) (auto intro: pass_memory pass_profiler pass_get pass_stop)
  from that [OF passes_inv [OF this 8]] show ?thesis .
qed

section \<open>Runs\<close>

text \<open>The values that the unit announces in the first \<open>n\<close> iterations, or in all when the run ends before.\<close>

definition announced :: "handles \<Rightarrow> 'm gcn \<Rightarrow> i32 list" where
  "announced hs s = map fst (delivered (r_chans (g_reg s) ! h_lse hs))"

fun gcn_run :: "'m setting \<Rightarrow> handles \<Rightarrow> nat \<Rightarrow> nat \<Rightarrow> 'm gcn \<Rightarrow> (i32 list \<times> 'm gcn) res" where
  "gcn_run e hs iter 0 s = Inr ([], s)"
| "gcn_run e hs iter (Suc n) s = rbind (gcn_iteration e hs iter s) (\<lambda>(over, s).
     if over then Inr (announced hs s, s) else rbind (gcn_run e hs (iter + 1) n s) (\<lambda>(out, s'). Inr (announced hs s @ out, s')))"

text \<open>The iterations of the loop are such a run.\<close>

lemma gcn_loop_run:
  assumes "gcn_loop e hs iter s = Some r" "r = Inr (k, s')"
  shows "iter \<le> k \<and> (\<exists>out. gcn_run e hs iter (Suc (k - iter)) s = Inr (out, s'))"
  using assms(2)
proof (induction rule: gcn_loop.raw_induct [OF _ assms(1)])
  case (1 loop e hs iter s r)
  obtain over s1 where it: "gcn_iteration e hs iter s = Inr (over, s1)" using 1(2,3) by (auto split: sum.split_asm)
  show ?case
  proof (cases over)
    case True
    with 1(2,3) it show ?thesis by simp
  next
    case False
    with 1(2) it have "loop e hs (iter + 1) s1 = Some r" by simp
    from 1(1) [OF this 1(3)] obtain out where
      k: "iter + 1 \<le> k" "gcn_run e hs (iter + 1) (Suc (k - (iter + 1))) s1 = Inr (out, s')" by blast
    then have "k - iter = Suc (k - (iter + 1))" by simp
    with k it False show ?thesis by simp
  qed
qed

lemma run_inv:
  assumes "trace_inv e hs s cols ins outs" "0 < block_size e" "\<forall>l\<in>set (file_lines (trace_text e)). 2 < length (words l)"
    and "gcn_run e hs iter n s = Inr (out, s')"
  shows "\<exists>cols' ins' outs'. trace_inv e hs s' cols' ins' outs'
    \<and> map fst outs' @ announced hs s' = map fst outs @ announced hs s @ out"
  using assms(1,4)
proof (induction n arbitrary: iter s cols ins outs out)
  case 0
  then show ?case by auto
next
  case (Suc n)
  obtain over s1 where r: "gcn_iteration e hs iter s = Inr (over, s1)" using Suc.prems(2) by (auto simp: rbind_Inr_iff)
  obtain cols' acc where inv: "trace_inv e hs s1 cols' (ins @ acc) (outs @ delivered (heap_of s ! h_lse hs))"
    by (rule iteration_inv [OF Suc.prems(1) assms(2,3) r(1)])
  show ?case
  proof (cases over)
    case True
    with r Suc.prems(2) have "s1 = s'" "out = announced hs s'" by auto
    with inv show ?thesis unfolding announced_def by (intro exI conjI) (simp, simp)
  next
    case False
    with r Suc.prems(2) obtain o1 where o1: "gcn_run e hs (iter + 1) n s1 = Inr (o1, s')" "out = announced hs s1 @ o1"
      by (auto simp: rbind_Inr_iff)
    from Suc.IH [OF inv o1(1)] show ?thesis by (simp add: o1(2) announced_def)
  qed
qed

text \<open>A unit that has not been used.\<close>

definition fresh_unit :: "lse \<Rightarrow> bool" where
  "fresh_unit l \<longleftrightarrow> lse_reqQueue l \<noteq> [] \<and> list_all (\<lambda>(r, d). \<not> m_valid r) (lse_reqQueue l) \<and> orderId l = 0 \<and> pushQueuePtr l = 0
     \<and> sendChanPtr l = 0 \<and> currReqId l = 0 \<and> valueQueue l = []"

lemma fresh_unit_ok:
  assumes "sub c = ChanLse l" "fresh_unit l" "channel c = []"
  shows "unit_ok g c [] []"
proof -
  have free: "\<not> fst (slots l ! (k mod length (slots l)))" for k
  proof -
    have k: "k mod length (lse_reqQueue l) < length (lse_reqQueue l)" using assms(2) by (simp add: fresh_unit_def)
    have "\<forall>n<length (lse_reqQueue l). case lse_reqQueue l ! n of (r, d) \<Rightarrow> \<not> m_valid r"
      using assms(2) by (simp add: fresh_unit_def list_all_length)
    then have "case lse_reqQueue l ! (k mod length (lse_reqQueue l)) of (r, d) \<Rightarrow> \<not> m_valid r" using k by (elim allE impE)
    with k show ?thesis by (simp add: slots_def split_beta)
  qed
  have "0 < length (slots l)" using assms(2) by (simp add: fresh_unit_def)
  moreover have "\<not> fst (slots l ! k)" if "k < length (slots l)" for k using free [of k] that by simp
  ultimately have "ring (slots l) [] [] [] 0" unfolding ring_def by (simp del: length_slots)
  with assms show ?thesis unfolding unit_ok_def by (intro exI [of _ l] exI [of _ 0]) (simp add: fresh_unit_def)
qed

definition ready :: "handles \<Rightarrow> registry \<Rightarrow> bool" where
  "ready hs r \<longleftrightarrow> feeds_unit (h_root hs) (h_lse hs) (r_chans r) \<and> apart hs r \<and> (let c = r_chans r ! h_lse hs in
     fresh_unit (lse_of (sub c)) \<and> channel c = [] \<and> chanBuffer c = [[]] \<and> \<not> ch_valid c)"

text \<open>Where the program starts to read the trace.\<close>

definition at_start :: "handles \<Rightarrow> 'm gcn \<Rightarrow> bool" where
  "at_start hs s \<longleftrightarrow> ready hs (g_reg s) \<and> featTrace s = [] \<and> delay_q s = [] \<and> line_no s = 0"

lemma read_trace_reg: "read_trace e s = Inr s' \<Longrightarrow> g_reg s' = g_reg s"
  by (auto simp: read_trace_def rbind_Inr_iff)

lemma gcn_start_at_start:
  assumes "gcn_start e sp r k m = Inr (hs, s)" "ready hs (g_reg s)"
  shows "\<exists>s0. at_start hs s0 \<and> read_trace e s0 = Inr s"
proof -
  obtain s0 where s0: "read_trace e s0 = Inr s" "featTrace s0 = []" "delay_q s0 = []" "line_no s0 = 0"
    using assms(1) unfolding gcn_start_def by (auto simp: rbind_Inr_iff)
  with read_trace_reg [OF s0(1)] assms(2) show ?thesis by (auto simp: at_start_def)
qed

lemma start_inv:
  assumes "at_start hs s0" "read_trace e s0 = Inr s" "0 < block_size e" "\<forall>l\<in>set (file_lines (trace_text e)). 2 < length (words l)"
  shows "\<exists>cols. trace_inv e hs s cols [] []" "announced hs s = []"
proof -
  have s0: "featTrace s0 = []" "delay_q s0 = []" "line_no s0 = 0" using assms(1) by (simp_all add: at_start_def)
  have r: "ready hs (g_reg s)" using assms(1) read_trace_reg [OF assms(2)] by (simp add: at_start_def)
  then show "announced hs s = []" by (simp add: ready_def announced_def delivered_def Let_def)
  have "columns (take (line_no s0) (file_lines (trace_text e))) = Inr (replicate 5 [])" by (simp add: s0(3) columns_def)
  then obtain new where n: "file_inv e s (glue (replicate 5 []) new)" "length new = 5" "featTrace s = featTrace s0 @ addresses e new"
    "delay_q s = delay_q s0 @ new ! 1" "addresses e new = [] \<longrightarrow> file_read_complete s"
    by (rule read_trace_step [OF assms(2-4)])
  have glue: "glue (replicate 5 []) new = new" by (rule nth_equalityI) (simp_all add: n(2) nth_glue)
  obtain l where l: "sub (heap_of s ! h_lse hs) = ChanLse l"
    using r feedsD(8) unfolding ready_def by blast
  have "unit_inv e hs s [] []"
    using r fresh_unit_ok [OF l] l by (simp add: ready_def unit_inv_def Let_def)
  moreover have "given e hs s new []" using n(3) s0(1) r by (simp add: given_def ready_def Let_def)
  ultimately show "\<exists>cols. trace_inv e hs s cols [] []" using n(1,3,4,5) s0(1,2) glue by (auto simp: trace_inv_def half_inv_def)
qed

lemma announced_inv:
  assumes "unit_inv e hs s ins outs" "given e hs s cols ins"
  obtains dn junk where "addresses e cols = dn @ featTrace s" "prefix (map fst outs @ announced hs s) (map ucast dn @ junk)"
    "junk \<noteq> [] \<longrightarrow> featTrace s = [] \<and> file_read_complete s"
proof -
  let ?c = "heap_of s ! h_lse hs"
  have u: "unit_ok (conf e) ?c ins outs" "ch_valid ?c \<longrightarrow> channel ?c \<noteq> []" using assms(1) by (simp_all add: unit_inv_def)
  obtain l where l: "sub ?c = ChanLse l" using u(1) by (auto simp: unit_ok_def)
  obtain c' where "unit_ok (conf e) c' ins (outs @ delivered ?c)" using lse_pop_ok [OF u(1) l u(2)] by blast
  then have "outs @ delivered ?c = take (length (outs @ delivered ?c)) ins" unfolding unit_ok_def by (blast dest: ringD(5))
  then have "map fst outs @ announced hs s = take (length (outs @ delivered ?c)) (map fst ins)"
    unfolding announced_def by (metis map_append take_map)
  then have "prefix (map fst outs @ announced hs s) (map fst ins)" by (simp add: take_is_prefix)
  then have p: "prefix (map fst outs @ announced hs s) (map fst ins @ B)" for B by simp
  obtain dn junk where d: "addresses e cols = dn @ featTrace s" "map ucast dn @ junk = map fst ins @ map d_value (hd (chanBuffer ?c))"
    "junk \<noteq> [] \<longrightarrow> featTrace s = [] \<and> file_read_complete s" using assms(2) by (auto simp: given_def)
  show ?thesis by (rule that [of dn junk]) (use d p in \<open>simp_all\<close>)
qed

section \<open>Property\<close>

text \<open>C3: the load/store unit of the benchmark announces the addresses of the trace file, its third column times the length of
  a feature cut to 32 bits, in the order of the file, none lost and none twice, whatever the memory, its delays and
  the blocks in which the file is read; behind them only what it loads when the trace has run out. When the trace and the
  delays are used up, all have been announced. (\<open>gcn_start\<close> reads the trace in such a state, by \<open>gcn_start_at_start\<close>.)\<close>

theorem trace_in_order:
  assumes "at_start hs s0" "read_trace e s0 = Inr s" "0 < block_size e"
    and "\<forall>l\<in>set (file_lines (trace_text e)). 2 < length (words l)"
    and "readFileByColumn (trace_text e) (replicate 5 []) = Inr cols"
    and "gcn_run e hs 0 n s = Inr (out, s')"
    and "T = map (\<lambda>v. ucast (v * feat_length e)) (cols ! 2)"
  shows "prefix (take (length T) out) T \<and> (featTrace s' = [] \<and> delay_q s' = [] \<longrightarrow> take (length T) out = T)"
proof -
  let ?L = "file_lines (trace_text e)"
  obtain cols0 where i0: "trace_inv e hs s cols0 [] []" using start_inv(1) [OF assms(1-4)] by blast
  obtain cols' ins outs where inv: "trace_inv e hs s' cols' ins outs" "map fst outs @ announced hs s' = announced hs s @ out"
    using run_inv [OF i0 assms(3,4,6)] by auto
  then have out: "map fst outs @ announced hs s' = out" using start_inv(2) [OF assms(1-4)] by simp
  note I = inv(1) [unfolded trace_inv_def half_inv_def file_inv_def]
  obtain dn junk where d: "addresses e cols' = dn @ featTrace s'" "prefix out (map ucast dn @ junk)"
    "junk \<noteq> [] \<longrightarrow> featTrace s' = [] \<and> file_read_complete s'"
    by (rule announced_inv [of e hs s' ins outs cols']) (use I out in auto)
  have c': "columns (take (line_no s') ?L) = Inr cols'" using I by blast
  have "columns (take (line_no s') ?L @ drop (line_no s') ?L) = Inr cols" using assms(5) by (simp add: columns_def readFileByColumn_def)
  then obtain rest where rest: "columns (drop (line_no s') ?L) = Inr rest" "cols = glue cols' rest"
    using c' by (auto simp: columns_append rbind_Inr_iff simp del: append_take_drop_id)
  have "T = map ucast (addresses e cols)" using assms(7) by (simp add: addresses_def)
  also have "addresses e cols = addresses e cols' @ addresses e rest"
    using rest(2) columns_length [OF c'] columns_length [OF rest(1)] by (simp add: addresses_def nth_glue)
  finally have T: "T = map ucast (dn @ featTrace s' @ addresses e rest)" using d(1) by simp
  have over: "T = map ucast dn" "take (line_no s') ?L = ?L" if "featTrace s' = []" "file_read_complete s'"
  proof -
    show "take (line_no s') ?L = ?L" using that I by simp
    have "drop (line_no s') ?L = []" using that I by simp
    then have "rest = replicate 5 []" using rest(1) by (simp add: columns_def)
    then have "addresses e rest = []" by (simp add: addresses_def)
    then show "T = map ucast dn" using T that by simp
  qed
  have pre: "prefix (take (length T) out) T"
  proof (cases "junk = []")
    case True
    then have "prefix out T" using d(2) T by (auto simp: prefix_def)
    then show ?thesis by (metis prefix_order.trans take_is_prefix)
  next
    case False
    then have "prefix out (T @ junk)" using d(2,3) over by simp
    then show ?thesis by (metis append_eq_conv_conj prefixE prefixI take_append)
  qed
  moreover have "take (length T) out = T" if "featTrace s' = [] \<and> delay_q s' = []"
  proof -
    have complete: "file_read_complete s'" using that I by blast
    have "columns ?L = Inr cols'" using c' over(2) that complete by simp
    then have "length (cols' ! 1) = length ?L" "length (cols' ! 2) = length ?L"
      by (rule columns_count; use assms(4) in fastforce)+
    moreover have "length T = length (cols' ! 2)" using over(1) d(1) that complete by (metis addresses_def append_Nil2 length_map)
    moreover have "length (cols' ! 1) \<le> length out" using I that out by (auto simp: announced_def)
    ultimately have "length (take (length T) out) = length T" by simp
    moreover obtain rest where "T = take (length T) out @ rest" using pre by (auto simp: prefix_def)
    ultimately show ?thesis by (metis append_Nil2 append_eq_append_conv)
  qed
  ultimately show ?thesis by blast
qed

text \<open>The network of the benchmark without the sizes that \<open>tune\<close> sets, on a trace of two lines and with a memory that
  answers one request per cycle.\<close>

definition prompt_dram :: "(bool \<times> u64) list dram" where
  "prompt_dram = \<lparr>d_willAccept = \<lambda>_ _ _. True, d_add = \<lambda>m a w. m @ [(w, a)], d_tick = \<lambda>m. (tl m, take 1 m)\<rparr>"

definition demo_setting :: "(bool \<times> u64) list setting" where
  "demo_setting = \<lparr>conf = cfg_demo, trace_text = Some (''0 0 5'' @ endl @ ''0 0 7''), block_size = 2, feat_length = 3,
     arch_name = ''hygcn'', dram_of = prompt_dram\<rparr>"

definition demo_network :: registry where
  "demo_network = projr (the (gcn_modules cfg_demo [''loop_i'', ''loop_j''] (projr (memSystem_new cfg_demo 0 []))))"

definition demo_start :: "(handles \<times> (bool \<times> u64) list gcn) res" where
  "demo_start = rbind (configGraphScheduler demo_network scheduler_new) (\<lambda>(r, sc). rbind (handles_of r) (\<lambda>(hs, r).
     rbind (registry_init r) (\<lambda>r. rbind (schedulerInit sc (r_chans r)) (\<lambda>(sc, h).
     rbind (get_data cfg_demo [1] (h_begin hs) (clk_static_init, h)) (\<lambda>(k, h).
       Inr (hs, \<lparr>g_clk = k, g_reg = r\<lparr>r_chans := h\<rparr>, g_dram = [], g_watchdog = addCheckPointChan [h_end hs] (watchdog_new 4 4),
         g_profiler = profiler_init r profiler_new, g_sched = sc, lc_var = 0, featTrace = [], delay_q = [], line_no = 0,
         file_read_complete = False, buffer_access_cnt = 0\<rparr>))))))"

definition trace_demo :: "nat \<Rightarrow> (handles \<times> (bool \<times> u64) list gcn \<times> (bool \<times> u64) list gcn \<times> i32 list \<times> (bool \<times> u64) list gcn) res" where
  "trace_demo n = rbind demo_start (\<lambda>(hs, s0). rbind (read_trace demo_setting s0) (\<lambda>s.
     rbind (gcn_run demo_setting hs 0 n s) (\<lambda>(out, s'). Inr (hs, s0, s, out, s'))))"

lemma demo_run_ends: "case trace_demo 8 of Inl x \<Rightarrow> False | Inr (hs, s0, s, out, s') \<Rightarrow> at_start hs s0 \<and> featTrace s' = [] \<and> delay_q s' = []"
  by code_simp

lemma demo_columns: "readFileByColumn (trace_text demo_setting) (replicate 5 []) = Inr [[0, 0], [0, 0], [5, 7], [], []]"
  by code_simp

theorem trace_in_order_witness:
  "\<exists>hs s out s'. gcn_run demo_setting hs 0 8 s = Inr (out, s') \<and> take 2 out = [15, 21]"
proof -
  obtain hs s0 s out s' where d: "trace_demo 8 = Inr (hs, s0, s, out, s')" "at_start hs s0" "featTrace s' = []" "delay_q s' = []"
    using demo_run_ends by (auto split: sum.split_asm)
  then have r: "read_trace demo_setting s0 = Inr s" "gcn_run demo_setting hs 0 8 s = Inr (out, s')"
    by (auto simp: trace_demo_def rbind_Inr_iff)
  have "0 < block_size demo_setting" "\<forall>l\<in>set (file_lines (trace_text demo_setting)). 2 < length (words l)" by code_simp+
  note T = trace_in_order [OF d(2) r(1) this demo_columns r(2) refl]
  have v: "map (\<lambda>v. ucast (v * feat_length demo_setting)) ([[0, 0], [0, 0], [5, 7], [], []] ! 2) = ([15, 21] :: i32 list)" by code_simp
  have l: "length ([15, 21] :: i32 list) = 2" by simp
  from T [unfolded v l] d(3,4) have "take 2 out = [15, 21]" by blast
  with r(2) show ?thesis by blast
qed

end
