(* ===== verification/Arithmetic.thy ===== *)
theory Arithmetic
  imports RegistryConnect "HOL-Library.Signed_Division"
begin

unbundle bit_operations_syntax

text \<open>
  The arithmetic unit of a channel (\<open>Channel::aluUpdate\<close>, \<open>Channel::funcUpdate\<close>) and the access of a load/store unit to
  the array behind it (\<open>Lse::funcUpdate\<close>), with the initialisation of its buffers by the registry. The calls of
  \<open>funcUpdate\<close> in the hand-shake are commented out. \<open>int\<close> is the 32-bit type of the platform; an
  operation whose value it does not hold is undefined.
\<close>

section \<open>Operations on int\<close>

definition int_result :: "int \<Rightarrow> i32 res" where
  "int_result z = (if - (2 ^ 31) \<le> z \<and> z < 2 ^ 31 then Inr (word_of_int z) else Inl Overflow)"

text \<open>A shift by a negative number or by the width is undefined, as is a shift to the left of a negative number
  or one that loses bits of the unsigned value; one to the right keeps the sign.\<close>

definition shift_count :: "i32 \<Rightarrow> nat res" where
  "shift_count b = (if 0 \<le> sint b \<and> sint b < 32 then Inr (nat (sint b)) else Inl Overflow)"

definition shl :: "i32 \<Rightarrow> i32 \<Rightarrow> i32 res" where
  "shl a b = rbind (shift_count b) (\<lambda>k.
     if 0 \<le> sint a \<and> sint a * 2 ^ k < 2 ^ 32 then Inr (word_of_int (sint a * 2 ^ k)) else Inl Overflow)"

definition shr :: "i32 \<Rightarrow> i32 \<Rightarrow> i32 res" where
  "shr a b = rbind (shift_count b) (\<lambda>k. Inr (word_of_int (sint a div 2 ^ k)))"

definition int_quotient :: "i32 \<Rightarrow> i32 \<Rightarrow> i32 res" where
  "int_quotient a b = (if b = 0 then Inl ModByZero else int_result (sint a sdiv sint b))"

text \<open>The remainder is undefined where the quotient is.\<close>

definition int_remainder :: "i32 \<Rightarrow> i32 \<Rightarrow> i32 res" where
  "int_remainder a b = rbind (int_quotient a b) (\<lambda>_. Inr (word_of_int (sint a smod sint b)))"

definition truth :: "bool \<Rightarrow> i32" where
  "truth p = (if p then 1 else 0)"

section \<open>The arithmetic unit (Channel.cpp)\<close>

text \<open>The function that a channel may be given is an argument; it takes the operands, which are pointers.\<close>

fun aluUpdate :: "('p list \<Rightarrow> i32 res) option \<Rightarrow> 'p list \<Rightarrow> alu_op \<Rightarrow> i32 list \<Rightarrow> i32 res" where
  "aluUpdate fp ptrs opr ins = rbind (rnth ins 0) (\<lambda>in1. rbind (rnth ins 1) (\<lambda>in2. rbind (rnth ins 2) (\<lambda>in3.
     case opr of
       Nop \<Rightarrow> Inr in1
     | Add \<Rightarrow> int_result (sint in1 + sint in2)
     | Sub \<Rightarrow> int_result (sint in1 - sint in2)
     | Mul \<Rightarrow> int_result (sint in1 * sint in2)
     | Div \<Rightarrow> int_quotient in1 in2
     | Mod \<Rightarrow> int_remainder in1 in2
     | Mac \<Rightarrow> rbind (int_result (sint in1 * sint in2)) (\<lambda>p. int_result (sint p + sint in3))
     | Cmp \<Rightarrow> Inr (truth (sint in2 < sint in1))
     | Sel \<Rightarrow> Inr (if in1 \<noteq> 0 then in2 else in3)
     | And \<Rightarrow> Inr (truth (in1 \<noteq> 0 \<and> in2 \<noteq> 0))
     | Or \<Rightarrow> Inr (truth (in1 \<noteq> 0 \<or> in2 \<noteq> 0))
     | Not \<Rightarrow> Inr (NOT in1)
     | Shl \<Rightarrow> shl in1 in2
     | Shr \<Rightarrow> shr in1 in2
     | Func \<Rightarrow> (case fp of None \<Rightarrow> Inl NullPointer | Some f \<Rightarrow> f ptrs)
     | _ \<Rightarrow> Inl (Throw ''Undefined Alu_op!''))))"

declare aluUpdate.simps [simp del]

record 'p alu =
  aluOp :: alu_op
  aluInput :: "i32 list"
  buffer2Alu :: "i32 list"
  operand :: "'p list"

definition alu_new :: "'p alu" where
  "alu_new = \<lparr>aluOp = Nop, aluInput = [1, 1, 1], buffer2Alu = [], operand = []\<rparr>"

definition initAluInput :: "chan \<Rightarrow> 'p alu \<Rightarrow> 'p alu" where
  "initAluInput c a = a\<lparr>buffer2Alu := resize (in_slots c) 0 (buffer2Alu a)\<rparr>"

definition fetch_fronts :: "chan \<Rightarrow> i32 list \<Rightarrow> i32 list res" where
  "fetch_fronts c = rfold (\<lambda>i b. case chanBuffer c ! i of
       [] \<Rightarrow> Inr b
     | d # _ \<Rightarrow> if i < length b then Inr (b[i := d_value d]) else Inl OutOfBounds) [0..<length (chanBuffer c)]"

text \<open>What a pointer points to depends on the fetched values, in which most of them are meant to lie.\<close>

definition fetch_operands :: "('p \<Rightarrow> i32) \<Rightarrow> 'p list \<Rightarrow> i32 list \<Rightarrow> i32 list res" where
  "fetch_operands at ptrs = rfold (\<lambda>i ins. if i < length ins then Inr (ins[i := at (ptrs ! i)]) else Inl OutOfBounds) [0..<length ptrs]"

definition funcUpdate :: "(i32 list \<Rightarrow> 'p \<Rightarrow> i32) \<Rightarrow> ('p list \<Rightarrow> i32 res) option \<Rightarrow> chan \<Rightarrow> 'p alu \<Rightarrow> (chan \<times> 'p alu) res" where
  "funcUpdate at fp c a = (if ch_valid c
     then rbind (fetch_fronts c (buffer2Alu a)) (\<lambda>b. rbind (fetch_operands (at b) (operand a) (aluInput a)) (\<lambda>ins.
       rbind (aluUpdate fp (operand a) (aluOp a) ins) (\<lambda>v.
         Inr (c\<lparr>ch_value := v\<rparr>, a\<lparr>buffer2Alu := b, aluInput := ins\<rparr>))))
     else Inr (c, a))"

section \<open>The array behind a load/store unit (Lse.cpp)\<close>

definition array_index :: "lse \<Rightarrow> data \<Rightarrow> nat" where
  "array_index l d = unat (scast (d_value d) - baseAddr l)"

text \<open>The array behind the pointer may be shared by several units, so it is an argument, which is absent for a null pointer. The values of a storing unit wait in its
  \<open>valueQueue\<close>, which \<open>enqueue\<close> and \<open>lse_pop\<close> maintain.\<close>

definition lse_funcUpdate :: "chan \<Rightarrow> lse \<Rightarrow> i32 list option \<Rightarrow> (chan \<times> i32 list option) res" where
  "lse_funcUpdate c l mem = (if ch_valid c
     then (case mem of None \<Rightarrow> Inl NullPointer | Some xs \<Rightarrow>
       rbind (rfront (channel c)) (\<lambda>d. rbind (rnth xs (array_index l d)) (\<lambda>v.
         if lse_isWrite l
         then rbind (rfront (valueQueue l)) (\<lambda>w. Inr (c\<lparr>ch_value := v\<rparr>, Some (xs[array_index l d := w])))
         else Inr (c\<lparr>ch_value := v\<rparr>, mem))))
     else Inr (c, mem))"

section \<open>Values\<close>

lemma sint_bounds: "- (2 ^ 31) \<le> sint (a :: i32)" "sint (a :: i32) < 2 ^ 31"
  using sint_ge [of a] sint_lt [of a] by simp_all

lemma sint_word_of: "- (2 ^ 31) \<le> z \<Longrightarrow> z < 2 ^ 31 \<Longrightarrow> sint (word_of_int z :: i32) = z"
  by (simp add: sint_sbintrunc' signed_take_bit_int_eq_self)

lemma int_result_Inr: "int_result z = Inr v \<longleftrightarrow> sint v = z"
  using sint_bounds [of v] by (auto simp: int_result_def sint_word_of)

text \<open>The unit returns the exact value where the type holds it, and only then.\<close>

lemma alu_exact:
  "aluUpdate fp ptrs Add [a, b, c] = Inr v \<longleftrightarrow> sint v = sint a + sint b"
  "aluUpdate fp ptrs Sub [a, b, c] = Inr v \<longleftrightarrow> sint v = sint a - sint b"
  "aluUpdate fp ptrs Mul [a, b, c] = Inr v \<longleftrightarrow> sint v = sint a * sint b"
  "aluUpdate fp ptrs Mac [a, b, c] = Inr v \<longleftrightarrow> sint v = sint a * sint b + sint c
     \<and> - (2 ^ 31) \<le> sint a * sint b \<and> sint a * sint b < 2 ^ 31"
proof -
  have "(\<exists>x. sint (x :: i32) = z \<and> P (sint x)) \<longleftrightarrow> - (2 ^ 31) \<le> z \<and> z < 2 ^ 31 \<and> P z" for z P
    using sint_bounds sint_word_of [of z] by auto
  note mac = this [of "sint a * sint b" "\<lambda>p. sint v = p + sint c"]
  show "aluUpdate fp ptrs Mac [a, b, c] = Inr v \<longleftrightarrow> sint v = sint a * sint b + sint c
     \<and> - (2 ^ 31) \<le> sint a * sint b \<and> sint a * sint b < 2 ^ 31"
    using mac by (simp add: aluUpdate.simps int_result_Inr rbind_Inr_iff) blast
qed (simp_all add: aluUpdate.simps int_result_Inr)

lemma int_quotient_Inl: "int_quotient a b = Inl e \<longleftrightarrow> (b = 0 \<and> e = ModByZero) \<or> (sint a = - (2 ^ 31) \<and> sint b = - 1 \<and> e = Overflow)"
proof -
  have "- (2 ^ 31) \<le> sint a sdiv sint b" "sint a sdiv sint b \<le> 2 ^ 31"
    using sdiv_int_range [of "sint a" "sint b"] sint_bounds [of a] by auto
  moreover have "sint a sdiv sint b = 2 ^ 31 \<longleftrightarrow> sint a = - (2 ^ 31) \<and> sint b = - 1"
  proof
    assume q: "sint a sdiv sint b = 2 ^ 31"
    then have "sint a = - (2 ^ 31)"
      using sdiv_int_range [of "sint a" "sint b"] sint_bounds [of a] by auto
    then show "sint a = - (2 ^ 31) \<and> sint b = - 1"
      using q int_sdiv_negated_is_minus1 [of "sint a" "sint b"] by simp
  qed simp
  ultimately show ?thesis by (auto simp: int_quotient_def int_result_def)
qed

text \<open>Quotient and remainder are undefined for the divisor zero and for the one quotient that is too large; otherwise
  they are those of truncating division.\<close>

lemma division_fails:
  "aluUpdate fp ptrs Div [a, b, c] = Inl e \<longleftrightarrow> (b = 0 \<and> e = ModByZero) \<or> (sint a = - (2 ^ 31) \<and> sint b = - 1 \<and> e = Overflow)"
  "aluUpdate fp ptrs Mod [a, b, c] = Inl e \<longleftrightarrow> aluUpdate fp ptrs Div [a, b, c] = Inl e"
  by (simp_all add: aluUpdate.simps int_quotient_Inl int_remainder_def rbind_Inl_iff)

lemma division_law:
  assumes "aluUpdate fp ptrs Div [a, b, c] = Inr q" "aluUpdate fp ptrs Mod [a, b, c] = Inr r"
  shows "sint a = sint q * sint b + sint r" "\<bar>sint r\<bar> < \<bar>sint b\<bar>" "sint r = 0 \<or> sgn (sint r) = sgn (sint a)"
proof -
  have b: "sint b \<noteq> 0" and q: "sint q = sint a sdiv sint b"
    using assms(1) by (auto simp: aluUpdate.simps int_quotient_def int_result_Inr signed_eq_0_iff split: if_splits)
  let ?r = "sint a smod sint b"
  have lt: "\<bar>?r\<bar> < \<bar>sint b\<bar>" using smod_int_range [OF b, of "sint a"] by auto
  then have "- (2 ^ 31) \<le> ?r" "?r < 2 ^ 31" using sint_bounds [of b] by auto
  then have r: "sint r = ?r"
    using assms by (auto simp: aluUpdate.simps int_remainder_def sint_word_of)
  show "sint a = sint q * sint b + sint r" by (simp add: q r mult.commute mult_sdiv_smod_eq)
  show "\<bar>sint r\<bar> < \<bar>sint b\<bar>" using lt r by simp
  show "sint r = 0 \<or> sgn (sint r) = sgn (sint a)"
  proof (cases "\<bar>sint a\<bar> mod \<bar>sint b\<bar> = 0")
    case False
    moreover have "0 \<le> \<bar>sint a\<bar> mod \<bar>sint b\<bar>" using b by simp
    ultimately have "0 < \<bar>sint a\<bar> mod \<bar>sint b\<bar>" by (rule le_neq_trans [OF _ not_sym, rotated])
    then show ?thesis unfolding r smod_int_alt_def sgn_mult by simp
  qed (simp add: r smod_int_alt_def)
qed

lemma shr_value: "aluUpdate fp ptrs Shr [a, b, c] = Inr v \<Longrightarrow> sint v = sint a div 2 ^ nat (sint b)"
proof -
  let ?w = "signed_drop_bit (nat (sint b)) a"
  have w: "sint ?w = sint a div 2 ^ nat (sint b)" by (simp only: sint_signed_drop_bit_eq drop_bit_eq_div)
  assume "aluUpdate fp ptrs Shr [a, b, c] = Inr v"
  then have "v = word_of_int (sint ?w)"
    by (auto simp: aluUpdate.simps shr_def shift_count_def rbind_Inr_iff w split: if_splits)
  moreover have "word_of_int (sint ?w) = ?w" by simp
  ultimately show ?thesis by (simp only: w)
qed

section \<open>The unit of an unwired channel\<close>

text \<open>Nothing in the program fills \<open>operand\<close>: whatever the buffers hold, the unit then works on the three ones
  with which its inputs are initialised.\<close>

lemma fetch_fronts_total:
  assumes "length (chanBuffer c) \<le> length b"
  shows "\<exists>b'. fetch_fronts c b = Inr b' \<and> length b' = length b"
  unfolding fetch_fronts_def
  by (rule rfold_total [where P = "\<lambda>b'. length b' = length b"]) (use assms in \<open>auto split: list.splits\<close>)

lemma unwired_unit_ignores_data:
  assumes "ch_valid c" "length (chanBuffer c) \<le> in_slots c" "operand a = []" "aluInput a = [1, 1, 1]"
  shows "\<exists>b. funcUpdate at fp c (initAluInput c a) = rbind (aluUpdate fp [] (aluOp a) [1, 1, 1])
    (\<lambda>v. Inr (c\<lparr>ch_value := v\<rparr>, a\<lparr>buffer2Alu := b, aluInput := [1, 1, 1]\<rparr>))"
proof -
  have "length (resize (in_slots c) 0 (buffer2Alu a)) = in_slots c" by (simp add: resize_def)
  then obtain b where "fetch_fronts c (resize (in_slots c) 0 (buffer2Alu a)) = Inr b"
    using fetch_fronts_total [of c] assms(2) by metis
  then show ?thesis
    using assms by (intro exI [of _ b]) (simp add: funcUpdate_def initAluInput_def fetch_operands_def)
qed

section \<open>Store and load\<close>

text \<open>A store hands on the old element and leaves the others; a load of the same element then gets the value that
  was stored, and one of another element what it held.\<close>

lemma load_after_store:
  assumes "ch_valid c" "channel c = d # ds" "lse_isWrite l" "valueQueue l = w # ws" "array_index l d < length xs"
    and "ch_valid c'" "channel c' = d' # ds'" "\<not> lse_isWrite l'" "array_index l' d' < length xs"
  shows "\<exists>ys. lse_funcUpdate c l (Some xs) = Inr (c\<lparr>ch_value := xs ! array_index l d\<rparr>, Some ys)
    \<and> lse_funcUpdate c' l' (Some ys) = Inr (c'\<lparr>ch_value := (if array_index l' d' = array_index l d then w else xs ! array_index l' d')\<rparr>, Some ys)"
  using assms by (auto simp: lse_funcUpdate_def)

end
