(* ===== verification/PartitionReport.thy ===== *)
theory PartitionReport
  imports Subgraphs
begin

text \<open>
  The report at the end of a partition (\<open>Graph::printSubgraphPartition\<close>, \<open>sim/graph.cpp\<close>): the nodes of each part,
  the numbers that are printed, and when their computation fails. The three quotients that are printed
  as floating-point numbers are left aside.
\<close>

section \<open>The code\<close>

record partition_report =
  rep_parts :: "string list list"
  totalActualNodeNum :: nat
  normalMemAccessNum :: nat
  adjEdgeNum :: nat
  coalesce_rate :: nat

definition part_lines :: "nat \<Rightarrow> chan_node graph \<Rightarrow> string list list" where
  "part_lines divideNum g = map (\<lambda>i. map node_name (filter (\<lambda>x. node_subgraphId x = i) (nodes g))) [0..<divideNum]"

definition adjacentEdgeNum :: "chan_node graph \<Rightarrow> nat res" where
  "adjacentEdgeNum g = rfold (\<lambda>x. rfold (\<lambda>m k. rbind (getNode g m) (\<lambda>y.
     Inr (if node_subgraphId y \<noteq> node_subgraphId x then k + 1 else k))) (pre_nodes_data x @ pre_nodes_active x)) (nodes g) 0"

definition actualNodeNum :: "chan_node graph \<Rightarrow> nat" where
  "actualNodeNum g = length (filter (\<lambda>x. isPhysicalChan x \<and> cn_op x \<noteq> ''Nop'') (nodes g))"

definition memNormAccessNum :: "chan_node graph \<Rightarrow> nat" where
  "memNormAccessNum g = length (filter (\<lambda>x. cn_op x = ''Load'' \<or> cn_op x = ''Store'') (nodes g))"

definition divide_nat :: "nat \<Rightarrow> nat \<Rightarrow> nat res" where
  "divide_nat a b = (if b = 0 then Inl ModByZero else Inr (a div b))"

definition partition_coalesceRate :: "config \<Rightarrow> nat \<Rightarrow> nat \<Rightarrow> nat res" where
  "partition_coalesceRate c actual divideNum = rbind (divide_nat (bank_block_size c) (data_precision c)) (\<lambda>maxCoalesceRate.
     rbind (divide_nat actual divideNum) (\<lambda>k. rbind (divide_nat (array_size c) k) (\<lambda>r. Inr (min r maxCoalesceRate))))"

definition printSubgraphPartition :: "config \<Rightarrow> nat \<Rightarrow> chan_node graph \<Rightarrow> partition_report res" where
  "printSubgraphPartition c divideNum g = rbind (adjacentEdgeNum g) (\<lambda>e.
     rbind (partition_coalesceRate c (actualNodeNum g) divideNum) (\<lambda>r.
       Inr \<lparr>rep_parts = part_lines divideNum g, totalActualNodeNum = actualNodeNum g,
         normalMemAccessNum = memNormAccessNum g, adjEdgeNum = e, coalesce_rate = r\<rparr>))"

section \<open>The numbers\<close>

definition crossing :: "chan_node graph \<Rightarrow> chan_node \<Rightarrow> string \<Rightarrow> bool" where
  "crossing g x m \<longleftrightarrow> (case getNode g m of Inl _ \<Rightarrow> False | Inr y \<Rightarrow> node_subgraphId y \<noteq> node_subgraphId x)"

definition crossings :: "chan_node graph \<Rightarrow> nat" where
  "crossings g = (\<Sum>x\<leftarrow>nodes g. length (filter (crossing g x) (pre_nodes_data x @ pre_nodes_active x)))"

lemma rfold_count:
  "(\<And>x k. x \<in> set xs \<Longrightarrow> f x k = Inr (k + n x)) \<Longrightarrow> rfold f xs k = Inr (k + (\<Sum>x\<leftarrow>xs. n x))"
  by (induction xs arbitrary: k) (auto simp: add.assoc)

lemma sum_of_bool: "(\<Sum>m\<leftarrow>ms. of_bool (P m)) = length (filter P ms)"
  by (induction ms) auto

lemma adjacent_edges:
  assumes "\<forall>x\<in>set (nodes g). \<forall>m\<in>set (pre_nodes_data x @ pre_nodes_active x). \<exists>y. getNode g m = Inr y"
  shows "adjacentEdgeNum g = Inr (crossings g)"
proof -
  have "rfold (\<lambda>m k. rbind (getNode g m) (\<lambda>y. Inr (if node_subgraphId y \<noteq> node_subgraphId x then k + 1 else k)))
      (pre_nodes_data x @ pre_nodes_active x) k
    = Inr (k + length (filter (crossing g x) (pre_nodes_data x @ pre_nodes_active x)))" if "x \<in> set (nodes g)" for x and k :: nat
    unfolding sum_of_bool [symmetric] using that assms by (intro rfold_count) (fastforce simp: crossing_def)
  then have "adjacentEdgeNum g = Inr (0 + crossings g)" unfolding adjacentEdgeNum_def crossings_def by (rule rfold_count)
  then show ?thesis by simp
qed

text \<open>The report returns exactly if the data have a size and there is at least one physical node for each part;
  otherwise it divides by zero.\<close>

lemma report_outcome:
  assumes "graph_ok g" "known_names g"
  shows "printSubgraphPartition c d g =
    (if data_precision c = 0 \<or> d = 0 \<or> actualNodeNum g < d then Inl ModByZero
     else Inr \<lparr>rep_parts = part_lines d g, totalActualNodeNum = actualNodeNum g,
       normalMemAccessNum = memNormAccessNum g, adjEdgeNum = crossings g,
       coalesce_rate = min (array_size c div (actualNodeNum g div d)) (bank_block_size c div data_precision c)\<rparr>)"
proof -
  have "\<forall>x\<in>set (nodes g). \<forall>m\<in>set (pre_nodes_data x @ pre_nodes_active x). \<exists>y. getNode g m = Inr y"
  proof (intro ballI)
    fix x m assume "x \<in> set (nodes g)" "m \<in> set (pre_nodes_data x @ pre_nodes_active x)"
    then have "m \<in> node_names g" using assms(2) by (auto simp: known_names_def)
    then show "\<exists>y. getNode g m = Inr y" using graph_ok_name [OF assms(1)] graph_ok_nth(2) [OF assms(1)] by metis
  qed
  then show ?thesis
    by (simp add: printSubgraphPartition_def adjacent_edges partition_coalesceRate_def divide_nat_def div_eq_0_iff)
qed

text \<open>Each node is listed once, if the numbers of the subgraphs are below that of the parts.\<close>

lemma parts_cover:
  assumes "\<forall>x\<in>set (nodes g). node_subgraphId x < d"
  shows "mset (concat (part_lines d g)) = mset (map node_name (nodes g))"
proof -
  have "mset (concat (part_lines k g)) = image_mset node_name (filter_mset (\<lambda>x. node_subgraphId x < k) (mset (nodes g)))" for k
  proof (induction k)
    case (Suc k)
    have "filter_mset (\<lambda>x. node_subgraphId x < Suc k) M
        = filter_mset (\<lambda>x. node_subgraphId x < k) M + filter_mset (\<lambda>x. node_subgraphId x = k) M" for M :: "chan_node multiset"
      by (induction M) auto
    then show ?case using Suc by (simp add: part_lines_def)
  qed (simp add: part_lines_def)
  moreover have "filter_mset (\<lambda>x. node_subgraphId x < d) (mset (nodes g)) = mset (nodes g)"
    using assms by (simp add: filter_mset_eq_conv)
  ultimately show ?thesis by simp
qed

text \<open>Without a partition no connection crosses.\<close>

lemma one_part_no_crossings:
  assumes "\<forall>x\<in>set (nodes g). node_subgraphId x = i"
  shows "crossings g = 0"
proof -
  have "\<not> crossing g x m" if "x \<in> set (nodes g)" for x m
    using that assms by (auto simp: crossing_def getNode_def rbind_Inr_iff rnth_Inr_iff split: sum.splits)
  then show ?thesis by (simp add: crossings_def)
qed

end
