(* ===== verification/EntryPoint.thy ===== *)
theory EntryPoint
  imports DataTypes
begin

text \<open>
  The program's entry (\<open>main.cpp\<close>): its arguments, the names of the files of a run, and the benchmark that is
  run. The platform is Linux and the architecture that of the build.
\<close>

section \<open>The code\<close>

record options =
  o_dataset :: string
  o_arch_name :: string
  o_deg_th :: string

definition take_option :: "string \<Rightarrow> string \<Rightarrow> options \<Rightarrow> options option" where
  "take_option k v opts = (if k = ''--dataset'' then Some (opts\<lparr>o_dataset := v\<rparr>)
     else if k = ''--arch'' then Some (opts\<lparr>o_arch_name := v\<rparr>)
     else if k = ''--deg_th'' then Some (opts\<lparr>o_deg_th := v\<rparr>) else None)"

text \<open>Behind the last argument there is a null pointer, of which no string can be made.\<close>

fun parse_from :: "string list \<Rightarrow> options \<Rightarrow> (int \<times> options) res" where
  "parse_from [] opts = Inr (0, opts)"
| "parse_from [k] opts = (case take_option k [] opts of None \<Rightarrow> Inr (- 1, opts) | Some _ \<Rightarrow> Inl NullPointer)"
| "parse_from (k # v # as) opts = (case take_option k v opts of None \<Rightarrow> Inr (- 1, opts) | Some opts \<Rightarrow> parse_from as opts)"

definition parseOptions :: "string list \<Rightarrow> options \<Rightarrow> (int \<times> options) res" where
  "parseOptions argv opts = (if length argv = 1 then Inr (- 1, opts) else parse_from (tl argv) opts)"

definition file_path :: "app_name \<Rightarrow> string" where
  "file_path app = ''./DataflowSim/resource/'' @ app_name_toString app @ ''/''"

definition run_name :: "options \<Rightarrow> string" where
  "run_name opts = o_dataset opts @ ''_'' @ o_arch_name opts
     @ (if o_arch_name opts \<noteq> ''delta-gnn'' \<and> o_arch_name opts \<noteq> ''delta-gnn-opt'' then [] else ''_'' @ o_deg_th opts) @ ''.txt''"

definition input_file_path :: "app_name \<Rightarrow> options \<Rightarrow> string" where
  "input_file_path app opts = file_path app @ ''mem_trace/'' @ run_name opts"

definition log_file_path :: "app_name \<Rightarrow> options \<Rightarrow> string" where
  "log_file_path app opts = file_path app @ ''results/'' @ run_name opts"

datatype benchmark =
    gemm_Base_auto_sim | gemm_DGSF | bfs_SGMF | aes_Base | aes_DGSF | lud_Base_auto | lud_DGSF | fft_Base
  | viterbi_Base | cfd_Base | gesummv_Base | sort_Base | ge_Base | cholesky_Base | hotSpot_Base
  | gcn_Base_trace_systolic (trace: string) (args: options)

definition main_select :: "app_name \<Rightarrow> archType \<Rightarrow> options \<Rightarrow> benchmark option" where
  "main_select app arch opts = (case (app, arch) of
       (Gemm, ArchBase) \<Rightarrow> Some gemm_Base_auto_sim
     | (Gemm, ArchDGSF) \<Rightarrow> Some gemm_DGSF
     | (Bfs, ArchSGMF) \<Rightarrow> Some bfs_SGMF
     | (Aes, ArchBase) \<Rightarrow> Some aes_Base
     | (Aes, ArchDGSF) \<Rightarrow> Some aes_DGSF
     | (Lud, ArchBase) \<Rightarrow> Some lud_Base_auto
     | (Lud, ArchDGSF) \<Rightarrow> Some lud_DGSF
     | (FFT, ArchBase) \<Rightarrow> Some fft_Base
     | (Viterbi, ArchBase) \<Rightarrow> Some viterbi_Base
     | (Cfd, ArchBase) \<Rightarrow> Some cfd_Base
     | (Gesummv, ArchBase) \<Rightarrow> Some gesummv_Base
     | (Sort, ArchBase) \<Rightarrow> Some sort_Base
     | (Ge, ArchBase) \<Rightarrow> Some ge_Base
     | (Cholesky, ArchBase) \<Rightarrow> Some cholesky_Base
     | (HotSpot, ArchBase) \<Rightarrow> Some hotSpot_Base
     | (GCN, ArchBase) \<Rightarrow> Some (gcn_Base_trace_systolic (input_file_path app opts) opts)
     | _ \<Rightarrow> None)"

text \<open>The call of \<open>parseOptions\<close> is commented out: the arguments have fixed values.\<close>

definition fixed_options :: options where
  "fixed_options = \<lparr>o_dataset = ''citeseer'', o_arch_name = ''hygcn'', o_deg_th = []\<rparr>"

definition main_run :: "string list \<Rightarrow> string \<times> benchmark option" where
  "main_run argv = (log_file_path GCN fixed_options, main_select GCN ArchBase fixed_options)"

section \<open>Arguments\<close>

lemma main_ignores_arguments:
  "main_run argv = (''./DataflowSim/resource/gcn/results/citeseer_hygcn.txt'',
     Some (gcn_Base_trace_systolic ''./DataflowSim/resource/gcn/mem_trace/citeseer_hygcn.txt'' fixed_options))"
  by (simp add: main_run_def main_select_def log_file_path_def input_file_path_def file_path_def run_name_def fixed_options_def)

definition option_key :: "string \<Rightarrow> bool" where
  "option_key k \<longleftrightarrow> k = ''--dataset'' \<or> k = ''--arch'' \<or> k = ''--deg_th''"

lemma take_option_key: "take_option k v opts = None \<longleftrightarrow> \<not> option_key k"
  by (auto simp: take_option_def option_key_def)

lemma take_option_Some: "take_option k v opts = Some w \<Longrightarrow> option_key k"
  using take_option_key by (metis option.distinct(1))

fun arguments :: "(string \<times> string) list \<Rightarrow> string list" where
  "arguments [] = []"
| "arguments ((k, v) # kvs) = k # v # arguments kvs"

definition last_value :: "string \<Rightarrow> (string \<times> string) list \<Rightarrow> string \<Rightarrow> string" where
  "last_value k kvs v = fold (\<lambda>(l, w) v. if l = k then w else v) kvs v"

text \<open>Of an option that is given several times the last value counts.\<close>

lemma parse_values:
  "\<forall>(k, v)\<in>set kvs. option_key k \<Longrightarrow>
    parse_from (arguments kvs @ rest) opts = parse_from rest \<lparr>o_dataset = last_value ''--dataset'' kvs (o_dataset opts),
      o_arch_name = last_value ''--arch'' kvs (o_arch_name opts), o_deg_th = last_value ''--deg_th'' kvs (o_deg_th opts)\<rparr>"
proof (induction kvs arbitrary: opts)
  case (Cons p kvs)
  obtain k v where p: "p = (k, v)" by (cases p)
  then have "k = ''--dataset'' \<or> k = ''--arch'' \<or> k = ''--deg_th''" using Cons.prems by (simp add: option_key_def)
  then show ?case using Cons by (auto simp: p take_option_def last_value_def)
next
  case Nil
  show ?case by (cases opts) (simp add: last_value_def)
qed

lemma options_parsed:
  assumes "kvs \<noteq> []" "\<forall>(k, v)\<in>set kvs. option_key k"
  shows "parseOptions (prog # arguments kvs) opts = Inr (0, \<lparr>o_dataset = last_value ''--dataset'' kvs (o_dataset opts),
    o_arch_name = last_value ''--arch'' kvs (o_arch_name opts), o_deg_th = last_value ''--deg_th'' kvs (o_deg_th opts)\<rparr>)"
  using assms parse_values [OF assms(2), of "[]"] by (cases kvs rule: arguments.cases) (auto simp: parseOptions_def)

lemma value_missing:
  assumes "\<forall>(k, v)\<in>set kvs. option_key k"
  shows "parseOptions (prog # arguments kvs @ [k]) opts = Inl NullPointer \<longleftrightarrow> option_key k"
  using parse_values [OF assms, of "[k]"] by (auto simp: parseOptions_def take_option_key dest: take_option_Some split: option.splits)

end
