(* ===== verification/Spec2Isabelle.thy ===== *)
theory Spec2Isabelle
  imports MemSystemRounds CacheServer UnitMarks Unrolling LsePipe GraphOrder ChanGraphGen SpecialMode Subgraphs SchedulerChoice Boundaries Profiler Watchdog LoopTokens RegistryNetwork RegistryTable SimConfig GraphEdit GraphPlot TraceFile GcnTrace Arithmetic PartitionReport EntryPoint
begin

text \<open>
  DataflowSim is a cycle-level simulator of coarse-grained dataflow architectures. A benchmark describes
  its kernel as a dataflow graph; the simulator turns it into a graph of channels, inserts the channels
  that the architecture needs, creates a module for each of them and runs them against a model of the
  memory hierarchy. The development models the simulator proper, \<open>src/DataflowSim/src\<close>, and the benchmark that it runs; a path below is
  relative to \<open>src/DataflowSim/src\<close>, where it does not start with \<open>test\<close>. Each definition has the name of the function it models, with a prefix where two
  classes have a function of the same name.

  \<^bold>\<open>Conventions.\<close> A member function is a function on a record of the object's members that returns the
  changed record. An error (\<open>Debug::throwError\<close>, an index out of bounds, the front of an empty queue, a
  null pointer, a division by zero) is a value \<open>Inl\<close> of the type \<open>res\<close> of \<open>Prelude\<close>; \<open>rbind\<close>, \<open>rfold\<close> and
  \<open>rmap\<close> run statements, loops and element-wise updates that may fail. A loop that need not end is a
  \<open>partial_function (option)\<close> whose value \<open>None\<close> means that it does not return, and that it returns is
  proved. Addresses and identifiers that the code masks or shifts are words of the code's width;
  counters and sizes are natural numbers, and where their wrap-around shows (the edge weights, the
  levels of the printed clusters, the split point) it is written out. Shared objects (channels that hold
  pointers to each other) live in a heap, a list indexed by the pointer.

  \<^bold>\<open>Data, parameters, clock\<close> (\<open>DataTypes\<close>: \<open>module/DataType.h\<close>, \<open>module/EnumType.h\<close>, \<open>sim/global.cpp\<close>,
  \<open>module/ClkSys.cpp\<close>). The records of requests and data, the parameters with their loading from a
  document, and the clock, which advances in the iterations without a stall.

  \<^bold>\<open>Memory hierarchy.\<close> \<open>MemoryDataBus\<close> (\<open>module/mem/MemoryDataBus.cpp\<close>) delays the completions of the DRAM, each by the same number of cycles;
  \<open>Mshr\<close> (\<open>module/mem/Mshr.cpp\<close>) is the miss table. \<open>CacheState\<close> and \<open>Cache\<close> hold the state and all operations
  of \<open>module/mem/Cache.cpp\<close>; \<open>CacheLines\<close> proves what look-ups, fills and replacements do to the lines,
  \<open>CacheWriteBack\<close> what is written back, \<open>CacheQueues\<close> that no operation loses or duplicates a request,
  and \<open>CacheServer\<close> that the cache answers every request it accepts at most once and keeps it until then.
  The locale \<open>request_server\<close> states that contract with abstract operations; the cache and the
  scratchpad (\<open>Spm\<close>: \<open>module/mem/Spm.cpp\<close>) are its interpretations. \<open>Coalescer\<close>, \<open>Lse\<close> (the interface of the
  load/store units to the memory), \<open>MemSystem\<close> and \<open>MemSystemRounds\<close> (\<open>module/mem/Coalescer.cpp\<close>,
  \<open>module/execution/Lse.cpp\<close>, \<open>module/mem/MemSystem.cpp\<close>) model the arbitration between the units, both
  memory paths and the clock of the DRAM. The DRAM simulator is an argument: a state type with
  functions that tell whether it accepts a request, add one, and tick. \<open>MemSystemFlights\<close> proves
  that the stages of the memory system neither lose nor duplicate a request, on top of the contract of the
  cache, and \<open>UnitMarks\<close> that this holds in any interleaving with the cycles of the units, as long as no instance of a unit
  takes up a request that another instance is still offering: with several instances this can happen.

  \<^bold>\<open>Channels\<close> (\<open>module/execution/Channel.cpp\<close>, \<open>module/execution/Lse.cpp\<close>). \<open>Channel\<close> models the base class and
  the class \<open>ChanBase\<close>, \<open>ChannelClasses\<close> the other classes (for subgraph boundaries, tagged tokens, partial
  multiplexers, load/store units) and the dispatch of the virtual functions. \<open>ChannelNet\<close> proves that the
  simulation loop over any graph of plain channels is a lossless network: every edge transports the sequence of the data
  that its upstream announces, and no buffer overflows. \<open>LsePipe\<close> refines a load/store unit to a queue, and \<open>Unrolling\<close>
  relates the instances of an unrolled subgraph to the cycles of the clock.

  \<^bold>\<open>Graphs\<close> (\<open>sim/control_tree.cpp\<close>, \<open>sim/graph.cpp\<close>). \<open>ControlTree\<close>: the tree of control regions, its
  completion, traversal and printing. \<open>Graph\<close>: the operations of the base class; \<open>GraphConnect\<close> proves that
  completing the connections makes the two directions of a graph agree (the locale \<open>connection\<close> has
  the four kinds of connections as interpretations), \<open>GraphTraverse\<close> that the breadth-first traversal
  lists what can be reached, and \<open>GraphOrder\<close> that the order of the modules is found exactly on acyclic
  graphs and is topological. \<open>ChanGraph\<close>: both kinds of graphs and the passes on them; \<open>ChanGraphGen\<close>: the
  translation of constants. \<open>LoopHierarchy\<close> and \<open>SpecialMode\<close>: the path of loops between two nodes and the
  relay and scatter channels along it. \<open>Partition\<close> and \<open>Subgraphs\<close>: the weighted adjacency, its compressed
  rows, the partition into subgraphs and their numbering. \<open>Boundaries\<close> proves that the pass that inserts
  the channels between subgraphs rewires exactly the edges that cross, with the locale \<open>moved\<close> for the two
  kinds of edges. \<open>GraphEdit\<close> models the insertion of a node into the channel graph, and \<open>GraphPlot\<close> the plots of both
  graphs with a proof that the plot, read back, shows the edges of the graph.

  \<^bold>\<open>Scheduler\<close> (\<open>module/execution/GraphScheduler.cpp\<close>). \<open>Scheduler\<close> models the tables of producers and
  consumers, the checks of the channels, the choice of the next subgraph and the switch to it;
  \<open>SchedulerRule\<close> proves which channels the configuration opens and closes, \<open>SchedulerChoice\<close> which
  subgraph is chosen. The loops over the table end although a look-up may enlarge it, since it never
  gets a larger key.

  \<^bold>\<open>Loop control and multiplexer\<close> (\<open>module/execution/Lc.cpp\<close>, \<open>module/execution/Mux.cpp\<close>). \<open>Loops\<close> models
  both as compositions of channels, with their tagged variants; \<open>LoopEnds\<close> proves when a loop control
  finds a loop finished, by refinement to a count of iterations, and \<open>LoopTokens\<close> that it then, and only then, puts a token in the buffer
  of the channel \<open>sendEnd\<close>.

  \<^bold>\<open>Registry\<close> (\<open>module/Registry.cpp\<close>). \<open>Registry\<close>: the table of the modules, their creation from the nodes of
  a graph in the order of \<open>GraphOrder\<close>. \<open>RegistryConnect\<close>: their connection, the checks of the
  connections, the initialisation of the buffers, and the table of the scheduler. The objects that the
  code allocates with \<open>new\<close> are elements of three heaps (channels, multiplexers, loop controls).
  \<open>RegistryNetwork\<close> proves that a graph of plain channels becomes a network that satisfies the
  hypotheses of \<open>ChannelNet\<close>, with the edges of the graph, so that the two compose; \<open>RegistryTable\<close> that the
  scheduler gets the producers and consumers of each subgraph. \<open>SimConfig\<close> models the source text of the simulation loop that
  the registry writes and proves which modules it calls, in which order, by reading the text back: the channels that the nodes without
  predecessors lead to.

  \<^bold>\<open>Watchdog\<close> (\<open>sim/Watchdog.cpp\<close>). \<open>Watchdog\<close> models the samples of the channels' counters and proves in
  which iterations the dog barks.

  \<^bold>\<open>Profiler\<close> (\<open>module/Profiler.cpp\<close>). \<open>Profiler\<close> models the counters of the channels and the numbers of the
  reports, and proves what the reported peaks of the buffers are and when the report fails.

  \<^bold>\<open>Arithmetic, report and entry.\<close> \<open>Arithmetic\<close> models the arithmetic unit of the channels on 32-bit integers
  whose overflow is an error (\<open>Channel::aluUpdate\<close>, \<open>Channel::funcUpdate\<close>) and the array of a load/store unit
  (\<open>Lse::funcUpdate\<close>), and proves that the unit returns the exact value or fails. \<open>PartitionReport\<close> has the numbers
  that are reported for a partition, and when the report divides by zero. \<open>EntryPoint\<close> (\<open>main.cpp\<close>) has
  the arguments of the program, the names of its files and the choice of the benchmark.

  \<^bold>\<open>Benchmark driver\<close> (\<open>test/gcn/gcn.cpp\<close>, \<open>test/gcn/gcn_base_trace_systolic.cpp\<close>, \<open>util/ReadFile.hpp\<close>). \<open>TraceFile\<close>
  models how a trace is read, and proves that reading in blocks gives the whole file. \<open>GcnGraph\<close> is the dataflow
  graph of the benchmark and its way through all passes and the registry, \<open>GcnDriver\<close> the simulation loop, in which
  the watchdog, the clock, the loop control, the channels, the load/store unit, the memory system and the profiler
  are called in the order of the code. \<open>Frames\<close> proves which channels an operation leaves alone,
  \<open>UnitCalls\<close> what a channel and the unit behind it do in one call each, and \<open>GcnTrace\<close>, with both and with
  \<open>LsePipe\<close>, that the unit announces the addresses of the trace in the order of the file; its witness runs the network of the
  benchmark on a small trace. The loop is \<open>gcn_loop\<close>, which need not end; \<open>gcn_run\<close> collects
  what the unit announces in its first iterations (\<open>gcn_loop_run\<close> relates them).

  \<^bold>\<open>Parameters and hypotheses.\<close> The DRAM, the random numbers of the replacement, the contents of the
  configuration document, and the order in which a hash table is traversed are arguments. \<open>graph_ok\<close> says
  that a graph's dictionary lists its nodes, which have distinct names, as \<open>addNode\<close> keeps it;
  \<open>known_names\<close> that its connections name nodes. The bounds that occur (queue sizes, \<open>2 ^ 64\<close> regions) are
  those of the code's types and parameters; no fuel is used.

  \<^bold>\<open>Not modelled.\<close> The constructors of multiplexers and loop controls from existing channels are those of an older version.
  The reports (\<open>sim/Debug.cpp\<close>, the energies and the text of \<open>module/Profiler.cpp\<close>, the floating-point
  quotients of the report of the partition), which are output only; the macros and the unused utilities of \<open>define\<close> and
  \<open>util\<close>; the other benchmarks under \<open>test\<close>. The arithmetic unit of \<open>Arithmetic\<close> is not part of the
  hand-shake, as its calls are commented out. DRAMSim2, DRAMSim3, jsoncpp and METIS are third-party code.
\<close>

end
